(* ===== verification/Perseus_Prelude.thy ===== *)
theory Perseus_Prelude
  imports Main "HOL-Library.Word" "HOL-Library.List_Lexorder" "HOL-Library.Char_ord"
    "HOL-Library.Multiset"
begin

text \<open>
  Shared vocabulary of the Perseus model development: the failures a C++ handler can end in,
  the result type every handler returns, the range-for loop over such handlers, checked
  access to vectors and deques, \<open>std::map\<close> as an association list ordered by its keys, and the
  generic lemmas on lists and machine words the component theories rest on.
\<close>

section \<open>Failures and results\<close>

text \<open>
  A handler of the simulator ends normally or in one of these ways: a \<open>sparta_assert\<close> throws,
  a C \<open>assert\<close> aborts (the build sets no \<open>NDEBUG\<close>), \<open>std::map::at\<close> throws
  \<open>std::out_of_range\<close>, the C++ standard gives the code no meaning (an index outside a vector,
  \<open>front()\<close> of an empty container, a null pointer), another exception is thrown, or a loop does not
  return within the steps it was given. The string names the place.
\<close>

datatype sim_error =
    SpartaAssert string
  | CAssert string
  | OutOfRange string
  | Undefined string
  | Thrown string
  | NoReturn

type_synonym 'a result = "sim_error + 'a"

type_synonym u8 = "8 word"
type_synonym u16 = "16 word"
type_synonym u32 = "32 word"
type_synonym u64 = "64 word"

named_theorems result_simps \<open>rewriting sequences of fallible steps\<close>
named_theorems smap_simps \<open>rewriting ordered maps\<close>

definition bindE :: "'e + 'a \<Rightarrow> ('a \<Rightarrow> 'e + 'b) \<Rightarrow> 'e + 'b" where
  "bindE m f = (case m of Inl e \<Rightarrow> Inl e | Inr x \<Rightarrow> f x)"

definition assertE :: "bool \<Rightarrow> 'e \<Rightarrow> 'e + unit" where
  "assertE b e = (if b then Inr () else Inl e)"

fun foldE :: "('s \<Rightarrow> 'a \<Rightarrow> 'e + 's) \<Rightarrow> 's \<Rightarrow> 'a list \<Rightarrow> 'e + 's" where
  "foldE f s [] = Inr s"
| "foldE f s (x # xs) = bindE (f s x) (\<lambda>s'. foldE f s' xs)"

lemma bindE_Inl [simp, result_simps]: "bindE (Inl e) f = Inl e"
  by (simp add: bindE_def)

lemma bindE_Inr [simp, result_simps]: "bindE (Inr x) f = f x"
  by (simp add: bindE_def)

lemma assertE_True [simp, result_simps]: "assertE True e = Inr ()"
  by (simp add: assertE_def)

lemma assertE_False [simp, result_simps]: "assertE False e = Inl e"
  by (simp add: assertE_def)

lemma assertE_eq_Inr [simp, result_simps]: "assertE b e = Inr u \<longleftrightarrow> b"
  by (simp add: assertE_def)

lemma bindE_eq_Inr [result_simps]: "bindE m f = Inr y \<longleftrightarrow> (\<exists>x. m = Inr x \<and> f x = Inr y)"
  by (cases m) auto

lemma bindE_eq_Inl: "bindE m f = Inl e \<longleftrightarrow> m = Inl e \<or> (\<exists>x. m = Inr x \<and> f x = Inl e)"
  by (cases m) auto

lemma bindE_assoc: "bindE (bindE m f) g = bindE m (\<lambda>x. bindE (f x) g)"
  by (cases m) auto

lemma foldE_append: "foldE f s (xs @ ys) = bindE (foldE f s xs) (\<lambda>s'. foldE f s' ys)"
  by (induction xs arbitrary: s) (auto simp: bindE_assoc)

lemma foldE_snoc: "foldE f s (xs @ [x]) = bindE (foldE f s xs) (\<lambda>s'. f s' x)"
proof -
  have "(\<lambda>s'. bindE (f s' x) Inr) = (\<lambda>s'. f s' x)"
    by (rule ext) (simp add: bindE_def split: sum.splits)
  then show ?thesis by (simp add: foldE_append)
qed

text \<open>A loop body that keeps \<open>I\<close> and never fails runs to the end and keeps \<open>I\<close>.\<close>

lemma foldE_total:
  assumes step: "\<And>s x. I s \<Longrightarrow> x \<in> set xs \<Longrightarrow> \<exists>s'. f s x = Inr s' \<and> I s'"
    and "I s"
  shows "\<exists>s'. foldE f s xs = Inr s' \<and> I s'"
  using assms
proof (induction xs arbitrary: s)
  case Nil
  then show ?case by simp
next
  case (Cons x xs)
  from Cons.prems obtain s1 where "f s x = Inr s1" "I s1" by auto
  with Cons show ?case by auto
qed

text \<open>A loop whose body keeps the value of \<open>v\<close> keeps it.\<close>

lemma foldE_keeps:
  assumes "\<And>s x s'. f s x = Inr s' \<Longrightarrow> v s' = v s" and "foldE f s xs = Inr s'"
  shows "v s' = v s"
  using assms(2) by (induction xs arbitrary: s) (auto simp: bindE_eq_Inr dest: assms(1))

text \<open>A loop whose body succeeds as a plain function is that function's fold.\<close>

lemma foldE_pure: "(\<And>s x. x \<in> set xs \<Longrightarrow> f s x = Inr (g x s)) \<Longrightarrow> foldE f s xs = Inr (fold g xs s)"
  by (induction xs arbitrary: s) auto

section \<open>Vectors and deques\<close>

text \<open>
  \<open>v[i]\<close> outside the vector and \<open>d.front()\<close> of an empty deque have no meaning in C++; the
  model makes them failures of their own instead of unspecified values.
\<close>

definition vec_get :: "'a list \<Rightarrow> nat \<Rightarrow> 'a result" where
  "vec_get v i = (if i < length v then Inr (v ! i) else Inl (Undefined ''vector index''))"

definition vec_set :: "'a list \<Rightarrow> nat \<Rightarrow> 'a \<Rightarrow> 'a list result" where
  "vec_set v i x = (if i < length v then Inr (v[i := x]) else Inl (Undefined ''vector index''))"

definition deque_front :: "'a list \<Rightarrow> 'a result" where
  "deque_front d = (case d of [] \<Rightarrow> Inl (Undefined ''front of empty'') | x # _ \<Rightarrow> Inr x)"

definition deque_pop_front :: "'a list \<Rightarrow> 'a list result" where
  "deque_pop_front d = (case d of [] \<Rightarrow> Inl (Undefined ''pop_front of empty'') | _ # xs \<Rightarrow> Inr xs)"

lemma vec_get_in [simp]: "i < length v \<Longrightarrow> vec_get v i = Inr (v ! i)"
  by (simp add: vec_get_def)

lemma vec_get_eq_Inr [result_simps]: "vec_get v i = Inr x \<longleftrightarrow> i < length v \<and> x = v ! i"
  by (auto simp: vec_get_def)

lemma vec_set_in [simp]: "i < length v \<Longrightarrow> vec_set v i x = Inr (v[i := x])"
  by (simp add: vec_set_def)

lemma vec_set_eq_Inr [result_simps]: "vec_set v i x = Inr v' \<longleftrightarrow> i < length v \<and> v' = v[i := x]"
  by (auto simp: vec_set_def)

lemma deque_front_Cons [simp]: "deque_front (x # xs) = Inr x"
  by (simp add: deque_front_def)

lemma deque_front_Nil [simp]: "deque_front [] = Inl (Undefined ''front of empty'')"
  by (simp add: deque_front_def)

lemma deque_pop_front_Cons [simp]: "deque_pop_front (x # xs) = Inr xs"
  by (simp add: deque_pop_front_def)

lemma deque_pop_front_Nil [simp]: "deque_pop_front [] = Inl (Undefined ''pop_front of empty'')"
  by (simp add: deque_pop_front_def)

section \<open>Ordered maps\<close>

text \<open>
  \<open>std::map\<close> iterates in increasing key order, which the arbiters of the model depend on. It is
  an association list with strictly increasing keys; \<open>smap_set\<close> is \<open>m[k] = v\<close>, \<open>smap_at\<close> is
  \<open>m.at(k)\<close> and \<open>map_of\<close> is \<open>find\<close>. Strings are ordered by \<open>List_Lexorder\<close>, as
  \<open>std::string\<close> is.
\<close>

type_synonym ('k, 'v) smap = "('k \<times> 'v) list"

fun smap_set :: "'k::linorder \<Rightarrow> 'v \<Rightarrow> ('k, 'v) smap \<Rightarrow> ('k, 'v) smap" where
  "smap_set k v [] = [(k, v)]"
| "smap_set k v ((k', v') # m) =
     (if k < k' then (k, v) # (k', v') # m
      else if k = k' then (k, v) # m
      else (k', v') # smap_set k v m)"

definition smap_at :: "('k, 'v) smap \<Rightarrow> 'k \<Rightarrow> 'v result" where
  "smap_at m k = (case map_of m k of None \<Rightarrow> Inl (OutOfRange ''map::at'') | Some v \<Rightarrow> Inr v)"

definition smap_get_default :: "'v \<Rightarrow> ('k, 'v) smap \<Rightarrow> 'k \<Rightarrow> 'v" where
  "smap_get_default d m k = (case map_of m k of None \<Rightarrow> d | Some v \<Rightarrow> v)"

definition smap_wf :: "('k::linorder, 'v) smap \<Rightarrow> bool" where
  "smap_wf m \<longleftrightarrow> sorted_wrt (<) (map fst m)"

lemma map_of_smap_set [simp, smap_simps]:
  "smap_wf m \<Longrightarrow> map_of (smap_set k v m) = (map_of m)(k \<mapsto> v)"
proof (induction k v m rule: smap_set.induct)
  case (1 k v)
  then show ?case by simp
next
  case (2 k v k' v' m)
  show ?case
  proof (cases "k < k'")
    case True
    with "2.prems" have "map_of m k = None"
      by (auto simp: smap_wf_def map_of_eq_None_iff)
    with True show ?thesis by (auto simp: fun_eq_iff)
  next
    case False
    with 2 show ?thesis by (auto simp: smap_wf_def fun_eq_iff)
  qed
qed

lemma fst_set_smap_set: "fst ` set (smap_set k v m) = insert k (fst ` set m)"
  by (induction k v m rule: smap_set.induct) auto

lemma smap_wf_smap_set [simp]: "smap_wf m \<Longrightarrow> smap_wf (smap_set k v m)"
proof (induction k v m rule: smap_set.induct)
  case (1 k v)
  then show ?case by (simp add: smap_wf_def)
next
  case (2 k v k' v' m)
  have "set (map fst (smap_set k v m)) = insert k (set (map fst m))"
    using fst_set_smap_set [of k v m] by simp
  with 2 show ?case by (auto simp: smap_wf_def)
qed

lemma smap_wf_Nil [simp]: "smap_wf []"
  by (simp add: smap_wf_def)

lemma smap_wf_distinct: "smap_wf m \<Longrightarrow> distinct (map fst m)"
  by (simp add: smap_wf_def strict_sorted_iff)

lemma smap_at_eq_Inr [result_simps]: "smap_at m k = Inr v \<longleftrightarrow> map_of m k = Some v"
  by (auto simp: smap_at_def split: option.splits)

lemma smap_set_keys_unchanged:
  "k \<in> set (map fst m) \<Longrightarrow> smap_wf m \<Longrightarrow> map fst (smap_set k v m) = map fst m"
  by (induction k v m rule: smap_set.induct) (auto simp: smap_wf_def)

section \<open>Machine words\<close>

lemma unat_plus_one_less:
  fixes x y :: "'w::len word"
  assumes "x < y"
  shows "unat (x + 1) = unat x + 1"
proof -
  have "unat x < unat y" using assms by (simp add: word_less_nat_alt)
  moreover have "unat y < 2 ^ LENGTH('w)" by (rule unsigned_less)
  ultimately have "Suc (unat x) < 2 ^ LENGTH('w)" by linarith
  then show ?thesis by (simp add: unat_word_ariths)
qed

lemma unat_minus_one_pos:
  fixes x :: "'w::len word"
  assumes "x \<noteq> 0"
  shows "unat (x - 1) = unat x - 1"
  using assms by (simp add: unat_minus_one)

lemma unat_diff_le:
  fixes x y :: "'w::len word"
  shows "y \<le> x \<Longrightarrow> unat (x - y) = unat x - unat y"
  by (simp add: unat_sub)

lemma unat_minus_of_nat:
  fixes c :: "'w::len word"
  assumes "k \<le> unat c"
  shows "unat (c - word_of_nat k) = unat c - k"
proof -
  have "unat c < 2 ^ LENGTH('w)" by (rule unsigned_less)
  with assms have "k < 2 ^ LENGTH('w)" by linarith
  then have k: "unat (word_of_nat k :: 'w word) = k" by (simp add: unat_of_nat)
  then have "word_of_nat k \<le> c" using assms by (simp add: word_le_nat_alt)
  with k show ?thesis by (simp add: unat_diff_le)
qed

lemma unat_inj_iff: "unat x = unat y \<longleftrightarrow> x = y"
  by (simp add: word_unat_eq_iff)

lemma word_less_succ:
  fixes x :: "'w::len word"
  assumes "x \<noteq> - 1"
  shows "x < x + 1"
proof -
  have "x < - 1" using assms by (simp add: word_order.not_eq_extremum)
  then show ?thesis by (simp add: word_less_nat_alt unat_plus_one_less)
qed

lemma unat_ucast_u64 [simp]: "unat (ucast (x :: u32) :: u64) = unat x"
proof -
  have "unat x < 2 ^ 64" by (rule less_le_trans [OF unsigned_less]) simp
  then show ?thesis by (simp add: unsigned_ucast_eq take_bit_nat_eq_self)
qed

section \<open>Lists\<close>

lemma filter_length_zero: "length (filter P xs) = 0 \<longleftrightarrow> (\<forall>x \<in> set xs. \<not> P x)"
  by (auto simp: filter_empty_conv)

lemma dropWhile_takeWhile_length: "length (takeWhile P xs) + length (dropWhile P xs) = length xs"
  by (metis length_append takeWhile_dropWhile_id)

section \<open>Numbers as text\<close>

text \<open>\<open>std::to_string\<close>.\<close>

fun nat_to_string :: "nat \<Rightarrow> string" where
  "nat_to_string n =
     (if n < 10 then [char_of (48 + n)] else nat_to_string (n div 10) @ [char_of (48 + n mod 10)])"

declare nat_to_string.simps [simp del]

definition int_to_string :: "int \<Rightarrow> string" where
  "int_to_string i = (if i < 0 then CHR ''-'' # nat_to_string (nat (- i)) else nat_to_string (nat i))"

end
