(* ===== verification/Queue_Interface.thy ===== *)
theory Queue_Interface
  imports Perseus_Prelude
begin

text \<open>
  The contract of a bounded first-in-first-out queue over a fixed array, and what its clients may
  conclude from it. Three ring buffers of the repository promise it: \<open>resources/LoopQueue.hpp\<close>
  (the reorder buffer's storage) and the two queues under \<open>legacy/\<close>. The arithmetic of a ring read
  as a list is proved once here.
\<close>

section \<open>A ring buffer read as a list\<close>

definition ring_list :: "'a list \<Rightarrow> nat \<Rightarrow> nat \<Rightarrow> 'a list" where
  "ring_list d h u = map (\<lambda>i. d ! ((h + i) mod length d)) [0..<u]"

lemma length_ring_list [simp]: "length (ring_list d h u) = u"
  by (simp add: ring_list_def)

lemma nth_ring_list: "i < u \<Longrightarrow> ring_list d h u ! i = d ! ((h + i) mod length d)"
  by (simp add: ring_list_def)

lemma ring_list_0 [simp]: "ring_list d h 0 = []"
  by (simp add: ring_list_def)

lemma ring_index_inj:
  fixes h i j n :: nat
  assumes "i < j" "j < i + n"
  shows "(h + i) mod n \<noteq> (h + j) mod n"
proof
  assume "(h + i) mod n = (h + j) mod n"
  then have "n dvd (h + j) - (h + i)"
    using assms by (metis mod_eq_dvd_iff_nat add_le_cancel_left less_imp_le)
  then have "n dvd j - i" by simp
  with assms show False by (auto dest: dvd_imp_le)
qed

lemma ring_list_push:
  assumes "u < length d"
  shows "ring_list (d[(h + u) mod length d := x]) h (Suc u) = ring_list d h u @ [x]"
proof (rule nth_equalityI)
  fix i assume "i < length (ring_list (d[(h + u) mod length d := x]) h (Suc u))"
  then have i: "i < Suc u" by simp
  show "ring_list (d[(h + u) mod length d := x]) h (Suc u) ! i = (ring_list d h u @ [x]) ! i"
  proof (cases "i = u")
    case True
    have "(h + u) mod length d < length d" using assms by (intro mod_less_divisor) linarith
    with True show ?thesis by (simp add: nth_ring_list nth_append)
  next
    case False
    with i have "i < u" by simp
    with assms have "(h + i) mod length d \<noteq> (h + u) mod length d"
      by (intro ring_index_inj) auto
    with \<open>i < u\<close> show ?thesis by (simp add: nth_ring_list nth_append)
  qed
qed simp

lemma ring_list_pop:
  assumes "0 < u" "h < length d"
  shows "ring_list d ((h + 1) mod length d) (u - 1) = tl (ring_list d h u)"
proof (rule nth_equalityI)
  fix i assume "i < length (ring_list d ((h + 1) mod length d) (u - 1))"
  then show "ring_list d ((h + 1) mod length d) (u - 1) ! i = tl (ring_list d h u) ! i"
    by (simp add: nth_ring_list nth_tl mod_add_left_eq)
qed simp

lemma ring_list_pop_back: "0 < u \<Longrightarrow> ring_list d h (u - 1) = butlast (ring_list d h u)"
  by (rule nth_equalityI) (simp_all add: nth_ring_list nth_butlast)

lemma ring_list_hd: "0 < u \<Longrightarrow> h < length d \<Longrightarrow> hd (ring_list d h u) = d ! h"
  by (simp add: hd_conv_nth nth_ring_list flip: length_greater_0_conv)

lemma ring_list_last: "0 < u \<Longrightarrow> last (ring_list d h u) = d ! ((h + (u - 1)) mod length d)"
  by (simp add: last_conv_nth nth_ring_list flip: length_greater_0_conv)

lemma ring_succ:
  fixes i n :: nat
  assumes "i < n"
  shows "(if i = n - 1 then 0 else i + 1) = (i + 1) mod n"
  using assms by auto

lemma ring_pred:
  fixes i n :: nat
  assumes "i < n"
  shows "(if i = 0 then n - 1 else i - 1) = (i + n - 1) mod n"
  using assms by (auto simp: mod_if)

section \<open>The interface and its clients\<close>

fun drainE :: "('q \<Rightarrow> 'a result) \<Rightarrow> ('q \<Rightarrow> 'q result) \<Rightarrow> nat \<Rightarrow> 'q \<Rightarrow> ('a list \<times> 'q) result" where
  "drainE front pop 0 q = Inr ([], q)"
| "drainE front pop (Suc n) q =
     bindE (front q) (\<lambda>x. bindE (pop q) (\<lambda>q'. bindE (drainE front pop n q') (\<lambda>(xs, r). Inr (x # xs, r))))"

locale bounded_queue =
  fixes push :: "'q \<Rightarrow> 'a \<Rightarrow> 'q result"
    and pop :: "'q \<Rightarrow> 'q result"
    and front :: "'q \<Rightarrow> 'a result"
    and capacity :: "'q \<Rightarrow> nat"
    and content :: "'q \<Rightarrow> 'a list"
    and inv :: "'q \<Rightarrow> bool"
  assumes push_ok: "inv q \<Longrightarrow> length (content q) < capacity q \<Longrightarrow>
      \<exists>q'. push q x = Inr q' \<and> inv q' \<and> content q' = content q @ [x] \<and> capacity q' = capacity q"
    and push_full: "inv q \<Longrightarrow> length (content q) = capacity q \<Longrightarrow> \<exists>e. push q x = Inl e"
    and pop_ok: "inv q \<Longrightarrow> content q \<noteq> [] \<Longrightarrow>
      \<exists>q'. pop q = Inr q' \<and> inv q' \<and> content q' = tl (content q) \<and> capacity q' = capacity q"
    and pop_empty: "inv q \<Longrightarrow> content q = [] \<Longrightarrow> \<exists>e. pop q = Inl e"
    and front_ok: "inv q \<Longrightarrow> content q \<noteq> [] \<Longrightarrow> front q = Inr (hd (content q))"
    and bounded: "inv q \<Longrightarrow> length (content q) \<le> capacity q"
begin

text \<open>Pushing a batch succeeds exactly when it fits.\<close>

lemma push_all_ok:
  assumes "inv q" "length (content q) + length xs \<le> capacity q"
  shows "\<exists>q'. foldE push q xs = Inr q' \<and> inv q' \<and> content q' = content q @ xs
    \<and> capacity q' = capacity q"
  using assms
proof (induction xs arbitrary: q)
  case Nil
  then show ?case by simp
next
  case (Cons x xs)
  then obtain q1 where q1: "push q x = Inr q1" "inv q1" "content q1 = content q @ [x]"
      "capacity q1 = capacity q"
    using push_ok [of q x] by auto
  with Cons.prems Cons.IH [of q1] show ?case by auto
qed

lemma push_all_overflow:
  assumes "inv q" "capacity q < length (content q) + length xs"
  shows "\<exists>e. foldE push q xs = Inl e"
  using assms
proof (induction xs arbitrary: q)
  case Nil
  then show ?case using bounded [of q] by simp
next
  case (Cons x xs)
  show ?case
  proof (cases "length (content q) < capacity q")
    case True
    then obtain q1 where "push q x = Inr q1" "inv q1" "content q1 = content q @ [x]"
        "capacity q1 = capacity q"
      using push_ok [of q x] Cons.prems by auto
    with Cons show ?thesis by auto
  next
    case False
    with bounded [of q] Cons.prems have "length (content q) = capacity q" by simp
    then obtain e where "push q x = Inl e" using push_full [of q x] Cons.prems by auto
    then show ?thesis by simp
  qed
qed

text \<open>Draining returns the oldest elements in order.\<close>

lemma drain_ok:
  assumes "inv q" "n \<le> length (content q)"
  shows "\<exists>q'. drainE front pop n q = Inr (take n (content q), q') \<and> inv q'
    \<and> content q' = drop n (content q) \<and> capacity q' = capacity q"
  using assms
proof (induction n arbitrary: q)
  case 0
  then show ?case by simp
next
  case (Suc n)
  then have ne: "content q \<noteq> []" by auto
  then obtain q1 where q1: "pop q = Inr q1" "inv q1" "content q1 = tl (content q)"
      "capacity q1 = capacity q"
    using pop_ok [of q] Suc.prems by auto
  with Suc obtain q2 where "drainE front pop n q1 = Inr (take n (content q1), q2)" "inv q2"
      "content q2 = drop n (content q1)" "capacity q2 = capacity q1"
    by fastforce
  with q1 ne Suc.prems(1) show ?case
    by (cases "content q") (auto simp: front_ok)
qed

text \<open>First in, first out: a batch that fits an empty queue comes back unchanged.\<close>

lemma fifo:
  assumes "inv q" "content q = []" "length xs \<le> capacity q"
  shows "\<exists>q' q''. foldE push q xs = Inr q' \<and> drainE front pop (length xs) q' = Inr (xs, q'')
    \<and> content q'' = []"
proof -
  obtain q' where q': "foldE push q xs = Inr q'" "inv q'" "content q' = xs"
    using push_all_ok [of q xs] assms by auto
  with drain_ok [of q' "length xs"] show ?thesis by auto
qed

end

end
