(* ===== verification/Loop_Queue.thy ===== *)
theory Loop_Queue
  imports Queue_Interface
begin

text \<open>
  \<open>src/resources/LoopQueue.hpp\<close>: the ring buffer behind the reorder buffer. Pointers, usage count
  and depth are \<open>uint32_t\<close> and wrap; every \<open>assert\<close> of the class is a branch. The theory shows that
  the queue refines a bounded list, interprets \<^verbatim>\<open>bounded_queue\<close> on it, and settles what its
  iterators visit and when \<open>isValid\<close> can be trusted.
\<close>

section \<open>State and operations\<close>

record 'a LoopQueue =
  dataList :: "'a list"
  head :: u32
  tail :: u32
  usage :: u32
  depth :: u32
  invalid_idx :: u32
  is_rolling :: bool

definition lq_clear :: "'a LoopQueue \<Rightarrow> 'a LoopQueue" where
  "lq_clear q = q\<lparr>tail := 0, head := 0, usage := 0, is_rolling := False\<rparr>"

text \<open>\<open>new DataT[depth]\<close> default-constructs the entries; \<open>dflt\<close> is the default-constructed one.\<close>

definition mk_LoopQueue :: "'a \<Rightarrow> u32 \<Rightarrow> 'a LoopQueue" where
  "mk_LoopQueue dflt d =
     lq_clear \<lparr>dataList = replicate (unat d) dflt, head = 0, tail = 0, usage = 0, depth = d,
               invalid_idx = d + 1, is_rolling = False\<rparr>"

definition lq_capacity :: "'a LoopQueue \<Rightarrow> u32" where
  "lq_capacity q = depth q"

definition lq_size :: "'a LoopQueue \<Rightarrow> u32 result" where
  "lq_size q =
     bindE (assertE (of_bool (is_rolling q) * depth q - head q + tail q = usage q) (CAssert ''size''))
       (\<lambda>_. Inr (of_bool (is_rolling q) * depth q - head q + tail q))"

definition lq_numFree :: "'a LoopQueue \<Rightarrow> u32 result" where
  "lq_numFree q = bindE (lq_size q) (\<lambda>n. Inr (depth q - n))"

definition lq_full :: "'a LoopQueue \<Rightarrow> bool result" where
  "lq_full q = bindE (lq_size q) (\<lambda>n. Inr (n = depth q))"

definition lq_empty :: "'a LoopQueue \<Rightarrow> bool result" where
  "lq_empty q = bindE (lq_size q) (\<lambda>n. Inr (n = 0))"

definition lq_isValid :: "'a LoopQueue \<Rightarrow> u32 \<Rightarrow> bool" where
  "lq_isValid q idx = (let in_scope = (idx \<ge> head q \<and> idx < tail q) in is_rolling q \<noteq> in_scope)"

definition lq_read :: "'a LoopQueue \<Rightarrow> u64 \<Rightarrow> 'a result" where
  "lq_read q idx = vec_get (dataList q) (unat idx)"

text \<open>\<open>access\<close> returns a reference; writing through it is \<open>lq_access_set\<close>.\<close>

definition lq_access :: "'a LoopQueue \<Rightarrow> u64 \<Rightarrow> 'a result" where
  "lq_access q idx = vec_get (dataList q) (unat idx)"

definition lq_access_set :: "'a LoopQueue \<Rightarrow> u64 \<Rightarrow> 'a \<Rightarrow> 'a LoopQueue result" where
  "lq_access_set q idx x = bindE (vec_set (dataList q) (unat idx) x) (\<lambda>d. Inr (q\<lparr>dataList := d\<rparr>))"

definition lq_front :: "'a LoopQueue \<Rightarrow> 'a result" where
  "lq_front q = vec_get (dataList q) (unat (head q))"

definition lq_front_set :: "'a LoopQueue \<Rightarrow> 'a \<Rightarrow> 'a LoopQueue result" where
  "lq_front_set q x = bindE (vec_set (dataList q) (unat (head q)) x) (\<lambda>d. Inr (q\<lparr>dataList := d\<rparr>))"

definition incrementIndexValue :: "'a LoopQueue \<Rightarrow> u32 \<Rightarrow> u32" where
  "incrementIndexValue q idx = (if idx = depth q - 1 then 0 else idx + 1)"

definition decrementIndexValue :: "'a LoopQueue \<Rightarrow> u32 \<Rightarrow> u32" where
  "decrementIndexValue q idx = (if idx = 0 then depth q - 1 else idx - 1)"

definition incrementPointer :: "'a LoopQueue \<Rightarrow> u32 \<Rightarrow> 'a LoopQueue \<times> u32" where
  "incrementPointer q idx =
     (let q = (if idx = depth q - 1 then q\<lparr>is_rolling := \<not> is_rolling q\<rparr> else q)
      in (q, incrementIndexValue q idx))"

definition decrementPointer :: "'a LoopQueue \<Rightarrow> u32 \<Rightarrow> 'a LoopQueue \<times> u32" where
  "decrementPointer q idx =
     (let q = (if idx = 0 then q\<lparr>is_rolling := \<not> is_rolling q\<rparr> else q)
      in (q, decrementIndexValue q idx))"

definition lq_back :: "'a LoopQueue \<Rightarrow> 'a result" where
  "lq_back q = vec_get (dataList q) (unat (decrementIndexValue q (tail q)))"

text \<open>\<open>push\<close> returns an iterator whose index is the slot that was filled.\<close>

definition lq_push :: "'a LoopQueue \<Rightarrow> 'a \<Rightarrow> ('a LoopQueue \<times> u32) result" where
  "lq_push q x =
     bindE (lq_full q) (\<lambda>f. bindE (assertE (\<not> f) (CAssert ''push: full''))
     (\<lambda>_. bindE (vec_set (dataList q) (unat (tail q)) x)
     (\<lambda>d. let q = q\<lparr>dataList := d\<rparr>;
              allocate_idx = tail q;
              q = q\<lparr>usage := usage q + 1\<rparr>;
              (q, t) = incrementPointer q (tail q)
          in Inr (q\<lparr>tail := t\<rparr>, allocate_idx))))"

definition lq_pop :: "'a LoopQueue \<Rightarrow> 'a LoopQueue result" where
  "lq_pop q =
     bindE (lq_empty q) (\<lambda>e. bindE (assertE (\<not> e) (CAssert ''pop: empty''))
     (\<lambda>_. let q = q\<lparr>usage := usage q - 1\<rparr>;
              (q, h) = incrementPointer q (head q)
          in Inr (q\<lparr>head := h\<rparr>)))"

definition lq_pop_back :: "'a LoopQueue \<Rightarrow> 'a LoopQueue result" where
  "lq_pop_back q =
     bindE (lq_empty q) (\<lambda>e. bindE (assertE (\<not> e) (CAssert ''pop_back: empty''))
     (\<lambda>_. let q = q\<lparr>usage := usage q - 1\<rparr>;
              (q, t) = decrementPointer q (tail q)
          in Inr (q\<lparr>tail := t\<rparr>)))"

subsection \<open>Iterators\<close>

text \<open>An iterator is an index into the queue it is attached to.\<close>

record LoopQueueIterator =
  attached :: bool
  itr_index :: u32

definition lq_iterator :: "u32 \<Rightarrow> LoopQueueIterator" where
  "lq_iterator i = \<lparr>attached = True, itr_index = i\<rparr>"

definition lq_begin :: "'a LoopQueue \<Rightarrow> LoopQueueIterator result" where
  "lq_begin q = bindE (lq_empty q)
     (\<lambda>e. Inr (if e then lq_iterator (invalid_idx q) else lq_iterator (head q)))"

definition lq_end :: "'a LoopQueue \<Rightarrow> LoopQueueIterator" where
  "lq_end q = lq_iterator (invalid_idx q)"

definition lq_getFrontIterator :: "'a LoopQueue \<Rightarrow> LoopQueueIterator result" where
  "lq_getFrontIterator q = lq_begin q"

definition lq_getBackIterator :: "'a LoopQueue \<Rightarrow> LoopQueueIterator" where
  "lq_getBackIterator q = lq_iterator (decrementIndexValue q (tail q))"

definition itr_isValid :: "'a LoopQueue \<Rightarrow> LoopQueueIterator \<Rightarrow> bool" where
  "itr_isValid q it = (if \<not> attached it then False else lq_isValid q (itr_index it))"

definition itr_eq :: "LoopQueueIterator \<Rightarrow> LoopQueueIterator \<Rightarrow> bool result" where
  "itr_eq a b = bindE (assertE (attached a = attached b) (CAssert ''iterator ==''))
     (\<lambda>_. Inr (itr_index a = itr_index b))"

definition incrementIterator :: "'a LoopQueue \<Rightarrow> LoopQueueIterator \<Rightarrow> LoopQueueIterator" where
  "incrementIterator q it =
     (let next_idx = incrementIndexValue q (itr_index it) in
      if next_idx = tail q then it\<lparr>itr_index := invalid_idx q\<rparr> else it\<lparr>itr_index := next_idx\<rparr>)"

definition decrementIterator :: "'a LoopQueue \<Rightarrow> LoopQueueIterator \<Rightarrow> LoopQueueIterator" where
  "decrementIterator q it =
     (let last_idx = decrementIndexValue q (itr_index it) in
      if itr_index it = head q then it\<lparr>itr_index := invalid_idx q\<rparr> else it\<lparr>itr_index := last_idx\<rparr>)"

definition itr_incr :: "'a LoopQueue \<Rightarrow> LoopQueueIterator \<Rightarrow> LoopQueueIterator result" where
  "itr_incr q it = bindE (assertE (attached it) (CAssert ''iterator ++''))
     (\<lambda>_. Inr (incrementIterator q it))"

text \<open>Post-increment returns the iterator before the step and the one after it.\<close>

definition itr_post_incr ::
  "'a LoopQueue \<Rightarrow> LoopQueueIterator \<Rightarrow> (LoopQueueIterator \<times> LoopQueueIterator) result" where
  "itr_post_incr q it = bindE (itr_incr q it) (\<lambda>it'. Inr (it, it'))"

definition itr_decr :: "'a LoopQueue \<Rightarrow> LoopQueueIterator \<Rightarrow> LoopQueueIterator result" where
  "itr_decr q it = bindE (assertE (attached it) (CAssert ''iterator --''))
     (\<lambda>_. Inr (decrementIterator q it))"

definition itr_post_decr ::
  "'a LoopQueue \<Rightarrow> LoopQueueIterator \<Rightarrow> (LoopQueueIterator \<times> LoopQueueIterator) result" where
  "itr_post_decr q it = bindE (itr_decr q it) (\<lambda>it'. Inr (it, it'))"

definition itr_deref :: "'a LoopQueue \<Rightarrow> LoopQueueIterator \<Rightarrow> 'a result" where
  "itr_deref q it = bindE (assertE (itr_isValid q it) (CAssert ''iterator *''))
     (\<lambda>_. lq_access q (ucast (itr_index it)))"

definition itr_getIndex :: "LoopQueueIterator \<Rightarrow> u32 result" where
  "itr_getIndex it = bindE (assertE (attached it) (CAssert ''getIndex'')) (\<lambda>_. Inr (itr_index it))"

text \<open>
  The range-for of \<open>operator<<\<close>: visit from \<open>it\<close> until the end iterator, at most \<open>fuel\<close> steps;
  \<open>None\<close> means the fuel ran out.
\<close>

fun lq_visit :: "nat \<Rightarrow> 'a LoopQueue \<Rightarrow> LoopQueueIterator \<Rightarrow> 'a list result option" where
  "lq_visit 0 q it = None"
| "lq_visit (Suc fuel) q it =
     (case itr_eq it (lq_end q) of
        Inl e \<Rightarrow> Some (Inl e)
      | Inr True \<Rightarrow> Some (Inr [])
      | Inr False \<Rightarrow>
          (case itr_deref q it of
             Inl e \<Rightarrow> Some (Inl e)
           | Inr x \<Rightarrow>
               (case itr_incr q it of
                  Inl e \<Rightarrow> Some (Inl e)
                | Inr it' \<Rightarrow> map_option (\<lambda>r. bindE r (\<lambda>xs. Inr (x # xs))) (lq_visit fuel q it'))))"

section \<open>Invariant and abstraction\<close>

definition lq_inv :: "'a LoopQueue \<Rightarrow> bool" where
  "lq_inv q \<longleftrightarrow> length (dataList q) = unat (depth q) \<and> head q < depth q \<and> tail q < depth q
     \<and> unat (usage q) \<le> unat (depth q)
     \<and> unat (usage q) + unat (head q)
       = (if is_rolling q then unat (depth q) else 0) + unat (tail q)"

definition lq_list :: "'a LoopQueue \<Rightarrow> 'a list" where
  "lq_list q = ring_list (dataList q) (unat (head q)) (unat (usage q))"

lemma length_lq_list [simp]: "length (lq_list q) = unat (usage q)"
  by (simp add: lq_list_def)

lemma lq_list_eq_Nil: "lq_list q = [] \<longleftrightarrow> usage q = 0"
proof -
  have "lq_list q = [] \<longleftrightarrow> length (lq_list q) = 0" by blast
  then show ?thesis by (simp add: unat_eq_0)
qed

lemma lq_inv_mk: "0 < d \<Longrightarrow> lq_inv (mk_LoopQueue x d)"
  by (simp add: lq_inv_def mk_LoopQueue_def lq_clear_def)

lemma lq_inv_clear: "lq_inv q \<Longrightarrow> lq_inv (lq_clear q) \<and> lq_list (lq_clear q) = []"
  by (auto simp: lq_inv_def lq_clear_def lq_list_def dest: word_gt_0 [THEN iffD2]
      intro: order.strict_trans1 [OF word_zero_le])

text \<open>The pointer difference the code computes is the usage count, wrap-around included.\<close>

lemma lq_diff_usage:
  assumes "lq_inv q"
  shows "of_bool (is_rolling q) * depth q - head q + tail q = usage q"
proof -
  have "(of_nat (unat (usage q) + unat (head q)) :: u32)
      = of_nat ((if is_rolling q then unat (depth q) else 0) + unat (tail q))"
    using assms by (simp add: lq_inv_def)
  then have "usage q + head q = of_bool (is_rolling q) * depth q + tail q"
    by (cases "is_rolling q") simp_all
  then show ?thesis by (simp add: algebra_simps)
qed

lemma lq_size_inv [simp]: "lq_inv q \<Longrightarrow> lq_size q = Inr (usage q)"
  by (simp add: lq_size_def lq_diff_usage)

lemma lq_full_inv [simp]: "lq_inv q \<Longrightarrow> lq_full q = Inr (usage q = depth q)"
  by (simp add: lq_full_def)

lemma lq_empty_inv [simp]: "lq_inv q \<Longrightarrow> lq_empty q = Inr (usage q = 0)"
  by (simp add: lq_empty_def)

lemma lq_numFree_inv: "lq_inv q \<Longrightarrow> lq_numFree q = Inr (depth q - usage q)"
  by (simp add: lq_numFree_def)

lemma unat_incrementIndexValue:
  assumes "idx < depth q"
  shows "unat (incrementIndexValue q idx) = (unat idx + 1) mod unat (depth q)"
proof -
  have less: "unat idx < unat (depth q)" using assms by (simp add: word_less_nat_alt)
  have "depth q \<noteq> 0" using assms by auto
  then have "idx = depth q - 1 \<longleftrightarrow> unat idx = unat (depth q) - 1"
    by (metis unat_minus_one_pos word_unat_eq_iff)
  then show ?thesis
    using less assms unat_plus_one_less [OF assms]
    by (auto simp: incrementIndexValue_def mod_if)
qed

lemma unat_decrementIndexValue:
  assumes "idx < depth q"
  shows "unat (decrementIndexValue q idx) = (unat idx + unat (depth q) - 1) mod unat (depth q)"
proof -
  have less: "unat idx < unat (depth q)" using assms by (simp add: word_less_nat_alt)
  have "depth q \<noteq> 0" using assms by auto
  then show ?thesis
    using less ring_pred [OF less]
    by (auto simp: decrementIndexValue_def unat_minus_one_pos unat_eq_0)
qed

lemma incrementIndexValue_less: "idx < depth q \<Longrightarrow> incrementIndexValue q idx < depth q"
  by (simp add: word_less_nat_alt unat_incrementIndexValue)

lemma unat_tail: "lq_inv q \<Longrightarrow> unat (tail q) = (unat (head q) + unat (usage q)) mod unat (depth q)"
  by (auto simp: lq_inv_def word_less_nat_alt mod_if split: if_splits)

text \<open>
  \<open>is_rolling\<close> is exactly the carry of the ring: the number of times the tail wrapped minus the
  number of times the head did. \<open>wrap\<close> is the value the flag has when the ring holds \<open>u\<close> elements
  from \<open>h\<close> on.
\<close>

lemma lq_inv_wrap: "lq_inv q \<Longrightarrow> is_rolling q \<longleftrightarrow> unat (depth q) \<le> unat (head q) + unat (usage q)"
  by (auto simp: lq_inv_def word_less_nat_alt split: if_splits)

lemma lq_invI:
  assumes "length (dataList q) = unat (depth q)" "head q < depth q"
    and "unat (usage q) \<le> unat (depth q)"
    and "unat (tail q) = (unat (head q) + unat (usage q)) mod unat (depth q)"
    and "is_rolling q \<longleftrightarrow> unat (depth q) \<le> unat (head q) + unat (usage q)"
  shows "lq_inv q"
  using assms by (auto simp: lq_inv_def word_less_nat_alt mod_if split: if_splits)

section \<open>The operations keep the invariant and act on the list\<close>

lemma depth_incrementPointer [simp]:
  "fst (incrementPointer q i) = q\<lparr>is_rolling := (is_rolling q \<noteq> (i = depth q - 1))\<rparr>"
  "snd (incrementPointer q i) = incrementIndexValue q i"
  by (auto simp: incrementPointer_def incrementIndexValue_def Let_def)

lemma depth_decrementPointer [simp]:
  "fst (decrementPointer q i) = q\<lparr>is_rolling := (is_rolling q \<noteq> (i = 0))\<rparr>"
  "snd (decrementPointer q i) = decrementIndexValue q i"
  by (auto simp: decrementPointer_def decrementIndexValue_def Let_def)

lemma last_index_iff:
  assumes "i < d"
  shows "i = d - 1 \<longleftrightarrow> unat i + 1 = unat (d :: u32)"
proof -
  have "d \<noteq> 0" using assms by auto
  then have "i = d - 1 \<longleftrightarrow> unat i = unat d - 1" by (metis unat_minus_one_pos word_unat_eq_iff)
  with \<open>d \<noteq> 0\<close> show ?thesis by (auto simp: unat_gt_0 [symmetric] word_gt_0)
qed

definition lq_pushed :: "'a LoopQueue \<Rightarrow> 'a \<Rightarrow> 'a LoopQueue" where
  "lq_pushed q x =
     q\<lparr>dataList := (dataList q)[unat (tail q) := x], usage := usage q + 1,
       is_rolling := (is_rolling q \<noteq> (tail q = depth q - 1)),
       tail := incrementIndexValue q (tail q)\<rparr>"

definition lq_popped :: "'a LoopQueue \<Rightarrow> 'a LoopQueue" where
  "lq_popped q =
     q\<lparr>usage := usage q - 1, is_rolling := (is_rolling q \<noteq> (head q = depth q - 1)),
       head := incrementIndexValue q (head q)\<rparr>"

definition lq_popped_back :: "'a LoopQueue \<Rightarrow> 'a LoopQueue" where
  "lq_popped_back q =
     q\<lparr>usage := usage q - 1, is_rolling := (is_rolling q \<noteq> (tail q = 0)),
       tail := decrementIndexValue q (tail q)\<rparr>"

lemma lq_push_eq:
  assumes "lq_inv q" "usage q \<noteq> depth q"
  shows "lq_push q x = Inr (lq_pushed q x, tail q)"
proof -
  have "unat (tail q) < length (dataList q)"
    using assms by (simp add: lq_inv_def word_less_nat_alt)
  with assms show ?thesis
    by (auto simp: lq_push_def lq_pushed_def incrementPointer_def incrementIndexValue_def Let_def)
qed

lemma lq_pop_eq:
  assumes "lq_inv q" "usage q \<noteq> 0"
  shows "lq_pop q = Inr (lq_popped q)"
  using assms
  by (auto simp: lq_pop_def lq_popped_def incrementPointer_def incrementIndexValue_def Let_def)

lemma lq_pop_back_eq:
  assumes "lq_inv q" "usage q \<noteq> 0"
  shows "lq_pop_back q = Inr (lq_popped_back q)"
  using assms
  by (auto simp: lq_pop_back_def lq_popped_back_def decrementPointer_def decrementIndexValue_def
      Let_def)

lemma unat_usage_less: "lq_inv q \<Longrightarrow> usage q \<noteq> depth q \<Longrightarrow> usage q < depth q"
  by (metis lq_inv_def order_less_le word_le_nat_alt)

lemma lq_pushed_ok:
  assumes inv: "lq_inv q" and ne: "usage q \<noteq> depth q"
  shows "lq_inv (lq_pushed q x)" and "lq_list (lq_pushed q x) = lq_list q @ [x]"
proof -
  note lt = unat_usage_less [OF inv ne]
  have u: "unat (usage q + 1) = unat (usage q) + 1" by (rule unat_plus_one_less [OF lt])
  have D: "length (dataList q) = unat (depth q)" "head q < depth q" "tail q < depth q"
    using inv by (auto simp: lq_inv_def)
  have t: "unat (tail q) = (unat (head q) + unat (usage q)) mod unat (depth q)"
    by (rule unat_tail [OF inv])
  have lt': "unat (usage q) < unat (depth q)" using lt by (simp add: word_less_nat_alt)
  show "lq_list (lq_pushed q x) = lq_list q @ [x]"
    using ring_list_push [of "unat (usage q)" "dataList q" "unat (head q)" x] lt' D
    by (simp add: lq_list_def lq_pushed_def u t)
  show "lq_inv (lq_pushed q x)"
  proof (rule lq_invI)
    show "unat (tail (lq_pushed q x))
        = (unat (head (lq_pushed q x)) + unat (usage (lq_pushed q x))) mod unat (depth (lq_pushed q x))"
      by (simp add: lq_pushed_def unat_incrementIndexValue D u t mod_simps)
    show "is_rolling (lq_pushed q x) \<longleftrightarrow>
        unat (depth (lq_pushed q x)) \<le> unat (head (lq_pushed q x)) + unat (usage (lq_pushed q x))"
      using lq_inv_wrap [OF inv] last_index_iff [OF D(3)] t lt' D
      by (auto simp: lq_pushed_def u word_less_nat_alt mod_if split: if_splits)
  qed (use D lt' in \<open>auto simp: lq_pushed_def u\<close>)
qed

lemma lq_popped_ok:
  assumes inv: "lq_inv q" and ne: "usage q \<noteq> 0"
  shows "lq_inv (lq_popped q)" and "lq_list (lq_popped q) = tl (lq_list q)"
proof -
  have u: "unat (usage q - 1) = unat (usage q) - 1" by (rule unat_minus_one_pos [OF ne])
  have pos: "0 < unat (usage q)" using ne by (simp add: unat_gt_0)
  have D: "length (dataList q) = unat (depth q)" "head q < depth q" "tail q < depth q"
    "unat (usage q) \<le> unat (depth q)"
    using inv by (auto simp: lq_inv_def)
  have h: "unat (head q) < unat (depth q)" using D by (simp add: word_less_nat_alt)
  show "lq_list (lq_popped q) = tl (lq_list q)"
    using ring_list_pop [of "unat (usage q)" "unat (head q)" "dataList q"] pos h D
    by (simp add: lq_list_def lq_popped_def u unat_incrementIndexValue)
  show "lq_inv (lq_popped q)"
  proof (rule lq_invI)
    show "unat (tail (lq_popped q))
        = (unat (head (lq_popped q)) + unat (usage (lq_popped q))) mod unat (depth (lq_popped q))"
      using pos unat_tail [OF inv]
      by (cases "unat (usage q)") (simp_all add: lq_popped_def unat_incrementIndexValue D u mod_simps)
    show "is_rolling (lq_popped q) \<longleftrightarrow>
        unat (depth (lq_popped q)) \<le> unat (head (lq_popped q)) + unat (usage (lq_popped q))"
      using lq_inv_wrap [OF inv] last_index_iff [OF D(2)] D h pos
      by (auto simp: lq_popped_def u unat_incrementIndexValue mod_if)
  qed (use D in \<open>auto simp: lq_popped_def u incrementIndexValue_less\<close>)
qed

lemma lq_popped_back_ok:
  assumes inv: "lq_inv q" and ne: "usage q \<noteq> 0"
  shows "lq_inv (lq_popped_back q)" and "lq_list (lq_popped_back q) = butlast (lq_list q)"
proof -
  have u: "unat (usage q - 1) = unat (usage q) - 1" by (rule unat_minus_one_pos [OF ne])
  have pos: "0 < unat (usage q)" using ne by (simp add: unat_gt_0)
  have D: "length (dataList q) = unat (depth q)" "head q < depth q" "tail q < depth q"
    "unat (usage q) \<le> unat (depth q)"
    using inv by (auto simp: lq_inv_def)
  have h: "unat (head q) < unat (depth q)" using D by (simp add: word_less_nat_alt)
  have t: "unat (tail q) = (unat (head q) + unat (usage q)) mod unat (depth q)"
    by (rule unat_tail [OF inv])
  show "lq_list (lq_popped_back q) = butlast (lq_list q)"
    using ring_list_pop_back [OF pos] by (simp add: lq_list_def lq_popped_back_def u)
  show "lq_inv (lq_popped_back q)"
  proof (rule lq_invI)
    show "unat (tail (lq_popped_back q)) = (unat (head (lq_popped_back q))
        + unat (usage (lq_popped_back q))) mod unat (depth (lq_popped_back q))"
      using pos t h D
      by (auto simp: lq_popped_back_def unat_decrementIndexValue u mod_if split: if_splits)
    show "is_rolling (lq_popped_back q) \<longleftrightarrow> unat (depth (lq_popped_back q))
        \<le> unat (head (lq_popped_back q)) + unat (usage (lq_popped_back q))"
      using lq_inv_wrap [OF inv] D h pos t
      by (auto simp: lq_popped_back_def u mod_if unat_eq_0 [symmetric] split: if_splits)
  qed (use D in \<open>auto simp: lq_popped_back_def u\<close>)
qed


section \<open>The bounded queue interface\<close>

definition lq_push_only :: "'a LoopQueue \<Rightarrow> 'a \<Rightarrow> 'a LoopQueue result" where
  "lq_push_only q x = bindE (lq_push q x) (\<lambda>(q', _). Inr q')"

lemma lq_depth_kept [simp]:
  "depth (lq_pushed q x) = depth q" "depth (lq_popped q) = depth q"
  "depth (lq_popped_back q) = depth q" "depth (lq_clear q) = depth q"
  by (simp_all add: lq_pushed_def lq_popped_def lq_popped_back_def lq_clear_def)

lemma lq_front_eq: "lq_inv q \<Longrightarrow> usage q \<noteq> 0 \<Longrightarrow> lq_front q = Inr (hd (lq_list q))"
  by (auto simp: lq_front_def lq_list_def lq_inv_def ring_list_hd word_less_nat_alt unat_gt_0)

lemma lq_back_eq:
  assumes "lq_inv q" "usage q \<noteq> 0"
  shows "lq_back q = Inr (last (lq_list q))"
proof -
  have "unat (decrementIndexValue q (tail q)) = (unat (head q) + (unat (usage q) - 1)) mod unat (depth q)"
    using lq_popped_back_ok(1) [OF assms, THEN unat_tail] assms
    by (simp add: lq_popped_back_def unat_minus_one_pos)
  moreover have "unat (decrementIndexValue q (tail q)) < unat (depth q)"
    using assms by (simp add: unat_decrementIndexValue lq_inv_def word_less_nat_alt)
  ultimately show ?thesis
    using assms by (simp add: lq_back_def lq_list_def ring_list_last unat_gt_0 lq_inv_def)
qed

lemma lq_usage_le: "lq_inv q \<Longrightarrow> unat (usage q) \<le> unat (depth q)"
  by (simp add: lq_inv_def)

interpretation lq: bounded_queue lq_push_only lq_pop lq_front
    "\<lambda>q. unat (lq_capacity q)" lq_list lq_inv
proof
  fix q :: "'a LoopQueue" and x
  assume inv: "lq_inv q"
  show "\<exists>q'. lq_push_only q x = Inr q' \<and> lq_inv q' \<and> lq_list q' = lq_list q @ [x]
      \<and> unat (lq_capacity q') = unat (lq_capacity q)" if "length (lq_list q) < unat (lq_capacity q)"
  proof -
    have "usage q \<noteq> depth q" using that by (auto simp: lq_capacity_def)
    with inv show ?thesis by (simp add: lq_push_only_def lq_push_eq lq_pushed_ok lq_capacity_def)
  qed
  show "\<exists>e. lq_push_only q x = Inl e" if "length (lq_list q) = unat (lq_capacity q)"
  proof -
    have "usage q = depth q" using that by (simp add: lq_capacity_def word_unat_eq_iff)
    with inv show ?thesis by (simp add: lq_push_only_def lq_push_def)
  qed
  show "\<exists>q'. lq_pop q = Inr q' \<and> lq_inv q' \<and> lq_list q' = tl (lq_list q)
      \<and> unat (lq_capacity q') = unat (lq_capacity q)" if "lq_list q \<noteq> []"
    using inv that by (auto simp: lq_list_eq_Nil lq_pop_eq lq_popped_ok lq_capacity_def)
  show "\<exists>e. lq_pop q = Inl e" if "lq_list q = []"
    using inv that by (simp add: lq_pop_def lq_list_eq_Nil)
  show "lq_front q = Inr (hd (lq_list q))" if "lq_list q \<noteq> []"
    using inv that by (simp add: lq_list_eq_Nil lq_front_eq)
  show "length (lq_list q) \<le> unat (lq_capacity q)"
    using inv by (simp add: lq_capacity_def lq_usage_le)
qed

section \<open>Iterators visit the queue in order\<close>

text \<open>Where the slot of the \<open>i\<close>-th element is, as a word index.\<close>

definition lq_slot :: "'a LoopQueue \<Rightarrow> nat \<Rightarrow> u32" where
  "lq_slot q i = word_of_nat ((unat (head q) + i) mod unat (depth q))"

lemma unat_lq_slot:
  assumes "lq_inv q"
  shows "unat (lq_slot q i) = (unat (head q) + i) mod unat (depth q)"
proof -
  have "0 < unat (depth q)" using assms by (auto simp: lq_inv_def word_less_nat_alt)
  then have "(unat (head q) + i) mod unat (depth q) < unat (depth q)" by simp
  also have "\<dots> < 2 ^ 32" using unsigned_less [of "depth q"] by simp
  finally show ?thesis by (simp add: lq_slot_def unat_of_nat)
qed

lemma lq_slot_less: "lq_inv q \<Longrightarrow> lq_slot q i < depth q"
  by (auto simp: word_less_nat_alt unat_lq_slot lq_inv_def)

lemma lq_slot_0: "lq_inv q \<Longrightarrow> lq_slot q 0 = head q"
  by (simp add: word_unat_eq_iff unat_lq_slot) (simp add: lq_inv_def word_less_nat_alt)

lemma lq_slot_tail: "lq_inv q \<Longrightarrow> lq_slot q (unat (usage q)) = tail q"
  by (simp add: word_unat_eq_iff unat_lq_slot unat_tail)

lemma lq_slot_Suc: "lq_inv q \<Longrightarrow> incrementIndexValue q (lq_slot q i) = lq_slot q (Suc i)"
  by (simp add: word_unat_eq_iff unat_incrementIndexValue lq_slot_less unat_lq_slot mod_simps)

lemma lq_slot_eq_tail:
  assumes "lq_inv q" "0 < i" "i \<le> unat (usage q)"
  shows "lq_slot q i = tail q \<longleftrightarrow> i = unat (usage q)"
proof -
  have "lq_slot q i \<noteq> lq_slot q (unat (usage q))" if "i < unat (usage q)"
    using ring_index_inj [of i "unat (usage q)" "unat (depth q)" "unat (head q)"] that assms
      lq_usage_le [OF assms(1)]
    by (auto simp: word_unat_eq_iff unat_lq_slot)
  with assms show ?thesis by (metis lq_slot_tail le_neq_implies_less)
qed

lemma lq_slot_valid:
  assumes "lq_inv q" "i < unat (usage q)"
  shows "lq_isValid q (lq_slot q i)"
proof (cases "is_rolling q")
  case True
  with assms have "unat (tail q) \<le> unat (head q)" by (auto simp: lq_inv_def)
  with True show ?thesis by (auto simp: lq_isValid_def word_less_nat_alt word_le_nat_alt)
next
  case False
  with assms have "unat (head q) + i < unat (depth q)"
    using lq_inv_wrap [OF assms(1)] by simp
  with False assms show ?thesis
    by (auto simp: lq_isValid_def word_less_nat_alt word_le_nat_alt unat_lq_slot) (simp add: lq_inv_def)
qed

lemma lq_slot_read:
  assumes "lq_inv q" "i < unat (usage q)"
  shows "lq_access q (ucast (lq_slot q i)) = Inr (lq_list q ! i)"
proof -
  have "unat (ucast (lq_slot q i) :: u64) = unat (lq_slot q i)"
    by (rule unat_ucast_u64)
  moreover have "unat (lq_slot q i) < length (dataList q)"
    using lq_slot_less [OF assms(1)] assms(1) by (simp add: word_less_nat_alt lq_inv_def)
  ultimately show ?thesis
    using assms by (simp add: lq_access_def lq_list_def nth_ring_list unat_lq_slot) (simp add: lq_inv_def)
qed

lemma lq_slot_inj:
  assumes "lq_inv q" "i < unat (depth q)" "j < unat (depth q)"
  shows "lq_slot q i = lq_slot q j \<longleftrightarrow> i = j"
proof -
  have "lq_slot q m \<noteq> lq_slot q n" if "m < n" "n < unat (depth q)" for m n
    using ring_index_inj [of m n "unat (depth q)" "unat (head q)"] that
    by (auto simp: word_unat_eq_iff unat_lq_slot [OF assms(1)])
  then show ?thesis using assms(2,3) by (metis nat_neq_iff)
qed

lemma lq_slot_cong: "head q' = head q \<Longrightarrow> depth q' = depth q \<Longrightarrow> lq_slot q' i = lq_slot q i"
  by (simp add: lq_slot_def)

text \<open>An element keeps its slot when older ones leave or younger ones arrive.\<close>

lemma lq_slot_popped:
  assumes "lq_inv q"
  shows "lq_slot (lq_popped q) i = lq_slot q (Suc i)"
proof -
  have "unat (head (lq_popped q)) = (unat (head q) + 1) mod unat (depth q)"
    using assms by (simp add: lq_popped_def unat_incrementIndexValue lq_inv_def)
  then show ?thesis by (simp add: lq_slot_def mod_simps)
qed

lemma lq_slot_pushed: "lq_slot (lq_pushed q x) i = lq_slot q i"
  by (simp add: lq_slot_def) (simp add: lq_pushed_def)

text \<open>Writing through \<open>access\<close> at the slot of the \<open>i\<close>-th element updates that element only.\<close>

lemma lq_slot_write:
  assumes "lq_inv q" "i < unat (usage q)"
  shows "\<exists>q'. lq_access_set q (ucast (lq_slot q i)) x = Inr q' \<and> lq_inv q' \<and> lq_list q' = (lq_list q)[i := x]
    \<and> head q' = head q \<and> depth q' = depth q \<and> usage q' = usage q"
proof -
  let ?q = "q\<lparr>dataList := (dataList q)[unat (lq_slot q i) := x]\<rparr>"
  have l: "length (dataList q) = unat (depth q)" using assms(1) by (simp add: lq_inv_def)
  have le: "unat (usage q) \<le> unat (depth q)" using assms(1) by (simp add: lq_inv_def)
  have less: "unat (lq_slot q j) < unat (depth q)" for j
    using lq_slot_less [OF assms(1)] by (simp add: word_less_nat_alt)
  have eq: "lq_access_set q (ucast (lq_slot q i)) x = Inr ?q"
    using less l by (simp add: lq_access_set_def)
  have inv: "lq_inv ?q" using assms(1) by (simp add: lq_inv_def)
  have "lq_list ?q ! j = (lq_list q)[i := x] ! j" if "j < length (lq_list ?q)" for j
  proof -
    have j: "j < unat (usage q)" using that by simp
    have "lq_list ?q ! j = (dataList q)[unat (lq_slot q i) := x] ! unat (lq_slot q j)"
      using j l by (simp add: lq_list_def nth_ring_list unat_lq_slot [OF assms(1)])
    moreover have "lq_slot q i = lq_slot q j \<longleftrightarrow> i = j"
      using lq_slot_inj [OF assms(1)] assms(2) j le by simp
    moreover have "dataList q ! unat (lq_slot q j) = lq_list q ! j"
      using j l by (simp add: lq_list_def nth_ring_list unat_lq_slot [OF assms(1)])
    ultimately show ?thesis using less l j assms(2) by (simp add: nth_list_update unat_inj_iff)
  qed
  then have "lq_list ?q = (lq_list q)[i := x]" by (intro nth_equalityI) simp_all
  with eq inv show ?thesis by auto
qed

lemma lq_front_write:
  assumes "lq_inv q" "usage q \<noteq> 0"
  shows "\<exists>q'. lq_front_set q x = Inr q' \<and> lq_inv q' \<and> lq_list q' = (lq_list q)[0 := x]
    \<and> head q' = head q \<and> depth q' = depth q \<and> usage q' = usage q"
proof -
  have "lq_front_set q x = lq_access_set q (ucast (lq_slot q 0)) x"
    using lq_slot_0 [OF assms(1)] by (simp add: lq_front_set_def lq_access_set_def)
  with lq_slot_write [OF assms(1), of 0 x] assms(2) show ?thesis by (simp add: unat_gt_0)
qed

lemma lq_visit_from:
  assumes inv: "lq_inv q" and fin: "invalid_idx q = depth q + 1" "depth q \<noteq> - 1"
    and "i < unat (usage q)"
  shows "unat (usage q) - i < fuel \<Longrightarrow>
    lq_visit fuel q (lq_iterator (lq_slot q i)) = Some (Inr (drop i (lq_list q)))"
  using assms(4)
proof (induction fuel arbitrary: i)
  case 0
  then show ?case by simp
next
  case (Suc fuel)
  from fin(2) have "depth q < depth q + 1" by (rule word_less_succ)
  then have ne: "lq_slot q i \<noteq> depth q + 1"
    using lq_slot_less [OF inv, of i] by auto
  have d: "drop i (lq_list q) = lq_list q ! i # drop (Suc i) (lq_list q)"
    using Suc.prems by (simp add: Cons_nth_drop_Suc)
  show ?case
  proof (cases "Suc i = unat (usage q)")
    case True
    then have "incrementIndexValue q (lq_slot q i) = tail q"
      using inv by (simp add: lq_slot_Suc lq_slot_tail)
    moreover obtain f where "fuel = Suc f" using Suc.prems True by (cases fuel) auto
    ultimately show ?thesis
      using ne d True Suc.prems inv fin
      by (simp add: itr_eq_def lq_end_def lq_iterator_def itr_deref_def itr_isValid_def lq_slot_valid
          lq_slot_read itr_incr_def incrementIterator_def)
  next
    case False
    then have "lq_slot q (Suc i) \<noteq> tail q"
      using Suc.prems inv by (simp add: lq_slot_eq_tail)
    then have "itr_incr q (lq_iterator (lq_slot q i)) = Inr (lq_iterator (lq_slot q (Suc i)))"
      using inv by (simp add: itr_incr_def incrementIterator_def lq_iterator_def lq_slot_Suc)
    moreover have "lq_visit fuel q (lq_iterator (lq_slot q (Suc i))) = Some (Inr (drop (Suc i) (lq_list q)))"
      using Suc.IH [of "Suc i"] Suc.prems False by simp
    ultimately show ?thesis
      using ne d Suc.prems inv fin
      by (simp add: itr_eq_def lq_end_def lq_iterator_def itr_deref_def itr_isValid_def lq_slot_valid
          lq_slot_read)
  qed
qed

lemma lq_isValid_not_rolling:
  assumes "lq_inv q" "\<not> is_rolling q"
  shows "lq_isValid q idx \<longleftrightarrow> (\<exists>i < unat (usage q). idx = lq_slot q i)"
proof
  assume v: "lq_isValid q idx"
  with assms have b: "unat (head q) \<le> unat idx" "unat idx < unat (tail q)"
    by (auto simp: lq_isValid_def word_less_nat_alt word_le_nat_alt)
  from assms have t: "unat (tail q) = unat (head q) + unat (usage q)" "unat (tail q) < unat (depth q)"
    by (auto simp: lq_inv_def word_less_nat_alt)
  have "idx = lq_slot q (unat idx - unat (head q))"
    using b t assms by (simp add: word_unat_eq_iff unat_lq_slot)
  with b t show "\<exists>i < unat (usage q). idx = lq_slot q i" by (intro exI [of _ "unat idx - unat (head q)"]) auto
next
  assume "\<exists>i < unat (usage q). idx = lq_slot q i"
  with assms show "lq_isValid q idx" by (auto simp: lq_slot_valid)
qed

lemma lq_isValid_rolling: "lq_inv q \<Longrightarrow> is_rolling q \<Longrightarrow> lq_isValid q idx"
  by (auto simp: lq_isValid_def lq_inv_def word_less_nat_alt word_le_nat_alt)

section \<open>Properties\<close>

text \<open>
  (C3) A queue whose fields agree refines a bounded list: \<open>push\<close> appends and hands back the index
  the element can be read at, failing only when the queue holds \<open>depth\<close> elements; \<open>pop\<close> and
  \<open>pop_back\<close> remove at the two ends and fail only on an empty queue; \<open>front\<close> and \<open>back\<close>
  read the ends; \<open>clear\<close> empties. The 32-bit pointer arithmetic never trips the assertion in
  \<open>size\<close>, and every operation keeps the invariant.
\<close>

theorem LoopQueue_refines_list:
  assumes "lq_inv q"
  shows "lq_size q = Inr (word_of_nat (length (lq_list q)))
    \<and> (case lq_push q x of
           Inl e \<Rightarrow> length (lq_list q) = unat (depth q)
         | Inr (q', i) \<Rightarrow> length (lq_list q) < unat (depth q) \<and> lq_inv q' \<and> depth q' = depth q
             \<and> lq_list q' = lq_list q @ [x] \<and> lq_access q' (ucast i) = Inr x)
    \<and> (case lq_pop q of
           Inl e \<Rightarrow> lq_list q = []
         | Inr q' \<Rightarrow> lq_list q \<noteq> [] \<and> lq_inv q' \<and> depth q' = depth q
             \<and> lq_list q = hd (lq_list q) # lq_list q' \<and> lq_front q = Inr (hd (lq_list q)))
    \<and> (case lq_pop_back q of
           Inl e \<Rightarrow> lq_list q = []
         | Inr q' \<Rightarrow> lq_list q \<noteq> [] \<and> lq_inv q' \<and> depth q' = depth q
             \<and> lq_list q = lq_list q' @ [last (lq_list q)] \<and> lq_back q = Inr (last (lq_list q)))
    \<and> (lq_inv (lq_clear q) \<and> lq_list (lq_clear q) = [] \<and> depth (lq_clear q) = depth q)"
proof (intro conjI)
  show "lq_size q = Inr (word_of_nat (length (lq_list q)))" using assms by simp
  show "case lq_push q x of
           Inl e \<Rightarrow> length (lq_list q) = unat (depth q)
         | Inr (q', i) \<Rightarrow> length (lq_list q) < unat (depth q) \<and> lq_inv q' \<and> depth q' = depth q
             \<and> lq_list q' = lq_list q @ [x] \<and> lq_access q' (ucast i) = Inr x"
  proof (cases "usage q = depth q")
    case True
    with assms show ?thesis by (simp add: lq_push_def)
  next
    case False
    have "unat (tail q) < length (dataList q)"
      using assms by (simp add: lq_inv_def word_less_nat_alt)
    with False assms unat_usage_less [OF assms False] show ?thesis
      by (simp add: lq_push_eq lq_pushed_ok lq_access_def word_less_nat_alt)
        (simp add: lq_pushed_def)
  qed
  show "case lq_pop q of
           Inl e \<Rightarrow> lq_list q = []
         | Inr q' \<Rightarrow> lq_list q \<noteq> [] \<and> lq_inv q' \<and> depth q' = depth q
             \<and> lq_list q = hd (lq_list q) # lq_list q' \<and> lq_front q = Inr (hd (lq_list q))"
  proof (cases "usage q = 0")
    case True
    with assms show ?thesis by (simp add: lq_pop_def lq_list_eq_Nil)
  next
    case False
    with assms show ?thesis
      by (simp add: lq_pop_eq lq_popped_ok lq_front_eq lq_list_eq_Nil)
  qed
  show "case lq_pop_back q of
           Inl e \<Rightarrow> lq_list q = []
         | Inr q' \<Rightarrow> lq_list q \<noteq> [] \<and> lq_inv q' \<and> depth q' = depth q
             \<and> lq_list q = lq_list q' @ [last (lq_list q)] \<and> lq_back q = Inr (last (lq_list q))"
  proof (cases "usage q = 0")
    case True
    with assms show ?thesis by (simp add: lq_pop_back_def lq_list_eq_Nil)
  next
    case False
    with assms show ?thesis
      by (simp add: lq_pop_back_eq lq_popped_back_ok lq_back_eq lq_list_eq_Nil)
  qed
qed (use lq_inv_clear [OF assms] in simp_all)

theorem LoopQueue_refines_list_witness:
  "\<exists>q' i. lq_push (mk_LoopQueue (0::nat) 2) 7 = Inr (q', i) \<and> lq_list q' = [7]
     \<and> lq_access q' (ucast i) = Inr 7"
proof -
  have "lq_inv (mk_LoopQueue (0::nat) 2)" by (rule lq_inv_mk) simp
  moreover have "lq_list (mk_LoopQueue (0::nat) 2) = []" "depth (mk_LoopQueue (0::nat) 2) = 2"
    by (simp_all add: mk_LoopQueue_def lq_clear_def lq_list_def)
  ultimately show ?thesis
    using LoopQueue_refines_list [of "mk_LoopQueue (0::nat) 2" 7] by (auto split: sum.splits)
qed

text \<open>
  A batch no longer than the depth, pushed into a freshly built queue, is accepted whole and
  popped back in the order it was pushed; a longer batch is refused. This is the contract of the
  bounded queue interface at the code's own queue.
\<close>

theorem LoopQueue_fifo:
  assumes "0 < d"
  shows "if length xs \<le> unat d
    then \<exists>q q'. foldE lq_push_only (mk_LoopQueue z d) xs = Inr q
        \<and> drainE lq_front lq_pop (length xs) q = Inr (xs, q') \<and> lq_list q' = []
    else \<exists>e. foldE lq_push_only (mk_LoopQueue z d) xs = Inl e"
proof -
  have mk: "lq_inv (mk_LoopQueue z d)" "lq_list (mk_LoopQueue z d) = []"
      "lq_capacity (mk_LoopQueue z d) = d"
    using assms lq_inv_mk by (auto simp: mk_LoopQueue_def lq_clear_def lq_list_def lq_capacity_def)
  then show ?thesis
    using lq.fifo [of "mk_LoopQueue z d" xs] lq.push_all_overflow [of "mk_LoopQueue z d" xs] by auto
qed

theorem LoopQueue_fifo_witness:
  "\<exists>q q'. foldE lq_push_only (mk_LoopQueue 0 3) [4, 5, 6 :: nat] = Inr q
     \<and> drainE lq_front lq_pop 3 q = Inr ([4, 5, 6], q')"
proof -
  have len: "length [4, 5, 6 :: nat] = 3" and le: "(3::nat) \<le> unat (3 :: u32)" by simp_all
  show ?thesis
    using LoopQueue_fifo [of 3 "[4, 5, 6 :: nat]" 0, unfolded len if_P [OF le]] by auto
qed

text \<open>
  (C36) Walking a queue from \<open>begin()\<close> with \<open>++\<close> until \<open>end()\<close>, as the printing loop does, ends
  after at most one more step than there are elements, never trips an iterator assertion, and sees
  exactly the queue's elements, oldest first. The depth is not the largest 32-bit number, so that the index of
  \<open>end()\<close>, one more, does not wrap.
\<close>

theorem LoopQueue_iteration_complete:
  assumes "lq_inv q" "invalid_idx q = depth q + 1" "depth q \<noteq> - 1" "unat (usage q) < fuel"
  shows "\<exists>it. lq_begin q = Inr it \<and> lq_visit fuel q it = Some (Inr (lq_list q))"
proof (cases "usage q = 0")
  case True
  obtain f where "fuel = Suc f" using assms(4) by (cases fuel) auto
  with True assms show ?thesis
    by (simp add: lq_begin_def itr_eq_def lq_end_def lq_iterator_def lq_list_def)
next
  case False
  then have "0 < unat (usage q)" by (simp add: unat_gt_0)
  then have "lq_visit fuel q (lq_iterator (lq_slot q 0)) = Some (Inr (drop 0 (lq_list q)))"
    using assms by (intro lq_visit_from) auto
  with False assms show ?thesis by (simp add: lq_begin_def lq_slot_0)
qed

theorem LoopQueue_iteration_complete_witness:
  "\<exists>it. lq_begin \<lparr>dataList = [4, 5, 6 :: nat], head = 2, tail = 1, usage = 2, depth = 3,
        invalid_idx = 4, is_rolling = True\<rparr> = Inr it
     \<and> lq_visit 3 \<lparr>dataList = [4, 5, 6 :: nat], head = 2, tail = 1, usage = 2, depth = 3,
        invalid_idx = 4, is_rolling = True\<rparr> it = Some (Inr [6, 4])"
  using LoopQueue_iteration_complete [of "\<lparr>dataList = [4, 5, 6 :: nat], head = 2, tail = 1,
      usage = 2, depth = 3, invalid_idx = 4, is_rolling = True\<rparr>" 3]
  by (simp add: lq_inv_def lq_list_def ring_list_def upt_rec)

text \<open>
  \<open>isValid\<close> decides membership only while the ring has not wrapped: then it holds exactly for
  the slots in use. Once \<open>is_rolling\<close> is set it answers true for every index whatsoever, the
  end marker and the free slots between tail and head included.
\<close>

theorem LoopQueue_isValid_scope:
  assumes "lq_inv q"
  shows "lq_isValid q idx \<longleftrightarrow> is_rolling q \<or> (\<exists>i. i < length (lq_list q) \<and> idx = lq_slot q i)"
  using lq_isValid_not_rolling [OF assms] lq_isValid_rolling [OF assms] by auto

theorem LoopQueue_isValid_scope_witness:
  "lq_isValid \<lparr>dataList = [4, 5, 6 :: nat], head = 2, tail = 0, usage = 1, depth = 3,
        invalid_idx = 4, is_rolling = True\<rparr> 4"
  using LoopQueue_isValid_scope [of "\<lparr>dataList = [4, 5, 6 :: nat], head = 2, tail = 0,
      usage = 1, depth = 3, invalid_idx = 4, is_rolling = True\<rparr>" 4]
  by (simp add: lq_inv_def)

end
