(* ===== verification/Inst_Types.thy ===== *)
theory Inst_Types
  imports Perseus_Prelude
begin

text \<open>
  The data that flows between the units: \<open>basic/Instruction.hpp\<close> (\<open>InstInfo\<close>, \<open>FuncType\<close>,
  \<open>RegType_t\<close>), \<open>basic/Inst.hpp\<close> (\<open>Inst\<close> with its getters and setters), \<open>basic/InstGroup.hpp\<close>,
  \<open>basic/PortInterface.hpp\<close> and the static uarch data of \<open>olympia/InstArchInfo\<close>. An \<open>InstPtr\<close> is
  shared between units, so instructions live in a store \<open>inst_ptr \<Rightarrow> inst\<close> that every handler
  takes and returns. Mavis, the decoder, is outside the repository: what the code reads of a decoded
  opcode is the record \<open>opcode_info_t\<close>, an argument of the constructor.
\<close>

unbundle bit_operations_syntax

section \<open>Instruction.hpp\<close>

type_synonym Credit = u64
type_synonym Addr_t = u64
type_synonym Inst_t = u32
type_synonym IsaRegId_t = u8
type_synonym PhyRegId_t = u64
type_synonym Imm_t = u32
type_synonym xlen_t = u64
type_synonym xReg_t = u64
type_synonym RobIdx_t = u64
type_synonym PhysicalReg = "xReg_t list"
type_synonym FlushingCriteria = u64

text \<open>The third component of a register or memory write is the address of its heap copy.\<close>

type_synonym RegWrite_t = "(string \<times> u32 \<times> u64) list"
type_synonym MemRead_t = "(u64 \<times> u32) list"
type_synonym MemWrite_t = "(u64 \<times> u32 \<times> u64) list"

datatype FuncType = FT_NO_TYPE | FT_ALU | FT_MUL | FT_DIV | FT_BRU | FT_CSR | FT_LDU | FT_STU
  | FT_FPU | FT_LAST

datatype RegType_t = RT_NONE | RT_INT | RT_FLOAT

record Exception =
  excp_valid :: bool
  Cause :: xlen_t
  Tval :: xlen_t

record InstInfo =
  pc :: Addr_t
  IsRvcInst :: bool
  CompressedInst :: Inst_t
  UncompressedInst :: Inst_t
  IsMissPrediction :: bool
  SpikeNpc :: Addr_t
  IsaRs1 :: IsaRegId_t
  IsaRs2 :: IsaRegId_t
  IsaRd :: IsaRegId_t
  imm :: Imm_t
  Rs1Type :: RegType_t
  Rs2Type :: RegType_t
  RdType :: RegType_t
  Fu :: FuncType
  SubOp :: u8
  RobTag :: RobIdx_t
  IsRs1Forward :: bool
  IsRs2Forward :: bool
  LSQTag :: u64
  PhyRs1 :: PhyRegId_t
  PhyRs2 :: PhyRegId_t
  PhyRd :: PhyRegId_t
  LPhyRd :: PhyRegId_t
  Operand1 :: xReg_t
  Operand2 :: xReg_t
  RdResult :: xReg_t
  Excp :: Exception
  reg_write :: RegWrite_t
  mem_read :: MemRead_t
  mem_write :: MemWrite_t

section \<open>InstArchInfo\<close>

datatype TargetUnit = TU_ALU | TU_FPU | TU_BR | TU_LSU | TU_ROB | TU_NONE

datatype TargetPipe = TP_BR | TP_CMOV | TP_DIV | TP_FADDSUB | TP_FLOAT | TP_FMAC | TP_I2F | TP_F2I
  | TP_INT | TP_LSU | TP_MUL | TP_SYS | TP_UNKNOWN

record InstArchInfo =
  tgt_unit :: TargetUnit
  tgt_pipe :: TargetPipe
  execute_time :: u32
  is_load_store :: bool

text \<open>The members before any JSON record was read; \<open>UNKNOWN\<close> and \<open>NONE\<close> are one enumerator.\<close>

definition InstArchInfo_default :: InstArchInfo where
  "InstArchInfo_default =
     \<lparr>tgt_unit = TU_NONE, tgt_pipe = TP_UNKNOWN, execute_time = 0, is_load_store = False\<rparr>"

definition dispatch_target_map :: "string \<Rightarrow> TargetUnit option" where
  "dispatch_target_map = map_of
     [(''alu'', TU_ALU), (''fpu'', TU_FPU), (''br'', TU_BR), (''lsu'', TU_LSU), (''rob'', TU_ROB),
      (''none'', TU_NONE), (''unknown'', TU_NONE)]"

definition execution_pipe_map :: "string \<Rightarrow> TargetPipe option" where
  "execution_pipe_map = map_of
     [(''br'', TP_BR), (''cmov'', TP_CMOV), (''div'', TP_DIV), (''faddsub'', TP_FADDSUB),
      (''float'', TP_FLOAT), (''fmac'', TP_FMAC), (''i2f'', TP_I2F), (''f2i'', TP_F2I),
      (''int'', TP_INT), (''lsu'', TP_LSU), (''mul'', TP_MUL), (''sys'', TP_SYS)]"

text \<open>
  \<open>update\<close> reads three optional keys of a JSON record: \<open>dispatch\<close> (a list of unit names),
  \<open>pipe\<close> and \<open>latency\<close>. The JSON library is outside the repository, so the looked-up values are
  the arguments.
\<close>

definition InstArchInfo_update ::
  "string list option \<Rightarrow> string option \<Rightarrow> u32 option \<Rightarrow> InstArchInfo \<Rightarrow> InstArchInfo result" where
  "InstArchInfo_update dispatch pipe latency a =
     bindE (case dispatch of
              None \<Rightarrow> Inr a
            | Some ulist \<Rightarrow>
                bindE (assertE (length ulist = 1)
                  (SpartaAssert ''This model cannot handle more than 1 dispatch target/instruction''))
                (\<lambda>_. case dispatch_target_map (ulist ! 0) of
                   None \<Rightarrow> Inl (SpartaAssert ''Unknown target unit'')
                 | Some u \<Rightarrow> Inr (a\<lparr>tgt_unit := u\<rparr>)))
     (\<lambda>a. bindE (assertE (tgt_unit a \<noteq> TU_NONE) (SpartaAssert ''Unknown target unit (dispatch)''))
     (\<lambda>_. bindE (case pipe of
              None \<Rightarrow> Inr a
            | Some pipe_name \<Rightarrow> (case execution_pipe_map pipe_name of
                   None \<Rightarrow> Inl (SpartaAssert ''Unknown pipe target'')
                 | Some p \<Rightarrow> Inr (a\<lparr>tgt_pipe := p\<rparr>)))
     (\<lambda>a. bindE (assertE (tgt_pipe a \<noteq> TP_UNKNOWN) (SpartaAssert ''Unknown target pipe (execution)''))
     (\<lambda>_. let a = (case latency of None \<Rightarrow> a | Some l \<Rightarrow> a\<lparr>execute_time := l\<rparr>) in
          bindE (assertE (execute_time a \<noteq> 0) (SpartaAssert ''Unknown execution time (latency)''))
     (\<lambda>_. Inr (a\<lparr>is_load_store := (tgt_unit a = TU_LSU)\<rparr>))))))"

text \<open>The constructor, and the text of a unit; \<open>UNKNOWN\<close>, which is \<open>NONE\<close>, throws.\<close>

definition mk_InstArchInfo :: "string list option \<Rightarrow> string option \<Rightarrow> u32 option \<Rightarrow> InstArchInfo result" where
  "mk_InstArchInfo dispatch pipe latency = InstArchInfo_update dispatch pipe latency InstArchInfo_default"

definition TargetUnit_text :: "TargetUnit \<Rightarrow> string result" where
  "TargetUnit_text u = (case u of TU_ALU \<Rightarrow> Inr ''ALU'' | TU_FPU \<Rightarrow> Inr ''FPU'' | TU_BR \<Rightarrow> Inr ''BR'' | TU_LSU \<Rightarrow> Inr ''LSU''
     | TU_ROB \<Rightarrow> Inr ''ROB'' | TU_NONE \<Rightarrow> Inl (Thrown ''Got UNKNOWN/NONE target unit.''))"

section \<open>Inst.hpp\<close>

text \<open>What the code reads of a decoded opcode; the two bit sets are \<open>std::bitset<64>\<close>.\<close>

record opcode_info_t =
  oi_Mnemonic :: string
  oi_Opcode :: u64
  oi_Immediate :: u64
  oi_isStore :: bool
  oi_IntSourceRegs :: u64
  oi_FloatSourceRegs :: u64
  oi_IntDestRegs :: u64
  oi_FloatDestRegs :: u64
  oi_numIntSourceRegs :: u32
  oi_numFloatSourceRegs :: u32
  oi_numIntDestRegs :: u32
  oi_numFloatDestRegs :: u32

record Inst =
  opcode_info :: opcode_info_t
  inst_arch_info :: InstArchInfo
  inst_pc :: Addr_t
  target_vaddr :: Addr_t
  is_oldest :: bool
  unique_id :: u64
  program_id :: u64
  is_speculative :: bool
  is_store :: bool
  is_transfer :: bool
  info :: InstInfo

type_synonym inst_ptr = nat
type_synonym inst_heap = "inst_ptr \<Rightarrow> Inst"

text \<open>
  The constructor. Members without an initialiser (\<open>pc\<close>, the register types, \<open>Fu\<close>, the tags)
  start with whatever \<open>garbage\<close> holds; those with one start with it.
\<close>

definition mk_Inst :: "opcode_info_t \<Rightarrow> InstArchInfo \<Rightarrow> InstInfo \<Rightarrow> Inst" where
  "mk_Inst oi ai garbage =
     \<lparr>opcode_info = oi, inst_arch_info = ai, inst_pc = 0, target_vaddr = 0, is_oldest = False,
      unique_id = 0, program_id = 0, is_speculative = False, is_store = oi_isStore oi,
      is_transfer = (tgt_pipe ai = TP_I2F \<or> tgt_pipe ai = TP_F2I),
      info = garbage\<lparr>IsMissPrediction := False, IsaRs1 := 0, IsaRs2 := 0, IsaRd := 0, imm := 0,
        IsRs1Forward := False, IsRs2Forward := False, PhyRs1 := 0, PhyRs2 := 0, PhyRd := 0,
        LPhyRd := 0, Operand1 := 0, Operand2 := 0, RdResult := 0,
        reg_write := [], mem_read := [], mem_write := []\<rparr>\<rparr>"

definition getUnit :: "Inst \<Rightarrow> TargetUnit" where
  [simp]: "getUnit i = tgt_unit (inst_arch_info i)"

definition getPipe :: "Inst \<Rightarrow> TargetPipe" where
  [simp]: "getPipe i = tgt_pipe (inst_arch_info i)"

definition isLoadStoreInst :: "Inst \<Rightarrow> bool" where
  [simp]: "isLoadStoreInst i = is_load_store (inst_arch_info i)"

definition getExecuteTime :: "Inst \<Rightarrow> u32" where
  [simp]: "getExecuteTime i = execute_time (inst_arch_info i)"

definition setPC :: "Addr_t \<Rightarrow> Inst \<Rightarrow> Inst" where
  [simp]: "setPC a i = i\<lparr>inst_pc := a, info := (info i)\<lparr>pc := a\<rparr>\<rparr>"

definition getPc :: "Inst \<Rightarrow> Addr_t" where
  [simp]: "getPc i = pc (info i)"

definition setUniqueID :: "u64 \<Rightarrow> Inst \<Rightarrow> Inst" where
  [simp]: "setUniqueID n i = i\<lparr>unique_id := n\<rparr>"

definition setProgramID :: "u64 \<Rightarrow> Inst \<Rightarrow> Inst" where
  [simp]: "setProgramID n i = i\<lparr>program_id := n\<rparr>"

definition setTargetVAddr :: "Addr_t \<Rightarrow> Inst \<Rightarrow> Inst" where
  [simp]: "setTargetVAddr a i = i\<lparr>target_vaddr := a\<rparr>"

definition getOpCode :: "Inst \<Rightarrow> u32" where
  [simp]: "getOpCode i = ucast (oi_Opcode (opcode_info i))"

definition getImmediate :: "Inst \<Rightarrow> u64" where
  [simp]: "getImmediate i = oi_Immediate (opcode_info i)"

definition getRAdr :: "Inst \<Rightarrow> u64" where
  "getRAdr i = target_vaddr i OR 0x8000000"

definition clearCommitInfo :: "Inst \<Rightarrow> Inst" where
  [simp]: "clearCommitInfo i =
     i\<lparr>info := (info i)\<lparr>reg_write := [], mem_read := [], mem_write := []\<rparr>\<rparr>"

definition setLSQTag :: "u64 \<Rightarrow> Inst \<Rightarrow> Inst" where
  [simp]: "setLSQTag v i = i\<lparr>info := (info i)\<lparr>LSQTag := v\<rparr>\<rparr>"

definition getLSQTag :: "Inst \<Rightarrow> u64" where
  [simp]: "getLSQTag i = LSQTag (info i)"

definition setIsRvcInst :: "bool \<Rightarrow> Inst \<Rightarrow> Inst" where
  [simp]: "setIsRvcInst v i = i\<lparr>info := (info i)\<lparr>IsRvcInst := v\<rparr>\<rparr>"

definition getIsRvcInst :: "Inst \<Rightarrow> bool" where
  [simp]: "getIsRvcInst i = IsRvcInst (info i)"

definition setCompressedInst :: "Inst_t \<Rightarrow> Inst \<Rightarrow> Inst" where
  [simp]: "setCompressedInst v i = i\<lparr>info := (info i)\<lparr>CompressedInst := v\<rparr>\<rparr>"

definition getCompressedInst :: "Inst \<Rightarrow> Inst_t" where
  [simp]: "getCompressedInst i = CompressedInst (info i)"

definition setUncompressedInst :: "Inst_t \<Rightarrow> Inst \<Rightarrow> Inst" where
  [simp]: "setUncompressedInst v i = i\<lparr>info := (info i)\<lparr>UncompressedInst := v\<rparr>\<rparr>"

definition getUncompressedInst :: "Inst \<Rightarrow> Inst_t" where
  [simp]: "getUncompressedInst i = UncompressedInst (info i)"

definition setIsMissPrediction :: "bool \<Rightarrow> Inst \<Rightarrow> Inst" where
  [simp]: "setIsMissPrediction v i = i\<lparr>info := (info i)\<lparr>IsMissPrediction := v\<rparr>\<rparr>"

definition getIsMissPrediction :: "Inst \<Rightarrow> bool" where
  [simp]: "getIsMissPrediction i = IsMissPrediction (info i)"

definition setSpikeNpc :: "Addr_t \<Rightarrow> Inst \<Rightarrow> Inst" where
  [simp]: "setSpikeNpc v i = i\<lparr>info := (info i)\<lparr>SpikeNpc := v\<rparr>\<rparr>"

definition getSpikeNpc :: "Inst \<Rightarrow> Addr_t" where
  [simp]: "getSpikeNpc i = SpikeNpc (info i)"

definition setRegWrite :: "RegWrite_t \<Rightarrow> Inst \<Rightarrow> Inst" where
  [simp]: "setRegWrite v i = i\<lparr>info := (info i)\<lparr>reg_write := v\<rparr>\<rparr>"

definition getRegWrite :: "Inst \<Rightarrow> RegWrite_t" where
  [simp]: "getRegWrite i = reg_write (info i)"

definition setMemRead :: "MemRead_t \<Rightarrow> Inst \<Rightarrow> Inst" where
  [simp]: "setMemRead v i = i\<lparr>info := (info i)\<lparr>mem_read := v\<rparr>\<rparr>"

definition getMemRead :: "Inst \<Rightarrow> MemRead_t" where
  [simp]: "getMemRead i = mem_read (info i)"

definition setMemWrite :: "MemWrite_t \<Rightarrow> Inst \<Rightarrow> Inst" where
  [simp]: "setMemWrite v i = i\<lparr>info := (info i)\<lparr>mem_write := v\<rparr>\<rparr>"

definition getMemWrite :: "Inst \<Rightarrow> MemWrite_t" where
  [simp]: "getMemWrite i = mem_write (info i)"

definition setIsaRs1 :: "IsaRegId_t \<Rightarrow> Inst \<Rightarrow> Inst" where
  [simp]: "setIsaRs1 v i = i\<lparr>info := (info i)\<lparr>IsaRs1 := v\<rparr>\<rparr>"

definition getIsaRs1 :: "Inst \<Rightarrow> IsaRegId_t" where
  [simp]: "getIsaRs1 i = IsaRs1 (info i)"

definition setIsaRs2 :: "IsaRegId_t \<Rightarrow> Inst \<Rightarrow> Inst" where
  [simp]: "setIsaRs2 v i = i\<lparr>info := (info i)\<lparr>IsaRs2 := v\<rparr>\<rparr>"

definition getIsaRs2 :: "Inst \<Rightarrow> IsaRegId_t" where
  [simp]: "getIsaRs2 i = IsaRs2 (info i)"

definition setIsaRd :: "IsaRegId_t \<Rightarrow> Inst \<Rightarrow> Inst" where
  [simp]: "setIsaRd v i = i\<lparr>info := (info i)\<lparr>IsaRd := v\<rparr>\<rparr>"

definition getIsaRd :: "Inst \<Rightarrow> IsaRegId_t" where
  [simp]: "getIsaRd i = IsaRd (info i)"

definition setImm :: "Imm_t \<Rightarrow> Inst \<Rightarrow> Inst" where
  [simp]: "setImm v i = i\<lparr>info := (info i)\<lparr>imm := v\<rparr>\<rparr>"

definition getImm :: "Inst \<Rightarrow> Imm_t" where
  [simp]: "getImm i = imm (info i)"

definition setRs1Type :: "RegType_t \<Rightarrow> Inst \<Rightarrow> Inst" where
  [simp]: "setRs1Type v i = i\<lparr>info := (info i)\<lparr>Rs1Type := v\<rparr>\<rparr>"

definition getRs1Type :: "Inst \<Rightarrow> RegType_t" where
  [simp]: "getRs1Type i = Rs1Type (info i)"

definition setRs2Type :: "RegType_t \<Rightarrow> Inst \<Rightarrow> Inst" where
  [simp]: "setRs2Type v i = i\<lparr>info := (info i)\<lparr>Rs2Type := v\<rparr>\<rparr>"

definition getRs2Type :: "Inst \<Rightarrow> RegType_t" where
  [simp]: "getRs2Type i = Rs2Type (info i)"

definition setRdType :: "RegType_t \<Rightarrow> Inst \<Rightarrow> Inst" where
  [simp]: "setRdType v i = i\<lparr>info := (info i)\<lparr>RdType := v\<rparr>\<rparr>"

definition getRdType :: "Inst \<Rightarrow> RegType_t" where
  [simp]: "getRdType i = RdType (info i)"

definition setFuType :: "FuncType \<Rightarrow> Inst \<Rightarrow> Inst" where
  [simp]: "setFuType v i = i\<lparr>info := (info i)\<lparr>Fu := v\<rparr>\<rparr>"

definition getFuType :: "Inst \<Rightarrow> FuncType" where
  [simp]: "getFuType i = Fu (info i)"

definition setSubOp :: "u8 \<Rightarrow> Inst \<Rightarrow> Inst" where
  [simp]: "setSubOp v i = i\<lparr>info := (info i)\<lparr>SubOp := v\<rparr>\<rparr>"

definition getSubOp :: "Inst \<Rightarrow> u8" where
  [simp]: "getSubOp i = SubOp (info i)"

definition setRobTag :: "u64 \<Rightarrow> Inst \<Rightarrow> Inst" where
  [simp]: "setRobTag v i = i\<lparr>info := (info i)\<lparr>RobTag := v\<rparr>\<rparr>"

definition getRobTag :: "Inst \<Rightarrow> u64" where
  [simp]: "getRobTag i = RobTag (info i)"

definition setIsRs1Forward :: "bool \<Rightarrow> Inst \<Rightarrow> Inst" where
  [simp]: "setIsRs1Forward v i = i\<lparr>info := (info i)\<lparr>IsRs1Forward := v\<rparr>\<rparr>"

definition getIsRs1Forward :: "Inst \<Rightarrow> bool" where
  [simp]: "getIsRs1Forward i = IsRs1Forward (info i)"

definition setIsRs2Forward :: "bool \<Rightarrow> Inst \<Rightarrow> Inst" where
  [simp]: "setIsRs2Forward v i = i\<lparr>info := (info i)\<lparr>IsRs2Forward := v\<rparr>\<rparr>"

definition getIsRs2Forward :: "Inst \<Rightarrow> bool" where
  [simp]: "getIsRs2Forward i = IsRs2Forward (info i)"

definition setPhyRs1 :: "PhyRegId_t \<Rightarrow> Inst \<Rightarrow> Inst" where
  [simp]: "setPhyRs1 v i = i\<lparr>info := (info i)\<lparr>PhyRs1 := v\<rparr>\<rparr>"

definition getPhyRs1 :: "Inst \<Rightarrow> PhyRegId_t" where
  [simp]: "getPhyRs1 i = PhyRs1 (info i)"

definition setPhyRs2 :: "PhyRegId_t \<Rightarrow> Inst \<Rightarrow> Inst" where
  [simp]: "setPhyRs2 v i = i\<lparr>info := (info i)\<lparr>PhyRs2 := v\<rparr>\<rparr>"

definition getPhyRs2 :: "Inst \<Rightarrow> PhyRegId_t" where
  [simp]: "getPhyRs2 i = PhyRs2 (info i)"

definition setPhyRd :: "PhyRegId_t \<Rightarrow> Inst \<Rightarrow> Inst" where
  [simp]: "setPhyRd v i = i\<lparr>info := (info i)\<lparr>PhyRd := v\<rparr>\<rparr>"

definition getPhyRd :: "Inst \<Rightarrow> PhyRegId_t" where
  [simp]: "getPhyRd i = PhyRd (info i)"

definition setLPhyRd :: "PhyRegId_t \<Rightarrow> Inst \<Rightarrow> Inst" where
  [simp]: "setLPhyRd v i = i\<lparr>info := (info i)\<lparr>LPhyRd := v\<rparr>\<rparr>"

definition getLPhyRd :: "Inst \<Rightarrow> PhyRegId_t" where
  [simp]: "getLPhyRd i = LPhyRd (info i)"

definition setOperand1 :: "xReg_t \<Rightarrow> Inst \<Rightarrow> Inst" where
  [simp]: "setOperand1 v i = i\<lparr>info := (info i)\<lparr>Operand1 := v\<rparr>\<rparr>"

definition getOperand1 :: "Inst \<Rightarrow> xReg_t" where
  [simp]: "getOperand1 i = Operand1 (info i)"

definition setOperand2 :: "xReg_t \<Rightarrow> Inst \<Rightarrow> Inst" where
  [simp]: "setOperand2 v i = i\<lparr>info := (info i)\<lparr>Operand2 := v\<rparr>\<rparr>"

definition getOperand2 :: "Inst \<Rightarrow> xReg_t" where
  [simp]: "getOperand2 i = Operand2 (info i)"

definition setRdResult :: "xReg_t \<Rightarrow> Inst \<Rightarrow> Inst" where
  [simp]: "setRdResult v i = i\<lparr>info := (info i)\<lparr>RdResult := v\<rparr>\<rparr>"

definition getRdResult :: "Inst \<Rightarrow> xReg_t" where
  [simp]: "getRdResult i = RdResult (info i)"

text \<open>A setter call \<open>p->setX(v)\<close> on a shared instruction is an update of the store at \<open>p\<close>.\<close>

definition on_inst :: "inst_ptr \<Rightarrow> (Inst \<Rightarrow> Inst) \<Rightarrow> inst_heap \<Rightarrow> inst_heap" where
  "on_inst p f h = h(p := f (h p))"

lemma on_inst_same [simp]: "on_inst p f h p = f (h p)"
  by (simp add: on_inst_def)

lemma on_inst_other [simp]: "q \<noteq> p \<Longrightarrow> on_inst p f h q = h q"
  by (simp add: on_inst_def)

lemma on_inst_apply: "on_inst p f h q = (if q = p then f (h p) else h q)"
  by (simp add: on_inst_def)

lemma on_inst_on_inst [simp]: "on_inst p f (on_inst p g h) = on_inst p (f \<circ> g) h"
  by (simp add: on_inst_def fun_eq_iff)

section \<open>InstGroup.hpp and PortInterface.hpp\<close>

text \<open>An instruction group is a vector of shared pointers, appended to and walked in order.\<close>

type_synonym InstGroup = "inst_ptr list"

definition emplace_back :: "InstGroup \<Rightarrow> inst_ptr \<Rightarrow> InstGroup" where
  [simp]: "emplace_back g p = g @ [p]"

record CreditPair =
  cp_name :: string
  cp_credit :: Credit

record InstGroupPair =
  igp_name :: string
  igp_inst_group :: "inst_ptr list"

section \<open>Properties of the static uarch data\<close>

lemma InstArchInfo_update_ok:
  assumes "InstArchInfo_update d p l a = Inr b"
  shows "tgt_unit b \<noteq> TU_NONE" and "tgt_pipe b \<noteq> TP_UNKNOWN" and "execute_time b \<noteq> 0"
    and "is_load_store b \<longleftrightarrow> tgt_unit b = TU_LSU"
  using assms
  by (auto simp: InstArchInfo_update_def Let_def result_simps split: option.splits if_splits)

text \<open>
  Information that is built at all can be printed and executed: its unit has a text, its pipe is known, its
  latency is not zero, and it counts as a load or store exactly on the load-store unit.
\<close>

lemma mk_InstArchInfo_ok:
  assumes "mk_InstArchInfo d p l = Inr a"
  shows "\<exists>t. TargetUnit_text (tgt_unit a) = Inr t" "tgt_pipe a \<noteq> TP_UNKNOWN" "execute_time a \<noteq> 0"
    "is_load_store a \<longleftrightarrow> TargetUnit_text (tgt_unit a) = Inr ''LSU''"
  using InstArchInfo_update_ok [OF assms [unfolded mk_InstArchInfo_def]]
  by (cases "tgt_unit a"; simp add: TargetUnit_text_def)+

end
