(* ===== verification/Credit_Interface.thy ===== *)
theory Credit_Interface
  imports Perseus_Prelude
begin

text \<open>
  The flow-control contract every buffered unit of the back end keeps with the unit that feeds it: the
  sender spends one credit for each instruction it sends, the receiver returns credits when it frees
  places, and a flush makes the sender start again from the credits the flush offers. The contract is
  stated once, over the credit-relevant steps of a unit, and interpreted on each unit.
\<close>

datatype credit_event =
    Received nat \<comment> \<open>the unit takes this many instructions\<close>
  | Returned nat \<comment> \<open>the unit sends back this many credits\<close>
  | Flushed nat \<comment> \<open>the unit is emptied and offers this many credits to a sender that forgot its own\<close>

text \<open>The unit together with the credits its sender holds.\<close>

inductive credit_run :: "('s \<Rightarrow> credit_event \<Rightarrow> 's \<Rightarrow> bool) \<Rightarrow> 's \<times> nat \<Rightarrow> 's \<times> nat \<Rightarrow> bool"
  for step and x where
  credit_refl: "credit_run step x x"
| credit_recv: "credit_run step x (s, c) \<Longrightarrow> step s (Received n) s' \<Longrightarrow> n \<le> c \<Longrightarrow>
    credit_run step x (s', c - n)"
| credit_ret: "credit_run step x (s, c) \<Longrightarrow> step s (Returned n) s' \<Longrightarrow> credit_run step x (s', c + n)"
| credit_flush: "credit_run step x (s, c) \<Longrightarrow> step s (Flushed n) s' \<Longrightarrow> credit_run step x (s', n)"

lemma credit_recv_first:
  "step s (Received n) s' \<Longrightarrow> n \<le> c \<Longrightarrow> credit_run step (s, c) (s', c - n)"
  by (blast intro: credit_run.intros)

text \<open>The credits of several messages.\<close>

definition sum_credits :: "u64 list \<Rightarrow> nat" where
  "sum_credits cs = sum_list (map unat cs)"

lemma sum_credits_simps [simp]:
  "sum_credits [] = 0" "sum_credits (c # cs) = unat c + sum_credits cs"
  "sum_credits (as @ bs) = sum_credits as + sum_credits bs"
  by (simp_all add: sum_credits_def)

locale credit_unit =
  fixes step :: "'s \<Rightarrow> credit_event \<Rightarrow> 's \<Rightarrow> bool"
    and occupied :: "'s \<Rightarrow> nat"
    and capacity :: "'s \<Rightarrow> nat"
    and wf :: "'s \<Rightarrow> bool"
  assumes recv_law: "step s (Received n) s' \<Longrightarrow> wf s \<Longrightarrow> occupied s + n \<le> capacity s \<Longrightarrow>
      wf s' \<and> occupied s' = occupied s + n \<and> capacity s' = capacity s"
    and ret_law: "step s (Returned n) s' \<Longrightarrow> wf s \<Longrightarrow> occupied s \<le> capacity s \<Longrightarrow>
      wf s' \<and> occupied s' + n = occupied s \<and> capacity s' = capacity s"
    and flush_law: "step s (Flushed n) s' \<Longrightarrow> wf s \<Longrightarrow>
      wf s' \<and> occupied s' + n = capacity s \<and> capacity s' = capacity s"
begin

definition balanced :: "'s \<times> nat \<Rightarrow> bool" where
  "balanced = (\<lambda>(s, c). wf s \<and> occupied s + c = capacity s)"

lemma balanced_run:
  assumes "credit_run step x y" "balanced x"
  shows "balanced y \<and> capacity (fst y) = capacity (fst x)"
  using assms
proof (induction rule: credit_run.induct)
  case (credit_recv s c n s')
  with recv_law [of s n s'] show ?case by (auto simp: balanced_def)
next
  case (credit_ret s c n s')
  with ret_law [of s n s'] show ?case by (auto simp: balanced_def)
next
  case (credit_flush s c n s')
  with flush_law [of s n s'] show ?case by (auto simp: balanced_def)
qed simp

lemma never_overflows:
  assumes "credit_run step (s0, capacity s0) (s, c)" "wf s0" "occupied s0 = 0"
  shows "wf s \<and> occupied s + c = capacity s0 \<and> occupied s \<le> capacity s0"
proof -
  have "balanced (s0, capacity s0)" using assms(2,3) by (simp add: balanced_def)
  from balanced_run [OF assms(1) this] show ?thesis by (auto simp: balanced_def)
qed

end

end
