(* ===== verification/Reorder_Buffer.thy ===== *)
theory Reorder_Buffer
  imports Loop_Queue Inst_Types Credit_Interface
begin

text \<open>
  \<open>core/abstract_backend/Rob\<close> and \<open>core/abstract_backend/FlushManager\<close>: the reorder buffer retires
  finished instructions in program order; a mispredicted one ends the group, redirects the frontend
  and asks the flush manager, which answers a cycle later, to flush every unit.
\<close>

section \<open>Parameters, state, output ports\<close>

record RobParameter =
  robp_issue_width :: u32
  robp_queue_depth :: u32
  robp_retire_heartbeat :: u32
  robp_num_insts_to_retire :: u32

text \<open>A default-constructed entry holds the null pointer, here \<open>None\<close>.\<close>

record RobEntry =
  rob_inst_ptr :: "inst_ptr option"
  rob_valid :: bool
  rob_finish :: bool
  rob_waked_up :: bool

definition RobEntry_default :: RobEntry where
  "RobEntry_default = \<lparr>rob_inst_ptr = None, rob_valid = False, rob_finish = False, rob_waked_up = False\<rparr>"

record Rob =
  rob_queue :: "RobEntry LoopQueue"
  num_retired :: u64
  retire_heartbeat :: u64
  num_insts_to_retire :: u32
  times :: u64
  rob_issue_width :: u64
  rob_depth :: u64
  rob_credit :: Credit
  stall_cycle_count :: u64

datatype rob_effect =
    rob_flush_out FlushingCriteria
  | rob_preceding_credit_out Credit
  | rob_redirect_pc_inst_out inst_ptr
  | rob_bpu_inst_out InstGroup
  | Rob_cmt_inst_out InstGroup
  | Rob_lsu_wakeup_out InstGroup
  | commit_event nat
  | print_heartbeat u64
  | stopRunning

section \<open>Handlers\<close>

definition mk_Rob :: "RobParameter \<Rightarrow> Rob" where
  "mk_Rob p = \<lparr>rob_queue = mk_LoopQueue RobEntry_default (robp_queue_depth p), num_retired = 0,
     retire_heartbeat = ucast (robp_retire_heartbeat p), num_insts_to_retire = robp_num_insts_to_retire p,
     times = 0, rob_issue_width = ucast (robp_issue_width p), rob_depth = ucast (robp_queue_depth p),
     rob_credit = 0, stall_cycle_count = 0\<rparr>"

definition rob_InitCredit :: "Rob \<Rightarrow> rob_effect list" where
  "rob_InitCredit s = [rob_preceding_credit_out (rob_depth s)]"

definition rob_HandleFlush :: "Rob \<Rightarrow> FlushingCriteria \<Rightarrow> Rob \<times> rob_effect list" where
  "rob_HandleFlush s fc =
     (s\<lparr>rob_queue := lq_clear (rob_queue s)\<rparr>, [rob_preceding_credit_out (rob_depth s)])"

definition AllocateRob_one :: "inst_heap \<times> Rob \<Rightarrow> inst_ptr \<Rightarrow> (inst_heap \<times> Rob) result" where
  "AllocateRob_one = (\<lambda>(h, s) p.
     bindE (lq_push (rob_queue s) (RobEntry_default\<lparr>rob_inst_ptr := Some p\<rparr>))
     (\<lambda>(q, idx). bindE (itr_getIndex (lq_iterator idx))
     (\<lambda>i. Inr (on_inst p (setRobTag (ucast i)) h, s\<lparr>rob_queue := q\<rparr>))))"

definition AllocateRob :: "inst_heap \<Rightarrow> Rob \<Rightarrow> InstGroup \<Rightarrow> (inst_heap \<times> Rob \<times> rob_effect list) result" where
  "AllocateRob h s g =
     bindE (foldE AllocateRob_one (h, s) g) (\<lambda>(h, s). Inr (h, s, [commit_event 1]))"

definition rob_Finish_one :: "inst_heap \<Rightarrow> Rob \<Rightarrow> inst_ptr \<Rightarrow> Rob result" where
  "rob_Finish_one h s p =
     bindE (lq_access (rob_queue s) (getRobTag (h p)))
     (\<lambda>e. bindE (lq_access_set (rob_queue s) (getRobTag (h p)) (e\<lparr>rob_finish := True\<rparr>))
     (\<lambda>q. Inr (s\<lparr>rob_queue := q\<rparr>)))"

definition rob_Finish :: "inst_heap \<Rightarrow> Rob \<Rightarrow> InstGroup \<Rightarrow> Rob result" where
  "rob_Finish h s g = foldE (rob_Finish_one h) s g"

definition deref_inst :: "RobEntry \<Rightarrow> inst_ptr result" where
  "deref_inst e = (case rob_inst_ptr e of None \<Rightarrow> Inl (Undefined ''null instruction pointer'') | Some p \<Rightarrow> Inr p)"

definition TryWakeupStore :: "inst_heap \<Rightarrow> RobEntry LoopQueue
    \<Rightarrow> (RobEntry LoopQueue \<times> rob_effect list) result" where
  "TryWakeupStore h q =
     bindE (lq_empty q)
     (\<lambda>empty. if empty then Inr (q, [])
       else bindE (lq_front q)
         (\<lambda>e. bindE (deref_inst e)
         (\<lambda>p. if getFuType (h p) = FT_STU \<and> \<not> rob_waked_up e then
                bindE (lq_front_set q (e\<lparr>rob_waked_up := True\<rparr>)) (\<lambda>q. Inr (q, [Rob_lsu_wakeup_out [p]]))
              else Inr (q, []))))"

text \<open>
  The retirement loop. It returns the store, the queue, the committed group, the group for the branch
  predictor, whether to flush, and the redirections it sent.
\<close>

fun Commit_loop :: "nat \<Rightarrow> inst_heap \<Rightarrow> RobEntry LoopQueue \<Rightarrow> InstGroup \<Rightarrow> InstGroup
    \<Rightarrow> (inst_heap \<times> RobEntry LoopQueue \<times> InstGroup \<times> InstGroup \<times> bool \<times> rob_effect list) result" where
  "Commit_loop 0 h q g bg = Inr (h, q, g, bg, False, [])"
| "Commit_loop (Suc n) h q g bg =
     bindE (lq_empty q)
     (\<lambda>empty. if empty then Inr (h, q, g, bg, False, [])
       else bindE (lq_front q)
         (\<lambda>e. if \<not> rob_finish e then Inr (h, q, g, bg, False, [])
              else bindE (deref_inst e)
                (\<lambda>p. let g1 = emplace_back g p;
                         h1 = on_inst p clearCommitInfo h;
                         bg1 = (if getFuType (h1 p) = FT_BRU then emplace_back bg p else bg)
                     in if getIsMissPrediction (h1 p)
                        then Inr (h1, q, g1, bg1, True, [rob_redirect_pc_inst_out p])
                        else bindE (lq_pop q) (\<lambda>q1. Commit_loop n h1 q1 g1 bg1))))"

text \<open>
  The stall counter, the credits and the statistics after the loop: \<open>g\<close> is the committed group. The
  \<open>valid\<close> flag of the front entry is read for a log message only.
\<close>

definition Commit_account :: "Rob \<Rightarrow> InstGroup \<Rightarrow> (Rob \<times> rob_effect list) result" where
  "Commit_account s g =
     (let n = word_of_nat (length g) :: u64;
          s1 = (if g \<noteq> [] then s\<lparr>stall_cycle_count := 0\<rparr> else s\<lparr>stall_cycle_count := stall_cycle_count s + 1\<rparr>) in
      bindE (if g \<noteq> [] then Inr () else assertE (stall_cycle_count s1 < 1000) (SpartaAssert ''commit stall''))
      (\<lambda>_. bindE (lq_front (rob_queue s1))
      (\<lambda>_. let s2 = s1\<lparr>num_retired := num_retired s1 + n\<rparr>;
               beat = num_retired s2 > times s2 * retire_heartbeat s2 \<and> num_retired s2 \<noteq> 0
           in Inr (if beat then s2\<lparr>times := times s2 + 1\<rparr> else s2,
                   (if g \<noteq> [] then [rob_preceding_credit_out n] else [])
                   @ (if beat then [print_heartbeat (num_retired s2)] else [])))))"

definition rob_Commit :: "inst_heap \<Rightarrow> Rob \<Rightarrow> (inst_heap \<times> Rob \<times> rob_effect list) result" where
  "rob_Commit h s =
     bindE (lq_size (rob_queue s))
     (\<lambda>n. bindE (Commit_loop (unat (min (rob_issue_width s) (ucast n))) h (rob_queue s) [] [])
     (\<lambda>(h1, q1, g, bg, do_flush, redirects). bindE (TryWakeupStore h1 q1)
     (\<lambda>(q2, wakes). bindE (Commit_account (s\<lparr>rob_queue := q2\<rparr>) g)
     (\<lambda>(s2, accounts).
        let effs = redirects @ wakes
              @ (if g \<noteq> [] then [Rob_cmt_inst_out g] else [])
              @ (if bg \<noteq> [] then [rob_bpu_inst_out bg] else []) @ accounts in
        if num_retired s2 \<ge> ucast (num_insts_to_retire s2) \<and> num_insts_to_retire s2 \<noteq> 0
        then Inr (h1, s2, effs @ [stopRunning])
        else bindE (lq_empty (rob_queue s2))
          (\<lambda>empty. Inr (h1, s2, effs @ (if \<not> empty then [commit_event 1] else [])
             @ (if do_flush then [rob_flush_out 1] else [])))))))"

section \<open>FlushManager\<close>

record FlushManager =
  fm_flush_criteria :: FlushingCriteria

datatype fm_effect = global_flush_signal_out FlushingCriteria | flush_event nat | nop_event nat

definition ForwardingFlushSignal :: "FlushManager \<Rightarrow> FlushingCriteria \<Rightarrow> FlushManager \<times> fm_effect list" where
  "ForwardingFlushSignal s fc = (s\<lparr>fm_flush_criteria := fc\<rparr>, [flush_event 1])"

definition fm_DoFlush :: "FlushManager \<Rightarrow> fm_effect list" where
  "fm_DoFlush s = [global_flush_signal_out (fm_flush_criteria s)]"

definition fm_Nop :: "FlushManager \<Rightarrow> FlushManager" where
  "fm_Nop s = s"

section \<open>Retirement as a function on the list of entries\<close>

text \<open>
  \<open>rob_retired h n L\<close>: the instructions one run retires, how many entries leave, and whether a
  mispredicted instruction ended the group.
\<close>

fun rob_retired :: "inst_heap \<Rightarrow> nat \<Rightarrow> RobEntry list \<Rightarrow> inst_ptr list \<times> nat \<times> bool" where
  "rob_retired h 0 L = ([], 0, False)"
| "rob_retired h (Suc n) [] = ([], 0, False)"
| "rob_retired h (Suc n) (e # L) =
     (if \<not> rob_finish e then ([], 0, False)
      else if getIsMissPrediction (h (the (rob_inst_ptr e))) then ([the (rob_inst_ptr e)], 0, True)
      else case rob_retired h n L of (ps, k, f) \<Rightarrow> (the (rob_inst_ptr e) # ps, Suc k, f))"

definition rob_entries_ok :: "RobEntry list \<Rightarrow> bool" where
  "rob_entries_ok L \<longleftrightarrow> (\<forall>e \<in> set L. rob_inst_ptr e \<noteq> None)"

definition rob_wf :: "Rob \<Rightarrow> bool" where
  "rob_wf s \<longleftrightarrow> lq_inv (rob_queue s) \<and> rob_entries_ok (lq_list (rob_queue s))
     \<and> rob_depth s = ucast (depth (rob_queue s))"

lemma rob_retired_cong:
  assumes "\<And>p. getIsMissPrediction (h' p) = getIsMissPrediction (h p)"
  shows "rob_retired h' n L = rob_retired h n L"
proof (induction n arbitrary: L)
  case (Suc n)
  then show ?case using assms by (cases L) (auto split: prod.splits)
qed simp

lemma rob_retired_prefix:
  assumes "rob_retired h n L = (ps, k, f)" "rob_entries_ok L"
  shows "map Some ps = take (length ps) (map rob_inst_ptr L) \<and> length ps \<le> n \<and> length ps \<le> length L
    \<and> k + of_bool f = length ps \<and> (\<forall>e \<in> set (take (length ps) L). rob_finish e)
    \<and> (\<forall>p \<in> set (take k ps). \<not> getIsMissPrediction (h p))
    \<and> (f \<longrightarrow> ps \<noteq> [] \<and> getIsMissPrediction (h (last ps)))
    \<and> (\<not> f \<and> length ps < n \<and> length ps < length L \<longrightarrow> \<not> rob_finish (L ! length ps))"
  using assms
proof (induction n arbitrary: L ps k)
  case 0
  then show ?case by simp
next
  case (Suc n)
  show ?case
  proof (cases L)
    case Nil
    with Suc.prems show ?thesis by simp
  next
    case (Cons e L')
    then obtain p where p: "rob_inst_ptr e = Some p" using Suc.prems(2) by (auto simp: rob_entries_ok_def)
    show ?thesis
    proof (cases "rob_finish e \<and> \<not> getIsMissPrediction (h p)")
      case True
      obtain ps' k' f' where r: "rob_retired h n L' = (ps', k', f')" by (cases "rob_retired h n L'")
      with True Suc.prems(1) Cons p have e: "ps = p # ps'" "k = Suc k'" "f' = f" by auto
      from Suc.IH [OF r [unfolded e(3)]] Suc.prems(2) Cons have i:
        "map Some ps' = take (length ps') (map rob_inst_ptr L') \<and> length ps' \<le> n \<and> length ps' \<le> length L'
          \<and> k' + of_bool f = length ps' \<and> (\<forall>e \<in> set (take (length ps') L'). rob_finish e)
          \<and> (\<forall>p \<in> set (take k' ps'). \<not> getIsMissPrediction (h p))
          \<and> (f \<longrightarrow> ps' \<noteq> [] \<and> getIsMissPrediction (h (last ps')))
          \<and> (\<not> f \<and> length ps' < n \<and> length ps' < length L' \<longrightarrow> \<not> rob_finish (L' ! length ps'))"
        by (simp add: rob_entries_ok_def)
      then show ?thesis using e True Cons p by auto
    next
      case False
      with Suc.prems(1) Cons p show ?thesis by (auto split: if_splits)
    qed
  qed
qed

lemma clearCommitInfo_keeps:
  "getIsMissPrediction (on_inst p clearCommitInfo h q) = getIsMissPrediction (h q)"
  "getFuType (on_inst p clearCommitInfo h q) = getFuType (h q)"
  by (simp_all add: on_inst_apply)

definition clear_all :: "inst_ptr list \<Rightarrow> inst_heap \<Rightarrow> inst_heap" where
  "clear_all ps h = fold (\<lambda>p. on_inst p clearCommitInfo) ps h"

lemma clear_all_keeps:
  "getIsMissPrediction (clear_all ps h q) = getIsMissPrediction (h q)"
  "getFuType (clear_all ps h q) = getFuType (h q)"
  "getRobTag (clear_all ps h q) = getRobTag (h q)"
  by (induction ps arbitrary: h) (auto simp: clear_all_def on_inst_apply)

lemma Commit_loop_spec:
  assumes "lq_inv q" "rob_entries_ok (lq_list q)" "rob_retired h n (lq_list q) = (ps, k, f)"
  shows "\<exists>q'. Commit_loop n h q g bg = Inr (clear_all ps h, q', g @ ps,
      bg @ filter (\<lambda>p. getFuType (h p) = FT_BRU) ps, f, if f then [rob_redirect_pc_inst_out (last ps)] else [])
    \<and> lq_inv q' \<and> lq_list q' = drop k (lq_list q) \<and> depth q' = depth q
    \<and> (\<forall>i. lq_slot q' i = lq_slot q (i + k))"
  using assms
proof (induction n arbitrary: h q g bg ps k)
  case 0
  then show ?case by (simp add: clear_all_def)
next
  case (Suc n)
  show ?case
  proof (cases "usage q = 0")
    case True
    then have "lq_list q = []" by (simp add: lq_list_eq_Nil)
    with True Suc.prems show ?thesis by (auto simp: clear_all_def)
  next
    case False
    then obtain e L where L: "lq_list q = e # L" using lq_list_eq_Nil [of q] by (cases "lq_list q") auto
    have front: "lq_front q = Inr e" using lq_front_eq [OF Suc.prems(1) False] L by simp
    obtain p where p: "rob_inst_ptr e = Some p" using Suc.prems(2) L by (auto simp: rob_entries_ok_def)
    let ?h = "on_inst p clearCommitInfo h"
    consider "\<not> rob_finish e" | "rob_finish e" "getIsMissPrediction (h p)"
      | "rob_finish e" "\<not> getIsMissPrediction (h p)" by blast
    then show ?thesis
    proof cases
      case 1
      with Suc.prems False front L show ?thesis by (auto simp: clear_all_def)
    next
      case 2
      with Suc.prems False front L p show ?thesis by (auto simp: clear_all_def deref_inst_def Let_def)
    next
      case 3
      obtain ps' k' f' where r: "rob_retired h n L = (ps', k', f')" by (cases "rob_retired h n L")
      with 3 Suc.prems(3) L p have e: "ps = p # ps'" "k = Suc k'" "f' = f" by auto
      let ?q = "lq_popped q"
      have pop: "lq_pop q = Inr ?q" "lq_inv ?q" "lq_list ?q = L" "depth ?q = depth q"
        using lq_pop_eq [OF Suc.prems(1) False] lq_popped_ok [OF Suc.prems(1) False] L by auto
      have ok: "rob_entries_ok (lq_list ?q)" using Suc.prems(2) L pop(3) by (simp add: rob_entries_ok_def)
      have r': "rob_retired ?h n (lq_list ?q) = (ps', k', f)"
        using r e(3) pop(3) rob_retired_cong [OF clearCommitInfo_keeps(1)] by simp
      let ?bg = "if getFuType (?h p) = FT_BRU then bg @ [p] else bg"
      have fu: "(\<lambda>q. getFuType (?h q) = FT_BRU) = (\<lambda>q. getFuType (h q) = FT_BRU)"
        by (simp only: clearCommitInfo_keeps)
      obtain q' where i: "Commit_loop n ?h ?q (g @ [p]) ?bg = Inr (clear_all ps' ?h, q', (g @ [p]) @ ps',
          ?bg @ filter (\<lambda>p. getFuType (h p) = FT_BRU) ps', f, if f then [rob_redirect_pc_inst_out (last ps')] else [])"
        "lq_inv q'" "lq_list q' = drop k' L" "depth q' = depth q" "\<forall>i. lq_slot q' i = lq_slot ?q (i + k')"
        using Suc.IH [OF pop(2) ok r', of "g @ [p]" ?bg] unfolding fu pop(3,4) by blast
      have "Commit_loop (Suc n) h q g bg = Commit_loop n ?h ?q (g @ [p]) ?bg"
        using False front p 3 pop(1) Suc.prems(1) by (simp add: deref_inst_def Let_def)
      moreover have "f \<longrightarrow> ps' \<noteq> []"
        using rob_retired_prefix [OF r] Suc.prems(2) L e(3) by (simp add: rob_entries_ok_def)
      ultimately show ?thesis
        using i e L lq_slot_popped [OF Suc.prems(1)] by (auto simp: clear_all_def)
    qed
  qed
qed

section \<open>The rest of a commit\<close>

text \<open>Two queues with the same entries up to the wake-up mark.\<close>

definition same_but_waked :: "RobEntry LoopQueue \<Rightarrow> RobEntry LoopQueue \<Rightarrow> bool" where
  "same_but_waked q q' \<longleftrightarrow> lq_inv q' \<and> depth q' = depth q \<and> usage q' = usage q \<and> head q' = head q
     \<and> map rob_inst_ptr (lq_list q') = map rob_inst_ptr (lq_list q)
     \<and> map rob_finish (lq_list q') = map rob_finish (lq_list q)"

lemma TryWakeupStore_ok:
  assumes "lq_inv q" "rob_entries_ok (lq_list q)"
  shows "\<exists>q' effs. TryWakeupStore h q = Inr (q', effs) \<and> same_but_waked q q'
    \<and> (\<forall>e \<in> set effs. \<exists>g. e = Rob_lsu_wakeup_out g)"
proof (cases "usage q = 0")
  case True
  with assms(1) show ?thesis by (simp add: TryWakeupStore_def same_but_waked_def)
next
  case False
  then obtain e L where L: "lq_list q = e # L" using lq_list_eq_Nil [of q] by (cases "lq_list q") auto
  have front: "lq_front q = Inr e" using lq_front_eq [OF assms(1) False] L by simp
  obtain p where p: "rob_inst_ptr e = Some p" using assms(2) L by (auto simp: rob_entries_ok_def)
  from lq_front_write [OF assms(1) False, of "e\<lparr>rob_waked_up := True\<rparr>"] obtain q' where
    "lq_front_set q (e\<lparr>rob_waked_up := True\<rparr>) = Inr q'" "lq_inv q'"
    "lq_list q' = (e\<lparr>rob_waked_up := True\<rparr>) # L" "depth q' = depth q" "usage q' = usage q" "head q' = head q"
    using L by auto
  with False front p assms(1) L show ?thesis
    by (auto simp: TryWakeupStore_def deref_inst_def same_but_waked_def)
qed

lemma Commit_account_ok:
  assumes "lq_inv (rob_queue s)" "g \<noteq> [] \<or> stall_cycle_count s < 999"
  shows "\<exists>s' effs. Commit_account s g = Inr (s', effs)
    \<and> rob_queue s' = rob_queue s \<and> rob_issue_width s' = rob_issue_width s \<and> rob_depth s' = rob_depth s
    \<and> num_insts_to_retire s' = num_insts_to_retire s \<and> num_retired s' = num_retired s + word_of_nat (length g)
    \<and> stall_cycle_count s' = (if g \<noteq> [] then 0 else stall_cycle_count s + 1)
    \<and> (\<exists>beats. effs = (if g \<noteq> [] then [rob_preceding_credit_out (word_of_nat (length g))] else []) @ beats
        \<and> (\<forall>e \<in> set beats. \<exists>n. e = print_heartbeat n))"
proof -
  have f: "\<exists>e. lq_front (rob_queue s) = Inr e"
    using assms(1) by (simp add: lq_front_def lq_inv_def word_less_nat_alt)
  have "stall_cycle_count s + 1 < 1000" if "stall_cycle_count s < 999"
    using that unat_plus_one_less [OF that] by (simp add: word_less_nat_alt)
  with f assms(2) show ?thesis by (auto simp: Commit_account_def Let_def)
qed

definition rob_width :: "Rob \<Rightarrow> nat" where
  "rob_width s = unat (min (rob_issue_width s) (ucast (usage (rob_queue s))))"

lemma rob_Commit_ok:
  assumes "rob_wf s" "rob_retired h (rob_width s) (lq_list (rob_queue s)) = (ps, k, f)"
    and "ps \<noteq> [] \<or> stall_cycle_count s < 999"
  shows "\<exists>s' wakes beats. rob_Commit h s = Inr (clear_all ps h, s',
      (if f then [rob_redirect_pc_inst_out (last ps)] else []) @ wakes
      @ (if ps \<noteq> [] then [Rob_cmt_inst_out ps] else [])
      @ (let bg = filter (\<lambda>p. getFuType (h p) = FT_BRU) ps in if bg \<noteq> [] then [rob_bpu_inst_out bg] else [])
      @ (if ps \<noteq> [] then [rob_preceding_credit_out (word_of_nat (length ps))] else []) @ beats
      @ (if num_retired s' \<ge> ucast (num_insts_to_retire s) \<and> num_insts_to_retire s \<noteq> 0 then [stopRunning]
         else (if usage (rob_queue s') \<noteq> 0 then [commit_event 1] else []) @ (if f then [rob_flush_out 1] else [])))
    \<and> rob_wf s'
    \<and> map rob_inst_ptr (lq_list (rob_queue s')) = drop k (map rob_inst_ptr (lq_list (rob_queue s)))
    \<and> map rob_finish (lq_list (rob_queue s')) = drop k (map rob_finish (lq_list (rob_queue s)))
    \<and> (\<forall>i. lq_slot (rob_queue s') i = lq_slot (rob_queue s) (i + k))
    \<and> depth (rob_queue s') = depth (rob_queue s) \<and> rob_issue_width s' = rob_issue_width s
    \<and> num_insts_to_retire s' = num_insts_to_retire s
    \<and> num_retired s' = num_retired s + word_of_nat (length ps)
    \<and> stall_cycle_count s' = (if ps \<noteq> [] then 0 else stall_cycle_count s + 1)
    \<and> (\<forall>e \<in> set wakes. \<exists>g. e = Rob_lsu_wakeup_out g) \<and> (\<forall>e \<in> set beats. \<exists>n. e = print_heartbeat n)"
proof -
  have wf: "lq_inv (rob_queue s)" "rob_entries_ok (lq_list (rob_queue s))"
    using assms(1) by (simp_all add: rob_wf_def)
  from Commit_loop_spec [OF wf assms(2), of "[]" "[]"] obtain q1 where
    l: "Commit_loop (rob_width s) h (rob_queue s) [] [] = Inr (clear_all ps h, q1, ps,
        filter (\<lambda>p. getFuType (h p) = FT_BRU) ps, f, if f then [rob_redirect_pc_inst_out (last ps)] else [])"
      "lq_inv q1" "lq_list q1 = drop k (lq_list (rob_queue s))" "depth q1 = depth (rob_queue s)"
      "\<forall>i. lq_slot q1 i = lq_slot (rob_queue s) (i + k)" by auto
  have "rob_entries_ok (lq_list q1)" using wf(2) l(3) by (auto simp: rob_entries_ok_def dest: in_set_dropD)
  from TryWakeupStore_ok [OF l(2) this] obtain q2 wakes where
    w: "TryWakeupStore (clear_all ps h) q1 = Inr (q2, wakes)" "same_but_waked q1 q2"
      "\<forall>e \<in> set wakes. \<exists>g. e = Rob_lsu_wakeup_out g" by blast
  have q2: "lq_inv q2" "depth q2 = depth (rob_queue s)"
      "map rob_inst_ptr (lq_list q2) = drop k (map rob_inst_ptr (lq_list (rob_queue s)))"
      "map rob_finish (lq_list q2) = drop k (map rob_finish (lq_list (rob_queue s)))"
    using w(2) l(3,4) by (simp_all add: same_but_waked_def drop_map)
  have sl: "\<forall>i. lq_slot q2 i = lq_slot (rob_queue s) (i + k)"
    using w(2) l(5) lq_slot_cong [of q2 q1] by (simp add: same_but_waked_def)
  from Commit_account_ok [of "s\<lparr>rob_queue := q2\<rparr>" ps] q2(1) assms(3) obtain s2 effs beats where
    a: "Commit_account (s\<lparr>rob_queue := q2\<rparr>) ps = Inr (s2, effs)" "rob_queue s2 = q2"
      "rob_issue_width s2 = rob_issue_width s" "rob_depth s2 = rob_depth s"
      "num_insts_to_retire s2 = num_insts_to_retire s" "num_retired s2 = num_retired s + word_of_nat (length ps)"
      "stall_cycle_count s2 = (if ps \<noteq> [] then 0 else stall_cycle_count s + 1)"
      "effs = (if ps \<noteq> [] then [rob_preceding_credit_out (word_of_nat (length ps))] else []) @ beats"
      "\<forall>e \<in> set beats. \<exists>n. e = print_heartbeat n" by auto
  have "rob_entries_ok (lq_list q2)"
  proof -
    have "set (map rob_inst_ptr (lq_list q2)) \<subseteq> set (map rob_inst_ptr (lq_list (rob_queue s)))"
      unfolding q2(3) by (rule set_drop_subset)
    with wf(2) show ?thesis by (fastforce simp: rob_entries_ok_def)
  qed
  then have "rob_wf s2" using assms(1) q2 a(2,4) by (simp add: rob_wf_def)
  moreover have "lq_size (rob_queue s) = Inr (usage (rob_queue s))" using wf(1) by simp
  moreover have "lq_empty (rob_queue s2) = Inr (usage q2 = 0)" using q2(1) a(2) by simp
  ultimately show ?thesis
    using l(1) w(1,3) q2 sl a unfolding rob_width_def
    by (intro exI [of _ s2] exI [of _ wakes] exI [of _ beats])
      (simp add: rob_Commit_def Let_def del: Commit_loop.simps)
qed

text \<open>The watchdog: a run that retires nothing when the counter is at its limit fails.\<close>

lemma rob_Commit_watchdog:
  assumes "rob_wf s" "rob_retired h (rob_width s) (lq_list (rob_queue s)) = ([], k, f)" "stall_cycle_count s = 999"
  shows "rob_Commit h s = Inl (SpartaAssert ''commit stall'')"
proof -
  have wf: "lq_inv (rob_queue s)" "rob_entries_ok (lq_list (rob_queue s))"
    using assms(1) by (simp_all add: rob_wf_def)
  from Commit_loop_spec [OF wf assms(2), of "[]" "[]"] obtain q1 where
    l: "Commit_loop (rob_width s) h (rob_queue s) [] [] = Inr (h, q1, [], [], f,
        if f then [rob_redirect_pc_inst_out (last [])] else [])"
      "lq_inv q1" "lq_list q1 = drop k (lq_list (rob_queue s))" by (auto simp: clear_all_def)
  have "rob_entries_ok (lq_list q1)" using wf(2) l(3) by (auto simp: rob_entries_ok_def dest: in_set_dropD)
  from TryWakeupStore_ok [OF l(2) this] obtain q2 wakes where
    "TryWakeupStore h q1 = Inr (q2, wakes)" by blast
  with l(1) wf(1) assms(3) show ?thesis
    unfolding rob_width_def by (simp add: rob_Commit_def Commit_account_def Let_def del: Commit_loop.simps)
qed

section \<open>Tags name slots\<close>

definition rob_insts :: "Rob \<Rightarrow> inst_ptr list" where
  "rob_insts s = map (\<lambda>e. the (rob_inst_ptr e)) (lq_list (rob_queue s))"

definition rob_tagged :: "inst_heap \<Rightarrow> Rob \<Rightarrow> bool" where
  "rob_tagged h s \<longleftrightarrow> (\<forall>i < length (rob_insts s). getRobTag (h (rob_insts s ! i)) = ucast (lq_slot (rob_queue s) i))"

definition rob_good :: "inst_heap \<Rightarrow> Rob \<Rightarrow> bool" where
  "rob_good h s \<longleftrightarrow> rob_wf s \<and> distinct (rob_insts s) \<and> rob_tagged h s"

lemma rob_entries_map: "rob_entries_ok L \<Longrightarrow> map rob_inst_ptr L = map Some (map (\<lambda>e. the (rob_inst_ptr e)) L)"
  by (auto simp: rob_entries_ok_def)

lemma AllocateRob_one_ok:
  assumes "rob_good h s" "p \<notin> set (rob_insts s)" "length (rob_insts s) < unat (depth (rob_queue s))"
  shows "\<exists>h' s'. AllocateRob_one (h, s) p = Inr (h', s') \<and> rob_good h' s' \<and> rob_insts s' = rob_insts s @ [p]
    \<and> lq_list (rob_queue s') = lq_list (rob_queue s) @ [RobEntry_default\<lparr>rob_inst_ptr := Some p\<rparr>]
    \<and> s' = s\<lparr>rob_queue := rob_queue s'\<rparr> \<and> depth (rob_queue s') = depth (rob_queue s)"
proof -
  let ?q = "rob_queue s" and ?e = "RobEntry_default\<lparr>rob_inst_ptr := Some p\<rparr>"
  have inv: "lq_inv ?q" "rob_entries_ok (lq_list ?q)" using assms(1) by (simp_all add: rob_good_def rob_wf_def)
  have ne: "usage ?q \<noteq> depth ?q" using assms(3) by (auto simp: rob_insts_def)
  let ?q' = "lq_pushed ?q ?e" and ?h = "on_inst p (setRobTag (ucast (tail ?q))) h"
  note ok = lq_pushed_ok [OF inv(1) ne, of ?e]
  have ins: "rob_insts (s\<lparr>rob_queue := ?q'\<rparr>) = rob_insts s @ [p]" by (simp add: rob_insts_def ok(2))
  have "rob_wf (s\<lparr>rob_queue := ?q'\<rparr>)"
    using assms(1) ok inv(2) by (simp add: rob_good_def rob_wf_def rob_entries_ok_def)
  moreover have "rob_tagged ?h (s\<lparr>rob_queue := ?q'\<rparr>)"
    unfolding rob_tagged_def ins
  proof (intro allI impI)
    fix i
    assume i: "i < length (rob_insts s @ [p])"
    show "getRobTag (?h ((rob_insts s @ [p]) ! i)) = ucast (lq_slot (rob_queue (s\<lparr>rob_queue := ?q'\<rparr>)) i)"
    proof (cases "i < length (rob_insts s)")
      case True
      then have "(rob_insts s @ [p]) ! i \<noteq> p" using assms(2) by (auto simp: nth_append)
      with True assms(1) show ?thesis
        by (simp add: lq_slot_pushed nth_append rob_good_def rob_tagged_def on_inst_apply)
    next
      case False
      with i have "i = length (rob_insts s)" by simp
      moreover from this have "lq_slot ?q i = tail ?q"
        using lq_slot_tail [OF inv(1)] by (simp add: rob_insts_def)
      ultimately show ?thesis by (simp add: lq_slot_pushed)
    qed
  qed
  moreover have "AllocateRob_one (h, s) p = Inr (?h, s\<lparr>rob_queue := ?q'\<rparr>)"
    using lq_push_eq [OF inv(1) ne, of ?e] by (simp add: AllocateRob_one_def itr_getIndex_def lq_iterator_def)
  ultimately show ?thesis
    using ins assms(1,2) ok(2) by (auto simp: rob_good_def)
qed

lemma AllocateRob_ok:
  assumes "rob_good h s" "distinct (rob_insts s @ g)" "length (rob_insts s @ g) \<le> unat (depth (rob_queue s))"
  shows "\<exists>h' s'. foldE AllocateRob_one (h, s) g = Inr (h', s') \<and> rob_good h' s' \<and> rob_insts s' = rob_insts s @ g
    \<and> s' = s\<lparr>rob_queue := rob_queue s'\<rparr> \<and> depth (rob_queue s') = depth (rob_queue s)"
  using assms
proof (induction g arbitrary: h s)
  case Nil
  then show ?case by simp
next
  case (Cons p g)
  then obtain h1 s1 where s1: "AllocateRob_one (h, s) p = Inr (h1, s1)" "rob_good h1 s1"
    "rob_insts s1 = rob_insts s @ [p]" "s1 = s\<lparr>rob_queue := rob_queue s1\<rparr>" "depth (rob_queue s1) = depth (rob_queue s)"
    using AllocateRob_one_ok [of h s p] by auto
  have "distinct (rob_insts s1 @ g)" "length (rob_insts s1 @ g) \<le> unat (depth (rob_queue s1))"
    using Cons.prems s1 by auto
  from Cons.IH [OF s1(2) this] obtain h' s' where
    i: "foldE AllocateRob_one (h1, s1) g = Inr (h', s')" "rob_good h' s'" "rob_insts s' = rob_insts s1 @ g"
      "s' = s1\<lparr>rob_queue := rob_queue s'\<rparr>" "depth (rob_queue s') = depth (rob_queue s1)" by blast
  have "s' = s\<lparr>rob_queue := rob_queue s'\<rparr>" using i(4) s1(4) by (metis Rob.surjective Rob.update_convs(1))
  with i s1 show ?case by auto
qed

lemma rob_Finish_one_ok:
  assumes "rob_good h s" "i < length (rob_insts s)"
  shows "\<exists>s'. rob_Finish_one h s (rob_insts s ! i) = Inr s' \<and> rob_good h s' \<and> rob_insts s' = rob_insts s
    \<and> lq_list (rob_queue s') = (lq_list (rob_queue s))[i := (lq_list (rob_queue s) ! i)\<lparr>rob_finish := True\<rparr>]
    \<and> s' = s\<lparr>rob_queue := rob_queue s'\<rparr> \<and> depth (rob_queue s') = depth (rob_queue s)"
proof -
  let ?q = "rob_queue s"
  let ?e = "lq_list ?q ! i"
  have inv: "lq_inv ?q" "rob_entries_ok (lq_list ?q)" using assms(1) by (simp_all add: rob_good_def rob_wf_def)
  have i: "i < unat (usage ?q)" using assms(2) by (simp add: rob_insts_def)
  have tag: "getRobTag (h (rob_insts s ! i)) = ucast (lq_slot ?q i)"
    using assms by (simp add: rob_good_def rob_tagged_def)
  from lq_slot_write [OF inv(1) i, of "?e\<lparr>rob_finish := True\<rparr>"] obtain q' where
    q': "lq_access_set ?q (ucast (lq_slot ?q i)) (?e\<lparr>rob_finish := True\<rparr>) = Inr q'" "lq_inv q'"
      "lq_list q' = (lq_list ?q)[i := ?e\<lparr>rob_finish := True\<rparr>]" "head q' = head ?q" "depth q' = depth ?q"
      "usage q' = usage ?q" by blast
  let ?s = "s\<lparr>rob_queue := q'\<rparr>"
  have ip: "map rob_inst_ptr (lq_list q') = map rob_inst_ptr (lq_list ?q)"
    using i unfolding q'(3) by (intro nth_equalityI) (auto simp: nth_list_update)
  then have "map the (map rob_inst_ptr (lq_list q')) = map the (map rob_inst_ptr (lq_list ?q))" by simp
  then have ins: "rob_insts ?s = rob_insts s" by (simp add: rob_insts_def comp_def)
  have "set (map rob_inst_ptr (lq_list q')) = set (map rob_inst_ptr (lq_list ?q))" using ip by metis
  then have "rob_entries_ok (lq_list q')" using inv(2) by (force simp: rob_entries_ok_def)
  then have "rob_good h ?s"
    using assms(1) q'(2,4,5) ins lq_slot_cong [of q' ?q] by (simp add: rob_good_def rob_wf_def rob_tagged_def)
  moreover have "rob_Finish_one h s (rob_insts s ! i) = Inr ?s"
    using lq_slot_read [OF inv(1) i] q'(1) tag by (simp add: rob_Finish_one_def)
  ultimately show ?thesis using ins q'(3,5) by auto
qed

lemma rob_Commit_good:
  assumes "rob_good h s" "rob_Commit h s = Inr (h', s', effs)"
    and "stall_cycle_count s < 999"
  shows "rob_good h' s' \<and> depth (rob_queue s') = depth (rob_queue s)"
proof -
  obtain ps k f where r: "rob_retired h (rob_width s) (lq_list (rob_queue s)) = (ps, k, f)"
    using prod_cases3 by blast
  have wf: "rob_wf s" using assms(1) by (simp add: rob_good_def)
  from rob_Commit_ok [OF wf r] assms(2,3) have
    c: "h' = clear_all ps h" "rob_wf s'"
      "map rob_inst_ptr (lq_list (rob_queue s')) = drop k (map rob_inst_ptr (lq_list (rob_queue s)))"
      "\<forall>i. lq_slot (rob_queue s') i = lq_slot (rob_queue s) (i + k)" "depth (rob_queue s') = depth (rob_queue s)"
    by auto
  have "map the (map rob_inst_ptr (lq_list (rob_queue s'))) = map the (drop k (map rob_inst_ptr (lq_list (rob_queue s))))"
    using c(3) by simp
  then have ins: "rob_insts s' = drop k (rob_insts s)" by (simp add: rob_insts_def comp_def drop_map)
  have "rob_tagged h' s'"
    using assms(1) c(4) unfolding rob_tagged_def rob_good_def ins c(1) clear_all_keeps
    by (auto simp: add.commute less_diff_conv)
  with c ins assms(1) show ?thesis by (simp add: rob_good_def)
qed

section \<open>The credit contract with the renaming stage\<close>

text \<open>
  The steps of the buffer together with the instruction store. A commit that retires a mispredicted
  instruction breaks the contract until the flush arrives, see below; it is no step here. Other units
  may change the store except for the tags of the instructions in the buffer.
\<close>

definition rob_no_miss :: "inst_heap \<Rightarrow> Rob \<Rightarrow> bool" where
  "rob_no_miss h s \<longleftrightarrow> (\<forall>p \<in> set (rob_insts s). \<not> getIsMissPrediction (h p))"

definition rob_sent_credit :: "rob_effect list \<Rightarrow> nat" where
  "rob_sent_credit effs = sum_list (map (\<lambda>e. case e of rob_preceding_credit_out c \<Rightarrow> unat c | _ \<Rightarrow> 0) effs)"

inductive rob_step :: "inst_heap \<times> Rob \<Rightarrow> credit_event \<Rightarrow> inst_heap \<times> Rob \<Rightarrow> bool" where
  rob_allocate: "distinct (rob_insts s @ g) \<Longrightarrow> AllocateRob h s g = Inr (h', s', effs) \<Longrightarrow>
    rob_step (h, s) (Received (length g)) (h', s')"
| rob_finish: "set g \<subseteq> set (rob_insts s) \<Longrightarrow> rob_Finish h s g = Inr s' \<Longrightarrow> rob_step (h, s) (Returned 0) (h, s')"
| rob_commit: "rob_no_miss h s \<Longrightarrow> stall_cycle_count s < 999 \<Longrightarrow> rob_Commit h s = Inr (h', s', effs) \<Longrightarrow>
    rob_step (h, s) (Returned (rob_sent_credit effs)) (h', s')"
| rob_store: "\<forall>p \<in> set (rob_insts s). getRobTag (h' p) = getRobTag (h p) \<Longrightarrow> rob_step (h, s) (Returned 0) (h', s)"
| rob_flush: "rob_HandleFlush s fc = (s', effs) \<Longrightarrow> rob_step (h, s) (Flushed (rob_sent_credit effs)) (h, s')"

definition rob_occ :: "inst_heap \<times> Rob \<Rightarrow> nat" where
  "rob_occ x = length (rob_insts (snd x))"

definition rob_cap :: "inst_heap \<times> Rob \<Rightarrow> nat" where
  "rob_cap x = unat (depth (rob_queue (snd x)))"

definition rob_inv :: "inst_heap \<times> Rob \<Rightarrow> bool" where
  "rob_inv = (\<lambda>(h, s). rob_good h s)"

lemma rob_Finish_good:
  assumes "rob_good h s" "set g \<subseteq> set (rob_insts s)" "rob_Finish h s g = Inr s'"
  shows "rob_good h s' \<and> rob_insts s' = rob_insts s \<and> depth (rob_queue s') = depth (rob_queue s)"
  using assms unfolding rob_Finish_def
proof (induction g arbitrary: s)
  case (Cons p g)
  then obtain i where i: "i < length (rob_insts s)" "p = rob_insts s ! i" by (auto simp: in_set_conv_nth)
  from rob_Finish_one_ok [OF Cons.prems(1) i(1)] obtain s1 where
    s1: "rob_Finish_one h s p = Inr s1" "rob_good h s1" "rob_insts s1 = rob_insts s"
      "depth (rob_queue s1) = depth (rob_queue s)" using i(2) by blast
  with Cons.prems Cons.IH [of s1] show ?case by auto
qed simp

lemma rob_retired_no_miss:
  "rob_no_miss h s \<Longrightarrow> rob_retired h n (drop m (lq_list (rob_queue s))) = (ps, k, f) \<Longrightarrow> \<not> f"
proof (induction n arbitrary: m ps k)
  case (Suc n)
  show ?case
  proof (cases "drop m (lq_list (rob_queue s))")
    case (Cons e L)
    then have e: "e \<in> set (lq_list (rob_queue s))" by (metis in_set_dropD list.set_intros(1))
    then have "\<not> getIsMissPrediction (h (the (rob_inst_ptr e)))"
      using Suc.prems(1) by (auto simp: rob_no_miss_def rob_insts_def)
    moreover have "L = drop (Suc m) (lq_list (rob_queue s))" using Cons by (metis drop_Suc list.sel(3) tl_drop)
    ultimately show ?thesis using Suc Cons by (auto split: if_splits prod.splits)
  qed (use Suc in auto)
qed simp

lemma rob_commit_returns:
  assumes "rob_good h s" "rob_no_miss h s" "stall_cycle_count s < 999" "rob_Commit h s = Inr (h', s', effs)"
  shows "length (rob_insts s') + rob_sent_credit effs = length (rob_insts s)"
proof -
  obtain ps k f where r: "rob_retired h (rob_width s) (lq_list (rob_queue s)) = (ps, k, f)"
    using prod_cases3 by blast
  have wf: "rob_wf s" "rob_entries_ok (lq_list (rob_queue s))" using assms(1) by (simp_all add: rob_good_def rob_wf_def)
  have f: "\<not> f" using rob_retired_no_miss [OF assms(2), of _ 0] r by simp
  then have k: "k = length ps" "length ps \<le> length (lq_list (rob_queue s))"
    using rob_retired_prefix [OF r wf(2)] by auto
  from rob_Commit_ok [OF wf(1) r disjI2 [OF assms(3)]] obtain s2 wakes beats where
    c: "rob_Commit h s = Inr (clear_all ps h, s2,
        (if f then [rob_redirect_pc_inst_out (last ps)] else []) @ wakes
        @ (if ps \<noteq> [] then [Rob_cmt_inst_out ps] else [])
        @ (let bg = filter (\<lambda>p. getFuType (h p) = FT_BRU) ps in if bg \<noteq> [] then [rob_bpu_inst_out bg] else [])
        @ (if ps \<noteq> [] then [rob_preceding_credit_out (word_of_nat (length ps))] else []) @ beats
        @ (if num_retired s2 \<ge> ucast (num_insts_to_retire s) \<and> num_insts_to_retire s \<noteq> 0 then [stopRunning]
           else (if usage (rob_queue s2) \<noteq> 0 then [commit_event 1] else []) @ (if f then [rob_flush_out 1] else [])))"
      "map rob_inst_ptr (lq_list (rob_queue s2)) = drop k (map rob_inst_ptr (lq_list (rob_queue s)))"
      "\<forall>e \<in> set wakes. \<exists>g. e = Rob_lsu_wakeup_out g" "\<forall>e \<in> set beats. \<exists>n. e = print_heartbeat n" by blast
  note s2 = c(1) [unfolded assms(4) sum.inject prod.inject]
  have z: "rob_sent_credit l = 0" if "\<forall>e \<in> set l. \<exists>g n. e = Rob_lsu_wakeup_out g \<or> e = print_heartbeat n" for l
    using that by (induction l) (auto simp: rob_sent_credit_def)
  have app: "rob_sent_credit (a @ b) = rob_sent_credit a + rob_sent_credit b" for a b
    by (simp add: rob_sent_credit_def)
  have "unat (usage (rob_queue s)) < 2 ^ 32" by (rule less_le_trans [OF unsigned_less]) simp
  then have "unat (word_of_nat (length ps) :: u64) = length ps"
    using k(2) by (simp add: unat_of_nat)
  moreover have "rob_sent_credit wakes = 0" "rob_sent_credit beats = 0" using z c(3,4) by blast+
  ultimately have "rob_sent_credit effs = length ps"
    unfolding s2 [THEN conjunct2, THEN conjunct2] app Let_def using f
    by (auto simp: rob_sent_credit_def)
  moreover have "length (rob_insts s') = length (drop k (map rob_inst_ptr (lq_list (rob_queue s))))"
    unfolding c(2) [symmetric] rob_insts_def using s2 by simp
  ultimately show ?thesis using k by (simp add: rob_insts_def)
qed

lemma rob_flush_good:
  assumes "rob_good h s"
  shows "rob_good h (s\<lparr>rob_queue := lq_clear (rob_queue s)\<rparr>) \<and> rob_insts (s\<lparr>rob_queue := lq_clear (rob_queue s)\<rparr>) = []"
  using assms lq_inv_clear [of "rob_queue s"]
  by (simp add: rob_good_def rob_wf_def rob_insts_def rob_tagged_def rob_entries_ok_def)

interpretation rob: credit_unit rob_step rob_occ rob_cap rob_inv
proof
  fix x n y
  show "rob_inv y \<and> rob_occ y = rob_occ x + n \<and> rob_cap y = rob_cap x"
    if "rob_step x (Received n) y" "rob_inv x" "rob_occ x + n \<le> rob_cap x"
    using that(1)
  proof cases
    case (rob_allocate s g h h' s' effs)
    with that(2,3) AllocateRob_ok [of h s g] show ?thesis
      by (auto simp: AllocateRob_def rob_inv_def rob_occ_def rob_cap_def)
  qed
  show "rob_inv y \<and> rob_occ y + n = rob_occ x \<and> rob_cap y = rob_cap x"
    if st: "rob_step x (Returned n) y" and inv: "rob_inv x" and le: "rob_occ x \<le> rob_cap x"
    using st
  proof cases
    case (rob_finish g s h s')
    with rob_Finish_good [of h s g s'] inv show ?thesis by (auto simp: rob_inv_def rob_occ_def rob_cap_def)
  next
    case (rob_commit h s h' s' effs)
    with rob_Commit_good [of h s h' s' effs] rob_commit_returns [of h s h' s' effs] inv show ?thesis
      by (auto simp: rob_inv_def rob_occ_def rob_cap_def)
  next
    case (rob_store s h' h)
    with inv show ?thesis by (auto simp: rob_inv_def rob_occ_def rob_cap_def rob_good_def rob_tagged_def)
  qed
  show "rob_inv y \<and> rob_occ y + n = rob_cap x \<and> rob_cap y = rob_cap x"
    if "rob_step x (Flushed n) y" "rob_inv x"
    using that(1)
  proof cases
    case (rob_flush s fc s' effs h)
    note a = rob_flush
    have "rob_depth s = ucast (depth (rob_queue s))" using that(2) a(1) by (simp add: rob_inv_def rob_good_def rob_wf_def)
    with a that(2) rob_flush_good [of h s] show ?thesis
      by (auto simp: rob_HandleFlush_def rob_inv_def rob_occ_def rob_cap_def rob_sent_credit_def)
  qed
qed

lemma mk_Rob_good:
  assumes "0 < robp_queue_depth p"
  shows "rob_good h (mk_Rob p) \<and> rob_insts (mk_Rob p) = [] \<and> depth (rob_queue (mk_Rob p)) = robp_queue_depth p"
proof -
  have "lq_list (mk_LoopQueue RobEntry_default (robp_queue_depth p)) = []"
    by (simp add: lq_list_eq_Nil mk_LoopQueue_def lq_clear_def)
  moreover have "depth (mk_LoopQueue RobEntry_default (robp_queue_depth p)) = robp_queue_depth p"
    by (simp add: mk_LoopQueue_def lq_clear_def)
  ultimately show ?thesis
    using lq_inv_mk [OF assms, of RobEntry_default]
    by (simp add: rob_good_def rob_wf_def rob_insts_def rob_tagged_def rob_entries_ok_def mk_Rob_def)
qed

lemma rob_width_min: "rob_wf s \<Longrightarrow> rob_width s = min (unat (rob_issue_width s)) (length (rob_insts s))"
  by (auto simp: rob_width_def rob_insts_def min_def word_le_nat_alt)

section \<open>Properties\<close>

text \<open>
  (C4) A run of \<open>Commit_\<close> on a well-formed buffer that is not at its stall limit returns and retires in
  program order. What it sends to the renaming stage is a prefix of the buffer, at most the issue width
  long, made of finished instructions only, none but the last of them mispredicted; it is shorter than the width and the
  buffer only if its last instruction is mispredicted or the next one is unfinished. All of the prefix leaves the
  buffer, except a mispredicted last instruction, which stays, is redirected, and causes a flush request
  unless the run ends because enough instructions have retired. The credit returned and the increment of the
  retired counter are the length of the prefix, also when its last instruction stays.
\<close>

theorem Rob_commit_in_order:
  assumes "rob_wf s" "stall_cycle_count s < 999"
  shows "\<exists>ps f h' s' effs. rob_Commit h s = Inr (h', s', effs) \<and> rob_wf s'
    \<and> (\<forall>g. Rob_cmt_inst_out g \<in> set effs \<longleftrightarrow> ps \<noteq> [] \<and> g = ps)
    \<and> ps = take (length ps) (rob_insts s)
    \<and> length ps \<le> unat (rob_issue_width s)
    \<and> (\<forall>e \<in> set (take (length ps) (lq_list (rob_queue s))). rob_finish e)
    \<and> (f \<longleftrightarrow> ps \<noteq> [] \<and> getIsMissPrediction (h (last ps)))
    \<and> (\<forall>q \<in> set (butlast ps). \<not> getIsMissPrediction (h q))
    \<and> (\<not> f \<and> length ps < unat (rob_issue_width s) \<and> length ps < length (rob_insts s)
         \<longrightarrow> \<not> rob_finish (lq_list (rob_queue s) ! length ps))
    \<and> rob_insts s' = drop (length ps - of_bool f) (rob_insts s)
    \<and> (\<forall>q. rob_redirect_pc_inst_out q \<in> set effs \<longleftrightarrow> f \<and> q = last ps)
    \<and> (rob_flush_out 1 \<in> set effs
         \<longleftrightarrow> f \<and> \<not> (num_insts_to_retire s \<noteq> 0 \<and> ucast (num_insts_to_retire s) \<le> num_retired s'))
    \<and> (\<forall>c. rob_preceding_credit_out c \<in> set effs \<longleftrightarrow> ps \<noteq> [] \<and> c = word_of_nat (length ps))
    \<and> num_retired s' = num_retired s + word_of_nat (length ps)"
proof -
  obtain ps k f where r: "rob_retired h (rob_width s) (lq_list (rob_queue s)) = (ps, k, f)"
    using prod_cases3 by blast
  have ok: "rob_entries_ok (lq_list (rob_queue s))" using assms(1) by (simp add: rob_wf_def)
  note pre = rob_retired_prefix [OF r ok]
  from rob_Commit_ok [OF assms(1) r disjI2 [OF assms(2)]] obtain s2 wakes beats where
    c: "rob_Commit h s = Inr (clear_all ps h, s2,
        (if f then [rob_redirect_pc_inst_out (last ps)] else []) @ wakes
        @ (if ps \<noteq> [] then [Rob_cmt_inst_out ps] else [])
        @ (let bg = filter (\<lambda>p. getFuType (h p) = FT_BRU) ps in if bg \<noteq> [] then [rob_bpu_inst_out bg] else [])
        @ (if ps \<noteq> [] then [rob_preceding_credit_out (word_of_nat (length ps))] else []) @ beats
        @ (if num_retired s2 \<ge> ucast (num_insts_to_retire s) \<and> num_insts_to_retire s \<noteq> 0 then [stopRunning]
           else (if usage (rob_queue s2) \<noteq> 0 then [commit_event 1] else []) @ (if f then [rob_flush_out 1] else [])))"
        (is "_ = Inr (_, _, ?effs)")
      "rob_wf s2" "map rob_inst_ptr (lq_list (rob_queue s2)) = drop k (map rob_inst_ptr (lq_list (rob_queue s)))"
      "num_retired s2 = num_retired s + word_of_nat (length ps)"
      "\<forall>e \<in> set wakes. \<exists>g. e = Rob_lsu_wakeup_out g" "\<forall>e \<in> set beats. \<exists>n. e = print_heartbeat n" by blast
  have "map the (map Some ps) = map the (take (length ps) (map rob_inst_ptr (lq_list (rob_queue s))))"
    using pre by argo
  then have p1: "ps = take (length ps) (rob_insts s)" by (simp add: rob_insts_def comp_def take_map)
  have "map the (map rob_inst_ptr (lq_list (rob_queue s2))) = map the (drop k (map rob_inst_ptr (lq_list (rob_queue s))))"
    using c(3) by argo
  then have "rob_insts s2 = drop k (rob_insts s)" by (simp add: rob_insts_def comp_def drop_map)
  moreover have "k = length ps - of_bool f" using pre by auto
  ultimately have p2: "rob_insts s2 = drop (length ps - of_bool f) (rob_insts s)" by (simp only:)
  have w: "rob_width s = min (unat (rob_issue_width s)) (length (rob_insts s))"
    using rob_width_min [OF assms(1)] .
  have k: "k + of_bool f = length ps" "\<And>q. q \<in> set (take k ps) \<Longrightarrow> \<not> getIsMissPrediction (h q)"
    and miss: "f \<Longrightarrow> ps \<noteq> [] \<and> getIsMissPrediction (h (last ps))" using pre by blast+
  have bl: "k = length ps - of_bool f" using k(1) by simp
  then have "take k ps = (if f then butlast ps else ps)" by (simp add: butlast_conv_take)
  then have nm: "\<forall>q \<in> set (butlast ps). \<not> getIsMissPrediction (h q)"
    and right: "\<not> f \<Longrightarrow> q \<in> set ps \<Longrightarrow> \<not> getIsMissPrediction (h q)" for q
    using k(2) by (cases f; auto dest: in_set_butlastD)+
  have f: "f \<longleftrightarrow> ps \<noteq> [] \<and> getIsMissPrediction (h (last ps))" using miss right last_in_set by blast
  have wk: "Rob_cmt_inst_out g \<notin> set ws" "rob_redirect_pc_inst_out q \<notin> set ws" "rob_preceding_credit_out m \<notin> set ws"
      "rob_flush_out n \<notin> set ws" if "ws = wakes \<or> ws = beats" for ws g q m n
    using that c(5,6) by auto
  note wk = wk [of wakes, simplified] wk [of beats, simplified]
  have early: "\<not> f \<and> length ps < unat (rob_issue_width s) \<and> length ps < length (rob_insts s)
      \<longrightarrow> \<not> rob_finish (lq_list (rob_queue s) ! length ps)" "length ps \<le> unat (rob_issue_width s)"
      "\<forall>e \<in> set (take (length ps) (lq_list (rob_queue s))). rob_finish e"
    using pre by (simp_all add: w rob_insts_def)
  show ?thesis
  proof (intro exI [of _ ps] exI [of _ f] exI [of _ "clear_all ps h"] exI [of _ s2] exI [of _ ?effs] conjI)
    show "\<forall>g. Rob_cmt_inst_out g \<in> set ?effs \<longleftrightarrow> ps \<noteq> [] \<and> g = ps"
      "\<forall>q. rob_redirect_pc_inst_out q \<in> set ?effs \<longleftrightarrow> f \<and> q = last ps"
      "\<forall>m. rob_preceding_credit_out m \<in> set ?effs \<longleftrightarrow> ps \<noteq> [] \<and> m = word_of_nat (length ps)"
      "rob_flush_out 1 \<in> set ?effs \<longleftrightarrow> f \<and> \<not> (num_insts_to_retire s \<noteq> 0 \<and> ucast (num_insts_to_retire s) \<le> num_retired s2)"
      by (auto simp: Let_def wk)
  qed (fact c(1) c(2) c(4) p1 p2 f nm early)+
qed

definition rob_example :: Rob where
  "rob_example = mk_Rob \<lparr>robp_issue_width = 4, robp_queue_depth = 8, robp_retire_heartbeat = 10000,
     robp_num_insts_to_retire = 0\<rparr>"

lemma rob_example_good: "rob_good h rob_example" "rob_insts rob_example = []"
    "depth (rob_queue rob_example) = 8" "stall_cycle_count rob_example = 0" "rob_issue_width rob_example = 4"
    "num_insts_to_retire rob_example = 0"
  using mk_Rob_good [of "\<lparr>robp_issue_width = 4, robp_queue_depth = 8, robp_retire_heartbeat = 10000,
     robp_num_insts_to_retire = 0\<rparr>" h]
  by (simp_all add: rob_example_def mk_Rob_def)

definition rob_example_heap :: inst_heap where
  "rob_example_heap p = setIsMissPrediction (p = 0) (setFuType FT_BRU (mk_Inst undefined undefined undefined))"

text \<open>
  The reorder buffer never overflows: as long as no mispredicted instruction is committed, the
  instructions in the buffer plus the credits the renaming stage holds are exactly the buffer's depth,
  after any sequence of allocations, completions, commits and flushes.
\<close>

theorem Rob_credit_balance:
  assumes "0 < robp_queue_depth p"
    and "credit_run rob_step ((h0, mk_Rob p), unat (robp_queue_depth p)) ((h, s), c)"
  shows "length (rob_insts s) + c = unat (robp_queue_depth p)"
  using rob.never_overflows [of "(h0, mk_Rob p)" "(h, s)" c] assms(2) mk_Rob_good [OF assms(1), of h0]
  by (simp add: rob_occ_def rob_cap_def rob_inv_def)

lemma rob_example_run:
  "\<exists>h' s'. credit_run rob_step ((rob_example_heap, rob_example), 8) ((h', s'), 6) \<and> rob_insts s' = [0, 1]"
proof -
  have "distinct (rob_insts rob_example @ [0, 1])" "length (rob_insts rob_example @ [0, 1]) \<le> unat (depth (rob_queue rob_example))"
    using rob_example_good by simp_all
  from AllocateRob_ok [OF rob_example_good(1) [of rob_example_heap] this] obtain h' s' where
    a: "foldE AllocateRob_one (rob_example_heap, rob_example) [0, 1] = Inr (h', s')" "rob_insts s' = [0, 1]"
    using rob_example_good(2) by auto
  have "rob_step (rob_example_heap, rob_example) (Received (length [0::nat, 1])) (h', s')"
    by (rule rob_step.rob_allocate [where effs = "[commit_event 1]"])
      (use a(1) rob_example_good(2) in \<open>simp_all only: AllocateRob_def bindE_Inr prod.case append_Nil, simp\<close>)
  then have "credit_run rob_step ((rob_example_heap, rob_example), 8) ((h', s'), 8 - length [0::nat, 1])"
    by (rule credit_recv_first [where step = rob_step]) simp
  with a(2) show ?thesis by auto
qed

theorem Rob_credit_balance_witness:
  "\<exists>h' s'. credit_run rob_step ((rob_example_heap, rob_example), 8) ((h', s'), 6) \<and> length (rob_insts s') + 6 = 8"
proof -
  obtain h' s' where r: "credit_run rob_step ((rob_example_heap, rob_example), 8) ((h', s'), 6)" using rob_example_run by blast
  with Rob_credit_balance [of "\<lparr>robp_issue_width = 4, robp_queue_depth = 8, robp_retire_heartbeat = 10000,
     robp_num_insts_to_retire = 0\<rparr>" rob_example_heap h' s' 6] show ?thesis by (auto simp: rob_example_def)
qed

text \<open>
  A completion marks the right entry: in every reachable state, finishing the instruction at
  position \<open>i\<close> of the buffer through its tag sets the finish mark of entry \<open>i\<close> and changes no other
  entry, also after the ring wrapped around.
\<close>

theorem Rob_finish_exact:
  assumes "0 < robp_queue_depth p"
    and "credit_run rob_step ((h0, mk_Rob p), unat (robp_queue_depth p)) ((h, s), c)"
    and "i < length (rob_insts s)"
  shows "\<exists>s'. rob_Finish h s [rob_insts s ! i] = Inr s' \<and> lq_list (rob_queue s')
    = (lq_list (rob_queue s))[i := (lq_list (rob_queue s) ! i)\<lparr>rob_finish := True\<rparr>]"
proof -
  have "rob_good h s"
    using rob.never_overflows [of "(h0, mk_Rob p)" "(h, s)" c] assms(2) mk_Rob_good [OF assms(1), of h0]
    by (simp add: rob_occ_def rob_cap_def rob_inv_def)
  from rob_Finish_one_ok [OF this assms(3)] show ?thesis by (auto simp: rob_Finish_def)
qed

theorem Rob_finish_exact_witness:
  "\<exists>h' s' s''. credit_run rob_step ((rob_example_heap, rob_example), 8) ((h', s'), 6) \<and> rob_Finish h' s' [1] = Inr s''
     \<and> rob_finish (lq_list (rob_queue s'') ! 1)"
proof -
  obtain h' s' where r: "credit_run rob_step ((rob_example_heap, rob_example), 8) ((h', s'), 6)" "rob_insts s' = [0, 1]"
    using rob_example_run by blast
  then have l: "length (lq_list (rob_queue s')) = 2" unfolding rob_insts_def by (metis One_nat_def Suc_1 length_Cons length_map list.size(3))
  from Rob_finish_exact [of "\<lparr>robp_issue_width = 4, robp_queue_depth = 8, robp_retire_heartbeat = 10000,
     robp_num_insts_to_retire = 0\<rparr>" rob_example_heap h' s' 6 1] r obtain s'' where
    "rob_Finish h' s' [1] = Inr s''" "lq_list (rob_queue s'')
      = (lq_list (rob_queue s'))[1 := (lq_list (rob_queue s') ! 1)\<lparr>rob_finish := True\<rparr>]"
    by (auto simp: rob_example_def)
  with r l show ?thesis by (intro exI [of _ h'] exI [of _ s'] exI [of _ s'']) (simp add: nth_list_update)
qed

text \<open>One run on a finished, mispredicted head: the instruction is sent, and stays.\<close>

lemma rob_Commit_mispredicted:
  assumes w: "rob_wf s" and i: "rob_insts s = p # rest" and fin: "rob_finish (hd (lq_list (rob_queue s)))"
    and m: "getIsMissPrediction (h p)" and iw: "rob_issue_width s \<noteq> 0" and nr: "num_insts_to_retire s = 0"
  shows "\<exists>s' effs. rob_Commit h s = Inr (clear_all [p] h, s', effs) \<and> Rob_cmt_inst_out [p] \<in> set effs
    \<and> rob_flush_out 1 \<in> set effs \<and> commit_event 1 \<in> set effs \<and> rob_preceding_credit_out 1 \<in> set effs
    \<and> rob_wf s' \<and> rob_insts s' = p # rest \<and> rob_finish (hd (lq_list (rob_queue s')))
    \<and> rob_issue_width s' = rob_issue_width s \<and> num_insts_to_retire s' = 0"
proof -
  obtain e L where L: "lq_list (rob_queue s) = e # L" "the (rob_inst_ptr e) = p"
    using i by (auto simp: rob_insts_def)
  have u: "usage (rob_queue s) \<noteq> 0" using L(1) lq_list_eq_Nil [of "rob_queue s"] by auto
  have "min (rob_issue_width s) (ucast (usage (rob_queue s))) \<noteq> 0"
    using iw u by (auto simp: min_def word_unat_eq_iff)
  then obtain n where n: "rob_width s = Suc n" unfolding rob_width_def by (metis not0_implies_Suc unat_eq_zero)
  have r: "rob_retired h (rob_width s) (lq_list (rob_queue s)) = ([p], 0, True)"
    using L fin m n by simp
  from rob_Commit_ok [OF w r] obtain s2 wakes beats where
    c: "rob_Commit h s = Inr (clear_all [p] h, s2, (if True then [rob_redirect_pc_inst_out (last [p])] else []) @ wakes
        @ (if [p] \<noteq> [] then [Rob_cmt_inst_out [p]] else [])
        @ (let bg = filter (\<lambda>p. getFuType (h p) = FT_BRU) [p] in if bg \<noteq> [] then [rob_bpu_inst_out bg] else [])
        @ (if [p] \<noteq> [] then [rob_preceding_credit_out (word_of_nat (length [p]))] else []) @ beats
        @ (if num_retired s2 \<ge> ucast (num_insts_to_retire s) \<and> num_insts_to_retire s \<noteq> 0 then [stopRunning]
           else (if usage (rob_queue s2) \<noteq> 0 then [commit_event 1] else []) @ (if True then [rob_flush_out 1] else [])))"
      "rob_wf s2" "map rob_inst_ptr (lq_list (rob_queue s2)) = drop 0 (map rob_inst_ptr (lq_list (rob_queue s)))"
      "map rob_finish (lq_list (rob_queue s2)) = drop 0 (map rob_finish (lq_list (rob_queue s)))"
      "rob_issue_width s2 = rob_issue_width s" "num_insts_to_retire s2 = num_insts_to_retire s" by blast
  have "map the (map rob_inst_ptr (lq_list (rob_queue s2))) = map the (map rob_inst_ptr (lq_list (rob_queue s)))"
    using c(3) by simp
  then have i2: "rob_insts s2 = p # rest" using i by (simp add: rob_insts_def comp_def)
  have f2: "rob_finish (hd (lq_list (rob_queue s2)))"
    using c(4) fin L(1) by (cases "lq_list (rob_queue s2)") auto
  have "usage (rob_queue s2) \<noteq> 0" using i2 lq_list_eq_Nil [of "rob_queue s2"] by (auto simp: rob_insts_def)
  with c i2 f2 nr show ?thesis by (intro exI [of _ s2]) simp
qed

text \<open>
  A mispredicted instruction is committed twice. When the oldest instruction is finished and
  mispredicted, \<open>Commit_\<close> sends it to the renaming stage, asks for a flush and schedules itself for the
  next cycle without removing the instruction. The flush request is answered by the flush manager one
  cycle later and reaches the units one cycle after that, so the next commit runs first and sends the
  same instruction again. Each of the two runs returns one credit although no place became free.
\<close>

theorem Rob_mispredicted_committed_twice:
  assumes "rob_wf s" "rob_insts s = p # rest" "rob_finish (hd (lq_list (rob_queue s)))"
    and "getIsMissPrediction (h p)" "rob_issue_width s \<noteq> 0" "num_insts_to_retire s = 0"
  shows "\<exists>h1 s1 effs1 h2 s2 effs2.
      rob_Commit h s = Inr (h1, s1, effs1) \<and> Rob_cmt_inst_out [p] \<in> set effs1
    \<and> rob_flush_out 1 \<in> set effs1 \<and> commit_event 1 \<in> set effs1
    \<and> rob_preceding_credit_out 1 \<in> set effs1 \<and> rob_insts s1 = p # rest
    \<and> rob_Commit h1 s1 = Inr (h2, s2, effs2) \<and> Rob_cmt_inst_out [p] \<in> set effs2
    \<and> rob_preceding_credit_out 1 \<in> set effs2 \<and> rob_insts s2 = p # rest"
proof -
  from rob_Commit_mispredicted [where h = h and s = s, OF assms] obtain s1 effs1 where
    a: "rob_Commit h s = Inr (clear_all [p] h, s1, effs1)" "Rob_cmt_inst_out [p] \<in> set effs1"
      "rob_flush_out 1 \<in> set effs1" "commit_event 1 \<in> set effs1" "rob_preceding_credit_out 1 \<in> set effs1"
      "rob_wf s1" "rob_insts s1 = p # rest"
      "rob_finish (hd (lq_list (rob_queue s1)))" "rob_issue_width s1 \<noteq> 0" "num_insts_to_retire s1 = 0"
    using assms(5) by auto
  have "getIsMissPrediction (clear_all [p] h p)" using assms(4) by (simp only: clear_all_keeps)
  from rob_Commit_mispredicted [where h = "clear_all [p] h" and s = s1, OF a(6,7,8) this a(9,10)] a show ?thesis by blast
qed

lemma rob_example_mispredicted:
  "\<exists>s. rob_wf s \<and> rob_insts s = [0, 1] \<and> rob_finish (hd (lq_list (rob_queue s)))
     \<and> rob_issue_width s = 4 \<and> num_insts_to_retire s = 0 \<and> stall_cycle_count s = 0"
proof -
  have "distinct (rob_insts rob_example @ [0, 1])" "length (rob_insts rob_example @ [0, 1]) \<le> unat (depth (rob_queue rob_example))"
    using rob_example_good by simp_all
  from AllocateRob_ok [OF rob_example_good(1) [of rob_example_heap] this] obtain h1 s1 where
    a: "rob_good h1 s1" "rob_insts s1 = [0, 1]" "s1 = rob_example\<lparr>rob_queue := rob_queue s1\<rparr>"
    using rob_example_good(2) by auto
  from rob_Finish_one_ok [OF a(1), of 0] a(2) obtain s2 where
    b: "rob_good h1 s2" "rob_insts s2 = [0, 1]" "s2 = s1\<lparr>rob_queue := rob_queue s2\<rparr>"
      "lq_list (rob_queue s2) = (lq_list (rob_queue s1))[0 := (lq_list (rob_queue s1) ! 0)\<lparr>rob_finish := True\<rparr>]"
    by auto
  have "lq_list (rob_queue s1) \<noteq> []" using a(2) by (auto simp: rob_insts_def)
  then have "rob_finish (hd (lq_list (rob_queue s2)))" using b(4) by (cases "lq_list (rob_queue s1)") auto
  moreover have "rob_issue_width s2 = 4" "num_insts_to_retire s2 = 0" "stall_cycle_count s2 = 0"
    by (subst b(3), subst a(3), simp add: rob_example_good(4-6))+
  ultimately show ?thesis using b(1,2) by (auto simp: rob_good_def)
qed

theorem Rob_commit_in_order_witness:
  "\<exists>s h' s' effs. rob_insts s = [0, 1] \<and> rob_Commit rob_example_heap s = Inr (h', s', effs) \<and> Rob_cmt_inst_out [0] \<in> set effs
    \<and> rob_redirect_pc_inst_out 0 \<in> set effs \<and> rob_flush_out 1 \<in> set effs \<and> rob_insts s' = [0, 1]"
proof -
  obtain s where s: "rob_wf s" "rob_insts s = [0, 1]" "rob_finish (hd (lq_list (rob_queue s)))" "rob_issue_width s = 4"
    "num_insts_to_retire s = 0" "stall_cycle_count s = 0" using rob_example_mispredicted by blast
  have L: "lq_list (rob_queue s) \<noteq> []" using s(2) by (auto simp: rob_insts_def)
  have "stall_cycle_count s < 999" using s(6) by simp
  from Rob_commit_in_order [OF s(1) this, of rob_example_heap] obtain ps f h' s' effs where
    c: "rob_Commit rob_example_heap s = Inr (h', s', effs)" "\<forall>g. Rob_cmt_inst_out g \<in> set effs \<longleftrightarrow> ps \<noteq> [] \<and> g = ps"
      "ps = take (length ps) (rob_insts s)" "f \<longleftrightarrow> ps \<noteq> [] \<and> getIsMissPrediction (rob_example_heap (last ps))"
      "\<forall>q \<in> set (butlast ps). \<not> getIsMissPrediction (rob_example_heap q)"
      "\<not> f \<and> length ps < unat (rob_issue_width s) \<and> length ps < length (rob_insts s)
         \<longrightarrow> \<not> rob_finish (lq_list (rob_queue s) ! length ps)"
      "rob_insts s' = drop (length ps - of_bool f) (rob_insts s)"
      "\<forall>q. rob_redirect_pc_inst_out q \<in> set effs \<longleftrightarrow> f \<and> q = last ps"
      "rob_flush_out 1 \<in> set effs
         \<longleftrightarrow> f \<and> \<not> (num_insts_to_retire s \<noteq> 0 \<and> ucast (num_insts_to_retire s) \<le> num_retired s')" by blast
  have "ps \<noteq> []" using c(4,6) s(2-4) L by (auto simp: hd_conv_nth)
  moreover have "length ps \<noteq> 2"
  proof
    assume "length ps = 2"
    then have "ps = [0, 1]" using c(3) s(2) by simp
    with c(5) show False by (simp add: rob_example_heap_def)
  qed
  moreover have "length ps \<le> 2" using arg_cong [OF c(3), of length] s(2) by simp
  ultimately have "length ps = 1" by (cases "length ps") auto
  with c(3) s(2) have "ps = [0]" by simp
  moreover from this have f using c(4) by (simp add: rob_example_heap_def)
  ultimately show ?thesis using c(1,2,7,8,9) s(2,5) by (intro exI [of _ s] exI [of _ h'] exI [of _ s'] exI [of _ effs]) simp
qed

theorem Rob_mispredicted_committed_twice_witness:
  "\<exists>s h1 s1 effs1 h2 s2 effs2. rob_Commit rob_example_heap s = Inr (h1, s1, effs1)
     \<and> Rob_cmt_inst_out [0] \<in> set effs1 \<and> rob_Commit h1 s1 = Inr (h2, s2, effs2)
     \<and> Rob_cmt_inst_out [0] \<in> set effs2"
proof -
  obtain s where s: "rob_wf s" "rob_insts s = [0, 1]" "rob_finish (hd (lq_list (rob_queue s)))"
    "rob_issue_width s = 4" "num_insts_to_retire s = 0" using rob_example_mispredicted by blast
  have "getIsMissPrediction (rob_example_heap 0)" "rob_issue_width s \<noteq> 0"
    using s(4) by (simp_all add: rob_example_heap_def)
  from Rob_mispredicted_committed_twice [where h = rob_example_heap and p = 0 and rest = "[1]", OF s(1,2,3) this s(5)] show ?thesis by blast
qed

end
