(* ===== verification/Free_List.thy ===== *)
theory Free_List
  imports Inst_Types
begin

text \<open>
  \<open>core/abstract_backend/Freelist\<close>: the pool of physical registers, kept twice: \<open>free_list_\<close> as
  the speculative front of the machine sees it and \<open>free_list_backup_\<close> as the committed
  instructions left it. Two counting vectors shadow the lists; \<open>Push\<close> asserts that no token is
  free twice. The locale \<^verbatim>\<open>speculative_pool\<close> is the contract the renaming stage relies on.
\<close>

section \<open>The interface of a pool with a committed shadow\<close>

locale speculative_pool =
  fixes front :: "'p \<Rightarrow> 't result"
    and pop :: "'p \<Rightarrow> 'p result"
    and backup_pop :: "'p \<Rightarrow> 'p result"
    and push :: "'p \<Rightarrow> 't \<Rightarrow> 'p result"
    and roll_back :: "'p \<Rightarrow> 'p"
    and free :: "'p \<Rightarrow> 't list"
    and committed :: "'p \<Rightarrow> 't list"
    and valid :: "'p \<Rightarrow> 't \<Rightarrow> bool"
    and wf :: "'p \<Rightarrow> bool"
  assumes front_ok: "wf p \<Longrightarrow> free p \<noteq> [] \<Longrightarrow> front p = Inr (hd (free p))"
    and pop_ok: "wf p \<Longrightarrow> free p \<noteq> [] \<Longrightarrow>
      \<exists>p'. pop p = Inr p' \<and> wf p' \<and> free p' = tl (free p) \<and> committed p' = committed p
        \<and> valid p' = valid p"
    and backup_pop_ok: "wf p \<Longrightarrow> committed p \<noteq> [] \<Longrightarrow>
      \<exists>p'. backup_pop p = Inr p' \<and> wf p' \<and> free p' = free p \<and> committed p' = tl (committed p)
        \<and> valid p' = valid p"
    and push_ok: "wf p \<Longrightarrow> valid p t \<Longrightarrow> t \<notin> set (free p) \<Longrightarrow> t \<notin> set (committed p) \<Longrightarrow>
      \<exists>p'. push p t = Inr p' \<and> wf p' \<and> free p' = free p @ [t] \<and> committed p' = committed p @ [t]
        \<and> valid p' = valid p"
    and push_dup: "wf p \<Longrightarrow> valid p t \<Longrightarrow> t \<in> set (free p) \<or> t \<in> set (committed p) \<Longrightarrow>
      \<exists>e. push p t = Inl e"
    and roll_back_ok: "wf p \<Longrightarrow> wf (roll_back p) \<and> free (roll_back p) = committed p
      \<and> committed (roll_back p) = committed p \<and> valid (roll_back p) = valid p"
begin

text \<open>
  \<open>owned p infl\<close>: \<open>infl\<close> are the tokens handed out and not yet committed, oldest first. The
  committed shadow is always the in-flight tokens followed by the free ones.
\<close>

definition owned :: "'p \<Rightarrow> 't list \<Rightarrow> bool" where
  "owned p infl \<longleftrightarrow> wf p \<and> committed p = infl @ free p"

lemma owned_alloc:
  assumes "owned p infl" "free p \<noteq> []"
  shows "\<exists>p'. front p = Inr (hd (free p)) \<and> pop p = Inr p' \<and> owned p' (infl @ [hd (free p)])
    \<and> committed p' = committed p \<and> valid p' = valid p"
  using assms pop_ok [of p] front_ok [of p] by (auto simp: owned_def)

lemma owned_commit:
  assumes "owned p (t # infl)" "distinct (committed p)"
  shows "\<exists>p'. backup_pop p = Inr p' \<and> owned p' infl \<and> committed p' = infl @ free p
    \<and> free p' = free p \<and> valid p' = valid p"
  using assms backup_pop_ok [of p] by (auto simp: owned_def)

lemma owned_release:
  assumes "owned p infl" "valid p t" "t \<notin> set (committed p)"
  shows "\<exists>p'. push p t = Inr p' \<and> owned p' infl \<and> committed p' = committed p @ [t]
    \<and> valid p' = valid p"
  using assms push_ok [of p t] by (auto simp: owned_def)

lemma owned_roll_back: "owned p infl \<Longrightarrow> owned (roll_back p) [] \<and> committed (roll_back p) = committed p
    \<and> valid (roll_back p) = valid p"
  using roll_back_ok [of p] by (auto simp: owned_def)

end

section \<open>State and operations\<close>

record Freelist =
  free_list :: "u64 list"
  free_list_backup :: "u64 list"
  free_list_idx_vector :: "u64 list"
  free_list_idx_vector_backup :: "u64 list"

definition vec_incr :: "u64 list \<Rightarrow> u64 \<Rightarrow> u64 list result" where
  "vec_incr v t = bindE (vec_get v (unat t)) (\<lambda>n. vec_set v (unat t) (n + 1))"

definition vec_decr :: "u64 list \<Rightarrow> u64 \<Rightarrow> u64 list result" where
  "vec_decr v t = bindE (vec_get v (unat t)) (\<lambda>n. vec_set v (unat t) (n - 1))"

text \<open>The constructor's loop runs \<open>i\<close> from 1 to \<open>depth - 1\<close>, the subtraction done in 32 bits.\<close>

definition mk_Freelist :: "u32 \<Rightarrow> Freelist result" where
  "mk_Freelist depth =
     foldE (\<lambda>f i.
        bindE (vec_incr (free_list_idx_vector f) i)
        (\<lambda>v. bindE (vec_incr (free_list_idx_vector_backup f) i)
        (\<lambda>vb. Inr (f\<lparr>free_list := free_list f @ [i], free_list_backup := free_list_backup f @ [i],
                    free_list_idx_vector := v, free_list_idx_vector_backup := vb\<rparr>))))
       \<lparr>free_list = [], free_list_backup = [],
        free_list_idx_vector = replicate (unat depth) 0,
        free_list_idx_vector_backup = replicate (unat depth) 0\<rparr>
       (map word_of_nat [1..<unat (depth - 1) + 1])"

definition fl_IsEmpty :: "Freelist \<Rightarrow> bool" where
  "fl_IsEmpty f \<longleftrightarrow> free_list f = []"

definition fl_Push :: "Freelist \<Rightarrow> u64 \<Rightarrow> Freelist result" where
  "fl_Push f token =
     bindE (vec_incr (free_list_idx_vector f) token)
     (\<lambda>v. bindE (vec_incr (free_list_idx_vector_backup f) token)
     (\<lambda>vb. bindE (vec_get v (unat token))
     (\<lambda>n. bindE (assertE (n \<le> 1) (SpartaAssert ''token''))
     (\<lambda>_. bindE (vec_get vb (unat token))
     (\<lambda>nb. bindE (assertE (nb \<le> 1) (SpartaAssert ''token''))
     (\<lambda>_. Inr \<lparr>free_list = free_list f @ [token], free_list_backup = free_list_backup f @ [token],
               free_list_idx_vector = v, free_list_idx_vector_backup = vb\<rparr>))))))"

text \<open>\<open>Pop\<close> asserts that an unsigned counter is not negative, which always holds.\<close>

definition fl_Pop :: "Freelist \<Rightarrow> Freelist result" where
  "fl_Pop f =
     bindE (deque_front (free_list f))
     (\<lambda>t. bindE (vec_decr (free_list_idx_vector f) t)
     (\<lambda>v. bindE (vec_get v (unat t))
     (\<lambda>n. bindE (assertE (n \<ge> 0) (SpartaAssert ''token''))
     (\<lambda>_. bindE (deque_pop_front (free_list f))
     (\<lambda>l. Inr (f\<lparr>free_list := l, free_list_idx_vector := v\<rparr>))))))"

definition fl_BackupPop :: "Freelist \<Rightarrow> Freelist result" where
  "fl_BackupPop f =
     bindE (deque_front (free_list_backup f))
     (\<lambda>t. bindE (vec_decr (free_list_idx_vector_backup f) t)
     (\<lambda>v. bindE (vec_get v (unat t))
     (\<lambda>n. bindE (assertE (n \<ge> 0) (SpartaAssert ''token''))
     (\<lambda>_. bindE (deque_pop_front (free_list_backup f))
     (\<lambda>l. Inr (f\<lparr>free_list_backup := l, free_list_idx_vector_backup := v\<rparr>))))))"

definition fl_Front :: "Freelist \<Rightarrow> u64 result" where
  "fl_Front f = deque_front (free_list f)"

definition fl_RollBack :: "Freelist \<Rightarrow> Freelist" where
  "fl_RollBack f = f\<lparr>free_list := free_list_backup f,
                     free_list_idx_vector := free_list_idx_vector_backup f\<rparr>"

section \<open>Well-formedness: the counters count\<close>

text \<open>\<open>counts v l\<close>: \<open>v\<close> has a cell for every token of \<open>l\<close> and holds its number of occurrences.\<close>

definition counts :: "u64 list \<Rightarrow> u64 list \<Rightarrow> bool" where
  "counts v l \<longleftrightarrow> distinct l \<and> (\<forall>t \<in> set l. unat t < length v)
     \<and> (\<forall>t. unat t < length v \<longrightarrow> v ! unat t = of_bool (t \<in> set l))"

definition fl_wf :: "Freelist \<Rightarrow> bool" where
  "fl_wf f \<longleftrightarrow> counts (free_list_idx_vector f) (free_list f)
     \<and> counts (free_list_idx_vector_backup f) (free_list_backup f)
     \<and> length (free_list_idx_vector_backup f) = length (free_list_idx_vector f)"

definition fl_valid :: "Freelist \<Rightarrow> u64 \<Rightarrow> bool" where
  "fl_valid f t \<longleftrightarrow> unat t < length (free_list_idx_vector f)"

lemma vec_incr_in: "unat t < length v \<Longrightarrow> vec_incr v t = Inr (v[unat t := v ! unat t + 1])"
  by (simp add: vec_incr_def)

lemma vec_decr_in: "unat t < length v \<Longrightarrow> vec_decr v t = Inr (v[unat t := v ! unat t - 1])"
  by (simp add: vec_decr_def)

lemma counts_snoc:
  assumes "counts v l" "unat t < length v" "t \<notin> set l"
  shows "counts (v[unat t := v ! unat t + 1]) (l @ [t])"
  using assms by (auto simp: counts_def nth_list_update unat_inj_iff)

lemma counts_tl:
  assumes "counts v (t # l)"
  shows "counts (v[unat t := v ! unat t - 1]) l"
  using assms by (auto simp: counts_def nth_list_update unat_inj_iff)

lemma fl_Push_new:
  assumes "fl_wf f" "fl_valid f t" "t \<notin> set (free_list f)" "t \<notin> set (free_list_backup f)"
  shows "fl_Push f t = Inr \<lparr>free_list = free_list f @ [t], free_list_backup = free_list_backup f @ [t],
      free_list_idx_vector = (free_list_idx_vector f)[unat t := 1],
      free_list_idx_vector_backup = (free_list_idx_vector_backup f)[unat t := 1]\<rparr>"
  using assms
  by (auto simp: fl_Push_def fl_wf_def fl_valid_def vec_incr_in counts_def)

lemma fl_Push_dup:
  assumes "fl_wf f" "fl_valid f t" "t \<in> set (free_list f) \<or> t \<in> set (free_list_backup f)"
  shows "fl_Push f t = Inl (SpartaAssert ''token'')"
proof -
  have "\<not> (2 :: u64) \<le> 1" by (simp add: word_le_nat_alt)
  then show ?thesis
    using assms by (auto simp: fl_Push_def fl_wf_def fl_valid_def vec_incr_in counts_def)
qed

interpretation fl: speculative_pool fl_Front fl_Pop fl_BackupPop fl_Push fl_RollBack
    free_list free_list_backup fl_valid fl_wf
proof
  fix p t
  assume wf: "fl_wf p"
  show "fl_Front p = Inr (hd (free_list p))" if "free_list p \<noteq> []"
    using that by (cases "free_list p") (simp_all add: fl_Front_def)
  show "\<exists>p'. fl_Pop p = Inr p' \<and> fl_wf p' \<and> free_list p' = tl (free_list p)
      \<and> free_list_backup p' = free_list_backup p \<and> fl_valid p' = fl_valid p" if ne: "free_list p \<noteq> []"
  proof -
    obtain x xs where l: "free_list p = x # xs" using ne by (cases "free_list p") auto
    then have "unat x < length (free_list_idx_vector p)" using wf by (simp add: fl_wf_def counts_def)
    with l wf show ?thesis
      by (auto simp: fl_Pop_def vec_decr_in fl_wf_def counts_tl fl_valid_def)
  qed
  show "\<exists>p'. fl_BackupPop p = Inr p' \<and> fl_wf p' \<and> free_list p' = free_list p
      \<and> free_list_backup p' = tl (free_list_backup p) \<and> fl_valid p' = fl_valid p"
    if ne: "free_list_backup p \<noteq> []"
  proof -
    obtain x xs where l: "free_list_backup p = x # xs" using ne by (cases "free_list_backup p") auto
    then have "unat x < length (free_list_idx_vector_backup p)"
      using wf by (simp add: fl_wf_def counts_def)
    with l wf show ?thesis
      by (auto simp: fl_BackupPop_def vec_decr_in fl_wf_def counts_tl fl_valid_def)
  qed
  show "\<exists>p'. fl_Push p t = Inr p' \<and> fl_wf p' \<and> free_list p' = free_list p @ [t]
      \<and> free_list_backup p' = free_list_backup p @ [t] \<and> fl_valid p' = fl_valid p"
    if "fl_valid p t" "t \<notin> set (free_list p)" "t \<notin> set (free_list_backup p)"
  proof -
    have "counts ((free_list_idx_vector p)[unat t := 1]) (free_list p @ [t])"
      "counts ((free_list_idx_vector_backup p)[unat t := 1]) (free_list_backup p @ [t])"
      using counts_snoc [of "free_list_idx_vector p" "free_list p" t]
        counts_snoc [of "free_list_idx_vector_backup p" "free_list_backup p" t] wf that
      by (auto simp: fl_wf_def fl_valid_def counts_def)
    with wf that show ?thesis by (auto simp: fl_Push_new fl_wf_def fl_valid_def)
  qed
  show "\<exists>e. fl_Push p t = Inl e"
    if "fl_valid p t" "t \<in> set (free_list p) \<or> t \<in> set (free_list_backup p)"
    using fl_Push_dup [OF wf that] by blast
  show "fl_wf (fl_RollBack p) \<and> free_list (fl_RollBack p) = free_list_backup p
      \<and> free_list_backup (fl_RollBack p) = free_list_backup p \<and> fl_valid (fl_RollBack p) = fl_valid p"
    using wf by (auto simp: fl_RollBack_def fl_wf_def fl_valid_def)
qed

section \<open>The constructor\<close>

definition fl_tokens :: "nat \<Rightarrow> u64 list" where
  "fl_tokens n = map word_of_nat [1..<n]"

lemma mk_Freelist_loop:
  assumes "1 \<le> k" "k \<le> n" "n < 2 ^ 64"
  shows "\<exists>f. foldE (\<lambda>f i.
        bindE (vec_incr (free_list_idx_vector f) i)
        (\<lambda>v. bindE (vec_incr (free_list_idx_vector_backup f) i)
        (\<lambda>vb. Inr (f\<lparr>free_list := free_list f @ [i], free_list_backup := free_list_backup f @ [i],
                    free_list_idx_vector := v, free_list_idx_vector_backup := vb\<rparr>))))
       \<lparr>free_list = [], free_list_backup = [],
        free_list_idx_vector = replicate n 0, free_list_idx_vector_backup = replicate n 0\<rparr>
       (map word_of_nat [1..<k]) = Inr f
     \<and> fl_wf f \<and> free_list f = fl_tokens k \<and> free_list_backup f = fl_tokens k
     \<and> length (free_list_idx_vector f) = n"
  using assms(1,2)
proof (induction k rule: dec_induct)
  case base
  then show ?case by (simp add: fl_wf_def counts_def fl_tokens_def)
next
  case (step k)
  then obtain f where f: "foldE (\<lambda>f i.
        bindE (vec_incr (free_list_idx_vector f) i)
        (\<lambda>v. bindE (vec_incr (free_list_idx_vector_backup f) i)
        (\<lambda>vb. Inr (f\<lparr>free_list := free_list f @ [i], free_list_backup := free_list_backup f @ [i],
                    free_list_idx_vector := v, free_list_idx_vector_backup := vb\<rparr>))))
       \<lparr>free_list = [], free_list_backup = [],
        free_list_idx_vector = replicate n 0, free_list_idx_vector_backup = replicate n 0\<rparr>
       (map word_of_nat [1..<k]) = Inr f"
    and wf: "fl_wf f" "free_list f = fl_tokens k" "free_list_backup f = fl_tokens k"
      "length (free_list_idx_vector f) = n"
    by auto
  have k: "unat (word_of_nat k :: u64) = k" using step.prems assms(3) by (simp add: unat_of_nat)
  have "(word_of_nat k :: u64) \<notin> set (fl_tokens k)"
  proof
    assume "(word_of_nat k :: u64) \<in> set (fl_tokens k)"
    then obtain i where i: "i < k" "(word_of_nat k :: u64) = word_of_nat i"
      by (auto simp: fl_tokens_def)
    then have "unat (word_of_nat i :: u64) = i"
      using step.prems assms(3) by (simp add: unat_of_nat)
    with i k show False by simp
  qed
  with wf k step.prems have c:
    "counts ((free_list_idx_vector f)[k := free_list_idx_vector f ! k + 1]) (fl_tokens k @ [word_of_nat k])"
    "counts ((free_list_idx_vector_backup f)[k := free_list_idx_vector_backup f ! k + 1])
       (fl_tokens k @ [word_of_nat k])"
    using counts_snoc [of "free_list_idx_vector f" "fl_tokens k" "word_of_nat k"]
      counts_snoc [of "free_list_idx_vector_backup f" "fl_tokens k" "word_of_nat k"]
    by (simp_all add: fl_wf_def)
  have "length (free_list_idx_vector_backup f) = n" using wf by (simp add: fl_wf_def)
  with f wf k c step show ?case
    by (simp add: foldE_snoc vec_incr_in fl_wf_def fl_tokens_def)
qed

lemma mk_Freelist_ok:
  assumes "0 < d"
  shows "\<exists>f. mk_Freelist d = Inr f \<and> fl_wf f \<and> free_list f = fl_tokens (unat d)
    \<and> free_list_backup f = fl_tokens (unat d) \<and> (\<forall>t. fl_valid f t \<longleftrightarrow> unat t < unat d)"
proof -
  have d: "1 \<le> unat d" using assms by (simp add: Suc_le_eq word_less_nat_alt)
  have "unat (d - 1) + 1 = unat d" using d by (metis Suc_eq_plus1 Suc_pred' assms
        unat_minus_one_pos unat_gt_0 word_gt_0)
  moreover have "unat d < 2 ^ 64" by (rule less_le_trans [OF unsigned_less]) simp
  ultimately show ?thesis
    using mk_Freelist_loop [of "unat d" "unat d"] d by (auto simp: mk_Freelist_def fl_valid_def)
qed

lemma fl_tokens_set: "n \<le> 2 ^ 32 \<Longrightarrow> set (fl_tokens n) = {t. t \<noteq> 0 \<and> unat t < n}"
proof -
  assume n: "n \<le> 2 ^ 32"
  have "t \<in> word_of_nat ` {1..<n}" if "t \<noteq> 0" "unat t < n" for t :: u64
    using that by (intro image_eqI [of _ _ "unat t"]) (auto simp: Suc_le_eq unat_gt_0)
  moreover have "unat (word_of_nat i :: u64) = i" if "i < n" for i
    using that n by (simp add: unat_of_nat)
  ultimately show ?thesis by (auto simp: fl_tokens_def word_unat_eq_iff)
qed

lemma fl_tokens_distinct: "n \<le> 2 ^ 32 \<Longrightarrow> distinct (fl_tokens n)"
  by (auto simp: fl_tokens_def distinct_map inj_on_def word_of_nat_eq_iff take_bit_nat_eq_self)

section \<open>Properties\<close>

text \<open>
  On a well-formed pool \<open>Push\<close> of a token in range throws exactly when the token is already
  free, in the speculative list or in the committed one; otherwise it appends the token to both and
  the counters stay exact. The two assertions of \<open>Push\<close> therefore catch every double release.
\<close>

theorem Freelist_Push_detects_double_free:
  assumes "fl_wf f" "fl_valid f t"
  shows "case fl_Push f t of
      Inl e \<Rightarrow> e = SpartaAssert ''token'' \<and> (t \<in> set (free_list f) \<or> t \<in> set (free_list_backup f))
    | Inr f' \<Rightarrow> t \<notin> set (free_list f) \<and> t \<notin> set (free_list_backup f) \<and> fl_wf f'
        \<and> free_list f' = free_list f @ [t] \<and> free_list_backup f' = free_list_backup f @ [t]"
proof (cases "t \<in> set (free_list f) \<or> t \<in> set (free_list_backup f)")
  case True
  with assms show ?thesis by (simp add: fl_Push_dup)
next
  case False
  with assms fl.push_ok [of f t] show ?thesis by auto
qed

theorem Freelist_Push_detects_double_free_witness:
  "\<exists>f. mk_Freelist 4 = Inr f \<and> fl_Push f 2 = Inl (SpartaAssert ''token'')"
proof -
  obtain f where f: "mk_Freelist 4 = Inr f" "fl_wf f" "free_list f = fl_tokens 4"
      "\<forall>t. fl_valid f t \<longleftrightarrow> unat t < 4"
    using mk_Freelist_ok [of 4] by auto
  then have "2 \<in> set (free_list f)" by (simp add: fl_tokens_set)
  with f Freelist_Push_detects_double_free [of f 2] show ?thesis
    by (auto split: sum.splits)
qed

text \<open>
  \<open>Pop\<close> never throws on a non-empty list whose head is in range, whatever its counter says: the
  assertion compares an unsigned counter with zero. A counter that is already zero wraps to the
  largest 64-bit value unnoticed.
\<close>

theorem Freelist_Pop_assertion_vacuous:
  assumes "free_list f = t # ts" "unat t < length (free_list_idx_vector f)"
    and "free_list_idx_vector f ! unat t = 0"
  shows "\<exists>f'. fl_Pop f = Inr f' \<and> free_list f' = ts \<and> free_list_idx_vector f' ! unat t = - 1"
  using assms by (simp add: fl_Pop_def vec_decr_in)

theorem Freelist_Pop_assertion_vacuous_witness:
  "\<exists>f'. fl_Pop \<lparr>free_list = [1], free_list_backup = [], free_list_idx_vector = [0, 0],
       free_list_idx_vector_backup = [0, 0]\<rparr> = Inr f' \<and> free_list_idx_vector f' ! 1 = - 1"
  using Freelist_Pop_assertion_vacuous [of "\<lparr>free_list = [1], free_list_backup = [],
      free_list_idx_vector = [0, 0], free_list_idx_vector_backup = [0, 0]\<rparr>" 1 "[]"]
  by auto

end
