(* ===== verification/Renaming_Table.thy ===== *)
theory Renaming_Table
  imports Inst_Types
begin

text \<open>
  \<open>core/abstract_backend/RenamingTable\<close>: the map from architectural to physical registers with its
  committed backup, the interface a client of such a table relies on, and the range of its checks.
\<close>

section \<open>The interface of a table with a committed backup\<close>

text \<open>
  \<open>spec\<close> and \<open>base\<close> are the abstract contents, \<open>ok\<close> the indices both accept.
\<close>

locale shadowed_table =
  fixes lookup :: "'t \<Rightarrow> 'i \<Rightarrow> 'v result"
    and update :: "'t \<Rightarrow> 'i \<Rightarrow> 'v \<Rightarrow> 't result"
    and backup_update :: "'t \<Rightarrow> 'i \<Rightarrow> 'v \<Rightarrow> 't result"
    and restore :: "'t \<Rightarrow> 't"
    and spec :: "'t \<Rightarrow> 'i \<Rightarrow> 'v"
    and base :: "'t \<Rightarrow> 'i \<Rightarrow> 'v"
    and ok :: "'t \<Rightarrow> 'i \<Rightarrow> bool"
    and wf :: "'t \<Rightarrow> bool"
  assumes lookup_ok: "wf t \<Longrightarrow> ok t i \<Longrightarrow> lookup t i = Inr (spec t i)"
    and update_ok: "wf t \<Longrightarrow> ok t i \<Longrightarrow> \<exists>t'. update t i v = Inr t' \<and> wf t' \<and> ok t' = ok t
      \<and> (\<forall>j. ok t j \<longrightarrow> spec t' j = ((spec t)(i := v)) j) \<and> base t' = base t"
    and backup_update_ok: "wf t \<Longrightarrow> ok t i \<Longrightarrow> \<exists>t'. backup_update t i v = Inr t' \<and> wf t' \<and> ok t' = ok t
      \<and> (\<forall>j. ok t j \<longrightarrow> base t' j = ((base t)(i := v)) j) \<and> spec t' = spec t"
    and restore_ok: "wf t \<Longrightarrow> wf (restore t) \<and> ok (restore t) = ok t \<and> base (restore t) = base t
      \<and> (\<forall>j. ok t j \<longrightarrow> spec (restore t) j = base t j)"
begin

text \<open>Writes in program order; the same writes replayed on the backup give the same contents.\<close>

definition replay :: "('i \<times> 'v) list \<Rightarrow> ('i \<Rightarrow> 'v) \<Rightarrow> 'i \<Rightarrow> 'v" where
  "replay ws m = fold (\<lambda>(i, v) m. m(i := v)) ws m"

lemma replay_snoc: "replay (ws @ [(i, v)]) m = (replay ws m)(i := v)"
  by (simp add: replay_def)

lemma replay_Cons: "replay ((i, v) # ws) m = replay ws (m(i := v))"
  by (simp add: replay_def)

lemma replay_Nil: "replay [] m = m"
  by (simp add: replay_def)

lemma replay_cong:
  "(\<And>j. P j \<Longrightarrow> m j = m' j) \<Longrightarrow> P j \<Longrightarrow> replay ws m j = replay ws m' j"
proof (induction ws arbitrary: m m')
  case (Cons w ws)
  obtain i v where w: "w = (i, v)" by (cases w)
  have "replay ws (m(i := v)) j = replay ws (m'(i := v)) j"
    by (rule Cons.IH) (use Cons.prems in auto)
  then show ?case by (simp add: w replay_Cons)
qed (simp add: replay_def)

text \<open>\<open>ahead t ws\<close>: the table is its backup with the uncommitted writes \<open>ws\<close> applied.\<close>

definition ahead :: "'t \<Rightarrow> ('i \<times> 'v) list \<Rightarrow> bool" where
  "ahead t ws \<longleftrightarrow> wf t \<and> (\<forall>(i, v) \<in> set ws. ok t i) \<and> (\<forall>j. ok t j \<longrightarrow> spec t j = replay ws (base t) j)"

lemma ahead_update:
  assumes "ahead t ws" "ok t i"
  shows "\<exists>t'. update t i v = Inr t' \<and> ahead t' (ws @ [(i, v)]) \<and> ok t' = ok t \<and> base t' = base t
    \<and> (\<forall>j. ok t j \<longrightarrow> spec t' j = ((spec t)(i := v)) j)"
  using assms update_ok [of t i v] by (fastforce simp: ahead_def replay_snoc)

lemma ahead_commit:
  assumes "ahead t ((i, v) # ws)"
  shows "\<exists>t'. backup_update t i v = Inr t' \<and> ahead t' ws \<and> ok t' = ok t \<and> spec t' = spec t
    \<and> (\<forall>j. ok t j \<longrightarrow> base t' j = ((base t)(i := v)) j)"
proof -
  from assms have t: "wf t" "ok t i" "\<And>j. ok t j \<Longrightarrow> spec t j = replay ws ((base t)(i := v)) j"
    by (auto simp: ahead_def replay_Cons)
  from backup_update_ok [OF t(1,2), of v] obtain t' where
    t': "backup_update t i v = Inr t'" "wf t'" "ok t' = ok t" "spec t' = spec t"
      "\<And>j. ok t j \<Longrightarrow> base t' j = ((base t)(i := v)) j" by auto
  have "replay ws (base t') j = replay ws ((base t)(i := v)) j" if "ok t j" for j
    using t'(5) that by (rule replay_cong)
  with t t' assms show ?thesis by (auto simp: ahead_def)
qed

lemma ahead_restore:
  "ahead t ws \<Longrightarrow> ahead (restore t) [] \<and> ok (restore t) = ok t \<and> base (restore t) = base t
    \<and> (\<forall>j. ok t j \<longrightarrow> spec (restore t) j = base t j)"
  using restore_ok [of t] by (auto simp: ahead_def replay_Nil)

end

section \<open>State and operations\<close>

record RenamingTable =
  isa_reg_num :: IsaRegId_t
  renaming_table :: "PhyRegId_t list"
  renaming_table_backup :: "PhyRegId_t list"

definition mk_RenamingTable :: "IsaRegId_t \<Rightarrow> PhyRegId_t \<Rightarrow> RenamingTable" where
  "mk_RenamingTable n init_value =
     \<lparr>isa_reg_num = n, renaming_table = replicate (unat n) init_value,
      renaming_table_backup = replicate (unat n) init_value\<rparr>"

text \<open>
  \<open>operator[]\<close> returns a reference; \<open>rt_get\<close> reads through it (both overloads do the same) and
  \<open>rt_set\<close> assigns through it. \<open>rt_GetBackup_set\<close> assigns through the reference of \<open>GetBackup\<close>.
\<close>

definition rt_get :: "RenamingTable \<Rightarrow> IsaRegId_t \<Rightarrow> PhyRegId_t result" where
  "rt_get t i =
     bindE (assertE (i \<le> isa_reg_num t) (SpartaAssert ''accessing renaming table is out of range''))
     (\<lambda>_. vec_get (renaming_table t) (unat i))"

definition rt_set :: "RenamingTable \<Rightarrow> IsaRegId_t \<Rightarrow> PhyRegId_t \<Rightarrow> RenamingTable result" where
  "rt_set t i v =
     bindE (assertE (i \<le> isa_reg_num t) (SpartaAssert ''accessing renaming table is out of range''))
     (\<lambda>_. bindE (vec_set (renaming_table t) (unat i) v)
     (\<lambda>r. Inr (t\<lparr>renaming_table := r\<rparr>)))"

definition rt_RollBack :: "RenamingTable \<Rightarrow> RenamingTable" where
  "rt_RollBack t = t\<lparr>renaming_table :=
     map (\<lambda>i. renaming_table_backup t ! i) [0..<length (renaming_table t)]\<rparr>"

definition rt_GetBackup_set :: "RenamingTable \<Rightarrow> IsaRegId_t \<Rightarrow> PhyRegId_t \<Rightarrow> RenamingTable result" where
  "rt_GetBackup_set t i v =
     bindE (assertE (i \<le> isa_reg_num t)
       (SpartaAssert ''accessing backup renaming table is out of range''))
     (\<lambda>_. bindE (vec_set (renaming_table_backup t) (unat i) v)
     (\<lambda>r. Inr (t\<lparr>renaming_table_backup := r\<rparr>)))"

section \<open>Well-formedness and the interpretation\<close>

definition rt_wf :: "RenamingTable \<Rightarrow> bool" where
  "rt_wf t \<longleftrightarrow> length (renaming_table t) = unat (isa_reg_num t)
     \<and> length (renaming_table_backup t) = unat (isa_reg_num t)"

definition rt_ok :: "RenamingTable \<Rightarrow> IsaRegId_t \<Rightarrow> bool" where
  "rt_ok t i \<longleftrightarrow> i < isa_reg_num t"

definition rt_spec :: "RenamingTable \<Rightarrow> IsaRegId_t \<Rightarrow> PhyRegId_t" where
  "rt_spec t i = renaming_table t ! unat i"

definition rt_base :: "RenamingTable \<Rightarrow> IsaRegId_t \<Rightarrow> PhyRegId_t" where
  "rt_base t i = renaming_table_backup t ! unat i"

lemma rt_ok_unat: "rt_ok t i \<longleftrightarrow> unat i < unat (isa_reg_num t)"
  by (simp add: rt_ok_def word_less_nat_alt)

interpretation rt: shadowed_table rt_get rt_set rt_GetBackup_set rt_RollBack rt_spec rt_base rt_ok rt_wf
proof
  fix t i v
  assume wf: "rt_wf t"
  show "rt_get t i = Inr (rt_spec t i)" if "rt_ok t i"
    using wf that by (auto simp: rt_get_def rt_spec_def rt_wf_def rt_ok_unat word_le_nat_alt)
  show "\<exists>t'. rt_set t i v = Inr t' \<and> rt_wf t' \<and> rt_ok t' = rt_ok t
      \<and> (\<forall>j. rt_ok t j \<longrightarrow> rt_spec t' j = ((rt_spec t)(i := v)) j) \<and> rt_base t' = rt_base t"
    if "rt_ok t i"
    using wf that by (auto simp: rt_set_def rt_spec_def rt_wf_def rt_ok_unat word_le_nat_alt
        rt_base_def fun_eq_iff nth_list_update unat_inj_iff)
  show "\<exists>t'. rt_GetBackup_set t i v = Inr t' \<and> rt_wf t' \<and> rt_ok t' = rt_ok t
      \<and> (\<forall>j. rt_ok t j \<longrightarrow> rt_base t' j = ((rt_base t)(i := v)) j) \<and> rt_spec t' = rt_spec t"
    if "rt_ok t i"
    using wf that by (auto simp: rt_GetBackup_set_def rt_spec_def rt_wf_def rt_ok_unat word_le_nat_alt
        rt_base_def fun_eq_iff nth_list_update unat_inj_iff)
  show "rt_wf (rt_RollBack t) \<and> rt_ok (rt_RollBack t) = rt_ok t \<and> rt_base (rt_RollBack t) = rt_base t
      \<and> (\<forall>j. rt_ok t j \<longrightarrow> rt_spec (rt_RollBack t) j = rt_base t j)"
    using wf by (auto simp: rt_RollBack_def rt_wf_def rt_ok_unat rt_spec_def rt_base_def fun_eq_iff)
qed

lemma mk_RenamingTable_ok:
  "rt_wf (mk_RenamingTable n v) \<and> isa_reg_num (mk_RenamingTable n v) = n
   \<and> renaming_table (mk_RenamingTable n v) = replicate (unat n) v
   \<and> renaming_table_backup (mk_RenamingTable n v) = replicate (unat n) v"
  by (simp add: mk_RenamingTable_def rt_wf_def)

section \<open>Properties\<close>

text \<open>
  The check of \<open>operator[]\<close> is too weak by one: an index equal to the number of registers passes
  the assertion and reads beyond the table; every smaller index is served and every larger one is
  rejected by the assertion.
\<close>

theorem RenamingTable_range_check:
  assumes "rt_wf t"
  shows "rt_get t i =
    (if i < isa_reg_num t then Inr (renaming_table t ! unat i)
     else if i = isa_reg_num t then Inl (Undefined ''vector index'')
     else Inl (SpartaAssert ''accessing renaming table is out of range''))"
  using assms by (auto simp: rt_get_def rt_wf_def assertE_def vec_get_def word_less_nat_alt word_le_nat_alt
      word_unat_eq_iff)

theorem RenamingTable_range_check_witness:
  "rt_get (mk_RenamingTable 32 0) 32 = Inl (Undefined ''vector index'')
   \<and> rt_get (mk_RenamingTable 32 0) 31 = Inr 0
   \<and> rt_get (mk_RenamingTable 32 0) 33 = Inl (SpartaAssert ''accessing renaming table is out of range'')"
  using RenamingTable_range_check [of "mk_RenamingTable 32 0" 32]
    RenamingTable_range_check [of "mk_RenamingTable 32 0" 31]
    RenamingTable_range_check [of "mk_RenamingTable 32 0" 33]
  by (simp add: mk_RenamingTable_ok)

end
