(* ===== verification/Renaming_Stage.thy ===== *)
theory Renaming_Stage
  imports Free_List Renaming_Table
begin

text \<open>
  \<open>core/abstract_backend/RenamingStage\<close>: instructions from the frontend wait in a queue, are
  renamed as far as the credits of the dispatch stage, the reorder buffer and the load and store
  queues allow, and leave in groups; committed instructions release the registers they displaced;
  a flush restores the committed map and pool. Every handler returns the sends and event schedules it
  performs, in order.
\<close>

section \<open>Parameters, state, output ports\<close>

record RenamingParameter =
  rp_issue_width :: u32
  rp_isa_reg_num :: u32
  rp_queue_depth :: u32
  rp_phy_reg_num :: u32
  rp_is_perfect_lsu :: bool

record RenamingStage =
  renaming_stage_queue :: "inst_ptr list"
  rn_free_list :: Freelist
  rn_renaming_table :: RenamingTable
  rn_issue_width :: u64
  renaming_stage_queue_depth :: u64
  rn_is_perfect_lsu :: bool
  physical_reg_credit :: Credit
  rn_dispatch_credit :: Credit
  rn_rob_credit :: Credit
  rn_ldq_credit :: Credit
  rn_stq_credit :: Credit

datatype rn_effect =
    renaming_preceding_credit_out Credit
  | renaming_following_inst_out InstGroup
  | renaming_lsu_allocate_out InstGroup
  | rename_event nat

section \<open>Handlers\<close>

definition mk_RenamingStage :: "RenamingParameter \<Rightarrow> RenamingStage result" where
  "mk_RenamingStage p =
     bindE (mk_Freelist (rp_phy_reg_num p))
     (\<lambda>fl. Inr \<lparr>renaming_stage_queue = [], rn_free_list = fl,
        rn_renaming_table = mk_RenamingTable (ucast (rp_isa_reg_num p)) 0,
        rn_issue_width = ucast (rp_issue_width p),
        renaming_stage_queue_depth = ucast (rp_queue_depth p),
        rn_is_perfect_lsu = rp_is_perfect_lsu p,
        physical_reg_credit = ucast (rp_phy_reg_num p),
        rn_dispatch_credit = 0, rn_rob_credit = 0, rn_ldq_credit = 0, rn_stq_credit = 0\<rparr>)"

definition rn_AcceptRobCredit :: "RenamingStage \<Rightarrow> Credit \<Rightarrow> RenamingStage \<times> rn_effect list" where
  "rn_AcceptRobCredit s credit =
     (s\<lparr>rn_rob_credit := rn_rob_credit s + credit\<rparr>, [rename_event 0])"

definition rn_AcceptDispatchCredit :: "RenamingStage \<Rightarrow> Credit \<Rightarrow> RenamingStage \<times> rn_effect list" where
  "rn_AcceptDispatchCredit s credit =
     (s\<lparr>rn_dispatch_credit := rn_dispatch_credit s + credit\<rparr>, [rename_event 0])"

definition rn_AcceptLoadQueueCredit :: "RenamingStage \<Rightarrow> Credit \<Rightarrow> RenamingStage \<times> rn_effect list" where
  "rn_AcceptLoadQueueCredit s credit =
     (s\<lparr>rn_ldq_credit := rn_ldq_credit s + credit\<rparr>, [rename_event 0])"

definition rn_AcceptStoreQueueCredit :: "RenamingStage \<Rightarrow> Credit \<Rightarrow> RenamingStage \<times> rn_effect list" where
  "rn_AcceptStoreQueueCredit s credit =
     (s\<lparr>rn_stq_credit := rn_stq_credit s + credit\<rparr>, [rename_event 0])"

definition rn_AcceptLsuAllocateIdx :: "RenamingStage \<Rightarrow> InstGroup \<Rightarrow> RenamingStage \<times> rn_effect list" where
  "rn_AcceptLsuAllocateIdx s g = (s, [])"

definition rn_InitCredit :: "RenamingStage \<Rightarrow> rn_effect list" where
  "rn_InitCredit s = [renaming_preceding_credit_out (renaming_stage_queue_depth s)]"

definition rn_AllocateInst :: "RenamingStage \<Rightarrow> InstGroup \<Rightarrow> RenamingStage \<times> rn_effect list" where
  "rn_AllocateInst s g =
     (fold (\<lambda>p s. s\<lparr>renaming_stage_queue := renaming_stage_queue s @ [p]\<rparr>) g s, [rename_event 0])"

definition rn_FlushCredit :: "RenamingStage \<Rightarrow> RenamingStage" where
  "rn_FlushCredit s =
     s\<lparr>rn_dispatch_credit := 0, rn_rob_credit := 0, rn_ldq_credit := 0, rn_stq_credit := 0\<rparr>"

definition rn_HandleFlush :: "RenamingStage \<Rightarrow> FlushingCriteria \<Rightarrow> RenamingStage \<times> rn_effect list" where
  "rn_HandleFlush s fc =
     (let s1 = rn_FlushCredit s in
      (s1\<lparr>renaming_stage_queue := [],
          rn_free_list := fl_RollBack (rn_free_list s1),
          rn_renaming_table := rt_RollBack (rn_renaming_table s1)\<rparr>,
       [renaming_preceding_credit_out (renaming_stage_queue_depth s1)]))"

definition RenameInstImp ::
  "inst_heap \<Rightarrow> RenamingStage \<Rightarrow> inst_ptr \<Rightarrow> (inst_heap \<times> RenamingStage) result" where
  "RenameInstImp h s p =
     bindE (rt_get (rn_renaming_table s) (getIsaRs1 (h p)))
     (\<lambda>rs1. let h1 = on_inst p (setPhyRs1 rs1) h in
      bindE (rt_get (rn_renaming_table s) (getIsaRs2 (h1 p)))
     (\<lambda>rs2. let h2 = on_inst p (setPhyRs2 rs2) h1 in
      bindE (rt_get (rn_renaming_table s) (getIsaRd (h2 p)))
     (\<lambda>lrd. let h3 = on_inst p (setLPhyRd lrd) h2 in
      bindE (fl_Front (rn_free_list s))
     (\<lambda>phy_reg_idx.
        if getIsaRd (h3 p) \<noteq> 0 then
          bindE (rt_set (rn_renaming_table s) (getIsaRd (h3 p)) phy_reg_idx)
          (\<lambda>t. bindE (fl_Pop (rn_free_list s))
          (\<lambda>fl. Inr (on_inst p (setPhyRd phy_reg_idx) h3, s\<lparr>rn_renaming_table := t, rn_free_list := fl\<rparr>)))
        else Inr (on_inst p (setPhyRd 0) h3, s)))))"

text \<open>
  The body of \<open>while(produce_inst_num--)\<close>; \<open>n\<close> counts the iterations left, \<open>g\<close> and \<open>lg\<close> are the
  group for the following stages and the one for the load-store unit.
\<close>

fun RenameInst_loop :: "nat \<Rightarrow> inst_heap \<Rightarrow> RenamingStage \<Rightarrow> InstGroup \<Rightarrow> InstGroup
    \<Rightarrow> (inst_heap \<times> RenamingStage \<times> InstGroup \<times> InstGroup) result" where
  "RenameInst_loop 0 h s g lg = Inr (h, s, g, lg)"
| "RenameInst_loop (Suc n) h s g lg =
     (if renaming_stage_queue s = [] \<or> fl_IsEmpty (rn_free_list s) then Inr (h, s, g, lg)
      else bindE (deque_front (renaming_stage_queue s))
        (\<lambda>p. bindE (RenameInstImp h s p)
        (\<lambda>(h1, s1).
          let g1 = emplace_back g p;
              s2 = s1\<lparr>renaming_stage_queue := tl (renaming_stage_queue s1)\<rparr>;
              fu = getFuType (h1 p);
              lg1 = (if fu = FT_STU \<or> fu = FT_LDU then emplace_back lg p else lg);
              s3 = s2\<lparr>rn_dispatch_credit := rn_dispatch_credit s2 - 1,
                      rn_rob_credit := rn_rob_credit s2 - 1\<rparr>;
              s4 = (if fu = FT_STU \<and> \<not> rn_is_perfect_lsu s then s3\<lparr>rn_stq_credit := rn_stq_credit s3 - 1\<rparr>
                    else if fu = FT_LDU \<and> \<not> rn_is_perfect_lsu s
                    then s3\<lparr>rn_ldq_credit := rn_ldq_credit s3 - 1\<rparr>
                    else s3)
          in RenameInst_loop n h1 s4 g1 lg1)))"

definition rn_produce_inst_num :: "RenamingStage \<Rightarrow> u64" where
  "rn_produce_inst_num s =
     (let n = min (rn_dispatch_credit s) (rn_rob_credit s);
          n = (if rn_is_perfect_lsu s then n else min (min n (rn_ldq_credit s)) (rn_stq_credit s))
      in min n (rn_issue_width s))"

definition rn_whole_credit :: "RenamingStage \<Rightarrow> u64" where
  "rn_whole_credit s =
     min (min (min (rn_dispatch_credit s) (rn_rob_credit s)) (rn_ldq_credit s)) (rn_stq_credit s)"

definition RenameInst ::
  "inst_heap \<Rightarrow> RenamingStage \<Rightarrow> (inst_heap \<times> RenamingStage \<times> rn_effect list) result" where
  "RenameInst h s =
     (if renaming_stage_queue s = [] then Inr (h, s, [])
      else if fl_IsEmpty (rn_free_list s) then Inr (h, s, [rename_event 1])
      else let produce_inst_num = rn_produce_inst_num s in
        if produce_inst_num = 0 then Inr (h, s, [])
        else bindE (RenameInst_loop (unat produce_inst_num) h s [] [])
          (\<lambda>(h', s', g, lg). Inr (h', s',
             (if renaming_stage_queue s' \<noteq> [] \<and> rn_whole_credit s' > 0 then [rename_event 1] else [])
             @ (if g \<noteq> [] then [renaming_preceding_credit_out (word_of_nat (length g)),
                                renaming_following_inst_out g] else [])
             @ (if lg \<noteq> [] \<and> \<not> rn_is_perfect_lsu s' then [renaming_lsu_allocate_out lg] else []))))"

text \<open>\<open>RollBack_\<close> has no caller; it is here because it is part of the class.\<close>

definition rn_RollBack :: "inst_heap \<Rightarrow> RenamingStage \<Rightarrow> InstGroup \<Rightarrow> RenamingStage result" where
  "rn_RollBack h s g =
     foldE (\<lambda>s p. bindE (rt_set (rn_renaming_table s) (getIsaRd (h p)) (getLPhyRd (h p)))
       (\<lambda>t. bindE (fl_Push (rn_free_list s) (getPhyRd (h p)))
       (\<lambda>fl. Inr (s\<lparr>rn_renaming_table := t, rn_free_list := fl\<rparr>)))) s g"

definition rn_RobCommit_one :: "inst_heap \<Rightarrow> RenamingStage \<times> rn_effect list \<Rightarrow> inst_ptr
    \<Rightarrow> (RenamingStage \<times> rn_effect list) result" where
  "rn_RobCommit_one h = (\<lambda>(s, effs) p.
     bindE (if getPhyRd (h p) \<noteq> 0 then fl_BackupPop (rn_free_list s) else Inr (rn_free_list s))
     (\<lambda>fl. bindE (if getLPhyRd (h p) \<noteq> 0
                   then bindE (fl_Push fl (getLPhyRd (h p))) (\<lambda>fl. Inr (fl, effs @ [rename_event 1]))
                   else Inr (fl, effs))
     (\<lambda>(fl, effs). bindE (rt_GetBackup_set (rn_renaming_table s) (getIsaRd (h p)) (getPhyRd (h p)))
     (\<lambda>t. Inr (s\<lparr>rn_free_list := fl, rn_renaming_table := t\<rparr>, effs)))))"

definition rn_RobCommit :: "inst_heap \<Rightarrow> RenamingStage \<Rightarrow> InstGroup
    \<Rightarrow> (RenamingStage \<times> rn_effect list) result" where
  "rn_RobCommit h s g = foldE (rn_RobCommit_one h) (s, []) g"

section \<open>The invariant\<close>

text \<open>
  The specification keeps, oldest first, what every renamed and uncommitted instruction got: its
  architectural destination, its physical destination and the physical register it displaced.
\<close>

type_synonym rn_entry = "IsaRegId_t \<times> PhyRegId_t \<times> PhyRegId_t"

definition rn_entry_of :: "inst_heap \<Rightarrow> inst_ptr \<Rightarrow> rn_entry" where
  "rn_entry_of h p = (getIsaRd (h p), getPhyRd (h p), getLPhyRd (h p))"

definition rn_owned :: "rn_entry list \<Rightarrow> PhyRegId_t list" where
  "rn_owned Q = filter (\<lambda>t. t \<noteq> 0) (map (\<lambda>(rd, prd, lprd). prd) Q)"

definition rn_writes :: "rn_entry list \<Rightarrow> (IsaRegId_t \<times> PhyRegId_t) list" where
  "rn_writes Q = map (\<lambda>(rd, prd, lprd). (rd, prd)) Q"

fun rn_chain :: "(IsaRegId_t \<Rightarrow> PhyRegId_t) \<Rightarrow> rn_entry list \<Rightarrow> bool" where
  "rn_chain m [] \<longleftrightarrow> True"
| "rn_chain m ((rd, prd, lprd) # Q) \<longleftrightarrow>
     lprd = m rd \<and> (rd = 0 \<longleftrightarrow> prd = 0) \<and> rn_chain (m(rd := prd)) Q"

definition rn_live :: "RenamingStage \<Rightarrow> PhyRegId_t list" where
  "rn_live s = filter (\<lambda>t. t \<noteq> 0) (renaming_table_backup (rn_renaming_table s))"

definition rn_inv :: "nat \<Rightarrow> RenamingStage \<Rightarrow> rn_entry list \<Rightarrow> bool" where
  "rn_inv P s Q \<longleftrightarrow>
     fl.owned (rn_free_list s) (rn_owned Q)
   \<and> rt.ahead (rn_renaming_table s) (rn_writes Q)
   \<and> rn_chain (rt_base (rn_renaming_table s)) Q
   \<and> 0 < isa_reg_num (rn_renaming_table s)
   \<and> rt_base (rn_renaming_table s) 0 = 0
   \<and> mset (free_list_backup (rn_free_list s)) + mset (rn_live s) = mset (fl_tokens P)
   \<and> (\<forall>t. fl_valid (rn_free_list s) t \<longleftrightarrow> unat t < P)
   \<and> P \<le> 2 ^ 32"

definition rn_regs_ok :: "inst_heap \<Rightarrow> RenamingStage \<Rightarrow> inst_ptr \<Rightarrow> bool" where
  "rn_regs_ok h s p \<longleftrightarrow> rt_ok (rn_renaming_table s) (getIsaRs1 (h p))
     \<and> rt_ok (rn_renaming_table s) (getIsaRs2 (h p)) \<and> rt_ok (rn_renaming_table s) (getIsaRd (h p))"

lemma rn_chain_snoc:
  "rn_chain m (Q @ [(rd, prd, lprd)]) \<longleftrightarrow>
     rn_chain m Q \<and> lprd = rt.replay (rn_writes Q) m rd \<and> (rd = 0 \<longleftrightarrow> prd = 0)"
proof (induction Q arbitrary: m)
  case (Cons e Q)
  obtain a b c where "e = (a, b, c)" by (cases e)
  with Cons show ?case by (simp add: rn_writes_def rt.replay_Cons del: fun_upd_apply)
qed (simp add: rn_writes_def rt.replay_Nil)

lemma rn_chain_zero: "rn_chain m Q \<Longrightarrow> m 0 = 0 \<Longrightarrow> rt.replay (rn_writes Q) m 0 = 0"
proof (induction Q arbitrary: m)
  case (Cons e Q)
  obtain rd prd lprd where e: "e = (rd, prd, lprd)" by (cases e)
  with Cons.prems have "(m(rd := prd)) 0 = 0" by auto
  with Cons e show ?case by (simp add: rn_writes_def rt.replay_Cons del: fun_upd_apply)
qed (simp add: rn_writes_def rt.replay_Nil)

lemma rn_chain_cong:
  assumes "\<forall>(rd, w) \<in> set Q. P rd" "\<And>j. P j \<Longrightarrow> m j = m' j"
  shows "rn_chain m Q = rn_chain m' Q"
  using assms
proof (induction Q arbitrary: m m')
  case (Cons e Q)
  obtain rd prd lprd where e: "e = (rd, prd, lprd)" by (cases e)
  have "rn_chain (m(rd := prd)) Q = rn_chain (m'(rd := prd)) Q"
    by (rule Cons.IH) (use Cons.prems in auto)
  with Cons.prems show ?case by (auto simp: e)
qed simp

lemma rn_writes_snoc: "rn_writes (Q @ [(rd, prd, l)]) = rn_writes Q @ [(rd, prd)]"
  by (simp add: rn_writes_def)

lemma rn_inv_committed_distinct:
  assumes "rn_inv P s Q"
  shows "distinct (free_list_backup (rn_free_list s) @ rn_live s)"
    and "set (free_list_backup (rn_free_list s)) \<union> set (rn_live s) = {t. t \<noteq> 0 \<and> unat t < P}"
proof -
  from assms have m: "mset (free_list_backup (rn_free_list s) @ rn_live s) = mset (fl_tokens P)"
    and P: "P \<le> 2 ^ 32" by (auto simp: rn_inv_def)
  show "distinct (free_list_backup (rn_free_list s) @ rn_live s)"
    using mset_eq_imp_distinct_iff [OF m] fl_tokens_distinct [OF P] by simp
  show "set (free_list_backup (rn_free_list s)) \<union> set (rn_live s) = {t. t \<noteq> 0 \<and> unat t < P}"
    using mset_eq_setD [OF m] fl_tokens_set [OF P] by simp
qed

section \<open>Renaming keeps the invariant\<close>

lemma rn_inv_spec_zero:
  assumes "rn_inv P s Q"
  shows "rt_spec (rn_renaming_table s) 0 = 0"
  using assms rn_chain_zero by (auto simp: rn_inv_def rt.ahead_def rt_ok_def)

lemma RenameInstImp_frame:
  assumes "RenameInstImp h s p = Inr (h', s')"
  shows "(\<forall>q. q \<noteq> p \<longrightarrow> h' q = h q) \<and> getFuType (h' p) = getFuType (h p)
    \<and> (\<exists>t fl. s' = s\<lparr>rn_renaming_table := t, rn_free_list := fl\<rparr>)"
proof -
  have "\<exists>t fl. s = s\<lparr>rn_renaming_table := t, rn_free_list := fl\<rparr>" for s
    by (intro exI [of _ "rn_renaming_table s"] exI [of _ "rn_free_list s"]) simp
  with assms show ?thesis
    by (auto simp: RenameInstImp_def Let_def result_simps split: if_splits)
qed

text \<open>One instruction: the operands read the speculative map, the destination the pool's front.\<close>

definition rn_renamed :: "RenamingStage \<Rightarrow> inst_heap \<Rightarrow> inst_heap \<Rightarrow> inst_ptr \<Rightarrow> bool" where
  "rn_renamed s h h' p \<longleftrightarrow>
     getPhyRs1 (h' p) = rt_spec (rn_renaming_table s) (getIsaRs1 (h p))
   \<and> getPhyRs2 (h' p) = rt_spec (rn_renaming_table s) (getIsaRs2 (h p))
   \<and> getLPhyRd (h' p) = rt_spec (rn_renaming_table s) (getIsaRd (h p))
   \<and> getPhyRd (h' p) = (if getIsaRd (h p) = 0 then 0 else hd (free_list (rn_free_list s)))
   \<and> getIsaRd (h' p) = getIsaRd (h p)"

lemma rn_inv_free_nonzero:
  assumes "rn_inv P s Q" "t \<in> set (free_list (rn_free_list s))"
  shows "t \<noteq> 0"
proof -
  have "t \<in> set (free_list_backup (rn_free_list s))"
    using assms by (auto simp: rn_inv_def fl.owned_def)
  with rn_inv_committed_distinct(2) [OF assms(1)] show ?thesis by auto
qed

lemma rn_inv_skip_zero:
  assumes "rn_inv P s Q"
  shows "rn_inv P s (Q @ [(0, 0, rt_spec (rn_renaming_table s) 0)])"
proof -
  let ?t = "rn_renaming_table s"
  have z: "rt_spec ?t 0 = 0" using assms by (rule rn_inv_spec_zero)
  have zr: "rt.replay (rn_writes Q) (rt_base ?t) 0 = 0"
    using assms rn_chain_zero by (auto simp: rn_inv_def)
  have "rt.ahead ?t (rn_writes Q @ [(0, 0)])"
    using assms zr by (auto simp: rn_inv_def rt.ahead_def rt.replay_snoc rt_ok_def)
  with assms z zr show ?thesis
    by (simp add: rn_inv_def rn_chain_snoc rn_writes_snoc) (simp add: rn_owned_def)
qed

lemma RenameInstImp_ok:
  assumes inv: "rn_inv P s Q" and ne: "free_list (rn_free_list s) \<noteq> []" and regs: "rn_regs_ok h s p"
  shows "\<exists>h' s'. RenameInstImp h s p = Inr (h', s') \<and> rn_inv P s' (Q @ [rn_entry_of h' p])
    \<and> rt_ok (rn_renaming_table s') = rt_ok (rn_renaming_table s) \<and> rn_renamed s h h' p"
proof -
  let ?t = "rn_renaming_table s" and ?f = "rn_free_list s" and ?rd = "IsaRd (info (h p))"
  have own: "fl.owned ?f (rn_owned Q)" and ahead: "rt.ahead ?t (rn_writes Q)"
    using inv by (auto simp: rn_inv_def)
  have gets: "rt_get ?t i = Inr (rt_spec ?t i)" if "rt_ok ?t i" for i
    using ahead that rt.lookup_ok by (auto simp: rt.ahead_def)
  from fl.owned_alloc [OF own ne] obtain f where f: "fl_Front ?f = Inr (hd (free_list ?f))"
    "fl_Pop ?f = Inr f" "fl.owned f (rn_owned Q @ [hd (free_list ?f)])"
    "free_list_backup f = free_list_backup ?f" "fl_valid f = fl_valid ?f" by auto
  let ?x = "hd (free_list ?f)"
  show ?thesis
  proof (cases "?rd = 0")
    case True
    with regs f gets show ?thesis
      using rn_inv_skip_zero [OF inv]
      by (simp add: RenameInstImp_def Let_def rn_regs_ok_def rn_entry_of_def rn_renamed_def)
  next
    case False
    from rt.ahead_update [OF ahead, of ?rd ?x] regs obtain t where
      t: "rt_set ?t ?rd ?x = Inr t" "rt.ahead t (rn_writes Q @ [(?rd, ?x)])" "rt_ok t = rt_ok ?t"
        "rt_base t = rt_base ?t"
      by (auto simp: rn_regs_ok_def)
    have "renaming_table_backup t = renaming_table_backup ?t" "isa_reg_num t = isa_reg_num ?t"
      using t(1) by (auto simp: rt_set_def result_simps)
    moreover have x: "?x \<noteq> 0" using rn_inv_free_nonzero [OF inv, of ?x] ne by simp
    moreover have "rt_spec ?t ?rd = rt.replay (rn_writes Q) (rt_base ?t) ?rd"
      using ahead regs by (auto simp: rt.ahead_def rn_regs_ok_def)
    ultimately have "rn_inv P (s\<lparr>rn_renaming_table := t, rn_free_list := f\<rparr>)
        (Q @ [(?rd, ?x, rt_spec ?t ?rd)])"
      using inv t f False
      by (simp add: rn_inv_def rn_chain_snoc rn_writes_snoc rn_live_def) (simp add: rn_owned_def)
    with False regs f gets t show ?thesis
      by (simp add: RenameInstImp_def Let_def rn_regs_ok_def rn_entry_of_def rn_renamed_def)
  qed
qed

text \<open>What a run of the loop of \<open>k\<close> iterations leaves behind.\<close>

definition rn_count :: "inst_heap \<Rightarrow> FuncType \<Rightarrow> inst_ptr list \<Rightarrow> nat" where
  "rn_count h ft ps = length (filter (\<lambda>p. getFuType (h p) = ft) ps)"

definition rn_debited :: "inst_heap \<Rightarrow> RenamingStage \<Rightarrow> inst_ptr list \<Rightarrow> RenamingStage \<Rightarrow> bool" where
  "rn_debited h s ps s' \<longleftrightarrow>
     rn_dispatch_credit s' = rn_dispatch_credit s - word_of_nat (length ps)
   \<and> rn_rob_credit s' = rn_rob_credit s - word_of_nat (length ps)
   \<and> rn_ldq_credit s' = rn_ldq_credit s
        - (if rn_is_perfect_lsu s then 0 else word_of_nat (rn_count h FT_LDU ps))
   \<and> rn_stq_credit s' = rn_stq_credit s
        - (if rn_is_perfect_lsu s then 0 else word_of_nat (rn_count h FT_STU ps))
   \<and> rn_is_perfect_lsu s' = rn_is_perfect_lsu s \<and> rn_issue_width s' = rn_issue_width s
   \<and> renaming_stage_queue_depth s' = renaming_stage_queue_depth s"

definition rn_loop_post :: "nat \<Rightarrow> inst_heap \<Rightarrow> RenamingStage \<Rightarrow> rn_entry list \<Rightarrow> nat \<Rightarrow> nat
    \<Rightarrow> inst_heap \<Rightarrow> RenamingStage \<Rightarrow> bool" where
  "rn_loop_post P h s Q n k h' s' \<longleftrightarrow> k \<le> n \<and> k \<le> length (renaming_stage_queue s)
   \<and> renaming_stage_queue s' = drop k (renaming_stage_queue s)
   \<and> rn_inv P s' (Q @ map (rn_entry_of h') (take k (renaming_stage_queue s)))
   \<and> rt_ok (rn_renaming_table s') = rt_ok (rn_renaming_table s)
   \<and> (k = n \<or> renaming_stage_queue s' = [] \<or> free_list (rn_free_list s') = [])
   \<and> rn_debited h s (take k (renaming_stage_queue s)) s'
   \<and> (\<forall>q. q \<notin> set (take k (renaming_stage_queue s)) \<longrightarrow> h' q = h q)
   \<and> (\<forall>q. getFuType (h' q) = getFuType (h q))"

text \<open>One iteration in the shape the loop lemma needs: the credit updates leave map and pool alone.\<close>

definition rn_after_one :: "inst_heap \<Rightarrow> RenamingStage \<Rightarrow> inst_ptr \<Rightarrow> RenamingStage \<Rightarrow> RenamingStage" where
  "rn_after_one h s p s1 =
     (let s2 = s1\<lparr>renaming_stage_queue := tl (renaming_stage_queue s1)\<rparr>;
          s3 = s2\<lparr>rn_dispatch_credit := rn_dispatch_credit s2 - 1, rn_rob_credit := rn_rob_credit s2 - 1\<rparr>;
          fu = getFuType (h p)
      in if fu = FT_STU \<and> \<not> rn_is_perfect_lsu s then s3\<lparr>rn_stq_credit := rn_stq_credit s3 - 1\<rparr>
         else if fu = FT_LDU \<and> \<not> rn_is_perfect_lsu s then s3\<lparr>rn_ldq_credit := rn_ldq_credit s3 - 1\<rparr>
         else s3)"

lemma rn_after_one_simps [simp]:
  "rn_free_list (rn_after_one h s p s1) = rn_free_list s1"
  "rn_renaming_table (rn_after_one h s p s1) = rn_renaming_table s1"
  "renaming_stage_queue (rn_after_one h s p s1) = tl (renaming_stage_queue s1)"
  by (simp_all add: rn_after_one_def Let_def)

lemma rn_inv_cong:
  "rn_free_list s' = rn_free_list s \<Longrightarrow> rn_renaming_table s' = rn_renaming_table s \<Longrightarrow>
   rn_inv P s' Q = rn_inv P s Q"
  by (simp add: rn_inv_def rn_live_def)

lemma rn_inv_credits [simp]:
  "rn_inv P (s\<lparr>rn_rob_credit := c\<rparr>) Q = rn_inv P s Q"
  "rn_inv P (s\<lparr>rn_dispatch_credit := c\<rparr>) Q = rn_inv P s Q"
  "rn_inv P (s\<lparr>rn_ldq_credit := c\<rparr>) Q = rn_inv P s Q"
  "rn_inv P (s\<lparr>rn_stq_credit := c\<rparr>) Q = rn_inv P s Q"
  "rn_inv P (s\<lparr>renaming_stage_queue := q\<rparr>) Q = rn_inv P s Q"
  by (rule rn_inv_cong; simp)+

lemma rn_debited_one:
  assumes "s1 = s\<lparr>rn_renaming_table := t, rn_free_list := fl\<rparr>"
    and "rn_debited h (rn_after_one h s p s1) ps s'"
  shows "rn_debited h s (p # ps) s'"
  using assms(2) unfolding assms(1)
  by (auto simp: rn_debited_def rn_after_one_def Let_def rn_count_def algebra_simps)

definition rn_is_mem :: "inst_heap \<Rightarrow> inst_ptr \<Rightarrow> bool" where
  "rn_is_mem h p \<longleftrightarrow> getFuType (h p) = FT_STU \<or> getFuType (h p) = FT_LDU"

lemma RenameInst_loop_Suc:
  assumes "renaming_stage_queue s = p # ps" "free_list (rn_free_list s) \<noteq> []"
    and "RenameInstImp h s p = Inr (h1, s1)"
  shows "RenameInst_loop (Suc n) h s g lg =
    RenameInst_loop n h1 (rn_after_one h1 s p s1) (g @ [p])
      (if rn_is_mem h1 p then lg @ [p] else lg)"
  using assms by (simp add: fl_IsEmpty_def rn_after_one_def rn_is_mem_def Let_def)

lemma RenameInst_loop_ok:
  assumes "rn_inv P s Q" "distinct (renaming_stage_queue s)"
    and "\<forall>p \<in> set (renaming_stage_queue s). rn_regs_ok h s p"
  shows "\<exists>k h' s'. RenameInst_loop n h s g lg
      = Inr (h', s', g @ take k (renaming_stage_queue s),
             lg @ filter (rn_is_mem h) (take k (renaming_stage_queue s)))
    \<and> rn_loop_post P h s Q n k h' s'"
  using assms
proof (induction n arbitrary: h s Q g lg)
  case 0
  then show ?case
    by (intro exI [of _ 0] exI [of _ h] exI [of _ s])
      (simp add: rn_loop_post_def rn_debited_def rn_count_def)
next
  case (Suc n)
  show ?case
  proof (cases "renaming_stage_queue s = [] \<or> free_list (rn_free_list s) = []")
    case True
    with Suc.prems show ?thesis
      by (intro exI [of _ 0] exI [of _ h] exI [of _ s])
        (auto simp: rn_loop_post_def rn_debited_def rn_count_def fl_IsEmpty_def)
  next
    case False
    then obtain p ps where q: "renaming_stage_queue s = p # ps" by (cases "renaming_stage_queue s") auto
    with Suc.prems False obtain h1 s1 where r: "RenameInstImp h s p = Inr (h1, s1)"
        "rn_inv P s1 (Q @ [rn_entry_of h1 p])" "rt_ok (rn_renaming_table s1) = rt_ok (rn_renaming_table s)"
      using RenameInstImp_ok [of P s Q h p] by auto
    from RenameInstImp_frame [OF r(1)] obtain t fl where
      fr: "\<forall>q. q \<noteq> p \<longrightarrow> h1 q = h q" "getFuType (h1 p) = getFuType (h p)"
        "s1 = s\<lparr>rn_renaming_table := t, rn_free_list := fl\<rparr>" by auto
    then have fu: "getFuType (h1 q) = getFuType (h q)" for q by (cases "q = p") auto
    let ?s2 = "rn_after_one h1 s p s1"
    have q1: "renaming_stage_queue s1 = p # ps" using fr(3) q by simp
    have pre: "rn_inv P ?s2 (Q @ [rn_entry_of h1 p])" "distinct (renaming_stage_queue ?s2)"
      using r(2) Suc.prems(2) q q1 rn_inv_cong [of ?s2 s1] by auto
    have regs: "\<forall>p' \<in> set (renaming_stage_queue ?s2). rn_regs_ok h1 ?s2 p'"
      using Suc.prems q q1 fr r(3) by (auto simp: rn_regs_ok_def)
    have q2: "renaming_stage_queue ?s2 = ps" using q1 by simp
    obtain k h' s' where
      l: "RenameInst_loop n h1 ?s2 (g @ [p]) (if rn_is_mem h1 p then lg @ [p] else lg)
        = Inr (h', s', (g @ [p]) @ take k ps, (if rn_is_mem h1 p then lg @ [p] else lg)
            @ filter (rn_is_mem h1) (take k ps))"
        and post: "rn_loop_post P h1 ?s2 (Q @ [rn_entry_of h1 p]) n k h' s'"
      using Suc.IH [OF pre regs, of "g @ [p]" "if rn_is_mem h1 p then lg @ [p] else lg"]
      unfolding q2 by blast
    have mem: "rn_is_mem h1 = rn_is_mem h" using fu by (simp add: rn_is_mem_def fun_eq_iff)
    have deb: "rn_debited h s (p # take k ps) s'"
    proof -
      have "rn_count h1 = rn_count h" "rn_after_one h1 = rn_after_one h"
        using fu by (simp_all add: rn_count_def rn_after_one_def fun_eq_iff)
      then have "rn_debited h (rn_after_one h s p s1) (take k ps) s'"
        using post q1 by (simp add: rn_loop_post_def rn_debited_def)
      then show ?thesis using rn_debited_one [OF fr(3)] by blast
    qed
    have "p \<notin> set (take k ps)" using Suc.prems(2) q by (auto dest: in_set_takeD)
    then have e: "rn_entry_of h' p = rn_entry_of h1 p"
      using post q1 by (simp add: rn_loop_post_def rn_entry_of_def)
    have "rn_loop_post P h s Q (Suc n) (Suc k) h' s'"
      using post deb e q q1 fr r(3) fu by (auto simp: rn_loop_post_def)
    moreover have "RenameInst_loop (Suc n) h s g lg = Inr (h', s', g @ take (Suc k) (renaming_stage_queue s),
        lg @ filter (rn_is_mem h) (take (Suc k) (renaming_stage_queue s)))"
      using RenameInst_loop_Suc [OF q _ r(1), of n g lg] l False q
      by (simp add: mem del: RenameInst_loop.simps)
    ultimately show ?thesis by blast
  qed
qed

section \<open>Which registers renaming gives\<close>

text \<open>The map after the instructions \<open>ps\<close> wrote it, and the number of registers they took from the pool.\<close>

definition rn_sees :: "inst_heap \<Rightarrow> inst_ptr list \<Rightarrow> (IsaRegId_t \<Rightarrow> PhyRegId_t) \<Rightarrow> IsaRegId_t \<Rightarrow> PhyRegId_t" where
  "rn_sees h ps m = fold (\<lambda>p m. m(getIsaRd (h p) := getPhyRd (h p))) ps m"

definition rn_pops :: "inst_heap \<Rightarrow> inst_ptr list \<Rightarrow> nat" where
  "rn_pops h ps = length (filter (\<lambda>p. getIsaRd (h p) \<noteq> 0) ps)"

definition rn_given :: "Inst \<Rightarrow> (IsaRegId_t \<Rightarrow> PhyRegId_t) \<Rightarrow> PhyRegId_t \<Rightarrow> Inst" where
  "rn_given x m t = setPhyRd (if getIsaRd x = 0 then 0 else t) (setLPhyRd (m (getIsaRd x))
     (setPhyRs2 (m (getIsaRs2 x)) (setPhyRs1 (m (getIsaRs1 x)) x)))"

definition rn_registers :: "inst_ptr list \<Rightarrow> inst_heap \<Rightarrow> RenamingStage \<Rightarrow> inst_heap \<Rightarrow> RenamingStage \<Rightarrow> bool" where
  "rn_registers ps h s h' s' \<longleftrightarrow>
     (\<forall>i < length ps. h' (ps ! i) = rn_given (h (ps ! i)) (rn_sees h' (take i ps) (rt_spec (rn_renaming_table s)))
        (free_list (rn_free_list s) ! rn_pops h (take i ps)))
   \<and> rt_spec (rn_renaming_table s') = rn_sees h' ps (rt_spec (rn_renaming_table s))
   \<and> free_list (rn_free_list s') = drop (rn_pops h ps) (free_list (rn_free_list s))"

lemma rn_given_isa [simp]:
  "getIsaRd (rn_given x m t) = getIsaRd x" "getPhyRd (rn_given x m t) = (if getIsaRd x = 0 then 0 else t)"
  by (simp_all add: rn_given_def)

lemma RenameInstImp_registers:
  assumes inv: "rn_inv P s Q" and ne: "free_list (rn_free_list s) \<noteq> []" and regs: "rn_regs_ok h s p"
    and r: "RenameInstImp h s p = Inr (h1, s1)"
  defines "x \<equiv> rn_given (h p) (rt_spec (rn_renaming_table s)) (hd (free_list (rn_free_list s)))"
  shows "h1 = h(p := x)" "rt_spec (rn_renaming_table s1) = (rt_spec (rn_renaming_table s))(getIsaRd x := getPhyRd x)"
    "free_list (rn_free_list s1) = drop (rn_pops h [p]) (free_list (rn_free_list s))"
proof -
  let ?t = "rn_renaming_table s" and ?f = "rn_free_list s" and ?rd = "getIsaRd (h p)"
  have ahead: "rt.ahead ?t (rn_writes Q)" and z: "rt_spec ?t 0 = 0" using inv rn_inv_spec_zero by (auto simp: rn_inv_def)
  have gets: "rt_get ?t i = Inr (rt_spec ?t i)" if "rt_ok ?t i" for i
    using ahead that rt.lookup_ok by (auto simp: rt.ahead_def)
  have upd: "rt_spec t = (rt_spec ?t)(?rd := v)" if "rt_set ?t ?rd v = Inr t" for t v
    using that by (auto simp: rt_set_def rt_spec_def result_simps nth_list_update word_unat_eq_iff)
  have pop: "free_list f = tl (free_list ?f)" if "fl_Pop ?f = Inr f" for f
    using that ne by (cases "free_list ?f") (auto simp: fl_Pop_def result_simps)
  have fr: "fl_Front ?f = Inr (hd (free_list ?f))" using ne by (cases "free_list ?f") (simp_all add: fl_Front_def)
  have "h1 = h(p := x) \<and> rt_spec (rn_renaming_table s1) = (rt_spec ?t)(?rd := getPhyRd x)
    \<and> free_list (rn_free_list s1) = (if ?rd = 0 then free_list ?f else tl (free_list ?f))"
  proof (cases "?rd = 0")
    case True
    have "(rt_spec ?t)(0 := 0) = rt_spec ?t" using z by (rule fun_upd_idem)
    with True r regs gets fr z show ?thesis
      by (auto simp: RenameInstImp_def Let_def rn_regs_ok_def x_def rn_given_def on_inst_def bindE_eq_Inr)
  next
    case False
    with r regs gets fr obtain t f where "rt_set ?t ?rd (hd (free_list ?f)) = Inr t" "fl_Pop ?f = Inr f"
      "h1 = h(p := x)" "s1 = s\<lparr>rn_renaming_table := t, rn_free_list := f\<rparr>"
      by (auto simp: RenameInstImp_def Let_def rn_regs_ok_def x_def rn_given_def on_inst_def bindE_eq_Inr)
    with False upd pop show ?thesis by (simp add: x_def rn_given_def)
  qed
  then show "h1 = h(p := x)" "rt_spec (rn_renaming_table s1) = (rt_spec ?t)(getIsaRd x := getPhyRd x)"
    "free_list (rn_free_list s1) = drop (rn_pops h [p]) (free_list ?f)"
    by (simp_all add: x_def rn_given_def rn_pops_def drop_Suc)
qed

text \<open>One instruction in front of those the rest of the loop renames.\<close>

lemma rn_registers_Cons:
  assumes "rn_registers ps h1 s2 h' s'" "p \<notin> set ps" "free_list (rn_free_list s) \<noteq> []"
    and "h1 = h(p := rn_given (h p) (rt_spec (rn_renaming_table s)) (hd (free_list (rn_free_list s))))"
    and "rt_spec (rn_renaming_table s2) = (rt_spec (rn_renaming_table s))(getIsaRd (h1 p) := getPhyRd (h1 p))"
    and "free_list (rn_free_list s2) = drop (rn_pops h [p]) (free_list (rn_free_list s))" "h' p = h1 p"
  shows "rn_registers (p # ps) h s h' s'"
proof -
  have sees: "rn_sees h' (p # qs) (rt_spec (rn_renaming_table s)) = rn_sees h' qs (rt_spec (rn_renaming_table s2))" for qs
    by (simp only: rn_sees_def fold_simps assms(5,7))
  have out: "h1 q = h q" if "q \<in> set ps" for q using that assms(2,4) by auto
  have pops: "rn_pops h (p # take i ps) = rn_pops h [p] + rn_pops h1 (take i ps)" for i
  proof -
    have "filter (\<lambda>p. getIsaRd (h1 p) \<noteq> 0) (take i ps) = filter (\<lambda>p. getIsaRd (h p) \<noteq> 0) (take i ps)"
      using out by (intro filter_cong refl) (auto dest: in_set_takeD)
    then show ?thesis by (simp add: rn_pops_def)
  qed
  have "h' ((p # ps) ! i) = rn_given (h ((p # ps) ! i)) (rn_sees h' (take i (p # ps)) (rt_spec (rn_renaming_table s)))
      (free_list (rn_free_list s) ! rn_pops h (take i (p # ps)))" if "i < length (p # ps)" for i
  proof (cases i)
    case 0
    then show ?thesis using assms(3,4,7) by (simp add: rn_sees_def rn_pops_def hd_conv_nth)
  next
    case (Suc j)
    then have j: "j < length ps" using that by simp
    have "rn_pops h [p] \<le> 1" by (simp add: rn_pops_def)
    then have "drop (rn_pops h [p]) (free_list (rn_free_list s)) ! n = free_list (rn_free_list s) ! (rn_pops h [p] + n)" for n
      using assms(3) by (intro nth_drop) (cases "free_list (rn_free_list s)"; simp)
    with Suc j assms(1,6) out [of "ps ! j"] show ?thesis by (simp add: rn_registers_def sees pops del: free_list_def)
  qed
  moreover have "rt_spec (rn_renaming_table s') = rn_sees h' (p # ps) (rt_spec (rn_renaming_table s))"
    using assms(1) by (simp only: sees rn_registers_def)
  moreover have "free_list (rn_free_list s') = drop (rn_pops h (p # ps)) (free_list (rn_free_list s))"
    using assms(1,6) pops [of "length ps"] by (simp add: rn_registers_def add.commute)
  ultimately show ?thesis unfolding rn_registers_def by blast
qed

lemma RenameInst_loop_registers:
  assumes "rn_inv P s Q" "distinct (renaming_stage_queue s)" "\<forall>p \<in> set (renaming_stage_queue s). rn_regs_ok h s p"
    and "RenameInst_loop n h s g lg = Inr (h', s', g @ ps, lg')"
  shows "rn_registers ps h s h' s'"
  using assms
proof (induction n arbitrary: h s Q g lg ps)
  case 0
  then show ?case by (simp add: rn_registers_def rn_sees_def rn_pops_def)
next
  case (Suc n)
  show ?case
  proof (cases "renaming_stage_queue s = [] \<or> free_list (rn_free_list s) = []")
    case True
    with Suc.prems(4) show ?thesis by (auto simp: rn_registers_def rn_sees_def rn_pops_def fl_IsEmpty_def)
  next
    case False
    then obtain p qs where q: "renaming_stage_queue s = p # qs" and ne: "free_list (rn_free_list s) \<noteq> []"
      by (cases "renaming_stage_queue s") auto
    have rp: "rn_regs_ok h s p" using Suc.prems(3) q by simp
    from RenameInstImp_ok [OF Suc.prems(1) ne rp] obtain h1 s1 where r: "RenameInstImp h s p = Inr (h1, s1)"
        "rn_inv P s1 (Q @ [rn_entry_of h1 p])" "rt_ok (rn_renaming_table s1) = rt_ok (rn_renaming_table s)" by blast
    note reg = RenameInstImp_registers [OF Suc.prems(1) ne rp r(1)]
    from RenameInstImp_frame [OF r(1)] obtain t fl where fr: "s1 = s\<lparr>rn_renaming_table := t, rn_free_list := fl\<rparr>" by blast
    let ?s2 = "rn_after_one h1 s p s1"
    have q2: "renaming_stage_queue ?s2 = qs" using q by (simp add: fr)
    have pre: "rn_inv P ?s2 (Q @ [rn_entry_of h1 p])" "distinct (renaming_stage_queue ?s2)"
      using r(2) Suc.prems(2) q q2 rn_inv_cong [of ?s2 s1] by auto
    have regs: "\<forall>q \<in> set (renaming_stage_queue ?s2). rn_regs_ok h1 ?s2 q"
      using Suc.prems(2,3) q q2 r(3) by (auto simp: rn_regs_ok_def reg(1))
    have l: "RenameInst_loop n h1 ?s2 (g @ [p]) (if rn_is_mem h1 p then lg @ [p] else lg) = Inr (h', s', g @ ps, lg')"
      using Suc.prems(4) RenameInst_loop_Suc [OF q ne r(1), of n g lg] by simp
    with RenameInst_loop_ok [OF pre regs, of n "g @ [p]" "if rn_is_mem h1 p then lg @ [p] else lg"] obtain k where
      k: "ps = p # take k qs" "rn_loop_post P h1 ?s2 (Q @ [rn_entry_of h1 p]) n k h' s'" unfolding q2 by auto
    have p: "p \<notin> set (take k qs)" using Suc.prems(2) q by (auto dest: in_set_takeD)
    have "rn_registers (take k qs) h1 ?s2 h' s'"
      by (rule Suc.IH [OF pre regs, of "g @ [p]"]) (use l k(1) in simp)
    from rn_registers_Cons [OF this p ne reg(1)] reg k q2 p show ?thesis by (simp add: rn_loop_post_def)
  qed
qed

section \<open>Commit keeps the invariant\<close>

lemma rt_GetBackup_set_live:
  assumes "rt_wf t" "rt_ok t i" "rt_GetBackup_set t i v = Inr t'"
  shows "filter_mset (\<lambda>x. x \<noteq> 0) {#rt_base t i#} + mset (filter (\<lambda>x. x \<noteq> 0) (renaming_table_backup t'))
    = filter_mset (\<lambda>x. x \<noteq> 0) {#v#} + mset (filter (\<lambda>x. x \<noteq> 0) (renaming_table_backup t))"
    and "isa_reg_num t' = isa_reg_num t"
proof -
  let ?b = "renaming_table_backup t"
  have i: "unat i < length ?b" using assms by (simp add: rt_wf_def rt_ok_unat)
  have b: "renaming_table_backup t' = ?b[unat i := v]" and "isa_reg_num t' = isa_reg_num t"
    using assms(3) by (auto simp: rt_GetBackup_set_def result_simps)
  have "add_mset (rt_base t i) (mset (?b[unat i := v])) = add_mset v (mset ?b)"
    using i by (simp add: mset_update rt_base_def insert_DiffM)
  then have "filter_mset (\<lambda>x. x \<noteq> 0) (add_mset (rt_base t i) (mset (?b[unat i := v])))
    = filter_mset (\<lambda>x. x \<noteq> 0) (add_mset v (mset ?b))" by simp
  then show "filter_mset (\<lambda>x. x \<noteq> 0) {#rt_base t i#}
      + mset (filter (\<lambda>x. x \<noteq> 0) (renaming_table_backup t'))
    = filter_mset (\<lambda>x. x \<noteq> 0) {#v#} + mset (filter (\<lambda>x. x \<noteq> 0) ?b)"
    by (simp add: b split: if_splits)
  show "isa_reg_num t' = isa_reg_num t" by fact
qed

lemma rn_commit_pop:
  assumes "fl.owned f (rn_owned ((rd, prd, l) # Q))" "distinct (free_list_backup f)"
  shows "\<exists>f1. (if prd \<noteq> 0 then fl_BackupPop f else Inr f) = Inr f1 \<and> fl.owned f1 (rn_owned Q)
    \<and> mset (free_list_backup f) = mset (free_list_backup f1) + filter_mset (\<lambda>x. x \<noteq> 0) {#prd#}
    \<and> set (free_list_backup f1) \<subseteq> set (free_list_backup f) \<and> fl_valid f1 = fl_valid f"
proof (cases "prd = 0")
  case True
  with assms show ?thesis by (simp add: rn_owned_def)
next
  case False
  with assms have o: "fl.owned f (prd # rn_owned Q)" by (simp add: rn_owned_def)
  with fl.owned_commit [OF o assms(2)] obtain f1 where "fl_BackupPop f = Inr f1" "fl.owned f1 (rn_owned Q)"
    "free_list_backup f1 = rn_owned Q @ free_list f" "fl_valid f1 = fl_valid f" by blast
  with o False show ?thesis by (auto simp: fl.owned_def)
qed

lemma rn_commit_push:
  assumes "fl.owned f (rn_owned Q)" "l = 0 \<or> fl_valid f l \<and> l \<notin> set (free_list_backup f)"
  shows "\<exists>f1 effs1. (if l \<noteq> 0 then bindE (fl_Push f l) (\<lambda>fl. Inr (fl, effs @ [rename_event 1]))
      else Inr (f, effs)) = Inr (f1, effs1) \<and> fl.owned f1 (rn_owned Q)
    \<and> mset (free_list_backup f1) = mset (free_list_backup f) + filter_mset (\<lambda>x. x \<noteq> 0) {#l#}
    \<and> fl_valid f1 = fl_valid f"
proof (cases "l = 0")
  case False
  with assms fl.owned_release [of f "rn_owned Q" l] show ?thesis by auto
qed (use assms in simp)

lemma rn_RobCommit_one_ok:
  assumes inv: "rn_inv P s (rn_entry_of h p # Q)"
  shows "\<exists>t fl effs'. rn_RobCommit_one h (s, effs) p
      = Inr (s\<lparr>rn_free_list := fl, rn_renaming_table := t\<rparr>, effs')
    \<and> rn_inv P (s\<lparr>rn_free_list := fl, rn_renaming_table := t\<rparr>) Q
    \<and> rt_ok t = rt_ok (rn_renaming_table s)"
proof -
  let ?f = "rn_free_list s" and ?t = "rn_renaming_table s"
  obtain rd prd l where e: "rn_entry_of h p = (rd, prd, l)" by (cases "rn_entry_of h p")
  then have g: "getIsaRd (h p) = rd" "getPhyRd (h p) = prd" "getLPhyRd (h p) = l"
    by (simp_all add: rn_entry_of_def)
  have own: "fl.owned ?f (rn_owned ((rd, prd, l) # Q))"
    using inv unfolding e rn_inv_def by blast
  have ahead: "rt.ahead ?t ((rd, prd) # rn_writes Q)"
    and chain: "l = rt_base ?t rd" "rd = 0 \<longleftrightarrow> prd = 0" "rn_chain ((rt_base ?t)(rd := prd)) Q"
    and cons: "mset (free_list_backup ?f) + mset (rn_live s) = mset (fl_tokens P)"
    using inv by (simp_all add: e rn_inv_def rn_writes_def)
  have wf: "rt_wf ?t" "rt_ok ?t rd" and Qok: "\<forall>(i, v) \<in> set (rn_writes Q). rt_ok ?t i"
    using ahead by (auto simp: rt.ahead_def)
  have d: "distinct (free_list_backup ?f @ rn_live s)"
    "set (free_list_backup ?f) \<union> set (rn_live s) = {t. t \<noteq> 0 \<and> unat t < P}"
    using rn_inv_committed_distinct [OF inv] by auto
  from rn_commit_pop [OF own] d(1) obtain f1 where
    f1: "(if prd \<noteq> 0 then fl_BackupPop ?f else Inr ?f) = Inr f1" "fl.owned f1 (rn_owned Q)"
      "mset (free_list_backup ?f) = mset (free_list_backup f1) + filter_mset (\<lambda>x. x \<noteq> 0) {#prd#}"
      "set (free_list_backup f1) \<subseteq> set (free_list_backup ?f)" "fl_valid f1 = fl_valid ?f" by auto
  have "l = 0 \<or> l \<in> set (rn_live s)"
    using wf chain(1) by (auto simp: rn_live_def rt_base_def rt_wf_def rt_ok_unat)
  then have l: "l = 0 \<or> fl_valid f1 l \<and> l \<notin> set (free_list_backup f1)"
    using d f1(4,5) inv by (auto simp: rn_inv_def)
  from rn_commit_push [OF f1(2) l, of effs] obtain f2 effs2 where
    f2: "(if l \<noteq> 0 then bindE (fl_Push f1 l) (\<lambda>fl. Inr (fl, effs @ [rename_event 1])) else Inr (f1, effs))
        = Inr (f2, effs2)" "fl.owned f2 (rn_owned Q)"
      "mset (free_list_backup f2) = mset (free_list_backup f1) + filter_mset (\<lambda>x. x \<noteq> 0) {#l#}"
      "fl_valid f2 = fl_valid f1" by auto
  from rt.ahead_commit [OF ahead] obtain t where
    t: "rt_GetBackup_set ?t rd prd = Inr t" "rt.ahead t (rn_writes Q)" "rt_ok t = rt_ok ?t"
      "\<forall>j. rt_ok ?t j \<longrightarrow> rt_base t j = ((rt_base ?t)(rd := prd)) j" by blast
  note live = rt_GetBackup_set_live [OF wf t(1)]
  have "\<forall>(rd, w) \<in> set Q. rt_ok ?t rd" using Qok by (force simp: rn_writes_def)
  then have "rn_chain (rt_base t) Q"
    using rn_chain_cong [of Q "rt_ok ?t" "rt_base t"] t(4) chain(3) by blast
  moreover have "rt_base t 0 = 0"
    using t(4) inv chain(2) by (auto simp: rn_inv_def rt_ok_def)
  moreover have "mset (free_list_backup f2) + mset (filter (\<lambda>t. t \<noteq> 0) (renaming_table_backup t))
      = mset (fl_tokens P)"
    using live(1) f1(3) f2(3) cons chain(1) by (simp add: rn_live_def ac_simps)
  ultimately have "rn_inv P (s\<lparr>rn_free_list := f2, rn_renaming_table := t\<rparr>) Q"
    using inv f2 f1(5) t(2) live(2) by (simp add: rn_inv_def rn_live_def)
  moreover have "rn_RobCommit_one h (s, effs) p
      = Inr (s\<lparr>rn_free_list := f2, rn_renaming_table := t\<rparr>, effs2)"
    unfolding rn_RobCommit_one_def by (simp only: g f1(1) f2(1) t(1) bindE_Inr prod.case)
  ultimately show ?thesis using t(3) by blast
qed

lemma rn_RobCommit_ok:
  assumes "rn_inv P s (map (rn_entry_of h) g @ Q)"
  shows "\<exists>t fl effs'. foldE (rn_RobCommit_one h) (s, effs) g
      = Inr (s\<lparr>rn_free_list := fl, rn_renaming_table := t\<rparr>, effs')
    \<and> rn_inv P (s\<lparr>rn_free_list := fl, rn_renaming_table := t\<rparr>) Q
    \<and> rt_ok t = rt_ok (rn_renaming_table s)"
  using assms
proof (induction g arbitrary: s effs)
  case Nil
  then show ?case
    by (intro exI [of _ "rn_renaming_table s"] exI [of _ "rn_free_list s"]) simp
next
  case (Cons p g)
  then obtain t fl effs1 where "rn_RobCommit_one h (s, effs) p
      = Inr (s\<lparr>rn_free_list := fl, rn_renaming_table := t\<rparr>, effs1)"
    "rn_inv P (s\<lparr>rn_free_list := fl, rn_renaming_table := t\<rparr>) (map (rn_entry_of h) g @ Q)"
    "rt_ok t = rt_ok (rn_renaming_table s)"
    using rn_RobCommit_one_ok [of P s h p "map (rn_entry_of h) g @ Q" effs] by auto
  with Cons.IH [of "s\<lparr>rn_free_list := fl, rn_renaming_table := t\<rparr>" effs1] show ?case by auto
qed

section \<open>The stage as a transition system\<close>

text \<open>
  A step is one handler run by the scheduler. The store of instructions is any store at each step, so
  every change other units make is covered; a rename needs operand registers within the table, a
  commit names the oldest uncommitted instructions with the registers renaming gave them, and the
  frontend never sends an instruction that already waits.
\<close>

definition rn_sent :: "rn_effect list \<Rightarrow> inst_ptr list" where
  "rn_sent effs = concat (map (\<lambda>e. case e of renaming_following_inst_out g \<Rightarrow> g | _ \<Rightarrow> []) effs)"

inductive rn_step :: "RenamingStage \<times> rn_entry list \<Rightarrow> RenamingStage \<times> rn_entry list \<Rightarrow> bool" where
  rob_credit: "rn_AcceptRobCredit s c = (s', effs) \<Longrightarrow> rn_step (s, Q) (s', Q)"
| dispatch_credit: "rn_AcceptDispatchCredit s c = (s', effs) \<Longrightarrow> rn_step (s, Q) (s', Q)"
| ldq_credit: "rn_AcceptLoadQueueCredit s c = (s', effs) \<Longrightarrow> rn_step (s, Q) (s', Q)"
| stq_credit: "rn_AcceptStoreQueueCredit s c = (s', effs) \<Longrightarrow> rn_step (s, Q) (s', Q)"
| lsu_idx: "rn_AcceptLsuAllocateIdx s g = (s', effs) \<Longrightarrow> rn_step (s, Q) (s', Q)"
| allocate: "distinct (renaming_stage_queue s @ g) \<Longrightarrow> rn_AllocateInst s g = (s', effs) \<Longrightarrow>
    rn_step (s, Q) (s', Q)"
| rename: "\<forall>p \<in> set (renaming_stage_queue s). rn_regs_ok h s p \<Longrightarrow> RenameInst h s = Inr (h', s', effs) \<Longrightarrow>
    rn_step (s, Q) (s', Q @ map (rn_entry_of h') (rn_sent effs))"
| commit: "Q = map (rn_entry_of h) g @ Q' \<Longrightarrow> rn_RobCommit h s g = Inr (s', effs) \<Longrightarrow>
    rn_step (s, Q) (s', Q')"
| flush: "rn_HandleFlush s fc = (s', effs) \<Longrightarrow> rn_step (s, Q) (s', [])"

inductive rn_reach :: "RenamingParameter \<Rightarrow> RenamingStage \<times> rn_entry list \<Rightarrow> bool" for p where
  start: "mk_RenamingStage p = Inr s \<Longrightarrow> rn_reach p (s, [])"
| more: "rn_reach p c \<Longrightarrow> rn_step c c' \<Longrightarrow> rn_reach p c'"

inductive_cases rn_stepE: "rn_step (s, Q) c"

definition rn_good :: "RenamingParameter \<Rightarrow> RenamingStage \<times> rn_entry list \<Rightarrow> bool" where
  "rn_good p = (\<lambda>(s, Q). rn_inv (unat (rp_phy_reg_num p)) s Q \<and> distinct (renaming_stage_queue s))"

definition rn_params_ok :: "RenamingParameter \<Rightarrow> bool" where
  "rn_params_ok p \<longleftrightarrow> 0 < rp_phy_reg_num p \<and> (ucast (rp_isa_reg_num p) :: IsaRegId_t) \<noteq> 0"

lemma rn_AllocateInst_queue:
  "fst (rn_AllocateInst s g) = s\<lparr>renaming_stage_queue := renaming_stage_queue s @ g\<rparr>"
proof -
  have "fold (\<lambda>p s. s\<lparr>renaming_stage_queue := renaming_stage_queue s @ [p]\<rparr>) g s
      = s\<lparr>renaming_stage_queue := renaming_stage_queue s @ g\<rparr>"
    by (induction g arbitrary: s) auto
  then show ?thesis by (simp add: rn_AllocateInst_def)
qed

lemma rn_inv_init:
  assumes "rn_params_ok p"
  shows "\<exists>s. mk_RenamingStage p = Inr s \<and> rn_inv (unat (rp_phy_reg_num p)) s []
    \<and> renaming_stage_queue s = [] \<and> free_list (rn_free_list s) = fl_tokens (unat (rp_phy_reg_num p))
    \<and> rn_renaming_table s = mk_RenamingTable (ucast (rp_isa_reg_num p)) 0"
proof -
  let ?n = "ucast (rp_isa_reg_num p) :: IsaRegId_t"
  have n: "?n \<noteq> 0" and d: "0 < rp_phy_reg_num p" using assms by (simp_all add: rn_params_ok_def)
  from mk_Freelist_ok [OF d] obtain f where
    f: "mk_Freelist (rp_phy_reg_num p) = Inr f" "fl_wf f" "free_list f = fl_tokens (unat (rp_phy_reg_num p))"
      "free_list_backup f = fl_tokens (unat (rp_phy_reg_num p))"
      "\<forall>t. fl_valid f t \<longleftrightarrow> unat t < unat (rp_phy_reg_num p)" by auto
  have "unat (rp_phy_reg_num p) < 2 ^ 32" by (rule less_le_trans [OF unsigned_less]) simp
  moreover have "rt.ahead (mk_RenamingTable ?n 0) []"
    by (auto simp: rt.ahead_def mk_RenamingTable_ok rt.replay_Nil rt_spec_def rt_base_def rt_ok_unat)
  moreover have "rt_base (mk_RenamingTable ?n 0) 0 = 0"
    using n by (simp add: rt_base_def mk_RenamingTable_ok unat_gt_0)
  ultimately show ?thesis
    using f n by (simp add: mk_RenamingStage_def rn_inv_def fl.owned_def rn_owned_def rn_writes_def
        rn_live_def mk_RenamingTable_ok word_neq_0_conv)
qed

lemma rn_inv_flush:
  assumes "rn_inv P s Q"
  shows "rn_inv P (fst (rn_HandleFlush s fc)) []"
  using assms fl.owned_roll_back [of "rn_free_list s"] rt.ahead_restore [of "rn_renaming_table s"]
  by (auto simp: rn_inv_def rn_HandleFlush_def rn_FlushCredit_def Let_def rn_owned_def rn_writes_def
      rn_live_def rt_RollBack_def)

lemma rn_loop_post_0:
  assumes "rn_inv P s Q" "n = 0 \<or> renaming_stage_queue s = [] \<or> free_list (rn_free_list s) = []"
  shows "rn_loop_post P h s Q n 0 h s"
  using assms by (auto simp: rn_loop_post_def rn_debited_def rn_count_def)

lemma RenameInst_ok:
  assumes "rn_inv P s Q" "distinct (renaming_stage_queue s)"
    and "\<forall>p \<in> set (renaming_stage_queue s). rn_regs_ok h s p"
  shows "\<exists>k h' s' effs. RenameInst h s = Inr (h', s', effs)
    \<and> rn_sent effs = take k (renaming_stage_queue s)
    \<and> rn_loop_post P h s Q (unat (rn_produce_inst_num s)) k h' s'"
proof (cases "renaming_stage_queue s = [] \<or> free_list (rn_free_list s) = [] \<or> rn_produce_inst_num s = 0")
  case True
  with rn_loop_post_0 [OF assms(1), of _ h] show ?thesis
    by (intro exI [of _ 0] exI [of _ h] exI [of _ s])
      (auto simp: RenameInst_def rn_sent_def fl_IsEmpty_def Let_def)
next
  case False
  from RenameInst_loop_ok [OF assms, of "unat (rn_produce_inst_num s)" "[]" "[]"]
  obtain k h' s' where "RenameInst_loop (unat (rn_produce_inst_num s)) h s [] []
      = Inr (h', s', take k (renaming_stage_queue s), filter (rn_is_mem h) (take k (renaming_stage_queue s)))"
    "rn_loop_post P h s Q (unat (rn_produce_inst_num s)) k h' s'" by auto
  with False show ?thesis
    by (intro exI [of _ k] exI [of _ h'] exI [of _ s'])
      (auto simp: RenameInst_def rn_sent_def fl_IsEmpty_def Let_def)
qed

text \<open>A whole run: what it sends, and the credits it leaves.\<close>

definition rn_sends :: "RenamingStage \<Rightarrow> inst_heap \<Rightarrow> inst_ptr list \<Rightarrow> rn_effect list \<Rightarrow> bool" where
  "rn_sends s h ps effs \<longleftrightarrow>
     (\<forall>g. renaming_following_inst_out g \<in> set effs \<longleftrightarrow> ps \<noteq> [] \<and> g = ps)
   \<and> (\<forall>c. renaming_preceding_credit_out c \<in> set effs \<longleftrightarrow> ps \<noteq> [] \<and> c = word_of_nat (length ps))
   \<and> (\<forall>g. renaming_lsu_allocate_out g \<in> set effs
        \<longleftrightarrow> \<not> rn_is_perfect_lsu s \<and> g \<noteq> [] \<and> g = filter (rn_is_mem h) ps)"

lemma rn_produce_min:
  "unat (rn_produce_inst_num s) = Min ({unat (rn_issue_width s), unat (rn_dispatch_credit s), unat (rn_rob_credit s)}
     \<union> (if rn_is_perfect_lsu s then {} else {unat (rn_ldq_credit s), unat (rn_stq_credit s)}))"
proof -
  have m: "unat (min a b) = min (unat a) (unat b)" for a b :: u64 by (simp add: min_def word_le_nat_alt)
  show ?thesis by (cases "rn_is_perfect_lsu s") (simp_all add: rn_produce_inst_num_def Let_def m ac_simps)
qed

lemma rn_produce_le:
  "unat (rn_produce_inst_num s) \<le> unat (rn_dispatch_credit s)" "unat (rn_produce_inst_num s) \<le> unat (rn_rob_credit s)"
  "\<not> rn_is_perfect_lsu s \<Longrightarrow> unat (rn_produce_inst_num s) \<le> unat (rn_ldq_credit s)"
  "\<not> rn_is_perfect_lsu s \<Longrightarrow> unat (rn_produce_inst_num s) \<le> unat (rn_stq_credit s)"
  unfolding rn_produce_min by (auto simp: min_def)

lemma rn_debited_exact:
  assumes "rn_debited h s ps s'" "length ps \<le> unat (rn_produce_inst_num s)"
  shows "unat (rn_dispatch_credit s') + length ps = unat (rn_dispatch_credit s)"
    "unat (rn_rob_credit s') + length ps = unat (rn_rob_credit s)"
    "unat (rn_ldq_credit s') + (if rn_is_perfect_lsu s then 0 else rn_count h FT_LDU ps) = unat (rn_ldq_credit s)"
    "unat (rn_stq_credit s') + (if rn_is_perfect_lsu s then 0 else rn_count h FT_STU ps) = unat (rn_stq_credit s)"
proof -
  have c: "rn_count h ft ps \<le> length ps" for ft by (simp add: rn_count_def)
  note b = le_trans [OF assms(2)] le_trans [OF le_trans [OF c assms(2)]]
  show "unat (rn_dispatch_credit s') + length ps = unat (rn_dispatch_credit s)"
    "unat (rn_rob_credit s') + length ps = unat (rn_rob_credit s)"
    using assms(1) b(1) [OF rn_produce_le(1)] b(1) [OF rn_produce_le(2)] by (simp_all add: rn_debited_def unat_minus_of_nat)
  show "unat (rn_ldq_credit s') + (if rn_is_perfect_lsu s then 0 else rn_count h FT_LDU ps) = unat (rn_ldq_credit s)"
    "unat (rn_stq_credit s') + (if rn_is_perfect_lsu s then 0 else rn_count h FT_STU ps) = unat (rn_stq_credit s)"
    using assms(1) b(2) [OF rn_produce_le(3)] b(2) [OF rn_produce_le(4)] by (simp_all add: rn_debited_def unat_minus_of_nat)
qed

lemma RenameInst_run:
  assumes "rn_inv P s Q" "distinct (renaming_stage_queue s)" "\<forall>p \<in> set (renaming_stage_queue s). rn_regs_ok h s p"
    and "RenameInst h s = Inr (h', s', effs)"
  shows "\<exists>ps. ps = take (length ps) (renaming_stage_queue s) \<and> rn_registers ps h s h' s'
    \<and> rn_loop_post P h s Q (unat (rn_produce_inst_num s)) (length ps) h' s' \<and> rn_sends s h ps effs
    \<and> rn_sent effs = ps
    \<and> (free_list (rn_free_list s) = [] \<and> renaming_stage_queue s \<noteq> [] \<longrightarrow> rename_event 1 \<in> set effs)"
proof (cases "renaming_stage_queue s = [] \<or> free_list (rn_free_list s) = [] \<or> rn_produce_inst_num s = 0")
  case True
  with assms(4) have "h' = h" "s' = s" "effs = [] \<or> effs = [rename_event 1]"
      "free_list (rn_free_list s) = [] \<and> renaming_stage_queue s \<noteq> [] \<longrightarrow> effs = [rename_event 1]"
    by (auto simp: RenameInst_def fl_IsEmpty_def Let_def split: if_splits)
  with True rn_loop_post_0 [OF assms(1), of _ h] show ?thesis
    by (intro exI [of _ "[]"]) (auto simp: rn_registers_def rn_sees_def rn_pops_def rn_sends_def rn_sent_def)
next
  case False
  let ?n = "unat (rn_produce_inst_num s)"
  from RenameInst_loop_ok [OF assms(1-3), of ?n "[]" "[]"] obtain k h1 s1 where
    l: "RenameInst_loop ?n h s [] [] = Inr (h1, s1, [] @ take k (renaming_stage_queue s), [] @ filter (rn_is_mem h) (take k (renaming_stage_queue s)))"
      "rn_loop_post P h s Q ?n k h1 s1" by blast
  let ?ps = "take k (renaming_stage_queue s)"
  have k: "length ?ps = k" using l(2) by (simp add: rn_loop_post_def)
  have lsu: "rn_is_perfect_lsu s1 = rn_is_perfect_lsu s" using l(2) by (simp add: rn_loop_post_def rn_debited_def)
  let ?effs = "(if renaming_stage_queue s1 \<noteq> [] \<and> rn_whole_credit s1 > 0 then [rename_event 1] else [])
      @ (if ?ps \<noteq> [] then [renaming_preceding_credit_out (word_of_nat (length ?ps)), renaming_following_inst_out ?ps] else [])
      @ (if filter (rn_is_mem h) ?ps \<noteq> [] \<and> \<not> rn_is_perfect_lsu s1 then [renaming_lsu_allocate_out (filter (rn_is_mem h) ?ps)] else [])"
  have f: "(renaming_stage_queue s = []) = False" "fl_IsEmpty (rn_free_list s) = False" "(rn_produce_inst_num s = 0) = False"
    using False by (simp_all add: fl_IsEmpty_def)
  have "RenameInst h s = Inr (h1, s1, ?effs)"
    unfolding RenameInst_def Let_def f if_False l(1) [unfolded append_Nil] bindE_Inr prod.case by (rule refl)
  then have e: "h' = h1" "s' = s1" "effs = ?effs" using assms(4) by (simp_all only: sum.inject prod.inject)
  have "rn_registers ?ps h s h1 s1" by (rule RenameInst_loop_registers [OF assms(1-3) l(1)])
  moreover have "rn_sends s h ?ps effs" by (auto simp: rn_sends_def e(3) lsu)
  moreover have "rn_sent effs = ?ps" by (simp add: rn_sent_def e(3))
  ultimately show ?thesis using l(2) f(2) unfolding e(1,2) by (intro exI [of _ ?ps]) (simp only: k simp_thms fl_IsEmpty_def)
qed

lemma rn_good_step:
  assumes "rn_good p c" "rn_step c c'"
  shows "rn_good p c'"
  using assms(2,1)
proof (induction rule: rn_step.induct)
  case (allocate s g s' effs Q)
  then have "s' = s\<lparr>renaming_stage_queue := renaming_stage_queue s @ g\<rparr>"
    using rn_AllocateInst_queue [of s g] by simp
  with allocate rn_inv_cong [of s' s] show ?case by (simp add: rn_good_def)
next
  case (rename s h h' s' effs Q)
  with RenameInst_ok [of "unat (rp_phy_reg_num p)" s Q h] show ?case
    by (auto simp: rn_good_def rn_loop_post_def)
next
  case (commit Q h g Q' s s' effs)
  with rn_RobCommit_ok [of "unat (rp_phy_reg_num p)" s h g Q' "[]"] show ?case
    by (auto simp: rn_good_def rn_RobCommit_def)
next
  case (flush s fc s' effs Q)
  with rn_inv_flush [of "unat (rp_phy_reg_num p)" s Q fc] show ?case
    by (auto simp: rn_good_def rn_HandleFlush_def Let_def)
qed (auto simp: rn_good_def rn_AcceptRobCredit_def rn_AcceptDispatchCredit_def
    rn_AcceptLoadQueueCredit_def rn_AcceptStoreQueueCredit_def rn_AcceptLsuAllocateIdx_def)

lemma rn_reach_good:
  assumes "rn_reach p c" "rn_params_ok p"
  shows "rn_good p c"
  using assms
proof (induction rule: rn_reach.induct)
  case (start s)
  with rn_inv_init [of p] show ?case by (auto simp: rn_good_def)
next
  case (more c c')
  then show ?case using rn_good_step by blast
qed

section \<open>Properties\<close>

text \<open>
  (C2) In every reachable state of the renaming stage no handler can fail: renaming the waiting
  instructions (operands in range) and committing the oldest renamed ones both return, so no
  assertion of the pool or of the table fires and no register is released twice.
\<close>

theorem RenamingStage_never_fails:
  assumes "rn_params_ok p" "rn_reach p (s, Q)"
  shows "(\<forall>h. (\<forall>q \<in> set (renaming_stage_queue s). rn_regs_ok h s q) \<longrightarrow> (\<exists>r. RenameInst h s = Inr r))
    \<and> (\<forall>h g Q'. Q = map (rn_entry_of h) g @ Q' \<longrightarrow> (\<exists>r. rn_RobCommit h s g = Inr r))"
proof -
  have g: "rn_inv (unat (rp_phy_reg_num p)) s Q" "distinct (renaming_stage_queue s)"
    using rn_reach_good [OF assms(2,1)] by (simp_all add: rn_good_def)
  show ?thesis
    using RenameInst_ok [OF g] rn_RobCommit_ok [of "unat (rp_phy_reg_num p)" s] g(1)
    unfolding rn_RobCommit_def by blast
qed

definition rn_example :: RenamingParameter where
  "rn_example = \<lparr>rp_issue_width = 4, rp_isa_reg_num = 32, rp_queue_depth = 4, rp_phy_reg_num = 64,
     rp_is_perfect_lsu = True\<rparr>"

lemma rn_example_ok: "rn_params_ok rn_example"
  by (simp add: rn_params_ok_def rn_example_def)

lemma rn_example_reach:
  "\<exists>s. mk_RenamingStage rn_example = Inr s \<and> rn_reach rn_example (s, [])
     \<and> rn_reach rn_example (fst (rn_AllocateInst s [0, 1]), [])
     \<and> renaming_stage_queue (fst (rn_AllocateInst s [0, 1])) = [0, 1]
     \<and> rn_renaming_table (fst (rn_AllocateInst s [0, 1])) = mk_RenamingTable 32 0
     \<and> free_list (rn_free_list s) = fl_tokens 64"
proof -
  from rn_inv_init [OF rn_example_ok] obtain s where s: "mk_RenamingStage rn_example = Inr s"
    "renaming_stage_queue s = []" "free_list (rn_free_list s) = fl_tokens 64"
    "rn_renaming_table s = mk_RenamingTable 32 0" by (auto simp: rn_example_def)
  have r: "rn_reach rn_example (s, [])" using s(1) by (rule rn_reach.start)
  have "rn_step (s, []) (fst (rn_AllocateInst s [0, 1]), [])"
    by (rule rn_step.allocate [where g = "[0, 1]"]) (simp_all add: s rn_AllocateInst_def)
  with r have "rn_reach rn_example (fst (rn_AllocateInst s [0, 1]), [])" by (rule rn_reach.more)
  with s r show ?thesis by (simp add: rn_AllocateInst_queue)
qed

theorem RenamingStage_never_fails_witness:
  "\<exists>s. rn_reach rn_example (s, []) \<and> renaming_stage_queue s = [0, 1]
     \<and> (\<forall>h. IsaRs1 (info (h 0)) = 1 \<and> IsaRs2 (info (h 0)) = 2 \<and> IsaRd (info (h 0)) = 3
          \<and> IsaRs1 (info (h 1)) = 3 \<and> IsaRs2 (info (h 1)) = 3 \<and> IsaRd (info (h 1)) = 31
          \<longrightarrow> (\<exists>r. RenameInst h s = Inr r))"
proof -
  obtain s where s: "rn_reach rn_example (s, [])" "renaming_stage_queue s = [0, 1]"
    "rn_renaming_table s = mk_RenamingTable 32 0" using rn_example_reach by blast
  have "\<forall>i \<in> {1, 2, 3, 31}. rt_ok (mk_RenamingTable 32 0) i"
    by (simp add: rt_ok_def mk_RenamingTable_ok)
  with s RenamingStage_never_fails [OF rn_example_ok s(1)] show ?thesis
    by (intro exI [of _ s]) (auto simp: rn_regs_ok_def)
qed

text \<open>
  (C1) Register conservation. In every reachable state the free registers, the destinations of the
  in-flight instructions and the registers the committed map holds are pairwise distinct and are
  together exactly the registers 1 to \<open>phy_reg_num\<close> - 1; the speculative map is the committed map with
  the in-flight writes applied in order, and register 0 always maps to 0.
\<close>

theorem RenamingStage_register_conservation:
  assumes "rn_params_ok p" "rn_reach p (s, Q)"
  shows "distinct (rn_owned Q @ free_list (rn_free_list s) @ rn_live s)
    \<and> set (rn_owned Q @ free_list (rn_free_list s) @ rn_live s)
        = {t. t \<noteq> 0 \<and> unat t < unat (rp_phy_reg_num p)}
    \<and> (\<forall>r. rt_ok (rn_renaming_table s) r \<longrightarrow> rt_spec (rn_renaming_table s) r
        = fold (\<lambda>(rd, prd, lprd) m. m(rd := prd)) Q (rt_base (rn_renaming_table s)) r)
    \<and> rt_spec (rn_renaming_table s) 0 = 0"
proof -
  have inv: "rn_inv (unat (rp_phy_reg_num p)) s Q"
    using rn_reach_good [OF assms(2,1)] by (simp add: rn_good_def)
  have "rt.replay (rn_writes Q) m = fold (\<lambda>(rd, prd, lprd) m. m(rd := prd)) Q m" for m
    by (induction Q arbitrary: m) (auto simp: rt.replay_def rn_writes_def)
  with inv rn_inv_committed_distinct [OF inv] rn_inv_spec_zero [OF inv] show ?thesis
    by (auto simp: rn_inv_def fl.owned_def rt.ahead_def)
qed

theorem RenamingStage_register_conservation_witness:
  "\<exists>s. rn_reach rn_example (s, []) \<and> distinct (free_list (rn_free_list s) @ rn_live s)
     \<and> (\<forall>t. t \<in> set (free_list (rn_free_list s) @ rn_live s) \<longleftrightarrow> t \<noteq> 0 \<and> unat t < 64)"
proof -
  obtain s where s: "rn_reach rn_example (s, [])" using rn_example_reach by blast
  from RenamingStage_register_conservation [OF rn_example_ok s] s show ?thesis
    by (intro exI [of _ s]) (simp add: rn_owned_def rn_example_def set_eq_iff)
qed

text \<open>
  (C9) A flush restores the committed state: afterwards the speculative map equals the committed map,
  the free registers are all those the committed map does not hold, nothing waits, the credits of the
  dispatch stage, the reorder buffer and the two queues of the load-store unit are zero, and the whole queue depth
  is offered to the frontend again; the committed map and the committed pool are untouched.
\<close>

theorem RenamingStage_flush_restores_committed:
  assumes "rn_params_ok p" "rn_reach p (s, Q)" "rn_HandleFlush s fc = (s', effs)"
  shows "(\<forall>r. rt_ok (rn_renaming_table s) r \<longrightarrow>
            rt_spec (rn_renaming_table s') r = rt_base (rn_renaming_table s) r)
    \<and> set (free_list (rn_free_list s'))
        = {t. t \<noteq> 0 \<and> unat t < unat (rp_phy_reg_num p)} - set (rn_live s)
    \<and> rn_live s' = rn_live s \<and> renaming_stage_queue s' = []
    \<and> rn_dispatch_credit s' = 0 \<and> rn_rob_credit s' = 0 \<and> rn_ldq_credit s' = 0 \<and> rn_stq_credit s' = 0
    \<and> renaming_table_backup (rn_renaming_table s') = renaming_table_backup (rn_renaming_table s)
    \<and> free_list_backup (rn_free_list s') = free_list_backup (rn_free_list s)
    \<and> effs = [renaming_preceding_credit_out (renaming_stage_queue_depth s)]
    \<and> rn_reach p (s', [])"
proof -
  have inv: "rn_inv (unat (rp_phy_reg_num p)) s Q"
    using rn_reach_good [OF assms(2,1)] by (simp add: rn_good_def)
  have s': "s' = (rn_FlushCredit s)\<lparr>renaming_stage_queue := [],
      rn_free_list := fl_RollBack (rn_free_list s), rn_renaming_table := rt_RollBack (rn_renaming_table s)\<rparr>"
    and effs: "effs = [renaming_preceding_credit_out (renaming_stage_queue_depth s)]"
    using assms(3) by (auto simp: rn_HandleFlush_def Let_def rn_FlushCredit_def)
  have "set (free_list (rn_free_list s')) = {t. t \<noteq> 0 \<and> unat t < unat (rp_phy_reg_num p)} - set (rn_live s)"
    using rn_inv_committed_distinct [OF inv] by (auto simp: s' fl_RollBack_def)
  moreover have "rt.ahead (rn_renaming_table s) (rn_writes Q)" using inv by (simp add: rn_inv_def)
  moreover have "rn_live s' = rn_live s" by (simp add: s' rn_live_def rt_RollBack_def)
  moreover have "renaming_table_backup (rn_renaming_table s') = renaming_table_backup (rn_renaming_table s)"
    "free_list_backup (rn_free_list s') = free_list_backup (rn_free_list s)"
    by (simp_all add: s' rt_RollBack_def fl_RollBack_def)
  moreover have "rn_reach p (s', [])"
    using assms(2) rn_step.flush [OF assms(3)] by (rule rn_reach.more)
  ultimately show ?thesis using rt.ahead_restore effs by (auto simp: s' rn_FlushCredit_def)
qed

theorem RenamingStage_flush_restores_committed_witness:
  "\<exists>s. rn_reach rn_example (s, []) \<and> renaming_stage_queue s = [0, 1]
     \<and> renaming_stage_queue (fst (rn_HandleFlush s 0)) = []
     \<and> rn_reach rn_example (fst (rn_HandleFlush s 0), [])"
proof -
  obtain s where s: "rn_reach rn_example (s, [])" "renaming_stage_queue s = [0, 1]"
    using rn_example_reach by blast
  obtain s' effs where f: "rn_HandleFlush s 0 = (s', effs)" by (cases "rn_HandleFlush s 0")
  from RenamingStage_flush_restores_committed [OF rn_example_ok s(1) f] s f show ?thesis
    by (intro exI [of _ s]) simp
qed

text \<open>
  (C10) What one run of \<open>RenameInst_\<close> does in a reachable state. It renames a prefix of the waiting
  instructions, at most as many as the issue width and each credit allow (of the dispatch stage, the reorder buffer
  and, unless the load-store unit is perfect, its two queues), and stops earlier only when the queue or the pool is
  empty. In program order, each renamed instruction gets as sources and as displaced register what the speculative map
  says after the instructions before it, and as destination the next register of the pool, or 0 if it writes
  register 0; no other field and no other instruction changes. The map ends with all these writes and the pool without
  these registers. Exactly the prefix is sent on, and its length returned as credit; every credit drops by what was
  used, without wrapping below zero.
\<close>

theorem RenamingStage_rename_prefix:
  assumes "rn_params_ok p" "rn_reach p (s, Q)" "RenameInst h s = Inr (h', s', effs)"
    and "\<forall>q \<in> set (renaming_stage_queue s). rn_regs_ok h s q"
  shows "\<exists>ps limit. ps = take (length ps) (renaming_stage_queue s)
    \<and> renaming_stage_queue s' = drop (length ps) (renaming_stage_queue s)
    \<and> limit = Min ({unat (rn_issue_width s), unat (rn_dispatch_credit s), unat (rn_rob_credit s)}
        \<union> (if rn_is_perfect_lsu s then {} else {unat (rn_ldq_credit s), unat (rn_stq_credit s)}))
    \<and> length ps \<le> limit
    \<and> (length ps = limit \<or> renaming_stage_queue s' = [] \<or> free_list (rn_free_list s') = [])
    \<and> (\<forall>i < length ps. h' (ps ! i) = rn_given (h (ps ! i)) (rn_sees h' (take i ps) (rt_spec (rn_renaming_table s)))
          (free_list (rn_free_list s) ! rn_pops h (take i ps)))
    \<and> (\<forall>q. q \<notin> set ps \<longrightarrow> h' q = h q)
    \<and> rt_spec (rn_renaming_table s') = rn_sees h' ps (rt_spec (rn_renaming_table s))
    \<and> free_list (rn_free_list s') = drop (rn_pops h ps) (free_list (rn_free_list s))
    \<and> (\<forall>g. renaming_following_inst_out g \<in> set effs \<longleftrightarrow> ps \<noteq> [] \<and> g = ps)
    \<and> (\<forall>c. renaming_preceding_credit_out c \<in> set effs \<longleftrightarrow> ps \<noteq> [] \<and> c = word_of_nat (length ps))
    \<and> (\<forall>g. renaming_lsu_allocate_out g \<in> set effs
          \<longleftrightarrow> \<not> rn_is_perfect_lsu s \<and> g \<noteq> [] \<and> g = filter (rn_is_mem h) ps)
    \<and> unat (rn_dispatch_credit s') + length ps = unat (rn_dispatch_credit s)
    \<and> unat (rn_rob_credit s') + length ps = unat (rn_rob_credit s)
    \<and> unat (rn_ldq_credit s') + (if rn_is_perfect_lsu s then 0 else rn_count h FT_LDU ps) = unat (rn_ldq_credit s)
    \<and> unat (rn_stq_credit s') + (if rn_is_perfect_lsu s then 0 else rn_count h FT_STU ps) = unat (rn_stq_credit s)"
proof -
  have g: "rn_inv (unat (rp_phy_reg_num p)) s Q" "distinct (renaming_stage_queue s)"
    using rn_reach_good [OF assms(2,1)] by (simp_all add: rn_good_def)
  from RenameInst_run [OF g assms(4,3)] obtain ps where
    r: "ps = take (length ps) (renaming_stage_queue s)" "rn_registers ps h s h' s'"
      "rn_loop_post (unat (rp_phy_reg_num p)) h s Q (unat (rn_produce_inst_num s)) (length ps) h' s'" "rn_sends s h ps effs" by blast
  have le: "length ps \<le> unat (rn_produce_inst_num s)" "renaming_stage_queue s' = drop (length ps) (renaming_stage_queue s)"
      "length ps = unat (rn_produce_inst_num s) \<or> renaming_stage_queue s' = [] \<or> free_list (rn_free_list s') = []"
      "\<forall>q. q \<notin> set ps \<longrightarrow> h' q = h q" and deb: "rn_debited h s ps s'"
    using r(3) unfolding rn_loop_post_def r(1) [symmetric] by blast+
  note reg = r(2) [unfolded rn_registers_def, THEN conjunct1] r(2) [unfolded rn_registers_def, THEN conjunct2, THEN conjunct1]
    r(2) [unfolded rn_registers_def, THEN conjunct2, THEN conjunct2]
  note snd = r(4) [unfolded rn_sends_def, THEN conjunct1] r(4) [unfolded rn_sends_def, THEN conjunct2, THEN conjunct1]
    r(4) [unfolded rn_sends_def, THEN conjunct2, THEN conjunct2]
  show ?thesis
    by (intro exI [of _ ps] exI [of _ "unat (rn_produce_inst_num s)"] conjI rn_produce_min)
      (fact r(1) le reg snd rn_debited_exact [OF deb le(1)])+
qed

theorem RenamingStage_rename_prefix_witness:
  "\<exists>s h h' s' effs. rn_reach rn_example (s, []) \<and> renaming_stage_queue s = [0, 1]
     \<and> rn_dispatch_credit s = 1 \<and> rn_rob_credit s = 2 \<and> RenameInst h s = Inr (h', s', effs)
     \<and> renaming_following_inst_out [0] \<in> set effs \<and> getPhyRd (h' 0) = 1 \<and> getPhyRs1 (h' 0) = 0 \<and> h' 1 = h 1
     \<and> rn_dispatch_credit s' = 0 \<and> rn_rob_credit s' = 1"
proof -
  obtain s0 where s0: "mk_RenamingStage rn_example = Inr s0" "renaming_stage_queue s0 = []"
    "rn_renaming_table s0 = mk_RenamingTable 32 0" "free_list (rn_free_list s0) = fl_tokens 64"
    using rn_inv_init [OF rn_example_ok] by (auto simp: rn_example_def)
  let ?s1 = "fst (rn_AcceptDispatchCredit s0 1)"
  let ?s2 = "fst (rn_AcceptRobCredit ?s1 2)"
  let ?s = "fst (rn_AllocateInst ?s2 [0, 1])"
  have "rn_step (s0, []) (?s1, [])" "rn_step (?s1, []) (?s2, [])"
    by (rule rn_step.dispatch_credit rn_step.rob_credit,
        simp add: rn_AcceptDispatchCredit_def rn_AcceptRobCredit_def; fail)+
  moreover have "rn_step (?s2, []) (?s, [])"
    by (rule rn_step.allocate [where g = "[0, 1]"])
      (simp_all add: s0 rn_AllocateInst_def rn_AcceptDispatchCredit_def rn_AcceptRobCredit_def)
  ultimately have r: "rn_reach rn_example (?s, [])"
    using rn_reach.start [OF s0(1)] rn_reach.more by blast
  have q: "renaming_stage_queue ?s = [0, 1]" "rn_dispatch_credit ?s = 1" "rn_rob_credit ?s = 2"
      "rn_renaming_table ?s = mk_RenamingTable 32 0" "free_list (rn_free_list ?s) = fl_tokens 64"
      "rn_is_perfect_lsu ?s" "rn_issue_width ?s = 4"
    using s0 by (auto simp: rn_AllocateInst_queue rn_AcceptDispatchCredit_def rn_AcceptRobCredit_def
        mk_RenamingStage_def rn_example_def result_simps)
  define H :: inst_heap where "H = (\<lambda>_. setIsaRd 3 (mk_Inst undefined undefined undefined))"
  define S where "S = ?s"
  note q = q [folded S_def] and r = r [folded S_def]
  have regs: "\<forall>q \<in> set (renaming_stage_queue S). rn_regs_ok H S q"
    unfolding q rn_regs_ok_def by (simp add: H_def mk_Inst_def rt_ok_def mk_RenamingTable_ok)
  have "rn_inv (unat (rp_phy_reg_num rn_example)) S []" "distinct (renaming_stage_queue S)"
    using rn_reach_good [OF r rn_example_ok] by (simp_all add: rn_good_def)
  from RenameInst_ok [OF this regs] obtain h' s' effs where
    e: "RenameInst H S = Inr (h', s', effs)" by blast
  from RenamingStage_rename_prefix [OF rn_example_ok r e regs] obtain ps limit where
    p: "ps = take (length ps) (renaming_stage_queue S)" "renaming_stage_queue s' = drop (length ps) (renaming_stage_queue S)"
      "limit = Min ({unat (rn_issue_width S), unat (rn_dispatch_credit S), unat (rn_rob_credit S)}
        \<union> (if rn_is_perfect_lsu S then {} else {unat (rn_ldq_credit S), unat (rn_stq_credit S)}))" "length ps \<le> limit"
      "length ps = limit \<or> renaming_stage_queue s' = [] \<or> free_list (rn_free_list s') = []"
      "\<forall>i < length ps. h' (ps ! i) = rn_given (H (ps ! i)) (rn_sees h' (take i ps) (rt_spec (rn_renaming_table S)))
          (free_list (rn_free_list S) ! rn_pops H (take i ps))" "\<forall>q. q \<notin> set ps \<longrightarrow> h' q = H q"
      "free_list (rn_free_list s') = drop (rn_pops H ps) (free_list (rn_free_list S))"
      "\<forall>g. renaming_following_inst_out g \<in> set effs \<longleftrightarrow> ps \<noteq> [] \<and> g = ps"
      "unat (rn_dispatch_credit s') + length ps = unat (rn_dispatch_credit S)" "unat (rn_rob_credit s') + length ps = unat (rn_rob_credit S)"
    by (elim exE conjE) (rule that; assumption)
  note p = p [unfolded q]
  have lim: "limit = 1" using p(3) q(6) by simp
  have "rn_pops H ps \<le> 1" using le_trans [OF length_filter_le p(4)] lim by (simp add: rn_pops_def)
  then have "free_list (rn_free_list s') \<noteq> []" unfolding p(8) by (simp add: fl_tokens_def)
  then have "length ps = 1" using p(2,4,5) lim by auto
  then have ps: "ps = [0]" using p(1) by simp
  have "h' 0 = rn_given (H 0) (rt_spec (mk_RenamingTable 32 0)) (fl_tokens 64 ! 0)"
    using p(6) unfolding ps by (simp add: rn_sees_def rn_pops_def)
  then have "getPhyRd (h' 0) = 1" "getPhyRs1 (h' 0) = 0"
    by (simp_all add: H_def rn_given_def fl_tokens_def rt_spec_def mk_RenamingTable_def mk_Inst_def)
  moreover have "h' 1 = H 1" using p(7) ps by simp
  moreover have "renaming_following_inst_out [0] \<in> set effs" using p(9) ps by simp
  moreover have "rn_dispatch_credit s' = 0" "rn_rob_credit s' = 1" using p(10,11) ps by (simp_all add: word_unat_eq_iff)
  ultimately show ?thesis using r q(1-3) e by blast
qed

lemma RenameInst_loop_perfect_credits:
  assumes "RenameInst_loop n h s g lg = Inr (h', s', g', lg')" "rn_is_perfect_lsu s"
  shows "rn_is_perfect_lsu s' \<and> rn_ldq_credit s' = rn_ldq_credit s \<and> rn_stq_credit s' = rn_stq_credit s"
  using assms
proof (induction n arbitrary: h s g lg)
  case (Suc n)
  show ?case
  proof (cases "renaming_stage_queue s = [] \<or> fl_IsEmpty (rn_free_list s)")
    case True
    with Suc.prems show ?thesis by auto
  next
    case False
    then obtain p ps where q: "renaming_stage_queue s = p # ps" by (cases "renaming_stage_queue s") auto
    with Suc.prems(1) False obtain h1 s1 where r: "RenameInstImp h s p = Inr (h1, s1)"
      by (auto simp: result_simps)
    have ne: "free_list (rn_free_list s) \<noteq> []" using False by (simp add: fl_IsEmpty_def)
    from RenameInstImp_frame [OF r] obtain t fl where
      s1: "s1 = s\<lparr>rn_renaming_table := t, rn_free_list := fl\<rparr>" by blast
    have "rn_is_perfect_lsu (rn_after_one h1 s p s1)"
      "rn_ldq_credit (rn_after_one h1 s p s1) = rn_ldq_credit s"
      "rn_stq_credit (rn_after_one h1 s p s1) = rn_stq_credit s"
      using Suc.prems(2) by (simp_all add: s1 rn_after_one_def Let_def)
    with Suc.IH Suc.prems(1) RenameInst_loop_Suc [OF q ne r, of n g lg] show ?thesis by metis
  qed
qed simp

lemma RenameInst_by_loop:
  assumes "renaming_stage_queue s \<noteq> []" "\<not> fl_IsEmpty (rn_free_list s)"
    and "unat (rn_produce_inst_num s) = Suc n" "RenameInst_loop (Suc n) h s [] [] = Inr (h', s', g, lg)"
  shows "\<exists>effs. RenameInst h s = Inr (h', s', effs)"
proof -
  have "rn_produce_inst_num s \<noteq> 0" using assms(3) by auto
  with assms show ?thesis by (simp add: RenameInst_def Let_def)
qed

text \<open>
  With a perfect load-store unit nobody ever sends load or store queue credits, yet the test that
  reschedules the rename event takes the minimum over them too: a run that does rename never
  schedules the next one, even when instructions, registers and real credits are left.
\<close>

theorem RenamingStage_perfect_lsu_no_reschedule:
  assumes "rn_is_perfect_lsu s" "rn_ldq_credit s = 0" "\<not> fl_IsEmpty (rn_free_list s)"
    and "RenameInst h s = Inr (h', s', effs)"
  shows "rename_event n \<notin> set effs"
proof -
  consider "effs = []"
    | g lg where "RenameInst_loop (unat (rn_produce_inst_num s)) h s [] [] = Inr (h', s', g, lg)"
      "rename_event n \<in> set effs \<longrightarrow> rn_whole_credit s' > 0"
    using assms(3,4) by (auto simp: RenameInst_def Let_def result_simps split: if_splits)
  then show ?thesis
  proof cases
    case (2 g lg)
    from RenameInst_loop_perfect_credits [OF 2(1) assms(1)] assms(2)
    have "rn_whole_credit s' = 0" by (simp add: rn_whole_credit_def min_def)
    with 2(2) show ?thesis by auto
  qed simp
qed

theorem RenamingStage_perfect_lsu_no_reschedule_witness:
  "\<exists>s h' s' effs. rn_dispatch_credit s = 8 \<and> renaming_stage_queue s = [0, 1, 2, 3, 4, 5]
     \<and> RenameInst (\<lambda>_. mk_Inst undefined undefined undefined) s = Inr (h', s', effs)
     \<and> renaming_stage_queue s' = [4, 5] \<and> rn_dispatch_credit s' = 4 \<and> rename_event 1 \<notin> set effs"
proof -
  let ?s = "\<lparr>renaming_stage_queue = [0, 1, 2, 3, 4, 5],
      rn_free_list = \<lparr>free_list = [1], free_list_backup = [1], free_list_idx_vector = [0, 1],
        free_list_idx_vector_backup = [0, 1]\<rparr>,
      rn_renaming_table = mk_RenamingTable 2 0, rn_issue_width = 4, renaming_stage_queue_depth = 8,
      rn_is_perfect_lsu = True, physical_reg_credit = 2, rn_dispatch_credit = 8, rn_rob_credit = 8,
      rn_ldq_credit = 0, rn_stq_credit = 0\<rparr>"
  let ?h = "\<lambda>_ :: nat. mk_Inst undefined undefined undefined"
  have "\<exists>h' s' g lg. RenameInst_loop (Suc (Suc (Suc (Suc 0)))) ?h ?s [] [] = Inr (h', s', g, lg)
      \<and> renaming_stage_queue s' = [4, 5] \<and> rn_dispatch_credit s' = 4"
    by (simp add: Let_def fl_IsEmpty_def RenameInstImp_def rt_get_def mk_RenamingTable_def mk_Inst_def
        fl_Front_def on_inst_def del: on_inst_on_inst)
  moreover have "unat (rn_produce_inst_num ?s) = Suc (Suc (Suc (Suc 0)))"
    by (simp add: rn_produce_inst_num_def)
  moreover have "renaming_stage_queue ?s \<noteq> []" "\<not> fl_IsEmpty (rn_free_list ?s)"
    by (simp_all add: fl_IsEmpty_def)
  ultimately have "\<exists>h' s' effs. RenameInst ?h ?s = Inr (h', s', effs) \<and> renaming_stage_queue s' = [4, 5]
      \<and> rn_dispatch_credit s' = 4"
    using RenameInst_by_loop [of ?s] by metis
  then obtain h' s' effs where e: "RenameInst ?h ?s = Inr (h', s', effs)"
    "renaming_stage_queue s' = [4, 5]" "rn_dispatch_credit s' = 4" by blast
  from RenamingStage_perfect_lsu_no_reschedule [OF _ _ _ e(1), of 1] e show ?thesis
    by (intro exI [of _ ?s] exI [of _ h'] exI [of _ s'] exI [of _ effs]) (simp add: fl_IsEmpty_def)
qed

end
