(* ===== verification/Score_Board.thy ===== *)
theory Score_Board
  imports Inst_Types
begin

text \<open>
  \<open>core/abstract_backend/Scoreboard\<close>: one busy bit per physical register, set when an instruction that
  writes the register is dispatched and cleared when its result is written back. \<open>Flush\<close> counts in
  32 bits; the only caller passes a 32-bit size, so the count does not wrap.
\<close>

record Scoreboard =
  score_board :: "bool list"
  sb_phy_regfile_num :: PhyRegId_t

definition sb_Flush :: "Scoreboard \<Rightarrow> Scoreboard result" where
  "sb_Flush sb = foldE (\<lambda>sb i. bindE (vec_set (score_board sb) i False)
     (\<lambda>v. Inr (sb\<lparr>score_board := v\<rparr>))) sb [0..<unat (sb_phy_regfile_num sb)]"

definition mk_Scoreboard :: "PhyRegId_t \<Rightarrow> Scoreboard result" where
  "mk_Scoreboard n = sb_Flush \<lparr>score_board = replicate (unat n) False, sb_phy_regfile_num = n\<rparr>"

definition GetBusyBit :: "Scoreboard \<Rightarrow> PhyRegId_t \<Rightarrow> bool result" where
  "GetBusyBit sb i =
     bindE (assertE (i \<le> sb_phy_regfile_num sb) (SpartaAssert ''Scoreboard access is out of range''))
     (\<lambda>_. vec_get (score_board sb) (unat i))"

definition SetBusyBit :: "Scoreboard \<Rightarrow> PhyRegId_t \<Rightarrow> Scoreboard result" where
  "SetBusyBit sb i =
     (if i = 0 then Inr sb
      else bindE (assertE (i \<le> sb_phy_regfile_num sb) (SpartaAssert ''Scoreboard access is out of range''))
        (\<lambda>_. bindE (vec_set (score_board sb) (unat i) True) (\<lambda>v. Inr (sb\<lparr>score_board := v\<rparr>))))"

definition ClearBusyBit :: "Scoreboard \<Rightarrow> PhyRegId_t \<Rightarrow> Scoreboard result" where
  "ClearBusyBit sb i =
     (if i = 0 then Inr sb
      else bindE (assertE (i \<le> sb_phy_regfile_num sb) (SpartaAssert ''Scoreboard access is out of range''))
        (\<lambda>_. bindE (vec_set (score_board sb) (unat i) False) (\<lambda>v. Inr (sb\<lparr>score_board := v\<rparr>))))"

section \<open>The board as a set of busy registers\<close>

definition sb_wf :: "Scoreboard \<Rightarrow> bool" where
  "sb_wf sb \<longleftrightarrow> length (score_board sb) = unat (sb_phy_regfile_num sb)
     \<and> (score_board sb \<noteq> [] \<longrightarrow> \<not> score_board sb ! 0)"

definition sb_ok :: "Scoreboard \<Rightarrow> PhyRegId_t \<Rightarrow> bool" where
  "sb_ok sb i \<longleftrightarrow> i < sb_phy_regfile_num sb"

definition sb_busy :: "Scoreboard \<Rightarrow> PhyRegId_t set" where
  "sb_busy sb = {i. unat i < length (score_board sb) \<and> score_board sb ! unat i}"

lemma sb_ok_unat: "sb_ok sb i \<longleftrightarrow> unat i < unat (sb_phy_regfile_num sb)"
  by (simp add: sb_ok_def word_less_nat_alt)

lemma GetBusyBit_ok: "sb_wf sb \<Longrightarrow> sb_ok sb i \<Longrightarrow> GetBusyBit sb i = Inr (i \<in> sb_busy sb)"
  by (auto simp: GetBusyBit_def sb_wf_def sb_ok_unat word_le_nat_alt sb_busy_def)

lemma SetBusyBit_ok:
  assumes "sb_wf sb" "sb_ok sb i"
  shows "\<exists>sb'. SetBusyBit sb i = Inr sb' \<and> sb_wf sb' \<and> sb_busy sb' = sb_busy sb \<union> ({i} - {0})
    \<and> sb_phy_regfile_num sb' = sb_phy_regfile_num sb"
proof (cases "i = 0")
  case False
  then have "unat i \<noteq> 0" by (simp add: unat_eq_0)
  with assms False show ?thesis
    by (auto simp: SetBusyBit_def sb_wf_def sb_ok_unat word_le_nat_alt sb_busy_def nth_list_update
        unat_inj_iff)
qed (use assms in \<open>simp add: SetBusyBit_def\<close>)

lemma ClearBusyBit_ok:
  assumes "sb_wf sb" "sb_ok sb i"
  shows "\<exists>sb'. ClearBusyBit sb i = Inr sb' \<and> sb_wf sb' \<and> sb_busy sb' = sb_busy sb - {i}
    \<and> sb_phy_regfile_num sb' = sb_phy_regfile_num sb"
proof (cases "i = 0")
  case True
  have "0 \<notin> sb_busy sb" using assms(1) by (auto simp: sb_busy_def sb_wf_def)
  with True assms show ?thesis by (simp add: ClearBusyBit_def)
next
  case False
  then have "unat i \<noteq> 0" by (simp add: unat_eq_0)
  with assms False show ?thesis
    by (auto simp: ClearBusyBit_def sb_wf_def sb_ok_unat word_le_nat_alt sb_busy_def nth_list_update
        unat_inj_iff)
qed

lemma SetBusyBit_wf: "SetBusyBit sb i = Inr sb' \<Longrightarrow> sb_wf sb \<Longrightarrow> sb_wf sb'"
  by (auto simp: SetBusyBit_def sb_wf_def result_simps nth_list_update unat_eq_0 split: if_splits)

lemma ClearBusyBit_wf: "ClearBusyBit sb i = Inr sb' \<Longrightarrow> sb_wf sb \<Longrightarrow> sb_wf sb'"
  by (auto simp: ClearBusyBit_def sb_wf_def result_simps nth_list_update unat_eq_0 split: if_splits)

lemma sb_Flush_loop:
  assumes "k \<le> length (score_board sb)"
  shows "foldE (\<lambda>sb i. bindE (vec_set (score_board sb) i False)
     (\<lambda>v. Inr (sb\<lparr>score_board := v\<rparr>))) sb [0..<k]
   = Inr (sb\<lparr>score_board := replicate k False @ drop k (score_board sb)\<rparr>)"
  using assms
proof (induction k)
  case (Suc k)
  then have "(replicate k False @ drop k (score_board sb))[k := False]
      = replicate k False @ [False] @ drop (Suc k) (score_board sb)"
    by (simp add: list_update_append Cons_nth_drop_Suc [symmetric])
  with Suc show ?case by (simp add: foldE_snoc replicate_append_same [symmetric])
qed simp

lemma sb_Flush_ok:
  assumes "length (score_board sb) = unat (sb_phy_regfile_num sb)"
  shows "\<exists>sb'. sb_Flush sb = Inr sb' \<and> sb_wf sb' \<and> sb_busy sb' = {}
    \<and> sb_phy_regfile_num sb' = sb_phy_regfile_num sb"
  using assms sb_Flush_loop [of "unat (sb_phy_regfile_num sb)" sb]
  by (auto simp: sb_Flush_def sb_wf_def sb_busy_def)

lemma mk_Scoreboard_ok:
  "\<exists>sb. mk_Scoreboard n = Inr sb \<and> sb_wf sb \<and> sb_busy sb = {} \<and> sb_phy_regfile_num sb = n"
  using sb_Flush_ok [of "\<lparr>score_board = replicate (unat n) False, sb_phy_regfile_num = n\<rparr>"]
  by (simp add: mk_Scoreboard_def)

section \<open>Properties\<close>

text \<open>
  The board behaves as a set of busy registers that never contains register 0: on every register
  of the file, setting adds it, clearing removes it, and reading tells membership; flushing empties it.
\<close>

theorem Scoreboard_refines_set:
  assumes "sb_wf sb" "sb_ok sb i"
  shows "GetBusyBit sb i = Inr (i \<in> sb_busy sb) \<and> 0 \<notin> sb_busy sb
    \<and> (\<exists>sb'. SetBusyBit sb i = Inr sb' \<and> sb_wf sb' \<and> sb_busy sb' = sb_busy sb \<union> ({i} - {0}))
    \<and> (\<exists>sb'. ClearBusyBit sb i = Inr sb' \<and> sb_wf sb' \<and> sb_busy sb' = sb_busy sb - {i})
    \<and> (\<exists>sb'. sb_Flush sb = Inr sb' \<and> sb_wf sb' \<and> sb_busy sb' = {})"
proof -
  have "0 \<notin> sb_busy sb" using assms(1) by (auto simp: sb_busy_def sb_wf_def)
  moreover have "length (score_board sb) = unat (sb_phy_regfile_num sb)"
    using assms(1) by (simp add: sb_wf_def)
  ultimately show ?thesis
    using GetBusyBit_ok [OF assms] SetBusyBit_ok [OF assms] ClearBusyBit_ok [OF assms]
      sb_Flush_ok [of sb] by blast
qed

theorem Scoreboard_refines_set_witness:
  "GetBusyBit \<lparr>score_board = [False, True, False], sb_phy_regfile_num = 3\<rparr> 1 = Inr True
   \<and> (\<exists>sb'. ClearBusyBit \<lparr>score_board = [False, True, False], sb_phy_regfile_num = 3\<rparr> 1 = Inr sb'
        \<and> sb_wf sb' \<and> 1 \<notin> sb_busy sb')"
  using Scoreboard_refines_set [of "\<lparr>score_board = [False, True, False], sb_phy_regfile_num = 3\<rparr>" 1]
  by (auto simp: sb_wf_def sb_ok_def sb_busy_def)

end
