(* ===== verification/Global_Param.thy ===== *)
theory Global_Param
  imports Inst_Types
begin

text \<open>
  \<open>basic/GlobalParam\<close>: the machine-wide configuration. Two token streams separated by bars are parsed
  into the maps the dispatch stage and the write-back stage use: which functional types a following
  unit serves, and how many instructions it takes in a cycle.
\<close>

section \<open>Names of functional types\<close>

definition stringToFuncType :: "string \<Rightarrow> FuncType" where
  "stringToFuncType str =
     (if str = ''ALU'' then FT_ALU else if str = ''MUL'' then FT_MUL else if str = ''DIV'' then FT_DIV
      else if str = ''BRU'' then FT_BRU else if str = ''CSR'' then FT_CSR else if str = ''LDU'' then FT_LDU
      else if str = ''STU'' then FT_STU else if str = ''FPU'' then FT_FPU else FT_NO_TYPE)"

text \<open>The default branch returns a null pointer as a \<open>std::string\<close>, which has no meaning.\<close>

fun funcTypeToString :: "FuncType \<Rightarrow> string result" where
  "funcTypeToString FT_ALU = Inr ''ALU''"
| "funcTypeToString FT_MUL = Inr ''MUL''"
| "funcTypeToString FT_DIV = Inr ''DIV''"
| "funcTypeToString FT_BRU = Inr ''BRU''"
| "funcTypeToString FT_CSR = Inr ''CSR''"
| "funcTypeToString FT_LDU = Inr ''LDU''"
| "funcTypeToString FT_STU = Inr ''STU''"
| "funcTypeToString FT_FPU = Inr ''FPU''"
| "funcTypeToString FT_NO_TYPE = Inl (Undefined ''std::string from nullptr'')"
| "funcTypeToString FT_LAST = Inl (Undefined ''std::string from nullptr'')"

section \<open>atoi\<close>

text \<open>
  The C library's \<open>atoi\<close>: leading white space, an optional sign, the longest run of digits; no digits
  give 0 and a value outside \<open>int\<close> has no meaning.
\<close>

definition is_digit_char :: "char \<Rightarrow> bool" where
  "is_digit_char c \<longleftrightarrow> 48 \<le> (of_char c :: nat) \<and> (of_char c :: nat) \<le> 57"

definition is_space_char :: "char \<Rightarrow> bool" where
  "is_space_char c \<longleftrightarrow> (of_char c :: nat) = 32 \<or> 9 \<le> (of_char c :: nat) \<and> (of_char c :: nat) \<le> 13"

definition digits_value :: "string \<Rightarrow> int" where
  "digits_value ds = foldl (\<lambda>n d. 10 * n + (of_char d - 48)) 0 ds"

definition atoi_value :: "string \<Rightarrow> int" where
  "atoi_value str = (case dropWhile is_space_char str of
       [] \<Rightarrow> 0
     | c # cs \<Rightarrow> if c = CHR ''-'' then - digits_value (takeWhile is_digit_char cs)
                else if c = CHR ''+'' then digits_value (takeWhile is_digit_char cs)
                else digits_value (takeWhile is_digit_char (c # cs)))"

definition atoi :: "string \<Rightarrow> int result" where
  "atoi str = (let v = atoi_value str in
     if - (2 ^ 31) \<le> v \<and> v < 2 ^ 31 then Inr v else Inl (Undefined ''atoi overflow''))"

section \<open>The parsers\<close>

record GlobalParameter =
  gp_dispatch_map :: "string list"
  gp_write_back_map :: "string list"

type_synonym DispatchMap = "(string, FuncType set) smap"
type_synonym DispatchIssueWidthMap = "(string, u32) smap"
type_synonym WriteBackMap = "(string, u32) smap"

record GlobalParam =
  dispatch_following_map :: DispatchMap
  dispatch_issue_width_map :: DispatchIssueWidthMap
  write_back_map :: WriteBackMap

datatype parse_state = PS_NAME | PS_WIDTH | PS_FU_TYPE

record dispatch_parser =
  dp_state :: parse_state
  dp_func_types :: "FuncType set"
  dp_following_unit_name :: string
  dp_width :: u64
  dp_following_map :: DispatchMap
  dp_issue_width_map :: DispatchIssueWidthMap

definition dispatch_token :: "dispatch_parser \<Rightarrow> string \<Rightarrow> dispatch_parser result" where
  "dispatch_token d tok =
     (if tok = ''|'' then
        (case dp_state d of
           PS_NAME \<Rightarrow> Inr (d\<lparr>dp_state := PS_WIDTH\<rparr>)
         | PS_WIDTH \<Rightarrow> Inr (d\<lparr>dp_state := PS_FU_TYPE\<rparr>)
         | PS_FU_TYPE \<Rightarrow>
             Inr (d\<lparr>dp_following_map := smap_set (dp_following_unit_name d) (dp_func_types d) (dp_following_map d),
                    dp_issue_width_map :=
                      smap_set (dp_following_unit_name d) (ucast (dp_width d)) (dp_issue_width_map d),
                    dp_func_types := {}, dp_state := PS_NAME\<rparr>))
      else
        (case dp_state d of
           PS_NAME \<Rightarrow> Inr (d\<lparr>dp_following_unit_name := tok\<rparr>)
         | PS_WIDTH \<Rightarrow> bindE (atoi tok) (\<lambda>v. Inr (d\<lparr>dp_width := word_of_int v\<rparr>))
         | PS_FU_TYPE \<Rightarrow> Inr (d\<lparr>dp_func_types := insert (stringToFuncType tok) (dp_func_types d)\<rparr>)))"

definition dispatch_start :: "dispatch_parser" where
  "dispatch_start = \<lparr>dp_state = PS_NAME, dp_func_types = {}, dp_following_unit_name = [], dp_width = 0,
     dp_following_map = [], dp_issue_width_map = []\<rparr>"

definition ParseDispatchMap :: "GlobalParameter \<Rightarrow> (DispatchMap \<times> DispatchIssueWidthMap) result" where
  "ParseDispatchMap p = bindE (foldE dispatch_token dispatch_start (gp_dispatch_map p))
     (\<lambda>d. Inr (dp_following_map d, dp_issue_width_map d))"

record write_back_parser =
  wp_in_width :: bool
  wp_following_unit_name :: string
  wp_width :: u32
  wp_map :: WriteBackMap

definition write_back_token :: "write_back_parser \<Rightarrow> string \<Rightarrow> write_back_parser result" where
  "write_back_token d tok =
     (if tok = ''|'' then
        (if \<not> wp_in_width d then Inr (d\<lparr>wp_in_width := True\<rparr>)
         else Inr (d\<lparr>wp_map := smap_set (wp_following_unit_name d) (wp_width d) (wp_map d),
                     wp_in_width := False\<rparr>))
      else
        (if \<not> wp_in_width d then Inr (d\<lparr>wp_following_unit_name := tok\<rparr>)
         else bindE (atoi tok) (\<lambda>v. Inr (d\<lparr>wp_width := word_of_int v\<rparr>))))"

definition write_back_start :: "write_back_parser" where
  "write_back_start = \<lparr>wp_in_width = False, wp_following_unit_name = [], wp_width = 0, wp_map = []\<rparr>"

definition ParseWriteBackMap :: "GlobalParameter \<Rightarrow> WriteBackMap result" where
  "ParseWriteBackMap p = bindE (foldE write_back_token write_back_start (gp_write_back_map p))
     (\<lambda>d. Inr (wp_map d))"

definition mk_GlobalParam :: "GlobalParameter \<Rightarrow> GlobalParam result" where
  "mk_GlobalParam p = bindE (ParseDispatchMap p)
     (\<lambda>(dm, wm). bindE (ParseWriteBackMap p)
     (\<lambda>wb. Inr \<lparr>dispatch_following_map = dm, dispatch_issue_width_map = wm, write_back_map = wb\<rparr>))"

text \<open>
  \<open>getGlobalParams\<close> walks from a node of the device tree to the root. The tree is the framework's; the
  argument lists, from the node upwards, the resource of the child named \<open>global_param\<close> if there is one.
\<close>

fun getGlobalParams :: "GlobalParam option list \<Rightarrow> GlobalParam result" where
  "getGlobalParams [] = Inl (SpartaAssert ''Global param was not found'')"
| "getGlobalParams (Some g # _) = Inr g"
| "getGlobalParams (None # parents) = getGlobalParams parents"

section \<open>Both dispatch maps always have the same keys\<close>

lemma smap_set_keys_eq:
  "map fst m = map fst m' \<Longrightarrow> map fst (smap_set k v m) = map fst (smap_set k v' m')"
proof (induction m arbitrary: m')
  case Nil
  then show ?case by simp
next
  case (Cons kv m)
  obtain a b where kv: "kv = (a, b)" by (cases kv)
  with Cons.prems obtain b' m2 where m': "m' = (a, b') # m2" "map fst m = map fst m2"
    by (cases m') auto
  with Cons.IH [OF m'(2)] kv show ?case by simp
qed

definition dp_aligned :: "dispatch_parser \<Rightarrow> bool" where
  "dp_aligned d \<longleftrightarrow> map fst (dp_following_map d) = map fst (dp_issue_width_map d)
     \<and> smap_wf (dp_following_map d)"

lemma dp_aligned_token: "dp_aligned d \<Longrightarrow> dispatch_token d tok = Inr d' \<Longrightarrow> dp_aligned d'"
  by (auto simp: dp_aligned_def dispatch_token_def result_simps smap_set_keys_eq
      split: if_splits parse_state.splits)

lemma dp_aligned_tokens:
  "dp_aligned d \<Longrightarrow> foldE dispatch_token d toks = Inr d' \<Longrightarrow> dp_aligned d'"
  by (induction toks arbitrary: d) (auto simp: result_simps dest: dp_aligned_token)

lemma ParseDispatchMap_aligned:
  assumes "ParseDispatchMap p = Inr (dm, wm)"
  shows "map fst dm = map fst wm" "smap_wf dm" "smap_wf wm"
proof -
  have "dp_aligned dispatch_start" by (simp add: dp_aligned_def dispatch_start_def)
  then show "map fst dm = map fst wm" "smap_wf dm" "smap_wf wm"
    using assms dp_aligned_tokens [of dispatch_start "gp_dispatch_map p"]
    by (auto simp: ParseDispatchMap_def result_simps dp_aligned_def smap_wf_def)
qed

section \<open>Printing a configuration and parsing it back\<close>

text \<open>One following unit: its name, the text of its width, the names of the types it serves.\<close>

type_synonym dispatch_entry = "string \<times> string \<times> string list"

definition dispatch_tokens :: "dispatch_entry list \<Rightarrow> string list" where
  "dispatch_tokens es = concat (map (\<lambda>(n, w, fus). [n, ''|'', w, ''|''] @ fus @ [''|'']) es)"

definition dispatch_entry_ok :: "dispatch_entry \<Rightarrow> bool" where
  "dispatch_entry_ok = (\<lambda>(n, w, fus). n \<noteq> ''|'' \<and> w \<noteq> ''|'' \<and> ''|'' \<notin> set fus
     \<and> - (2 ^ 31) \<le> atoi_value w \<and> atoi_value w < 2 ^ 31)"

lemma dispatch_token_bar:
  "dp_state d = PS_NAME \<Longrightarrow> dispatch_token d ''|'' = Inr (d\<lparr>dp_state := PS_WIDTH\<rparr>)"
  "dp_state d = PS_WIDTH \<Longrightarrow> dispatch_token d ''|'' = Inr (d\<lparr>dp_state := PS_FU_TYPE\<rparr>)"
  "dp_state d = PS_FU_TYPE \<Longrightarrow> dispatch_token d ''|'' =
     Inr (d\<lparr>dp_following_map := smap_set (dp_following_unit_name d) (dp_func_types d) (dp_following_map d),
            dp_issue_width_map :=
              smap_set (dp_following_unit_name d) (ucast (dp_width d)) (dp_issue_width_map d),
            dp_func_types := {}, dp_state := PS_NAME\<rparr>)"
  by (simp_all add: dispatch_token_def)

lemma dispatch_token_word:
  "tok \<noteq> ''|'' \<Longrightarrow> dp_state d = PS_NAME \<Longrightarrow>
     dispatch_token d tok = Inr (d\<lparr>dp_following_unit_name := tok\<rparr>)"
  "tok \<noteq> ''|'' \<Longrightarrow> dp_state d = PS_WIDTH \<Longrightarrow>
     dispatch_token d tok = bindE (atoi tok) (\<lambda>v. Inr (d\<lparr>dp_width := word_of_int v\<rparr>))"
  "tok \<noteq> ''|'' \<Longrightarrow> dp_state d = PS_FU_TYPE \<Longrightarrow>
     dispatch_token d tok = Inr (d\<lparr>dp_func_types := insert (stringToFuncType tok) (dp_func_types d)\<rparr>)"
  by (simp_all add: dispatch_token_def)

lemmas dispatch_token_cases = dispatch_token_bar dispatch_token_word

lemma dispatch_types_tokens:
  assumes "''|'' \<notin> set fus" "dp_state d = PS_FU_TYPE"
  shows "foldE dispatch_token d fus
    = Inr (d\<lparr>dp_func_types := dp_func_types d \<union> stringToFuncType ` set fus\<rparr>)"
  using assms
proof (induction fus arbitrary: d)
  case (Cons fu fus)
  have "fu \<noteq> ''|''" using Cons.prems(1) by auto
  with Cons show ?case by (simp add: dispatch_token_cases)
qed simp

lemma dispatch_entry_tokens:
  assumes "dispatch_entry_ok (n, w, fus)" "dp_state d = PS_NAME" "dp_func_types d = {}"
  shows "foldE dispatch_token d ([n, ''|'', w, ''|''] @ fus @ [''|''])
    = Inr (d\<lparr>dp_following_unit_name := n, dp_width := word_of_int (atoi_value w),
        dp_following_map := smap_set n (stringToFuncType ` set fus) (dp_following_map d),
        dp_issue_width_map := smap_set n (word_of_int (atoi_value w)) (dp_issue_width_map d)\<rparr>)"
proof -
  let ?d = "d\<lparr>dp_following_unit_name := n, dp_width := word_of_int (atoi_value w),
      dp_state := PS_FU_TYPE\<rparr>"
  have w: "n \<noteq> ''|''" "w \<noteq> ''|''" "''|'' \<notin> set fus" "atoi w = Inr (atoi_value w)"
    using assms(1) by (auto simp: dispatch_entry_ok_def atoi_def)
  then have "foldE dispatch_token d [n, ''|'', w, ''|''] = Inr ?d"
    using assms(2) by (simp add: dispatch_token_cases)
  moreover have "foldE dispatch_token ?d (fus @ [''|''])
      = dispatch_token (?d\<lparr>dp_func_types := stringToFuncType ` set fus\<rparr>) ''|''"
    using dispatch_types_tokens [OF w(3), of ?d] assms(3) by (simp add: foldE_snoc)
  moreover have "(ucast (word_of_int v :: u64) :: u32) = word_of_int v" for v
    by (simp add: unsigned_of_int take_bit_int_eq_self_iff word_of_int_eq_iff)
  ultimately show ?thesis
    using assms(2,3) by (simp only: foldE_append bindE_Inr) (simp add: dispatch_token_cases)
qed

lemma dispatch_entries_tokens:
  assumes "\<forall>e \<in> set es. dispatch_entry_ok e" "dp_state d = PS_NAME" "dp_func_types d = {}"
  shows "\<exists>d'. foldE dispatch_token d (dispatch_tokens es) = Inr d'
    \<and> dp_state d' = PS_NAME \<and> dp_func_types d' = {}
    \<and> dp_following_map d' = fold (\<lambda>(n, w, fus). smap_set n (stringToFuncType ` set fus)) es (dp_following_map d)
    \<and> dp_issue_width_map d' = fold (\<lambda>(n, w, fus). smap_set n (word_of_int (atoi_value w))) es
        (dp_issue_width_map d)"
  using assms
proof (induction es arbitrary: d)
  case Nil
  then show ?case by (simp add: dispatch_tokens_def)
next
  case (Cons e es)
  obtain n w fus where e: "e = (n, w, fus)" by (cases e)
  let ?d = "d\<lparr>dp_following_unit_name := n, dp_width := word_of_int (atoi_value w),
        dp_following_map := smap_set n (stringToFuncType ` set fus) (dp_following_map d),
        dp_issue_width_map := smap_set n (word_of_int (atoi_value w)) (dp_issue_width_map d)\<rparr>"
  have t: "dispatch_tokens (e # es) = ([n, ''|'', w, ''|''] @ fus @ [''|'']) @ dispatch_tokens es"
    by (simp add: dispatch_tokens_def e)
  have "foldE dispatch_token d ([n, ''|'', w, ''|''] @ fus @ [''|'']) = Inr ?d"
    using Cons.prems by (intro dispatch_entry_tokens) (simp_all add: e)
  then have "foldE dispatch_token d (dispatch_tokens (e # es)) = foldE dispatch_token ?d (dispatch_tokens es)"
    unfolding t foldE_append by (simp only: bindE_Inr)
  with Cons.IH [of ?d] Cons.prems e show ?case by simp
qed

lemma map_of_fold_smap_set:
  assumes "distinct (map key es)" "smap_wf m"
  shows "map_of (fold (\<lambda>e. smap_set (key e) (val e)) es m) k
    = (case find (\<lambda>e. key e = k) es of None \<Rightarrow> map_of m k | Some e \<Rightarrow> Some (val e))"
  using assms
proof (induction es arbitrary: m)
  case (Cons e es)
  have "find (\<lambda>e. key e = k) es = None" if "key e = k"
    using Cons.prems(1) that by (auto simp: find_None_iff image_iff)
  with Cons show ?case by (auto split: option.splits)
qed simp

lemma find_key_of_mem:
  "distinct (map key es) \<Longrightarrow> e \<in> set es \<Longrightarrow> find (\<lambda>x. key x = key e) es = Some e"
  by (induction es) (auto simp: image_iff)

section \<open>Properties\<close>

text \<open>
  (C38) Printing a dispatch configuration as the token list the parameter takes and parsing it gives the
  configuration back: for entries with distinct names, no bar as a word and widths in \<open>int\<close> range, the
  parser succeeds, every unit maps to the set of its types and to its width, and no other unit appears.
\<close>

theorem ParseDispatchMap_roundtrip:
  assumes "\<forall>e \<in> set es. dispatch_entry_ok e" "distinct (map fst es)"
    and "gp_dispatch_map p = dispatch_tokens es"
  shows "\<exists>dm wm. ParseDispatchMap p = Inr (dm, wm)
    \<and> (\<forall>n w fus. (n, w, fus) \<in> set es \<longrightarrow> map_of dm n = Some (stringToFuncType ` set fus)
         \<and> map_of wm n = Some (word_of_int (atoi_value w)))
    \<and> set (map fst dm) = set (map fst es) \<and> map fst wm = map fst dm"
proof -
  let ?dm = "fold (\<lambda>e. smap_set (fst e) (stringToFuncType ` set (snd (snd e)))) es []"
  let ?wm = "fold (\<lambda>e. smap_set (fst e) (word_of_int (atoi_value (fst (snd e))))) es [] :: (string, u32) smap"
  have c: "(\<lambda>(n, w, fus). smap_set n (stringToFuncType ` set fus))
      = (\<lambda>e. smap_set (fst e) (stringToFuncType ` set (snd (snd e))))"
    "(\<lambda>(n, w, fus). smap_set n (word_of_int (atoi_value w) :: u32))
      = (\<lambda>e. smap_set (fst e) (word_of_int (atoi_value (fst (snd e)))))"
    by (auto simp: fun_eq_iff)
  from dispatch_entries_tokens [OF assms(1), of dispatch_start]
  have pr: "ParseDispatchMap p = Inr (?dm, ?wm)"
    by (auto simp: ParseDispatchMap_def assms(3) dispatch_start_def c)
  have "set (map fst (fold (\<lambda>e. smap_set (fst e) (f e)) es m)) = set (map fst es) \<union> set (map fst m)"
    for f :: "dispatch_entry \<Rightarrow> FuncType set" and m
    by (induction es arbitrary: m) (auto simp: fst_set_smap_set)
  then have "set (map fst ?dm) = set (map fst es)" by (simp del: set_map)
  moreover have "map_of ?dm n = Some (stringToFuncType ` set fus)
      \<and> map_of ?wm n = Some (word_of_int (atoi_value w))" if "(n, w, fus) \<in> set es" for n w fus
    using find_key_of_mem [OF assms(2) that] by (simp add: map_of_fold_smap_set [OF assms(2)])
  ultimately show ?thesis using pr ParseDispatchMap_aligned(1) [OF pr, symmetric]
    by (intro exI [of _ ?dm] exI [of _ ?wm] conjI) blast+
qed

theorem ParseDispatchMap_roundtrip_witness:
  "\<exists>dm wm. ParseDispatchMap \<lparr>gp_dispatch_map = [''rs'', ''|'', ''2'', ''|'', ''ALU'', ''MUL'', ''|''],
       gp_write_back_map = []\<rparr> = Inr (dm, wm)
     \<and> map_of dm ''rs'' = Some {FT_ALU, FT_MUL} \<and> map_of wm ''rs'' = Some 2"
  using ParseDispatchMap_roundtrip [of "[(''rs'', ''2'', [''ALU'', ''MUL''])]"
      "\<lparr>gp_dispatch_map = [''rs'', ''|'', ''2'', ''|'', ''ALU'', ''MUL'', ''|''], gp_write_back_map = []\<rparr>"]
  by (auto simp: dispatch_entry_ok_def dispatch_tokens_def stringToFuncType_def atoi_value_def
      digits_value_def is_digit_char_def is_space_char_def)

text \<open>
  The names of functional types round trip: a type that has a name is read back from it, a name
  that is read as a type other than \<open>NO_TYPE\<close> is the name of that type, and only \<open>NO_TYPE\<close> and \<open>LAST\<close>
  have no name (asking for it is undefined).
\<close>

theorem FuncType_name_roundtrip:
  "(case funcTypeToString t of Inr n \<Rightarrow> stringToFuncType n = t
      | Inl e \<Rightarrow> e = Undefined ''std::string from nullptr'' \<and> (t = FT_NO_TYPE \<or> t = FT_LAST))
   \<and> (stringToFuncType n = FT_NO_TYPE \<or> funcTypeToString (stringToFuncType n) = Inr n)"
  by (cases t) (auto simp: stringToFuncType_def)

end
