(* ===== verification/Dispatch_Stage.thy ===== *)
theory Dispatch_Stage
  imports Score_Board Global_Param Credit_Interface
begin

text \<open>
  \<open>core/abstract_backend/DispatchStage\<close>: the issue queue between renaming and the reservation
  stations. Each cycle every following unit, in the order of its name, takes the oldest unissued
  instructions it serves, as far as its credits and its width allow.
\<close>

section \<open>Parameters, state, output ports\<close>

record DispatchStageParameter =
  dsp_issue_width :: u64
  dsp_phy_reg_num :: u32
  dsp_queue_depth :: u32

record IssueQueueEntry =
  iq_inst_ptr :: inst_ptr
  iq_is_issued :: bool

record DispatchStage =
  ds_issue_num :: u64
  ds_credit_map :: "(string, Credit) smap"
  ds_scoreboard :: Scoreboard
  ds_inst_queue_depth :: u64
  ds_inst_queue :: "IssueQueueEntry list"
  ds_pending :: "(string, inst_ptr list) smap"

datatype ds_effect =
    dispatch_preceding_credit_out Credit
  | dispatch_physical_reg_read_out InstGroup
  | dispatch_rs_inst_out InstGroupPair
  | dispatch_select_events nat
  | dispatch_issue_events nat
  | dispatch_pop_events nat
  | dispatch_scoreboard_events nat
  | dispatch_get_operator_events nat

section \<open>Handlers\<close>

definition mk_DispatchStage :: "GlobalParam \<Rightarrow> DispatchStageParameter \<Rightarrow> DispatchStage result" where
  "mk_DispatchStage gp p =
     bindE (mk_Scoreboard (ucast (dsp_phy_reg_num p)))
     (\<lambda>sb. Inr \<lparr>ds_issue_num = dsp_issue_width p,
        ds_credit_map = fold (\<lambda>(n, fus). smap_set n 0) (dispatch_following_map gp) [],
        ds_scoreboard = sb, ds_inst_queue_depth = ucast (dsp_queue_depth p),
        ds_inst_queue = [], ds_pending = []\<rparr>)"

definition ds_AllocateInst_one :: "inst_heap \<Rightarrow> DispatchStage \<Rightarrow> inst_ptr \<Rightarrow> DispatchStage result" where
  "ds_AllocateInst_one h s p =
     bindE (if getRdType (h p) \<noteq> RT_NONE then SetBusyBit (ds_scoreboard s) (getPhyRd (h p))
            else Inr (ds_scoreboard s))
     (\<lambda>sb. Inr (s\<lparr>ds_scoreboard := sb,
        ds_inst_queue := ds_inst_queue s @ [\<lparr>iq_inst_ptr = p, iq_is_issued = False\<rparr>]\<rparr>))"

definition ds_AllocateInst ::
  "inst_heap \<Rightarrow> DispatchStage \<Rightarrow> InstGroup \<Rightarrow> (DispatchStage \<times> ds_effect list) result" where
  "ds_AllocateInst h s g =
     bindE (foldE (ds_AllocateInst_one h) s g)
     (\<lambda>s. Inr (s, [dispatch_select_events 0, dispatch_pop_events 0]))"

definition ds_ReadPhyReg :: "DispatchStage \<Rightarrow> ds_effect list" where
  "ds_ReadPhyReg s =
     [dispatch_physical_reg_read_out
        (fold (\<lambda>(n, ps) g. fold (\<lambda>p g. emplace_back g p) ps g) (ds_pending s) [])]"

definition ds_ReadFromPhysicalReg :: "DispatchStage \<Rightarrow> InstGroup \<Rightarrow> DispatchStage" where
  "ds_ReadFromPhysicalReg s g = s"

definition ds_CheckRegStatus :: "DispatchStage \<Rightarrow> DispatchStage" where
  "ds_CheckRegStatus s = s"

definition ds_FuncUnitBack :: "inst_heap \<Rightarrow> DispatchStage \<Rightarrow> InstGroup \<Rightarrow> DispatchStage result" where
  "ds_FuncUnitBack h s g =
     foldE (\<lambda>s p. if getPhyRd (h p) = 0 then Inr s
                  else bindE (ClearBusyBit (ds_scoreboard s) (getPhyRd (h p)))
                    (\<lambda>sb. Inr (s\<lparr>ds_scoreboard := sb\<rparr>))) s g"

definition CheckRegStatusImp :: "Scoreboard \<Rightarrow> inst_heap \<Rightarrow> inst_ptr \<Rightarrow> inst_heap result" where
  "CheckRegStatusImp sb h p =
     bindE (if getRs1Type (h p) \<noteq> RT_NONE
            then bindE (GetBusyBit sb (getPhyRs1 (h p)))
              (\<lambda>b. Inr (if b then on_inst p (setIsRs1Forward True) h else h))
            else Inr h)
     (\<lambda>h. if getRs2Type (h p) \<noteq> RT_NONE
            then bindE (GetBusyBit sb (getPhyRs2 (h p)))
              (\<lambda>b. Inr (if b then on_inst p (setIsRs2Forward True) h else h))
            else Inr h)"

text \<open>
  The loop over the issue queue for one following unit. The entries already passed are returned with
  their marks, a \<open>break\<close> keeps the rest. \<open>produce_max\<close> and \<open>produce_num\<close> are the two counters of the
  handler; nothing reads the first one.
\<close>

record select_state =
  sel_heap :: inst_heap
  sel_credit_map :: "(string, Credit) smap"
  sel_pending :: "(string, inst_ptr list) smap"
  sel_produce_max :: u64
  sel_produce_num :: u64

fun SelectInst_entries :: "Scoreboard \<Rightarrow> string \<Rightarrow> FuncType set \<Rightarrow> u32 \<Rightarrow> select_state
    \<Rightarrow> IssueQueueEntry list \<Rightarrow> (select_state \<times> IssueQueueEntry list) result" where
  "SelectInst_entries sb n fus width t [] = Inr (t, [])"
| "SelectInst_entries sb n fus width t (e # es) =
     bindE (smap_at (sel_credit_map t) n)
     (\<lambda>c. if c = 0 then Inr (t, e # es)
          else if width = 0 then Inr (t, e # es)
          else if iq_is_issued e \<or> getFuType (sel_heap t (iq_inst_ptr e)) \<notin> fus then
            bindE (SelectInst_entries sb n fus width t es) (\<lambda>(t', es'). Inr (t', e # es'))
          else
            bindE (CheckRegStatusImp sb (sel_heap t) (iq_inst_ptr e))
            (\<lambda>h. bindE (SelectInst_entries sb n fus (width - 1)
                 \<lparr>sel_heap = h, sel_credit_map = smap_set n (c - 1) (sel_credit_map t),
                  sel_pending = smap_set n (smap_get_default [] (sel_pending t) n @ [iq_inst_ptr e])
                    (sel_pending t),
                  sel_produce_max = sel_produce_max t - 1, sel_produce_num = sel_produce_num t + 1\<rparr> es)
            (\<lambda>(t', es'). Inr (t', e\<lparr>iq_is_issued := True\<rparr> # es'))))"

definition SelectInst_unit :: "GlobalParam \<Rightarrow> Scoreboard \<Rightarrow> select_state \<times> IssueQueueEntry list
    \<Rightarrow> string \<times> FuncType set \<Rightarrow> (select_state \<times> IssueQueueEntry list) result" where
  "SelectInst_unit gp sb = (\<lambda>(t, es) (n, fus).
     bindE (smap_at (dispatch_issue_width_map gp) n)
     (\<lambda>issue_width_per_pipe. bindE (smap_at (sel_credit_map t) n)
     (\<lambda>c. if c = 0 then Inr (t, es) else SelectInst_entries sb n fus issue_width_per_pipe t es)))"

definition SelectInst :: "GlobalParam \<Rightarrow> inst_heap \<Rightarrow> DispatchStage
    \<Rightarrow> (inst_heap \<times> DispatchStage \<times> ds_effect list) result" where
  "SelectInst gp h s =
     bindE (foldE (SelectInst_unit gp (ds_scoreboard s))
        (\<lparr>sel_heap = h, sel_credit_map = ds_credit_map s, sel_pending = ds_pending s,
          sel_produce_max = ds_issue_num s, sel_produce_num = 0\<rparr>, ds_inst_queue s)
        (dispatch_following_map gp))
     (\<lambda>(t, es). Inr (sel_heap t,
        s\<lparr>ds_credit_map := sel_credit_map t, ds_pending := sel_pending t, ds_inst_queue := es\<rparr>,
        (if sel_produce_num t \<noteq> 0 then [dispatch_preceding_credit_out (sel_produce_num t)] else [])
        @ [dispatch_get_operator_events 0, dispatch_scoreboard_events 0, dispatch_issue_events 0]))"

definition ds_HandleFlush :: "DispatchStage \<Rightarrow> FlushingCriteria \<Rightarrow> DispatchStage \<times> ds_effect list" where
  "ds_HandleFlush s fc =
     (s\<lparr>ds_credit_map := map (\<lambda>(n, c). (n, 0)) (ds_credit_map s), ds_inst_queue := []\<rparr>,
      [dispatch_preceding_credit_out (ds_inst_queue_depth s)])"

definition ds_InitCredit :: "DispatchStage \<Rightarrow> ds_effect list" where
  "ds_InitCredit s = [dispatch_preceding_credit_out (ds_inst_queue_depth s)]"

definition ds_IssueInst :: "DispatchStage \<Rightarrow> DispatchStage \<times> ds_effect list" where
  "ds_IssueInst s =
     (s\<lparr>ds_pending := []\<rparr>,
      map (\<lambda>(n, ps). dispatch_rs_inst_out
             (fold (\<lambda>p g. \<lparr>igp_name = n, igp_inst_group = igp_inst_group g @ [p]\<rparr>) ps
                \<lparr>igp_name = [], igp_inst_group = []\<rparr>)) (ds_pending s)
      @ (if ds_inst_queue s \<noteq> [] then [dispatch_select_events 1] else []))"

text \<open>
  \<open>PopIssueQueue_\<close> pops the front while walking the same deque. Popping invalidates the iterator the
  loop is about to increment; on every implementation in use the loop goes on with the next entry, and
  that is what is modelled: the issued entries at the front leave.
\<close>

definition ds_PopIssueQueue :: "DispatchStage \<Rightarrow> DispatchStage \<times> ds_effect list" where
  "ds_PopIssueQueue s =
     (let q = dropWhile iq_is_issued (ds_inst_queue s) in
      (s\<lparr>ds_inst_queue := q\<rparr>,
       if q \<noteq> [] then [dispatch_pop_events 1, dispatch_select_events 1] else []))"

definition ds_AcceptCredit :: "DispatchStage \<Rightarrow> CreditPair \<Rightarrow> DispatchStage result" where
  "ds_AcceptCredit s cp =
     bindE (smap_at (ds_credit_map s) (cp_name cp))
     (\<lambda>c. Inr (s\<lparr>ds_credit_map := smap_set (cp_name cp) (c + cp_credit cp) (ds_credit_map s)\<rparr>))"

section \<open>What a selection changes\<close>

definition waiting :: "IssueQueueEntry list \<Rightarrow> inst_ptr list" where
  "waiting es = map iq_inst_ptr (filter (\<lambda>e. \<not> iq_is_issued e) es)"

definition pend_all :: "(string, inst_ptr list) smap \<Rightarrow> inst_ptr list" where
  "pend_all m = concat (map snd m)"

definition fwd_frame :: "inst_heap \<Rightarrow> inst_heap \<Rightarrow> bool" where
  "fwd_frame h h' \<longleftrightarrow> (\<forall>p. \<exists>a b. h' p = setIsRs1Forward a (setIsRs2Forward b (h p)))"

definition ds_regs_ok :: "Scoreboard \<Rightarrow> inst_heap \<Rightarrow> inst_ptr \<Rightarrow> bool" where
  "ds_regs_ok sb h p \<longleftrightarrow> (getRs1Type (h p) \<noteq> RT_NONE \<longrightarrow> sb_ok sb (getPhyRs1 (h p)))
     \<and> (getRs2Type (h p) \<noteq> RT_NONE \<longrightarrow> sb_ok sb (getPhyRs2 (h p)))"

text \<open>
  The relation between the state before and after any part of the selection. It is reflexive and
  transitive, so one selected instruction is all there is to prove.
\<close>

definition select_rel :: "DispatchMap \<Rightarrow> select_state \<times> IssueQueueEntry list
    \<Rightarrow> select_state \<times> IssueQueueEntry list \<Rightarrow> bool" where
  "select_rel dm = (\<lambda>(t, es) (t', es').
     map iq_inst_ptr es' = map iq_inst_ptr es
   \<and> mset (pend_all (sel_pending t')) + mset (waiting es') = mset (pend_all (sel_pending t)) + mset (waiting es)
   \<and> (\<forall>n. unat (smap_get_default 0 (sel_credit_map t') n) + length (smap_get_default [] (sel_pending t') n)
        = unat (smap_get_default 0 (sel_credit_map t) n) + length (smap_get_default [] (sel_pending t) n))
   \<and> map fst (sel_credit_map t') = map fst (sel_credit_map t)
   \<and> sel_produce_num t' + word_of_nat (length (waiting es'))
        = sel_produce_num t + word_of_nat (length (waiting es))
   \<and> length (waiting es') \<le> length (waiting es)
   \<and> fwd_frame (sel_heap t) (sel_heap t')
   \<and> (\<forall>n p. p \<in> set (smap_get_default [] (sel_pending t') n) \<longrightarrow>
        p \<in> set (smap_get_default [] (sel_pending t) n)
        \<or> (\<exists>fus. (n, fus) \<in> set dm \<and> getFuType (sel_heap t p) \<in> fus)))"

definition sel_wf :: "select_state \<Rightarrow> bool" where
  "sel_wf t \<longleftrightarrow> smap_wf (sel_credit_map t) \<and> smap_wf (sel_pending t)"

lemma fwd_frame_refl [simp]: "fwd_frame h h"
  unfolding fwd_frame_def
proof
  fix p
  show "\<exists>a b. h p = setIsRs1Forward a (setIsRs2Forward b (h p))"
    by (intro exI [of _ "getIsRs1Forward (h p)"] exI [of _ "getIsRs2Forward (h p)"]) simp
qed

lemma fwd_frame_trans: "fwd_frame h h1 \<Longrightarrow> fwd_frame h1 h2 \<Longrightarrow> fwd_frame h h2"
  unfolding fwd_frame_def
proof
  fix p
  assume "\<forall>p. \<exists>a b. h1 p = setIsRs1Forward a (setIsRs2Forward b (h p))"
    and "\<forall>p. \<exists>a b. h2 p = setIsRs1Forward a (setIsRs2Forward b (h1 p))"
  then obtain a b c d where "h1 p = setIsRs1Forward a (setIsRs2Forward b (h p))"
    "h2 p = setIsRs1Forward c (setIsRs2Forward d (h1 p))" by meson
  then have "h2 p = setIsRs1Forward c (setIsRs2Forward d (h p))" by simp
  then show "\<exists>a b. h2 p = setIsRs1Forward a (setIsRs2Forward b (h p))" by blast
qed

lemma fwd_frame_keeps:
  assumes "fwd_frame h h'"
  shows "getFuType (h' p) = getFuType (h p)" "ds_regs_ok sb h' p = ds_regs_ok sb h p"
proof -
  obtain a b where "h' p = setIsRs1Forward a (setIsRs2Forward b (h p))"
    using assms unfolding fwd_frame_def by blast
  then show "getFuType (h' p) = getFuType (h p)" "ds_regs_ok sb h' p = ds_regs_ok sb h p"
    by (simp_all add: ds_regs_ok_def)
qed

lemma fwd_frame_set:
  "fwd_frame h (on_inst p (setIsRs1Forward v) h)" "fwd_frame h (on_inst p (setIsRs2Forward v) h)"
proof -
  have "\<exists>a b. on_inst p (setIsRs1Forward v) h q = setIsRs1Forward a (setIsRs2Forward b (h q))" for q
    by (intro exI [of _ "if q = p then v else getIsRs1Forward (h q)"] exI [of _ "getIsRs2Forward (h q)"])
      (simp add: on_inst_def)
  moreover have "\<exists>a b. on_inst p (setIsRs2Forward v) h q = setIsRs1Forward a (setIsRs2Forward b (h q))" for q
    by (intro exI [of _ "getIsRs1Forward (h q)"] exI [of _ "if q = p then v else getIsRs2Forward (h q)"])
      (simp add: on_inst_def)
  ultimately show "fwd_frame h (on_inst p (setIsRs1Forward v) h)" "fwd_frame h (on_inst p (setIsRs2Forward v) h)"
    by (simp_all add: fwd_frame_def)
qed

lemma CheckRegStatusImp_ok:
  assumes "sb_wf sb" "ds_regs_ok sb h p"
  shows "\<exists>h'. CheckRegStatusImp sb h p = Inr h' \<and> fwd_frame h h'"
proof -
  define h1 where "h1 = (if getRs1Type (h p) \<noteq> RT_NONE \<and> getPhyRs1 (h p) \<in> sb_busy sb
    then on_inst p (setIsRs1Forward True) h else h)"
  have f1: "fwd_frame h h1" by (simp add: h1_def fwd_frame_set)
  define h2 where "h2 = (if getRs2Type (h1 p) \<noteq> RT_NONE \<and> getPhyRs2 (h1 p) \<in> sb_busy sb
    then on_inst p (setIsRs2Forward True) h1 else h1)"
  have "fwd_frame h1 h2" by (simp add: h2_def fwd_frame_set)
  moreover have "ds_regs_ok sb h1 p" using fwd_frame_keeps(2) [OF f1] assms(2) by simp
  then have "CheckRegStatusImp sb h p = Inr h2"
    using assms by (auto simp: CheckRegStatusImp_def GetBusyBit_ok ds_regs_ok_def h1_def h2_def)
  ultimately show ?thesis using f1 fwd_frame_trans by blast
qed

lemma select_rel_refl: "select_rel dm x x"
  by (cases x) (simp add: select_rel_def)

lemma select_rel_trans:
  assumes "select_rel dm x y" "select_rel dm y z"
  shows "select_rel dm x z"
proof -
  obtain t es t1 es1 t2 es2 where [simp]: "x = (t, es)" "y = (t1, es1)" "z = (t2, es2)"
    by (cases x, cases y, cases z) auto
  have fr: "fwd_frame (sel_heap t) (sel_heap t1)" "fwd_frame (sel_heap t1) (sel_heap t2)"
    using assms by (simp_all add: select_rel_def)
  have "\<forall>n p. p \<in> set (smap_get_default [] (sel_pending t2) n) \<longrightarrow>
      p \<in> set (smap_get_default [] (sel_pending t) n)
      \<or> (\<exists>fus. (n, fus) \<in> set dm \<and> getFuType (sel_heap t p) \<in> fus)"
    using assms fwd_frame_keeps(1) [OF fr(1)] unfolding select_rel_def by fastforce
  with assms fwd_frame_trans [OF fr] show ?thesis
    unfolding select_rel_def by (simp only: prod.case \<open>x = _\<close> \<open>y = _\<close> \<open>z = _\<close>) simp
qed

lemma smap_get_default_set:
  "smap_wf m \<Longrightarrow> smap_get_default d (smap_set k v m) j = (if j = k then v else smap_get_default d m j)"
  by (simp add: smap_get_default_def)

lemma pend_all_snoc:
  assumes "smap_wf m"
  shows "mset (pend_all (smap_set n (smap_get_default [] m n @ [p]) m)) = add_mset p (mset (pend_all m))"
  using assms
proof (induction m)
  case Nil
  then show ?case by (simp add: pend_all_def smap_get_default_def)
next
  case (Cons kv m)
  obtain k v where kv: "kv = (k, v)" by (cases kv)
  have wf: "smap_wf m" and less: "\<And>j. j \<in> set (map fst m) \<Longrightarrow> k < j"
    using Cons.prems by (auto simp: kv smap_wf_def)
  have "map_of m n = None" if "n < k"
    using that less by (force simp: map_of_eq_None_iff)
  with Cons.IH [OF wf] show ?case
    by (auto simp: kv pend_all_def smap_get_default_def)
qed

lemma waiting_issue:
  "\<not> iq_is_issued e \<Longrightarrow> waiting (e # es) = iq_inst_ptr e # waiting es"
  "waiting (e\<lparr>iq_is_issued := True\<rparr> # es) = waiting es"
  by (simp_all add: waiting_def)

lemma select_rel_Cons:
  assumes "select_rel dm (t, es) (t', es')"
  shows "select_rel dm (t, e # es) (t', e # es')"
  using assms by (auto simp: select_rel_def waiting_def algebra_simps)

definition select_one :: "string \<Rightarrow> inst_heap \<Rightarrow> Credit \<Rightarrow> inst_ptr \<Rightarrow> select_state \<Rightarrow> select_state" where
  "select_one n h c p t =
     \<lparr>sel_heap = h, sel_credit_map = smap_set n (c - 1) (sel_credit_map t),
      sel_pending = smap_set n (smap_get_default [] (sel_pending t) n @ [p]) (sel_pending t),
      sel_produce_max = sel_produce_max t - 1, sel_produce_num = sel_produce_num t + 1\<rparr>"

lemma select_one_rel:
  assumes "sel_wf t" "map_of (sel_credit_map t) n = Some c" "c \<noteq> 0" "\<not> iq_is_issued e"
    and "(n, fus) \<in> set dm" "getFuType (sel_heap t (iq_inst_ptr e)) \<in> fus" "fwd_frame (sel_heap t) h"
  shows "sel_wf (select_one n h c (iq_inst_ptr e) t)
    \<and> select_rel dm (t, e # es) (select_one n h c (iq_inst_ptr e) t, e\<lparr>iq_is_issued := True\<rparr> # es)"
proof -
  have wf: "smap_wf (sel_credit_map t)" "smap_wf (sel_pending t)" using assms(1) by (simp_all add: sel_wf_def)
  have k: "n \<in> set (map fst (sel_credit_map t))"
    using assms(2) by (force dest: map_of_SomeD)
  have c: "unat (c - 1) + 1 = unat c"
    using assms(3) unat_minus_one_pos [of c] unat_gt_0 [of c] by simp
  have "smap_get_default 0 (sel_credit_map t) n = c" using assms(2) by (simp add: smap_get_default_def)
  then have "unat (smap_get_default 0 (sel_credit_map (select_one n h c (iq_inst_ptr e) t)) m)
      + length (smap_get_default [] (sel_pending (select_one n h c (iq_inst_ptr e) t)) m)
    = unat (smap_get_default 0 (sel_credit_map t) m) + length (smap_get_default [] (sel_pending t) m)" for m
    using wf c by (simp add: select_one_def smap_get_default_set)
  moreover have "map fst (sel_credit_map (select_one n h c (iq_inst_ptr e) t)) = map fst (sel_credit_map t)"
    using k wf(1) smap_set_keys_unchanged by (simp add: select_one_def)
  ultimately show ?thesis
    using assms wf pend_all_snoc [OF wf(2), of n "iq_inst_ptr e"]
    by (auto simp: select_rel_def select_one_def waiting_issue sel_wf_def smap_get_default_set
        split: if_splits)
qed

lemma SelectInst_entries_ok:
  assumes "sb_wf sb" "(n, fus) \<in> set dm" "sel_wf t" "n \<in> set (map fst (sel_credit_map t))"
    and "\<forall>e \<in> set es. ds_regs_ok sb (sel_heap t) (iq_inst_ptr e)"
  shows "\<exists>t' es'. SelectInst_entries sb n fus width t es = Inr (t', es') \<and> sel_wf t'
    \<and> select_rel dm (t, es) (t', es')
    \<and> length (smap_get_default [] (sel_pending t') n) \<le> length (smap_get_default [] (sel_pending t) n) + unat width
    \<and> (\<forall>m. m \<noteq> n \<longrightarrow> smap_get_default [] (sel_pending t') m = smap_get_default [] (sel_pending t) m)"
  using assms
proof (induction es arbitrary: t width)
  case Nil
  then show ?case by (simp add: select_rel_refl)
next
  case (Cons e es)
  obtain c where c: "map_of (sel_credit_map t) n = Some c"
    using Cons.prems(4) by (metis map_of_eq_None_iff not_Some_eq set_map)
  then have at: "smap_at (sel_credit_map t) n = Inr c" by (simp add: smap_at_def)
  consider "c = 0 \<or> width = 0" | "c \<noteq> 0" "width \<noteq> 0" "iq_is_issued e \<or> getFuType (sel_heap t (iq_inst_ptr e)) \<notin> fus"
    | "c \<noteq> 0" "width \<noteq> 0" "\<not> iq_is_issued e" "getFuType (sel_heap t (iq_inst_ptr e)) \<in> fus" by blast
  then show ?case
  proof cases
    case 1
    with at Cons.prems show ?thesis by (auto simp: select_rel_refl)
  next
    case 2
    with at Cons.IH [of t width] Cons.prems select_rel_Cons [of dm t es] show ?thesis by fastforce
  next
    case 3
    have "ds_regs_ok sb (sel_heap t) (iq_inst_ptr e)" using Cons.prems(5) by simp
    with CheckRegStatusImp_ok [OF Cons.prems(1)] obtain h where
      h: "CheckRegStatusImp sb (sel_heap t) (iq_inst_ptr e) = Inr h" "fwd_frame (sel_heap t) h" by blast
    let ?t = "select_one n h c (iq_inst_ptr e) t"
    have one: "sel_wf ?t" "select_rel dm (t, e # es) (?t, e\<lparr>iq_is_issued := True\<rparr> # es)"
      using select_one_rel [OF Cons.prems(3) c 3(1,3) Cons.prems(2) 3(4) h(2)] by auto
    have keys: "n \<in> set (map fst (sel_credit_map ?t))"
      using one(2) Cons.prems(4) by (simp add: select_rel_def del: set_map)
    have "\<forall>e \<in> set es. ds_regs_ok sb (sel_heap ?t) (iq_inst_ptr e)"
      using Cons.prems(5) fwd_frame_keeps(2) [OF h(2)] by (simp add: select_one_def)
    from Cons.IH [OF Cons.prems(1,2) one(1) keys this, of "width - 1"] obtain t' es' where
      r: "SelectInst_entries sb n fus (width - 1) ?t es = Inr (t', es')" "sel_wf t'"
        "select_rel dm (?t, es) (t', es')"
        "length (smap_get_default [] (sel_pending t') n)
          \<le> length (smap_get_default [] (sel_pending ?t) n) + unat (width - 1)"
        "\<forall>m. m \<noteq> n \<longrightarrow> smap_get_default [] (sel_pending t') m = smap_get_default [] (sel_pending ?t) m"
      by blast
    have "SelectInst_entries sb n fus width t (e # es) = Inr (t', e\<lparr>iq_is_issued := True\<rparr> # es')"
      using 3 at h(1) r(1) by (simp add: select_one_def)
    moreover have "select_rel dm (t, e # es) (t', e\<lparr>iq_is_issued := True\<rparr> # es')"
      using one(2) select_rel_Cons [OF r(3)] by (rule select_rel_trans)
    moreover have "unat (width - 1) + 1 = unat width"
      using 3(2) unat_minus_one_pos [of width] unat_gt_0 [of width] by simp
    moreover have "smap_wf (sel_pending t)" using Cons.prems(3) by (simp add: sel_wf_def)
    ultimately show ?thesis
      using r(2,4,5) by (simp add: select_one_def smap_get_default_set)
  qed
qed

text \<open>The width of a following unit, 0 for a name that is none.\<close>

definition unit_width :: "GlobalParam \<Rightarrow> string \<Rightarrow> nat" where
  "unit_width gp n = (case map_of (dispatch_issue_width_map gp) n of None \<Rightarrow> 0 | Some w \<Rightarrow> unat w)"

lemma select_rel_queue_regs:
  assumes "select_rel dm (t, es) (t', es')" "\<forall>e \<in> set es. ds_regs_ok sb (sel_heap t) (iq_inst_ptr e)"
  shows "\<forall>e \<in> set es'. ds_regs_ok sb (sel_heap t') (iq_inst_ptr e)"
proof
  fix e
  assume "e \<in> set es'"
  then have "iq_inst_ptr e \<in> set (map iq_inst_ptr es')" by simp
  also have "map iq_inst_ptr es' = map iq_inst_ptr es" using assms(1) by (simp add: select_rel_def)
  finally have "ds_regs_ok sb (sel_heap t) (iq_inst_ptr e)" using assms(2) by auto
  moreover have "fwd_frame (sel_heap t) (sel_heap t')" using assms(1) by (simp add: select_rel_def)
  ultimately show "ds_regs_ok sb (sel_heap t') (iq_inst_ptr e)" using fwd_frame_keeps(2) by blast
qed

lemma SelectInst_units_ok:
  assumes "sb_wf sb" "set dms \<subseteq> set dm" "distinct (map fst dms)" "sel_wf t"
    and "\<forall>n \<in> fst ` set dms. n \<in> set (map fst (sel_credit_map t)) \<and> n \<in> set (map fst (dispatch_issue_width_map gp))"
    and "\<forall>e \<in> set es. ds_regs_ok sb (sel_heap t) (iq_inst_ptr e)"
  shows "\<exists>t' es'. foldE (SelectInst_unit gp sb) (t, es) dms = Inr (t', es') \<and> sel_wf t'
    \<and> select_rel dm (t, es) (t', es')
    \<and> (\<forall>m. length (smap_get_default [] (sel_pending t') m) \<le> length (smap_get_default [] (sel_pending t) m)
        + (if m \<in> fst ` set dms then unit_width gp m else 0))"
  using assms
proof (induction dms arbitrary: t es)
  case Nil
  then show ?case by (simp add: select_rel_refl)
next
  case (Cons d dms)
  obtain n fus where d: "d = (n, fus)" by (cases d)
  obtain w where w: "map_of (dispatch_issue_width_map gp) n = Some w"
    using Cons.prems(5) d by (metis fst_conv image_eqI list.set_intros(1) map_of_eq_None_iff not_Some_eq set_map)
  obtain c where c: "map_of (sel_credit_map t) n = Some c"
    using Cons.prems(5) d by (metis fst_conv image_eqI list.set_intros(1) map_of_eq_None_iff not_Some_eq set_map)
  have ex: "\<exists>t1 es1. SelectInst_unit gp sb (t, es) d = Inr (t1, es1) \<and> sel_wf t1
    \<and> select_rel dm (t, es) (t1, es1)
    \<and> length (smap_get_default [] (sel_pending t1) n) \<le> length (smap_get_default [] (sel_pending t) n) + unit_width gp n
    \<and> (\<forall>m. m \<noteq> n \<longrightarrow> smap_get_default [] (sel_pending t1) m = smap_get_default [] (sel_pending t) m)"
  proof (cases "c = 0")
    case True
    with w c d Cons.prems(4) show ?thesis by (simp add: SelectInst_unit_def smap_at_def select_rel_refl)
  next
    case False
    have "(n, fus) \<in> set dm" "n \<in> set (map fst (sel_credit_map t))" using Cons.prems(2,5) d by auto
    from SelectInst_entries_ok [OF Cons.prems(1) this(1) Cons.prems(4) this(2) Cons.prems(6), of w]
    show ?thesis using False w c d by (simp add: SelectInst_unit_def smap_at_def unit_width_def)
  qed
  then obtain t1 es1 where r: "SelectInst_unit gp sb (t, es) d = Inr (t1, es1)" "sel_wf t1"
    "select_rel dm (t, es) (t1, es1)"
    "length (smap_get_default [] (sel_pending t1) n) \<le> length (smap_get_default [] (sel_pending t) n) + unit_width gp n"
    "\<forall>m. m \<noteq> n \<longrightarrow> smap_get_default [] (sel_pending t1) m = smap_get_default [] (sel_pending t) m"
    by blast
  have k: "map fst (sel_credit_map t1) = map fst (sel_credit_map t)"
    using r(3) by (simp add: select_rel_def)
  obtain t2 es2 where i: "foldE (SelectInst_unit gp sb) (t1, es1) dms = Inr (t2, es2)" "sel_wf t2"
    "select_rel dm (t1, es1) (t2, es2)"
    "\<forall>m. length (smap_get_default [] (sel_pending t2) m) \<le> length (smap_get_default [] (sel_pending t1) m)
        + (if m \<in> fst ` set dms then unit_width gp m else 0)"
    using Cons.IH [OF Cons.prems(1) _ _ r(2) _ select_rel_queue_regs [OF r(3) Cons.prems(6)]] Cons.prems k
    by auto
  have n: "n \<notin> fst ` set dms" using Cons.prems(3) by (simp add: d)
  have "length (smap_get_default [] (sel_pending t2) m) \<le> length (smap_get_default [] (sel_pending t) m)
      + (if m \<in> fst ` set (d # dms) then unit_width gp m else 0)" for m
    using i(4) [rule_format, of m] r(4,5) n by (cases "m = n") (auto simp: d)
  with r(1) i select_rel_trans [OF r(3) i(3)] show ?case by auto
qed

section \<open>The invariant of the stage\<close>

definition ds_maps :: "GlobalParam \<Rightarrow> (string, Credit) smap \<Rightarrow> bool" where
  "ds_maps gp cm \<longleftrightarrow> smap_wf cm \<and> smap_wf (dispatch_following_map gp)
     \<and> set (map fst cm) = set (map fst (dispatch_following_map gp))
     \<and> map fst (dispatch_following_map gp) = map fst (dispatch_issue_width_map gp)"

definition ds_wf :: "GlobalParam \<Rightarrow> DispatchStage \<Rightarrow> bool" where
  "ds_wf gp s \<longleftrightarrow> sb_wf (ds_scoreboard s) \<and> smap_wf (ds_pending s) \<and> ds_maps gp (ds_credit_map s)"

lemma ds_maps_same_keys: "map fst cm' = map fst cm \<Longrightarrow> ds_maps gp cm \<Longrightarrow> ds_maps gp cm'"
  unfolding ds_maps_def smap_wf_def by metis

lemma mk_DispatchStage_wf:
  assumes "mk_GlobalParam p = Inr gp" "mk_DispatchStage gp dp = Inr s"
  shows "ds_wf gp s \<and> ds_inst_queue s = [] \<and> ds_pending s = [] \<and> ds_inst_queue_depth s = ucast (dsp_queue_depth dp)"
proof -
  from assms(1) have "ParseDispatchMap p = Inr (dispatch_following_map gp, dispatch_issue_width_map gp)"
    by (auto simp: mk_GlobalParam_def result_simps)
  note al = ParseDispatchMap_aligned [OF this]
  have f: "smap_wf m \<Longrightarrow> smap_wf (fold (\<lambda>(n, fus). smap_set n 0) dm m)
      \<and> set (map fst (fold (\<lambda>(n, fus). smap_set n 0) dm m)) = set (map fst dm) \<union> set (map fst m)"
    for dm :: DispatchMap and m :: "(string, Credit) smap"
  proof (induction dm arbitrary: m)
    case (Cons d dm)
    obtain a b where d: "d = (a, b)" by (cases d)
    from Cons.IH [of "smap_set a 0 m"] Cons.prems show ?case by (simp add: d fst_set_smap_set)
  qed simp
  obtain sb where "mk_Scoreboard (ucast (dsp_phy_reg_num dp)) = Inr sb" "sb_wf sb"
    using mk_Scoreboard_ok by blast
  with assms(2) al f [of "[]" "dispatch_following_map gp"] show ?thesis
    by (clarsimp simp: mk_DispatchStage_def ds_wf_def ds_maps_def simp del: set_map)
qed

definition ds_sent_credit :: "ds_effect list \<Rightarrow> u64" where
  "ds_sent_credit effs =
     sum_list (map (\<lambda>e. case e of dispatch_preceding_credit_out c \<Rightarrow> c | _ \<Rightarrow> 0) effs)"

definition sel_of :: "inst_heap \<Rightarrow> DispatchStage \<Rightarrow> u64 \<Rightarrow> select_state" where
  "sel_of h s n = \<lparr>sel_heap = h, sel_credit_map = ds_credit_map s, sel_pending = ds_pending s,
     sel_produce_max = ds_issue_num s, sel_produce_num = n\<rparr>"

lemma SelectInst_ok:
  assumes "ds_wf gp s" "\<forall>e \<in> set (ds_inst_queue s). ds_regs_ok (ds_scoreboard s) h (iq_inst_ptr e)"
  shows "\<exists>h' s' effs. SelectInst gp h s = Inr (h', s', effs) \<and> ds_wf gp s'
    \<and> select_rel (dispatch_following_map gp) (sel_of h s 0, ds_inst_queue s)
        (sel_of h' s' (ds_sent_credit effs), ds_inst_queue s')
    \<and> (\<forall>m. length (smap_get_default [] (ds_pending s') m)
          \<le> length (smap_get_default [] (ds_pending s) m) + unit_width gp m)
    \<and> ds_inst_queue_depth s' = ds_inst_queue_depth s \<and> ds_scoreboard s' = ds_scoreboard s"
proof -
  let ?dm = "dispatch_following_map gp"
  have wf: "sel_wf (sel_of h s 0)" using assms(1) by (simp add: ds_wf_def ds_maps_def sel_wf_def sel_of_def)
  have keys: "\<forall>n \<in> fst ` set ?dm. n \<in> set (map fst (sel_credit_map (sel_of h s 0)))
      \<and> n \<in> set (map fst (dispatch_issue_width_map gp))"
  proof -
    have "map fst ?dm = map fst (dispatch_issue_width_map gp)"
      and "set (map fst (ds_credit_map s)) = set (map fst ?dm)"
      using assms(1) unfolding ds_wf_def ds_maps_def by blast+
    then have "fst ` set ?dm = set (map fst (dispatch_issue_width_map gp))"
      and "fst ` set ?dm = set (map fst (ds_credit_map s))" by (metis set_map)+
    then show ?thesis by (simp add: sel_of_def)
  qed
  have "distinct (map fst ?dm)"
    by (rule smap_wf_distinct) (use assms(1) in \<open>simp add: ds_wf_def ds_maps_def\<close>)
  from SelectInst_units_ok [OF _ subset_refl this wf keys, of "ds_scoreboard s" "ds_inst_queue s"] assms
  obtain t es where r: "foldE (SelectInst_unit gp (ds_scoreboard s)) (sel_of h s 0, ds_inst_queue s) ?dm = Inr (t, es)"
    "sel_wf t" "select_rel ?dm (sel_of h s 0, ds_inst_queue s) (t, es)"
    "\<forall>m. length (smap_get_default [] (sel_pending t) m) \<le> length (smap_get_default [] (sel_pending (sel_of h s 0)) m)
        + (if m \<in> fst ` set ?dm then unit_width gp m else 0)"
    by (auto simp: ds_wf_def sel_of_def)
  let ?s = "s\<lparr>ds_credit_map := sel_credit_map t, ds_pending := sel_pending t, ds_inst_queue := es\<rparr>"
  let ?e = "(if sel_produce_num t \<noteq> 0 then [dispatch_preceding_credit_out (sel_produce_num t)] else [])
      @ [dispatch_get_operator_events 0, dispatch_scoreboard_events 0, dispatch_issue_events 0]"
  have "SelectInst gp h s = Inr (sel_heap t, ?s, ?e)"
    using r(1) by (simp add: SelectInst_def sel_of_def)
  moreover have "select_rel ?dm (sel_of h s 0, ds_inst_queue s) (sel_of (sel_heap t) ?s (ds_sent_credit ?e), es)"
  proof -
    have "ds_sent_credit ?e = sel_produce_num t" by (simp add: ds_sent_credit_def)
    with r(3) show ?thesis by (simp add: select_rel_def sel_of_def)
  qed
  moreover have "ds_wf gp ?s"
    using assms(1) r(2,3) ds_maps_same_keys [of "sel_credit_map t" "ds_credit_map s" gp]
    by (simp add: ds_wf_def sel_wf_def select_rel_def sel_of_def)
  moreover have "length (smap_get_default [] (ds_pending ?s) m)
      \<le> length (smap_get_default [] (ds_pending s) m) + unit_width gp m" for m
  proof -
    have "length (smap_get_default [] (sel_pending t) m) \<le> length (smap_get_default [] (ds_pending s) m)
        + (if m \<in> fst ` set ?dm then unit_width gp m else 0)"
      using r(4) by (simp add: sel_of_def)
    also have "\<dots> \<le> length (smap_get_default [] (ds_pending s) m) + unit_width gp m" by simp
    finally show ?thesis by simp
  qed
  ultimately show ?thesis by auto
qed

section \<open>The credit contract with the renaming stage\<close>

inductive ds_step :: "GlobalParam \<Rightarrow> DispatchStage \<Rightarrow> credit_event \<Rightarrow> DispatchStage \<Rightarrow> bool" for gp where
  ds_allocate: "ds_AllocateInst h s g = Inr (s', effs) \<Longrightarrow> ds_step gp s (Received (length g)) s'"
| ds_select: "\<forall>e \<in> set (ds_inst_queue s). ds_regs_ok (ds_scoreboard s) h (iq_inst_ptr e) \<Longrightarrow>
    SelectInst gp h s = Inr (h', s', effs) \<Longrightarrow> ds_step gp s (Returned (unat (ds_sent_credit effs))) s'"
| ds_issue: "ds_IssueInst s = (s', effs) \<Longrightarrow> ds_step gp s (Returned 0) s'"
| ds_pop: "ds_PopIssueQueue s = (s', effs) \<Longrightarrow> ds_step gp s (Returned 0) s'"
| ds_credit: "ds_AcceptCredit s cp = Inr s' \<Longrightarrow> ds_step gp s (Returned 0) s'"
| ds_back: "ds_FuncUnitBack h s g = Inr s' \<Longrightarrow> ds_step gp s (Returned 0) s'"
| ds_flush: "ds_HandleFlush s fc = (s', effs) \<Longrightarrow> ds_step gp s (Flushed (unat (ds_sent_credit effs))) s'"

inductive_cases ds_recvE: "ds_step gp s (Received n) s'"
inductive_cases ds_flushE: "ds_step gp s (Flushed n) s'"

definition ds_occupied :: "DispatchStage \<Rightarrow> nat" where
  "ds_occupied s = length (waiting (ds_inst_queue s))"

definition ds_capacity :: "DispatchStage \<Rightarrow> nat" where
  "ds_capacity s = unat (ds_inst_queue_depth s)"

lemma ds_AllocateInst_accepts:
  assumes "ds_AllocateInst h s g = Inr (s', effs)" "ds_wf gp s"
  shows "ds_wf gp s' \<and> ds_occupied s' = ds_occupied s + length g \<and> ds_capacity s' = ds_capacity s"
proof -
  have "foldE (ds_AllocateInst_one h) s g = Inr s' \<Longrightarrow> ds_wf gp s \<Longrightarrow> ds_wf gp s' \<and>
      ds_occupied s' = ds_occupied s + length g \<and> ds_capacity s' = ds_capacity s"
  proof (induction g arbitrary: s)
    case (Cons p g)
    then obtain s1 where s1: "ds_AllocateInst_one h s p = Inr s1" "foldE (ds_AllocateInst_one h) s1 g = Inr s'"
      by (auto simp: result_simps)
    have "ds_wf gp s1 \<and> ds_occupied s1 = Suc (ds_occupied s) \<and> ds_capacity s1 = ds_capacity s"
      using s1(1) Cons.prems(2)
      by (auto simp: ds_AllocateInst_one_def result_simps ds_wf_def ds_occupied_def ds_capacity_def
          waiting_def dest: SetBusyBit_wf split: if_splits)
    with Cons.IH [OF s1(2)] show ?case by auto
  qed simp
  with assms show ?thesis by (auto simp: ds_AllocateInst_def result_simps)
qed

lemma ds_FuncUnitBack_keeps:
  assumes "ds_FuncUnitBack h s g = Inr s'" "ds_wf gp s"
  shows "ds_wf gp s' \<and> ds_occupied s' = ds_occupied s \<and> ds_capacity s' = ds_capacity s"
  using assms unfolding ds_FuncUnitBack_def
proof (induction g arbitrary: s)
  case (Cons p g)
  let ?f = "\<lambda>s p. if getPhyRd (h p) = 0 then Inr s
      else bindE (ClearBusyBit (ds_scoreboard s) (getPhyRd (h p))) (\<lambda>sb. Inr (s\<lparr>ds_scoreboard := sb\<rparr>))"
  from Cons.prems(1) obtain s1 where s1: "?f s p = Inr s1" "foldE ?f s1 g = Inr s'"
    by (auto simp: result_simps)
  have "ds_wf gp s1 \<and> ds_occupied s1 = ds_occupied s \<and> ds_capacity s1 = ds_capacity s"
    using s1(1) Cons.prems(2)
    by (auto simp: result_simps ds_wf_def ds_occupied_def ds_capacity_def dest: ClearBusyBit_wf
        split: if_splits)
  with Cons.IH [OF s1(2)] show ?case by auto
qed simp

lemma waiting_dropWhile: "waiting (dropWhile iq_is_issued q) = waiting q"
  by (induction q) (auto simp: waiting_def)

lemma SelectInst_returns:
  assumes "ds_wf gp s" "\<forall>e \<in> set (ds_inst_queue s). ds_regs_ok (ds_scoreboard s) h (iq_inst_ptr e)"
    and "SelectInst gp h s = Inr (h', s', effs)" "ds_occupied s \<le> ds_capacity s"
  shows "ds_wf gp s' \<and> ds_occupied s' + unat (ds_sent_credit effs) = ds_occupied s
    \<and> ds_capacity s' = ds_capacity s"
proof -
  from SelectInst_ok [OF assms(1,2)] assms(3) have
    r: "ds_wf gp s'" "ds_inst_queue_depth s' = ds_inst_queue_depth s"
      "ds_sent_credit effs + word_of_nat (ds_occupied s') = word_of_nat (ds_occupied s)"
      "ds_occupied s' \<le> ds_occupied s"
    by (auto simp: select_rel_def sel_of_def ds_occupied_def)
  have "unat (ds_inst_queue_depth s) < 2 ^ 64" by (rule less_le_trans [OF unsigned_less]) simp
  then have "ds_occupied s < 2 ^ 64" using assms(4) by (simp add: ds_capacity_def)
  then have o: "unat (word_of_nat (ds_occupied s) :: u64) = ds_occupied s" by (simp add: unat_of_nat)
  have "ds_sent_credit effs = word_of_nat (ds_occupied s) - word_of_nat (ds_occupied s')"
    using r(3) by (simp add: eq_diff_eq)
  then have "unat (ds_sent_credit effs) = ds_occupied s - ds_occupied s'"
    using unat_minus_of_nat [of "ds_occupied s'" "word_of_nat (ds_occupied s) :: u64"] o r(4) by simp
  with r show ?thesis by (simp add: ds_capacity_def)
qed

interpretation ds: credit_unit "ds_step gp" ds_occupied ds_capacity "ds_wf gp" for gp
proof
  fix s n s'
  show "ds_wf gp s' \<and> ds_occupied s' = ds_occupied s + n \<and> ds_capacity s' = ds_capacity s"
    if "ds_step gp s (Received n) s'" "ds_wf gp s"
    using that by (auto elim!: ds_recvE dest: ds_AllocateInst_accepts)
  show "ds_wf gp s' \<and> ds_occupied s' + n = ds_occupied s \<and> ds_capacity s' = ds_capacity s"
    if st: "ds_step gp s (Returned n) s'" and wf: "ds_wf gp s" and le: "ds_occupied s \<le> ds_capacity s"
    using st
  proof cases
    case (ds_select h h' effs)
    then show ?thesis using SelectInst_returns wf le by blast
  next
    case (ds_issue effs)
    then show ?thesis
      using wf by (auto simp: ds_IssueInst_def ds_wf_def ds_occupied_def ds_capacity_def)
  next
    case (ds_pop effs)
    then show ?thesis
      using wf by (auto simp: ds_PopIssueQueue_def Let_def ds_wf_def ds_occupied_def ds_capacity_def
          waiting_dropWhile)
  next
    case (ds_credit cp)
    then obtain c where c: "map_of (ds_credit_map s) (cp_name cp) = Some c"
      "s' = s\<lparr>ds_credit_map := smap_set (cp_name cp) (c + cp_credit cp) (ds_credit_map s)\<rparr>"
      by (auto simp: ds_AcceptCredit_def result_simps)
    then have "cp_name cp \<in> set (map fst (ds_credit_map s))" by (force dest: map_of_SomeD)
    moreover have "smap_wf (ds_credit_map s)" using wf by (simp add: ds_wf_def ds_maps_def)
    ultimately have "map fst (ds_credit_map s') = map fst (ds_credit_map s)"
      unfolding c(2) using smap_set_keys_unchanged by simp
    then have "ds_maps gp (ds_credit_map s')"
      using wf ds_maps_same_keys unfolding ds_wf_def by blast
    with c(2) wf ds_credit show ?thesis by (simp add: ds_wf_def ds_occupied_def ds_capacity_def)
  next
    case (ds_back h g)
    then show ?thesis using ds_FuncUnitBack_keeps wf by auto
  qed
  show "ds_wf gp s' \<and> ds_occupied s' + n = ds_capacity s \<and> ds_capacity s' = ds_capacity s"
    if "ds_step gp s (Flushed n) s'" "ds_wf gp s"
  proof -
    have "map fst (map (\<lambda>(n, c). (n, 0)) m) = map fst m" for m :: "(string, Credit) smap"
      by (induction m) auto
    then have "ds_maps gp (map (\<lambda>(n, c). (n, 0)) (ds_credit_map s))"
      using that(2) ds_maps_same_keys unfolding ds_wf_def by blast
    then show ?thesis
      using that by (auto elim!: ds_flushE simp: ds_HandleFlush_def ds_wf_def ds_occupied_def ds_capacity_def
          waiting_def ds_sent_credit_def)
  qed
qed

section \<open>Properties\<close>

text \<open>
  (C8) One selection of the dispatch stage never fails and keeps every account: each instruction that
  stops waiting is put in exactly one pending group, of a unit that serves its type; every unit's
  credits drop by what it got, without going below zero, and it gets at most its width; the credits
  returned to the renaming stage are the instructions that stopped waiting (modulo 2 to the 64); apart
  from the forward marks no instruction changes.
\<close>

theorem DispatchStage_select_accounting:
  assumes "ds_wf gp s" "\<forall>e \<in> set (ds_inst_queue s). ds_regs_ok (ds_scoreboard s) h (iq_inst_ptr e)"
  shows "\<exists>h' s' effs. SelectInst gp h s = Inr (h', s', effs) \<and> ds_wf gp s'
    \<and> map iq_inst_ptr (ds_inst_queue s') = map iq_inst_ptr (ds_inst_queue s)
    \<and> mset (pend_all (ds_pending s')) + mset (waiting (ds_inst_queue s'))
        = mset (pend_all (ds_pending s)) + mset (waiting (ds_inst_queue s))
    \<and> (\<forall>n. unat (smap_get_default 0 (ds_credit_map s') n) + length (smap_get_default [] (ds_pending s') n)
        = unat (smap_get_default 0 (ds_credit_map s) n) + length (smap_get_default [] (ds_pending s) n))
    \<and> (\<forall>n. length (smap_get_default [] (ds_pending s') n)
          \<le> length (smap_get_default [] (ds_pending s) n) + unit_width gp n)
    \<and> (\<forall>n p. p \<in> set (smap_get_default [] (ds_pending s') n) \<longrightarrow>
        p \<in> set (smap_get_default [] (ds_pending s) n)
        \<or> (\<exists>fus. (n, fus) \<in> set (dispatch_following_map gp) \<and> getFuType (h p) \<in> fus))
    \<and> ds_sent_credit effs + word_of_nat (length (waiting (ds_inst_queue s')))
        = word_of_nat (length (waiting (ds_inst_queue s)))
    \<and> fwd_frame h h'"
proof -
  from SelectInst_ok [OF assms] obtain h' s' effs where r: "SelectInst gp h s = Inr (h', s', effs)"
    "ds_wf gp s'" "select_rel (dispatch_following_map gp) (sel_of h s 0, ds_inst_queue s)
        (sel_of h' s' (ds_sent_credit effs), ds_inst_queue s')"
    "\<forall>m. length (smap_get_default [] (ds_pending s') m)
          \<le> length (smap_get_default [] (ds_pending s) m) + unit_width gp m"
    by blast
  from r(3) show ?thesis
    by (intro exI [of _ h'] exI [of _ s'] exI [of _ effs])
      (simp only: r(1,2,4) select_rel_def prod.case sel_of_def select_state.simps simp_thms add_0, blast)
qed

definition ds_example_gp :: GlobalParam where
  "ds_example_gp = \<lparr>dispatch_following_map = [(''rs_alu'', {FT_ALU}), (''rs_mul'', {FT_MUL})],
     dispatch_issue_width_map = [(''rs_alu'', 2), (''rs_mul'', 2)], write_back_map = []\<rparr>"

definition ds_example_heap :: inst_heap where
  "ds_example_heap p = setFuType (if p = 0 then FT_ALU else FT_MUL) (setRs1Type RT_NONE (setRs2Type RT_NONE
     (mk_Inst undefined undefined undefined)))"

definition ds_example :: DispatchStage where
  "ds_example = \<lparr>ds_issue_num = 1, ds_credit_map = [(''rs_alu'', 1), (''rs_mul'', 1)],
     ds_scoreboard = \<lparr>score_board = [False, False], sb_phy_regfile_num = 2\<rparr>, ds_inst_queue_depth = 4,
     ds_inst_queue = [\<lparr>iq_inst_ptr = 0, iq_is_issued = False\<rparr>, \<lparr>iq_inst_ptr = 1, iq_is_issued = False\<rparr>],
     ds_pending = []\<rparr>"

lemma ds_example_wf:
  "ds_wf ds_example_gp ds_example"
  "\<forall>e \<in> set (ds_inst_queue ds_example). ds_regs_ok (ds_scoreboard ds_example) ds_example_heap (iq_inst_ptr e)"
  by (simp_all add: ds_wf_def ds_maps_def ds_example_gp_def ds_example_def ds_example_heap_def sb_wf_def
      smap_wf_def ds_regs_ok_def)

theorem DispatchStage_select_accounting_witness:
  "\<exists>h' s' effs. SelectInst ds_example_gp ds_example_heap ds_example = Inr (h', s', effs)
     \<and> mset (pend_all (ds_pending s')) + mset (waiting (ds_inst_queue s')) = {#0, 1#}"
  using DispatchStage_select_accounting [OF ds_example_wf]
  by (auto simp: ds_example_def waiting_def pend_all_def)

text \<open>
  The issue queue never overflows: from the empty stage and a renaming stage that holds the offered
  credits and never sends more than it has credit for, after any sequence of handler runs the waiting
  instructions plus the renaming stage's credits are exactly the queue depth.
\<close>

theorem DispatchStage_credit_balance:
  assumes "mk_GlobalParam p = Inr gp" "mk_DispatchStage gp dp = Inr s0"
    and "credit_run (ds_step gp) (s0, unat (dsp_queue_depth dp)) (s, c)"
  shows "length (waiting (ds_inst_queue s)) + c = unat (dsp_queue_depth dp)"
proof -
  have s0: "ds_wf gp s0" "ds_occupied s0 = 0" "ds_capacity s0 = unat (dsp_queue_depth dp)"
    using mk_DispatchStage_wf [OF assms(1,2)] by (simp_all add: ds_occupied_def waiting_def ds_capacity_def)
  then show ?thesis
    using ds.never_overflows [of gp s0 s c] assms(3) by (simp add: ds_occupied_def)
qed

theorem DispatchStage_credit_balance_witness:
  "\<exists>gp s0 s c. mk_GlobalParam \<lparr>gp_dispatch_map = [], gp_write_back_map = []\<rparr> = Inr gp
     \<and> mk_DispatchStage gp \<lparr>dsp_issue_width = 4, dsp_phy_reg_num = 64, dsp_queue_depth = 16\<rparr> = Inr s0
     \<and> credit_run (ds_step gp) (s0, 16) (s, c)
     \<and> length (waiting (ds_inst_queue s)) = 2 \<and> c = 14"
proof -
  let ?dp = "\<lparr>dsp_issue_width = 4, dsp_phy_reg_num = 64, dsp_queue_depth = 16\<rparr>"
  let ?p = "\<lparr>gp_dispatch_map = [], gp_write_back_map = []\<rparr>"
  let ?h = "\<lambda>_. setRdType RT_NONE (mk_Inst undefined undefined undefined)"
  obtain gp where gp: "mk_GlobalParam ?p = Inr gp"
    by (simp add: mk_GlobalParam_def ParseDispatchMap_def ParseWriteBackMap_def)
  obtain s0 where s0: "mk_DispatchStage gp ?dp = Inr s0"
    using mk_Scoreboard_ok [of "ucast (64 :: u32)"] by (auto simp: mk_DispatchStage_def)
  obtain s effs where s: "ds_AllocateInst ?h s0 [0, 1] = Inr (s, effs)"
    by (simp add: ds_AllocateInst_def ds_AllocateInst_one_def)
  have "credit_run (ds_step gp) (s0, 16) (s, 16 - length [0::nat, 1])"
    by (rule credit_recv_first, rule ds_step.ds_allocate [OF s]) simp
  then have r: "credit_run (ds_step gp) (s0, 16) (s, 14)" by simp
  from DispatchStage_credit_balance [OF gp s0, of s 14] r gp s0 show ?thesis
    by (intro exI [of _ gp] exI [of _ s0] exI [of _ s] exI [of _ 14]) simp
qed

text \<open>
  The issue width of the stage limits nothing: the counter it initialises is only decremented. With
  width 1 one run selects two instructions, one for each of two units.
\<close>

theorem DispatchStage_issue_width_ignored:
  "ds_wf ds_example_gp ds_example \<and> ds_issue_num ds_example = 1
   \<and> (\<exists>h' s' effs. SelectInst ds_example_gp ds_example_heap ds_example = Inr (h', s', effs)
        \<and> ds_pending s' = [(''rs_alu'', [0]), (''rs_mul'', [1])] \<and> ds_sent_credit effs = 2)"
  using ds_example_wf(1)
  by (simp add: SelectInst_def SelectInst_unit_def ds_example_def ds_example_gp_def ds_example_heap_def
      smap_at_def CheckRegStatusImp_def smap_get_default_def ds_sent_credit_def)

end
