(* ===== verification/Physical_Regfile.thy ===== *)
theory Physical_Regfile
  imports Inst_Types
begin

text \<open>
  \<open>core/abstract_backend/PhysicalRegfile\<close>: operands are read when an instruction is dispatched, results
  are written when it is written back. Register 0 reads as 0 and is never written.
\<close>

record PhysicalRegfile =
  phy_regfile :: PhysicalReg
  pr_phy_reg_num :: PhyRegId_t

datatype pr_effect = physical_regfile_following_read_out InstGroup

definition mk_PhysicalRegfile :: "u32 \<Rightarrow> PhysicalRegfile" where
  "mk_PhysicalRegfile n = \<lparr>phy_regfile = replicate (unat n) 0, pr_phy_reg_num = ucast n\<rparr>"

definition pr_operand :: "PhysicalRegfile \<Rightarrow> PhyRegId_t \<Rightarrow> xReg_t result" where
  "pr_operand s r =
     (if r = 0 then Inr 0
      else bindE (assertE (r < pr_phy_reg_num s) (SpartaAssert ''physical register accessing is out of range''))
        (\<lambda>_. vec_get (phy_regfile s) (unat r)))"

definition ReadPhysicalReg_one :: "PhysicalRegfile \<Rightarrow> inst_heap \<Rightarrow> inst_ptr \<Rightarrow> inst_heap result" where
  "ReadPhysicalReg_one s h p =
     bindE (if getRs1Type (h p) \<noteq> RT_NONE \<and> \<not> getIsRs1Forward (h p)
            then bindE (pr_operand s (getPhyRs1 (h p))) (\<lambda>v. Inr (on_inst p (setOperand1 v) h))
            else Inr h)
     (\<lambda>h. if getRs2Type (h p) \<noteq> RT_NONE \<and> \<not> getIsRs2Forward (h p)
            then bindE (pr_operand s (getPhyRs2 (h p))) (\<lambda>v. Inr (on_inst p (setOperand2 v) h))
            else Inr h)"

definition ReadPhysicalReg ::
  "PhysicalRegfile \<Rightarrow> inst_heap \<Rightarrow> InstGroup \<Rightarrow> (inst_heap \<times> pr_effect list) result" where
  "ReadPhysicalReg s h g =
     bindE (foldE (ReadPhysicalReg_one s) h g) (\<lambda>h. Inr (h, [physical_regfile_following_read_out g]))"

definition WritePhysicalReg_one :: "inst_heap \<Rightarrow> PhysicalRegfile \<Rightarrow> inst_ptr \<Rightarrow> PhysicalRegfile result" where
  "WritePhysicalReg_one h s p =
     (if getPhyRd (h p) = 0 then Inr s
      else bindE (assertE (getPhyRd (h p) < pr_phy_reg_num s)
               (SpartaAssert ''physical register accessing is out of range''))
        (\<lambda>_. bindE (vec_set (phy_regfile s) (unat (getPhyRd (h p))) (getRdResult (h p)))
        (\<lambda>v. Inr (s\<lparr>phy_regfile := v\<rparr>))))"

definition WritePhysicalReg :: "inst_heap \<Rightarrow> PhysicalRegfile \<Rightarrow> InstGroup \<Rightarrow> PhysicalRegfile result" where
  "WritePhysicalReg h s g = foldE (WritePhysicalReg_one h) s g"

section \<open>The file as a function\<close>

definition pr_wf :: "PhysicalRegfile \<Rightarrow> bool" where
  "pr_wf s \<longleftrightarrow> length (phy_regfile s) = unat (pr_phy_reg_num s)"

definition pr_value :: "PhysicalRegfile \<Rightarrow> PhyRegId_t \<Rightarrow> xReg_t" where
  "pr_value s r = (if r = 0 then 0 else phy_regfile s ! unat r)"

lemma pr_operand_ok:
  "pr_wf s \<Longrightarrow> r = 0 \<or> r < pr_phy_reg_num s \<Longrightarrow> pr_operand s r = Inr (pr_value s r)"
  by (auto simp: pr_operand_def pr_wf_def pr_value_def word_less_nat_alt)

text \<open>Written back in order: the last instruction of the group that writes \<open>r\<close> decides.\<close>

definition pr_written :: "inst_heap \<Rightarrow> InstGroup \<Rightarrow> PhyRegId_t \<Rightarrow> xReg_t \<Rightarrow> xReg_t" where
  "pr_written h g r v = fold (\<lambda>p v. if getPhyRd (h p) = r then getRdResult (h p) else v) g v"

lemma pr_written_simps:
  "pr_written h [] r v = v"
  "pr_written h (p # g) r v = pr_written h g r (if getPhyRd (h p) = r then getRdResult (h p) else v)"
  by (simp_all add: pr_written_def del: getPhyRd_def getRdResult_def)

lemma WritePhysicalReg_one_ok:
  assumes "pr_wf s" "getPhyRd (h p) = 0 \<or> getPhyRd (h p) < pr_phy_reg_num s"
  shows "\<exists>s'. WritePhysicalReg_one h s p = Inr s' \<and> pr_wf s' \<and> pr_phy_reg_num s' = pr_phy_reg_num s
    \<and> (\<forall>r. r < pr_phy_reg_num s \<longrightarrow> r \<noteq> 0 \<longrightarrow>
          pr_value s' r = (if getPhyRd (h p) = r then getRdResult (h p) else pr_value s r))"
proof (cases "getPhyRd (h p) = 0")
  case True
  with assms(1) show ?thesis by (auto simp: WritePhysicalReg_one_def)
next
  case False
  with assms have "getPhyRd (h p) < pr_phy_reg_num s" "unat (getPhyRd (h p)) < length (phy_regfile s)"
    by (auto simp: pr_wf_def word_less_nat_alt)
  with False assms(1) show ?thesis
    by (auto simp: WritePhysicalReg_one_def pr_wf_def pr_value_def nth_list_update unat_inj_iff)
qed

lemma WritePhysicalReg_ok:
  assumes "pr_wf s" "\<forall>p \<in> set g. getPhyRd (h p) = 0 \<or> getPhyRd (h p) < pr_phy_reg_num s"
  shows "\<exists>s'. WritePhysicalReg h s g = Inr s' \<and> pr_wf s' \<and> pr_phy_reg_num s' = pr_phy_reg_num s
    \<and> (\<forall>r. r < pr_phy_reg_num s \<longrightarrow> r \<noteq> 0 \<longrightarrow> pr_value s' r = pr_written h g r (pr_value s r))"
  using assms unfolding WritePhysicalReg_def
proof (induction g arbitrary: s)
  case Nil
  then show ?case by (simp add: pr_written_simps)
next
  case (Cons p g)
  from WritePhysicalReg_one_ok [of s h p] Cons.prems obtain s1 where
    s1: "WritePhysicalReg_one h s p = Inr s1" "pr_wf s1" "pr_phy_reg_num s1 = pr_phy_reg_num s"
      "\<forall>r. r < pr_phy_reg_num s \<longrightarrow> r \<noteq> 0 \<longrightarrow>
          pr_value s1 r = (if getPhyRd (h p) = r then getRdResult (h p) else pr_value s r)" by auto
  from Cons.IH [OF s1(2)] Cons.prems(2) s1(3) obtain s' where
    "foldE (WritePhysicalReg_one h) s1 g = Inr s'" "pr_wf s'" "pr_phy_reg_num s' = pr_phy_reg_num s"
    "\<forall>r. r < pr_phy_reg_num s \<longrightarrow> r \<noteq> 0 \<longrightarrow> pr_value s' r = pr_written h g r (pr_value s1 r)" by auto
  with s1(1,4) show ?case by (simp add: pr_written_simps)
qed

section \<open>Properties\<close>

text \<open>
  Reading after writing: when every destination of a written-back group is in range the write
  succeeds, and an instruction that then reads its first operand (not forwarded, register in range)
  gets the value of the last instruction of the group that wrote the register, the old value when none
  did, and 0 for register 0.
\<close>

theorem PhysicalRegfile_read_after_write:
  assumes "pr_wf s" "\<forall>p \<in> set g. getPhyRd (h p) = 0 \<or> getPhyRd (h p) < pr_phy_reg_num s"
    and "getRs1Type (k q) \<noteq> RT_NONE" "\<not> getIsRs1Forward (k q)" "getRs2Type (k q) = RT_NONE"
    and "getPhyRs1 (k q) < pr_phy_reg_num s"
  shows "\<exists>s' k'. WritePhysicalReg h s g = Inr s'
    \<and> ReadPhysicalReg s' k [q] = Inr (k', [physical_regfile_following_read_out [q]])
    \<and> getOperand1 (k' q) = (if getPhyRs1 (k q) = 0 then 0
         else pr_written h g (getPhyRs1 (k q)) (pr_value s (getPhyRs1 (k q))))"
proof -
  from WritePhysicalReg_ok [OF assms(1,2)] obtain s' where
    s': "WritePhysicalReg h s g = Inr s'" "pr_wf s'" "pr_phy_reg_num s' = pr_phy_reg_num s"
      "pr_value s' (getPhyRs1 (k q)) = (if getPhyRs1 (k q) = 0 then 0
         else pr_written h g (getPhyRs1 (k q)) (pr_value s (getPhyRs1 (k q))))"
    using assms(6) by (auto simp: pr_value_def)
  have "pr_operand s' (getPhyRs1 (k q)) = Inr (pr_value s' (getPhyRs1 (k q)))"
    using pr_operand_ok [OF s'(2)] s'(3) assms(6) by simp
  with s' assms show ?thesis
    by (simp add: ReadPhysicalReg_def ReadPhysicalReg_one_def)
qed

theorem PhysicalRegfile_read_after_write_witness:
  "\<exists>s' k'. WritePhysicalReg (\<lambda>_. setPhyRd 3 (setRdResult 7 (mk_Inst undefined undefined undefined)))
        (mk_PhysicalRegfile 8) [0] = Inr s'
     \<and> ReadPhysicalReg s' (\<lambda>_. setPhyRs1 3 (setRs1Type RT_INT (setRs2Type RT_NONE
          (mk_Inst undefined undefined undefined)))) [1] = Inr (k', [physical_regfile_following_read_out [1]])
     \<and> getOperand1 (k' 1) = 7"
  using PhysicalRegfile_read_after_write [of "mk_PhysicalRegfile 8" "[0]"
      "\<lambda>_. setPhyRd 3 (setRdResult 7 (mk_Inst undefined undefined undefined))"
      "\<lambda>_. setPhyRs1 3 (setRs1Type RT_INT (setRs2Type RT_NONE (mk_Inst undefined undefined undefined)))" 1]
  by (simp add: pr_wf_def mk_PhysicalRegfile_def mk_Inst_def pr_written_def)

end
