(* ===== verification/Reservation_Station.thy ===== *)
theory Reservation_Station
  imports Inst_Types Credit_Interface
begin

text \<open>
  \<open>core/abstract_backend/ReservationStation\<close>: instructions wait for forwarded operands and leave, oldest
  ready first, when the functional unit has credit. An entry is shared between the station and the
  dependency table that says who waits for which physical register, so entries live in a store.
\<close>

section \<open>Parameters, state, output ports\<close>

record ReservationStationParameter =
  rsp_issue_width :: u64
  rsp_queue_depth :: u64
  rsp_phy_reg_num :: u64

record ReStationEntry =
  re_inst_ptr :: inst_ptr
  re_rs1_valid :: bool
  re_rs2_valid :: bool
  re_is_issued :: bool

type_synonym entry_ptr = nat

text \<open>For each physical register the two vectors of entries that wait for it as rs1 and as rs2.\<close>

type_synonym ReservationTable = "entry_ptr list list list"

record ReservationStation =
  rs_name :: string
  rs_issue_num :: u64
  rs_depth :: u64
  rs_phy_reg_num :: PhyRegId_t
  reservation_station :: "entry_ptr list"
  rs_dependency_table :: ReservationTable
  rs_credit :: Credit
  rs_entries :: "entry_ptr \<Rightarrow> ReStationEntry"
  rs_next_entry :: entry_ptr

datatype rs_effect =
    reservation_preceding_credit_out CreditPair
  | reservation_following_inst_out InstGroup
  | passing_event nat
  | pop_event nat

section \<open>The dependency table\<close>

definition mk_ReservationTable :: "PhyRegId_t \<Rightarrow> ReservationTable" where
  "mk_ReservationTable n = replicate (unat n) (replicate 2 [])"

definition table_update :: "ReservationTable \<Rightarrow> PhyRegId_t \<Rightarrow> nat \<Rightarrow> (entry_ptr list \<Rightarrow> entry_ptr list)
    \<Rightarrow> ReservationTable result" where
  "table_update t r k f =
     bindE (vec_get t (unat r))
     (\<lambda>row. bindE (vec_get row k)
     (\<lambda>l. bindE (vec_set row k (f l))
     (\<lambda>row. vec_set t (unat r) row)))"

definition rt_Allocate :: "inst_heap \<Rightarrow> (entry_ptr \<Rightarrow> ReStationEntry) \<Rightarrow> ReservationTable \<Rightarrow> entry_ptr
    \<Rightarrow> ReservationTable result" where
  "rt_Allocate h es t e =
     bindE (if \<not> re_rs1_valid (es e) then table_update t (getPhyRs1 (h (re_inst_ptr (es e)))) 0 (\<lambda>l. l @ [e])
            else Inr t)
     (\<lambda>t. if \<not> re_rs2_valid (es e) then table_update t (getPhyRs2 (h (re_inst_ptr (es e)))) 1 (\<lambda>l. l @ [e])
          else Inr t)"

definition set_rs1_valid :: "entry_ptr list \<Rightarrow> (entry_ptr \<Rightarrow> ReStationEntry) \<Rightarrow> entry_ptr \<Rightarrow> ReStationEntry" where
  "set_rs1_valid l es = fold (\<lambda>e es. es(e := (es e)\<lparr>re_rs1_valid := True\<rparr>)) l es"

definition set_rs2_valid :: "entry_ptr list \<Rightarrow> (entry_ptr \<Rightarrow> ReStationEntry) \<Rightarrow> entry_ptr \<Rightarrow> ReStationEntry" where
  "set_rs2_valid l es = fold (\<lambda>e es. es(e := (es e)\<lparr>re_rs2_valid := True\<rparr>)) l es"

definition rt_Resolve :: "inst_heap \<Rightarrow> (entry_ptr \<Rightarrow> ReStationEntry) \<Rightarrow> ReservationTable \<Rightarrow> inst_ptr
    \<Rightarrow> ((entry_ptr \<Rightarrow> ReStationEntry) \<times> ReservationTable \<times> bool) result" where
  "rt_Resolve h es t p =
     bindE (vec_get t (unat (getPhyRd (h p))))
     (\<lambda>row. bindE (vec_get row 0)
     (\<lambda>l1. bindE (table_update t (getPhyRd (h p)) 0 (\<lambda>_. []))
     (\<lambda>t1. bindE (vec_get row 1)
     (\<lambda>l2. bindE (table_update t1 (getPhyRd (h p)) 1 (\<lambda>_. []))
     (\<lambda>t2. Inr (set_rs2_valid l2 (set_rs1_valid l1 es), t2, l1 \<noteq> [] \<or> l2 \<noteq> []))))))"

section \<open>Handlers\<close>

definition mk_ReservationStation :: "string \<Rightarrow> ReservationStationParameter \<Rightarrow> ReservationStation" where
  "mk_ReservationStation n p =
     \<lparr>rs_name = n, rs_issue_num = rsp_issue_width p, rs_depth = rsp_queue_depth p,
      rs_phy_reg_num = rsp_phy_reg_num p, reservation_station = [],
      rs_dependency_table = mk_ReservationTable (rsp_phy_reg_num p), rs_credit = 0,
      rs_entries = (\<lambda>_. \<lparr>re_inst_ptr = 0, re_rs1_valid = False, re_rs2_valid = False, re_is_issued = False\<rparr>),
      rs_next_entry = 0\<rparr>"

definition rs_AcceptCredit :: "ReservationStation \<Rightarrow> Credit \<Rightarrow> ReservationStation \<times> rs_effect list" where
  "rs_AcceptCredit s credit = (s\<lparr>rs_credit := rs_credit s + credit\<rparr>, [passing_event 0])"

definition rs_HandleFlush :: "ReservationStation \<Rightarrow> FlushingCriteria \<Rightarrow> ReservationStation \<times> rs_effect list" where
  "rs_HandleFlush s fc =
     (s\<lparr>rs_credit := 0, reservation_station := []\<rparr>,
      [reservation_preceding_credit_out \<lparr>cp_name = rs_name s, cp_credit = rs_depth s\<rparr>])"

definition rs_InitCredit :: "ReservationStation \<Rightarrow> rs_effect list" where
  "rs_InitCredit s = [reservation_preceding_credit_out \<lparr>cp_name = rs_name s, cp_credit = rs_depth s\<rparr>]"

definition AllocateReStation_one :: "inst_heap \<Rightarrow> ReservationStation \<Rightarrow> inst_ptr \<Rightarrow> ReservationStation result" where
  "AllocateReStation_one h s p =
     (let e = rs_next_entry s;
          es = (rs_entries s)(e := \<lparr>re_inst_ptr = p, re_rs1_valid = \<not> getIsRs1Forward (h p),
                                    re_rs2_valid = \<not> getIsRs2Forward (h p), re_is_issued = False\<rparr>)
      in bindE (rt_Allocate h es (rs_dependency_table s) e)
         (\<lambda>t. Inr (s\<lparr>rs_next_entry := e + 1, rs_entries := es, rs_dependency_table := t,
                     reservation_station := reservation_station s @ [e]\<rparr>)))"

definition AllocateReStation :: "inst_heap \<Rightarrow> ReservationStation \<Rightarrow> InstGroupPair
    \<Rightarrow> (ReservationStation \<times> rs_effect list) result" where
  "AllocateReStation h s gp =
     (if igp_name gp \<noteq> rs_name s then Inr (s, [])
      else bindE (foldE (AllocateReStation_one h) s (igp_inst_group gp))
        (\<lambda>s. Inr (s, [pop_event 1, passing_event 0])))"

definition GetForwardingData_one :: "inst_heap \<Rightarrow> ReservationStation \<Rightarrow> inst_ptr \<Rightarrow> ReservationStation result" where
  "GetForwardingData_one h s p =
     bindE (rt_Resolve h (rs_entries s) (rs_dependency_table s) p)
     (\<lambda>(es, t, find). Inr (s\<lparr>rs_entries := es, rs_dependency_table := t\<rparr>))"

definition GetForwardingData :: "inst_heap \<Rightarrow> ReservationStation \<Rightarrow> InstGroup \<Rightarrow> ReservationStation result" where
  "GetForwardingData h s g = foldE (GetForwardingData_one h) s g"

text \<open>\<open>PopInst_\<close>: the counter goes up while the station shrinks.\<close>

function PopInst_loop :: "(entry_ptr \<Rightarrow> ReStationEntry) \<Rightarrow> nat \<Rightarrow> entry_ptr list \<Rightarrow> entry_ptr list" where
  "PopInst_loop es i q =
     (if i < length q then (if re_is_issued (es (hd q)) then PopInst_loop es (i + 1) (tl q) else q) else q)"
  by pat_completeness auto
termination
  by (relation "measure (\<lambda>(es, i, q). length q)") auto

declare PopInst_loop.simps [simp del]

definition rs_PopInst :: "ReservationStation \<Rightarrow> ReservationStation \<times> rs_effect list" where
  "rs_PopInst s =
     (let q = PopInst_loop (rs_entries s) 0 (reservation_station s) in
      (s\<lparr>reservation_station := q\<rparr>, if q \<noteq> [] then [pop_event 1] else []))"

text \<open>The loop of \<open>PassingInst\<close>: credit, \<open>produce_num\<close>, the group and \<open>consume_num\<close> are its variables.\<close>

fun PassingInst_loop :: "(entry_ptr \<Rightarrow> ReStationEntry) \<Rightarrow> Credit \<Rightarrow> u64 \<Rightarrow> InstGroup \<Rightarrow> u64 \<Rightarrow> entry_ptr list
    \<Rightarrow> (entry_ptr \<Rightarrow> ReStationEntry) \<times> Credit \<times> InstGroup \<times> u64" where
  "PassingInst_loop es credit produce g consume [] = (es, credit, g, consume)"
| "PassingInst_loop es credit produce g consume (e # q) =
     (if produce = 0 then (es, credit, g, consume)
      else if re_is_issued (es e) then PassingInst_loop es credit produce g consume q
      else if re_rs1_valid (es e) \<and> re_rs2_valid (es e) then
        PassingInst_loop (es(e := (es e)\<lparr>re_is_issued := True\<rparr>)) (credit - 1) (produce - 1)
          (emplace_back g (re_inst_ptr (es e))) (consume + 1) q
      else PassingInst_loop es credit produce g consume q)"

definition PassingInst :: "ReservationStation \<Rightarrow> ReservationStation \<times> rs_effect list" where
  "PassingInst s =
     (if reservation_station s = [] then (s, [])
      else case PassingInst_loop (rs_entries s) (rs_credit s) (min (rs_credit s) (rs_issue_num s)) [] 0
             (reservation_station s) of
        (es, credit, g, consume) \<Rightarrow>
          (s\<lparr>rs_entries := es, rs_credit := credit\<rparr>,
           (if g \<noteq> [] then [reservation_following_inst_out g,
              reservation_preceding_credit_out \<lparr>cp_name = rs_name s, cp_credit = consume\<rparr>] else [])
           @ (if credit > 0 then [passing_event 1] else [])))"

section \<open>Which instructions pass\<close>

definition rs_ready :: "(entry_ptr \<Rightarrow> ReStationEntry) \<Rightarrow> entry_ptr \<Rightarrow> bool" where
  "rs_ready es e \<longleftrightarrow> \<not> re_is_issued (es e) \<and> re_rs1_valid (es e) \<and> re_rs2_valid (es e)"

definition rs_mark :: "entry_ptr list \<Rightarrow> (entry_ptr \<Rightarrow> ReStationEntry) \<Rightarrow> entry_ptr \<Rightarrow> ReStationEntry" where
  "rs_mark l es e = (if e \<in> set l then (es e)\<lparr>re_is_issued := True\<rparr> else es e)"

text \<open>The specification: the oldest ready entries, as many as \<open>n\<close>.\<close>

definition rs_pass :: "(entry_ptr \<Rightarrow> ReStationEntry) \<Rightarrow> nat \<Rightarrow> entry_ptr list \<Rightarrow> entry_ptr list" where
  "rs_pass es n q = take n (filter (rs_ready es) q)"

lemma rs_mark_Cons:
  "e \<notin> set l \<Longrightarrow> rs_mark l (es(e := (es e)\<lparr>re_is_issued := True\<rparr>)) = rs_mark (e # l) es"
  by (auto simp: rs_mark_def fun_eq_iff)

lemma rs_pass_subset: "set (rs_pass es n q) \<subseteq> set q"
  unfolding rs_pass_def using set_take_subset by fastforce

lemma PassingInst_loop_spec:
  assumes "distinct q"
  shows "PassingInst_loop es c n g m q =
    (rs_mark (rs_pass es (unat n) q) es, c - word_of_nat (length (rs_pass es (unat n) q)),
     g @ map (\<lambda>e. re_inst_ptr (es e)) (rs_pass es (unat n) q),
     m + word_of_nat (length (rs_pass es (unat n) q)))"
  using assms
proof (induction q arbitrary: es c n g m)
  case Nil
  then show ?case by (simp add: rs_pass_def rs_mark_def fun_eq_iff)
next
  case (Cons e q)
  consider "n = 0" | "n \<noteq> 0" "\<not> rs_ready es e" | "n \<noteq> 0" "rs_ready es e" by blast
  then show ?case
  proof cases
    case 1
    then show ?thesis by (simp add: rs_pass_def rs_mark_def fun_eq_iff)
  next
    case 2
    then have "rs_pass es (unat n) (e # q) = rs_pass es (unat n) q" by (simp add: rs_pass_def)
    with 2 Cons show ?thesis by (auto simp: rs_ready_def)
  next
    case 3
    let ?es = "es(e := (es e)\<lparr>re_is_issued := True\<rparr>)"
    obtain k where k: "unat n = Suc k" using 3(1) by (metis not0_implies_Suc unat_eq_zero)
    then have n1: "unat (n - 1) = k" using 3(1) unat_minus_one_pos [of n] by simp
    have e: "e \<notin> set q" using Cons.prems by simp
    have "filter (rs_ready ?es) q = filter (rs_ready es) q"
      using e by (intro filter_cong) (auto simp: rs_ready_def)
    then have p: "rs_pass ?es (unat (n - 1)) q = rs_pass es k q" by (simp add: rs_pass_def n1)
    have en: "e \<notin> set (rs_pass es k q)" using rs_pass_subset e by blast
    have pc: "rs_pass es (unat n) (e # q) = e # rs_pass es k q" using 3(2) k by (simp add: rs_pass_def)
    have mp: "map (\<lambda>x. re_inst_ptr (?es x)) (rs_pass es k q) = map (\<lambda>x. re_inst_ptr (es x)) (rs_pass es k q)"
      using en by auto
    have "PassingInst_loop es c n g m (e # q)
        = PassingInst_loop ?es (c - 1) (n - 1) (g @ [re_inst_ptr (es e)]) (m + 1) q"
      using 3 by (simp add: rs_ready_def)
    also have "\<dots> = (rs_mark (rs_pass es k q) ?es, c - 1 - word_of_nat (length (rs_pass es k q)),
        (g @ [re_inst_ptr (es e)]) @ map (\<lambda>x. re_inst_ptr (es x)) (rs_pass es k q),
        m + 1 + word_of_nat (length (rs_pass es k q)))"
      using Cons.IH [of ?es "c - 1" "n - 1" "g @ [re_inst_ptr (es e)]" "m + 1"] Cons.prems
      unfolding p mp by (simp del: fun_upd_apply)
    finally show ?thesis by (simp only: pc rs_mark_Cons [OF en]) simp
  qed
qed

definition rs_inst :: "ReservationStation \<Rightarrow> entry_ptr \<Rightarrow> inst_ptr" where
  "rs_inst s e = re_inst_ptr (rs_entries s e)"

definition rs_selected :: "ReservationStation \<Rightarrow> entry_ptr list" where
  "rs_selected s = rs_pass (rs_entries s) (unat (min (rs_credit s) (rs_issue_num s))) (reservation_station s)"

lemma PassingInst_spec:
  assumes "distinct (reservation_station s)" "reservation_station s \<noteq> []"
  shows "PassingInst s =
    (s\<lparr>rs_entries := rs_mark (rs_selected s) (rs_entries s),
       rs_credit := rs_credit s - word_of_nat (length (rs_selected s))\<rparr>,
     (if rs_selected s \<noteq> [] then [reservation_following_inst_out (map (rs_inst s) (rs_selected s)),
        reservation_preceding_credit_out
          \<lparr>cp_name = rs_name s, cp_credit = word_of_nat (length (rs_selected s))\<rparr>] else [])
     @ (if rs_credit s - word_of_nat (length (rs_selected s)) > 0 then [passing_event 1] else []))"
  using assms by (simp add: PassingInst_def PassingInst_loop_spec rs_selected_def rs_inst_def [abs_def])

lemma rs_selected_bound: "length (rs_selected s) \<le> unat (rs_credit s)"
    "length (rs_selected s) \<le> unat (rs_issue_num s)"
proof -
  have "length (rs_selected s) \<le> unat (min (rs_credit s) (rs_issue_num s))"
    by (simp add: rs_selected_def rs_pass_def)
  moreover have "unat (min (rs_credit s) (rs_issue_num s)) \<le> unat (rs_credit s)"
    "unat (min (rs_credit s) (rs_issue_num s)) \<le> unat (rs_issue_num s)"
    by (auto simp: min_def word_le_nat_alt)
  ultimately show "length (rs_selected s) \<le> unat (rs_credit s)" "length (rs_selected s) \<le> unat (rs_issue_num s)"
    by linarith+
qed

section \<open>Nobody waits in vain: the invariant of the dependency table\<close>

definition waits :: "ReservationTable \<Rightarrow> PhyRegId_t \<Rightarrow> nat \<Rightarrow> entry_ptr set" where
  "waits t r k = (if unat r < length t then set (t ! unat r ! k) else {})"

definition rs_table_wf :: "ReservationStation \<Rightarrow> bool" where
  "rs_table_wf s \<longleftrightarrow> length (rs_dependency_table s) = unat (rs_phy_reg_num s)
     \<and> (\<forall>row \<in> set (rs_dependency_table s). length row = 2)"

definition rs_wf :: "inst_heap \<Rightarrow> ReservationStation \<Rightarrow> bool" where
  "rs_wf h s \<longleftrightarrow> distinct (reservation_station s)
     \<and> (\<forall>e \<in> set (reservation_station s). e < rs_next_entry s)
     \<and> rs_table_wf s
     \<and> (\<forall>r k e. k < 2 \<longrightarrow> e \<in> waits (rs_dependency_table s) r k \<longrightarrow> e < rs_next_entry s)
     \<and> (\<forall>e \<in> set (reservation_station s).
          (\<forall>r. e \<in> waits (rs_dependency_table s) r 0 \<longleftrightarrow>
               \<not> re_rs1_valid (rs_entries s e) \<and> r = getPhyRs1 (h (rs_inst s e)))
        \<and> (\<forall>r. e \<in> waits (rs_dependency_table s) r 1 \<longleftrightarrow>
               \<not> re_rs2_valid (rs_entries s e) \<and> r = getPhyRs2 (h (rs_inst s e))))"

lemma table_update_ok:
  assumes "unat r < length t" "\<forall>row \<in> set t. length row = 2" "k < 2"
  shows "\<exists>t'. table_update t r k f = Inr t' \<and> length t' = length t \<and> (\<forall>row \<in> set t'. length row = 2)
    \<and> (\<forall>r' k'. k' < 2 \<longrightarrow> waits t' r' k' = (if r' = r \<and> k' = k then set (f (t ! unat r ! k)) else waits t r' k'))"
proof -
  let ?row = "t ! unat r"
  let ?t = "t[unat r := ?row[k := f (?row ! k)]]"
  have row: "length ?row = 2" using assms(1,2) by simp
  then have "table_update t r k f = Inr ?t" using assms(1,3) by (simp add: table_update_def)
  moreover have "length row = 2" if "row \<in> set ?t" for row
    using that set_update_subset_insert [of t "unat r" "?row[k := f (?row ! k)]"] assms(2) row by auto
  moreover have "waits ?t r' k' = (if r' = r \<and> k' = k then set (f (?row ! k)) else waits t r' k')"
    if "k' < 2" for r' k'
    using assms(1) row that by (auto simp: waits_def nth_list_update unat_inj_iff)
  ultimately show ?thesis by auto
qed

lemma set_rs_valid:
  "set_rs1_valid l es e = (if e \<in> set l then (es e)\<lparr>re_rs1_valid := True\<rparr> else es e)"
  "set_rs2_valid l es e = (if e \<in> set l then (es e)\<lparr>re_rs2_valid := True\<rparr> else es e)"
  by (induction l arbitrary: es) (auto simp: set_rs1_valid_def set_rs2_valid_def)

lemma rt_Allocate_ok:
  assumes "\<forall>row \<in> set t. length row = 2"
    and "\<not> re_rs1_valid (es e) \<longrightarrow> unat (getPhyRs1 (h (re_inst_ptr (es e)))) < length t"
    and "\<not> re_rs2_valid (es e) \<longrightarrow> unat (getPhyRs2 (h (re_inst_ptr (es e)))) < length t"
  shows "\<exists>t'. rt_Allocate h es t e = Inr t' \<and> length t' = length t \<and> (\<forall>row \<in> set t'. length row = 2)
    \<and> (\<forall>r. waits t' r 0 = waits t r 0 \<union> {e'. e' = e \<and> \<not> re_rs1_valid (es e)
          \<and> r = getPhyRs1 (h (re_inst_ptr (es e)))})
    \<and> (\<forall>r. waits t' r 1 = waits t r 1 \<union> {e'. e' = e \<and> \<not> re_rs2_valid (es e)
          \<and> r = getPhyRs2 (h (re_inst_ptr (es e)))})"
proof -
  let ?r1 = "getPhyRs1 (h (re_inst_ptr (es e)))" and ?r2 = "getPhyRs2 (h (re_inst_ptr (es e)))"
  have "\<exists>t1. (if \<not> re_rs1_valid (es e) then table_update t ?r1 0 (\<lambda>l. l @ [e]) else Inr t) = Inr t1
    \<and> length t1 = length t \<and> (\<forall>row \<in> set t1. length row = 2)
    \<and> (\<forall>r. waits t1 r 0 = waits t r 0 \<union> {e'. e' = e \<and> \<not> re_rs1_valid (es e) \<and> r = ?r1})
    \<and> (\<forall>r. waits t1 r 1 = waits t r 1)"
  proof (cases "re_rs1_valid (es e)")
    case False
    with assms(2) have r: "unat ?r1 < length t" by blast
    then have "waits t ?r1 0 = set (t ! unat ?r1 ! 0)" by (simp add: waits_def)
    with False table_update_ok [OF r assms(1), of 0 "\<lambda>l. l @ [e]"] show ?thesis by fastforce
  qed (use assms(1) in auto)
  then obtain t1 where t1: "(if \<not> re_rs1_valid (es e) then table_update t ?r1 0 (\<lambda>l. l @ [e]) else Inr t) = Inr t1"
    "length t1 = length t" "\<forall>row \<in> set t1. length row = 2"
    "\<forall>r. waits t1 r 0 = waits t r 0 \<union> {e'. e' = e \<and> \<not> re_rs1_valid (es e) \<and> r = ?r1}"
    "\<forall>r. waits t1 r 1 = waits t r 1" by blast
  have "\<exists>t2. (if \<not> re_rs2_valid (es e) then table_update t1 ?r2 1 (\<lambda>l. l @ [e]) else Inr t1) = Inr t2
    \<and> length t2 = length t1 \<and> (\<forall>row \<in> set t2. length row = 2)
    \<and> (\<forall>r. waits t2 r 1 = waits t1 r 1 \<union> {e'. e' = e \<and> \<not> re_rs2_valid (es e) \<and> r = ?r2})
    \<and> (\<forall>r. waits t2 r 0 = waits t1 r 0)"
  proof (cases "re_rs2_valid (es e)")
    case False
    with assms(3) t1(2) have r: "unat ?r2 < length t1" by simp
    then have "waits t1 ?r2 1 = set (t1 ! unat ?r2 ! 1)" by (simp add: waits_def)
    with False table_update_ok [OF r t1(3), of 1 "\<lambda>l. l @ [e]"] show ?thesis by fastforce
  qed (use t1(3) in auto)
  then obtain t2 where t2: "(if \<not> re_rs2_valid (es e) then table_update t1 ?r2 1 (\<lambda>l. l @ [e]) else Inr t1) = Inr t2"
    "length t2 = length t1" "\<forall>row \<in> set t2. length row = 2"
    "\<forall>r. waits t2 r 1 = waits t1 r 1 \<union> {e'. e' = e \<and> \<not> re_rs2_valid (es e) \<and> r = ?r2}"
    "\<forall>r. waits t2 r 0 = waits t1 r 0" by blast
  have "rt_Allocate h es t e = Inr t2"
    unfolding rt_Allocate_def t1(1) bindE_Inr by (rule t2(1))
  with t1 t2 show ?thesis by (intro exI [of _ t2]) simp
qed

lemma rt_Resolve_ok:
  assumes "unat (getPhyRd (h p)) < length t" "\<forall>row \<in> set t. length row = 2"
  shows "\<exists>es' t' b. rt_Resolve h es t p = Inr (es', t', b) \<and> length t' = length t \<and> (\<forall>row \<in> set t'. length row = 2)
    \<and> (\<forall>r k. k < 2 \<longrightarrow> waits t' r k = (if r = getPhyRd (h p) then {} else waits t r k))
    \<and> es' = (\<lambda>e. (es e)\<lparr>re_rs1_valid := re_rs1_valid (es e) \<or> e \<in> waits t (getPhyRd (h p)) 0,
                   re_rs2_valid := re_rs2_valid (es e) \<or> e \<in> waits t (getPhyRd (h p)) 1\<rparr>)"
proof -
  let ?r = "getPhyRd (h p)"
  let ?row = "t ! unat ?r"
  have row: "length ?row = 2" using assms by simp
  from table_update_ok [OF assms, of 0 "\<lambda>_. []"] obtain t1 where
    t1: "table_update t ?r 0 (\<lambda>_. []) = Inr t1" "length t1 = length t" "\<forall>row \<in> set t1. length row = 2"
      "\<forall>r' k'. k' < 2 \<longrightarrow> waits t1 r' k' = (if r' = ?r \<and> k' = 0 then {} else waits t r' k')" by auto
  have "unat ?r < length t1" using assms(1) t1(2) by simp
  from table_update_ok [OF this t1(3), of 1 "\<lambda>_. []"] obtain t2 where
    t2: "table_update t1 ?r 1 (\<lambda>_. []) = Inr t2" "length t2 = length t1" "\<forall>row \<in> set t2. length row = 2"
      "\<forall>r' k'. k' < 2 \<longrightarrow> waits t2 r' k' = (if r' = ?r \<and> k' = 1 then {} else waits t1 r' k')" by auto
  let ?es = "set_rs2_valid (?row ! 1) (set_rs1_valid (?row ! 0) es)"
  have "rt_Resolve h es t p = Inr (?es, t2, ?row ! 0 \<noteq> [] \<or> ?row ! 1 \<noteq> [])"
    using assms(1) row t1(1) t2(1) by (simp add: rt_Resolve_def)
  moreover have "?es = (\<lambda>e. (es e)\<lparr>re_rs1_valid := re_rs1_valid (es e) \<or> e \<in> waits t ?r 0,
                   re_rs2_valid := re_rs2_valid (es e) \<or> e \<in> waits t ?r 1\<rparr>)"
    using assms(1) by (auto simp: set_rs_valid waits_def fun_eq_iff)
  moreover have "waits t2 r k = (if r = ?r then {} else waits t r k)" if "k < 2" for r k
    using that t1(4) t2(4) less_2_cases [OF that] by auto
  ultimately show ?thesis using t1(2) t2(2,3) by auto
qed

section \<open>Every handler keeps the invariant\<close>

definition rs_free_regs :: "inst_heap \<Rightarrow> ReservationStation \<Rightarrow> inst_ptr \<Rightarrow> bool" where
  "rs_free_regs h s p \<longleftrightarrow> (getIsRs1Forward (h p) \<longrightarrow> getPhyRs1 (h p) < rs_phy_reg_num s)
     \<and> (getIsRs2Forward (h p) \<longrightarrow> getPhyRs2 (h p) < rs_phy_reg_num s)"

definition rs_occupied :: "ReservationStation \<Rightarrow> nat" where
  "rs_occupied s = length (filter (\<lambda>e. \<not> re_is_issued (rs_entries s e)) (reservation_station s))"

definition rs_same_config :: "ReservationStation \<Rightarrow> ReservationStation \<Rightarrow> bool" where
  "rs_same_config s s' \<longleftrightarrow> rs_name s' = rs_name s \<and> rs_depth s' = rs_depth s
     \<and> rs_phy_reg_num s' = rs_phy_reg_num s \<and> rs_issue_num s' = rs_issue_num s"

lemma AllocateReStation_one_ok:
  assumes "rs_wf h s" "rs_free_regs h s p"
  shows "\<exists>s'. AllocateReStation_one h s p = Inr s' \<and> rs_wf h s' \<and> rs_occupied s' = rs_occupied s + 1
    \<and> rs_same_config s s'"
proof -
  let ?e = "rs_next_entry s"
  let ?es = "(rs_entries s)(?e := \<lparr>re_inst_ptr = p, re_rs1_valid = \<not> getIsRs1Forward (h p),
                                    re_rs2_valid = \<not> getIsRs2Forward (h p), re_is_issued = False\<rparr>)"
  let ?t = "rs_dependency_table s"
  have len: "length ?t = unat (rs_phy_reg_num s)" "\<forall>row \<in> set ?t. length row = 2"
    using assms(1) by (simp_all add: rs_wf_def rs_table_wf_def)
  from rt_Allocate_ok [OF len(2), of ?es ?e h] assms(2) len(1) obtain t' where
    t': "rt_Allocate h ?es ?t ?e = Inr t'" "length t' = length ?t" "\<forall>row \<in> set t'. length row = 2"
      "\<forall>r. waits t' r 0 = waits ?t r 0 \<union> {e'. e' = ?e \<and> getIsRs1Forward (h p) \<and> r = getPhyRs1 (h p)}"
      "\<forall>r. waits t' r 1 = waits ?t r 1 \<union> {e'. e' = ?e \<and> getIsRs2Forward (h p) \<and> r = getPhyRs2 (h p)}"
    by (auto simp: rs_free_regs_def word_less_nat_alt)
  let ?s = "s\<lparr>rs_next_entry := ?e + 1, rs_entries := ?es, rs_dependency_table := t',
              reservation_station := reservation_station s @ [?e]\<rparr>"
  have st: "\<forall>e \<in> set (reservation_station s). e < ?e"
    and wt: "\<forall>r k e. k < 2 \<longrightarrow> e \<in> waits ?t r k \<longrightarrow> e < ?e"
    using assms(1) unfolding rs_wf_def by blast+
  have fresh: "?e \<notin> set (reservation_station s)" "?e \<notin> waits ?t r 0" "?e \<notin> waits ?t r 1" for r
    using st wt [rule_format, of 0 ?e r] wt [rule_format, of 1 ?e r] by auto
  have old: "e \<noteq> ?e" if "e \<in> set (reservation_station s)" for e
    using that fresh(1) by blast
  have "rs_wf h ?s"
    unfolding rs_wf_def
  proof (intro conjI)
    show "\<forall>r k e. k < 2 \<longrightarrow> e \<in> waits (rs_dependency_table ?s) r k \<longrightarrow> e < rs_next_entry ?s"
      using assms(1) t'(4,5) by (auto simp: rs_wf_def less_2_cases_iff less_Suc_eq)
    show "\<forall>e \<in> set (reservation_station ?s).
          (\<forall>r. e \<in> waits (rs_dependency_table ?s) r 0 \<longleftrightarrow>
               \<not> re_rs1_valid (rs_entries ?s e) \<and> r = getPhyRs1 (h (rs_inst ?s e)))
        \<and> (\<forall>r. e \<in> waits (rs_dependency_table ?s) r 1 \<longleftrightarrow>
               \<not> re_rs2_valid (rs_entries ?s e) \<and> r = getPhyRs2 (h (rs_inst ?s e)))"
      using assms(1) t'(4,5) fresh old by (auto simp: rs_wf_def rs_inst_def)
  qed (use assms(1) t' fresh(1) in \<open>auto simp: rs_wf_def rs_table_wf_def less_Suc_eq\<close>)
  moreover have "filter (\<lambda>e. \<not> re_is_issued (?es e)) (reservation_station s)
      = filter (\<lambda>e. \<not> re_is_issued (rs_entries s e)) (reservation_station s)"
    using old by (intro filter_cong) auto
  then have "rs_occupied ?s = rs_occupied s + 1" by (simp add: rs_occupied_def)
  ultimately show ?thesis
    using t'(1) by (auto simp: AllocateReStation_one_def Let_def rs_same_config_def)
qed

lemma AllocateReStation_ok:
  assumes "rs_wf h s" "\<forall>p \<in> set g. rs_free_regs h s p"
  shows "\<exists>s'. foldE (AllocateReStation_one h) s g = Inr s' \<and> rs_wf h s'
    \<and> rs_occupied s' = rs_occupied s + length g \<and> rs_same_config s s'"
  using assms
proof (induction g arbitrary: s)
  case Nil
  then show ?case by (simp add: rs_same_config_def)
next
  case (Cons p g)
  from AllocateReStation_one_ok [OF Cons.prems(1), of p] Cons.prems(2) obtain s1 where
    s1: "AllocateReStation_one h s p = Inr s1" "rs_wf h s1" "rs_occupied s1 = rs_occupied s + 1"
      "rs_same_config s s1" by auto
  have "\<forall>p \<in> set g. rs_free_regs h s1 p"
    using Cons.prems(2) s1(4) by (simp add: rs_free_regs_def rs_same_config_def)
  from Cons.IH [OF s1(2) this] s1 show ?case by (auto simp: rs_same_config_def)
qed

lemma GetForwardingData_one_ok:
  assumes "rs_wf h s" "getPhyRd (h p) < rs_phy_reg_num s"
  shows "\<exists>s'. GetForwardingData_one h s p = Inr s' \<and> rs_wf h s' \<and> rs_occupied s' = rs_occupied s
    \<and> rs_same_config s s' \<and> reservation_station s' = reservation_station s
    \<and> (\<forall>e \<in> set (reservation_station s). rs_inst s' e = rs_inst s e
        \<and> re_rs1_valid (rs_entries s' e)
            = (re_rs1_valid (rs_entries s e) \<or> getPhyRs1 (h (rs_inst s e)) = getPhyRd (h p))
        \<and> re_rs2_valid (rs_entries s' e)
            = (re_rs2_valid (rs_entries s e) \<or> getPhyRs2 (h (rs_inst s e)) = getPhyRd (h p)))"
proof -
  let ?t = "rs_dependency_table s"
  have len: "unat (getPhyRd (h p)) < length ?t" "\<forall>row \<in> set ?t. length row = 2"
    using assms by (auto simp: rs_wf_def rs_table_wf_def word_less_nat_alt)
  from rt_Resolve_ok [of h p, OF len, of "rs_entries s"] obtain es' t' b where
    r: "rt_Resolve h (rs_entries s) ?t p = Inr (es', t', b)" "length t' = length ?t" "\<forall>row \<in> set t'. length row = 2"
      "\<And>r k. k < 2 \<Longrightarrow> waits t' r k = (if r = getPhyRd (h p) then {} else waits ?t r k)"
      "es' = (\<lambda>e. (rs_entries s e)\<lparr>re_rs1_valid := re_rs1_valid (rs_entries s e) \<or> e \<in> waits ?t (getPhyRd (h p)) 0,
                   re_rs2_valid := re_rs2_valid (rs_entries s e) \<or> e \<in> waits ?t (getPhyRd (h p)) 1\<rparr>)"
    by auto
  let ?s = "s\<lparr>rs_entries := es', rs_dependency_table := t'\<rparr>"
  have w: "e \<in> waits ?t r 0 \<longleftrightarrow> \<not> re_rs1_valid (rs_entries s e) \<and> r = getPhyRs1 (h (rs_inst s e))"
      "e \<in> waits ?t r 1 \<longleftrightarrow> \<not> re_rs2_valid (rs_entries s e) \<and> r = getPhyRs2 (h (rs_inst s e))"
    if "e \<in> set (reservation_station s)" for e r
    using assms(1) that unfolding rs_wf_def by blast+
  have v: "rs_inst ?s e = rs_inst s e"
      "re_rs1_valid (rs_entries ?s e) = (re_rs1_valid (rs_entries s e) \<or> getPhyRs1 (h (rs_inst s e)) = getPhyRd (h p))"
      "re_rs2_valid (rs_entries ?s e) = (re_rs2_valid (rs_entries s e) \<or> getPhyRs2 (h (rs_inst s e)) = getPhyRd (h p))"
    if "e \<in> set (reservation_station s)" for e
    using w [OF that] by (auto simp: r(5) rs_inst_def)
  have "rs_wf h ?s"
    unfolding rs_wf_def
  proof (intro conjI)
    show "\<forall>r k e. k < 2 \<longrightarrow> e \<in> waits (rs_dependency_table ?s) r k \<longrightarrow> e < rs_next_entry ?s"
      using assms(1) r(4) by (auto simp: rs_wf_def)
    show "\<forall>e \<in> set (reservation_station ?s).
          (\<forall>r. e \<in> waits (rs_dependency_table ?s) r 0 \<longleftrightarrow>
               \<not> re_rs1_valid (rs_entries ?s e) \<and> r = getPhyRs1 (h (rs_inst ?s e)))
        \<and> (\<forall>r. e \<in> waits (rs_dependency_table ?s) r 1 \<longleftrightarrow>
               \<not> re_rs2_valid (rs_entries ?s e) \<and> r = getPhyRs2 (h (rs_inst ?s e)))"
      using w v r(4) [of 0] r(4) [of 1] by auto
  qed (use assms(1) r(2,3) in \<open>auto simp: rs_wf_def rs_table_wf_def\<close>)
  moreover have "rs_occupied ?s = rs_occupied s" by (simp add: rs_occupied_def r(5))
  ultimately show ?thesis
    using r(1) v by (auto simp: GetForwardingData_one_def rs_same_config_def)
qed

lemma rs_wf_same_flags:
  assumes "rs_wf h s" "reservation_station s' = drop k (reservation_station s)"
    and "rs_dependency_table s' = rs_dependency_table s" "rs_next_entry s' = rs_next_entry s" "rs_same_config s s'"
    and "\<forall>e. rs_inst s' e = rs_inst s e \<and> re_rs1_valid (rs_entries s' e) = re_rs1_valid (rs_entries s e)
        \<and> re_rs2_valid (rs_entries s' e) = re_rs2_valid (rs_entries s e)"
  shows "rs_wf h s'"
proof -
  have sub: "set (drop k (reservation_station s)) \<subseteq> set (reservation_station s)" by (rule set_drop_subset)
  have eqs: "rs_phy_reg_num s' = rs_phy_reg_num s" "rs_inst s' = rs_inst s"
    "\<And>e. re_rs1_valid (rs_entries s' e) = re_rs1_valid (rs_entries s e)"
    "\<And>e. re_rs2_valid (rs_entries s' e) = re_rs2_valid (rs_entries s e)"
    using assms(5,6) by (auto simp: rs_same_config_def)
  show ?thesis
    unfolding rs_wf_def rs_table_wf_def assms(2-4) eqs
    using assms(1) [unfolded rs_wf_def rs_table_wf_def] sub distinct_drop by blast
qed

lemma PopInst_loop_drop:
  "\<exists>k. PopInst_loop es i q = drop k q \<and> (\<forall>e \<in> set (take k q). re_is_issued (es e))"
proof (induction es i q rule: PopInst_loop.induct)
  case (1 es i q)
  show ?case
  proof (cases "i < length q \<and> re_is_issued (es (hd q))")
    case True
    then obtain e q' where q: "q = e # q'" by (cases q) auto
    with 1 True obtain k where "PopInst_loop es (i + 1) q' = drop k q'" "\<forall>e \<in> set (take k q'). re_is_issued (es e)"
      by auto
    with True q show ?thesis by (intro exI [of _ "Suc k"]) (simp add: PopInst_loop.simps [of es i])
  next
    case False
    then have "PopInst_loop es i q = q" by (subst PopInst_loop.simps) auto
    then show ?thesis by (intro exI [of _ 0]) simp
  qed
qed

lemma PassingInst_keeps:
  assumes "rs_wf h s" "PassingInst s = (s', effs)" "rs_occupied s \<le> unat (rs_depth s)"
  shows "rs_wf h s' \<and> rs_occupied s' + length (rs_selected s) = rs_occupied s \<and> rs_same_config s s'"
proof (cases "reservation_station s = []")
  case True
  with assms show ?thesis
    by (auto simp: PassingInst_def rs_selected_def rs_pass_def rs_same_config_def)
next
  case False
  have d: "distinct (reservation_station s)" using assms(1) by (simp add: rs_wf_def)
  let ?l = "rs_selected s" and ?q = "reservation_station s" and ?es = "rs_entries s"
  have s': "s' = s\<lparr>rs_entries := rs_mark ?l ?es, rs_credit := rs_credit s - word_of_nat (length ?l)\<rparr>"
    using PassingInst_spec [OF d False] assms(2) by simp
  have "rs_wf h s'"
    by (rule rs_wf_same_flags [OF assms(1), where k = 0])
      (auto simp: s' rs_same_config_def rs_inst_def rs_mark_def)
  moreover have "length (filter (\<lambda>e. \<not> re_is_issued (rs_mark ?l ?es e)) ?q) + length ?l
      = length (filter (\<lambda>e. \<not> re_is_issued (?es e)) ?q)"
  proof -
    have sub: "set ?l \<subseteq> {e \<in> set ?q. \<not> re_is_issued (?es e)}"
      unfolding rs_selected_def rs_pass_def using set_take_subset by (fastforce simp: rs_ready_def)
    have dl: "distinct ?l" unfolding rs_selected_def rs_pass_def using d by simp
    have "set (filter (\<lambda>e. \<not> re_is_issued (rs_mark ?l ?es e)) ?q)
        = {e \<in> set ?q. \<not> re_is_issued (?es e)} - set ?l"
      by (auto simp: rs_mark_def)
    then have "length (filter (\<lambda>e. \<not> re_is_issued (rs_mark ?l ?es e)) ?q)
        = card ({e \<in> set ?q. \<not> re_is_issued (?es e)} - set ?l)"
      using distinct_card [of "filter (\<lambda>e. \<not> re_is_issued (rs_mark ?l ?es e)) ?q"] d by simp
    also have "\<dots> = card {e \<in> set ?q. \<not> re_is_issued (?es e)} - length ?l"
      using sub dl by (subst card_Diff_subset) (auto simp: distinct_card)
    also have "card {e \<in> set ?q. \<not> re_is_issued (?es e)} = length (filter (\<lambda>e. \<not> re_is_issued (?es e)) ?q)"
      using distinct_card [of "filter (\<lambda>e. \<not> re_is_issued (?es e)) ?q"] d by simp
    finally show ?thesis
      using card_mono [OF _ sub] dl distinct_card [of ?l]
        distinct_card [of "filter (\<lambda>e. \<not> re_is_issued (?es e)) ?q"] d by simp
  qed
  ultimately show ?thesis by (simp add: rs_occupied_def s' rs_same_config_def)
qed

lemma rs_PopInst_keeps:
  assumes "rs_wf h s" "rs_PopInst s = (s', effs)"
  shows "rs_wf h s' \<and> rs_occupied s' = rs_occupied s \<and> rs_same_config s s'"
proof -
  from PopInst_loop_drop [of "rs_entries s" 0 "reservation_station s"] obtain k where
    k: "PopInst_loop (rs_entries s) 0 (reservation_station s) = drop k (reservation_station s)"
      "\<forall>e \<in> set (take k (reservation_station s)). re_is_issued (rs_entries s e)" by blast
  then have s': "s' = s\<lparr>reservation_station := drop k (reservation_station s)\<rparr>"
    using assms(2) by (simp add: rs_PopInst_def Let_def)
  have "rs_wf h s'"
    by (rule rs_wf_same_flags [OF assms(1), where k = k]) (auto simp: s' rs_same_config_def rs_inst_def)
  moreover have "filter (\<lambda>e. \<not> re_is_issued (rs_entries s e)) (reservation_station s)
      = filter (\<lambda>e. \<not> re_is_issued (rs_entries s e)) (drop k (reservation_station s))"
    using k(2) by (subst append_take_drop_id [of k, symmetric], subst filter_append) (simp add: filter_empty_conv)
  ultimately show ?thesis by (simp add: rs_occupied_def s' rs_same_config_def)
qed

section \<open>The station as a transition system\<close>

text \<open>
  A step of the pair of instruction store and station. Other units may change the store, but not the
  physical source registers of the instructions in the station.
\<close>

inductive rs_step :: "inst_heap \<times> ReservationStation \<Rightarrow> credit_event \<Rightarrow> inst_heap \<times> ReservationStation \<Rightarrow> bool" where
  rs_allocate: "igp_name g = rs_name s \<Longrightarrow> \<forall>p \<in> set (igp_inst_group g). rs_free_regs h s p \<Longrightarrow>
    AllocateReStation h s g = Inr (s', effs) \<Longrightarrow>
    rs_step (h, s) (Received (length (igp_inst_group g))) (h, s')"
| rs_other: "igp_name g \<noteq> rs_name s \<Longrightarrow> AllocateReStation h s g = Inr (s', effs) \<Longrightarrow>
    rs_step (h, s) (Returned 0) (h, s')"
| rs_forward: "\<forall>p \<in> set g. getPhyRd (h p) < rs_phy_reg_num s \<Longrightarrow> GetForwardingData h s g = Inr s' \<Longrightarrow>
    rs_step (h, s) (Returned 0) (h, s')"
| rs_passing: "PassingInst s = (s', effs) \<Longrightarrow>
    rs_step (h, s) (Returned (sum_list (map (\<lambda>e. case e of reservation_preceding_credit_out cp \<Rightarrow>
      unat (cp_credit cp) | _ \<Rightarrow> 0) effs))) (h, s')"
| rs_pop: "rs_PopInst s = (s', effs) \<Longrightarrow> rs_step (h, s) (Returned 0) (h, s')"
| rs_get_credit: "rs_AcceptCredit s c = (s', effs) \<Longrightarrow> rs_step (h, s) (Returned 0) (h, s')"
| rs_store: "\<forall>e \<in> set (reservation_station s). getPhyRs1 (h' (rs_inst s e)) = getPhyRs1 (h (rs_inst s e))
      \<and> getPhyRs2 (h' (rs_inst s e)) = getPhyRs2 (h (rs_inst s e)) \<Longrightarrow> rs_step (h, s) (Returned 0) (h', s)"
| rs_flush: "rs_HandleFlush s fc = (s', effs) \<Longrightarrow> rs_step (h, s) (Flushed (unat (rs_depth s))) (h, s')"

inductive_cases rs_recvE: "rs_step x (Received n) y"
inductive_cases rs_flushE: "rs_step x (Flushed n) y"

definition rs_good :: "inst_heap \<times> ReservationStation \<Rightarrow> bool" where
  "rs_good = (\<lambda>(h, s). rs_wf h s)"

definition rs_occ :: "inst_heap \<times> ReservationStation \<Rightarrow> nat" where
  "rs_occ x = rs_occupied (snd x)"

definition rs_cap :: "inst_heap \<times> ReservationStation \<Rightarrow> nat" where
  "rs_cap x = unat (rs_depth (snd x))"

lemma GetForwardingData_ok:
  assumes "rs_wf h s" "\<forall>p \<in> set g. getPhyRd (h p) < rs_phy_reg_num s"
  shows "\<exists>s'. GetForwardingData h s g = Inr s' \<and> rs_wf h s' \<and> rs_occupied s' = rs_occupied s
    \<and> rs_same_config s s' \<and> reservation_station s' = reservation_station s"
  using assms unfolding GetForwardingData_def
proof (induction g arbitrary: s)
  case Nil
  then show ?case by (simp add: rs_same_config_def)
next
  case (Cons p g)
  from GetForwardingData_one_ok [OF Cons.prems(1), of p] Cons.prems(2) obtain s1 where
    s1: "GetForwardingData_one h s p = Inr s1" "rs_wf h s1" "rs_occupied s1 = rs_occupied s"
      "rs_same_config s s1" "reservation_station s1 = reservation_station s" by auto
  have "\<forall>p \<in> set g. getPhyRd (h p) < rs_phy_reg_num s1"
    using Cons.prems(2) s1(4) by (simp add: rs_same_config_def)
  from Cons.IH [OF s1(2) this] s1 show ?case by (auto simp: rs_same_config_def)
qed

lemma rs_wf_heap:
  assumes "rs_wf h s" "\<forall>e \<in> set (reservation_station s). getPhyRs1 (h' (rs_inst s e)) = getPhyRs1 (h (rs_inst s e))
      \<and> getPhyRs2 (h' (rs_inst s e)) = getPhyRs2 (h (rs_inst s e))"
  shows "rs_wf h' s"
  using assms unfolding rs_wf_def by (simp del: getPhyRs1_def getPhyRs2_def)

lemma PassingInst_returned:
  assumes "rs_wf h s" "PassingInst s = (s', effs)" "rs_occupied s \<le> unat (rs_depth s)"
  shows "sum_list (map (\<lambda>e. case e of reservation_preceding_credit_out cp \<Rightarrow> unat (cp_credit cp) | _ \<Rightarrow> 0) effs)
    = length (rs_selected s)"
proof (cases "reservation_station s = []")
  case True
  with assms(2) show ?thesis by (auto simp: PassingInst_def rs_selected_def rs_pass_def)
next
  case False
  have d: "distinct (reservation_station s)" using assms(1) by (simp add: rs_wf_def)
  have "length (rs_selected s) \<le> rs_occupied s" using PassingInst_keeps [OF assms] by simp
  moreover have "unat (rs_depth s) < 2 ^ 64" by (rule less_le_trans [OF unsigned_less]) simp
  ultimately have "unat (word_of_nat (length (rs_selected s)) :: u64) = length (rs_selected s)"
    using assms(3) by (simp add: unat_of_nat)
  with PassingInst_spec [OF d False] assms(2) show ?thesis by auto
qed

lemma rs_returned_law:
  assumes "rs_step x (Returned n) y" "rs_good x" "rs_occ x \<le> rs_cap x"
  shows "rs_good y \<and> rs_occ y + n = rs_occ x \<and> rs_cap y = rs_cap x"
  using assms(1)
proof cases
  case (rs_other g s h s' effs)
  then show ?thesis using assms(2) by (simp add: AllocateReStation_def rs_occ_def rs_cap_def)
next
  case (rs_forward g h s s')
  with GetForwardingData_ok [of h s g] assms(2) show ?thesis
    by (auto simp: rs_good_def rs_occ_def rs_cap_def rs_same_config_def)
next
  case (rs_passing s s' effs h)
  with PassingInst_keeps [of h s s' effs] PassingInst_returned [of h s s' effs] assms(2,3) show ?thesis
    by (auto simp: rs_good_def rs_occ_def rs_cap_def rs_same_config_def)
next
  case (rs_pop s s' effs h)
  with rs_PopInst_keeps [of h s s' effs] assms(2) show ?thesis
    by (auto simp: rs_good_def rs_occ_def rs_cap_def rs_same_config_def)
next
  case (rs_get_credit s c s' effs h)
  moreover have "rs_wf h (s\<lparr>rs_credit := rs_credit s + c\<rparr>)" if "rs_wf h s"
    by (rule rs_wf_same_flags [OF that, where k = 0]) (auto simp: rs_same_config_def rs_inst_def)
  ultimately show ?thesis
    using assms(2) by (auto simp: rs_AcceptCredit_def rs_good_def rs_occ_def rs_cap_def rs_occupied_def)
next
  case (rs_store s h' h)
  with rs_wf_heap [of h s h'] assms(2) show ?thesis by (auto simp: rs_good_def rs_occ_def rs_cap_def)
qed

lemma rs_flush_wf:
  assumes "rs_wf h s" "rs_HandleFlush s fc = (s', effs)"
  shows "rs_wf h s' \<and> rs_occupied s' = 0 \<and> rs_depth s' = rs_depth s"
proof -
  have "rs_wf h s'"
    by (rule rs_wf_same_flags [OF assms(1), where k = "length (reservation_station s)"])
      (use assms(2) in \<open>auto simp: rs_HandleFlush_def rs_same_config_def rs_inst_def\<close>)
  with assms(2) show ?thesis by (auto simp: rs_HandleFlush_def rs_occupied_def)
qed

interpretation rs: credit_unit rs_step rs_occ rs_cap rs_good
proof
  fix x n y
  show "rs_good y \<and> rs_occ y = rs_occ x + n \<and> rs_cap y = rs_cap x"
    if "rs_step x (Received n) y" "rs_good x"
    using that by (elim rs_recvE) (auto simp: rs_good_def AllocateReStation_def rs_occ_def rs_cap_def
        rs_same_config_def result_simps dest: AllocateReStation_ok)
  show "rs_good y \<and> rs_occ y + n = rs_occ x \<and> rs_cap y = rs_cap x"
    if "rs_step x (Returned n) y" "rs_good x" "rs_occ x \<le> rs_cap x"
    using that by (rule rs_returned_law)
  show "rs_good y \<and> rs_occ y + n = rs_cap x \<and> rs_cap y = rs_cap x"
    if "rs_step x (Flushed n) y" "rs_good x"
    using that by (elim rs_flushE) (auto simp: rs_good_def rs_occ_def rs_cap_def dest: rs_flush_wf)
qed

lemma mk_ReservationStation_good:
  "rs_good (h, mk_ReservationStation n p) \<and> rs_occ (h, mk_ReservationStation n p) = 0
   \<and> rs_cap (h, mk_ReservationStation n p) = unat (rsp_queue_depth p)"
proof -
  have "waits (mk_ReservationTable m) r k = {}" if "k < 2" for m r k
    using that by (auto simp: waits_def mk_ReservationTable_def)
  then show ?thesis
    by (simp add: rs_good_def rs_occ_def rs_cap_def rs_wf_def rs_table_wf_def mk_ReservationStation_def
        rs_occupied_def mk_ReservationTable_def)
qed

section \<open>Properties\<close>

text \<open>
  The station never overflows: whatever handlers run, in whatever order, the instructions that wait
  in the station plus the credits the dispatch stage holds for it are exactly its depth.
\<close>

theorem ReservationStation_credit_balance:
  assumes "credit_run rs_step ((h0, mk_ReservationStation n p), unat (rsp_queue_depth p)) ((h, s), c)"
  shows "length (filter (\<lambda>e. \<not> re_is_issued (rs_entries s e)) (reservation_station s)) + c
    = unat (rsp_queue_depth p)"
  using rs.never_overflows [of "(h0, mk_ReservationStation n p)" "(h, s)" c] assms
    mk_ReservationStation_good [of h0 n p]
  by (simp add: rs_occ_def rs_occupied_def)

definition rs_example :: ReservationStation where
  "rs_example = mk_ReservationStation ''rs'' \<lparr>rsp_issue_width = 1, rsp_queue_depth = 4, rsp_phy_reg_num = 8\<rparr>"

text \<open>Instruction 0 writes register 5; instruction 1 needs it as its first operand.\<close>

definition rs_example_heap :: inst_heap where
  "rs_example_heap p = (if p = 0 then setPhyRd 5 (mk_Inst undefined undefined undefined)
     else setPhyRs1 5 (setIsRs1Forward True (mk_Inst undefined undefined undefined)))"

definition rs_example_full :: ReservationStation where
  "rs_example_full = rs_example\<lparr>rs_next_entry := 1,
     rs_entries := (rs_entries rs_example)(0 := \<lparr>re_inst_ptr = 1, re_rs1_valid = False, re_rs2_valid = True,
       re_is_issued = False\<rparr>),
     rs_dependency_table := (rs_dependency_table rs_example)[5 := [[0], []]],
     reservation_station := [0]\<rparr>"

lemma mk_ReservationTable_rows: "mk_ReservationTable n = replicate (unat n) [[], []]"
  by (simp add: mk_ReservationTable_def numeral_2_eq_2)

lemma rs_example_allocates:
  "AllocateReStation rs_example_heap rs_example \<lparr>igp_name = ''rs'', igp_inst_group = [1]\<rparr>
     = Inr (rs_example_full, [pop_event 1, passing_event 0])"
  by (simp add: AllocateReStation_def rs_example_def mk_ReservationStation_def AllocateReStation_one_def
      rs_example_heap_def mk_Inst_def rt_Allocate_def table_update_def mk_ReservationTable_rows
      rs_example_full_def)

lemma rs_example_run:
  "credit_run rs_step ((rs_example_heap, rs_example), 4) ((rs_example_heap, rs_example_full), 3)"
proof -
  have "rs_step (rs_example_heap, rs_example)
      (Received (length (igp_inst_group \<lparr>igp_name = ''rs'', igp_inst_group = [1]\<rparr>)))
      (rs_example_heap, rs_example_full)"
    by (rule rs_step.rs_allocate [OF _ _ rs_example_allocates])
      (simp_all add: rs_example_def mk_ReservationStation_def rs_free_regs_def rs_example_heap_def mk_Inst_def)
  then have "rs_step (rs_example_heap, rs_example) (Received 1) (rs_example_heap, rs_example_full)" by simp
  from credit_recv_first [where step = rs_step, OF this, of 4] show ?thesis by simp
qed

lemma rs_example_full_wf: "rs_wf rs_example_heap rs_example_full"
proof -
  let ?p = "\<lparr>rsp_issue_width = 1, rsp_queue_depth = 4, rsp_phy_reg_num = 8\<rparr>"
  have "rs_good (rs_example_heap, rs_example)" "rs_occ (rs_example_heap, rs_example) = 0"
      "rs_cap (rs_example_heap, rs_example) = 4"
    using mk_ReservationStation_good [of rs_example_heap "''rs''" ?p] by (simp_all add: rs_example_def)
  with rs.never_overflows [of "(rs_example_heap, rs_example)" "(rs_example_heap, rs_example_full)" 3]
    rs_example_run show ?thesis by (simp add: rs_good_def)
qed

theorem ReservationStation_credit_balance_witness:
  "credit_run rs_step ((rs_example_heap, rs_example), 4) ((rs_example_heap, rs_example_full), 3)
   \<and> length (filter (\<lambda>e. \<not> re_is_issued (rs_entries rs_example_full e)) (reservation_station rs_example_full))
     + 3 = 4"
  using ReservationStation_credit_balance [of rs_example_heap "''rs''"
      "\<lparr>rsp_issue_width = 1, rsp_queue_depth = 4, rsp_phy_reg_num = 8\<rparr>" rs_example_heap rs_example_full 3]
    rs_example_run
  by (simp add: rs_example_def)

text \<open>
  (C7) No lost and no spurious wake-up: in every reachable state of the station, forwarding the result of
  an instruction makes exactly those waiting operands valid that name its destination register, and
  leaves the validity of every other operand as it was.
\<close>

theorem ReservationStation_wakeup_exact:
  assumes "credit_run rs_step ((h0, mk_ReservationStation n p), unat (rsp_queue_depth p)) ((h, s), c)"
    and "getPhyRd (h q) < rs_phy_reg_num s"
  shows "\<exists>s'. GetForwardingData h s [q] = Inr s' \<and> reservation_station s' = reservation_station s
    \<and> (\<forall>e \<in> set (reservation_station s).
          re_rs1_valid (rs_entries s' e)
            = (re_rs1_valid (rs_entries s e) \<or> getPhyRs1 (h (rs_inst s e)) = getPhyRd (h q))
        \<and> re_rs2_valid (rs_entries s' e)
            = (re_rs2_valid (rs_entries s e) \<or> getPhyRs2 (h (rs_inst s e)) = getPhyRd (h q)))"
proof -
  have "rs_wf h s"
    using rs.never_overflows [of "(h0, mk_ReservationStation n p)" "(h, s)" c] assms(1)
      mk_ReservationStation_good [of h0 n p] by (simp add: rs_good_def)
  from GetForwardingData_one_ok [OF this assms(2)] show ?thesis
    by (auto simp: GetForwardingData_def simp del: getPhyRs1_def getPhyRs2_def getPhyRd_def)
qed

theorem ReservationStation_wakeup_exact_witness:
  "\<exists>s'. GetForwardingData rs_example_heap rs_example_full [0] = Inr s' \<and> re_rs1_valid (rs_entries s' 0)"
  using ReservationStation_wakeup_exact [of rs_example_heap "''rs''"
      "\<lparr>rsp_issue_width = 1, rsp_queue_depth = 4, rsp_phy_reg_num = 8\<rparr>" rs_example_heap rs_example_full 3 0]
    rs_example_run
  by (auto simp: rs_example_def rs_example_full_def mk_ReservationStation_def rs_example_heap_def mk_Inst_def
      rs_inst_def)

text \<open>
  \<open>PassingInst\<close> sends the oldest entries whose two operands are valid and that were not issued, as
  many as the credit of the functional unit and the issue width allow and no more; it marks exactly
  these as issued, pays one credit for each without going below zero and returns as many credits to
  the dispatch stage.
\<close>

theorem ReservationStation_passing_oldest_ready:
  assumes "rs_wf h s" "reservation_station s \<noteq> []" "PassingInst s = (s', effs)"
  shows "rs_entries s' = rs_mark (rs_selected s) (rs_entries s)
    \<and> unat (rs_credit s') + length (rs_selected s) = unat (rs_credit s)
    \<and> length (rs_selected s) \<le> unat (rs_issue_num s)
    \<and> rs_selected s = take (length (rs_selected s)) (filter (rs_ready (rs_entries s)) (reservation_station s))
    \<and> (rs_selected s \<noteq> [] \<longrightarrow> reservation_following_inst_out (map (rs_inst s) (rs_selected s)) \<in> set effs
        \<and> reservation_preceding_credit_out
            \<lparr>cp_name = rs_name s, cp_credit = word_of_nat (length (rs_selected s))\<rparr> \<in> set effs)"
proof -
  have d: "distinct (reservation_station s)" using assms(1) by (simp add: rs_wf_def)
  have "unat (rs_credit s - word_of_nat (length (rs_selected s))) + length (rs_selected s) = unat (rs_credit s)"
    using unat_minus_of_nat [OF rs_selected_bound(1) [of s]] rs_selected_bound(1) [of s] by simp
  moreover have "rs_selected s = take (length (rs_selected s)) (filter (rs_ready (rs_entries s)) (reservation_station s))"
    by (simp add: rs_selected_def rs_pass_def min_def)
  ultimately show ?thesis
    using PassingInst_spec [OF d assms(2)] assms(3) rs_selected_bound(2) [of s] by auto
qed

theorem ReservationStation_passing_oldest_ready_witness:
  "rs_wf rs_example_heap rs_example_full
   \<and> rs_entries (fst (PassingInst (rs_example_full\<lparr>rs_credit := 2\<rparr>))) 0 = rs_entries rs_example_full 0"
proof -
  have wf2: "rs_wf rs_example_heap (rs_example_full\<lparr>rs_credit := 2\<rparr>)"
    by (rule rs_wf_same_flags [OF rs_example_full_wf, where k = 0]) (auto simp: rs_same_config_def rs_inst_def)
  have ne: "reservation_station (rs_example_full\<lparr>rs_credit := 2\<rparr>) \<noteq> []" by (simp add: rs_example_full_def)
  obtain s' effs where p: "PassingInst (rs_example_full\<lparr>rs_credit := 2\<rparr>) = (s', effs)" by fastforce
  have "rs_selected (rs_example_full\<lparr>rs_credit := 2\<rparr>) = []"
    by (simp add: rs_selected_def rs_pass_def rs_example_full_def rs_ready_def)
  with ReservationStation_passing_oldest_ready [OF wf2 ne p] rs_example_full_wf p show ?thesis
    by (simp add: rs_mark_def)
qed

text \<open>
  \<open>PopInst_\<close> compares a growing counter with the shrinking size of the station: when all \<open>n\<close> entries
  are issued it removes only the first half of them, rounded up, and keeps the rest.
\<close>

theorem ReservationStation_pop_keeps_half:
  assumes "\<forall>e \<in> set (reservation_station s). re_is_issued (rs_entries s e)"
  shows "reservation_station (fst (rs_PopInst s))
    = drop ((length (reservation_station s) + 1) div 2) (reservation_station s)"
proof -
  have "PopInst_loop es i q = drop ((length q - i + 1) div 2) q" if "\<forall>e \<in> set q. re_is_issued (es e)" for es i q
    using that
  proof (induction es i q rule: PopInst_loop.induct)
    case (1 es i q)
    show ?case
    proof (cases "i < length q")
      case True
      then obtain e q' where q: "q = e # q'" by (cases q) auto
      obtain d where d: "length q' = i + d" using True q by (auto simp: less_Suc_eq_le dest: le_Suc_ex)
      have "PopInst_loop es i q = PopInst_loop es (i + 1) q'"
        using True q 1(2) by (simp add: PopInst_loop.simps [of es i])
      also have "\<dots> = drop ((length q' - (i + 1) + 1) div 2) q'"
        using 1(1) [of] True q 1(2) by simp
      also have "\<dots> = drop ((length q - i + 1) div 2) q"
        using d q by (cases d) auto
      finally show ?thesis .
    next
      case False
      then show ?thesis by (simp add: PopInst_loop.simps [of es i])
    qed
  qed
  with assms show ?thesis by (simp add: rs_PopInst_def Let_def)
qed

theorem ReservationStation_pop_keeps_half_witness:
  "reservation_station (fst (rs_PopInst (rs_example\<lparr>reservation_station := [0, 1, 2, 3],
     rs_entries := (\<lambda>_. \<lparr>re_inst_ptr = 0, re_rs1_valid = True, re_rs2_valid = True, re_is_issued = True\<rparr>)\<rparr>)))
   = [2, 3]"
  using ReservationStation_pop_keeps_half [of "rs_example\<lparr>reservation_station := [0, 1, 2, 3],
     rs_entries := (\<lambda>_. \<lparr>re_inst_ptr = 0, re_rs1_valid = True, re_rs2_valid = True, re_is_issued = True\<rparr>)\<rparr>"]
  by simp

end
