(* ===== verification/Perfect_Fu.thy ===== *)
theory Perfect_Fu
  imports Reservation_Station
begin

text \<open>
  \<open>core/func_unit/PerfectFu\<close>: a functional unit that hands every instruction on in the cycle it arrives,
  up to its width, and the link between it and the reservation station in front of it. The link carries
  instruction groups one way and credits the other way.
\<close>

section \<open>Parameters, state, output ports\<close>

record PerfectFuParameter =
  fup_issue_width :: u32
  fup_queue_depth :: u32

record PerfectFu =
  fu_name :: string
  alu_queue :: "inst_ptr list"
  alu_depth :: u32
  alu_width :: u32
  fu_credit :: u32

datatype fu_effect =
    func_rs_credit_out Credit
  | func_following_finish_out InstGroupPair
  | func_branch_resolve_inst_out inst_ptr
  | write_back_event nat

section \<open>Handlers\<close>

definition mk_PerfectFu :: "string \<Rightarrow> PerfectFuParameter \<Rightarrow> PerfectFu" where
  "mk_PerfectFu n p = \<lparr>fu_name = n, alu_queue = [], alu_depth = fup_queue_depth p,
     alu_width = fup_issue_width p, fu_credit = 0\<rparr>"

definition fu_SendInitCredit :: "PerfectFu \<Rightarrow> fu_effect list" where
  "fu_SendInitCredit f = [func_rs_credit_out (ucast (alu_depth f))]"

definition fu_HandleFlush :: "PerfectFu \<Rightarrow> FlushingCriteria \<Rightarrow> PerfectFu \<times> fu_effect list" where
  "fu_HandleFlush f fc =
     (f\<lparr>alu_queue := []\<rparr>, [func_rs_credit_out (word_of_nat (length (alu_queue f)))])"

text \<open>The credit field has 32 bits and the credit of the pair 64.\<close>

definition fu_AcceptCredit :: "PerfectFu \<Rightarrow> CreditPair \<Rightarrow> PerfectFu \<times> fu_effect list" where
  "fu_AcceptCredit f cp =
     (if cp_name cp \<noteq> fu_name f then (f, [])
      else (f\<lparr>fu_credit := ucast (ucast (fu_credit f) + cp_credit cp)\<rparr>, [write_back_event 0]))"

definition fu_Allocate :: "PerfectFu \<Rightarrow> InstGroup \<Rightarrow> PerfectFu \<times> fu_effect list" where
  "fu_Allocate f g = (f\<lparr>alu_queue := fold (\<lambda>p q. q @ [p]) g (alu_queue f)\<rparr>, [write_back_event 0])"

text \<open>
  The loop of \<open>WriteBack_\<close>. Its counter is an \<open>int\<close> that is compared with the unsigned width, so it is kept
  as the 32 bits of the comparison; incrementing the largest \<open>int\<close> has no meaning.
\<close>

fun fu_WriteBack_loop :: "u32 \<Rightarrow> u32 \<Rightarrow> InstGroup \<Rightarrow> inst_ptr list \<Rightarrow> (InstGroup \<times> inst_ptr list) result" where
  "fu_WriteBack_loop width i g [] = Inr (g, [])"
| "fu_WriteBack_loop width i g (p # q) =
     (if i < width then
        if i = 0x7FFFFFFF then Inl (Undefined ''signed overflow'')
        else fu_WriteBack_loop width (i + 1) (emplace_back g p) q
      else Inr (g, p # q))"

definition fu_WriteBack :: "PerfectFu \<Rightarrow> (PerfectFu \<times> fu_effect list) result" where
  "fu_WriteBack f =
     bindE (fu_WriteBack_loop (alu_width f) 0 [] (alu_queue f))
     (\<lambda>(g, q). Inr (f\<lparr>alu_queue := q\<rparr>,
        if g \<noteq> [] then [func_following_finish_out \<lparr>igp_name = fu_name f, igp_inst_group = g\<rparr>,
                         func_rs_credit_out (word_of_nat (length g))] else []))"

definition fu_Process :: "PerfectFu \<Rightarrow> inst_ptr \<Rightarrow> PerfectFu" where
  "fu_Process f p = f"

definition fu_DummyFunc :: "PerfectFu \<Rightarrow> InstGroup \<Rightarrow> PerfectFu" where
  "fu_DummyFunc f g = f"

section \<open>What the handlers do\<close>

lemma fu_Allocate_queue [simp]: "fu_Allocate f g = (f\<lparr>alu_queue := alu_queue f @ g\<rparr>, [write_back_event 0])"
proof -
  have "fold (\<lambda>p q. q @ [p]) g q = q @ g" for q :: "inst_ptr list"
    by (induction g arbitrary: q) auto
  then show ?thesis by (simp add: fu_Allocate_def)
qed

lemma fu_WriteBack_loop_spec:
  assumes "unat i + length q < 2 ^ 31"
  shows "fu_WriteBack_loop w i g q = Inr (g @ take (unat w - unat i) q, drop (unat w - unat i) q)"
  using assms
proof (induction w i g q rule: fu_WriteBack_loop.induct)
  case (1 width i g)
  then show ?case by simp
next
  case (2 width i g p q)
  show ?case
  proof (cases "i < width")
    case True
    have ne: "i \<noteq> 0x7FFFFFFF" using "2.prems" by auto
    have i1: "unat (i + 1) = unat i + 1" by (rule unat_plus_one_less [OF True])
    have d: "unat width - unat i = Suc (unat width - unat (i + 1))"
      using True i1 by (simp add: word_less_nat_alt)
    have "unat (i + 1) + length q < 2 ^ 31" using "2.prems" i1 by simp
    from "2.IH" [OF True ne this] True ne d show ?thesis by simp
  next
    case False
    then show ?thesis by (simp add: word_less_nat_alt)
  qed
qed

lemma fu_WriteBack_spec:
  assumes "length (alu_queue f) < 2 ^ 31"
  shows "fu_WriteBack f = Inr (f\<lparr>alu_queue := drop (unat (alu_width f)) (alu_queue f)\<rparr>,
     let g = take (unat (alu_width f)) (alu_queue f) in
     if g \<noteq> [] then [func_following_finish_out \<lparr>igp_name = fu_name f, igp_inst_group = g\<rparr>,
                     func_rs_credit_out (word_of_nat (length g))] else [])"
  using fu_WriteBack_loop_spec [of 0 "alu_queue f" "alu_width f" "[]"] assms by (simp add: fu_WriteBack_def)

lemma fu_WriteBack_split:
  assumes "fu_WriteBack_loop w i g q = Inr (g', q')"
  shows "g' @ q' = g @ q"
  using assms
  by (induction w i g q rule: fu_WriteBack_loop.induct) (auto split: if_splits)

section \<open>The unit towards a sender that keeps its credits\<close>

definition fu_sent :: "fu_effect list \<Rightarrow> Credit list" where
  "fu_sent effs = concat (map (\<lambda>e. case e of func_rs_credit_out c \<Rightarrow> [c] | _ \<Rightarrow> []) effs)"

lemma fu_sent_simps [simp]:
  "fu_sent [] = []" "fu_sent (func_rs_credit_out c # es) = c # fu_sent es"
  "fu_sent (func_following_finish_out g # es) = fu_sent es" "fu_sent (write_back_event n # es) = fu_sent es"
  by (simp_all add: fu_sent_def)

inductive fu_step :: "PerfectFu \<Rightarrow> credit_event \<Rightarrow> PerfectFu \<Rightarrow> bool" where
  fu_allocate: "fu_Allocate f g = (f', effs) \<Longrightarrow> fu_step f (Received (length g)) f'"
| fu_write_back: "fu_WriteBack f = Inr (f', effs) \<Longrightarrow> fu_step f (Returned (sum_credits (fu_sent effs))) f'"
| fu_flush: "fu_HandleFlush f fc = (f', effs) \<Longrightarrow> fu_step f (Returned (sum_credits (fu_sent effs))) f'"
| fu_wb_credit: "fu_AcceptCredit f cp = (f', effs) \<Longrightarrow> fu_step f (Returned 0) f'"

inductive_cases fu_recvE: "fu_step f (Received n) f'"
inductive_cases fu_flushedE: "fu_step f (Flushed n) f'"

definition fu_occ :: "PerfectFu \<Rightarrow> nat" where
  "fu_occ f = length (alu_queue f)"

definition fu_cap :: "PerfectFu \<Rightarrow> nat" where
  "fu_cap f = unat (alu_depth f)"

definition fu_wf :: "PerfectFu \<Rightarrow> bool" where
  "fu_wf f \<longleftrightarrow> alu_depth f < 2 ^ 31"

lemma fu_occ_word:
  assumes "n \<le> fu_occ f" "fu_occ f \<le> fu_cap f"
  shows "unat (word_of_nat n :: u64) = n"
proof -
  have "unat (alu_depth f) < 2 ^ 32" by (rule less_le_trans [OF unsigned_less]) simp
  then have "n < 2 ^ 64" using assms by (simp add: fu_occ_def fu_cap_def)
  then show ?thesis by (simp add: unat_of_nat)
qed

lemma fu_wf_bound: "fu_wf f \<Longrightarrow> fu_occ f \<le> fu_cap f \<Longrightarrow> length (alu_queue f) < 2 ^ 31"
  by (simp add: fu_wf_def fu_occ_def fu_cap_def word_less_nat_alt)

lemma fu_WriteBack_balance:
  assumes "fu_WriteBack f = Inr (f', effs)" "fu_wf f" "fu_occ f \<le> fu_cap f"
  shows "fu_wf f' \<and> fu_occ f' + sum_credits (fu_sent effs) = fu_occ f \<and> fu_cap f' = fu_cap f"
proof -
  have "unat (word_of_nat (length (take (unat (alu_width f)) (alu_queue f))) :: u64)
      = length (take (unat (alu_width f)) (alu_queue f))"
    by (rule fu_occ_word [OF _ assms(3)]) (simp add: fu_occ_def)
  with fu_WriteBack_spec [OF fu_wf_bound [OF assms(2,3)]] assms(1,2) show ?thesis
    by (auto simp: Let_def fu_wf_def fu_occ_def fu_cap_def split: if_splits)
qed

lemma fu_HandleFlush_balance:
  assumes "fu_HandleFlush f fc = (f', effs)" "fu_wf f" "fu_occ f \<le> fu_cap f"
  shows "fu_wf f' \<and> fu_occ f' + sum_credits (fu_sent effs) = fu_occ f \<and> fu_cap f' = fu_cap f"
  using assms fu_occ_word [OF order_refl assms(3)]
  by (auto simp: fu_HandleFlush_def fu_wf_def fu_occ_def fu_cap_def)

lemma fu_returned_law:
  assumes "fu_step f (Returned n) f'" "fu_wf f" "fu_occ f \<le> fu_cap f"
  shows "fu_wf f' \<and> fu_occ f' + n = fu_occ f \<and> fu_cap f' = fu_cap f"
  using assms(1)
proof cases
  case (fu_write_back effs)
  with fu_WriteBack_balance assms(2,3) show ?thesis by simp
next
  case (fu_flush fc effs)
  with fu_HandleFlush_balance assms(2,3) show ?thesis by simp
next
  case (fu_wb_credit cp effs)
  with assms(2) show ?thesis
    by (auto simp: fu_AcceptCredit_def fu_wf_def fu_occ_def fu_cap_def split: if_splits)
qed

interpretation fu: credit_unit fu_step fu_occ fu_cap fu_wf
proof
  fix f n f'
  show "fu_wf f' \<and> fu_occ f' = fu_occ f + n \<and> fu_cap f' = fu_cap f"
    if "fu_step f (Received n) f'" "fu_wf f"
    using that by (elim fu_recvE) (auto simp: fu_wf_def fu_occ_def fu_cap_def)
  show "fu_wf f' \<and> fu_occ f' + n = fu_occ f \<and> fu_cap f' = fu_cap f"
    if "fu_step f (Returned n) f'" "fu_wf f" "fu_occ f \<le> fu_cap f"
    using that by (rule fu_returned_law)
  show "fu_wf f' \<and> fu_occ f' + n = fu_cap f \<and> fu_cap f' = fu_cap f" if "fu_step f (Flushed n) f'"
    using that by (elim fu_flushedE)
qed

section \<open>The link between the reservation station and the unit\<close>

text \<open>
  A station, the unit behind it, the groups on their way to the unit (port delay 1) and the credits on
  their way back.
\<close>

record fu_link =
  lk_rs :: ReservationStation
  lk_fu :: PerfectFu
  lk_wire :: "InstGroup list"
  lk_credits :: "Credit list"

definition rs_sent :: "rs_effect list \<Rightarrow> InstGroup list" where
  "rs_sent effs = concat (map (\<lambda>e. case e of reservation_following_inst_out g \<Rightarrow> [g] | _ \<Rightarrow> []) effs)"

inductive link_step :: "fu_link \<Rightarrow> fu_link \<Rightarrow> bool" where
  lk_allocate: "AllocateReStation h (lk_rs x) g = Inr (s', effs) \<Longrightarrow> link_step x (x\<lparr>lk_rs := s'\<rparr>)"
| lk_forward: "GetForwardingData h (lk_rs x) g = Inr s' \<Longrightarrow> link_step x (x\<lparr>lk_rs := s'\<rparr>)"
| lk_pop: "rs_PopInst (lk_rs x) = (s', effs) \<Longrightarrow> link_step x (x\<lparr>lk_rs := s'\<rparr>)"
| lk_pass: "PassingInst (lk_rs x) = (s', effs) \<Longrightarrow>
    link_step x (x\<lparr>lk_rs := s', lk_wire := lk_wire x @ rs_sent effs\<rparr>)"
| lk_credit: "lk_credits x = c # cs \<Longrightarrow> rs_AcceptCredit (lk_rs x) c = (s', effs) \<Longrightarrow>
    link_step x (x\<lparr>lk_rs := s', lk_credits := cs\<rparr>)"
| lk_fu_allocate: "lk_wire x = g # gs \<Longrightarrow> fu_Allocate (lk_fu x) g = (f', effs) \<Longrightarrow>
    link_step x (x\<lparr>lk_fu := f', lk_wire := gs\<rparr>)"
| lk_fu_write_back: "fu_WriteBack (lk_fu x) = Inr (f', effs) \<Longrightarrow>
    link_step x (x\<lparr>lk_fu := f', lk_credits := lk_credits x @ fu_sent effs\<rparr>)"
| lk_fu_credit: "fu_AcceptCredit (lk_fu x) cp = (f', effs) \<Longrightarrow> link_step x (x\<lparr>lk_fu := f'\<rparr>)"

text \<open>A flush reaches both units in the same cycle; the credit the unit sends arrives after it.\<close>

definition link_flush :: "fu_link \<Rightarrow> FlushingCriteria \<Rightarrow> fu_link" where
  "link_flush x fc = x\<lparr>lk_rs := fst (rs_HandleFlush (lk_rs x) fc), lk_fu := fst (fu_HandleFlush (lk_fu x) fc),
     lk_credits := lk_credits x @ fu_sent (snd (fu_HandleFlush (lk_fu x) fc))\<rparr>"

text \<open>Credits and instructions on the link: what the station may still send, and what is on its way.\<close>

definition link_total :: "fu_link \<Rightarrow> nat" where
  "link_total x = unat (rs_credit (lk_rs x)) + sum_list (map length (lk_wire x))
     + length (alu_queue (lk_fu x)) + sum_credits (lk_credits x)"

definition mk_link :: "string \<Rightarrow> ReservationStationParameter \<Rightarrow> string \<Rightarrow> PerfectFuParameter \<Rightarrow> fu_link" where
  "mk_link n p n' p' = \<lparr>lk_rs = mk_ReservationStation n p, lk_fu = mk_PerfectFu n' p', lk_wire = [],
     lk_credits = fu_sent (fu_SendInitCredit (mk_PerfectFu n' p'))\<rparr>"

lemma PassingInst_loop_credit:
  assumes "PassingInst_loop es c p g n q = (es', c', g', n')" "p \<le> c"
  shows "unat c' + length g' = unat c + length g"
  using assms
proof (induction es c p g n q rule: PassingInst_loop.induct)
  case (1 es c p g n)
  then show ?case by simp
next
  case (2 es c p g n e q)
  show ?case
  proof (cases "p \<noteq> 0 \<and> \<not> re_is_issued (es e) \<and> re_rs1_valid (es e) \<and> re_rs2_valid (es e)")
    case True
    have c: "c \<noteq> 0" using True "2.prems"(2) by (auto simp: word_le_nat_alt word_unat_eq_iff)
    have "p - 1 \<le> c - 1"
      using "2.prems"(2) True c by (simp add: word_le_nat_alt unat_minus_one_pos)
    with "2.IH"(2) "2.prems"(1) True have "unat c' + length g' = unat (c - 1) + length (g @ [re_inst_ptr (es e)])"
      by (simp del: fun_upd_apply)
    moreover have "unat c \<noteq> 0" using c by (simp add: unat_eq_0)
    ultimately show ?thesis using c by (simp add: unat_minus_one_pos)
  next
    case False
    with 2 show ?thesis by (auto split: if_splits)
  qed
qed

lemma PassingInst_credit:
  assumes "PassingInst s = (s', effs)"
  shows "unat (rs_credit s') + sum_list (map length (rs_sent effs)) = unat (rs_credit s)"
proof (cases "reservation_station s = []")
  case True
  with assms show ?thesis by (auto simp: PassingInst_def rs_sent_def)
next
  case False
  obtain es c g n where l: "PassingInst_loop (rs_entries s) (rs_credit s) (min (rs_credit s) (rs_issue_num s)) [] 0
      (reservation_station s) = (es, c, g, n)" by (metis prod_cases4)
  from PassingInst_loop_credit [OF this] False l assms show ?thesis
    by (auto simp: PassingInst_def rs_sent_def)
qed

lemma GetForwardingData_credit: "GetForwardingData h s g = Inr s' \<Longrightarrow> rs_credit s' = rs_credit s"
  unfolding GetForwardingData_def
  by (erule foldE_keeps [rotated]) (auto simp: GetForwardingData_one_def result_simps)

lemma AllocateReStation_credit:
  assumes "AllocateReStation h s g = Inr (s', effs)"
  shows "rs_credit s' = rs_credit s"
proof -
  have "rs_credit s' = rs_credit s" if "foldE (AllocateReStation_one h) s ps = Inr s'" for ps s s'
    using that by (rule foldE_keeps [rotated]) (auto simp: AllocateReStation_one_def Let_def result_simps)
  with assms show ?thesis by (auto simp: AllocateReStation_def result_simps split: if_splits)
qed

lemma link_WriteBack_total:
  assumes "fu_WriteBack f = Inr (f', effs)" "length (alu_queue f) < 2 ^ 64"
  shows "length (alu_queue f') + sum_credits (fu_sent effs) = length (alu_queue f)"
proof -
  obtain g q where l: "fu_WriteBack_loop (alu_width f) 0 [] (alu_queue f) = Inr (g, q)"
    and f': "f' = f\<lparr>alu_queue := q\<rparr>" and e: "sum_credits (fu_sent effs) = unat (word_of_nat (length g) :: u64)"
    using assms(1) by (auto simp: fu_WriteBack_def result_simps)
  have "g @ q = alu_queue f" using fu_WriteBack_split [OF l] by simp
  then have s: "length g + length q = length (alu_queue f)" by (metis length_append)
  then have "unat (word_of_nat (length g) :: u64) = length g" using assms(2) by (simp add: unat_of_nat)
  with s f' e show ?thesis by simp
qed

text \<open>A step of the link moves credits and instructions around and neither makes nor loses any.\<close>

lemma link_step_total:
  assumes "link_step x y" "link_total x < 2 ^ 64"
  shows "link_total y = link_total x"
  using assms
proof (induction rule: link_step.induct)
  case (lk_allocate h x g s' effs)
  then show ?case by (simp add: link_total_def AllocateReStation_credit)
next
  case (lk_forward h x g s')
  then show ?case by (simp add: link_total_def GetForwardingData_credit)
next
  case (lk_pop x s' effs)
  then show ?case by (auto simp: link_total_def rs_PopInst_def Let_def)
next
  case (lk_pass x s' effs)
  from PassingInst_credit [OF lk_pass(1)] show ?case by (simp add: link_total_def)
next
  case (lk_credit x c cs s' effs)
  then have "unat (rs_credit (lk_rs x)) + unat c < 2 ^ 64" by (simp add: link_total_def)
  then have "unat (rs_credit (lk_rs x) + c) = unat (rs_credit (lk_rs x)) + unat c"
    by (simp add: unat_word_ariths)
  with lk_credit show ?case by (auto simp: link_total_def rs_AcceptCredit_def)
next
  case (lk_fu_allocate x g gs f' effs)
  then show ?case by (auto simp: link_total_def)
next
  case (lk_fu_write_back x f' effs)
  then have "length (alu_queue (lk_fu x)) < 2 ^ 64" by (simp add: link_total_def)
  from link_WriteBack_total [OF lk_fu_write_back(1) this] show ?case by (simp add: link_total_def)
next
  case (lk_fu_credit x cp f' effs)
  then show ?case by (auto simp: link_total_def fu_AcceptCredit_def split: if_splits)
qed

text \<open>A flush loses the credits the station holds.\<close>

lemma link_flush_total:
  assumes "link_total x < 2 ^ 64"
  shows "link_total (link_flush x fc) + unat (rs_credit (lk_rs x)) = link_total x"
proof -
  have "unat (word_of_nat (length (alu_queue (lk_fu x))) :: u64) = length (alu_queue (lk_fu x))"
    using assms by (simp add: link_total_def unat_of_nat)
  then show ?thesis by (simp add: link_total_def link_flush_def rs_HandleFlush_def fu_HandleFlush_def)
qed

lemma mk_link_total: "link_total (mk_link n p n' p') = unat (fup_queue_depth p')"
  by (simp add: link_total_def mk_link_def mk_ReservationStation_def mk_PerfectFu_def fu_SendInitCredit_def)

lemma link_steps_total:
  assumes "link_step\<^sup>*\<^sup>* x y" "link_total x < 2 ^ 64"
  shows "link_total y = link_total x"
  using assms by (induction rule: rtranclp_induct) (auto dest: link_step_total)

inductive link_any :: "fu_link \<Rightarrow> fu_link \<Rightarrow> bool" where
  lk_any_step: "link_step x y \<Longrightarrow> link_any x y"
| lk_any_flush: "link_any x (link_flush x fc)"

lemma link_any_total:
  assumes "link_any\<^sup>*\<^sup>* x y" "link_total x < 2 ^ 64"
  shows "link_total y \<le> link_total x"
  using assms
proof (induction rule: rtranclp_induct)
  case (step y z)
  then have y: "link_total y < 2 ^ 64" "link_total y \<le> link_total x" by simp_all
  from step(2) show ?case
  proof cases
    case lk_any_step
    with link_step_total y show ?thesis by simp
  next
    case (lk_any_flush fc)
    with link_flush_total [OF y(1), of fc] y(2) show ?thesis by simp
  qed
qed simp

section \<open>Properties\<close>

text \<open>
  (C33) Credit conservation on the link. From the start, as long as no flush happens, the credits the station
  holds, the instructions on the wire, the instructions in the functional unit and the credits on
  their way back add up to the depth of the unit's queue; so the queue never holds more than its depth.
\<close>

theorem FuncUnit_link_conservation:
  assumes "link_step\<^sup>*\<^sup>* (mk_link n p n' p') x"
  shows "link_total x = unat (fup_queue_depth p') \<and> length (alu_queue (lk_fu x)) \<le> unat (fup_queue_depth p')"
proof -
  have "unat (fup_queue_depth p') < 2 ^ 32" by (rule less_le_trans [OF unsigned_less]) simp
  then have "link_total (mk_link n p n' p') < 2 ^ 64" by (simp add: mk_link_total)
  from link_steps_total [OF assms this] have "link_total x = unat (fup_queue_depth p')" by (simp add: mk_link_total)
  then show ?thesis by (simp add: link_total_def)
qed

definition link_example :: fu_link where
  "link_example = mk_link ''rs0'' \<lparr>rsp_issue_width = 1, rsp_queue_depth = 4, rsp_phy_reg_num = 64\<rparr>
     ''fu0'' \<lparr>fup_issue_width = 1, fup_queue_depth = 2\<rparr>"

definition link_example1 :: fu_link where
  "link_example1 = link_example\<lparr>lk_rs := (lk_rs link_example)\<lparr>rs_credit := 2\<rparr>, lk_credits := []\<rparr>"

lemma link_example_step: "link_step link_example link_example1"
proof -
  have "lk_credits link_example = 2 # []"
    by (simp add: link_example_def mk_link_def mk_PerfectFu_def fu_SendInitCredit_def)
  moreover have "rs_AcceptCredit (lk_rs link_example) 2 = ((lk_rs link_example)\<lparr>rs_credit := 2\<rparr>, [passing_event 0])"
    by (simp add: rs_AcceptCredit_def link_example_def mk_link_def mk_ReservationStation_def)
  ultimately show ?thesis unfolding link_example1_def by (rule link_step.lk_credit)
qed

theorem FuncUnit_link_conservation_witness:
  "link_step\<^sup>*\<^sup>* link_example link_example1 \<and> link_total link_example1 = 2"
  using FuncUnit_link_conservation [of "''rs0''" "\<lparr>rsp_issue_width = 1, rsp_queue_depth = 4, rsp_phy_reg_num = 64\<rparr>"
      "''fu0''" "\<lparr>fup_issue_width = 1, fup_queue_depth = 2\<rparr>" link_example1] link_example_step
  by (simp add: link_example_def r_into_rtranclp)

text \<open>
  (C31) A flush stops the link for ever. The station forgets its credits on a flush and the functional
  unit gives back only the places of the instructions it still holds. If the unit has nothing queued and
  nothing is on the wire or on its way back, which is how the unit is between two arrivals, then after
  the flush no instruction ever reaches the unit again, whatever the two units do and however often
  they are flushed.
\<close>

theorem FuncUnit_flush_stops_link:
  assumes "alu_queue (lk_fu x) = []" "lk_wire x = []" "lk_credits x = []"
    and "link_any\<^sup>*\<^sup>* (link_flush x fc) y"
  shows "concat (lk_wire y) = [] \<and> alu_queue (lk_fu y) = [] \<and> rs_credit (lk_rs y) = 0"
proof -
  have x: "link_total x = unat (rs_credit (lk_rs x))" using assms(1-3) by (simp add: link_total_def)
  moreover have "unat (rs_credit (lk_rs x)) < 2 ^ 64" by (rule less_le_trans [OF unsigned_less]) simp
  ultimately have "link_total (link_flush x fc) = 0" using link_flush_total [of x fc] by simp
  with link_any_total [OF assms(4)] have "link_total y = 0" by simp
  then show ?thesis by (auto simp: link_total_def unat_eq_0)
qed

theorem FuncUnit_flush_stops_link_witness:
  "link_step\<^sup>*\<^sup>* link_example link_example1 \<and> rs_credit (lk_rs link_example1) = 2
   \<and> rs_credit (lk_rs (link_flush link_example1 1)) = 0"
  using FuncUnit_flush_stops_link [of link_example1 1 "link_flush link_example1 1"] link_example_step
  by (simp add: r_into_rtranclp link_example1_def link_example_def mk_link_def mk_PerfectFu_def)

text \<open>
  Towards a sender that keeps its credits the functional unit is balanced, flushes included: the
  queued instructions plus the sender's credits are exactly the depth after any sequence of arrivals,
  write backs and flushes.
\<close>

theorem PerfectFu_credit_balance:
  assumes "fup_queue_depth p < 2 ^ 31"
    and "credit_run fu_step (mk_PerfectFu n p, unat (fup_queue_depth p)) (f, c)"
  shows "length (alu_queue f) + c = unat (fup_queue_depth p)"
  using fu.never_overflows [of "mk_PerfectFu n p" f c] assms
  by (simp add: fu_wf_def fu_occ_def fu_cap_def mk_PerfectFu_def)

theorem PerfectFu_credit_balance_witness:
  "\<exists>f. credit_run fu_step (mk_PerfectFu ''fu0'' \<lparr>fup_issue_width = 1, fup_queue_depth = 2\<rparr>, 2) (f, 1)
     \<and> length (alu_queue f) + 1 = 2"
proof -
  let ?f = "mk_PerfectFu ''fu0'' \<lparr>fup_issue_width = 1, fup_queue_depth = 2\<rparr>"
  have "fu_step ?f (Received (length [7 :: nat])) (fst (fu_Allocate ?f [7]))" by (rule fu_allocate) simp
  then have r: "credit_run fu_step (?f, 2) (fst (fu_Allocate ?f [7]), 2 - length [7 :: nat])"
    by (rule credit_recv_first) simp
  have "length (alu_queue (fst (fu_Allocate ?f [7]))) + 1 = 2"
    using PerfectFu_credit_balance [of "\<lparr>fup_issue_width = 1, fup_queue_depth = 2\<rparr>" "''fu0''"
        "fst (fu_Allocate ?f [7])" 1] r
    by simp
  with r show ?thesis by (intro exI [of _ "fst (fu_Allocate ?f [7])"] conjI) simp_all
qed

end
