(* ===== verification/Write_Back_Stage.thy ===== *)
theory Write_Back_Stage
  imports Perfect_Fu Global_Param
begin

text \<open>
  \<open>core/func_unit/WriteBackStage\<close>: the arbiter for the result bus. Each functional unit has a queue;
  every cycle the stage takes up to \<open>issue_width\<close> results, walking the queues in the order of the unit
  names.
\<close>

section \<open>Parameters, state, output ports\<close>

record WriteBackStageParameter =
  wbp_issue_width :: u64
  wbp_wb_latency :: u64
  wbp_is_perfect_mode :: bool

record WriteBackStage =
  wb_name :: string
  wb_issue_num :: u64
  is_wb_perfect :: bool
  wb_latency :: u64
  inst_queue_map :: "(string, inst_ptr list) smap"
  write_back_width_map :: "(string, Credit) smap"

datatype wb_effect =
    write_back_following_port_out InstGroup
  | preceding_write_back_credit_out CreditPair
  | arbitrate_inst_event nat

section \<open>Handlers\<close>

definition mk_WriteBackStage :: "string \<Rightarrow> WriteBackStageParameter \<Rightarrow> GlobalParam \<Rightarrow> WriteBackStage" where
  "mk_WriteBackStage n p gp =
     \<lparr>wb_name = n, wb_issue_num = wbp_issue_width p, is_wb_perfect = wbp_is_perfect_mode p,
      wb_latency = wbp_wb_latency p,
      inst_queue_map = fold (\<lambda>(k, v) m. smap_set k [] m) (write_back_map gp) [],
      write_back_width_map = fold (\<lambda>(k, v) m. smap_set k (ucast v) m) (write_back_map gp) []\<rparr>"

definition wb_SendInitCredit :: "WriteBackStage \<Rightarrow> wb_effect list" where
  "wb_SendInitCredit s =
     map (\<lambda>(k, v). preceding_write_back_credit_out \<lparr>cp_name = k, cp_credit = v\<rparr>) (write_back_width_map s)"

definition wb_HandleFlush :: "WriteBackStage \<Rightarrow> FlushingCriteria \<Rightarrow> WriteBackStage \<times> wb_effect list" where
  "wb_HandleFlush s fc =
     (s\<lparr>inst_queue_map := []\<rparr>,
      map (\<lambda>(k, q). preceding_write_back_credit_out \<lparr>cp_name = wb_name s, cp_credit = word_of_nat (length q)\<rparr>)
        (inst_queue_map s))"

definition wb_AcceptFuncInst :: "WriteBackStage \<Rightarrow> InstGroupPair \<Rightarrow> WriteBackStage \<times> wb_effect list" where
  "wb_AcceptFuncInst s gp =
     (s\<lparr>inst_queue_map := fold (\<lambda>p m. smap_set (igp_name gp) (smap_get_default [] m (igp_name gp) @ [p]) m)
          (igp_inst_group gp) (inst_queue_map s)\<rparr>,
      [arbitrate_inst_event 0])"

text \<open>
  The inner loop over one queue: what is left of \<open>produce_num\<close>, the group, \<open>consume_per_entry\<close> (32 bits)
  and the credit of the pair.
\<close>

fun Arbitrate_take :: "u64 \<Rightarrow> InstGroup \<Rightarrow> u32 \<Rightarrow> Credit \<Rightarrow> inst_ptr list \<Rightarrow> u64 \<times> InstGroup \<times> u32 \<times> Credit" where
  "Arbitrate_take n g used credit [] = (n, g, used, credit)"
| "Arbitrate_take n g used credit (p # q) =
     (if n = 0 then (n, g, used, credit)
      else Arbitrate_take (n - 1) (emplace_back g p) (used + 1) (credit + 1) q)"

text \<open>
  The pop loop counts with an \<open>int\<close> against an unsigned bound, so more than the largest \<open>int\<close> has no
  meaning; neither has popping an empty queue.
\<close>

definition Arbitrate_pop :: "u32 \<Rightarrow> inst_ptr list \<Rightarrow> inst_ptr list result" where
  "Arbitrate_pop used q =
     (if used > 0x7FFFFFFF then Inl (Undefined ''signed overflow'')
      else if length q < unat used then Inl (Undefined ''pop_front of empty'')
      else Inr (drop (unat used) q))"

text \<open>
  The loop over the queues. \<open>fresh\<close> is the credit a newly allocated pair holds: \<open>CreditPair\<close> has no
  initialiser for it and the allocator belongs to the framework.
\<close>

fun Arbitrate_queues :: "Credit \<Rightarrow> string \<Rightarrow> u64 \<Rightarrow> InstGroup \<Rightarrow> (string, inst_ptr list) smap
    \<Rightarrow> ((string, inst_ptr list) smap \<times> InstGroup \<times> wb_effect list) result" where
  "Arbitrate_queues fresh n produce g [] = Inr ([], g, [])"
| "Arbitrate_queues fresh n produce g ((k, q) # m) =
     (case Arbitrate_take produce g 0 fresh q of
        (produce1, g1, used, credit) \<Rightarrow>
          bindE (Arbitrate_pop used q)
          (\<lambda>q1. bindE (Arbitrate_queues fresh n produce1 g1 m)
          (\<lambda>(m1, g2, effs). Inr ((k, q1) # m1, g2,
             preceding_write_back_credit_out \<lparr>cp_name = n, cp_credit = credit\<rparr> # effs))))"

definition ArbitrateInst :: "Credit \<Rightarrow> WriteBackStage \<Rightarrow> (WriteBackStage \<times> wb_effect list) result" where
  "ArbitrateInst fresh s =
     bindE (Arbitrate_queues fresh (wb_name s) (wb_issue_num s) [] (inst_queue_map s))
     (\<lambda>(m, g, effs). Inr (s\<lparr>inst_queue_map := m\<rparr>,
        effs @ (if g \<noteq> [] then [write_back_following_port_out g] else [])
        @ (if \<not> list_all (\<lambda>(k, q). q = []) m then [arbitrate_inst_event 1] else [])))"

section \<open>The queues as one line\<close>

text \<open>All waiting results, in the order the arbiter walks them.\<close>

definition wb_line :: "(string, inst_ptr list) smap \<Rightarrow> inst_ptr list" where
  "wb_line m = concat (map snd m)"

lemma wb_line_simps [simp]: "wb_line [] = []" "wb_line ((k, q) # m) = q @ wb_line m"
  by (simp_all add: wb_line_def)

lemma Arbitrate_take_spec:
  assumes "unat used + length q < 2 ^ 32"
  shows "Arbitrate_take n g used credit q =
     (n - word_of_nat (min (unat n) (length q)), g @ take (unat n) q,
      used + word_of_nat (min (unat n) (length q)), credit + word_of_nat (min (unat n) (length q)))"
  using assms
proof (induction n g used credit q rule: Arbitrate_take.induct)
  case (1 n g used credit)
  then show ?case by simp
next
  case (2 n g used credit p q)
  show ?case
  proof (cases "n = 0")
    case True
    then show ?thesis by simp
  next
    case False
    then obtain m where m: "unat n = Suc m" by (metis not0_implies_Suc unat_eq_zero)
    have "unat (n - 1) = m" using False m by (simp add: unat_minus_one_pos)
    moreover have "unat (used + 1) = unat used + 1" using "2.prems" by (simp add: unat_word_ariths)
    ultimately show ?thesis using "2.IH" [OF False] "2.prems" False m by (simp add: algebra_simps)
  qed
qed

lemma Arbitrate_queues_spec:
  assumes "\<forall>(k, q) \<in> set m. length q < 2 ^ 31"
  shows "\<exists>m' effs. Arbitrate_queues fresh n produce g m
      = Inr (m', g @ take (unat produce) (wb_line m), effs)
    \<and> map fst m' = map fst m \<and> wb_line m' = drop (unat produce) (wb_line m)
    \<and> (\<forall>i < length m. \<exists>k. snd (m' ! i) = drop k (snd (m ! i)))
    \<and> (\<forall>e \<in> set effs. \<exists>c. e = preceding_write_back_credit_out \<lparr>cp_name = n, cp_credit = c\<rparr>)"
  using assms
proof (induction fresh n produce g m rule: Arbitrate_queues.induct)
  case (1 fresh n produce g)
  then show ?case by simp
next
  case (2 fresh n produce g k q m)
  let ?j = "min (unat produce) (length q)"
  let ?p1 = "produce - word_of_nat ?j"
  have q: "length q < 2 ^ 31" and m: "\<forall>(k, q) \<in> set m. length q < 2 ^ 31" using "2.prems" by auto
  have t: "Arbitrate_take produce g 0 fresh q
      = (?p1, g @ take (unat produce) q, word_of_nat ?j, fresh + word_of_nat ?j)"
    using Arbitrate_take_spec [of 0 q produce g fresh] q by simp
  have j: "unat (word_of_nat ?j :: u32) = ?j" using q by (simp add: unat_of_nat)
  have "\<not> word_of_nat ?j > (0x7FFFFFFF :: u32)" unfolding word_less_nat_alt j using q by simp
  then have pop: "Arbitrate_pop (word_of_nat ?j) q = Inr (drop (unat produce) q)"
    unfolding Arbitrate_pop_def j by (cases "unat produce \<le> length q") simp_all
  have p1: "unat ?p1 = unat produce - length q" by (subst unat_minus_of_nat) auto
  from "2.IH" [OF t [symmetric] refl refl m] obtain m' effs where
    r: "Arbitrate_queues fresh n ?p1 (g @ take (unat produce) q) m
        = Inr (m', (g @ take (unat produce) q) @ take (unat ?p1) (wb_line m), effs)"
      "map fst m' = map fst m" "wb_line m' = drop (unat ?p1) (wb_line m)"
      "\<forall>i < length m. \<exists>k. snd (m' ! i) = drop k (snd (m ! i))"
      "\<forall>e \<in> set effs. \<exists>c. e = preceding_write_back_credit_out \<lparr>cp_name = n, cp_credit = c\<rparr>" by blast
  show ?case
  proof (intro exI conjI)
    show "Arbitrate_queues fresh n produce g ((k, q) # m) = Inr ((k, drop (unat produce) q) # m',
        g @ take (unat produce) (wb_line ((k, q) # m)),
        preceding_write_back_credit_out \<lparr>cp_name = n, cp_credit = fresh + word_of_nat ?j\<rparr> # effs)"
      using r(1) t pop p1 by simp
    show "map fst ((k, drop (unat produce) q) # m') = map fst ((k, q) # m)" using r(2) by simp
    show "wb_line ((k, drop (unat produce) q) # m') = drop (unat produce) (wb_line ((k, q) # m))"
      using r(3) p1 by simp
    show "\<forall>i < length ((k, q) # m). \<exists>j. snd (((k, drop (unat produce) q) # m') ! i) = drop j (snd (((k, q) # m) ! i))"
      using r(4) by (auto simp: nth_Cons split: nat.splits)
    show "\<forall>e \<in> set (preceding_write_back_credit_out \<lparr>cp_name = n, cp_credit = fresh + word_of_nat ?j\<rparr> # effs).
        \<exists>c. e = preceding_write_back_credit_out \<lparr>cp_name = n, cp_credit = c\<rparr>" using r(5) by auto
  qed
qed

definition wb_group :: "wb_effect list \<Rightarrow> InstGroup" where
  "wb_group effs = concat (map (\<lambda>e. case e of write_back_following_port_out g \<Rightarrow> g | _ \<Rightarrow> []) effs)"

lemma wb_group_simps [simp]:
  "wb_group [] = []" "wb_group (as @ bs) = wb_group as @ wb_group bs"
  "wb_group (write_back_following_port_out g # es) = g @ wb_group es"
  "wb_group (arbitrate_inst_event n # es) = wb_group es"
  by (simp_all add: wb_group_def)

definition wb_small :: "WriteBackStage \<Rightarrow> bool" where
  "wb_small s \<longleftrightarrow> (\<forall>(k, q) \<in> set (inst_queue_map s). length q < 2 ^ 31)"

lemma wb_line_empty: "wb_line m = [] \<longleftrightarrow> list_all (\<lambda>(k, q). q = []) m"
  by (auto simp: wb_line_def list_all_iff)

lemma wb_group_credits:
  "\<forall>e \<in> set effs. \<exists>c. e = preceding_write_back_credit_out \<lparr>cp_name = n, cp_credit = c\<rparr> \<Longrightarrow> wb_group effs = []"
  by (auto simp: wb_group_def)

lemma ArbitrateInst_ok:
  assumes "wb_small s"
  shows "\<exists>s' effs. ArbitrateInst fresh s = Inr (s', effs)
    \<and> wb_group effs = take (unat (wb_issue_num s)) (wb_line (inst_queue_map s))
    \<and> wb_line (inst_queue_map s') = drop (unat (wb_issue_num s)) (wb_line (inst_queue_map s))
    \<and> map fst (inst_queue_map s') = map fst (inst_queue_map s)
    \<and> (arbitrate_inst_event 1 \<in> set effs \<longleftrightarrow> wb_line (inst_queue_map s') \<noteq> [])
    \<and> (\<forall>cp. preceding_write_back_credit_out cp \<in> set effs \<longrightarrow> cp_name cp = wb_name s)
    \<and> wb_small s' \<and> wb_issue_num s' = wb_issue_num s"
proof -
  let ?m = "inst_queue_map s"
  from Arbitrate_queues_spec [of ?m fresh "wb_name s" "wb_issue_num s" "[]"] assms obtain m' effs where
    r: "Arbitrate_queues fresh (wb_name s) (wb_issue_num s) [] ?m
        = Inr (m', take (unat (wb_issue_num s)) (wb_line ?m), effs)"
      "map fst m' = map fst ?m" "wb_line m' = drop (unat (wb_issue_num s)) (wb_line ?m)"
      "\<forall>i < length ?m. \<exists>k. snd (m' ! i) = drop k (snd (?m ! i))"
      "\<forall>e \<in> set effs. \<exists>c. e = preceding_write_back_credit_out \<lparr>cp_name = wb_name s, cp_credit = c\<rparr>"
    unfolding wb_small_def by auto
  have len: "length m' = length ?m" using r(2) by (metis length_map)
  have small: "length q < 2 ^ 31" if "(k, q) \<in> set m'" for k q
  proof -
    from that obtain i where i: "i < length ?m" "m' ! i = (k, q)" by (auto simp: in_set_conv_nth len)
    with r(4) obtain j where "q = drop j (snd (?m ! i))" by fastforce
    then have "length q \<le> length (snd (?m ! i))" by simp
    also have "\<dots> < 2 ^ 31"
      using assms nth_mem [OF i(1)] unfolding wb_small_def by (metis (no_types, lifting) case_prodE snd_conv)
    finally show ?thesis .
  qed
  have g: "wb_group effs = []" by (rule wb_group_credits [OF r(5)])
  have e: "arbitrate_inst_event 1 \<notin> set effs" using r(5) by auto
  show ?thesis
    using r small e unfolding ArbitrateInst_def r(1) wb_small_def
    by (auto simp: g wb_line_empty)
qed

lemma ArbitrateInst_same_line:
  assumes "wb_small s" "ArbitrateInst fresh s = Inr (s', effs)"
  shows "wb_small s'" "wb_issue_num s' = wb_issue_num s"
    "wb_group effs = take (unat (wb_issue_num s)) (wb_line (inst_queue_map s))"
    "wb_line (inst_queue_map s') = drop (unat (wb_issue_num s)) (wb_line (inst_queue_map s))"
    "arbitrate_inst_event 1 \<in> set effs \<longleftrightarrow> wb_line (inst_queue_map s') \<noteq> []"
  using ArbitrateInst_ok [OF assms(1), of fresh] assms(2) by auto

text \<open>The stage left alone: runs of the arbiter as long as it schedules itself.\<close>

function wb_drain :: "Credit \<Rightarrow> nat \<Rightarrow> WriteBackStage \<Rightarrow> (WriteBackStage \<times> InstGroup) result" where
  "wb_drain fresh 0 s = Inr (s, [])"
| "wb_drain fresh (Suc n) s =
     bindE (ArbitrateInst fresh s)
     (\<lambda>(s1, effs). if arbitrate_inst_event 1 \<in> set effs
        then bindE (wb_drain fresh n s1) (\<lambda>(s2, g). Inr (s2, wb_group effs @ g))
        else Inr (s1, wb_group effs))"
  by pat_completeness auto
termination
  by (relation "measure (\<lambda>(fresh, n, s). n)") auto

section \<open>Properties\<close>

text \<open>
  (C32) One arbitration takes the first \<open>issue_width\<close> waiting results in the order of the unit names and,
  within a unit, of arrival, and sends exactly these; every other result keeps its place, no queue is
  added or removed, and the stage schedules itself again exactly when something still waits.
\<close>

theorem WriteBackStage_arbitration:
  assumes "wb_small s"
  shows "\<exists>s' effs. ArbitrateInst fresh s = Inr (s', effs)
    \<and> wb_group effs = take (unat (wb_issue_num s)) (wb_line (inst_queue_map s))
    \<and> wb_line (inst_queue_map s') = drop (unat (wb_issue_num s)) (wb_line (inst_queue_map s))
    \<and> map fst (inst_queue_map s') = map fst (inst_queue_map s)
    \<and> (arbitrate_inst_event 1 \<in> set effs \<longleftrightarrow> wb_line (inst_queue_map s') \<noteq> [])"
  using ArbitrateInst_ok [OF assms, of fresh] by blast

definition wb_example :: WriteBackStage where
  "wb_example = \<lparr>wb_name = ''write_back_stage'', wb_issue_num = 2, is_wb_perfect = False, wb_latency = 1,
     inst_queue_map = [(''perfect_fu_0'', [5]), (''perfect_fu_1'', [6, 7, 8])],
     write_back_width_map = [(''perfect_fu_0'', 1), (''perfect_fu_1'', 1)]\<rparr>"

lemma wb_example_small: "wb_small wb_example"
  by (simp add: wb_example_def wb_small_def)

theorem WriteBackStage_arbitration_witness:
  "\<exists>s' effs. ArbitrateInst 0 wb_example = Inr (s', effs) \<and> wb_group effs = [5, 6]
    \<and> wb_line (inst_queue_map s') = [7, 8]"
  using WriteBackStage_arbitration [OF wb_example_small, of 0] by (auto simp: wb_example_def)

text \<open>
  Every result is written back: left alone, the arbiter runs at most as many cycles as its width needs
  for the waiting results, sends all of them in order and then stops scheduling itself. Nothing waits
  for ever and nothing is lost or sent twice.
\<close>

theorem WriteBackStage_drains:
  assumes "wb_small s" "length (wb_line (inst_queue_map s)) \<le> n * unat (wb_issue_num s)" "0 < n"
  shows "\<exists>s'. wb_drain fresh n s = Inr (s', wb_line (inst_queue_map s)) \<and> wb_line (inst_queue_map s') = []"
  using assms
proof (induction n arbitrary: s)
  case 0
  then show ?case by simp
next
  case (Suc n)
  let ?w = "unat (wb_issue_num s)"
  let ?l = "wb_line (inst_queue_map s)"
  from ArbitrateInst_ok [OF Suc.prems(1), of fresh] obtain s1 effs where a: "ArbitrateInst fresh s = Inr (s1, effs)"
    by blast
  note b = ArbitrateInst_same_line [OF Suc.prems(1) a]
  show ?case
  proof (cases "wb_line (inst_queue_map s1) = []")
    case True
    then have "take ?w ?l = ?l" using b(4) by simp
    with a b True show ?thesis by simp
  next
    case False
    have "length (wb_line (inst_queue_map s1)) \<le> n * unat (wb_issue_num s1)"
      using Suc.prems(2) b(2,4) by simp
    moreover from this have "0 < n" using False by (cases n) auto
    ultimately obtain s2 where "wb_drain fresh n s1 = Inr (s2, wb_line (inst_queue_map s1))"
      "wb_line (inst_queue_map s2) = []" using Suc.IH [OF b(1)] by blast
    with a b False show ?thesis by simp
  qed
qed

theorem WriteBackStage_drains_witness:
  "\<exists>s'. wb_drain 0 2 wb_example = Inr (s', [5, 6, 7, 8]) \<and> wb_line (inst_queue_map s') = []"
  using WriteBackStage_drains [OF wb_example_small, of 2 0] by (simp add: wb_example_def)

text \<open>
  The credits the write-back stage returns reach nobody: each pair it sends from an arbitration or a
  flush carries the name of the stage and not of the functional unit it is meant for, so every
  functional unit ignores it. Only the initial credits are addressed to the units.
\<close>

theorem WriteBackStage_credits_ignored:
  assumes "wb_small s" "fu_name f \<noteq> wb_name s"
    and "(\<exists>s'. ArbitrateInst fresh s = Inr (s', effs)) \<or> effs = snd (wb_HandleFlush s fc)"
    and "preceding_write_back_credit_out cp \<in> set effs"
  shows "fu_AcceptCredit f cp = (f, [])"
proof -
  have "cp_name cp = wb_name s"
    using ArbitrateInst_ok [OF assms(1), of fresh] assms(3,4) by (auto simp: wb_HandleFlush_def)
  with assms(2) show ?thesis by (simp add: fu_AcceptCredit_def)
qed

theorem WriteBackStage_credits_ignored_witness:
  "preceding_write_back_credit_out \<lparr>cp_name = ''write_back_stage'', cp_credit = 1\<rparr> \<in> set (snd (wb_HandleFlush wb_example 1))
   \<and> fu_AcceptCredit (mk_PerfectFu ''perfect_fu_0'' \<lparr>fup_issue_width = 1, fup_queue_depth = 1\<rparr>)
       \<lparr>cp_name = ''write_back_stage'', cp_credit = 1\<rparr>
     = (mk_PerfectFu ''perfect_fu_0'' \<lparr>fup_issue_width = 1, fup_queue_depth = 1\<rparr>, [])"
  using WriteBackStage_credits_ignored [OF wb_example_small,
      of "mk_PerfectFu ''perfect_fu_0'' \<lparr>fup_issue_width = 1, fup_queue_depth = 1\<rparr>" 0
         "snd (wb_HandleFlush wb_example 1)" 1 "\<lparr>cp_name = ''write_back_stage'', cp_credit = 1\<rparr>"]
  by (simp add: wb_example_def wb_HandleFlush_def mk_PerfectFu_def)

end
