(* ===== verification/Inst_Generator.thy ===== *)
theory Inst_Generator
  imports Inst_Types
begin

text \<open>
  \<open>olympia/InstGenerator\<close>: the sources of instructions. The base class completes a decoded instruction
  (functional type, source and destination registers); the derived classes read a JSON list, an STF
  trace, or step a functional simulator. The decoder (Mavis), the JSON and trace readers and the
  simulator are outside the repository or behind an adapter: the decoder is an argument that gives the
  opcode information and static data of an opcode or throws, a JSON file and a trace are the lists of
  records the readers give, and the adapter is a record of its operations.
\<close>

section \<open>InsnComplete\<close>

text \<open>The two scans of a register bit set: stop at the first bit, or fill two registers and go on.\<close>

fun scan_first :: "(IsaRegId_t \<Rightarrow> Inst \<Rightarrow> Inst) \<Rightarrow> u64 \<Rightarrow> nat list \<Rightarrow> Inst \<Rightarrow> Inst" where
  "scan_first f stream [] x = x"
| "scan_first f stream (i # is) x =
     (if bit stream i then f (word_of_nat i) x else scan_first f stream is x)"

fun scan_two :: "(IsaRegId_t \<Rightarrow> Inst \<Rightarrow> Inst) \<Rightarrow> (IsaRegId_t \<Rightarrow> Inst \<Rightarrow> Inst) \<Rightarrow> u64 \<Rightarrow> u8 \<Rightarrow> nat list \<Rightarrow> Inst \<Rightarrow> Inst" where
  "scan_two f1 f2 stream cnt [] x = x"
| "scan_two f1 f2 stream cnt (i # is) x =
     (if bit stream i \<and> cnt = 1 then scan_two f1 f2 stream (cnt + 1) is (f1 (word_of_nat i) x)
      else if bit stream i \<and> cnt = 2 then scan_two f1 f2 stream (cnt + 1) is (f2 (word_of_nat i) x)
      else scan_two f1 f2 stream cnt is x)"

definition set_rs1 :: "RegType_t \<Rightarrow> IsaRegId_t \<Rightarrow> Inst \<Rightarrow> Inst" where
  "set_rs1 t i x = setRs1Type t (setIsaRs1 i x)"

definition set_rs2 :: "RegType_t \<Rightarrow> IsaRegId_t \<Rightarrow> Inst \<Rightarrow> Inst" where
  "set_rs2 t i x = setRs2Type t (setIsaRs2 i x)"

definition set_rd :: "RegType_t \<Rightarrow> IsaRegId_t \<Rightarrow> Inst \<Rightarrow> Inst" where
  "set_rd t i x = setRdType t (setIsaRd i x)"

definition complete_fu :: "Inst \<Rightarrow> Inst" where
  "complete_fu x =
     (let x1 = (case getUnit x of
            TU_LSU \<Rightarrow> if is_store x then setFuType FT_STU x else setFuType FT_LDU x
          | TU_BR \<Rightarrow> setFuType FT_BRU x
          | TU_ALU \<Rightarrow> setFuType FT_ALU x
          | TU_FPU \<Rightarrow> setFuType FT_FPU x
          | _ \<Rightarrow> setFuType FT_ALU x)
      in if \<not> getIsRvcInst x1 \<and> getUncompressedInst x1 AND 0x7F = 0x73 then setFuType FT_CSR x1 else x1)"

definition complete_int_sources :: "Inst \<Rightarrow> Inst" where
  "complete_int_sources x =
     (if oi_numIntSourceRegs (opcode_info x) = 1
      then scan_first (set_rs1 RT_INT) (oi_IntSourceRegs (opcode_info x)) [0..<64] x
      else if oi_numIntSourceRegs (opcode_info x) = 2
      then scan_two (set_rs1 RT_INT) (set_rs2 RT_INT) (oi_IntSourceRegs (opcode_info x)) 1 [0..<64] x
      else x)"

definition complete_float_sources :: "Inst \<Rightarrow> Inst" where
  "complete_float_sources x =
     (if oi_numFloatSourceRegs (opcode_info x) = 1
      then scan_first (set_rs2 RT_FLOAT) (oi_FloatSourceRegs (opcode_info x)) [0..<64] x
      else if oi_numFloatSourceRegs (opcode_info x) = 2
      then scan_two (set_rs1 RT_FLOAT) (set_rs2 RT_FLOAT) (oi_FloatSourceRegs (opcode_info x)) 1 [0..<64] x
      else x)"

definition complete_dests :: "Inst \<Rightarrow> Inst" where
  "complete_dests x =
     (let x1 = (if oi_numIntDestRegs (opcode_info x) = 1
                then scan_first (set_rd RT_INT) (oi_IntDestRegs (opcode_info x)) [0..<64] x else x)
      in if oi_numFloatDestRegs (opcode_info x1) = 1
         then scan_first (set_rd RT_FLOAT) (oi_FloatDestRegs (opcode_info x1)) [0..<64] x1 else x1)"

definition InsnComplete :: "Inst \<Rightarrow> Inst" where
  "InsnComplete x = complete_dests (complete_float_sources (complete_int_sources (complete_fu x)))"

section \<open>The virtual interface\<close>

text \<open>
  A generator object: its state and its virtual functions. A new instruction is returned by value; the
  caller owns the fresh pointer to it. \<open>None\<close> is the null pointer.
\<close>

record 'g InstGenerator =
  ig_getNextInst :: "'g \<Rightarrow> (Inst option \<times> 'g) result"
  ig_isDone :: "'g \<Rightarrow> bool"
  ig_branchResolve :: "bool \<Rightarrow> 'g \<Rightarrow> 'g result"
  ig_setNpc :: "u64 \<Rightarrow> 'g \<Rightarrow> 'g"
  ig_makeBackup :: "'g \<Rightarrow> 'g result"
  ig_setPredictionMiss :: "bool \<Rightarrow> 'g \<Rightarrow> 'g"
  ig_getPredictionMiss :: "'g \<Rightarrow> bool"

text \<open>What the decoder knows of an instruction, and the uninitialised part of the new object.\<close>

type_synonym decoded = "opcode_info_t \<times> InstArchInfo \<times> InstInfo"

definition mk_decoded :: "decoded \<Rightarrow> Inst" where
  "mk_decoded d = (case d of (oi, ai, garbage) \<Rightarrow> mk_Inst oi ai garbage)"

section \<open>Choosing a generator\<close>

datatype generator_kind = GK_JSON string | GK_Trace string bool | GK_Spike string

definition has_suffix :: "string \<Rightarrow> string \<Rightarrow> bool" where
  "has_suffix ext fname \<longleftrightarrow> length fname > length ext \<and> drop (length fname - length ext) fname = ext"

definition createGenerator_file :: "string \<Rightarrow> bool \<Rightarrow> generator_kind result" where
  "createGenerator_file fname skip_nonuser_mode =
     (if has_suffix ''json'' fname then Inr (GK_JSON fname)
      else if has_suffix ''stf'' fname then Inr (GK_Trace fname skip_nonuser_mode)
      else Inl (SpartaAssert ''Unknown file extension''))"

definition createGenerator_spike :: "string \<Rightarrow> generator_kind option" where
  "createGenerator_spike fname = (if length fname > 0 then Some (GK_Spike fname) else None)"

section \<open>JSON\<close>

text \<open>One JSON record: the keys the generator looks at, absent as \<open>None\<close>.\<close>

record json_inst =
  j_mnemonic :: "string option"
  j_rs1 :: "u64 option"
  j_fs1 :: "u64 option"
  j_rs2 :: "u64 option"
  j_fs2 :: "u64 option"
  j_rd :: "u64 option"
  j_fd :: "u64 option"
  j_imm :: "u64 option"
  j_vaddr :: "string option"

datatype operand_field = OF_RS1 | OF_RS2 | OF_RD
datatype operand_type = OT_LONG | OT_DOUBLE

type_synonym OperandInfo = "(operand_field \<times> operand_type \<times> u64) list"

definition addElement :: "OperandInfo \<Rightarrow> u64 option \<Rightarrow> operand_field \<Rightarrow> operand_type \<Rightarrow> OperandInfo" where
  "addElement ops v f t = (case v of None \<Rightarrow> ops | Some n \<Rightarrow> ops @ [(f, t, n)])"

definition json_srcs :: "json_inst \<Rightarrow> OperandInfo" where
  "json_srcs j =
     addElement (addElement (addElement (addElement []
       (j_rs1 j) OF_RS1 OT_LONG) (j_fs1 j) OF_RS1 OT_DOUBLE) (j_rs2 j) OF_RS2 OT_LONG) (j_fs2 j) OF_RS2 OT_DOUBLE"

definition json_dests :: "json_inst \<Rightarrow> OperandInfo" where
  "json_dests j = addElement (addElement [] (j_rd j) OF_RD OT_LONG) (j_fd j) OF_RD OT_DOUBLE"

text \<open>The C library's \<open>strtoull\<close> with base 0.\<close>

definition hex_digit :: "char \<Rightarrow> nat option" where
  "hex_digit c = (let n = of_char c :: nat in
     if 48 \<le> n \<and> n \<le> 57 then Some (n - 48) else if 97 \<le> n \<and> n \<le> 102 then Some (n - 87)
     else if 65 \<le> n \<and> n \<le> 70 then Some (n - 55) else None)"

definition is_base_digit :: "nat \<Rightarrow> char \<Rightarrow> bool" where
  "is_base_digit b c = (case hex_digit c of None \<Rightarrow> False | Some d \<Rightarrow> d < b)"

definition base_value :: "nat \<Rightarrow> string \<Rightarrow> nat" where
  "base_value b s = foldl (\<lambda>n c. b * n + the (hex_digit c)) 0 (takeWhile (is_base_digit b) s)"

definition strtoull_body :: "string \<Rightarrow> nat" where
  "strtoull_body s =
     (case s of
        c0 # c1 # c2 # cs \<Rightarrow>
          if c0 = CHR ''0'' \<and> (c1 = CHR ''x'' \<or> c1 = CHR ''X'') \<and> is_base_digit 16 c2 then base_value 16 (c2 # cs)
          else if c0 = CHR ''0'' then base_value 8 s else base_value 10 s
      | c0 # cs \<Rightarrow> if c0 = CHR ''0'' then base_value 8 s else base_value 10 s
      | [] \<Rightarrow> 0)"

definition strtoull :: "string \<Rightarrow> u64" where
  "strtoull s =
     (let t = dropWhile (\<lambda>c. (of_char c :: nat) = 32 \<or> 9 \<le> (of_char c :: nat) \<and> (of_char c :: nat) \<le> 13) s;
          neg = (t \<noteq> [] \<and> hd t = CHR ''-'');
          u = (if t \<noteq> [] \<and> (hd t = CHR ''-'' \<or> hd t = CHR ''+'') then tl t else t);
          v = strtoull_body u
      in if v \<ge> 2 ^ 64 then - 1 else if neg then - word_of_nat v else word_of_nat v)"

record JSONInstGenerator =
  jg_insts :: "json_inst list"
  jg_curr_inst_index :: u64
  jg_n_insts :: u64
  jg_unique_id :: u64

definition mk_JSONInstGenerator :: "json_inst list \<Rightarrow> JSONInstGenerator" where
  "mk_JSONInstGenerator js =
     \<lparr>jg_insts = js, jg_curr_inst_index = 0, jg_n_insts = word_of_nat (length js), jg_unique_id = 0\<rparr>"

definition json_isDone :: "JSONInstGenerator \<Rightarrow> bool" where
  "json_isDone g \<longleftrightarrow> jg_curr_inst_index g = jg_n_insts g"

text \<open>
  \<open>direct\<close> is the decoder's \<open>makeInstDirectly\<close>: it throws (\<open>Inl\<close>), gives the null pointer, or decodes.
\<close>

definition json_getNextInst ::
  "(string \<Rightarrow> OperandInfo \<Rightarrow> OperandInfo \<Rightarrow> u64 option \<Rightarrow> decoded option result) \<Rightarrow> JSONInstGenerator
     \<Rightarrow> (Inst option \<times> JSONInstGenerator) result" where
  "json_getNextInst direct g =
     (if json_isDone g then Inr (None, g)
      else if \<not> unat (jg_curr_inst_index g) < length (jg_insts g) then Inl (Thrown ''json at'')
      else let j = jg_insts g ! unat (jg_curr_inst_index g) in
        (case j_mnemonic j of
           None \<Rightarrow> Inl (Thrown ''Missing mnemonic'')
         | Some m \<Rightarrow>
             bindE (direct m (json_srcs j) (json_dests j) (j_imm j))
             (\<lambda>d. bindE (case j_vaddr j of
                    None \<Rightarrow> Inr (map_option mk_decoded d)
                  | Some v \<Rightarrow> (case d of
                        None \<Rightarrow> Inl (Undefined ''null instruction pointer'')
                      | Some x \<Rightarrow> Inr (Some (setTargetVAddr (strtoull v) (mk_decoded x)))))
             (\<lambda>inst. let g1 = g\<lparr>jg_curr_inst_index := jg_curr_inst_index g + 1\<rparr> in
                case inst of
                  None \<Rightarrow> Inr (None, g1)
                | Some x \<Rightarrow> let uid = jg_unique_id g1 + 1 in
                    Inr (Some (setProgramID uid (setUniqueID uid x)), g1\<lparr>jg_unique_id := uid\<rparr>)))))"

section \<open>STF traces\<close>

record stf_inst =
  stf_opcode :: u64
  stf_pc :: u64
  stf_isOpcode16 :: bool
  stf_mem_accesses :: "u64 list"

text \<open>\<open>next_it_\<close> is the rest of the trace; the reader filters the records before the generator sees them.\<close>

record TraceInstGenerator =
  tg_next_it :: "stf_inst list"
  tg_unique_id :: u64

definition mk_TraceInstGenerator :: "stf_inst list \<Rightarrow> TraceInstGenerator" where
  "mk_TraceInstGenerator trace = \<lparr>tg_next_it = trace, tg_unique_id = 0\<rparr>"

definition trace_isDone :: "TraceInstGenerator \<Rightarrow> bool" where
  "trace_isDone g \<longleftrightarrow> tg_next_it g = []"

definition trace_inst :: "stf_inst \<Rightarrow> u64 \<Rightarrow> decoded \<Rightarrow> Inst" where
  "trace_inst r uid d =
     (let x = setProgramID uid (setUniqueID uid (setPC (stf_pc r) (mk_decoded d)));
          x = setIsRvcInst (stf_isOpcode16 r) x;
          x = setUncompressedInst (getOpCode x) (setCompressedInst (getOpCode x) x);
          x = InsnComplete (setImm (ucast (getImmediate x)) x)
      in if stf_mem_accesses r \<noteq> [] then setTargetVAddr (hd (stf_mem_accesses r)) x else x)"

definition trace_getNextInst :: "(u64 \<Rightarrow> decoded result) \<Rightarrow> TraceInstGenerator
    \<Rightarrow> (Inst option \<times> TraceInstGenerator) result" where
  "trace_getNextInst makeInst g =
     (case tg_next_it g of
        [] \<Rightarrow> Inr (None, g)
      | r # rest \<Rightarrow>
          bindE (makeInst (stf_opcode r))
          (\<lambda>d. let uid = tg_unique_id g + 1 in
             Inr (Some (trace_inst r uid d), g\<lparr>tg_unique_id := uid, tg_next_it := rest\<rparr>)))"

text \<open>The trace generator inherits the empty virtual functions of the base class.\<close>

definition trace_generator :: "(u64 \<Rightarrow> decoded result) \<Rightarrow> TraceInstGenerator InstGenerator" where
  "trace_generator makeInst = \<lparr>ig_getNextInst = trace_getNextInst makeInst, ig_isDone = trace_isDone,
     ig_branchResolve = (\<lambda>_ g. Inr g), ig_setNpc = (\<lambda>_ g. g), ig_makeBackup = Inr,
     ig_setPredictionMiss = (\<lambda>_ g. g), ig_getPredictionMiss = (\<lambda>_. False)\<rparr>"

definition json_generator :: "(string \<Rightarrow> OperandInfo \<Rightarrow> OperandInfo \<Rightarrow> u64 option \<Rightarrow> decoded option result)
    \<Rightarrow> JSONInstGenerator InstGenerator" where
  "json_generator direct = \<lparr>ig_getNextInst = json_getNextInst direct, ig_isDone = json_isDone,
     ig_branchResolve = (\<lambda>_ g. Inr g), ig_setNpc = (\<lambda>_ g. g), ig_makeBackup = Inr,
     ig_setPredictionMiss = (\<lambda>_ g. g), ig_getPredictionMiss = (\<lambda>_. False)\<rparr>"

section \<open>The functional simulator\<close>

record spike_insn =
  si_bits :: u64
  si_pc :: u64
  si_isRvc :: bool
  si_reg_write :: RegWrite_t
  si_mem_read :: MemRead_t
  si_mem_write :: MemWrite_t

text \<open>The operations of the adapter that the generator calls, on an adapter state \<open>'a\<close>.\<close>

record 'a spikeAdapter =
  sa_is_done :: "'a \<Rightarrow> bool"
  sa_spikeStep :: "'a \<Rightarrow> (bool \<times> 'a) result"
  sa_spikeGetNextInst :: "'a \<Rightarrow> spike_insn option \<times> 'a"
  sa_getSpikeNpc :: "'a \<Rightarrow> u64"
  sa_getPredictionMiss :: "'a \<Rightarrow> bool"
  sa_setPredictionMiss :: "bool \<Rightarrow> 'a \<Rightarrow> 'a"
  sa_setNpc :: "u64 \<Rightarrow> 'a \<Rightarrow> 'a"
  sa_MakeBackup :: "'a \<Rightarrow> 'a result"
  sa_BranchResolve :: "bool \<Rightarrow> 'a \<Rightarrow> 'a result"

record 'a SpikeInstGenerator =
  sg_adapter :: 'a
  sg_fetch_nop_inst :: bool
  sg_unique_id :: u64

definition spike_nop :: "decoded \<Rightarrow> Inst" where
  "spike_nop d =
     (let x = setProgramID 0 (setUniqueID 0 (setPC 0 (mk_decoded d)));
          x = setUncompressedInst 0x13 (setCompressedInst 0x13 (setIsRvcInst False x))
      in InsnComplete (setSpikeNpc 0 (setImm 0 x)))"

text \<open>
  The loop that waits for the next instruction: it ends with a nop (\<open>Inl\<close> of the sum), with nothing
  because the simulator is done, or with an instruction. \<open>waterline\<close> counts the rounds; the loop itself
  has no other bound, so the number of rounds it may take is an argument.
\<close>

datatype spike_fetched = Fetched_nop | Fetched_end | Fetched_insn spike_insn

fun spike_wait :: "'a spikeAdapter \<Rightarrow> nat \<Rightarrow> int \<Rightarrow> 'a SpikeInstGenerator
    \<Rightarrow> (spike_fetched \<times> 'a SpikeInstGenerator) result" where
  "spike_wait ops 0 waterline g = Inl NoReturn"
| "spike_wait ops (Suc fuel) waterline g =
     (if waterline = 2 ^ 31 - 1 then Inl (Undefined ''signed overflow'')
      else if (waterline + 1 > 10 \<and> sa_getPredictionMiss ops (sg_adapter g)) \<or> sg_fetch_nop_inst g
      then Inr (Fetched_nop, g\<lparr>sg_fetch_nop_inst := True\<rparr>)
      else bindE (sa_spikeStep ops (sg_adapter g))
        (\<lambda>(stop, a1).
          if stop then Inr (Fetched_end, g\<lparr>sg_adapter := a1\<rparr>)
          else case sa_spikeGetNextInst ops a1 of
            (None, a2) \<Rightarrow> spike_wait ops fuel (waterline + 1) (g\<lparr>sg_adapter := a2\<rparr>)
          | (Some i, a2) \<Rightarrow> Inr (Fetched_insn i, g\<lparr>sg_adapter := a2\<rparr>)))"

definition spike_inst :: "'a spikeAdapter \<Rightarrow> spike_insn \<Rightarrow> 'a SpikeInstGenerator \<Rightarrow> decoded
    \<Rightarrow> Inst \<times> 'a SpikeInstGenerator" where
  "spike_inst ops i g d =
     (let miss = sa_getPredictionMiss ops (sg_adapter g);
          g1 = (if miss then g else g\<lparr>sg_unique_id := sg_unique_id g + 1\<rparr>);
          x = setPC (si_pc i) (mk_decoded d);
          x = (if miss then x else setUniqueID (sg_unique_id g1) x);
          x = setIsRvcInst (si_isRvc i) (setProgramID (sg_unique_id g1) x);
          x = setUncompressedInst (ucast (si_bits i)) (setCompressedInst (ucast (si_bits i)) x);
          x = setSpikeNpc (sa_getSpikeNpc ops (sg_adapter g1)) (setImm (ucast (getImmediate x)) x);
          x = InsnComplete (setMemWrite (si_mem_write i) (setMemRead (si_mem_read i) (setRegWrite (si_reg_write i) x)))
      in (x, if getFuType x = FT_CSR \<and> miss then g1\<lparr>sg_fetch_nop_inst := True\<rparr> else g1))"

definition spike_getNextInst :: "'a spikeAdapter \<Rightarrow> (u64 \<Rightarrow> decoded result) \<Rightarrow> nat \<Rightarrow> 'a SpikeInstGenerator
    \<Rightarrow> (Inst option \<times> 'a SpikeInstGenerator) result" where
  "spike_getNextInst ops makeInst fuel g =
     (if sa_is_done ops (sg_adapter g) then Inr (None, g)
      else bindE (spike_wait ops fuel 0 g)
        (\<lambda>(f, g1). case f of
             Fetched_nop \<Rightarrow> bindE (makeInst 0x13) (\<lambda>d. Inr (Some (spike_nop d), g1))
           | Fetched_end \<Rightarrow> Inr (None, g1)
           | Fetched_insn i \<Rightarrow>
               bindE (makeInst (si_bits i)) (\<lambda>d. case spike_inst ops i g1 d of (x, g2) \<Rightarrow> Inr (Some x, g2))))"

definition spike_setNpc :: "'a spikeAdapter \<Rightarrow> u64 \<Rightarrow> 'a SpikeInstGenerator \<Rightarrow> 'a SpikeInstGenerator" where
  "spike_setNpc ops npc g = g\<lparr>sg_adapter := sa_setNpc ops npc (sg_adapter g), sg_fetch_nop_inst := False\<rparr>"

definition spike_generator :: "'a spikeAdapter \<Rightarrow> (u64 \<Rightarrow> decoded result) \<Rightarrow> nat
    \<Rightarrow> 'a SpikeInstGenerator InstGenerator" where
  "spike_generator ops makeInst fuel = \<lparr>ig_getNextInst = spike_getNextInst ops makeInst fuel,
     ig_isDone = (\<lambda>g. sa_is_done ops (sg_adapter g)),
     ig_branchResolve = (\<lambda>b g. bindE (sa_BranchResolve ops b (sg_adapter g)) (\<lambda>a. Inr (g\<lparr>sg_adapter := a\<rparr>))),
     ig_setNpc = spike_setNpc ops,
     ig_makeBackup = (\<lambda>g. bindE (sa_MakeBackup ops (sg_adapter g)) (\<lambda>a. Inr (g\<lparr>sg_adapter := a\<rparr>))),
     ig_setPredictionMiss = (\<lambda>b g. g\<lparr>sg_adapter := sa_setPredictionMiss ops b (sg_adapter g)\<rparr>),
     ig_getPredictionMiss = (\<lambda>g. sa_getPredictionMiss ops (sg_adapter g))\<rparr>"

section \<open>Register scans\<close>

text \<open>The registers of a bit set in increasing order.\<close>

definition regs_of :: "u64 \<Rightarrow> nat list" where
  "regs_of s = filter (bit s) [0..<64]"

lemma scan_first_filter:
  "scan_first f s js x = (case filter (bit s) js of [] \<Rightarrow> x | i # _ \<Rightarrow> f (word_of_nat i) x)"
  by (induction js) auto

lemma scan_two_done: "scan_two f1 f2 s 3 js x = x"
  by (induction js) auto

lemma scan_two_second:
  "scan_two f1 f2 s 2 js x = (case filter (bit s) js of [] \<Rightarrow> x | i # _ \<Rightarrow> f2 (word_of_nat i) x)"
  by (induction js) (auto simp: scan_two_done)

lemma scan_two_filter:
  "scan_two f1 f2 s 1 js x = (case filter (bit s) js of [] \<Rightarrow> x | [i] \<Rightarrow> f1 (word_of_nat i) x
     | i # j # _ \<Rightarrow> f2 (word_of_nat j) (f1 (word_of_nat i) x))"
  by (induction js) (auto simp: scan_two_second split: list.splits)

text \<open>The counts the decoder gives are the sizes of its bit sets.\<close>

definition counts_ok :: "opcode_info_t \<Rightarrow> bool" where
  "counts_ok oi \<longleftrightarrow>
     oi_numIntSourceRegs oi = word_of_nat (length (regs_of (oi_IntSourceRegs oi)))
   \<and> oi_numFloatSourceRegs oi = word_of_nat (length (regs_of (oi_FloatSourceRegs oi)))
   \<and> oi_numIntDestRegs oi = word_of_nat (length (regs_of (oi_IntDestRegs oi)))
   \<and> oi_numFloatDestRegs oi = word_of_nat (length (regs_of (oi_FloatDestRegs oi)))"

lemma regs_of_length: "length (regs_of s) \<le> 64"
  unfolding regs_of_def by (metis length_filter_le length_upt minus_nat.diff_0)

lemma count_word: "(word_of_nat (length (regs_of s)) :: u32) = word_of_nat k \<longleftrightarrow> length (regs_of s) = k" if "k \<le> 64"
proof -
  have "unat (word_of_nat (length (regs_of s)) :: u32) = length (regs_of s)"
    using regs_of_length [of s] by (simp add: unat_of_nat)
  moreover have "unat (word_of_nat k :: u32) = k" using that by (simp add: unat_of_nat)
  ultimately show ?thesis by (metis)
qed

lemma count_word_1: "(word_of_nat (length (regs_of s)) :: u32) = 1 \<longleftrightarrow> length (regs_of s) = 1"
  using count_word [of 1 s] by simp

lemma count_word_2: "(word_of_nat (length (regs_of s)) :: u32) = 2 \<longleftrightarrow> length (regs_of s) = 2"
  using count_word [of 2 s] by simp

lemma complete_fu_keeps:
  "\<exists>f. complete_fu x = setFuType f x"
  by (cases "getUnit x") (auto simp: complete_fu_def Let_def)

section \<open>What InsnComplete computes\<close>

lemmas complete_defs = set_rs1_def set_rs2_def set_rd_def

lemma complete_int_sources_spec:
  assumes "counts_ok (opcode_info x)"
  shows "complete_int_sources x = (case regs_of (oi_IntSourceRegs (opcode_info x)) of
     [a] \<Rightarrow> set_rs1 RT_INT (word_of_nat a) x
   | [a, b] \<Rightarrow> set_rs2 RT_INT (word_of_nat b) (set_rs1 RT_INT (word_of_nat a) x) | _ \<Rightarrow> x)"
  using assms
  unfolding complete_int_sources_def counts_ok_def scan_first_filter scan_two_filter regs_of_def [symmetric]
  by (auto simp: count_word_1 count_word_2 split: list.splits)

lemma complete_float_sources_spec:
  assumes "counts_ok (opcode_info x)"
  shows "complete_float_sources x = (case regs_of (oi_FloatSourceRegs (opcode_info x)) of
     [a] \<Rightarrow> set_rs2 RT_FLOAT (word_of_nat a) x
   | [a, b] \<Rightarrow> set_rs2 RT_FLOAT (word_of_nat b) (set_rs1 RT_FLOAT (word_of_nat a) x) | _ \<Rightarrow> x)"
  using assms
  unfolding complete_float_sources_def counts_ok_def scan_first_filter scan_two_filter regs_of_def [symmetric]
  by (auto simp: count_word_1 count_word_2 split: list.splits)

lemma scan_first_one:
  "length (regs_of s) = 1 \<Longrightarrow> scan_first f s [0..<64] x = f (word_of_nat (hd (regs_of s))) x"
  unfolding scan_first_filter regs_of_def [symmetric] by (auto split: list.splits)

definition pick_one :: "RegType_t \<Rightarrow> u64 \<Rightarrow> IsaRegId_t \<times> RegType_t \<Rightarrow> IsaRegId_t \<times> RegType_t" where
  "pick_one t s d = (if length (regs_of s) = 1 then (word_of_nat (hd (regs_of s)), t) else d)"

lemma set_rd_id: "set_rd (getRdType x) (getIsaRd x) x = x"
  by (simp add: set_rd_def)

lemma complete_dests_spec:
  assumes "counts_ok (opcode_info x)"
  shows "complete_dests x = (let p = pick_one RT_FLOAT (oi_FloatDestRegs (opcode_info x))
     (pick_one RT_INT (oi_IntDestRegs (opcode_info x)) (getIsaRd x, getRdType x)) in set_rd (snd p) (fst p) x)"
proof -
  have keep: "opcode_info (set_rd t r y) = opcode_info y" "set_rd t r (set_rd t' r' y) = set_rd t r y" for t r t' r' y
    by (simp_all add: set_rd_def)
  show ?thesis
    using assms unfolding complete_dests_def counts_ok_def
    by (simp add: count_word_1 scan_first_one keep pick_one_def Let_def set_rd_id del: getRdType_def getIsaRd_def)
qed

lemma complete_opcode_info [simp]:
  "opcode_info (complete_fu x) = opcode_info x"
  "counts_ok (opcode_info x) \<Longrightarrow> opcode_info (complete_int_sources x) = opcode_info x"
  "counts_ok (opcode_info x) \<Longrightarrow> opcode_info (complete_float_sources x) = opcode_info x"
  using complete_fu_keeps [of x]
  by (auto simp: complete_int_sources_spec complete_float_sources_spec complete_defs split: list.splits)

text \<open>The operands of an instruction as the register lists of its opcode give them.\<close>

definition spec_rs1 :: "Inst \<Rightarrow> IsaRegId_t \<times> RegType_t" where
  "spec_rs1 x = (case regs_of (oi_FloatSourceRegs (opcode_info x)) of [a, b] \<Rightarrow> (word_of_nat a, RT_FLOAT)
     | _ \<Rightarrow> (case regs_of (oi_IntSourceRegs (opcode_info x)) of [a] \<Rightarrow> (word_of_nat a, RT_INT)
       | [a, b] \<Rightarrow> (word_of_nat a, RT_INT) | _ \<Rightarrow> (getIsaRs1 x, getRs1Type x)))"

definition spec_rs2 :: "Inst \<Rightarrow> IsaRegId_t \<times> RegType_t" where
  "spec_rs2 x = (case regs_of (oi_FloatSourceRegs (opcode_info x)) of [a] \<Rightarrow> (word_of_nat a, RT_FLOAT)
     | [a, b] \<Rightarrow> (word_of_nat b, RT_FLOAT)
     | _ \<Rightarrow> (case regs_of (oi_IntSourceRegs (opcode_info x)) of [a, b] \<Rightarrow> (word_of_nat b, RT_INT)
       | _ \<Rightarrow> (getIsaRs2 x, getRs2Type x)))"

definition spec_rd :: "Inst \<Rightarrow> IsaRegId_t \<times> RegType_t" where
  "spec_rd x = pick_one RT_FLOAT (oi_FloatDestRegs (opcode_info x))
     (pick_one RT_INT (oi_IntDestRegs (opcode_info x)) (getIsaRd x, getRdType x))"

definition spec_fu :: "Inst \<Rightarrow> FuncType" where
  "spec_fu x = (if \<not> getIsRvcInst x \<and> getUncompressedInst x AND 0x7F = 0x73 then FT_CSR
     else case getUnit x of TU_LSU \<Rightarrow> if is_store x then FT_STU else FT_LDU
       | TU_BR \<Rightarrow> FT_BRU | TU_FPU \<Rightarrow> FT_FPU | _ \<Rightarrow> FT_ALU)"

lemma complete_fu_spec: "complete_fu x = setFuType (spec_fu x) x"
  by (cases "getUnit x") (auto simp: complete_fu_def spec_fu_def Let_def)

text \<open>The two source stages together, by the number of registers of each kind.\<close>

lemma set_rs_id: "set_rs2 (getRs2Type x) (getIsaRs2 x) x = x" "set_rs1 (getRs1Type x) (getIsaRs1 x) x = x"
  by (simp_all add: complete_defs)

lemma set_rs_twice:
  "set_rs1 t r (set_rs2 t' r' x) = set_rs2 t' r' (set_rs1 t r x)"
  "set_rs2 t r (set_rs2 t' r' x) = set_rs2 t r x" "set_rs1 t r (set_rs1 t' r' x) = set_rs1 t r x"
  by (simp_all add: complete_defs)

lemma complete_sources_spec:
  assumes "counts_ok (opcode_info x)"
  shows "complete_float_sources (complete_int_sources x)
    = set_rs2 (snd (spec_rs2 x)) (fst (spec_rs2 x)) (set_rs1 (snd (spec_rs1 x)) (fst (spec_rs1 x)) x)"
proof -
  let ?i = "complete_int_sources x"
  have oi: "opcode_info ?i = opcode_info x" using assms by simp
  have id: "set_rs2 (getRs2Type x) (getIsaRs2 x) (set_rs1 t r x) = set_rs1 t r x" for t r
    by (simp add: complete_defs)
  have f: "complete_float_sources ?i = (case regs_of (oi_FloatSourceRegs (opcode_info x)) of
     [a] \<Rightarrow> set_rs2 RT_FLOAT (word_of_nat a) ?i
   | [a, b] \<Rightarrow> set_rs2 RT_FLOAT (word_of_nat b) (set_rs1 RT_FLOAT (word_of_nat a) ?i) | _ \<Rightarrow> ?i)"
    using complete_float_sources_spec [of ?i] assms unfolding oi by blast
  have i: "?i = (case regs_of (oi_IntSourceRegs (opcode_info x)) of
     [a] \<Rightarrow> set_rs1 RT_INT (word_of_nat a) x
   | [a, b] \<Rightarrow> set_rs2 RT_INT (word_of_nat b) (set_rs1 RT_INT (word_of_nat a) x) | _ \<Rightarrow> x)"
    by (rule complete_int_sources_spec [OF assms])
  show ?thesis
    unfolding f unfolding i spec_rs1_def spec_rs2_def
    by (auto simp: id set_rs_id set_rs_twice simp del: getRs1Type_def getRs2Type_def getIsaRs1_def getIsaRs2_def
        split: list.split)
qed

lemma InsnComplete_unfold:
  assumes "counts_ok (opcode_info x)"
  shows "InsnComplete x = setFuType (spec_fu x)
     (set_rd (snd (spec_rd x)) (fst (spec_rd x))
     (set_rs2 (snd (spec_rs2 x)) (fst (spec_rs2 x)) (set_rs1 (snd (spec_rs1 x)) (fst (spec_rs1 x)) x)))"
proof -
  let ?f = "setFuType (spec_fu x) x"
  let ?s = "complete_float_sources (complete_int_sources ?f)"
  have g: "opcode_info ?f = opcode_info x" "getIsaRs1 ?f = getIsaRs1 x" "getRs1Type ?f = getRs1Type x"
    "getIsaRs2 ?f = getIsaRs2 x" "getRs2Type ?f = getRs2Type x" by simp_all
  have s: "spec_rs1 ?f = spec_rs1 x" "spec_rs2 ?f = spec_rs2 x"
    unfolding spec_rs1_def spec_rs2_def g by (rule refl)+
  have c: "counts_ok (opcode_info ?f)" using assms by simp
  have t: "?s = set_rs2 (snd (spec_rs2 x)) (fst (spec_rs2 x)) (set_rs1 (snd (spec_rs1 x)) (fst (spec_rs1 x)) ?f)"
    using complete_sources_spec [OF c] unfolding s .
  have d: "opcode_info ?s = opcode_info x" "getIsaRd ?s = getIsaRd x" "getRdType ?s = getRdType x"
    unfolding t by (simp_all add: complete_defs)
  have "complete_dests ?s = set_rd (snd (spec_rd x)) (fst (spec_rd x)) ?s"
    using complete_dests_spec [of ?s] assms unfolding d spec_rd_def Let_def by blast
  then show ?thesis unfolding InsnComplete_def complete_fu_spec t by (simp add: complete_defs)
qed

text \<open>Whatever the counts are, only operands and functional type change.\<close>

definition operands_apart :: "Inst \<Rightarrow> Inst \<Rightarrow> bool" where
  "operands_apart x y \<longleftrightarrow> (\<exists>a b c d e f. y = set_rd d c (set_rs2 b a (set_rs1 f e x)))"

lemma operands_apart_refl: "operands_apart x x"
  unfolding operands_apart_def by (intro exI [of _ "getIsaRs2 x"] exI [of _ "getRs2Type x"] exI [of _ "getIsaRd x"] exI [of _ "getRdType x"]
    exI [of _ "getIsaRs1 x"] exI [of _ "getRs1Type x"]) (simp add: complete_defs)

lemma operands_apart_step:
  assumes "operands_apart x y"
  shows "operands_apart x (set_rs1 t r y)" "operands_apart x (set_rs2 t r y)" "operands_apart x (set_rd t r y)"
proof -
  obtain a b c d e f where y: "y = set_rd d c (set_rs2 b a (set_rs1 f e x))" using assms by (auto simp: operands_apart_def)
  have "set_rs1 t r y = set_rd d c (set_rs2 b a (set_rs1 t r x))" "set_rs2 t r y = set_rd d c (set_rs2 t r (set_rs1 f e x))"
    "set_rd t r y = set_rd t r (set_rs2 b a (set_rs1 f e x))" by (simp_all add: y complete_defs)
  then show "operands_apart x (set_rs1 t r y)" "operands_apart x (set_rs2 t r y)" "operands_apart x (set_rd t r y)"
    unfolding operands_apart_def by blast+
qed

lemma scan_first_operands:
  "(\<And>i y. operands_apart x y \<Longrightarrow> operands_apart x (f i y)) \<Longrightarrow> operands_apart x y \<Longrightarrow> operands_apart x (scan_first f s js y)"
  by (induction js) auto

lemma scan_two_operands:
  "(\<And>i y. operands_apart x y \<Longrightarrow> operands_apart x (f1 i y)) \<Longrightarrow> (\<And>i y. operands_apart x y \<Longrightarrow> operands_apart x (f2 i y))
    \<Longrightarrow> operands_apart x y \<Longrightarrow> operands_apart x (scan_two f1 f2 s n js y)"
  by (induction js arbitrary: n y) auto

lemma InsnComplete_frame: "operands_apart (setFuType (spec_fu x) x) (InsnComplete x)"
  unfolding InsnComplete_def complete_fu_spec complete_dests_def complete_float_sources_def complete_int_sources_def Let_def
  by (simp add: scan_first_operands scan_two_operands operands_apart_step operands_apart_refl)

section \<open>Waiting for the simulator\<close>

text \<open>
  While the misprediction mark stays, ten rounds without an instruction end the wait, so its result does not depend on
  the number of rounds allowed beyond that.
\<close>

lemma spike_wait_bounded:
  assumes "\<forall>a stop a'. sa_getPredictionMiss ops a \<and> sa_spikeStep ops a = Inr (stop, a') \<longrightarrow> sa_getPredictionMiss ops a'"
    and "\<forall>a. sa_getPredictionMiss ops (snd (sa_spikeGetNextInst ops a)) = sa_getPredictionMiss ops a"
    and "sa_getPredictionMiss ops (sg_adapter g)" "0 \<le> w" "w \<le> 10" "nat (10 - w) < n" "n \<le> fuel"
  shows "spike_wait ops fuel w g = spike_wait ops n w g
    \<and> ((\<exists>f g'. spike_wait ops fuel w g = Inr (f, g'))
      \<or> (\<exists>a e. sa_getPredictionMiss ops a \<and> sa_spikeStep ops a = Inl e \<and> spike_wait ops fuel w g = Inl e))"
  using assms(3-)
proof (induction fuel arbitrary: n w g)
  case 0
  then show ?case by simp
next
  case (Suc fuel)
  obtain n' where n: "n = Suc n'" using Suc.prems(4) by (cases n) auto
  show ?case
  proof (cases "w = 10 \<or> sg_fetch_nop_inst g")
    case True
    with Suc.prems n show ?thesis by auto
  next
    case False
    show ?thesis
    proof (cases "sa_spikeStep ops (sg_adapter g)")
      case (Inl e)
      with False Suc.prems n show ?thesis by auto
    next
      case (Inr r)
      obtain stop a1 where r: "r = (stop, a1)" by fastforce
      obtain i a2 where i: "sa_spikeGetNextInst ops a1 = (i, a2)" by fastforce
      have "sa_getPredictionMiss ops a2"
        using assms(1,2) Suc.prems(1) Inr r i by (metis snd_conv)
      moreover have "0 \<le> w + 1" "w + 1 \<le> 10" "nat (10 - (w + 1)) < n'" "n' \<le> fuel" using Suc.prems False n by auto
      ultimately have "spike_wait ops fuel (w + 1) (g\<lparr>sg_adapter := a2\<rparr>) = spike_wait ops n' (w + 1) (g\<lparr>sg_adapter := a2\<rparr>)
        \<and> ((\<exists>f g'. spike_wait ops fuel (w + 1) (g\<lparr>sg_adapter := a2\<rparr>) = Inr (f, g'))
          \<or> (\<exists>a e. sa_getPredictionMiss ops a \<and> sa_spikeStep ops a = Inl e
              \<and> spike_wait ops fuel (w + 1) (g\<lparr>sg_adapter := a2\<rparr>) = Inl e))"
        by (intro Suc.IH) simp_all
      moreover have "spike_wait ops (Suc m) w g = (if stop then Inr (Fetched_end, g\<lparr>sg_adapter := a1\<rparr>)
          else case i of None \<Rightarrow> spike_wait ops m (w + 1) (g\<lparr>sg_adapter := a2\<rparr>)
            | Some j \<Rightarrow> Inr (Fetched_insn j, g\<lparr>sg_adapter := a2\<rparr>))" for m
        using False Suc.prems Inr r i by (cases i) auto
      ultimately show ?thesis unfolding n by (cases stop; cases i) simp_all
    qed
  qed
qed

lemma spike_getNextInst_bounded:
  assumes "\<forall>a stop a'. sa_getPredictionMiss ops a \<and> sa_spikeStep ops a = Inr (stop, a') \<longrightarrow> sa_getPredictionMiss ops a'"
    and "\<forall>a. sa_getPredictionMiss ops (snd (sa_spikeGetNextInst ops a)) = sa_getPredictionMiss ops a"
    and "sa_getPredictionMiss ops (sg_adapter g)" "11 \<le> fuel"
  shows "spike_getNextInst ops makeInst fuel g = spike_getNextInst ops makeInst 11 g
    \<and> ((\<exists>x g'. spike_getNextInst ops makeInst fuel g = Inr (x, g'))
      \<or> (\<exists>bits e. makeInst bits = Inl e \<and> spike_getNextInst ops makeInst fuel g = Inl e)
      \<or> (\<exists>a e. sa_getPredictionMiss ops a \<and> sa_spikeStep ops a = Inl e \<and> spike_getNextInst ops makeInst fuel g = Inl e))"
proof (cases "sa_is_done ops (sg_adapter g)")
  case True
  then show ?thesis by (simp add: spike_getNextInst_def)
next
  case False
  have wc: "spike_wait ops fuel 0 g = spike_wait ops 11 0 g
    \<and> ((\<exists>f g'. spike_wait ops fuel 0 g = Inr (f, g'))
      \<or> (\<exists>a e. sa_getPredictionMiss ops a \<and> sa_spikeStep ops a = Inl e \<and> spike_wait ops fuel 0 g = Inl e))"
    by (rule spike_wait_bounded [OF assms(1-3)]) (use assms(4) in simp_all)
  note w = wc [THEN conjunct1] and c = wc [THEN conjunct2]
  have same: "spike_getNextInst ops makeInst fuel g = spike_getNextInst ops makeInst 11 g"
    unfolding spike_getNextInst_def w ..
  have "(\<exists>x g'. spike_getNextInst ops makeInst fuel g = Inr (x, g'))
      \<or> (\<exists>bits e. makeInst bits = Inl e \<and> spike_getNextInst ops makeInst fuel g = Inl e)
      \<or> (\<exists>a e. sa_getPredictionMiss ops a \<and> sa_spikeStep ops a = Inl e \<and> spike_getNextInst ops makeInst fuel g = Inl e)"
    using c
  proof (elim disjE exE conjE)
    fix f g1 assume f: "spike_wait ops fuel 0 g = Inr (f, g1)"
    show ?thesis
    proof (cases f)
      case Fetched_nop
      with f False show ?thesis by (cases "makeInst 0x13") (auto simp: spike_getNextInst_def)
    next
      case Fetched_end
      with f False show ?thesis by (simp add: spike_getNextInst_def)
    next
      case (Fetched_insn i)
      with f False show ?thesis
        by (cases "makeInst (si_bits i)") (auto simp: spike_getNextInst_def split: prod.splits)
    qed
  next
    fix a e assume "sa_getPredictionMiss ops a" "sa_spikeStep ops a = Inl e" "spike_wait ops fuel 0 g = Inl e"
    with False show ?thesis by (auto simp: spike_getNextInst_def)
  qed
  with same show ?thesis by blast
qed

section \<open>Properties\<close>

text \<open>
  (C34) What decoding completes. When the counts of the decoder are the sizes of its bit sets, the loops
  over the 64 bits find the registers in increasing order: two float sources fill rs1 and rs2, one float
  source fills rs2, one or two integer sources fill what the float ones leave, and a float destination
  wins over an integer one. The functional type follows from the target unit, system opcodes become
  CSR. Nothing else changes: with no or more than two sources of a kind the register type keeps the value
  the object was created with, which the constructor does not initialise.
\<close>

theorem InsnComplete_operands:
  assumes "counts_ok (opcode_info x)"
  shows "InsnComplete x = setFuType (spec_fu x)
     (setRdType (snd (spec_rd x)) (setIsaRd (fst (spec_rd x))
     (setRs2Type (snd (spec_rs2 x)) (setIsaRs2 (fst (spec_rs2 x))
     (setRs1Type (snd (spec_rs1 x)) (setIsaRs1 (fst (spec_rs1 x)) x))))))"
  unfolding InsnComplete_unfold [OF assms] complete_defs by (rule refl)

definition fsd_opcode :: opcode_info_t where
  "fsd_opcode = \<lparr>oi_Mnemonic = ''fsd'', oi_Opcode = 0x27, oi_Immediate = 0, oi_isStore = True,
     oi_IntSourceRegs = 4, oi_FloatSourceRegs = 8, oi_IntDestRegs = 0, oi_FloatDestRegs = 0,
     oi_numIntSourceRegs = 1, oi_numFloatSourceRegs = 1, oi_numIntDestRegs = 0, oi_numFloatDestRegs = 0\<rparr>"

definition example_garbage :: InstInfo where
  "example_garbage = \<lparr>pc = 0, IsRvcInst = False, CompressedInst = 0, UncompressedInst = 0,
     IsMissPrediction = False, SpikeNpc = 0, IsaRs1 = 0, IsaRs2 = 0, IsaRd = 0, imm = 0, Rs1Type = RT_NONE,
     Rs2Type = RT_NONE, RdType = RT_NONE, Fu = FT_NO_TYPE, SubOp = 0, RobTag = 0, IsRs1Forward = False,
     IsRs2Forward = False, LSQTag = 0, PhyRs1 = 0, PhyRs2 = 0, PhyRd = 0, LPhyRd = 0, Operand1 = 0,
     Operand2 = 0, RdResult = 0, Excp = \<lparr>excp_valid = False, Cause = 0, Tval = 0\<rparr>, reg_write = [],
     mem_read = [], mem_write = []\<rparr>"

definition fsd_inst :: Inst where
  "fsd_inst = mk_Inst fsd_opcode \<lparr>tgt_unit = TU_LSU, tgt_pipe = TP_LSU, execute_time = 1, is_load_store = True\<rparr>
     example_garbage"

lemma regs_of_examples: "regs_of 4 = [2]" "regs_of 8 = [3]" "regs_of 0 = []"
  by (simp_all add: regs_of_def upt_rec bit_numeral_rec)

theorem InsnComplete_operands_witness:
  "counts_ok (opcode_info fsd_inst) \<and> getIsaRs1 (InsnComplete fsd_inst) = 2
   \<and> getIsaRs2 (InsnComplete fsd_inst) = 3 \<and> getRs2Type (InsnComplete fsd_inst) = RT_FLOAT
   \<and> getFuType (InsnComplete fsd_inst) = FT_STU"
proof -
  have oi: "opcode_info fsd_inst = fsd_opcode" by (simp add: fsd_inst_def mk_Inst_def)
  have c: "counts_ok (opcode_info fsd_inst)"
    unfolding oi counts_ok_def by (simp add: fsd_opcode_def regs_of_examples)
  have s: "spec_rs1 fsd_inst = (2, RT_INT)" "spec_rs2 fsd_inst = (3, RT_FLOAT)"
    unfolding spec_rs1_def spec_rs2_def oi by (simp_all add: fsd_opcode_def regs_of_examples)
  have "spec_fu fsd_inst = FT_STU"
    by (simp add: spec_fu_def fsd_inst_def mk_Inst_def example_garbage_def fsd_opcode_def)
  with c s show ?thesis unfolding InsnComplete_operands [OF c] by simp
qed

definition nop_decoded :: decoded where
  "nop_decoded = (fsd_opcode, \<lparr>tgt_unit = TU_ALU, tgt_pipe = TP_INT, execute_time = 1, is_load_store = False\<rparr>,
     example_garbage)"

text \<open>
  The JSON generator never completes its instructions: the functional type and the register types are
  those the new object happened to hold.
\<close>

lemma JSONInstGenerator_not_completed:
  assumes "json_getNextInst direct g = Inr (Some x, g')"
  shows "\<exists>oi ai garbage. opcode_info x = oi \<and> direct (the (j_mnemonic (jg_insts g ! unat (jg_curr_inst_index g))))
      (json_srcs (jg_insts g ! unat (jg_curr_inst_index g))) (json_dests (jg_insts g ! unat (jg_curr_inst_index g)))
      (j_imm (jg_insts g ! unat (jg_curr_inst_index g))) = Inr (Some (oi, ai, garbage))
    \<and> getFuType x = Fu garbage \<and> getRs1Type x = Rs1Type garbage \<and> getRs2Type x = Rs2Type garbage
    \<and> getRdType x = RdType garbage \<and> getPc x = pc garbage"
  using assms
  by (auto simp: json_getNextInst_def Let_def result_simps mk_decoded_def mk_Inst_def
      split: if_splits option.splits prod.splits)

end
