(* ===== verification/Perfect_Frontend.thy ===== *)
theory Perfect_Frontend
  imports Inst_Generator
begin

text \<open>
  \<open>core/perfect_frontend/PerfectFrontend\<close>: takes as many instructions from its generator as the width and
  the credits of the back end allow, predicts every branch not taken, and tells the generator about
  predictions, redirections and committed branches. A fresh instruction gets the next free address of
  the instruction store.
\<close>

section \<open>Parameters, state, output ports\<close>

record PerfectFrontendParameter =
  fep_issue_width :: u64
  fep_input_file :: string
  fep_insn_gen_type :: string
  fep_is_speculation :: bool
  fep_is_config :: bool

record 'g PerfectFrontend =
  fe_issue_num :: u64
  fe_is_speculation :: bool
  fe_is_config :: bool
  fe_credit :: Credit
  fe_inst_generator :: "'g option"
  fe_insn_gen_type :: string

datatype fe_effect =
    fetch_backend_inst_out InstGroup
  | produce_inst_event nat

section \<open>Handlers\<close>

text \<open>
  The constructor chooses the generator; \<open>mk\<close> builds the one it chose (it opens files and starts the
  simulator, so it is an argument).
\<close>

definition fe_choose :: "PerfectFrontendParameter \<Rightarrow> generator_kind option result" where
  "fe_choose p =
     (if fep_is_config p then Inr None
      else if fep_insn_gen_type p = ''spike'' then Inr (createGenerator_spike (fep_input_file p))
      else if fep_insn_gen_type p = ''trace'' then
        bindE (createGenerator_file (fep_input_file p) False) (\<lambda>k. Inr (Some k))
      else Inr None)"

definition mk_PerfectFrontend :: "(generator_kind \<Rightarrow> 'g) \<Rightarrow> PerfectFrontendParameter \<Rightarrow> 'g PerfectFrontend result" where
  "mk_PerfectFrontend mk p =
     bindE (fe_choose p)
     (\<lambda>k. Inr \<lparr>fe_issue_num = fep_issue_width p, fe_is_speculation = fep_is_speculation p,
        fe_is_config = fep_is_config p, fe_credit = 0, fe_inst_generator = map_option mk k,
        fe_insn_gen_type = fep_insn_gen_type p\<rparr>)"

definition fe_AcceptCredit :: "'g PerfectFrontend \<Rightarrow> Credit \<Rightarrow> 'g PerfectFrontend \<times> fe_effect list" where
  "fe_AcceptCredit s credit = (s\<lparr>fe_credit := fe_credit s + credit\<rparr>, [produce_inst_event 0])"

definition fe_BranchResolve :: "'g PerfectFrontend \<Rightarrow> inst_ptr \<Rightarrow> 'g PerfectFrontend" where
  "fe_BranchResolve s p = s"

text \<open>Without speculation the null generator is never looked at; with it, using it has no meaning.\<close>

definition fe_BranchCommit :: "'g InstGenerator \<Rightarrow> inst_heap \<Rightarrow> 'g PerfectFrontend \<Rightarrow> InstGroup
    \<Rightarrow> 'g PerfectFrontend result" where
  "fe_BranchCommit ops h s g =
     (if \<not> fe_is_speculation s then Inr s
      else foldE (\<lambda>s p. case fe_inst_generator s of
            None \<Rightarrow> Inl (Undefined ''null generator'')
          | Some gen \<Rightarrow> bindE (ig_branchResolve ops (getIsMissPrediction (h p)) gen)
              (\<lambda>gen1. Inr (s\<lparr>fe_inst_generator := Some gen1\<rparr>))) s g)"

definition fe_RedirectPc :: "'g InstGenerator \<Rightarrow> inst_heap \<Rightarrow> 'g PerfectFrontend \<Rightarrow> inst_ptr
    \<Rightarrow> 'g PerfectFrontend result" where
  "fe_RedirectPc ops h s p =
     (case fe_inst_generator s of
        None \<Rightarrow> Inl (Undefined ''null generator'')
      | Some gen \<Rightarrow> Inr (s\<lparr>fe_inst_generator :=
          Some (ig_setPredictionMiss ops False (ig_setNpc ops (getSpikeNpc (h p)) gen))\<rparr>))"

text \<open>The simulated branch predictor: what happens to a new instruction before it is sent.\<close>

definition fe_predict_npc :: "Inst \<Rightarrow> u64" where
  "fe_predict_npc x = (if getIsRvcInst x then getPc x + 2 else getPc x + 4)"

definition fe_predict :: "bool \<Rightarrow> 'g InstGenerator \<Rightarrow> Inst \<Rightarrow> 'g \<Rightarrow> (Inst \<times> 'g) result" where
  "fe_predict speculation ops x0 gen =
     (let x = (if getPc x0 = 0x1010 then setFuType FT_ALU x0 else x0) in
      if getFuType x = FT_BRU \<and> speculation then
        bindE (ig_makeBackup ops gen)
        (\<lambda>gen0. let gen1 = ig_setNpc ops (fe_predict_npc x) gen0 in
          if fe_predict_npc x \<noteq> getSpikeNpc x
          then Inr (setIsMissPrediction True x, ig_setPredictionMiss ops True gen1)
          else Inr (x, gen1))
      else Inr (x, gen))"

text \<open>
  The loop: the store, the next free address, the group, the generator and the credits.
\<close>

fun ProduceInst_loop :: "bool \<Rightarrow> 'g InstGenerator \<Rightarrow> nat \<Rightarrow> inst_heap \<Rightarrow> inst_ptr \<Rightarrow> InstGroup \<Rightarrow> 'g \<Rightarrow> Credit
    \<Rightarrow> (inst_heap \<times> inst_ptr \<times> InstGroup \<times> 'g \<times> Credit) result" where
  "ProduceInst_loop speculation ops 0 h nx g gen credit = Inr (h, nx, g, gen, credit)"
| "ProduceInst_loop speculation ops (Suc n) h nx g gen credit =
     bindE (ig_getNextInst ops gen)
     (\<lambda>(dinst, gen1). case dinst of
          None \<Rightarrow> Inr (h, nx, g, gen1, credit)
        | Some x \<Rightarrow> bindE (fe_predict speculation ops x gen1)
            (\<lambda>(x1, gen2).
              ProduceInst_loop speculation ops n (h(nx := x1)) (nx + 1) (emplace_back g nx) gen2 (credit - 1)))"

definition ProduceInst :: "'g InstGenerator \<Rightarrow> inst_heap \<Rightarrow> inst_ptr \<Rightarrow> 'g PerfectFrontend
    \<Rightarrow> (inst_heap \<times> inst_ptr \<times> 'g PerfectFrontend \<times> fe_effect list) result" where
  "ProduceInst ops h nx s =
     (let produce_num = min (fe_issue_num s) (fe_credit s) in
      if produce_num = 0 then Inr (h, nx, s, [])
      else case fe_inst_generator s of
        None \<Rightarrow> Inr (h, nx, s, [])
      | Some gen \<Rightarrow>
          bindE (ProduceInst_loop (fe_is_speculation s) ops (unat produce_num) h nx [] gen (fe_credit s))
          (\<lambda>(h1, nx1, g, gen1, credit). Inr (h1, nx1, s\<lparr>fe_inst_generator := Some gen1, fe_credit := credit\<rparr>,
             (if credit \<noteq> 0 \<and> \<not> ig_isDone ops gen1 then [produce_inst_event 1] else [])
             @ [fetch_backend_inst_out g])))"

section \<open>Any generator: credits and fresh addresses\<close>

lemma ProduceInst_loop_account:
  assumes "ProduceInst_loop sp ops n h nx g gen credit = Inr (h', nx', g', gen', credit')" "n \<le> unat credit"
  shows "\<exists>k \<le> n. g' = g @ [nx..<nx + k] \<and> nx' = nx + k \<and> unat credit' = unat credit - k
    \<and> (\<forall>p. p < nx \<or> nx' \<le> p \<longrightarrow> h' p = h p)"
  using assms
proof (induction n arbitrary: h nx g gen credit)
  case 0
  then show ?case by simp
next
  case (Suc n)
  from Suc.prems(1) obtain dinst gen1 where d: "ig_getNextInst ops gen = Inr (dinst, gen1)"
    by (auto simp: result_simps)
  show ?case
  proof (cases dinst)
    case None
    with Suc.prems(1) d show ?thesis by (intro exI [of _ 0]) simp
  next
    case (Some x)
    with Suc.prems(1) d obtain x1 gen2 where pr: "fe_predict sp ops x gen1 = Inr (x1, gen2)"
      by (auto simp: bindE_eq_Inr)
    have l: "ProduceInst_loop sp ops n (h(nx := x1)) (nx + 1) (g @ [nx]) gen2 (credit - 1)
        = Inr (h', nx', g', gen', credit')"
      using Suc.prems(1) d Some pr by simp
    have c: "unat (credit - 1) = unat credit - 1"
      using Suc.prems(2) by (intro unat_minus_one_pos) (auto simp: unat_eq_0)
    then have "n \<le> unat (credit - 1)" using Suc.prems(2) by simp
    from Suc.IH [OF l this] obtain k where
      k: "k \<le> n" "g' = (g @ [nx]) @ [nx + 1..<nx + 1 + k]" "nx' = nx + 1 + k"
        "unat credit' = unat (credit - 1) - k" "\<forall>p. p < nx + 1 \<or> nx' \<le> p \<longrightarrow> h' p = (h(nx := x1)) p"
      by blast
    have "nx # [Suc nx..<Suc (nx + k)] = [nx..<Suc (nx + k)]"
      using upt_conv_Cons [of nx "Suc (nx + k)"] by simp
    with k c show ?thesis by (intro exI [of _ "Suc k"]) auto
  qed
qed

section \<open>The trace generator: which instructions are sent\<close>

definition fe_marked :: "bool \<Rightarrow> Inst \<Rightarrow> Inst" where
  "fe_marked sp x0 = (let x = (if getPc x0 = 0x1010 then setFuType FT_ALU x0 else x0) in
     if getFuType x = FT_BRU \<and> sp \<and> fe_predict_npc x \<noteq> getSpikeNpc x then setIsMissPrediction True x else x)"

lemma fe_predict_trace: "fe_predict sp (trace_generator mk) x gen = Inr (fe_marked sp x, gen)"
  by (simp add: fe_predict_def fe_marked_def trace_generator_def Let_def)

text \<open>The instruction for the \<open>i\<close>-th record from now on.\<close>

definition fe_trace_inst :: "bool \<Rightarrow> (u64 \<Rightarrow> decoded result) \<Rightarrow> u64 \<Rightarrow> stf_inst list \<Rightarrow> nat \<Rightarrow> Inst" where
  "fe_trace_inst sp makeInst uid trace i =
     fe_marked sp (trace_inst (trace ! i) (uid + word_of_nat (Suc i)) (projr (makeInst (stf_opcode (trace ! i)))))"

lemma fe_trace_inst_Suc:
  "fe_trace_inst sp mk uid (r # trace) (Suc i) = fe_trace_inst sp mk (uid + 1) trace i"
  by (simp add: fe_trace_inst_def algebra_simps)

lemma ProduceInst_loop_trace:
  assumes "\<forall>r \<in> set trace. \<exists>d. makeInst (stf_opcode r) = Inr d" "k = min n (length trace)"
  shows "\<exists>h'. ProduceInst_loop sp (trace_generator makeInst) n h nx g \<lparr>tg_next_it = trace, tg_unique_id = uid\<rparr> credit
      = Inr (h', nx + k, g @ [nx..<nx + k],
             \<lparr>tg_next_it = drop k trace, tg_unique_id = uid + word_of_nat k\<rparr>, credit - word_of_nat k)
    \<and> (\<forall>i < k. h' (nx + i) = fe_trace_inst sp makeInst uid trace i)
    \<and> (\<forall>p. p < nx \<or> nx + k \<le> p \<longrightarrow> h' p = h p)"
  using assms
proof (induction n arbitrary: trace h nx g uid credit k)
  case 0
  then show ?case by simp
next
  case (Suc n)
  show ?case
  proof (cases trace)
    case Nil
    with Suc.prems(2) show ?thesis by (simp add: trace_generator_def trace_getNextInst_def)
  next
    case (Cons r rest)
    obtain d where d: "makeInst (stf_opcode r) = Inr d" using Suc.prems(1) Cons by auto
    let ?x = "fe_trace_inst sp makeInst uid trace 0"
    let ?k = "min n (length rest)"
    have k: "k = Suc ?k" using Suc.prems(2) Cons by simp
    have x: "?x = fe_marked sp (trace_inst r (uid + 1) d)"
      using d Cons by (simp add: fe_trace_inst_def)
    have rest: "\<forall>r \<in> set rest. \<exists>d. makeInst (stf_opcode r) = Inr d" using Suc.prems(1) Cons by simp
    obtain h' where
      l: "ProduceInst_loop sp (trace_generator makeInst) n (h(nx := ?x)) (nx + 1) (g @ [nx])
          \<lparr>tg_next_it = rest, tg_unique_id = uid + 1\<rparr> (credit - 1)
        = Inr (h', nx + 1 + ?k, (g @ [nx]) @ [nx + 1..<nx + 1 + ?k],
             \<lparr>tg_next_it = drop ?k rest, tg_unique_id = uid + 1 + word_of_nat ?k\<rparr>, credit - 1 - word_of_nat ?k)"
      and hi: "\<forall>i < ?k. h' (nx + 1 + i) = fe_trace_inst sp makeInst (uid + 1) rest i"
      and ho: "\<forall>p. p < nx + 1 \<or> nx + 1 + ?k \<le> p \<longrightarrow> h' p = (h(nx := ?x)) p"
      using Suc.IH [OF rest refl, of "h(nx := ?x)" "nx + 1" "g @ [nx]" "uid + 1" "credit - 1"] by blast
    have g: "ig_getNextInst (trace_generator makeInst) \<lparr>tg_next_it = trace, tg_unique_id = uid\<rparr>
        = Inr (Some (trace_inst r (uid + 1) d), \<lparr>tg_next_it = rest, tg_unique_id = uid + 1\<rparr>)"
      using d Cons by (simp add: trace_generator_def trace_getNextInst_def Let_def)
    have hs: "h' (nx + i) = fe_trace_inst sp makeInst uid trace i" if "i < k" for i
    proof (cases i)
      case 0
      then show ?thesis using ho by simp
    next
      case (Suc j)
      then have "h' (nx + 1 + j) = fe_trace_inst sp makeInst (uid + 1) rest j" using hi that k by simp
      then show ?thesis using Suc Cons by (simp add: fe_trace_inst_Suc)
    qed
    have u: "nx # [Suc nx..<Suc (nx + ?k)] = [nx..<Suc (nx + ?k)]"
      using upt_conv_Cons [of nx "Suc (nx + ?k)"] by simp
    have step: "ProduceInst_loop sp (trace_generator makeInst) (Suc n) h nx g \<lparr>tg_next_it = trace, tg_unique_id = uid\<rparr> credit
        = ProduceInst_loop sp (trace_generator makeInst) n (h(nx := ?x)) (nx + 1) (g @ [nx])
            \<lparr>tg_next_it = rest, tg_unique_id = uid + 1\<rparr> (credit - 1)"
      unfolding x by (simp add: g fe_predict_trace)
    show ?thesis
      unfolding step l using hs ho Cons u
      by (intro exI [of _ h']) (simp add: k algebra_simps del: upt_Suc)
  qed
qed

section \<open>Properties\<close>

text \<open>The data of one record in the instruction built from it.\<close>

lemma trace_inst_data:
  assumes "x = fe_marked False (trace_inst r uid (oi, ai, garbage))"
  shows "getPc x = stf_pc r" "unique_id x = uid" "program_id x = uid" "opcode_info x = oi" "getIsRvcInst x = stf_isOpcode16 r"
    "getCompressedInst x = ucast (oi_Opcode oi)" "getUncompressedInst x = ucast (oi_Opcode oi)" "getImm x = ucast (oi_Immediate oi)"
    "target_vaddr x = (case stf_mem_accesses r of [] \<Rightarrow> 0 | a # _ \<Rightarrow> a)" "\<not> getIsMissPrediction x"
    "getFuType x = (if stf_pc r = 0x1010 then FT_ALU
      else if \<not> stf_isOpcode16 r \<and> (ucast (oi_Opcode oi) :: u32) AND 0x7F = 0x73 then FT_CSR
      else case tgt_unit ai of TU_LSU \<Rightarrow> if oi_isStore oi then FT_STU else FT_LDU
        | TU_BR \<Rightarrow> FT_BRU | TU_FPU \<Rightarrow> FT_FPU | _ \<Rightarrow> FT_ALU)"
    "counts_ok oi \<Longrightarrow> (getIsaRs1 x, getRs1Type x) = spec_rs1 (mk_Inst oi ai garbage)
      \<and> (getIsaRs2 x, getRs2Type x) = spec_rs2 (mk_Inst oi ai garbage) \<and> (getIsaRd x, getRdType x) = spec_rd (mk_Inst oi ai garbage)"
proof -
  define y0 where "y0 = setImm (ucast (oi_Immediate oi)) (setUncompressedInst (ucast (oi_Opcode oi)) (setCompressedInst (ucast (oi_Opcode oi))
    (setIsRvcInst (stf_isOpcode16 r) (setProgramID uid (setUniqueID uid (setPC (stf_pc r) (mk_Inst oi ai garbage)))))))"
  define y where "y = InsnComplete y0"
  define z where "z = (case stf_mem_accesses r of [] \<Rightarrow> y | a # _ \<Rightarrow> setTargetVAddr a y)"
  have x: "x = (if stf_pc r = 0x1010 then setFuType FT_ALU z else z)"
  proof -
    have t: "trace_inst r uid (oi, ai, garbage) = z"
      by (simp add: trace_inst_def mk_decoded_def z_def y_def y0_def mk_Inst_def split: list.split)
    obtain a b c d e f where f: "y = set_rd d c (set_rs2 b a (set_rs1 f e (setFuType (spec_fu y0) y0)))"
      using InsnComplete_frame [of y0] unfolding y_def operands_apart_def by blast
    have "getPc z = stf_pc r" unfolding z_def f by (simp add: complete_defs y0_def split: list.split)
    then show ?thesis unfolding assms t fe_marked_def by (auto simp: Let_def)
  qed
  obtain a b c d e f where f: "y = set_rd d c (set_rs2 b a (set_rs1 f e (setFuType (spec_fu y0) y0)))"
    using InsnComplete_frame [of y0] unfolding y_def operands_apart_def by blast
  show "getPc x = stf_pc r" "unique_id x = uid" "program_id x = uid" "opcode_info x = oi" "getIsRvcInst x = stf_isOpcode16 r"
    "getCompressedInst x = ucast (oi_Opcode oi)" "getUncompressedInst x = ucast (oi_Opcode oi)" "getImm x = ucast (oi_Immediate oi)"
    "target_vaddr x = (case stf_mem_accesses r of [] \<Rightarrow> 0 | a # _ \<Rightarrow> a)" "\<not> getIsMissPrediction x"
    unfolding x z_def f by (auto simp: complete_defs y0_def mk_Inst_def split: list.split)
  have "spec_fu y0 = (if \<not> stf_isOpcode16 r \<and> (ucast (oi_Opcode oi) :: u32) AND 0x7F = 0x73 then FT_CSR
      else case tgt_unit ai of TU_LSU \<Rightarrow> if oi_isStore oi then FT_STU else FT_LDU
        | TU_BR \<Rightarrow> FT_BRU | TU_FPU \<Rightarrow> FT_FPU | _ \<Rightarrow> FT_ALU)"
    by (simp add: spec_fu_def y0_def mk_Inst_def)
  then show "getFuType x = (if stf_pc r = 0x1010 then FT_ALU
      else if \<not> stf_isOpcode16 r \<and> (ucast (oi_Opcode oi) :: u32) AND 0x7F = 0x73 then FT_CSR
      else case tgt_unit ai of TU_LSU \<Rightarrow> if oi_isStore oi then FT_STU else FT_LDU
        | TU_BR \<Rightarrow> FT_BRU | TU_FPU \<Rightarrow> FT_FPU | _ \<Rightarrow> FT_ALU)"
    unfolding x z_def f by (simp add: complete_defs split: list.split)
  assume "counts_ok oi"
  then have "counts_ok (opcode_info y0)" by (simp add: y0_def mk_Inst_def)
  note full = InsnComplete_unfold [OF this, folded y_def]
  have e: "opcode_info y0 = opcode_info (mk_Inst oi ai garbage)" "getIsaRs1 y0 = getIsaRs1 (mk_Inst oi ai garbage)"
    "getRs1Type y0 = getRs1Type (mk_Inst oi ai garbage)" "getIsaRs2 y0 = getIsaRs2 (mk_Inst oi ai garbage)"
    "getRs2Type y0 = getRs2Type (mk_Inst oi ai garbage)" "getIsaRd y0 = getIsaRd (mk_Inst oi ai garbage)"
    "getRdType y0 = getRdType (mk_Inst oi ai garbage)" by (simp_all add: y0_def mk_Inst_def)
  have s: "spec_rs1 y0 = spec_rs1 (mk_Inst oi ai garbage)" "spec_rs2 y0 = spec_rs2 (mk_Inst oi ai garbage)"
      "spec_rd y0 = spec_rd (mk_Inst oi ai garbage)"
    unfolding spec_rs1_def spec_rs2_def spec_rd_def e by (rule refl)+
  show "(getIsaRs1 x, getRs1Type x) = spec_rs1 (mk_Inst oi ai garbage)
      \<and> (getIsaRs2 x, getRs2Type x) = spec_rs2 (mk_Inst oi ai garbage) \<and> (getIsaRd x, getRdType x) = spec_rd (mk_Inst oi ai garbage)"
    unfolding x z_def full s by (simp add: complete_defs split: list.split)
qed

text \<open>
  (C27) The front end delivers the trace, with speculation off. With credit and a decoder that knows the opcodes of the
  trace, one run sends the next \<open>min(width, credit, rest)\<close> records in trace order, each as a fresh instruction.
  The instruction for a record has the record's address, the next unique identifier (also as program identifier), the
  decoded opcode as compressed and uncompressed word and its immediate, the first memory address of the record if it has
  one, and no misprediction mark. Its functional type follows from the target unit, is CSR for a system opcode and ALU
  whatever the opcode at address 0x1010; its registers are those of the opcode when the decoder's counts are the sizes of
  its bit sets. One credit is spent for each, the generator moves on by as many records, and the next run is scheduled
  exactly when credit and records are left. No older instruction is touched. (With speculation on, the front end
  compares a branch of a trace with a successor that the trace generator never sets.)
\<close>

theorem PerfectFrontend_delivers_trace:
  assumes "fe_inst_generator s = Some \<lparr>tg_next_it = trace, tg_unique_id = uid\<rparr>" "\<not> fe_is_speculation s"
    and "\<forall>r \<in> set trace. \<exists>d. makeInst (stf_opcode r) = Inr d"
    and "fe_issue_num s \<noteq> 0" "fe_credit s \<noteq> 0"
    and "k = min (min (unat (fe_issue_num s)) (unat (fe_credit s))) (length trace)"
  shows "\<exists>h'. ProduceInst (trace_generator makeInst) h nx s = Inr (h', nx + k,
      s\<lparr>fe_inst_generator := Some \<lparr>tg_next_it = drop k trace, tg_unique_id = uid + word_of_nat k\<rparr>,
        fe_credit := fe_credit s - word_of_nat k\<rparr>,
      (if unat (fe_credit s) \<noteq> k \<and> drop k trace \<noteq> [] then [produce_inst_event 1] else [])
        @ [fetch_backend_inst_out [nx..<nx + k]])
    \<and> (\<forall>i < k. \<forall>r x oi ai garbage. r = trace ! i \<and> x = h' (nx + i) \<and> makeInst (stf_opcode r) = Inr (oi, ai, garbage) \<longrightarrow>
        getPc x = stf_pc r \<and> unique_id x = uid + word_of_nat (Suc i) \<and> program_id x = uid + word_of_nat (Suc i)
      \<and> opcode_info x = oi \<and> getIsRvcInst x = stf_isOpcode16 r
      \<and> getCompressedInst x = ucast (oi_Opcode oi) \<and> getUncompressedInst x = ucast (oi_Opcode oi) \<and> getImm x = ucast (oi_Immediate oi)
      \<and> target_vaddr x = (case stf_mem_accesses r of [] \<Rightarrow> 0 | a # _ \<Rightarrow> a) \<and> \<not> getIsMissPrediction x
      \<and> getFuType x = (if stf_pc r = 0x1010 then FT_ALU
          else if \<not> stf_isOpcode16 r \<and> (ucast (oi_Opcode oi) :: u32) AND 0x7F = 0x73 then FT_CSR
          else case tgt_unit ai of TU_LSU \<Rightarrow> if oi_isStore oi then FT_STU else FT_LDU
            | TU_BR \<Rightarrow> FT_BRU | TU_FPU \<Rightarrow> FT_FPU | _ \<Rightarrow> FT_ALU)
      \<and> (counts_ok oi \<longrightarrow> (getIsaRs1 x, getRs1Type x) = spec_rs1 (mk_Inst oi ai garbage)
          \<and> (getIsaRs2 x, getRs2Type x) = spec_rs2 (mk_Inst oi ai garbage) \<and> (getIsaRd x, getRdType x) = spec_rd (mk_Inst oi ai garbage)))
    \<and> (\<forall>p. p < nx \<or> nx + k \<le> p \<longrightarrow> h' p = h p)"
proof -
  let ?n = "min (fe_issue_num s) (fe_credit s)"
  have n: "?n \<noteq> 0" using assms(4,5) by (simp add: min_def)
  have un: "unat ?n = min (unat (fe_issue_num s)) (unat (fe_credit s))"
    by (simp add: min_def word_le_nat_alt)
  have "k \<le> unat (fe_credit s)" using assms(6) by simp
  then have c: "fe_credit s = word_of_nat k \<longleftrightarrow> unat (fe_credit s) = k"
    using unat_minus_of_nat [of k "fe_credit s"] unat_eq_0 [of "fe_credit s - word_of_nat k"] by auto
  from ProduceInst_loop_trace [OF assms(3), of k "unat ?n" "fe_is_speculation s" h nx "[]" uid "fe_credit s"]
    assms(6) un obtain h' where
    run: "ProduceInst_loop (fe_is_speculation s) (trace_generator makeInst) (unat ?n) h nx []
        \<lparr>tg_next_it = trace, tg_unique_id = uid\<rparr> (fe_credit s)
      = Inr (h', nx + k, [nx..<nx + k],
             \<lparr>tg_next_it = drop k trace, tg_unique_id = uid + word_of_nat k\<rparr>, fe_credit s - word_of_nat k)"
    and inst: "\<forall>i < k. h' (nx + i) = fe_trace_inst (fe_is_speculation s) makeInst uid trace i"
    and old: "\<forall>p. p < nx \<or> nx + k \<le> p \<longrightarrow> h' p = h p" by auto
  have data: "h' (nx + i) = fe_marked False (trace_inst (trace ! i) (uid + word_of_nat (Suc i)) d)"
    if "i < k" "makeInst (stf_opcode (trace ! i)) = Inr d" for i d
    using inst that assms(2) by (simp add: fe_trace_inst_def)
  have eff: "ProduceInst (trace_generator makeInst) h nx s = Inr (h', nx + k,
      s\<lparr>fe_inst_generator := Some \<lparr>tg_next_it = drop k trace, tg_unique_id = uid + word_of_nat k\<rparr>,
        fe_credit := fe_credit s - word_of_nat k\<rparr>,
      (if unat (fe_credit s) \<noteq> k \<and> drop k trace \<noteq> [] then [produce_inst_event 1] else [])
        @ [fetch_backend_inst_out [nx..<nx + k]])"
    using n assms(1) run by (simp add: ProduceInst_def Let_def c trace_generator_def trace_isDone_def)
  show ?thesis
  proof (intro exI [of _ h'] conjI [OF eff] conjI [OF _ old] allI impI, elim conjE)
    fix i r x oi ai garbage
    assume i: "i < k" and r: "r = trace ! i" "x = h' (nx + i)" and m: "makeInst (stf_opcode r) = Inr (oi, ai, garbage)"
    have "x = fe_marked False (trace_inst r (uid + word_of_nat (Suc i)) (oi, ai, garbage))"
      using data [OF i] m unfolding r by blast
    note t = trace_inst_data [OF this]
    show "getPc x = stf_pc r \<and> unique_id x = uid + word_of_nat (Suc i) \<and> program_id x = uid + word_of_nat (Suc i)
      \<and> opcode_info x = oi \<and> getIsRvcInst x = stf_isOpcode16 r
      \<and> getCompressedInst x = ucast (oi_Opcode oi) \<and> getUncompressedInst x = ucast (oi_Opcode oi) \<and> getImm x = ucast (oi_Immediate oi)
      \<and> target_vaddr x = (case stf_mem_accesses r of [] \<Rightarrow> 0 | a # _ \<Rightarrow> a) \<and> \<not> getIsMissPrediction x
      \<and> getFuType x = (if stf_pc r = 0x1010 then FT_ALU
          else if \<not> stf_isOpcode16 r \<and> (ucast (oi_Opcode oi) :: u32) AND 0x7F = 0x73 then FT_CSR
          else case tgt_unit ai of TU_LSU \<Rightarrow> if oi_isStore oi then FT_STU else FT_LDU
            | TU_BR \<Rightarrow> FT_BRU | TU_FPU \<Rightarrow> FT_FPU | _ \<Rightarrow> FT_ALU)
      \<and> (counts_ok oi \<longrightarrow> (getIsaRs1 x, getRs1Type x) = spec_rs1 (mk_Inst oi ai garbage)
          \<and> (getIsaRs2 x, getRs2Type x) = spec_rs2 (mk_Inst oi ai garbage) \<and> (getIsaRd x, getRdType x) = spec_rd (mk_Inst oi ai garbage))"
      by (intro conjI impI t)
  qed
qed

definition fe_example :: "TraceInstGenerator PerfectFrontend" where
  "fe_example = \<lparr>fe_issue_num = 4, fe_is_speculation = False, fe_is_config = False, fe_credit = 1,
     fe_inst_generator = Some \<lparr>tg_next_it = [\<lparr>stf_opcode = 0x13, stf_pc = 0x80000000, stf_isOpcode16 = False,
         stf_mem_accesses = []\<rparr>, \<lparr>stf_opcode = 0x13, stf_pc = 0x80000004, stf_isOpcode16 = False,
         stf_mem_accesses = []\<rparr>], tg_unique_id = 0\<rparr>, fe_insn_gen_type = ''trace''\<rparr>"

theorem PerfectFrontend_delivers_trace_witness:
  "\<exists>h' s'. ProduceInst (trace_generator (\<lambda>_. Inr nop_decoded)) (\<lambda>_. fsd_inst) 7 fe_example
     = Inr (h', 8, s', [fetch_backend_inst_out [7]])"
proof -
  let ?t = "[\<lparr>stf_opcode = 0x13, stf_pc = 0x80000000, stf_isOpcode16 = False, stf_mem_accesses = []\<rparr>,
    \<lparr>stf_opcode = 0x13, stf_pc = 0x80000004, stf_isOpcode16 = False, stf_mem_accesses = []\<rparr>] :: stf_inst list"
  have "fe_inst_generator fe_example = Some \<lparr>tg_next_it = ?t, tg_unique_id = 0\<rparr>"
    "fe_issue_num fe_example \<noteq> 0" "fe_credit fe_example \<noteq> 0"
    "1 = min (min (unat (fe_issue_num fe_example)) (unat (fe_credit fe_example))) (length ?t)"
    by (simp_all add: fe_example_def)
  moreover have "\<forall>r \<in> set ?t. \<exists>d. (\<lambda>_. Inr nop_decoded :: decoded result) (stf_opcode r) = Inr d" by blast
  ultimately show ?thesis
    using PerfectFrontend_delivers_trace [of fe_example ?t 0 "\<lambda>_. Inr nop_decoded" 1 "\<lambda>_. fsd_inst" 7]
    by (auto simp: fe_example_def)
qed

text \<open>
  Whatever the generator does, the front end never sends more than the back end granted: a run that
  returns sends at most \<open>min(width, credit)\<close> instructions, at consecutive fresh addresses, spends
  exactly one credit for each without going below zero, and leaves every other instruction alone.
\<close>

theorem PerfectFrontend_within_credit:
  assumes "ProduceInst ops h nx s = Inr (h', nx', s', effs)"
  shows "\<exists>k \<le> min (unat (fe_issue_num s)) (unat (fe_credit s)).
      nx' = nx + k \<and> unat (fe_credit s') + k = unat (fe_credit s)
    \<and> (\<forall>g. fetch_backend_inst_out g \<in> set effs \<longrightarrow> g = [nx..<nx + k])
    \<and> (\<forall>p. p < nx \<or> nx' \<le> p \<longrightarrow> h' p = h p)"
proof (cases "min (fe_issue_num s) (fe_credit s) = 0 \<or> fe_inst_generator s = None")
  case True
  with assms show ?thesis by (auto simp: ProduceInst_def Let_def split: option.splits if_splits)
next
  case False
  let ?n = "min (fe_issue_num s) (fe_credit s)"
  have un: "unat ?n = min (unat (fe_issue_num s)) (unat (fe_credit s))"
    by (simp add: min_def word_le_nat_alt)
  obtain gen where gen: "fe_inst_generator s = Some gen" using False by auto
  from assms False gen obtain g gen1 credit where
    l: "ProduceInst_loop (fe_is_speculation s) ops (unat ?n) h nx [] gen (fe_credit s) = Inr (h', nx', g, gen1, credit)"
    and s': "fe_credit s' = credit" and e: "\<forall>g'. fetch_backend_inst_out g' \<in> set effs \<longrightarrow> g' = g"
    by (auto simp: ProduceInst_def Let_def result_simps split: if_splits)
  have "unat ?n \<le> unat (fe_credit s)" unfolding un by simp
  from ProduceInst_loop_account [OF l this] obtain k where
    k: "k \<le> unat ?n" "g = [nx..<nx + k]" "nx' = nx + k" "unat credit = unat (fe_credit s) - k"
      "\<forall>p. p < nx \<or> nx' \<le> p \<longrightarrow> h' p = h p" by auto
  with s' e show ?thesis unfolding un by (intro exI [of _ k]) auto
qed

theorem PerfectFrontend_within_credit_witness:
  "\<exists>h' nx' s' effs. ProduceInst (trace_generator (\<lambda>_. Inr nop_decoded)) (\<lambda>_. fsd_inst) 7 fe_example
     = Inr (h', nx', s', effs) \<and> nx' \<le> 8"
proof -
  have "\<exists>r. ProduceInst (trace_generator (\<lambda>_. Inr nop_decoded)) (\<lambda>_. fsd_inst) 7 fe_example = Inr r"
    by (simp add: ProduceInst_def fe_example_def trace_generator_def trace_getNextInst_def Let_def
        fe_predict_def split: prod.split)
  then obtain h' nx' s' effs where
    r: "ProduceInst (trace_generator (\<lambda>_. Inr nop_decoded)) (\<lambda>_. fsd_inst) 7 fe_example = Inr (h', nx', s', effs)"
    by (metis prod_cases4)
  from PerfectFrontend_within_credit [OF r] have "nx' \<le> 8" by (auto simp: fe_example_def)
  with r show ?thesis by blast
qed

end
