(* ===== verification/Mem_Access.thy ===== *)
theory Mem_Access
  imports Inst_Types
begin

text \<open>
  \<open>uncore/MemAccessInfo.hpp\<close>, \<open>uncore/cache/TagEntry.hpp\<close> and \<open>uncore/cache/Mshr.hpp\<close>: a memory access as
  the caches and memories hand it around, a tag of the tag RAM, and the ring of miss status holding
  registers. Accesses are shared pointers, so they live in a store of their own.
\<close>

section \<open>MemAccInfo\<close>

datatype MemOp = MO_NO_TYPE | MO_FETCH | MO_LOAD | MO_STORE | MO_FLUSH | MO_NUM_TYPES

record MemAccInfo =
  ma_address :: u64
  ma_length :: u64
  ma_mem_op :: MemOp
  ma_insn :: "inst_ptr option"
  ma_data :: "u64 option"
  ma_mshrid :: u32
  ma_subindex :: u32

definition mk_MemAccInfo :: MemAccInfo where
  "mk_MemAccInfo = \<lparr>ma_address = 0, ma_length = 0, ma_mem_op = MO_NO_TYPE, ma_insn = None, ma_data = None,
     ma_mshrid = 0, ma_subindex = 0\<rparr>"

text \<open>\<open>operator=\<close> copies every member.\<close>

definition ma_assign :: "MemAccInfo \<Rightarrow> MemAccInfo \<Rightarrow> MemAccInfo" where
  "ma_assign lhs rval = lhs\<lparr>ma_address := ma_address rval, ma_length := ma_length rval,
     ma_mem_op := ma_mem_op rval, ma_insn := ma_insn rval, ma_data := ma_data rval,
     ma_mshrid := ma_mshrid rval, ma_subindex := ma_subindex rval\<rparr>"

lemma ma_assign_eq [simp]: "ma_assign a b = b"
  by (simp add: ma_assign_def)

type_synonym acc_ptr = nat
type_synonym MemAccInfoGroup = "acc_ptr list"

section \<open>TagEntry\<close>

record TagEntry =
  te_tag :: u64
  te_access_time :: u64
  te_valid :: bool

definition mk_TagEntry :: TagEntry where
  "mk_TagEntry = \<lparr>te_tag = 0, te_access_time = 0, te_valid = False\<rparr>"

definition te_getTag :: "TagEntry \<Rightarrow> u64" where
  "te_getTag t = te_tag t"

definition te_isValid :: "TagEntry \<Rightarrow> bool" where
  [simp]: "te_isValid t = te_valid t"

type_synonym setTags = "TagEntry list"
type_synonym wayData = "u8 list"
type_synonym setData = "wayData list"

section \<open>MSHR\<close>

datatype MshrStatus = MS_NO_TYPE | MS_ALLOCATE | MS_SEND_REQ | MS_RECV_CRITICAL_SEG | MS_RECV_WHOLE_LINE
  | MS_EVICT | MS_REFILL | MS_NUM_TYPES

record MSHREntry =
  me_addr :: u64
  me_req :: "acc_ptr option"
  me_status :: MshrStatus
  me_valid :: bool

definition mk_MSHREntry :: MSHREntry where
  "mk_MSHREntry = \<lparr>me_addr = 0, me_req = None, me_status = MS_NO_TYPE, me_valid = False\<rparr>"

record MSHR =
  mshr_queue :: "MSHREntry list"
  mshr_qsize :: u32
  mshr_used :: u32
  mshr_header :: u32
  mshr_tail :: u32

text \<open>\<open>resize\<close> of a new ring; \<open>std::vector::resize\<close> keeps the entries that were there.\<close>

definition mshr_resize :: "MSHR \<Rightarrow> u32 \<Rightarrow> MSHR" where
  "mshr_resize m n = \<lparr>mshr_queue = take (unat n) (mshr_queue m)
       @ replicate (unat n - length (mshr_queue m)) mk_MSHREntry,
     mshr_qsize = n, mshr_used = 0, mshr_header = 0, mshr_tail = 0\<rparr>"

definition mshr_isAvail :: "MSHR \<Rightarrow> bool" where
  "mshr_isAvail m \<longleftrightarrow> mshr_used m \<noteq> mshr_qsize m"

definition mshr_isEmpty :: "MSHR \<Rightarrow> bool" where
  "mshr_isEmpty m \<longleftrightarrow> mshr_used m = 0"

definition mshr_allocate :: "MSHR \<Rightarrow> (u32 \<times> MSHR) result" where
  "mshr_allocate m =
     bindE (assertE (mshr_qsize m \<noteq> mshr_used m) (SpartaAssert ''mshr full''))
     (\<lambda>_. let t = mshr_tail m + 1 in
        Inr (mshr_tail m, m\<lparr>mshr_used := mshr_used m + 1, mshr_tail := (if t = mshr_qsize m then 0 else t)\<rparr>))"

definition mshr_modify :: "MSHR \<Rightarrow> u32 \<Rightarrow> (MSHREntry \<Rightarrow> MSHREntry) \<Rightarrow> MSHR result" where
  "mshr_modify m i f =
     bindE (vec_get (mshr_queue m) (unat i))
     (\<lambda>e. bindE (vec_set (mshr_queue m) (unat i) (f e)) (\<lambda>q. Inr (m\<lparr>mshr_queue := q\<rparr>)))"

definition mshr_deallocate :: "MSHR \<Rightarrow> u32 \<Rightarrow> MSHR result" where
  "mshr_deallocate m i =
     bindE (assertE (i < mshr_qsize m) (SpartaAssert ''mshr id''))
     (\<lambda>_. let h = mshr_header m + 1 in
        mshr_modify (m\<lparr>mshr_used := mshr_used m - 1, mshr_header := (if h = mshr_qsize m then 0 else h)\<rparr>) i
          (\<lambda>e. e\<lparr>me_status := MS_NO_TYPE\<rparr>))"

definition mshr_getHeader :: "MSHR \<Rightarrow> MSHREntry result" where
  "mshr_getHeader m = vec_get (mshr_queue m) (unat (mshr_header m))"

section \<open>The ring of registers\<close>

text \<open>The fields agree, and \<open>used\<close> is the distance from header to tail.\<close>

definition mshr_wf :: "MSHR \<Rightarrow> bool" where
  "mshr_wf m \<longleftrightarrow> length (mshr_queue m) = unat (mshr_qsize m) \<and> 0 < unat (mshr_qsize m)
     \<and> unat (mshr_used m) \<le> unat (mshr_qsize m) \<and> unat (mshr_header m) < unat (mshr_qsize m)
     \<and> unat (mshr_tail m) = (unat (mshr_header m) + unat (mshr_used m)) mod unat (mshr_qsize m)"

lemma unat_next_slot:
  fixes i n :: u32
  assumes "unat i < unat n"
  shows "unat (if i + 1 = n then 0 else i + 1) = (unat i + 1) mod unat n"
proof -
  have i: "unat (i + 1) = unat i + 1" by (rule unat_plus_one_less) (use assms in \<open>simp add: word_less_nat_alt\<close>)
  show ?thesis
  proof (cases "i + 1 = n")
    case True
    with i show ?thesis by simp
  next
    case False
    then have "unat i + 1 \<noteq> unat n" using i by (metis unat_inj_iff)
    with assms i False show ?thesis by simp
  qed
qed

lemma mshr_resize_wf: "0 < n \<Longrightarrow> mshr_wf (mshr_resize m n)"
  by (simp add: mshr_wf_def mshr_resize_def word_less_nat_alt)

lemma mshr_allocate_ok:
  assumes "mshr_wf m" "mshr_isAvail m"
  shows "\<exists>m'. mshr_allocate m = Inr (mshr_tail m, m') \<and> mshr_wf m' \<and> unat (mshr_used m') = unat (mshr_used m) + 1
    \<and> mshr_header m' = mshr_header m \<and> mshr_queue m' = mshr_queue m \<and> mshr_qsize m' = mshr_qsize m
    \<and> unat (mshr_tail m) < length (mshr_queue m)"
proof -
  have lt: "unat (mshr_used m) < unat (mshr_qsize m)"
    using assms unfolding mshr_wf_def mshr_isAvail_def by (metis le_neq_implies_less unat_inj_iff)
  have u: "unat (mshr_used m + 1) = unat (mshr_used m) + 1"
    by (rule unat_plus_one_less) (use lt in \<open>simp add: word_less_nat_alt\<close>)
  have t: "unat (mshr_tail m) < unat (mshr_qsize m)" using assms(1) by (simp add: mshr_wf_def)
  show ?thesis
    using assms lt u unat_next_slot [OF t] t
    by (simp add: mshr_allocate_def mshr_wf_def mshr_isAvail_def Let_def mod_simps)
qed

lemma mshr_deallocate_ok:
  assumes "mshr_wf m" "\<not> mshr_isEmpty m" "i < mshr_qsize m"
  shows "\<exists>m'. mshr_deallocate m i = Inr m' \<and> mshr_wf m' \<and> unat (mshr_used m') = unat (mshr_used m) - 1
    \<and> mshr_tail m' = mshr_tail m \<and> mshr_qsize m' = mshr_qsize m
    \<and> mshr_queue m' = (mshr_queue m)[unat i := (mshr_queue m ! unat i)\<lparr>me_status := MS_NO_TYPE\<rparr>]"
proof -
  have h: "unat (mshr_header m) < unat (mshr_qsize m)" using assms(1) by (simp add: mshr_wf_def)
  have i: "unat i < length (mshr_queue m)"
    using assms(1,3) by (simp add: mshr_wf_def word_less_nat_alt)
  have u: "unat (mshr_used m - 1) = unat (mshr_used m) - 1" "unat (mshr_used m) \<noteq> 0"
    using assms(2) by (simp_all add: mshr_isEmpty_def unat_minus_one_pos unat_eq_0)
  have "((unat (mshr_header m) + 1) mod unat (mshr_qsize m) + (unat (mshr_used m) - 1)) mod unat (mshr_qsize m)
      = (unat (mshr_header m) + unat (mshr_used m)) mod unat (mshr_qsize m)"
    using u(2) mod_add_left_eq [of "unat (mshr_header m) + 1" "unat (mshr_qsize m)" "unat (mshr_used m) - 1"]
    by (cases "unat (mshr_used m)") simp_all
  moreover have "unat (mshr_used m) - 1 \<le> unat (mshr_qsize m)"
    using assms(1) unfolding mshr_wf_def by linarith
  ultimately show ?thesis
    using assms u unat_next_slot [OF h] i
    by (simp add: mshr_deallocate_def mshr_modify_def mshr_wf_def Let_def)
qed

end
