(* ===== verification/Base_Cache.thy ===== *)
theory Base_Cache
  imports Mem_Access
begin

text \<open>
  \<open>uncore/cache/BaseCache\<close>: a set-associative cache with miss status holding registers. The record
  carries, beside the members, the store of memory accesses with its next free address, the values the
  C library's \<open>random()\<close> will give, and what the running handler has sent.
\<close>

unbundle bit_operations_syntax

section \<open>Parameters, state, output ports\<close>

record BaseCacheParameterSet =
  bcp_init_credits :: u32
  bcp_cacheline_size :: u32
  bcp_way_num :: u32
  bcp_cache_size :: u32
  bcp_mshr_size :: u32
  bcp_is_perfect_cache :: bool
  bcp_cache_latency :: u32
  bcp_upstream_access_ports_num :: u32
  bcp_downstream_access_ports_num :: u32
  bcp_upstream_access_ports_bandwidth :: u32
  bcp_downstream_access_ports_bandwidth :: u32
  bcp_cache_level :: u32
  bcp_upstream_is_core :: bool
  bcp_downstream_is_mem :: bool

datatype bc_effect =
    out_access_resp MemAccInfoGroup u32
  | out_upstream_credit Credit u32
  | out_access_req MemAccInfoGroup
  | ev_handle_mshr nat
  | ev_out_resp_arbiter nat

record BaseCache =
  init_credits :: u32
  cacheline_size :: u32
  way_num :: u32
  set_num :: u32
  cacheline_size_bits :: u8
  index_bits :: u8
  cache_size :: u32
  mshr_size :: u32
  tag_mask :: u64
  index_mask :: u64
  perfect_cache :: bool
  cache_latency :: u32
  next_level_credit :: Credit
  upstream_access_ports_num :: u32
  downstream_access_ports_num :: u32
  upstream_access_ports_bandwidth :: u32
  downstream_access_ports_bandwidth :: u32
  cache_level :: u32
  upstream_is_core :: bool
  downstream_is_mem :: bool
  tagram :: "setTags list"
  dataram :: "setData list"
  mshr :: MSHR
  out_resp_queue :: "acc_ptr list"
  in_req_queue :: "acc_ptr list"
  out_req_queue :: "acc_ptr list"
  cache_hits :: u64
  cache_misses :: u64
  bc_acc :: "acc_ptr \<Rightarrow> MemAccInfo"
  bc_next :: acc_ptr
  bc_random :: "nat \<Rightarrow> u64"
  bc_random_pos :: nat
  bc_out :: "bc_effect list"

definition bc_send :: "bc_effect \<Rightarrow> BaseCache \<Rightarrow> BaseCache" where
  "bc_send e s = s\<lparr>bc_out := bc_out s @ [e]\<rparr>"

text \<open>A new access holding \<open>x\<close>.\<close>

definition bc_alloc :: "MemAccInfo \<Rightarrow> BaseCache \<Rightarrow> acc_ptr \<times> BaseCache" where
  "bc_alloc x s = (bc_next s, s\<lparr>bc_acc := (bc_acc s)(bc_next s := x), bc_next := bc_next s + 1\<rparr>)"

section \<open>Geometry\<close>

text \<open>
  \<open>static_cast<int>(std::log2(n))\<close> for a positive \<open>n\<close>: the position of the highest bit. The masks are
  computed with \<open>int\<close>, so a shift of 31 or more has no meaning, and the complement is extended by sign.
\<close>

fun floor_log2 :: "nat \<Rightarrow> nat" where
  "floor_log2 n = (if n < 2 then 0 else Suc (floor_log2 (n div 2)))"

declare floor_log2.simps [simp del]

definition mk_BaseCache :: "BaseCacheParameterSet \<Rightarrow> (nat \<Rightarrow> u64) \<Rightarrow> BaseCache result" where
  "mk_BaseCache p rnd =
     (if bcp_cacheline_size p = 0 \<or> bcp_way_num p = 0 then Inl (Undefined ''division by zero'')
      else let sets = bcp_cache_size p div bcp_cacheline_size p div bcp_way_num p in
      if sets = 0 then Inl (Undefined ''log2 of zero'')
      else let cb = floor_log2 (unat (bcp_cacheline_size p)); ib = floor_log2 (unat sets) in
      if cb + ib \<ge> 31 then Inl (Undefined ''shift'')
      else if 2 ^ cb \<noteq> unat (bcp_cacheline_size p) then Inl (SpartaAssert ''cacheline_size is not power of 2!'')
      else Inr \<lparr>init_credits = bcp_init_credits p, cacheline_size = bcp_cacheline_size p, way_num = bcp_way_num p,
        set_num = sets, cacheline_size_bits = word_of_nat cb, index_bits = word_of_nat ib,
        cache_size = bcp_cache_size p, mshr_size = bcp_mshr_size p,
        tag_mask = NOT (push_bit (cb + ib) 1 - 1), index_mask = push_bit cb (push_bit ib 1 - 1),
        perfect_cache = bcp_is_perfect_cache p, cache_latency = bcp_cache_latency p, next_level_credit = 0,
        upstream_access_ports_num = bcp_upstream_access_ports_num p,
        downstream_access_ports_num = bcp_downstream_access_ports_num p,
        upstream_access_ports_bandwidth = bcp_upstream_access_ports_bandwidth p,
        downstream_access_ports_bandwidth = bcp_downstream_access_ports_bandwidth p,
        cache_level = bcp_cache_level p, upstream_is_core = bcp_upstream_is_core p,
        downstream_is_mem = bcp_downstream_is_mem p,
        tagram = replicate (unat sets) (replicate (unat (bcp_way_num p)) mk_TagEntry),
        dataram = replicate (unat sets) (replicate (unat (bcp_way_num p)) (replicate (unat (bcp_cacheline_size p)) 0)),
        mshr = mshr_resize \<lparr>mshr_queue = [], mshr_qsize = 0, mshr_used = 0, mshr_header = 0, mshr_tail = 0\<rparr> (bcp_mshr_size p),
        out_resp_queue = [], in_req_queue = [], out_req_queue = [], cache_hits = 0, cache_misses = 0,
        bc_acc = (\<lambda>_. mk_MemAccInfo), bc_next = 0, bc_random = rnd, bc_random_pos = 0, bc_out = []\<rparr>)"

definition bc_getIndex :: "BaseCache \<Rightarrow> u64 \<Rightarrow> u32" where
  "bc_getIndex s addr = ucast (drop_bit (unat (cacheline_size_bits s)) (addr AND index_mask s))"

definition bc_getTag :: "BaseCache \<Rightarrow> u64 \<Rightarrow> u64" where
  "bc_getTag s addr = addr AND tag_mask s"

section \<open>Tag and data RAM\<close>

definition accessTagRam :: "BaseCache \<Rightarrow> acc_ptr \<Rightarrow> setTags result" where
  "accessTagRam s req =
     (let index = bc_getIndex s (ma_address (bc_acc s req)) in
      bindE (assertE (index < set_num s) (SpartaAssert ''index''))
      (\<lambda>_. vec_get (tagram s) (unat index)))"

definition accessDataRam :: "BaseCache \<Rightarrow> acc_ptr \<Rightarrow> setData result" where
  "accessDataRam s req =
     (let index = bc_getIndex s (ma_address (bc_acc s req)) in
      bindE (assertE (index < set_num s) (SpartaAssert ''index''))
      (\<lambda>_. vec_get (dataram s) (unat index)))"

fun tag_scan :: "u64 \<Rightarrow> nat \<Rightarrow> setTags \<Rightarrow> nat option" where
  "tag_scan tag i [] = None"
| "tag_scan tag i (e # es) = (if te_valid e \<and> te_tag e = tag then Some i else tag_scan tag (i + 1) es)"

definition tagCompare :: "BaseCache \<Rightarrow> setTags \<Rightarrow> u64 \<Rightarrow> nat option result" where
  "tagCompare s settag access_addr =
     bindE (assertE (unat (way_num s) = length settag) (SpartaAssert ''way_num''))
     (\<lambda>_. Inr (tag_scan (bc_getTag s access_addr) 0 settag))"

definition DataMux :: "BaseCache \<Rightarrow> setData \<Rightarrow> u32 \<Rightarrow> wayData result" where
  "DataMux s setdata way =
     bindE (assertE (unat (way_num s) = length setdata) (SpartaAssert ''way_num''))
     (\<lambda>_. bindE (assertE (way_num s > way) (SpartaAssert ''way''))
     (\<lambda>_. vec_get setdata (unat way)))"

text \<open>
  \<open>checkWayAvail\<close> takes its second argument by value: the way it finds is lost, and the caller keeps the
  value it passed.
\<close>

definition checkWayAvail :: "BaseCache \<Rightarrow> u32 \<Rightarrow> u32 \<Rightarrow> bool result" where
  "checkWayAvail s index way_avail =
     bindE (vec_get (tagram s) (unat index))
     (\<lambda>es. if length es < unat (way_num s) \<and> list_all te_isValid es then Inl (Undefined ''vector index'')
           else Inr (\<not> list_all te_isValid (take (unat (way_num s)) es)))"

definition ramRefill :: "BaseCache \<Rightarrow> acc_ptr \<Rightarrow> u32 \<Rightarrow> BaseCache result" where
  "ramRefill s req way_id =
     (let addr = ma_address (bc_acc s req); index = bc_getIndex s addr in
      bindE (assertE (index < set_num s) (SpartaAssert ''index''))
      (\<lambda>_. bindE (vec_get (tagram s) (unat index))
      (\<lambda>es. bindE (vec_get es (unat way_id))
      (\<lambda>e. Inr (s\<lparr>tagram := (tagram s)[unat index := es[unat way_id :=
             e\<lparr>te_tag := bc_getTag s addr, te_valid := True\<rparr>]]\<rparr>)))))"

section \<open>Responses upstream\<close>

fun make_copies :: "acc_ptr \<Rightarrow> u32 list \<Rightarrow> BaseCache \<Rightarrow> BaseCache" where
  "make_copies req [] s = s"
| "make_copies req (i # is) s =
     (case bc_alloc (ma_assign mk_MemAccInfo (bc_acc s req)\<lparr>ma_subindex := i\<rparr>) s of
        (resp, s1) \<Rightarrow> make_copies req is (s1\<lparr>out_resp_queue := out_resp_queue s1 @ [resp]\<rparr>))"

definition resp_cnt :: "BaseCache \<Rightarrow> u32 result" where
  "resp_cnt s = (if upstream_access_ports_bandwidth s = 0 then Inl (Undefined ''division by zero'')
     else Inr (cacheline_size s div upstream_access_ports_bandwidth s))"

definition makeResp :: "BaseCache \<Rightarrow> acc_ptr \<Rightarrow> BaseCache result" where
  "makeResp s req =
     bindE (if upstream_is_core s then Inr (s\<lparr>out_resp_queue := out_resp_queue s @ [req]\<rparr>)
            else bindE (resp_cnt s) (\<lambda>cnt. Inr (make_copies req (map word_of_nat [0..<unat cnt]) s)))
     (\<lambda>s. Inr (bc_send (ev_out_resp_arbiter 1) s))"

definition makeCriticalResp :: "BaseCache \<Rightarrow> acc_ptr \<Rightarrow> BaseCache" where
  "makeCriticalResp s req =
     bc_send (ev_out_resp_arbiter 1)
       (if upstream_is_core s then s\<lparr>out_resp_queue := out_resp_queue s @ [req]\<rparr> else make_copies req [0] s)"

definition makeNonCriticalResp :: "BaseCache \<Rightarrow> acc_ptr \<Rightarrow> BaseCache result" where
  "makeNonCriticalResp s req =
     (if upstream_is_core s then Inr s
      else bindE (resp_cnt s)
        (\<lambda>cnt. Inr (bc_send (ev_out_resp_arbiter 1) (make_copies req (map word_of_nat [1..<unat cnt]) s))))"

definition bc_sendResp :: "BaseCache \<Rightarrow> MemAccInfoGroup \<Rightarrow> u32 \<Rightarrow> BaseCache result" where
  "bc_sendResp s resps latency =
     bindE (assertE (length resps \<le> unat (upstream_access_ports_num s)) (SpartaAssert ''responses''))
     (\<lambda>_. Inr (bc_send (out_access_resp resps latency) s))"

definition bc_sendResp_now :: "BaseCache \<Rightarrow> MemAccInfoGroup \<Rightarrow> BaseCache result" where
  "bc_sendResp_now s resps =
     bindE (assertE (length resps \<le> unat (upstream_access_ports_num s)) (SpartaAssert ''responses''))
     (\<lambda>_. Inr (bc_send (out_access_resp resps 0) s))"

definition checkMshrAvail :: "BaseCache \<Rightarrow> bool" where
  "checkMshrAvail s = mshr_isAvail (mshr s)"

definition bc_sendCredit :: "BaseCache \<Rightarrow> BaseCache" where
  "bc_sendCredit s = (if checkMshrAvail s then bc_send (out_upstream_credit 1 0) s else s)"

definition bc_SendInitCredit :: "BaseCache \<Rightarrow> BaseCache" where
  "bc_SendInitCredit s = bc_send (out_upstream_credit (ucast (init_credits s)) 0) s"

definition outRespArbiter :: "BaseCache \<Rightarrow> BaseCache result" where
  "outRespArbiter s =
     (let queue_size = word_of_nat (length (out_resp_queue s)) :: u32 in
      if queue_size = 0 then Inr s
      else let send_cnt = min (upstream_access_ports_num s) queue_size;
               resps = take (unat send_cnt) (out_resp_queue s);
               s1 = s\<lparr>out_resp_queue := drop (unat send_cnt) (out_resp_queue s)\<rparr>
           in bindE (if resps \<noteq> [] then bc_sendResp s1 resps (cache_latency s1) else Inr s1)
              (\<lambda>s2. Inr (if queue_size - send_cnt > 0 then bc_send (ev_out_resp_arbiter 1) s2 else s2)))"

text \<open>The other two arbiters and the direct access are empty.\<close>

definition outReqArbiter :: "BaseCache \<Rightarrow> BaseCache" where
  "outReqArbiter s = s"

definition inReqArbiter :: "BaseCache \<Rightarrow> BaseCache" where
  "inReqArbiter s = s"

section \<open>Requests\<close>

definition allocMshr :: "BaseCache \<Rightarrow> acc_ptr \<Rightarrow> (u32 \<times> BaseCache) result" where
  "allocMshr s req =
     bindE (mshr_allocate (mshr s))
     (\<lambda>(i, m). bindE (mshr_modify m i (\<lambda>e. e\<lparr>me_addr := ma_address (bc_acc s req), me_req := Some req,
           me_status := MS_ALLOCATE, me_valid := True\<rparr>))
     (\<lambda>m. Inr (i, bc_send (ev_handle_mshr 1)
        (s\<lparr>mshr := m, bc_acc := (bc_acc s)(req := (bc_acc s req)\<lparr>ma_mshrid := i\<rparr>)\<rparr>))))"

definition funcaccess_one :: "BaseCache \<Rightarrow> acc_ptr \<Rightarrow> BaseCache result" where
  "funcaccess_one s req =
     bindE (accessTagRam s req)
     (\<lambda>tags. bindE (accessDataRam s req)
     (\<lambda>_. bindE (tagCompare s tags (ma_address (bc_acc s req)))
     (\<lambda>hit. if hit \<noteq> None then
          let s0 = snd (bc_alloc mk_MemAccInfo s) in
          bindE (makeResp s0 req)
          (\<lambda>s1. Inr (bc_send (ev_out_resp_arbiter 1) (bc_sendCredit (s1\<lparr>cache_hits := cache_hits s1 + 1\<rparr>))))
        else
          bindE (assertE (checkMshrAvail s) (SpartaAssert ''mshr_avail''))
          (\<lambda>_. bindE (allocMshr s req) (\<lambda>(i, s1). Inr (s1\<lparr>cache_misses := cache_misses s1 + 1\<rparr>))))))"

definition funcaccess :: "BaseCache \<Rightarrow> MemAccInfoGroup \<Rightarrow> BaseCache result" where
  "funcaccess s reqs =
     bindE (assertE (length reqs \<le> unat (upstream_access_ports_num s)) (SpartaAssert ''requests''))
     (\<lambda>_. if perfect_cache s then
            bindE (bc_sendResp s reqs (cache_latency s))
            (\<lambda>s1. Inr (bc_send (out_upstream_credit (ucast (upstream_access_ports_num s1)) (cache_latency s1)) s1))
          else foldE funcaccess_one s reqs)"

section \<open>Miss status holding registers\<close>

text \<open>The slot \<open>header + i\<close>, as the code computes it: without wrapping to the size of the ring.\<close>

definition mshr_slot :: "BaseCache \<Rightarrow> u32 \<Rightarrow> nat \<Rightarrow> u32" where
  "mshr_slot s header i = header + word_of_nat i"

definition mshr_at :: "BaseCache \<Rightarrow> u32 \<Rightarrow> MSHREntry result" where
  "mshr_at s i = vec_get (mshr_queue (mshr s)) (unat i)"

definition mshr_req :: "MSHREntry \<Rightarrow> acc_ptr result" where
  "mshr_req e = (case me_req e of None \<Rightarrow> Inl (Undefined ''null access pointer'') | Some p \<Rightarrow> Inr p)"

definition set_status :: "BaseCache \<Rightarrow> u32 \<Rightarrow> MshrStatus \<Rightarrow> BaseCache result" where
  "set_status s i st = bindE (mshr_modify (mshr s) i (\<lambda>e. e\<lparr>me_status := st\<rparr>)) (\<lambda>m. Inr (s\<lparr>mshr := m\<rparr>))"

text \<open>The loop of \<open>mshrDeallocate\<close>: \<open>used\<close> shrinks while the counter grows, \<open>header\<close> is the old one.\<close>

fun dealloc_loop :: "u32 \<Rightarrow> nat list \<Rightarrow> BaseCache \<Rightarrow> BaseCache result" where
  "dealloc_loop header [] s = Inr s"
| "dealloc_loop header (i # is) s =
     (if \<not> i < unat (mshr_used (mshr s)) then Inr s
      else bindE (mshr_at s (mshr_slot s header i))
        (\<lambda>e. if me_status e = MS_REFILL then
               bindE (mshr_deallocate (mshr s) (mshr_slot s header i))
               (\<lambda>m. dealloc_loop header is (bc_sendCredit (s\<lparr>mshr := m\<rparr>)))
             else dealloc_loop header is s))"

definition mshrDeallocate :: "BaseCache \<Rightarrow> BaseCache result" where
  "mshrDeallocate s = dealloc_loop (mshr_header (mshr s)) [0..<unat (mshr_used (mshr s))] s"

text \<open>\<open>mshrRefill\<close> stops at the first entry that has its line, refilled or not.\<close>

fun refill_loop :: "u32 \<Rightarrow> nat list \<Rightarrow> BaseCache \<Rightarrow> BaseCache result" where
  "refill_loop header [] s = Inr s"
| "refill_loop header (i # is) s =
     bindE (mshr_at s (mshr_slot s header i))
     (\<lambda>e. if me_status e = MS_RECV_WHOLE_LINE \<or> me_status e = MS_EVICT then
            bindE (mshr_req e)
            (\<lambda>req. let index = bc_getIndex s (ma_address (bc_acc s req)) in
               bindE (assertE (index < set_num s) (SpartaAssert ''index''))
               (\<lambda>_. bindE (checkWayAvail s index 0)
               (\<lambda>no_need_evict. if no_need_evict then
                    bindE (ramRefill s req 0) (\<lambda>s1. set_status s1 (mshr_slot s header i) MS_REFILL)
                  else Inr s)))
          else refill_loop header is s)"

definition mshrRefill :: "BaseCache \<Rightarrow> BaseCache result" where
  "mshrRefill s = refill_loop (mshr_header (mshr s)) [0..<unat (mshr_used (mshr s))] s"

definition replacementCal :: "BaseCache \<Rightarrow> (u32 \<times> BaseCache) result" where
  "replacementCal s =
     (if way_num s = 0 then Inl (Undefined ''division by zero'')
      else Inr (ucast (bc_random s (bc_random_pos s) mod ucast (way_num s)),
                s\<lparr>bc_random_pos := bc_random_pos s + 1\<rparr>))"

text \<open>
  \<open>evict\<close> sends the old line downstream if there is credit. The address is the conjunction of the tag,
  the shifted way (an \<open>uint32_t\<close> shift) and the masks.
\<close>

definition evict_addr :: "BaseCache \<Rightarrow> u64 \<Rightarrow> u32 \<Rightarrow> u64" where
  "evict_addr s tag way_id =
     tag AND ucast (push_bit (unat (cacheline_size_bits s)) way_id) AND (tag_mask s OR index_mask s)"

definition evict :: "BaseCache \<Rightarrow> u32 \<Rightarrow> u32 \<Rightarrow> BaseCache result" where
  "evict s index way_id =
     bindE (vec_get (tagram s) (unat index))
     (\<lambda>es. bindE (vec_get es (unat way_id))
     (\<lambda>e. case bc_alloc (mk_MemAccInfo\<lparr>ma_address := evict_addr s (te_tag e) way_id,
              ma_length := ucast (cacheline_size s), ma_mem_op := MO_STORE\<rparr>) s of
        (req, s1) \<Rightarrow>
          let s2 = (if next_level_credit s1 \<noteq> 0
                    then (bc_send (out_access_req [req]) s1)\<lparr>next_level_credit := next_level_credit s1 - 1\<rparr> else s1)
          in Inr (bc_send (ev_handle_mshr 1) s2)))"

fun evict_loop :: "u32 \<Rightarrow> nat list \<Rightarrow> BaseCache \<Rightarrow> BaseCache result" where
  "evict_loop header [] s = Inr s"
| "evict_loop header (i # is) s =
     bindE (mshr_at s (mshr_slot s header i))
     (\<lambda>e. if me_status e = MS_RECV_WHOLE_LINE then
            bindE (mshr_req e)
            (\<lambda>req. let index = bc_getIndex s (ma_address (bc_acc s req)) in
               bindE (assertE (index < set_num s) (SpartaAssert ''index''))
               (\<lambda>_. bindE (checkWayAvail s index 0)
               (\<lambda>no_need_evict. if no_need_evict then evict_loop header is s
                  else bindE (replacementCal s)
                    (\<lambda>(way_id, s1). bindE (evict s1 index way_id)
                    (\<lambda>s2. bindE (set_status s2 (mshr_slot s header i) MS_EVICT)
                    (\<lambda>s3. evict_loop header is s3))))))
          else evict_loop header is s)"

definition mshrEvict :: "BaseCache \<Rightarrow> BaseCache result" where
  "mshrEvict s = evict_loop (mshr_header (mshr s)) [0..<unat (mshr_used (mshr s))] s"

definition bc_sendRequest :: "BaseCache \<Rightarrow> MemAccInfoGroup \<Rightarrow> BaseCache result" where
  "bc_sendRequest s reqs =
     bindE (assertE (length reqs \<le> unat (downstream_access_ports_num s)) (SpartaAssert ''requests''))
     (\<lambda>_. bindE (assertE (length reqs \<le> unat (next_level_credit s)) (SpartaAssert ''credit''))
     (\<lambda>_. Inr ((bc_send (out_access_req reqs) s)\<lparr>next_level_credit := next_level_credit s - 1\<rparr>)))"

text \<open>The loop of \<open>mshrSendRequest\<close> takes the first entry that waits.\<close>

fun send_loop :: "u32 \<Rightarrow> nat list \<Rightarrow> BaseCache \<Rightarrow> (MemAccInfoGroup \<times> BaseCache) result" where
  "send_loop header [] s = Inr ([], s)"
| "send_loop header (i # is) s =
     bindE (mshr_at s (mshr_slot s header i))
     (\<lambda>e. if me_status e = MS_ALLOCATE then
            bindE (mshr_req e)
            (\<lambda>req. bindE (set_status s (mshr_slot s header i) MS_SEND_REQ) (\<lambda>s1. Inr ([req], s1)))
          else send_loop header is s)"

definition mshrSendRequest :: "BaseCache \<Rightarrow> BaseCache result" where
  "mshrSendRequest s =
     bindE (assertE (\<not> mshr_isEmpty (mshr s)) (SpartaAssert ''mshr empty''))
     (\<lambda>_. bindE (send_loop (mshr_header (mshr s))
               [0..<min (unat (mshr_used (mshr s))) (unat (downstream_access_ports_num s))] s)
     (\<lambda>(reqs, s1). if reqs \<noteq> [] then bc_sendRequest s1 reqs else Inr s1))"

definition handleMshr :: "BaseCache \<Rightarrow> BaseCache result" where
  "handleMshr s =
     bindE (if \<not> mshr_isEmpty (mshr s) then mshrDeallocate s else Inr s)
     (\<lambda>s. bindE (if \<not> mshr_isEmpty (mshr s) then
                   bindE (mshrRefill s)
                   (\<lambda>s. bindE (mshrEvict s)
                   (\<lambda>s. if next_level_credit s > 0 then mshrSendRequest s else Inr s))
                 else Inr s)
     (\<lambda>s. Inr (if \<not> mshr_isEmpty (mshr s) then bc_send (ev_handle_mshr 1) s else s)))"

section \<open>Responses from downstream\<close>

definition mshrRecvResp :: "BaseCache \<Rightarrow> u32 \<Rightarrow> u32 \<Rightarrow> BaseCache result" where
  "mshrRecvResp s i subindex =
     bindE (mshr_at s i)
     (\<lambda>e. bindE (assertE (me_status e = MS_SEND_REQ \<or> me_status e = MS_RECV_CRITICAL_SEG) (SpartaAssert ''mshr status''))
     (\<lambda>_. if downstream_is_mem s then
            bindE (set_status s i MS_RECV_WHOLE_LINE)
            (\<lambda>s1. bindE (mshr_req e) (\<lambda>req. makeResp s1 req))
          else if subindex = 0 then
            bindE (set_status s i MS_RECV_CRITICAL_SEG)
            (\<lambda>s1. bindE (mshr_req e) (\<lambda>req. Inr (makeCriticalResp s1 req)))
          else if downstream_access_ports_bandwidth s = 0 then Inl (Undefined ''division by zero'')
          else if subindex = cacheline_size s div downstream_access_ports_bandwidth s - 1 then
            bindE (assertE (me_status e = MS_RECV_CRITICAL_SEG) (SpartaAssert ''mshr status''))
            (\<lambda>_. bindE (set_status s i MS_RECV_WHOLE_LINE)
            (\<lambda>s1. bindE (mshr_req e) (\<lambda>req. makeNonCriticalResp s1 req)))
          else Inr s))"

definition bc_recvResp :: "BaseCache \<Rightarrow> MemAccInfoGroup \<Rightarrow> BaseCache result" where
  "bc_recvResp s resps =
     bindE (assertE (length resps \<le> unat (downstream_access_ports_num s)) (SpartaAssert ''responses''))
     (\<lambda>_. bindE (foldE (\<lambda>s r. mshrRecvResp s (ma_mshrid (bc_acc s r)) (ma_subindex (bc_acc s r))) s resps)
     (\<lambda>s. Inr (bc_send (ev_handle_mshr 1) s)))"

definition bc_recvCredit :: "BaseCache \<Rightarrow> Credit \<Rightarrow> BaseCache" where
  "bc_recvCredit s c = s\<lparr>next_level_credit := next_level_credit s + c\<rparr>"

section \<open>Splitting an address\<close>

lemma floor_log2_le: "0 < n \<Longrightarrow> 2 ^ floor_log2 n \<le> n"
proof (induction n rule: floor_log2.induct)
  case (1 n)
  show ?case
  proof (cases "n < 2")
    case True
    with 1 show ?thesis by (simp add: floor_log2.simps)
  next
    case False
    with 1 have "2 ^ floor_log2 (n div 2) \<le> n div 2" by simp
    with False show ?thesis by (subst floor_log2.simps) simp
  qed
qed

text \<open>What the constructor establishes about the geometry, with the two exponents named.\<close>

definition bc_geometry :: "nat \<Rightarrow> nat \<Rightarrow> BaseCache \<Rightarrow> bool" where
  "bc_geometry cb ib s \<longleftrightarrow> cb + ib < 31 \<and> cacheline_size_bits s = word_of_nat cb \<and> tag_mask s = NOT (mask (cb + ib))
     \<and> index_mask s = push_bit cb (mask ib) \<and> 2 ^ ib \<le> unat (set_num s) \<and> unat (cacheline_size s) = 2 ^ cb"

lemma mk_BaseCache_geometry:
  assumes "mk_BaseCache p rnd = Inr s"
  shows "\<exists>cb ib. bc_geometry cb ib s"
proof -
  let ?sets = "bcp_cache_size p div bcp_cacheline_size p div bcp_way_num p"
  have s: "?sets \<noteq> 0" "set_num s = ?sets"
    using assms by (auto simp: mk_BaseCache_def Let_def split: if_splits)
  then have "2 ^ floor_log2 (unat ?sets) \<le> unat ?sets" by (intro floor_log2_le) (simp add: unat_gt_0)
  with assms s show ?thesis
    by (intro exI [of _ "floor_log2 (unat (bcp_cacheline_size p))"] exI [of _ "floor_log2 (unat ?sets)"])
      (auto simp: bc_geometry_def mk_BaseCache_def Let_def mask_eq_exp_minus_1 split: if_splits)
qed

lemma bc_getIndex_eq:
  assumes "bc_geometry cb ib s"
  shows "bc_getIndex s a = ucast (take_bit ib (drop_bit cb a))"
proof -
  have "unat (word_of_nat cb :: u8) = cb" using assms by (simp add: bc_geometry_def unat_of_nat)
  moreover have "drop_bit cb (a AND push_bit cb (mask ib)) = take_bit ib (drop_bit cb a)"
    by (rule bit_word_eqI) (auto simp: bit_simps dest: bit_imp_le_length)
  ultimately show ?thesis using assms by (simp add: bc_getIndex_def bc_geometry_def)
qed

lemma unat_bc_getIndex:
  assumes "bc_geometry cb ib s"
  shows "unat (bc_getIndex s a) = unat (take_bit ib (drop_bit cb a))"
proof -
  have "ib < 32" using assms by (simp add: bc_geometry_def)
  then show ?thesis
    unfolding bc_getIndex_eq [OF assms] by (simp add: unsigned_ucast_eq unsigned_take_bit_eq min_def)
qed

lemma bc_getIndex_less:
  assumes "bc_geometry cb ib s"
  shows "bc_getIndex s a < set_num s"
proof -
  have "unat (take_bit ib (drop_bit cb a)) < 2 ^ ib"
    by (simp add: unsigned_take_bit_eq)
  with assms show ?thesis
    by (simp add: word_less_nat_alt unat_bc_getIndex [OF assms] bc_geometry_def)
qed

lemma same_line_iff:
  assumes "bc_geometry cb ib s"
  shows "bc_getTag s a = bc_getTag s b \<and> bc_getIndex s a = bc_getIndex s b \<longleftrightarrow> drop_bit cb a = drop_bit cb b"
proof
  assume l: "drop_bit cb a = drop_bit cb b"
  have "bit a n = bit b n" if "cb \<le> n" for n
  proof -
    have "bit (drop_bit cb a) (n - cb) = bit (drop_bit cb b) (n - cb)" using l by simp
    with that show ?thesis by (simp add: bit_simps)
  qed
  then have "bc_getTag s a = bc_getTag s b"
    using assms by (intro bit_word_eqI) (auto simp: bc_getTag_def bc_geometry_def bit_simps)
  with l show "bc_getTag s a = bc_getTag s b \<and> bc_getIndex s a = bc_getIndex s b"
    by (simp add: bc_getIndex_eq [OF assms])
next
  assume r: "bc_getTag s a = bc_getTag s b \<and> bc_getIndex s a = bc_getIndex s b"
  then have i: "take_bit ib (drop_bit cb a) = take_bit ib (drop_bit cb b)"
    using unat_bc_getIndex [OF assms] by (metis unat_inj_iff)
  show "drop_bit cb a = drop_bit cb b"
  proof (rule bit_word_eqI)
    fix n assume n: "n < LENGTH(64)"
    show "bit (drop_bit cb a) n = bit (drop_bit cb b) n"
    proof (cases "n < ib")
      case True
      have "bit (take_bit ib (drop_bit cb a)) n = bit (take_bit ib (drop_bit cb b)) n" using i by simp
      with True show ?thesis by (simp add: bit_simps)
    next
      case False
      have "bit (bc_getTag s a) (cb + n) = bit (bc_getTag s b) (cb + n)" using r by simp
      moreover have "tag_mask s = NOT (mask (cb + ib))" using assms by (simp add: bc_geometry_def)
      ultimately show ?thesis
        using False by (cases "cb + n < 64") (auto simp: bc_getTag_def bit_simps dest: bit_imp_le_length)
    qed
  qed
qed

section \<open>What leaves the tag RAM alone\<close>

text \<open>The tag RAM and the members fixed at construction that address it.\<close>

definition bc_geo :: "BaseCache \<Rightarrow> setTags list \<times> u32 \<times> u32 \<times> u64 \<times> u64 \<times> u8" where
  "bc_geo s = (tagram s, way_num s, set_num s, tag_mask s, index_mask s, cacheline_size_bits s)"

lemma bc_geo_updates [simp]:
  "bc_geo (bc_send e s) = bc_geo s"
  "bc_geo (s\<lparr>mshr := m\<rparr>) = bc_geo s"
  "bc_geo (s\<lparr>out_resp_queue := q\<rparr>) = bc_geo s"
  "bc_geo (s\<lparr>cache_hits := n\<rparr>) = bc_geo s"
  "bc_geo (s\<lparr>cache_misses := n\<rparr>) = bc_geo s"
  "bc_geo (s\<lparr>next_level_credit := c\<rparr>) = bc_geo s"
  "bc_geo (s\<lparr>bc_random_pos := r\<rparr>) = bc_geo s"
  "bc_geo (s\<lparr>bc_acc := a\<rparr>) = bc_geo s"
  "bc_geo (s\<lparr>bc_next := n'\<rparr>) = bc_geo s"
  "bc_geo (s\<lparr>bc_out := es\<rparr>) = bc_geo s"
  by (simp_all add: bc_geo_def bc_send_def)

lemma bc_alloc_geo [simp]: "bc_geo (snd (bc_alloc x s)) = bc_geo s"
  by (simp add: bc_alloc_def bc_geo_def)

lemma make_copies_geo [simp]: "bc_geo (make_copies req js s) = bc_geo s"
  by (induction js arbitrary: s) (simp_all add: bc_alloc_def)

lemma bc_sendCredit_geo [simp]: "bc_geo (bc_sendCredit s) = bc_geo s"
  by (simp add: bc_sendCredit_def)

lemma makeResp_geo: "makeResp s req = Inr s' \<Longrightarrow> bc_geo s' = bc_geo s"
  by (auto simp: makeResp_def result_simps split: if_splits)

lemma makeCriticalResp_geo [simp]: "bc_geo (makeCriticalResp s req) = bc_geo s"
  by (simp add: makeCriticalResp_def bc_alloc_def)

lemma makeNonCriticalResp_geo: "makeNonCriticalResp s req = Inr s' \<Longrightarrow> bc_geo s' = bc_geo s"
  by (auto simp: makeNonCriticalResp_def result_simps split: if_splits)

lemma set_status_geo: "set_status s i st = Inr s' \<Longrightarrow> bc_geo s' = bc_geo s"
  by (auto simp: set_status_def result_simps)

lemma allocMshr_geo: "allocMshr s req = Inr (i, s') \<Longrightarrow> bc_geo s' = bc_geo s"
  by (auto simp: allocMshr_def result_simps)

lemma funcaccess_one_geo: "funcaccess_one s req = Inr s' \<Longrightarrow> bc_geo s' = bc_geo s"
  by (auto simp: funcaccess_one_def result_simps Let_def split: if_splits dest!: makeResp_geo allocMshr_geo)

lemma bc_sendResp_geo: "bc_sendResp s r l = Inr s' \<Longrightarrow> bc_geo s' = bc_geo s"
  by (auto simp: bc_sendResp_def result_simps)

lemma funcaccess_geo: "funcaccess s reqs = Inr s' \<Longrightarrow> bc_geo s' = bc_geo s"
  using foldE_keeps [where f = funcaccess_one and v = bc_geo, OF funcaccess_one_geo]
  by (auto simp: funcaccess_def result_simps split: if_splits dest: bc_sendResp_geo)

lemma outRespArbiter_geo: "outRespArbiter s = Inr s' \<Longrightarrow> bc_geo s' = bc_geo s"
  by (auto simp: outRespArbiter_def result_simps Let_def split: if_splits dest!: bc_sendResp_geo)

lemma mshrRecvResp_geo: "mshrRecvResp s i k = Inr s' \<Longrightarrow> bc_geo s' = bc_geo s"
  by (auto simp: mshrRecvResp_def result_simps split: if_splits
      dest!: set_status_geo makeResp_geo makeNonCriticalResp_geo)

lemma bc_recvResp_geo: "bc_recvResp s rs = Inr s' \<Longrightarrow> bc_geo s' = bc_geo s"
  using foldE_keeps [where f = "\<lambda>s r. mshrRecvResp s (ma_mshrid (bc_acc s r)) (ma_subindex (bc_acc s r))"
      and v = bc_geo, OF mshrRecvResp_geo]
  by (auto simp: bc_recvResp_def result_simps)

lemma dealloc_loop_geo: "dealloc_loop h js s = Inr s' \<Longrightarrow> bc_geo s' = bc_geo s"
  by (induction h js s rule: dealloc_loop.induct) (auto simp: result_simps split: if_splits)

lemma evict_geo: "evict s i w = Inr s' \<Longrightarrow> bc_geo s' = bc_geo s"
  by (auto simp: evict_def result_simps Let_def bc_alloc_def split: if_splits)

lemma replacementCal_geo: "replacementCal s = Inr (w, s') \<Longrightarrow> bc_geo s' = bc_geo s"
  by (auto simp: replacementCal_def split: if_splits)

lemma evict_loop_geo: "evict_loop h js s = Inr s' \<Longrightarrow> bc_geo s' = bc_geo s"
proof (induction js arbitrary: s)
  case Nil
  then show ?case by simp
next
  case (Cons i js)
  then show ?case
    by (auto simp: result_simps Let_def split: if_splits
        dest!: Cons.IH set_status_geo evict_geo replacementCal_geo)
qed

lemma send_loop_geo: "send_loop h js s = Inr (r, s') \<Longrightarrow> bc_geo s' = bc_geo s"
  by (induction js) (auto simp: result_simps split: if_splits dest!: set_status_geo)

lemma mshrSendRequest_geo: "mshrSendRequest s = Inr s' \<Longrightarrow> bc_geo s' = bc_geo s"
  by (auto simp: mshrSendRequest_def bc_sendRequest_def result_simps split: if_splits dest!: send_loop_geo)

section \<open>The only way that is ever filled\<close>

definition way_zero_only :: "BaseCache \<Rightarrow> bool" where
  "way_zero_only s \<longleftrightarrow> (\<forall>es \<in> set (tagram s). \<forall>k < length es. te_valid (es ! k) \<longrightarrow> k = 0)"

lemma way_zero_geo: "bc_geo s' = bc_geo s \<Longrightarrow> way_zero_only s \<Longrightarrow> way_zero_only s'"
  by (simp add: way_zero_only_def bc_geo_def)

lemma ramRefill_way_zero:
  assumes "ramRefill s req 0 = Inr s'" "way_zero_only s"
  shows "way_zero_only s'"
  unfolding way_zero_only_def
proof (intro ballI allI impI)
  fix es k assume es: "es \<in> set (tagram s')" and k: "k < length es" "te_valid (es ! k)"
  from assms(1) obtain i e where "i < length (tagram s)" and t: "tagram s' = (tagram s)[i := (tagram s ! i)[0 := e]]"
    by (auto simp: ramRefill_def Let_def result_simps)
  with es set_update_subset_insert [of "tagram s" i] have "es \<in> set (tagram s) \<or> es = (tagram s ! i)[0 := e]"
    by auto
  moreover have "tagram s ! i \<in> set (tagram s)" using \<open>i < length (tagram s)\<close> by simp
  ultimately show "k = 0"
    using assms(2) k unfolding way_zero_only_def by (cases k) (auto simp: nth_list_update, blast)
qed

lemma refill_loop_way_zero:
  "refill_loop h js s = Inr s' \<Longrightarrow> way_zero_only s \<Longrightarrow> way_zero_only s'"
proof (induction js)
  case Nil
  then show ?case by simp
next
  case (Cons i js)
  have "way_zero_only s'" if "ramRefill s req 0 = Inr s1" "set_status s1 k st = Inr s'" for req s1 k st
    using ramRefill_way_zero [OF that(1) Cons.prems(2)] by (rule way_zero_geo [OF set_status_geo [OF that(2)]])
  with Cons show ?case by (auto simp: result_simps Let_def split: if_splits)
qed

lemma handleMshr_way_zero:
  assumes "handleMshr s = Inr s'" "way_zero_only s"
  shows "way_zero_only s'"
proof -
  from assms(1) obtain s1 s2 where
    a: "(if \<not> mshr_isEmpty (mshr s) then mshrDeallocate s else Inr s) = Inr s1"
    and b: "(if \<not> mshr_isEmpty (mshr s1) then bindE (mshrRefill s1) (\<lambda>s. bindE (mshrEvict s)
         (\<lambda>s. if next_level_credit s > 0 then mshrSendRequest s else Inr s)) else Inr s1) = Inr s2"
    and c: "bc_geo s' = bc_geo s2"
    unfolding handleMshr_def by (auto simp: bindE_eq_Inr)
  have "bc_geo s1 = bc_geo s" using a by (auto simp: mshrDeallocate_def split: if_splits dest: dealloc_loop_geo)
  from way_zero_geo [OF this assms(2)] have w1: "way_zero_only s1" .
  have "way_zero_only s2"
  proof (cases "mshr_isEmpty (mshr s1)")
    case True
    with b w1 show ?thesis by simp
  next
    case False
    with b obtain s3 s4 where r: "refill_loop (mshr_header (mshr s1)) [0..<unat (mshr_used (mshr s1))] s1 = Inr s3"
      "mshrEvict s3 = Inr s4" "bc_geo s2 = bc_geo s4"
      by (auto simp: mshrRefill_def bindE_eq_Inr split: if_splits dest: mshrSendRequest_geo)
    have "bc_geo s2 = bc_geo s3" using r(2,3) by (simp add: mshrEvict_def evict_loop_geo)
    then show ?thesis using refill_loop_way_zero [OF r(1) w1] by (rule way_zero_geo)
  qed
  then show ?thesis by (rule way_zero_geo [OF c])
qed

text \<open>
  The cache as a transition system; between two handlers other units may change and allocate accesses.
\<close>

inductive bc_step :: "BaseCache \<Rightarrow> BaseCache \<Rightarrow> bool" where
  bc_access: "funcaccess s reqs = Inr s' \<Longrightarrow> bc_step s s'"
| bc_response: "bc_recvResp s resps = Inr s' \<Longrightarrow> bc_step s s'"
| bc_credit: "bc_step s (bc_recvCredit s c)"
| bc_handle: "handleMshr s = Inr s' \<Longrightarrow> bc_step s s'"
| bc_arbiter: "outRespArbiter s = Inr s' \<Longrightarrow> bc_step s s'"
| bc_env: "bc_step s (s\<lparr>bc_acc := acc, bc_next := n, bc_out := []\<rparr>)"

lemma bc_step_way_zero:
  assumes "bc_step s s'" "way_zero_only s"
  shows "way_zero_only s'"
  using assms(1)
proof cases
  case bc_handle
  then show ?thesis using assms(2) by (rule handleMshr_way_zero)
qed (rule way_zero_geo [OF _ assms(2)],
     simp add: funcaccess_geo bc_recvResp_geo outRespArbiter_geo bc_recvCredit_def)+

lemma bc_reach_way_zero: "bc_step\<^sup>*\<^sup>* s s' \<Longrightarrow> way_zero_only s \<Longrightarrow> way_zero_only s'"
  by (induction rule: rtranclp_induct) (auto intro: bc_step_way_zero)

lemma mk_BaseCache_way_zero: "mk_BaseCache p rnd = Inr s \<Longrightarrow> way_zero_only s"
  by (auto simp: mk_BaseCache_def Let_def way_zero_only_def mk_TagEntry_def split: if_splits)

section \<open>One miss at a time\<close>

text \<open>The shape of the RAMs, and an idle cache between a core and a memory.\<close>

definition bc_shape :: "BaseCache \<Rightarrow> bool" where
  "bc_shape s \<longleftrightarrow> (\<exists>cb ib. bc_geometry cb ib s) \<and> length (tagram s) = unat (set_num s)
     \<and> length (dataram s) = unat (set_num s) \<and> (\<forall>es \<in> set (tagram s). length es = unat (way_num s))
     \<and> way_num s \<noteq> 0 \<and> \<not> perfect_cache s \<and> upstream_is_core s \<and> downstream_is_mem s
     \<and> upstream_access_ports_num s \<noteq> 0 \<and> downstream_access_ports_num s \<noteq> 0"

text \<open>Exactly one register is in use, by \<open>req\<close>, in status \<open>st\<close>.\<close>

definition one_entry :: "BaseCache \<Rightarrow> acc_ptr \<Rightarrow> MshrStatus \<Rightarrow> bool" where
  "one_entry s req st \<longleftrightarrow> mshr_wf (mshr s) \<and> mshr_used (mshr s) = 1
     \<and> me_req (mshr_queue (mshr s) ! unat (mshr_header (mshr s))) = Some req
     \<and> me_status (mshr_queue (mshr s) ! unat (mshr_header (mshr s))) = st"

lemma bc_shape_index:
  assumes "bc_shape s"
  shows "bc_getIndex s a < set_num s" "unat (bc_getIndex s a) < length (tagram s)"
    "unat (bc_getIndex s a) < length (dataram s)"
  using assms bc_getIndex_less unfolding bc_shape_def by (auto simp: word_less_nat_alt)

lemma bc_shape_set:
  assumes "bc_shape s"
  shows "length (tagram s ! unat (bc_getIndex s a)) = unat (way_num s)"
  using assms bc_shape_index(2) [OF assms, of a] by (auto simp: bc_shape_def)

lemma one_entry_slot:
  assumes "one_entry s req st"
  shows "\<not> mshr_isEmpty (mshr s)" "unat (mshr_header (mshr s)) < length (mshr_queue (mshr s))"
    "mshr_at s (mshr_header (mshr s)) = Inr (mshr_queue (mshr s) ! unat (mshr_header (mshr s)))"
    "mshr_req (mshr_queue (mshr s) ! unat (mshr_header (mshr s))) = Inr req"
  using assms by (auto simp: one_entry_def mshr_isEmpty_def mshr_wf_def mshr_at_def mshr_req_def)

lemma mshr_slot_0 [simp]: "mshr_slot s h 0 = h"
  by (simp add: mshr_slot_def)

lemma upt_one: "[0..<unat (1 :: u32)] = [0]"
  by simp

lemma set_status_one:
  assumes "one_entry s req st"
  shows "\<exists>m. set_status s (mshr_header (mshr s)) st' = Inr (s\<lparr>mshr := m\<rparr>) \<and> one_entry (s\<lparr>mshr := m\<rparr>) req st'
    \<and> mshr_header m = mshr_header (mshr s) \<and> mshr_used m = 1"
proof -
  let ?q = "mshr_queue (mshr s)" and ?h = "unat (mshr_header (mshr s))"
  let ?m = "(mshr s)\<lparr>mshr_queue := ?q[?h := (?q ! ?h)\<lparr>me_status := st'\<rparr>]\<rparr>"
  have h: "?h < length ?q" by (rule one_entry_slot(2) [OF assms])
  have "mshr_wf (mshr s)" using assms by (simp add: one_entry_def)
  then have "mshr_wf ?m" unfolding mshr_wf_def by simp
  with assms h have "one_entry (s\<lparr>mshr := ?m\<rparr>) req st'" unfolding one_entry_def by simp
  moreover have "set_status s (mshr_header (mshr s)) st' = Inr (s\<lparr>mshr := ?m\<rparr>)"
    using h by (simp add: set_status_def mshr_modify_def)
  moreover have "mshr_used ?m = 1" using assms by (simp add: one_entry_def)
  ultimately show ?thesis by (intro exI [of _ ?m]) simp
qed

lemma checkWayAvail_shape:
  assumes "bc_shape s"
  shows "checkWayAvail s (bc_getIndex s a) w = Inr (\<not> list_all te_valid (tagram s ! unat (bc_getIndex s a)))"
  using bc_shape_set [OF assms, of a] bc_shape_index(2) [OF assms, of a]
  by (simp add: checkWayAvail_def list_all_iff)

lemma handleMshr_one:
  assumes "one_entry s req st" "st \<noteq> MS_REFILL"
  shows "handleMshr s = bindE (bindE (mshrRefill s) (\<lambda>s1. bindE (mshrEvict s1)
     (\<lambda>s2. if next_level_credit s2 > 0 then mshrSendRequest s2 else Inr s2)))
     (\<lambda>s3. Inr (if \<not> mshr_isEmpty (mshr s3) then bc_send (ev_handle_mshr 1) s3 else s3))"
proof -
  have u: "mshr_used (mshr s) = 1" using assms by (simp add: one_entry_def)
  have "mshrDeallocate s = Inr s"
    using assms one_entry_slot [OF assms(1)]
    unfolding mshrDeallocate_def u upt_one by (simp add: u one_entry_def)
  then show ?thesis using one_entry_slot(1) [OF assms(1)] by (simp add: handleMshr_def)
qed

lemma handleMshr_allocate:
  assumes "one_entry s req MS_ALLOCATE" "bc_shape s" "next_level_credit s \<noteq> 0"
  shows "\<exists>m. handleMshr s = Inr (bc_send (ev_handle_mshr 1)
      ((bc_send (out_access_req [req]) (s\<lparr>mshr := m\<rparr>))\<lparr>next_level_credit := next_level_credit s - 1\<rparr>))
    \<and> one_entry (s\<lparr>mshr := m\<rparr>) req MS_SEND_REQ \<and> mshr_header m = mshr_header (mshr s)"
proof -
  note e = one_entry_slot [OF assms(1)]
  have u: "mshr_used (mshr s) = 1" and st: "me_status (mshr_queue (mshr s) ! unat (mshr_header (mshr s))) = MS_ALLOCATE"
    using assms(1) by (simp_all add: one_entry_def)
  have r: "mshrRefill s = Inr s" "mshrEvict s = Inr s"
    unfolding mshrRefill_def mshrEvict_def u upt_one using e st by simp_all
  obtain m where m: "set_status s (mshr_header (mshr s)) MS_SEND_REQ = Inr (s\<lparr>mshr := m\<rparr>)"
    "one_entry (s\<lparr>mshr := m\<rparr>) req MS_SEND_REQ" "mshr_header m = mshr_header (mshr s)"
    using set_status_one [OF assms(1), of MS_SEND_REQ] by blast
  have d: "unat (downstream_access_ports_num s) \<ge> 1" "unat (next_level_credit s) \<ge> 1"
    using assms(2,3) by (auto simp: bc_shape_def Suc_le_eq unat_gt_0)
  then have "[0..<min (unat (1 :: u32)) (unat (downstream_access_ports_num s))] = [0]" by (simp add: min_def)
  then have "mshrSendRequest s = Inr ((bc_send (out_access_req [req]) (s\<lparr>mshr := m\<rparr>))
      \<lparr>next_level_credit := next_level_credit s - 1\<rparr>)"
    unfolding mshrSendRequest_def u using e st m d by (simp add: bc_sendRequest_def)
  moreover have "\<not> mshr_isEmpty m" using one_entry_slot(1) [OF m(2)] by simp
  moreover have "next_level_credit s > 0" using assms(3) by (simp add: word_neq_0_conv)
  ultimately show ?thesis
    using m unfolding handleMshr_one [OF assms(1), simplified] by (auto simp: r bc_send_def)
qed

lemma handleMshr_whole_line:
  assumes "one_entry s req MS_RECV_WHOLE_LINE" "bc_shape s"
    and "\<not> list_all te_valid (tagram s ! unat (bc_getIndex s (ma_address (bc_acc s req))))"
  shows "\<exists>s1 m. ramRefill s req 0 = Inr s1
    \<and> handleMshr s = Inr (bc_send (ev_handle_mshr 1) (s1\<lparr>mshr := m\<rparr>))
    \<and> one_entry (s1\<lparr>mshr := m\<rparr>) req MS_REFILL"
proof -
  note e = one_entry_slot [OF assms(1)]
  let ?i = "bc_getIndex s (ma_address (bc_acc s req))"
  note sh = bc_shape_index [OF assms(2), of "ma_address (bc_acc s req)"]
    bc_shape_set [OF assms(2), of "ma_address (bc_acc s req)"]
    checkWayAvail_shape [OF assms(2), of "ma_address (bc_acc s req)" 0]
  have w: "0 < unat (way_num s)" using assms(2) by (auto simp: bc_shape_def unat_gt_0)
  have u: "mshr_used (mshr s) = 1" and st: "me_status (mshr_queue (mshr s) ! unat (mshr_header (mshr s))) = MS_RECV_WHOLE_LINE"
    using assms(1) by (simp_all add: one_entry_def)
  obtain s1 where s1: "ramRefill s req 0 = Inr s1" "mshr s1 = mshr s"
    using sh w by (auto simp: ramRefill_def Let_def)
  have o1: "one_entry s1 req MS_RECV_WHOLE_LINE" using assms(1) s1(2) by (simp add: one_entry_def)
  obtain m where m: "set_status s1 (mshr_header (mshr s)) MS_REFILL = Inr (s1\<lparr>mshr := m\<rparr>)"
    "one_entry (s1\<lparr>mshr := m\<rparr>) req MS_REFILL" "mshr_header m = mshr_header (mshr s)" "mshr_used m = 1"
    using set_status_one [OF o1, of MS_REFILL] unfolding s1(2) by blast
  let ?s2 = "s1\<lparr>mshr := m\<rparr>"
  note e2 = one_entry_slot [OF m(2)]
  have st2: "me_status (mshr_queue m ! unat (mshr_header m)) = MS_REFILL" using m(2) by (simp add: one_entry_def)
  have r: "mshrRefill s = Inr ?s2"
    unfolding mshrRefill_def u upt_one using e st sh s1 m assms(3) by (simp add: Let_def)
  have v: "mshrEvict ?s2 = Inr ?s2" unfolding mshrEvict_def by (simp add: m(4) upt_one e2 [simplified] st2)
  have q: "mshrSendRequest ?s2 = Inr ?s2"
    unfolding mshrSendRequest_def using e2(1) e2(3) [simplified] st2
    by (cases "unat (downstream_access_ports_num s1)") (simp_all add: m(4))
  show ?thesis
    using s1(1) m(2) e2(1) v q unfolding handleMshr_one [OF assms(1), simplified] by (auto simp: r)
qed

lemma handleMshr_refill:
  assumes "one_entry s req MS_REFILL"
  shows "\<exists>m. handleMshr s = Inr (bc_send (out_upstream_credit 1 0) (s\<lparr>mshr := m\<rparr>)) \<and> mshr_wf m \<and> mshr_used m = 0"
proof -
  note e = one_entry_slot [OF assms]
  have wf: "mshr_wf (mshr s)" and u: "mshr_used (mshr s) = 1"
    and st: "me_status (mshr_queue (mshr s) ! unat (mshr_header (mshr s))) = MS_REFILL"
    using assms by (simp_all add: one_entry_def)
  have "mshr_header (mshr s) < mshr_qsize (mshr s)" using wf by (simp add: mshr_wf_def word_less_nat_alt)
  from mshr_deallocate_ok [OF wf e(1) this] obtain m where
    m: "mshr_deallocate (mshr s) (mshr_header (mshr s)) = Inr m" "mshr_wf m" "unat (mshr_used m) = 0"
      "mshr_qsize m = mshr_qsize (mshr s)"
    using u by auto
  have m0: "mshr_used m = 0" using m(3) by (simp add: unat_eq_0)
  have av: "mshr_isAvail m" using m(2) m0 by (auto simp: mshr_isAvail_def mshr_wf_def)
  have "mshrDeallocate s = Inr (bc_send (out_upstream_credit 1 0) (s\<lparr>mshr := m\<rparr>))"
    unfolding mshrDeallocate_def u upt_one using e st m(1) av u by (simp add: bc_sendCredit_def checkMshrAvail_def)
  moreover have "mshr_isEmpty m" using m0 by (simp add: mshr_isEmpty_def)
  ultimately show ?thesis using e(1) m(2) m0 by (auto simp: handleMshr_def bc_send_def)
qed

lemma bc_geometry_updates [simp]:
  "bc_geometry cb ib (bc_send e s) = bc_geometry cb ib s"
  "bc_geometry cb ib (s\<lparr>mshr := m\<rparr>) = bc_geometry cb ib s"
  "bc_geometry cb ib (s\<lparr>bc_acc := a\<rparr>) = bc_geometry cb ib s"
  "bc_geometry cb ib (s\<lparr>cache_misses := n\<rparr>) = bc_geometry cb ib s"
  "bc_geometry cb ib (s\<lparr>next_level_credit := c\<rparr>) = bc_geometry cb ib s"
  "bc_geometry cb ib (s\<lparr>out_resp_queue := q\<rparr>) = bc_geometry cb ib s"
  "bc_geometry cb ib (s\<lparr>tagram := t\<rparr>) = bc_geometry cb ib s"
  by (simp_all add: bc_geometry_def bc_send_def)

lemma bc_shape_updates [simp]:
  "bc_shape (bc_send e s) = bc_shape s"
  "bc_shape (s\<lparr>mshr := m\<rparr>) = bc_shape s"
  "bc_shape (s\<lparr>bc_acc := a\<rparr>) = bc_shape s"
  "bc_shape (s\<lparr>cache_misses := n\<rparr>) = bc_shape s"
  "bc_shape (s\<lparr>next_level_credit := c\<rparr>) = bc_shape s"
  "bc_shape (s\<lparr>out_resp_queue := q\<rparr>) = bc_shape s"
  by (simp_all add: bc_shape_def, simp_all add: bc_send_def)

lemma bc_fields_send [simp]:
  "mshr (bc_send e s) = mshr s" "bc_acc (bc_send e s) = bc_acc s" "tagram (bc_send e s) = tagram s"
  "out_resp_queue (bc_send e s) = out_resp_queue s" "next_level_credit (bc_send e s) = next_level_credit s"
  "bc_out (bc_send e s) = bc_out s @ [e]" "cache_misses (bc_send e s) = cache_misses s"
  "cache_hits (bc_send e s) = cache_hits s"
  by (simp_all add: bc_send_def)

lemma one_entry_mshr: "mshr s' = mshr s \<Longrightarrow> one_entry s' req st = one_entry s req st"
  by (simp add: one_entry_def)

text \<open>Index and tag depend on the geometry only.\<close>

lemma bc_address_geo:
  assumes "bc_geo s' = bc_geo s"
  shows "bc_getIndex s' a = bc_getIndex s a" "bc_getTag s' a = bc_getTag s a" "tagram s' = tagram s"
  using assms by (simp_all add: bc_geo_def bc_getIndex_def bc_getTag_def)

text \<open>The line of an address is in the tag RAM.\<close>

definition bc_holds :: "BaseCache \<Rightarrow> u64 \<Rightarrow> bool" where
  "bc_holds s a \<longleftrightarrow> tag_scan (bc_getTag s a) 0 (tagram s ! unat (bc_getIndex s a)) \<noteq> None"

lemma bc_holds_geo: "bc_geo s' = bc_geo s \<Longrightarrow> bc_holds s' a = bc_holds s a"
  unfolding bc_holds_def by (simp only: bc_address_geo [where s' = s' and s = s])

lemma funcaccess_miss:
  assumes "bc_shape s" "mshr_wf (mshr s)" "mshr_used (mshr s) = 0" "\<not> bc_holds s (ma_address (bc_acc s req))"
  shows "\<exists>m. funcaccess s [req] = Inr ((bc_send (ev_handle_mshr 1) (s\<lparr>mshr := m,
        bc_acc := (bc_acc s)(req := (bc_acc s req)\<lparr>ma_mshrid := mshr_header m\<rparr>)\<rparr>))\<lparr>cache_misses := cache_misses s + 1\<rparr>)
    \<and> one_entry (s\<lparr>mshr := m\<rparr>) req MS_ALLOCATE"
proof -
  let ?a = "ma_address (bc_acc s req)"
  have "mshr_qsize (mshr s) \<noteq> 0" using assms(2) by (auto simp: mshr_wf_def)
  then have av: "mshr_isAvail (mshr s)" using assms(3) by (simp add: mshr_isAvail_def)
  have th: "mshr_tail (mshr s) = mshr_header (mshr s)"
    using assms(2,3) by (simp add: mshr_wf_def word_unat_eq_iff)
  from mshr_allocate_ok [OF assms(2) av] obtain m where
    m: "mshr_allocate (mshr s) = Inr (mshr_header (mshr s), m)" "mshr_wf m" "unat (mshr_used m) = 1"
      "mshr_header m = mshr_header (mshr s)" "unat (mshr_header m) < length (mshr_queue m)"
    using assms(3) unfolding th by auto
  let ?e = "(mshr_queue m ! unat (mshr_header m))\<lparr>me_addr := ?a, me_req := Some req, me_status := MS_ALLOCATE, me_valid := True\<rparr>"
  let ?m = "m\<lparr>mshr_queue := (mshr_queue m)[unat (mshr_header m) := ?e]\<rparr>"
  have "mshr_used m = 1" using m(3) by (simp add: word_unat_eq_iff)
  moreover have "mshr_wf ?m" using m(2) unfolding mshr_wf_def by simp
  ultimately have "one_entry (s\<lparr>mshr := ?m\<rparr>) req MS_ALLOCATE" using m(5) unfolding one_entry_def by simp
  moreover have "allocMshr s req = Inr (mshr_header m, bc_send (ev_handle_mshr 1) (s\<lparr>mshr := ?m,
        bc_acc := (bc_acc s)(req := (bc_acc s req)\<lparr>ma_mshrid := mshr_header ?m\<rparr>)\<rparr>))"
    using m(1,4,5) by (simp add: allocMshr_def mshr_modify_def)
  moreover have "1 \<le> unat (upstream_access_ports_num s)" using assms(1) by (auto simp: bc_shape_def Suc_le_eq unat_gt_0)
  ultimately show ?thesis
    using assms(1,4) av bc_shape_index [OF assms(1), of ?a] bc_shape_set [OF assms(1), of ?a]
    by (intro exI [of _ ?m]) (simp add: funcaccess_def funcaccess_one_def accessTagRam_def accessDataRam_def
        tagCompare_def checkMshrAvail_def bc_holds_def bc_shape_def)
qed

lemma funcaccess_hit:
  assumes "bc_shape s" "bc_holds s (ma_address (bc_acc s req))"
  shows "\<exists>s'. funcaccess s [req] = Inr s' \<and> out_resp_queue s' = out_resp_queue s @ [req] \<and> mshr s' = mshr s
    \<and> cache_hits s' = cache_hits s + 1 \<and> cache_misses s' = cache_misses s"
proof -
  let ?a = "ma_address (bc_acc s req)"
  have "1 \<le> unat (upstream_access_ports_num s)" using assms(1) by (auto simp: bc_shape_def Suc_le_eq unat_gt_0)
  then show ?thesis
    using assms bc_shape_index [OF assms(1), of ?a] bc_shape_set [OF assms(1), of ?a]
    by (simp add: funcaccess_def funcaccess_one_def accessTagRam_def accessDataRam_def tagCompare_def
        bc_holds_def bc_shape_def makeResp_def Let_def bc_alloc_def bc_sendCredit_def)
qed

lemma bc_recvResp_one:
  assumes "one_entry s req MS_SEND_REQ" "bc_shape s" "ma_mshrid (bc_acc s req) = mshr_header (mshr s)"
  shows "\<exists>m es. bc_recvResp s [req] = Inr ((s\<lparr>mshr := m, out_resp_queue := out_resp_queue s @ [req]\<rparr>)\<lparr>bc_out := bc_out s @ es\<rparr>)
    \<and> one_entry (s\<lparr>mshr := m\<rparr>) req MS_RECV_WHOLE_LINE"
proof -
  note e = one_entry_slot [OF assms(1)]
  obtain m where m: "set_status s (mshr_header (mshr s)) MS_RECV_WHOLE_LINE = Inr (s\<lparr>mshr := m\<rparr>)"
    "one_entry (s\<lparr>mshr := m\<rparr>) req MS_RECV_WHOLE_LINE"
    using set_status_one [OF assms(1), of MS_RECV_WHOLE_LINE] by blast
  have st: "me_status (mshr_queue (mshr s) ! unat (mshr_header (mshr s))) = MS_SEND_REQ"
    using assms(1) by (simp add: one_entry_def)
  have "1 \<le> unat (downstream_access_ports_num s)" using assms(2) by (auto simp: bc_shape_def Suc_le_eq unat_gt_0)
  then have "bc_recvResp s [req] = Inr ((s\<lparr>mshr := m, out_resp_queue := out_resp_queue s @ [req]\<rparr>)
      \<lparr>bc_out := bc_out s @ [ev_out_resp_arbiter 1, ev_handle_mshr 1]\<rparr>)"
    using assms(2,3) e m(1) st
    by (simp add: bc_recvResp_def mshrRecvResp_def makeResp_def bc_shape_def bc_send_def)
  with m(2) show ?thesis by blast
qed

lemma ramRefill_holds:
  assumes "ramRefill s req 0 = Inr s'" "bc_shape s"
  shows "bc_holds s' (ma_address (bc_acc s req)) \<and> bc_shape s' \<and> bc_acc s' = bc_acc s"
proof -
  let ?a = "ma_address (bc_acc s req)"
  let ?i = "unat (bc_getIndex s ?a)"
  have i: "?i < length (tagram s)" and l: "length (tagram s ! ?i) = unat (way_num s)" and w: "0 < unat (way_num s)"
    using bc_shape_index(2) [OF assms(2)] bc_shape_set [OF assms(2)] assms(2)
    by (auto simp: bc_shape_def unat_gt_0)
  let ?es = "(tagram s ! ?i)[0 := (tagram s ! ?i ! 0)\<lparr>te_tag := bc_getTag s ?a, te_valid := True\<rparr>]"
  have s': "s' = s\<lparr>tagram := (tagram s)[?i := ?es]\<rparr>"
    using assms(1) i l w by (auto simp: ramRefill_def Let_def result_simps)
  have geo: "bc_getIndex s' a = bc_getIndex s a" "bc_getTag s' a = bc_getTag s a" for a
    by (simp_all add: s' bc_getIndex_def bc_getTag_def)
  have "\<exists>x xs. tagram s ! ?i = x # xs" using l w by (cases "tagram s ! ?i") auto
  then have "bc_holds s' ?a" unfolding bc_holds_def geo using i by (auto simp: s')
  moreover have "es \<in> set (tagram s')  \<Longrightarrow> length es = unat (way_num s)" for es
    using assms(2) i l set_update_subset_insert [of "tagram s" ?i ?es] by (auto simp: s' bc_shape_def)
  then have "bc_shape s'" using assms(2) by (auto simp: bc_shape_def s')
  ultimately show ?thesis by (simp add: s')
qed

text \<open>The two halves of serving a miss: asking for the line, and filling it in.\<close>

lemma miss_requested:
  assumes "bc_shape s" "mshr_wf (mshr s)" "mshr_used (mshr s) = 0" "next_level_credit s \<noteq> 0"
    and "\<not> bc_holds s (ma_address (bc_acc s req))"
  shows "\<exists>s1 s2. funcaccess s [req] = Inr s1
    \<and> handleMshr s1 = Inr s2 \<and> bc_out s2 = bc_out s1 @ [out_access_req [req], ev_handle_mshr 1]
    \<and> one_entry s2 req MS_SEND_REQ \<and> ma_mshrid (bc_acc s2 req) = mshr_header (mshr s2)
    \<and> ma_address (bc_acc s2 req) = ma_address (bc_acc s req) \<and> bc_shape s2 \<and> bc_geo s2 = bc_geo s
    \<and> out_resp_queue s2 = out_resp_queue s \<and> next_level_credit s2 = next_level_credit s - 1"
proof -
  from funcaccess_miss [OF assms(1,2,3,5)] obtain m1 where
    f: "funcaccess s [req] = Inr ((bc_send (ev_handle_mshr 1) (s\<lparr>mshr := m1,
        bc_acc := (bc_acc s)(req := (bc_acc s req)\<lparr>ma_mshrid := mshr_header m1\<rparr>)\<rparr>))\<lparr>cache_misses := cache_misses s + 1\<rparr>)"
    and o1: "one_entry (s\<lparr>mshr := m1\<rparr>) req MS_ALLOCATE" by blast
  define s1 where "s1 = (bc_send (ev_handle_mshr 1) (s\<lparr>mshr := m1,
        bc_acc := (bc_acc s)(req := (bc_acc s req)\<lparr>ma_mshrid := mshr_header m1\<rparr>)\<rparr>))\<lparr>cache_misses := cache_misses s + 1\<rparr>"
  have s1: "mshr s1 = m1" "bc_acc s1 req = (bc_acc s req)\<lparr>ma_mshrid := mshr_header m1\<rparr>" "bc_shape s1"
    "next_level_credit s1 = next_level_credit s" "bc_geo s1 = bc_geo s" "out_resp_queue s1 = out_resp_queue s"
    using assms(1) by (simp_all add: s1_def)
  have o1': "one_entry s1 req MS_ALLOCATE" using o1 s1(1) by (simp add: one_entry_def)
  from handleMshr_allocate [OF o1' s1(3)] s1(4) assms(4) obtain m2 where
    h: "handleMshr s1 = Inr (bc_send (ev_handle_mshr 1)
      ((bc_send (out_access_req [req]) (s1\<lparr>mshr := m2\<rparr>))\<lparr>next_level_credit := next_level_credit s1 - 1\<rparr>))"
    and o2: "one_entry (s1\<lparr>mshr := m2\<rparr>) req MS_SEND_REQ" "mshr_header m2 = mshr_header m1" using s1(1) by auto
  define s2 where "s2 = bc_send (ev_handle_mshr 1)
      ((bc_send (out_access_req [req]) (s1\<lparr>mshr := m2\<rparr>))\<lparr>next_level_credit := next_level_credit s1 - 1\<rparr>)"
  have "mshr s2 = m2" "bc_acc s2 = bc_acc s1" "bc_shape s2" "bc_geo s2 = bc_geo s"
    "out_resp_queue s2 = out_resp_queue s" "bc_out s2 = bc_out s1 @ [out_access_req [req], ev_handle_mshr 1]"
    "next_level_credit s2 = next_level_credit s - 1"
    using s1 by (simp_all add: s2_def)
  moreover from this(1) have "one_entry s2 req MS_SEND_REQ" using o2(1) by (simp add: one_entry_def)
  ultimately show ?thesis
    using f h o2(2) s1(2) unfolding s1_def [symmetric] s2_def [symmetric]
    by (intro exI [of _ s1] exI [of _ s2]) simp
qed

lemma line_filled:
  assumes "one_entry s req MS_RECV_WHOLE_LINE" "bc_shape s"
    and "\<not> list_all te_valid (tagram s ! unat (bc_getIndex s (ma_address (bc_acc s req))))"
  shows "\<exists>s1 s2. handleMshr s = Inr s1 \<and> handleMshr s1 = Inr s2
    \<and> bc_out s2 = bc_out s1 @ [out_upstream_credit 1 0] \<and> mshr_used (mshr s2) = 0 \<and> mshr_wf (mshr s2)
    \<and> bc_shape s2 \<and> bc_holds s2 (ma_address (bc_acc s req)) \<and> next_level_credit s2 = next_level_credit s"
proof -
  from handleMshr_whole_line [OF assms] obtain t m where
    w: "ramRefill s req 0 = Inr t" "handleMshr s = Inr (bc_send (ev_handle_mshr 1) (t\<lparr>mshr := m\<rparr>))"
      "one_entry (t\<lparr>mshr := m\<rparr>) req MS_REFILL" by blast
  have t: "bc_holds t (ma_address (bc_acc s req))" "bc_shape t" using ramRefill_holds [OF w(1) assms(2)] by simp_all
  have "next_level_credit t = next_level_credit s" using w(1) by (auto simp: ramRefill_def Let_def result_simps)
  let ?s1 = "bc_send (ev_handle_mshr 1) (t\<lparr>mshr := m\<rparr>)"
  have "one_entry ?s1 req MS_REFILL" using w(3) by (simp add: one_entry_def)
  from handleMshr_refill [OF this] obtain m2 where
    z: "handleMshr ?s1 = Inr (bc_send (out_upstream_credit 1 0) (?s1\<lparr>mshr := m2\<rparr>))" "mshr_wf m2" "mshr_used m2 = 0"
    by blast
  let ?s2 = "bc_send (out_upstream_credit 1 0) (?s1\<lparr>mshr := m2\<rparr>)"
  have "bc_holds ?s2 (ma_address (bc_acc s req))"
    using t(1) by (subst bc_holds_geo [where s = t]) simp_all
  with w(2) z t(2) \<open>next_level_credit t = next_level_credit s\<close> show ?thesis
    by (intro exI [of _ ?s1] exI [of _ ?s2]) simp
qed

section \<open>A full set is never refilled\<close>

lemma evict_shape:
  assumes "bc_shape s" "unat w < unat (way_num s)" "req < bc_next s"
  shows "\<exists>s'. evict s (bc_getIndex s a) w = Inr s' \<and> mshr s' = mshr s \<and> bc_geo s' = bc_geo s \<and> bc_shape s'
    \<and> bc_acc s' req = bc_acc s req \<and> req < bc_next s'"
proof -
  have "bc_shape (s\<lparr>bc_acc := x, bc_next := n, next_level_credit := c, bc_out := es\<rparr>)"
    "bc_shape (s\<lparr>bc_acc := x, bc_next := n, bc_out := es\<rparr>)" for x n es c
    using assms(1) by (simp_all add: bc_shape_def bc_geometry_def)
  then show ?thesis
    using assms(2,3) bc_shape_index(2) [OF assms(1), of a] bc_shape_set [OF assms(1), of a]
    by (simp add: evict_def bc_alloc_def Let_def bc_send_def bc_geo_def)
qed

lemma mshrSendRequest_idle:
  assumes "one_entry s req st" "st \<noteq> MS_ALLOCATE"
  shows "mshrSendRequest s = Inr s"
proof -
  note e = one_entry_slot [OF assms(1)]
  have "mshr_used (mshr s) = 1" "me_status (mshr_queue (mshr s) ! unat (mshr_header (mshr s))) = st"
    using assms(1) by (simp_all add: one_entry_def)
  with e assms(2) show ?thesis
    unfolding mshrSendRequest_def by (cases "unat (downstream_access_ports_num s)") simp_all
qed

lemma mshrEvict_full:
  assumes "one_entry s req st" "st = MS_RECV_WHOLE_LINE \<or> st = MS_EVICT" "bc_shape s" "req < bc_next s"
    and "list_all te_valid (tagram s ! unat (bc_getIndex s (ma_address (bc_acc s req))))"
  shows "\<exists>s'. mshrEvict s = Inr s' \<and> one_entry s' req MS_EVICT \<and> bc_geo s' = bc_geo s \<and> bc_shape s'
    \<and> bc_acc s' req = bc_acc s req \<and> req < bc_next s'"
proof -
  note e = one_entry_slot [OF assms(1)]
  let ?a = "ma_address (bc_acc s req)"
  have u: "mshr_used (mshr s) = 1" and st: "me_status (mshr_queue (mshr s) ! unat (mshr_header (mshr s))) = st"
    using assms(1) by (simp_all add: one_entry_def)
  show ?thesis
  proof (cases "st = MS_EVICT")
    case True
    then have "mshrEvict s = Inr s" unfolding mshrEvict_def u upt_one using e st by simp
    with assms(1,3,4) True show ?thesis by simp
  next
    case False
    let ?w = "ucast (bc_random s (bc_random_pos s) mod ucast (way_num s)) :: u32"
    let ?s1 = "s\<lparr>bc_random_pos := bc_random_pos s + 1\<rparr>"
    have wn: "way_num s \<noteq> 0" "0 < unat (way_num s)" using assms(3) by (auto simp: bc_shape_def unat_gt_0)
    have lt: "unat (bc_random s (bc_random_pos s) mod ucast (way_num s)) < unat (way_num s)"
      using wn(2) by (simp add: unat_mod_distrib)
    have "unat (way_num s) < 2 ^ 32" by (rule less_le_trans [OF unsigned_less]) simp
    with lt have "unat ?w = unat (bc_random s (bc_random_pos s) mod ucast (way_num s))"
      by (simp add: unsigned_ucast_eq take_bit_nat_eq_self)
    with lt have w: "unat ?w < unat (way_num ?s1)" by simp
    have sh1: "bc_shape ?s1" "req < bc_next ?s1" "bc_geo ?s1 = bc_geo s"
      using assms(3,4) by (simp_all add: bc_shape_def bc_geometry_def)
    from evict_shape [OF sh1(1) w sh1(2), of ?a] obtain s2 where
      s2: "evict ?s1 (bc_getIndex ?s1 ?a) ?w = Inr s2" "mshr s2 = mshr s" "bc_geo s2 = bc_geo s" "bc_shape s2"
        "bc_acc s2 req = bc_acc s req" "req < bc_next s2" using sh1(3) by auto
    have o2: "one_entry s2 req st" using assms(1) s2(2) by (simp add: one_entry_def)
    from set_status_one [OF o2, of MS_EVICT] obtain m where
      m: "set_status s2 (mshr_header (mshr s)) MS_EVICT = Inr (s2\<lparr>mshr := m\<rparr>)" "one_entry (s2\<lparr>mshr := m\<rparr>) req MS_EVICT"
      unfolding s2(2) by blast
    have "mshrEvict s = Inr (s2\<lparr>mshr := m\<rparr>)"
      unfolding mshrEvict_def u upt_one
      using e st False assms(2,5) bc_shape_index(1) [OF assms(3), of ?a] checkWayAvail_shape [OF assms(3), of ?a 0]
        s2(1) m(1) wn(1) bc_address_geo(1) [OF sh1(3), of ?a]
      by (simp add: Let_def replacementCal_def)
    with m(2) s2 show ?thesis by (intro exI [of _ "s2\<lparr>mshr := m\<rparr>"]) simp
  qed
qed

lemma handleMshr_stuck:
  assumes "one_entry s req st" "st = MS_RECV_WHOLE_LINE \<or> st = MS_EVICT" "bc_shape s" "req < bc_next s"
    and "list_all te_valid (tagram s ! unat (bc_getIndex s (ma_address (bc_acc s req))))"
  shows "\<exists>s'. handleMshr s = Inr s' \<and> one_entry s' req MS_EVICT \<and> bc_geo s' = bc_geo s \<and> bc_shape s'
    \<and> bc_acc s' req = bc_acc s req \<and> req < bc_next s'"
proof -
  note e = one_entry_slot [OF assms(1)]
  let ?a = "ma_address (bc_acc s req)"
  have u: "mshr_used (mshr s) = 1" and st: "me_status (mshr_queue (mshr s) ! unat (mshr_header (mshr s))) = st"
    using assms(1) by (simp_all add: one_entry_def)
  have r: "mshrRefill s = Inr s"
    unfolding mshrRefill_def u upt_one
    using e st assms(2,5) bc_shape_index(1) [OF assms(3), of ?a] checkWayAvail_shape [OF assms(3), of ?a 0]
    by (auto simp: Let_def)
  from mshrEvict_full [OF assms] obtain s2 where
    s2: "mshrEvict s = Inr s2" "one_entry s2 req MS_EVICT" "bc_geo s2 = bc_geo s" "bc_shape s2"
      "bc_acc s2 req = bc_acc s req" "req < bc_next s2" by blast
  have "mshrSendRequest s2 = Inr s2" by (rule mshrSendRequest_idle [OF s2(2)]) simp
  then have "handleMshr s = Inr (bc_send (ev_handle_mshr 1) s2)"
    using handleMshr_one [OF assms(1)] assms(2) r s2(1) one_entry_slot(1) [OF s2(2)] by auto
  moreover have "req < bc_next (bc_send (ev_handle_mshr 1) s2)" using s2(6) by (simp add: bc_send_def)
  ultimately show ?thesis
    using s2 by (intro exI [of _ "bc_send (ev_handle_mshr 1) s2"]) (simp add: one_entry_def)
qed

section \<open>Properties\<close>

text \<open>
  A miss is served. From an idle cache between a core and a memory, with credit downstream, a request
  for a line that is not cached and whose set has a free way goes through all its stages: it is accepted,
  the next run of the miss handler asks downstream for it, the response queues the answer for the core,
  two more runs fill the line and free the register, and the credit goes back upstream. Afterwards an
  access to any address of that line hits and is answered.
\<close>

theorem BaseCache_miss_served:
  assumes "bc_shape s" "mshr_wf (mshr s)" "mshr_used (mshr s) = 0" "next_level_credit s \<noteq> 0"
    and "a = ma_address (bc_acc s req)" "\<not> bc_holds s a"
    and "\<not> list_all te_valid (tagram s ! unat (bc_getIndex s a))"
  shows "\<exists>s1 s2 s3 s4 s5. funcaccess s [req] = Inr s1
    \<and> handleMshr s1 = Inr s2 \<and> bc_out s2 = bc_out s1 @ [out_access_req [req], ev_handle_mshr 1]
    \<and> bc_recvResp s2 [req] = Inr s3 \<and> out_resp_queue s3 = out_resp_queue s @ [req]
    \<and> handleMshr s3 = Inr s4
    \<and> handleMshr s4 = Inr s5 \<and> bc_out s5 = bc_out s4 @ [out_upstream_credit 1 0] \<and> mshr_used (mshr s5) = 0
    \<and> (\<forall>r. bc_getTag s5 (ma_address (bc_acc s5 r)) = bc_getTag s5 a \<and> bc_getIndex s5 (ma_address (bc_acc s5 r)) = bc_getIndex s5 a
         \<longrightarrow> (\<exists>s6. funcaccess s5 [r] = Inr s6 \<and> out_resp_queue s6 = out_resp_queue s5 @ [r]
              \<and> cache_hits s6 = cache_hits s5 + 1 \<and> cache_misses s6 = cache_misses s5))"
proof -
  from miss_requested [OF assms(1-4)] assms(5,6) obtain s1 s2 where
    q: "funcaccess s [req] = Inr s1" "handleMshr s1 = Inr s2"
      "bc_out s2 = bc_out s1 @ [out_access_req [req], ev_handle_mshr 1]" "one_entry s2 req MS_SEND_REQ"
      "ma_mshrid (bc_acc s2 req) = mshr_header (mshr s2)" "ma_address (bc_acc s2 req) = a" "bc_shape s2"
      "bc_geo s2 = bc_geo s" "out_resp_queue s2 = out_resp_queue s" by blast
  from bc_recvResp_one [OF q(4,7,5)] obtain m es where
    r: "bc_recvResp s2 [req] = Inr ((s2\<lparr>mshr := m, out_resp_queue := out_resp_queue s2 @ [req]\<rparr>)\<lparr>bc_out := bc_out s2 @ es\<rparr>)"
      "one_entry (s2\<lparr>mshr := m\<rparr>) req MS_RECV_WHOLE_LINE" by blast
  define s3 where "s3 = (s2\<lparr>mshr := m, out_resp_queue := out_resp_queue s2 @ [req]\<rparr>)\<lparr>bc_out := bc_out s2 @ es\<rparr>"
  have s3: "one_entry s3 req MS_RECV_WHOLE_LINE" "bc_shape s3" "ma_address (bc_acc s3 req) = a" "bc_geo s3 = bc_geo s"
    "out_resp_queue s3 = out_resp_queue s @ [req]"
    using r(2) q(6-9) by (simp_all add: s3_def one_entry_def bc_shape_def bc_geometry_def)
  have "\<not> list_all te_valid (tagram s3 ! unat (bc_getIndex s3 (ma_address (bc_acc s3 req))))"
    unfolding s3(3) bc_address_geo [OF s3(4)] by (rule assms(7))
  from line_filled [OF s3(1,2) this] obtain s4 s5 where
    f: "handleMshr s3 = Inr s4" "handleMshr s4 = Inr s5" "bc_out s5 = bc_out s4 @ [out_upstream_credit 1 0]"
      "mshr_used (mshr s5) = 0" "bc_shape s5" "bc_holds s5 a" unfolding s3(3) by blast
  have "bc_holds s5 (ma_address (bc_acc s5 x))" if "bc_getTag s5 (ma_address (bc_acc s5 x)) = bc_getTag s5 a"
    "bc_getIndex s5 (ma_address (bc_acc s5 x)) = bc_getIndex s5 a" for x
    using f(6) that by (simp add: bc_holds_def)
  then have "\<forall>x. bc_getTag s5 (ma_address (bc_acc s5 x)) = bc_getTag s5 a \<and> bc_getIndex s5 (ma_address (bc_acc s5 x)) = bc_getIndex s5 a
      \<longrightarrow> (\<exists>s6. funcaccess s5 [x] = Inr s6 \<and> out_resp_queue s6 = out_resp_queue s5 @ [x]
              \<and> cache_hits s6 = cache_hits s5 + 1 \<and> cache_misses s6 = cache_misses s5)"
    using funcaccess_hit [OF f(5)] by blast
  with q(1-3) r(1) s3(5) f(1-4) show ?thesis unfolding s3_def [symmetric] by blast
qed

definition bc_example_param :: BaseCacheParameterSet where
  "bc_example_param = \<lparr>bcp_init_credits = 1, bcp_cacheline_size = 4, bcp_way_num = 2, bcp_cache_size = 16,
     bcp_mshr_size = 1, bcp_is_perfect_cache = False, bcp_cache_latency = 1, bcp_upstream_access_ports_num = 1,
     bcp_downstream_access_ports_num = 1, bcp_upstream_access_ports_bandwidth = 4,
     bcp_downstream_access_ports_bandwidth = 4, bcp_cache_level = 1, bcp_upstream_is_core = True,
     bcp_downstream_is_mem = True\<rparr>"

lemma floor_log2_examples: "floor_log2 2 = 1" "floor_log2 4 = 2" "floor_log2 (Suc 0) = 0" "floor_log2 1 = 0"
  by (simp_all add: floor_log2.simps)

lemma unat_div_examples: "(16 :: u32) div 4 div 2 = 2" "(16 :: u32) div 4 = 4" "(8 :: u32) div 4 div 1 = 2"
  by (simp_all add: word_unat_eq_iff unat_div_distrib)

lemma replicate_two: "replicate 2 x = [x, x]"
  by (simp add: numeral_2_eq_2)

definition bc_start :: BaseCache where
  "bc_start = projr (mk_BaseCache bc_example_param (\<lambda>_. 0))"

lemma bc_start_fields:
  "mk_BaseCache bc_example_param (\<lambda>_. 0) = Inr bc_start"
  "tagram bc_start = [[mk_TagEntry, mk_TagEntry], [mk_TagEntry, mk_TagEntry]]"
  "mshr bc_start = \<lparr>mshr_queue = [mk_MSHREntry], mshr_qsize = 1, mshr_used = 0, mshr_header = 0, mshr_tail = 0\<rparr>"
  "bc_acc bc_start = (\<lambda>_. mk_MemAccInfo)" "way_num bc_start = 2" "set_num bc_start = 2" "length (dataram bc_start) = 2"
  "\<not> perfect_cache bc_start" "upstream_is_core bc_start" "downstream_is_mem bc_start"
  "upstream_access_ports_num bc_start = 1" "downstream_access_ports_num bc_start = 1" "next_level_credit bc_start = 0"
  by (simp_all add: bc_start_def mk_BaseCache_def bc_example_param_def Let_def floor_log2_examples
      unat_div_examples mshr_resize_def replicate_two)

lemma bc_start_shape: "bc_shape bc_start"
  using mk_BaseCache_geometry [OF bc_start_fields(1)] by (simp add: bc_shape_def bc_start_fields)

theorem BaseCache_miss_served_witness:
  "\<exists>s1 s2. funcaccess (bc_recvCredit bc_start 1) [0] = Inr s1 \<and> handleMshr s1 = Inr s2
     \<and> out_access_req [0] \<in> set (bc_out s2)"
proof -
  let ?s = "bc_recvCredit bc_start 1"
  have sh: "bc_shape ?s" using bc_start_shape by (simp add: bc_recvCredit_def)
  have m: "mshr_wf (mshr ?s)" "mshr_used (mshr ?s) = 0" "next_level_credit ?s \<noteq> 0" "ma_address (bc_acc ?s 0) = 0"
    by (simp_all add: bc_recvCredit_def bc_start_fields mshr_wf_def mk_MemAccInfo_def)
  have t: "tagram ?s ! unat (bc_getIndex ?s 0) \<in> set (tagram ?s)" using bc_shape_index(2) [OF sh] by simp
  then have "tagram ?s ! unat (bc_getIndex ?s 0) = [mk_TagEntry, mk_TagEntry]"
    by (auto simp: bc_recvCredit_def bc_start_fields)
  then have "\<not> bc_holds ?s 0" "\<not> list_all te_valid (tagram ?s ! unat (bc_getIndex ?s 0))"
    by (simp_all add: bc_holds_def mk_TagEntry_def)
  from BaseCache_miss_served [OF sh m(1-3) m(4) [symmetric] this] obtain s1 s2 where
    "funcaccess ?s [0] = Inr s1" "handleMshr s1 = Inr s2"
    "bc_out s2 = bc_out s1 @ [out_access_req [0], ev_handle_mshr 1]" by blast
  then show ?thesis by (intro exI [of _ s1] exI [of _ s2]) simp
qed

text \<open>
  (C28) The cache never uses more than one way of a set. In every reachable state only way 0 can hold a line,
  whatever the associativity: the way that \<open>checkWayAvail\<close> finds is returned through a parameter passed by
  value, so every refill goes to way 0. The cache behaves as a direct-mapped one.
\<close>

theorem BaseCache_uses_one_way:
  assumes "mk_BaseCache p rnd = Inr s0" "bc_step\<^sup>*\<^sup>* s0 s" "es \<in> set (tagram s)" "k < length es" "te_valid (es ! k)"
  shows "k = 0"
  using bc_reach_way_zero [OF assms(2) mk_BaseCache_way_zero [OF assms(1)]] assms(3-5)
  by (auto simp: way_zero_only_def)

theorem BaseCache_uses_one_way_witness:
  "\<exists>s. bc_step\<^sup>*\<^sup>* bc_start s \<and> \<not> (\<exists>es \<in> set (tagram s). length es = 2 \<and> te_valid (es ! 1)) \<and> length (tagram s) = 2"
proof -
  have r: "bc_step\<^sup>*\<^sup>* bc_start (bc_recvCredit bc_start 1)" by (rule r_into_rtranclp, rule bc_credit)
  have "\<not> (\<exists>es \<in> set (tagram (bc_recvCredit bc_start 1)). length es = 2 \<and> te_valid (es ! 1))"
    using BaseCache_uses_one_way [OF bc_start_fields(1) r, where k = 1] by fastforce
  moreover have "length (tagram (bc_recvCredit bc_start 1)) = 2" by (simp add: bc_recvCredit_def bc_start_fields)
  ultimately show ?thesis using r by blast
qed

text \<open>
  (C29) A miss on a full set is never served. \<open>evict\<close> writes the old line back but does not free its way, so
  when every way of the set is valid the register of the miss goes to \<open>EVICT\<close> and stays there: however
  often the miss handler runs, the line is not filled and the register is not freed. With one way per set
  this is what happens on the second line that maps to a set.
\<close>

theorem BaseCache_full_set_stalls:
  assumes "one_entry s req MS_RECV_WHOLE_LINE" "bc_shape s" "req < bc_next s"
    and "list_all te_valid (tagram s ! unat (bc_getIndex s (ma_address (bc_acc s req))))"
  shows "\<exists>s'. foldE (\<lambda>s _. handleMshr s) s (replicate (Suc n) ()) = Inr s' \<and> one_entry s' req MS_EVICT \<and> tagram s' = tagram s"
proof -
  have step: "\<exists>s'. handleMshr s = Inr s' \<and> one_entry s' req MS_EVICT \<and> bc_geo s' = bc_geo s \<and> bc_shape s' \<and> req < bc_next s'
      \<and> list_all te_valid (tagram s' ! unat (bc_getIndex s' (ma_address (bc_acc s' req))))"
    if "one_entry s req st" "st = MS_RECV_WHOLE_LINE \<or> st = MS_EVICT" "bc_shape s" "req < bc_next s"
      "list_all te_valid (tagram s ! unat (bc_getIndex s (ma_address (bc_acc s req))))" for s st
  proof -
    from handleMshr_stuck [OF that] obtain s' where
      s': "handleMshr s = Inr s'" "one_entry s' req MS_EVICT" "bc_geo s' = bc_geo s" "bc_shape s'"
        "bc_acc s' req = bc_acc s req" "req < bc_next s'" by blast
    moreover have "list_all te_valid (tagram s' ! unat (bc_getIndex s' (ma_address (bc_acc s' req))))"
      unfolding s'(5) bc_address_geo [OF s'(3)] by (rule that(5))
    ultimately show ?thesis by blast
  qed
  have "\<exists>s'. foldE (\<lambda>s _. handleMshr s) s (replicate (Suc n) ()) = Inr s' \<and> one_entry s' req MS_EVICT \<and> bc_geo s' = bc_geo s
      \<and> bc_shape s' \<and> req < bc_next s' \<and> list_all te_valid (tagram s' ! unat (bc_getIndex s' (ma_address (bc_acc s' req))))"
  proof (induction n)
    case 0
    from step [OF assms(1) _ assms(2-4)] show ?case by auto
  next
    case (Suc n)
    then obtain s1 where s1: "foldE (\<lambda>s _. handleMshr s) s (replicate (Suc n) ()) = Inr s1" "one_entry s1 req MS_EVICT"
      "bc_geo s1 = bc_geo s" "bc_shape s1" "req < bc_next s1"
      "list_all te_valid (tagram s1 ! unat (bc_getIndex s1 (ma_address (bc_acc s1 req))))" by blast
    have "replicate (Suc (Suc n)) () = replicate (Suc n) () @ [()]"
      using replicate_append_same [of "Suc n" "()"] by simp
    then have "foldE (\<lambda>s _. handleMshr s) s (replicate (Suc (Suc n)) ()) = handleMshr s1"
      using s1(1) by (simp only: foldE_snoc bindE_Inr)
    with step [OF s1(2) _ s1(4-6)] s1(3) show ?case by auto
  qed
  then show ?thesis by (auto simp: bc_geo_def)
qed

definition bc_full :: BaseCache where
  "bc_full = bc_start\<lparr>tagram := replicate 2 (replicate 2 \<lparr>te_tag = 8, te_access_time = 0, te_valid = True\<rparr>),
     mshr := \<lparr>mshr_queue = [\<lparr>me_addr = 0, me_req = Some 0, me_status = MS_RECV_WHOLE_LINE, me_valid = True\<rparr>],
       mshr_qsize = 1, mshr_used = 1, mshr_header = 0, mshr_tail = 0\<rparr>, bc_next := 1\<rparr>"

theorem BaseCache_full_set_stalls_witness:
  "\<exists>s'. foldE (\<lambda>s _. handleMshr s) bc_full (replicate 1000 ()) = Inr s' \<and> one_entry s' 0 MS_EVICT"
proof -
  have sh: "bc_shape bc_full" using bc_start_shape by (simp add: bc_full_def bc_shape_def bc_geometry_def bc_start_fields)
  have e: "one_entry bc_full 0 MS_RECV_WHOLE_LINE" "0 < bc_next bc_full"
    by (simp_all add: bc_full_def one_entry_def mshr_wf_def)
  have "tagram bc_full ! unat (bc_getIndex bc_full a) \<in> set (tagram bc_full)" for a
    using bc_shape_index(2) [OF sh] by simp
  then have "list_all te_valid (tagram bc_full ! unat (bc_getIndex bc_full a))" for a
    by (auto simp: bc_full_def list_all_iff)
  from BaseCache_full_set_stalls [OF e(1) sh e(2) this, of 999] show ?thesis by auto
qed

text \<open>
  (C37) Splitting an address loses nothing but the offset: for every cache the constructor accepts, the
  index is a set of the cache, and two addresses agree in tag and index exactly when they lie in the same
  line.
\<close>

theorem BaseCache_address_split:
  assumes "mk_BaseCache p rnd = Inr s"
  shows "\<exists>cb. unat (cacheline_size s) = 2 ^ cb \<and> (\<forall>a. bc_getIndex s a < set_num s)
    \<and> (\<forall>a b. bc_getTag s a = bc_getTag s b \<and> bc_getIndex s a = bc_getIndex s b \<longleftrightarrow> drop_bit cb a = drop_bit cb b)"
proof -
  obtain cb ib where g: "bc_geometry cb ib s" using mk_BaseCache_geometry [OF assms] by blast
  have "unat (cacheline_size s) = 2 ^ cb" using g by (simp add: bc_geometry_def)
  then show ?thesis using bc_getIndex_less [OF g] same_line_iff [OF g] by blast
qed

theorem BaseCache_address_split_witness:
  "\<exists>cb. unat (cacheline_size bc_start) = 2 ^ cb \<and> (\<forall>a. bc_getIndex bc_start a < 2)"
  using BaseCache_address_split [OF bc_start_fields(1)] by (auto simp: bc_start_fields)

end
