(* ===== verification/Memory_Models.thy ===== *)
theory Memory_Models
  imports Base_Cache
begin

text \<open>
  \<open>uncore/memory\<close>: the three memories behind the caches. \<open>AbstractMemory\<close> answers after a fixed latency,
  \<open>BaseMemory\<close> is an array of bytes, \<open>DRAMsim3\<close> queues requests for an external DRAM simulator.
\<close>

section \<open>AbstractMemory\<close>

record AbstractMemroy =
  am_access_latency :: u32
  am_upstream_access_ports_num :: u32

datatype am_effect =
    am_mem_resp_out MemAccInfoGroup
  | am_out_upstream_credit Credit
  | am_ev_handle_mem_req MemAccInfoGroup u32

definition mk_AbstractMemroy :: "u32 \<Rightarrow> u32 \<Rightarrow> AbstractMemroy" where
  "mk_AbstractMemroy latency ports = \<lparr>am_access_latency = latency, am_upstream_access_ports_num = ports\<rparr>"

definition am_SendInitCredit :: "AbstractMemroy \<Rightarrow> am_effect list" where
  "am_SendInitCredit s = [am_out_upstream_credit (ucast (am_upstream_access_ports_num s))]"

definition am_receive_mem_req :: "AbstractMemroy \<Rightarrow> MemAccInfoGroup \<Rightarrow> am_effect list result" where
  "am_receive_mem_req s reqs =
     bindE (assertE (length reqs \<le> unat (am_upstream_access_ports_num s)) (SpartaAssert ''requests''))
     (\<lambda>_. Inr [am_ev_handle_mem_req reqs (am_access_latency s)])"

definition am_handle_mem_req :: "AbstractMemroy \<Rightarrow> MemAccInfoGroup \<Rightarrow> am_effect list result" where
  "am_handle_mem_req s reqs =
     bindE (assertE (length reqs \<le> unat (am_upstream_access_ports_num s)) (SpartaAssert ''requests''))
     (\<lambda>_. Inr [am_mem_resp_out reqs, am_out_upstream_credit (word_of_nat (length reqs))])"

section \<open>BaseMemory\<close>

record BaseMemory =
  bm_base_address :: u64
  bm_length :: u64
  bm_memory :: "u8 list"

text \<open>The new array is not initialised: \<open>garbage\<close> is what it holds.\<close>

definition mk_BaseMemory :: "u64 \<Rightarrow> u64 \<Rightarrow> (nat \<Rightarrow> u8) \<Rightarrow> BaseMemory" where
  "mk_BaseMemory base len garbage =
     \<lparr>bm_base_address = base, bm_length = len, bm_memory = map garbage [0..<unat len]\<rparr>"

definition bm_size :: "BaseMemory \<Rightarrow> u64" where
  "bm_size m = bm_length m"

definition isInRange :: "BaseMemory \<Rightarrow> u64 \<Rightarrow> bool" where
  "isInRange m address \<longleftrightarrow> address > bm_base_address m \<and> address < bm_base_address m + bm_length m"

definition bm_offset :: "BaseMemory \<Rightarrow> u64 \<Rightarrow> nat" where
  "bm_offset m address = unat (address - bm_base_address m)"

text \<open>\<open>Read\<close> hands out a pointer into the array: an offset.\<close>

definition bm_Read :: "BaseMemory \<Rightarrow> u64 \<Rightarrow> u64 \<Rightarrow> nat result" where
  "bm_Read m address len = bindE (assertE (isInRange m address) (CAssert ''isInRange'')) (\<lambda>_. Inr (bm_offset m address))"

definition le_value :: "u8 list \<Rightarrow> nat" where
  "le_value bs = horner_sum unat 256 bs"

definition bm_load :: "BaseMemory \<Rightarrow> u64 \<Rightarrow> nat \<Rightarrow> u8 list result" where
  "bm_load m address n =
     bindE (assertE (isInRange m address) (CAssert ''isInRange''))
     (\<lambda>_. if bm_offset m address + n \<le> length (bm_memory m) then Inr (take n (drop (bm_offset m address) (bm_memory m)))
          else Inl (Undefined ''read past the array''))"

definition ReadDouble :: "BaseMemory \<Rightarrow> u64 \<Rightarrow> u64 result" where
  "ReadDouble m address = bindE (bm_load m address 8) (\<lambda>bs. Inr (word_of_nat (le_value bs)))"

definition ReadWord :: "BaseMemory \<Rightarrow> u64 \<Rightarrow> u32 result" where
  "ReadWord m address = bindE (bm_load m address 4) (\<lambda>bs. Inr (word_of_nat (le_value bs)))"

definition ReadHalf :: "BaseMemory \<Rightarrow> u64 \<Rightarrow> u16 result" where
  "ReadHalf m address = bindE (bm_load m address 2) (\<lambda>bs. Inr (word_of_nat (le_value bs)))"

definition ReadByte :: "BaseMemory \<Rightarrow> u64 \<Rightarrow> u8 result" where
  "ReadByte m address = bindE (bm_load m address 1) (\<lambda>bs. Inr (word_of_nat (le_value bs)))"

definition bm_store :: "BaseMemory \<Rightarrow> u64 \<Rightarrow> u8 list \<Rightarrow> BaseMemory result" where
  "bm_store m address bs =
     (let k = bm_offset m address in
      if k + length bs \<le> length (bm_memory m)
      then Inr (m\<lparr>bm_memory := take k (bm_memory m) @ bs @ drop (k + length bs) (bm_memory m)\<rparr>)
      else Inl (Undefined ''write past the array''))"

text \<open>\<open>Write\<close> copies \<open>len\<close> bytes of the buffer it is given.\<close>

definition bm_Write :: "BaseMemory \<Rightarrow> u64 \<Rightarrow> u8 list \<Rightarrow> u64 \<Rightarrow> BaseMemory result" where
  "bm_Write m address data len =
     bindE (assertE (isInRange m address) (CAssert ''isInRange''))
     (\<lambda>_. if unat len \<le> length data then bm_store m address (take (unat len) data)
          else Inl (Undefined ''read past the buffer''))"

text \<open>
  The typed writes copy from \<open>&data\<close> to \<open>&data + n\<close>, where \<open>n\<close> is the size of the type in bytes but the
  pointer counts objects: for \<open>n > 1\<close> the range lies past the argument.
\<close>

definition copy_from_argument :: "nat \<Rightarrow> u8 \<Rightarrow> u8 list result" where
  "copy_from_argument n low = (if n = 1 then Inr [low] else Inl (Undefined ''read past the argument''))"

definition WriteDouble :: "BaseMemory \<Rightarrow> u64 \<Rightarrow> u64 \<Rightarrow> BaseMemory result" where
  "WriteDouble m address data =
     bindE (assertE (isInRange m address) (CAssert ''isInRange''))
     (\<lambda>_. bindE (copy_from_argument (64 div 8) (ucast data)) (bm_store m address))"

definition WriteWord :: "BaseMemory \<Rightarrow> u64 \<Rightarrow> u32 \<Rightarrow> BaseMemory result" where
  "WriteWord m address data =
     bindE (assertE (isInRange m address) (CAssert ''isInRange''))
     (\<lambda>_. bindE (copy_from_argument (32 div 8) (ucast data)) (bm_store m address))"

definition WriteHalf :: "BaseMemory \<Rightarrow> u64 \<Rightarrow> u16 \<Rightarrow> BaseMemory result" where
  "WriteHalf m address data =
     bindE (assertE (isInRange m address) (CAssert ''isInRange''))
     (\<lambda>_. bindE (copy_from_argument (16 div 8) (ucast data)) (bm_store m address))"

definition WriteByte :: "BaseMemory \<Rightarrow> u64 \<Rightarrow> u8 \<Rightarrow> BaseMemory result" where
  "WriteByte m address data =
     bindE (assertE (isInRange m address) (CAssert ''isInRange''))
     (\<lambda>_. bindE (copy_from_argument (8 div 8) (ucast data)) (bm_store m address))"

section \<open>DRAMsim3\<close>

text \<open>
  The DRAM simulator is a library: \<open>will\<close> and \<open>add\<close> are its acceptance test and its transaction call, on a
  state \<open>'d\<close>. An entry of the queue is a pointer that may be null.
\<close>

record 'd DRAMsim3 =
  dr_access_latency :: u32
  dr_upstream_access_ports_num :: u32
  dr_memory_system :: 'd
  dr_memory_req_queue :: "MemAccInfo option list"
  dr_memory_req_queue_num :: u64
  dr_last_write :: bool
  dr_get_next :: bool

datatype dr_effect =
    dr_mem_resp_out MemAccInfo
  | dr_out_upstream_credit Credit
  | DRAM_clk_event nat

text \<open>
  Members are initialised in the order of their declaration: the queue is sized with
  \<open>memory_req_queue_num\<close> before that member gets its value 8, so its initial size is \<open>garbage\<close>. Its
  elements are null pointers.
\<close>

definition mk_DRAMsim3 :: "u32 \<Rightarrow> u32 \<Rightarrow> 'd \<Rightarrow> nat \<Rightarrow> 'd DRAMsim3" where
  "mk_DRAMsim3 latency ports system garbage =
     \<lparr>dr_access_latency = latency, dr_upstream_access_ports_num = ports, dr_memory_system = system,
      dr_memory_req_queue = replicate garbage None, dr_memory_req_queue_num = 8, dr_last_write = False,
      dr_get_next = True\<rparr>"

definition dr_SendInitCredit :: "'d DRAMsim3 \<Rightarrow> dr_effect list" where
  "dr_SendInitCredit s = [dr_out_upstream_credit (ucast (dr_upstream_access_ports_num s))]"

definition dr_receive_one :: "('d \<Rightarrow> u64 \<Rightarrow> bool \<Rightarrow> bool) \<Rightarrow> ('d \<Rightarrow> u64 \<Rightarrow> bool \<Rightarrow> 'd) \<Rightarrow> MemAccInfo \<Rightarrow> 'd DRAMsim3 \<Rightarrow> 'd DRAMsim3" where
  "dr_receive_one will add req s =
     (let w = (ma_mem_op req = MO_STORE);
          ok = will (dr_memory_system s) (ma_address req) w;
          s1 = s\<lparr>dr_last_write := w, dr_get_next := ok\<rparr>
      in if ok \<and> length (dr_memory_req_queue s1) < unat (dr_memory_req_queue_num s1)
         then s1\<lparr>dr_memory_system := add (dr_memory_system s1) (ma_address req) w,
                 dr_memory_req_queue := dr_memory_req_queue s1 @ [Some (mk_MemAccInfo\<lparr>ma_address := ma_address req\<rparr>)]\<rparr>
         else s1)"

definition dr_receive_mem_req :: "('d \<Rightarrow> u64 \<Rightarrow> bool \<Rightarrow> bool) \<Rightarrow> ('d \<Rightarrow> u64 \<Rightarrow> bool \<Rightarrow> 'd) \<Rightarrow> 'd DRAMsim3 \<Rightarrow> MemAccInfo list
    \<Rightarrow> ('d DRAMsim3 \<times> dr_effect list) result" where
  "dr_receive_mem_req will add s reqs =
     bindE (assertE (length reqs \<le> unat (dr_upstream_access_ports_num s)) (SpartaAssert ''requests''))
     (\<lambda>_. Inr (fold (dr_receive_one will add) reqs s, [DRAM_clk_event 1]))"

text \<open>Both callbacks look for the first entry with the address.\<close>

fun dr_take :: "u64 \<Rightarrow> MemAccInfo option list \<Rightarrow> (MemAccInfo option \<times> MemAccInfo option list) result" where
  "dr_take addr [] = Inr (None, [])"
| "dr_take addr (e # q) =
     (case e of
        None \<Rightarrow> Inl (Undefined ''null access pointer'')
      | Some x \<Rightarrow> if ma_address x = addr then Inr (Some x, q)
                  else bindE (dr_take addr q) (\<lambda>(r, q'). Inr (r, e # q')))"

definition dr_Read_CallBack :: "'d DRAMsim3 \<Rightarrow> u64 \<Rightarrow> ('d DRAMsim3 \<times> dr_effect list) result" where
  "dr_Read_CallBack s addr =
     bindE (dr_take addr (dr_memory_req_queue s))
     (\<lambda>(r, q). Inr (s\<lparr>dr_memory_req_queue := q\<rparr>,
        (case r of None \<Rightarrow> [] | Some x \<Rightarrow> [dr_mem_resp_out x])
        @ (if length q < unat (dr_memory_req_queue_num s)
           then [dr_out_upstream_credit (if r = None then 0 else 1)] else [])))"

definition dr_Write_CallBack :: "'d DRAMsim3 \<Rightarrow> u64 \<Rightarrow> ('d DRAMsim3 \<times> dr_effect list) result" where
  "dr_Write_CallBack s addr =
     bindE (dr_take addr (dr_memory_req_queue s))
     (\<lambda>(r, q). Inr (s\<lparr>dr_memory_req_queue := q\<rparr>,
        (case r of None \<Rightarrow> [] | Some x \<Rightarrow> [dr_mem_resp_out x])
        @ (if length q < unat (dr_memory_req_queue_num s)
           then [dr_out_upstream_credit (if r = None then 0 else 1)] else [])))"

text \<open>
  One tick: \<open>tick\<close> is the library's clock, which reports the transactions it completes (written or read)
  through the callbacks.
\<close>

definition dr_callback :: "'d DRAMsim3 \<times> dr_effect list \<Rightarrow> bool \<times> u64 \<Rightarrow> ('d DRAMsim3 \<times> dr_effect list) result" where
  "dr_callback x c = (case c of (w, addr) \<Rightarrow>
     bindE (if w then dr_Write_CallBack (fst x) addr else dr_Read_CallBack (fst x) addr)
     (\<lambda>(s, effs). Inr (s, snd x @ effs)))"

definition dr_ClockTick :: "('d \<Rightarrow> 'd \<times> (bool \<times> u64) list) \<Rightarrow> 'd DRAMsim3 \<Rightarrow> ('d DRAMsim3 \<times> dr_effect list) result" where
  "dr_ClockTick tick s =
     (case tick (dr_memory_system s) of (d, done) \<Rightarrow>
        bindE (foldE dr_callback (s\<lparr>dr_memory_system := d\<rparr>, []) done)
        (\<lambda>(s1, effs). Inr (s1, effs @ (if dr_memory_req_queue s1 \<noteq> [] then [DRAM_clk_event 1] else []))))"

section \<open>Bytes of BaseMemory\<close>

text \<open>The array has the length the object was built with, and the address range does not wrap around.\<close>

definition bm_wf :: "BaseMemory \<Rightarrow> bool" where
  "bm_wf m \<longleftrightarrow> length (bm_memory m) = unat (bm_length m)
     \<and> unat (bm_base_address m) + unat (bm_length m) < 2 ^ 64"

lemma mk_BaseMemory_wf:
  "unat base + unat len < 2 ^ 64 \<Longrightarrow> bm_wf (mk_BaseMemory base len garbage)"
  by (simp add: bm_wf_def mk_BaseMemory_def)

lemma isInRange_unat:
  assumes "bm_wf m"
  shows "isInRange m a \<longleftrightarrow> unat (bm_base_address m) < unat a
    \<and> unat a < unat (bm_base_address m) + unat (bm_length m)"
  using assms by (simp add: isInRange_def bm_wf_def word_less_nat_alt unat_word_ariths)

lemma bm_offset_unat:
  "bm_base_address m \<le> a \<Longrightarrow> bm_offset m a = unat a - unat (bm_base_address m)"
  by (simp add: bm_offset_def unat_sub)

lemma isInRange_offset:
  assumes "bm_wf m" "isInRange m a"
  shows "0 < bm_offset m a" "bm_offset m a < length (bm_memory m)"
proof -
  have "bm_base_address m \<le> a" using assms(2) by (simp add: isInRange_def order_less_imp_le)
  then have "bm_offset m a = unat a - unat (bm_base_address m)" by (rule bm_offset_unat)
  with assms show "0 < bm_offset m a" "bm_offset m a < length (bm_memory m)"
    by (auto simp: isInRange_unat bm_wf_def)
qed

lemma bm_store_keeps:
  assumes "bm_store m a bs = Inr m'"
  shows "bm_base_address m' = bm_base_address m" "bm_length m' = bm_length m"
    "length (bm_memory m') = length (bm_memory m)" "isInRange m' b = isInRange m b"
    "bm_offset m' b = bm_offset m b" "bm_wf m' = bm_wf m"
  using assms by (auto simp: bm_store_def Let_def isInRange_def bm_offset_def bm_wf_def split: if_splits)

lemma bm_store_nth:
  assumes "bm_store m a bs = Inr m'" "i < length (bm_memory m)"
  shows "bm_memory m' ! i = (if bm_offset m a \<le> i \<and> i < bm_offset m a + length bs
    then bs ! (i - bm_offset m a) else bm_memory m ! i)"
  using assms by (auto simp: bm_store_def Let_def nth_append split: if_splits)

lemma bm_store_load:
  assumes "bm_store m a bs = Inr m'" "isInRange m a"
  shows "bm_load m' a (length bs) = Inr bs"
  using assms bm_store_keeps [OF assms(1)] by (auto simp: bm_load_def bm_store_def Let_def split: if_splits)

lemma bm_store_load_other:
  assumes "bm_store m a bs = Inr m'"
    "bm_offset m b + n \<le> bm_offset m a \<or> bm_offset m a + length bs \<le> bm_offset m b"
  shows "bm_load m' b n = bm_load m b n"
proof -
  note k = bm_store_keeps [OF assms(1)]
  have "take n (drop (bm_offset m b) (bm_memory m')) = take n (drop (bm_offset m b) (bm_memory m))"
    if "bm_offset m b + n \<le> length (bm_memory m)"
    using that k(3) assms(2) by (intro nth_equalityI) (auto simp: bm_store_nth [OF assms(1)])
  with k show ?thesis by (auto simp: bm_load_def assertE_def)
qed

lemma bm_Write_full:
  assumes "bm_wf m" "isInRange m a" "bm_offset m a + length bs \<le> unat (bm_length m)" "length bs < 2 ^ 64"
  shows "\<exists>m'. bm_Write m a bs (word_of_nat (length bs)) = Inr m' \<and> bm_store m a bs = Inr m'"
proof -
  have "unat (word_of_nat (length bs) :: u64) = length bs"
    using assms(4) by (simp add: unat_of_nat take_bit_nat_eq_self)
  with assms show ?thesis by (auto simp: bm_Write_def bm_store_def bm_wf_def Let_def)
qed

lemma le_value_bound: "le_value bs < 256 ^ length bs"
proof (induction bs)
  case (Cons b bs)
  have "unat b < 256" using unsigned_less [of b] by simp
  with Cons show ?case by (simp add: le_value_def)
qed (simp add: le_value_def)

text \<open>
  (C30) \<open>BaseMemory::Write\<close> followed by \<open>ReadDouble\<close> at the same address returns the eight bytes written, least
  significant first; \<open>ReadByte\<close> at every other in-range address outside the eight returns what it returned
  before.
\<close>

theorem BaseMemory_write_read:
  assumes "bm_wf m" "isInRange m a" "unat a + 8 \<le> unat (bm_base_address m) + unat (bm_length m)" "length bs = 8"
  shows "\<exists>m'. bm_Write m a bs 8 = Inr m' \<and> bm_wf m'
    \<and> (\<exists>v. ReadDouble m' a = Inr v \<and> unat v = (\<Sum>i<8. unat (bs ! i) * 256 ^ i))
    \<and> (\<forall>b. isInRange m b \<and> (b < a \<or> unat a + 8 \<le> unat b) \<longrightarrow> ReadByte m' b = ReadByte m b)"
proof -
  have le: "bm_base_address m \<le> a" using assms(2) by (simp add: isInRange_def order_less_imp_le)
  have off: "bm_offset m a + 8 \<le> unat (bm_length m)"
    using assms(3) le by (simp add: bm_offset_unat word_le_nat_alt)
  obtain m' where m': "bm_Write m a bs 8 = Inr m'" "bm_store m a bs = Inr m'"
    using bm_Write_full [OF assms(1,2), of bs] off assms(4) by auto
  have v: "le_value bs < 2 ^ 64" using le_value_bound [of bs] assms(4) by simp
  have sum: "le_value bs = (\<Sum>i<8. unat (bs ! i) * 256 ^ i)"
    using assms(4) by (simp add: le_value_def horner_sum_eq_sum atLeast0LessThan)
  have "ReadDouble m' a = Inr (word_of_nat (le_value bs))"
    using bm_store_load [OF m'(2) assms(2)] assms(4) by (simp add: ReadDouble_def)
  moreover have "unat (word_of_nat (le_value bs) :: u64) = le_value bs"
    using v by (simp add: unat_of_nat take_bit_nat_eq_self)
  moreover have "ReadByte m' b = ReadByte m b" if "isInRange m b" "b < a \<or> unat a + 8 \<le> unat b" for b
  proof -
    have "bm_base_address m \<le> b" using that(1) by (simp add: isInRange_def order_less_imp_le)
    then have "bm_offset m b + 1 \<le> bm_offset m a \<or> bm_offset m a + length bs \<le> bm_offset m b"
      using that(2) le assms(4) by (auto simp: bm_offset_unat word_le_nat_alt word_less_nat_alt)
    then show ?thesis using bm_store_load_other [OF m'(2)] by (simp add: ReadByte_def)
  qed
  ultimately show ?thesis using m'(1) bm_store_keeps(6) [OF m'(2)] assms(1) sum by auto
qed

definition demo_memory :: BaseMemory where
  "demo_memory = mk_BaseMemory 0x80000000 16 (\<lambda>_. 0)"

lemma demo_memory_wf: "bm_wf demo_memory"
  unfolding demo_memory_def by (rule mk_BaseMemory_wf) simp

lemma demo_memory_fields: "bm_base_address demo_memory = 0x80000000" "bm_length demo_memory = 16"
  by (simp_all add: demo_memory_def mk_BaseMemory_def)

lemma sum_lessThan_8: "(\<Sum>i<(8::nat). f i) = f 0 + f 1 + f 2 + f 3 + f 4 + f 5 + f 6 + (f 7 :: nat)"
  by (simp add: eval_nat_numeral)

theorem BaseMemory_write_read_witness:
  "\<exists>m'. bm_Write demo_memory 0x80000004 [1, 2, 0, 0, 0, 0, 0, 0] 8 = Inr m'
    \<and> (\<exists>v. ReadDouble m' 0x80000004 = Inr v \<and> unat v = 513)"
proof -
  have "isInRange demo_memory 0x80000004" by (simp add: isInRange_def demo_memory_fields)
  from BaseMemory_write_read [OF demo_memory_wf this, of "[1, 2, 0, 0, 0, 0, 0, 0]"]
  show ?thesis unfolding sum_lessThan_8 by (auto simp: demo_memory_fields)
qed

text \<open>
  The typed writes of \<open>BaseMemory\<close> wider than a byte have no defined outcome at any address the range
  check accepts; \<open>WriteByte\<close> succeeds and is read back by \<open>ReadByte\<close>; the first byte of the memory, at the base
  address itself, is rejected by every access.
\<close>

theorem BaseMemory_typed_writes:
  assumes "bm_wf m" "isInRange m a"
  shows "WriteDouble m a d = Inl (Undefined ''read past the argument'')
    \<and> WriteWord m a w = Inl (Undefined ''read past the argument'')
    \<and> WriteHalf m a h = Inl (Undefined ''read past the argument'')
    \<and> (\<exists>m'. WriteByte m a x = Inr m' \<and> bm_wf m' \<and> ReadByte m' a = Inr x)
    \<and> ReadByte m (bm_base_address m) = Inl (CAssert ''isInRange'')
    \<and> WriteByte m (bm_base_address m) x = Inl (CAssert ''isInRange'')"
proof -
  have "\<exists>m'. bm_store m a [x] = Inr m'"
    using isInRange_offset(2) [OF assms] by (auto simp: bm_store_def Let_def)
  then obtain m' where m': "bm_store m a [x] = Inr m'" by blast
  with bm_store_load [OF m' assms(2)] bm_store_keeps(6) [OF m'] assms
  have "WriteByte m a x = Inr m'" "bm_wf m'" "ReadByte m' a = Inr x"
    by (simp_all add: WriteByte_def copy_from_argument_def ReadByte_def le_value_def)
  moreover have "ReadByte m (bm_base_address m) = Inl (CAssert ''isInRange'')
      \<and> WriteByte m (bm_base_address m) x = Inl (CAssert ''isInRange'')"
    by (simp add: ReadByte_def WriteByte_def bm_load_def isInRange_def)
  ultimately show ?thesis
    using assms(2) by (simp add: WriteDouble_def WriteWord_def WriteHalf_def copy_from_argument_def)
qed

theorem BaseMemory_typed_writes_witness:
  "WriteWord demo_memory 0x80000004 7 = Inl (Undefined ''read past the argument'')
   \<and> (\<exists>m'. WriteByte demo_memory 0x80000004 7 = Inr m' \<and> ReadByte m' 0x80000004 = Inr 7)
   \<and> ReadByte demo_memory 0x80000000 = Inl (CAssert ''isInRange'')"
proof -
  have "isInRange demo_memory 0x80000004" by (simp add: isInRange_def demo_memory_fields)
  from BaseMemory_typed_writes [OF demo_memory_wf this, where x = 7 and w = 7 and d = 0 and h = 0]
  show ?thesis by (auto simp: demo_memory_fields)
qed

section \<open>The queue of DRAMsim3\<close>

text \<open>Every outstanding entry came from a request: it holds an address and nothing else.\<close>

definition dr_entry :: "u64 \<Rightarrow> MemAccInfo" where
  "dr_entry addr = mk_MemAccInfo\<lparr>ma_address := addr\<rparr>"

definition dr_inv :: "'d DRAMsim3 \<Rightarrow> bool" where
  "dr_inv s \<longleftrightarrow> (\<exists>as. dr_memory_req_queue s = map (\<lambda>a. Some (dr_entry a)) as)
     \<and> length (dr_memory_req_queue s) \<le> 8 \<and> dr_memory_req_queue_num s = 8"

lemma dr_entry_fields [simp]:
  "ma_address (dr_entry a) = a" "ma_mshrid (dr_entry a) = 0" "ma_mem_op (dr_entry a) = MO_NO_TYPE"
  by (simp_all add: dr_entry_def mk_MemAccInfo_def)

lemma dr_receive_one_inv: "dr_inv s \<Longrightarrow> dr_inv (dr_receive_one will add r s)"
proof (cases "will (dr_memory_system s) (ma_address r) (ma_mem_op r = MO_STORE) \<and> length (dr_memory_req_queue s) < 8")
  case True
  assume i: "dr_inv s"
  then obtain as where "dr_memory_req_queue s = map (\<lambda>a. Some (dr_entry a)) as" by (auto simp: dr_inv_def)
  then have "dr_memory_req_queue s @ [Some (dr_entry (ma_address r))] = map (\<lambda>a. Some (dr_entry a)) (as @ [ma_address r])"
    by simp
  then have "\<exists>as. dr_memory_req_queue s @ [Some (dr_entry (ma_address r))] = map (\<lambda>a. Some (dr_entry a)) as"
    by blast
  with i True show ?thesis
    by (simp add: dr_inv_def dr_receive_one_def Let_def dr_entry_def [symmetric])
qed (auto simp: dr_inv_def dr_receive_one_def Let_def)

lemma dr_receive_inv: "dr_inv s \<Longrightarrow> dr_inv (fold (dr_receive_one will add) rs s)"
  by (induction rs arbitrary: s) (simp_all add: dr_receive_one_inv)

lemma dr_take_entries:
  "dr_take a (map (\<lambda>a. Some (dr_entry a)) as)
    = Inr (if a \<in> set as then Some (dr_entry a) else None, map (\<lambda>a. Some (dr_entry a)) (remove1 a as))"
  by (induction as) auto

lemma dr_take_null: "q \<noteq> [] \<Longrightarrow> hd q = None \<Longrightarrow> dr_take a q = Inl (Undefined ''null access pointer'')"
  by (cases q) auto

lemma dr_callbacks_same: "dr_Write_CallBack s addr = dr_Read_CallBack s addr"
  by (simp add: dr_Write_CallBack_def dr_Read_CallBack_def)

text \<open>A callback answers the first outstanding access to the address, and returns one credit for it.\<close>

lemma dr_callback_answers:
  assumes "dr_inv s" "dr_memory_req_queue s = map (\<lambda>a. Some (dr_entry a)) as" "a \<in> set as"
  shows "dr_Read_CallBack s a = Inr (s\<lparr>dr_memory_req_queue := map (\<lambda>a. Some (dr_entry a)) (remove1 a as)\<rparr>,
    [dr_mem_resp_out (dr_entry a), dr_out_upstream_credit 1])"
proof -
  have "length as \<le> 8" "as \<noteq> []" using assms by (auto simp: dr_inv_def)
  then have "length (remove1 a as) < 8" using assms(3) by (simp add: length_remove1)
  with assms show ?thesis by (simp add: dr_Read_CallBack_def dr_take_entries dr_inv_def)
qed

lemma dr_callback_inv:
  assumes "dr_inv s"
  shows "\<exists>s' effs. dr_Read_CallBack s a = Inr (s', effs) \<and> dr_inv s'"
proof -
  obtain as where as: "dr_memory_req_queue s = map (\<lambda>a. Some (dr_entry a)) as" using assms by (auto simp: dr_inv_def)
  have l: "length (remove1 a as) \<le> length as" by (simp add: length_remove1)
  from assms as l show ?thesis
    by (auto simp: dr_Read_CallBack_def dr_take_entries dr_inv_def)
qed

text \<open>One clock tick over any list of completed transactions keeps the invariant and does not fail.\<close>

lemma dr_callbacks_fold:
  "dr_inv s \<Longrightarrow> \<exists>s' effs'. foldE dr_callback (s, effs) dn = Inr (s', effs') \<and> dr_inv s'"
proof (induction dn arbitrary: s effs)
  case (Cons c dn)
  obtain s1 e1 where c: "dr_Read_CallBack s (snd c) = Inr (s1, e1)" "dr_inv s1"
    using dr_callback_inv [OF Cons.prems] by blast
  then have "dr_callback (s, effs) c = Inr (s1, effs @ e1)"
    by (cases c) (simp add: dr_callback_def dr_callbacks_same)
  with Cons.IH [OF c(2)] show ?case by simp
qed simp

lemma dr_ClockTick_inv:
  assumes "dr_inv s"
  shows "\<exists>s' effs. dr_ClockTick tick s = Inr (s', effs) \<and> dr_inv s'"
proof -
  obtain d dn where t: "tick (dr_memory_system s) = (d, dn)" by fastforce
  have "dr_inv (s\<lparr>dr_memory_system := d\<rparr>)" using assms by (simp add: dr_inv_def)
  from dr_callbacks_fold [OF this, of "[]" dn] obtain s' e
    where "foldE dr_callback (s\<lparr>dr_memory_system := d\<rparr>, []) dn = Inr (s', e)" "dr_inv s'" by blast
  with t show ?thesis by (simp add: dr_ClockTick_def)
qed

lemma dr_receive_single:
  "dr_upstream_access_ports_num s \<noteq> 0 \<Longrightarrow>
    dr_receive_mem_req will add s [r] = Inr (dr_receive_one will add r s, [DRAM_clk_event 1])"
  by (auto simp: dr_receive_mem_req_def Suc_le_eq unat_gt_0)

lemma dr_request_answered:
  assumes "dr_inv s" "length (dr_memory_req_queue s) < 8" "dr_upstream_access_ports_num s \<noteq> 0"
    and "will (dr_memory_system s) (ma_address r) (ma_mem_op r = MO_STORE)"
  shows "\<exists>s1 s2 x. dr_receive_mem_req will add s [r] = Inr (s1, [DRAM_clk_event 1]) \<and> dr_inv s1
    \<and> dr_memory_system s1 = add (dr_memory_system s) (ma_address r) (ma_mem_op r = MO_STORE)
    \<and> dr_Read_CallBack s1 (ma_address r) = Inr (s2, [dr_mem_resp_out x, dr_out_upstream_credit 1])
    \<and> dr_Write_CallBack s1 (ma_address r) = Inr (s2, [dr_mem_resp_out x, dr_out_upstream_credit 1])
    \<and> ma_address x = ma_address r \<and> ma_mshrid x = 0
    \<and> dr_inv s2 \<and> length (dr_memory_req_queue s2) = length (dr_memory_req_queue s)"
proof -
  define s1 where "s1 = dr_receive_one will add r s"
  have i1: "dr_inv s1" unfolding s1_def by (rule dr_receive_one_inv [OF assms(1)])
  obtain as where as: "dr_memory_req_queue s = map (\<lambda>a. Some (dr_entry a)) as" using assms(1) by (auto simp: dr_inv_def)
  have q: "dr_memory_req_queue s1 = map (\<lambda>a. Some (dr_entry a)) (as @ [ma_address r])"
    "dr_memory_system s1 = add (dr_memory_system s) (ma_address r) (ma_mem_op r = MO_STORE)"
    using assms as by (simp_all add: s1_def dr_receive_one_def Let_def dr_inv_def dr_entry_def)
  let ?s2 = "s1\<lparr>dr_memory_req_queue := map (\<lambda>a. Some (dr_entry a)) (remove1 (ma_address r) (as @ [ma_address r]))\<rparr>"
  have c: "dr_Read_CallBack s1 (ma_address r)
      = Inr (?s2, [dr_mem_resp_out (dr_entry (ma_address r)), dr_out_upstream_credit 1])"
    by (rule dr_callback_answers [OF i1 q(1)]) simp
  with dr_callback_inv [OF i1, of "ma_address r"] have "dr_inv ?s2" by auto
  moreover have "length (dr_memory_req_queue ?s2) = length (dr_memory_req_queue s)"
    using as by (simp add: length_remove1)
  ultimately show ?thesis
    using c i1 q(2) dr_receive_single [OF assms(3), of will add r] unfolding s1_def [symmetric] dr_callbacks_same
    by (intro exI [of _ s1] exI [of _ ?s2] exI [of _ "dr_entry (ma_address r)"]) simp
qed

text \<open>
  A request the DRAM simulator accepts while the queue has room is answered: when the simulator reports
  the address, read or written, one response for it goes upstream with one credit, and the queue is back to
  its length. The response is a fresh access that carries the address and nothing else of the request: its
  register number is 0.
\<close>

theorem DRAMsim3_request_answered:
  assumes "dr_inv s" "length (dr_memory_req_queue s) < 8" "dr_upstream_access_ports_num s \<noteq> 0"
    and "will (dr_memory_system s) (ma_address r) (ma_mem_op r = MO_STORE)"
  shows "\<exists>s1 s2 x. dr_receive_mem_req will add s [r] = Inr (s1, [DRAM_clk_event 1]) \<and> dr_inv s1
    \<and> dr_memory_system s1 = add (dr_memory_system s) (ma_address r) (ma_mem_op r = MO_STORE)
    \<and> dr_Read_CallBack s1 (ma_address r) = Inr (s2, [dr_mem_resp_out x, dr_out_upstream_credit 1])
    \<and> dr_Write_CallBack s1 (ma_address r) = Inr (s2, [dr_mem_resp_out x, dr_out_upstream_credit 1])
    \<and> ma_address x = ma_address r \<and> ma_mshrid x = 0
    \<and> dr_inv s2 \<and> length (dr_memory_req_queue s2) = length (dr_memory_req_queue s)"
  by (rule dr_request_answered [where will = will and r = r, OF assms])

text \<open>A simulator that accepts everything and records it.\<close>

definition demo_add :: "(u64 \<times> bool) list \<Rightarrow> u64 \<Rightarrow> bool \<Rightarrow> (u64 \<times> bool) list" where
  "demo_add d a w = d @ [(a, w)]"

theorem DRAMsim3_request_answered_witness:
  "\<exists>s1 s2 x. dr_receive_mem_req (\<lambda>_ _ _. True) demo_add (mk_DRAMsim3 5 1 [] 0) [dr_entry 64] = Inr (s1, [DRAM_clk_event 1])
    \<and> dr_memory_system s1 = [(64, False)]
    \<and> dr_Read_CallBack s1 64 = Inr (s2, [dr_mem_resp_out x, dr_out_upstream_credit 1]) \<and> ma_address x = 64"
proof -
  have "dr_inv (mk_DRAMsim3 5 1 ([] :: (u64 \<times> bool) list) 0)" by (simp add: dr_inv_def mk_DRAMsim3_def)
  from DRAMsim3_request_answered [OF this, of "\<lambda>_ _ _. True" "dr_entry 64" demo_add]
  show ?thesis by (auto simp: mk_DRAMsim3_def demo_add_def)
qed

section \<open>A queue that starts with null pointers\<close>

lemma dr_receive_full:
  assumes "8 \<le> length (dr_memory_req_queue s)" "dr_memory_req_queue_num s = 8"
  shows "dr_memory_req_queue (fold (dr_receive_one will add) rs s) = dr_memory_req_queue s
    \<and> dr_memory_system (fold (dr_receive_one will add) rs s) = dr_memory_system s"
  using assms
proof (induction rs arbitrary: s)
  case (Cons r rs)
  have "dr_memory_req_queue (dr_receive_one will add r s) = dr_memory_req_queue s"
    "dr_memory_system (dr_receive_one will add r s) = dr_memory_system s"
    "dr_memory_req_queue_num (dr_receive_one will add r s) = 8"
    using Cons.prems by (simp_all add: dr_receive_one_def Let_def)
  with Cons.IH [of "dr_receive_one will add r s"] Cons.prems show ?case by simp
qed simp

lemma dr_receive_prefix:
  "\<exists>q. dr_memory_req_queue (fold (dr_receive_one will add) rs s) = dr_memory_req_queue s @ q"
proof (induction rs arbitrary: s)
  case (Cons r rs)
  have "\<exists>q. dr_memory_req_queue (dr_receive_one will add r s) = dr_memory_req_queue s @ q"
    by (simp add: dr_receive_one_def Let_def)
  with Cons.IH [of "dr_receive_one will add r s"] show ?case by auto
qed simp

text \<open>
  The constructor sizes the request queue with a member that has no value yet. Whatever positive size
  results, the first reported transaction dereferences a null pointer, after any requests; and when the size
  is 8 or more, no request is ever handed to the simulator, and none of them is answered.
\<close>

theorem DRAMsim3_uninitialised_size:
  assumes "0 < garbage" "length reqs \<le> unat ports"
  shows "\<exists>s1. dr_receive_mem_req will add (mk_DRAMsim3 latency ports d garbage) reqs = Inr (s1, [DRAM_clk_event 1])
    \<and> dr_Read_CallBack s1 a = Inl (Undefined ''null access pointer'')
    \<and> dr_Write_CallBack s1 a = Inl (Undefined ''null access pointer'')
    \<and> (8 \<le> garbage \<longrightarrow> dr_memory_system s1 = d \<and> dr_memory_req_queue s1 = replicate garbage None)"
proof -
  let ?s = "mk_DRAMsim3 latency ports d garbage"
  define s1 where "s1 = fold (dr_receive_one will add) reqs ?s"
  have r: "dr_receive_mem_req will add ?s reqs = Inr (s1, [DRAM_clk_event 1])"
    using assms(2) by (simp add: dr_receive_mem_req_def s1_def mk_DRAMsim3_def)
  obtain q where "dr_memory_req_queue s1 = replicate garbage None @ q"
    using dr_receive_prefix [of will add reqs ?s] by (auto simp: s1_def mk_DRAMsim3_def)
  with assms(1) have "dr_take a (dr_memory_req_queue s1) = Inl (Undefined ''null access pointer'')"
    by (intro dr_take_null) (auto simp: hd_append)
  then have "dr_Read_CallBack s1 a = Inl (Undefined ''null access pointer'')" by (simp add: dr_Read_CallBack_def)
  moreover have "dr_memory_system s1 = d \<and> dr_memory_req_queue s1 = replicate garbage None" if "8 \<le> garbage"
    using dr_receive_full [of ?s will add reqs] that by (simp add: s1_def mk_DRAMsim3_def)
  ultimately show ?thesis using r dr_callbacks_same [of s1 a] by auto
qed

theorem DRAMsim3_uninitialised_size_witness:
  "\<exists>s1. dr_receive_mem_req (\<lambda>_ _ _. True) demo_add (mk_DRAMsim3 5 1 [] 8) [dr_entry 64] = Inr (s1, [DRAM_clk_event 1])
    \<and> dr_memory_system s1 = []"
  using DRAMsim3_uninitialised_size [of 8 "[dr_entry 64]" 1 "\<lambda>_ _ _. True" demo_add 5 "[]"] by auto

section \<open>AbstractMemory behind a cache\<close>

text \<open>A group that fits the ports comes back whole after the latency, with a credit for each access.\<close>

lemma am_answers:
  assumes "length reqs \<le> unat (am_upstream_access_ports_num s)"
  shows "am_receive_mem_req s reqs = Inr [am_ev_handle_mem_req reqs (am_access_latency s)]"
    "am_handle_mem_req s reqs = Inr [am_mem_resp_out reqs, am_out_upstream_credit (word_of_nat (length reqs))]"
  using assms by (simp_all add: am_receive_mem_req_def am_handle_mem_req_def)

end
