(* ===== verification/Data_Backup.thy ===== *)
theory Data_Backup
  imports Perseus_Prelude
begin

text \<open>
  \<open>utils/spikeInterface/src/DataBackup.hpp\<close> and the memory roll-back of \<open>spikeInterface.cpp\<close>: while the functional
  simulator runs down a mispredicted path, the old bytes of every store are logged, one vector per branch;
  the roll-back merges the log into one entry per aligned 8-byte word and writes the bytes back. The memory
  of the simulator is third-party code: a type \<open>'m\<close> with its load and store calls as arguments.
\<close>

unbundle bit_operations_syntax

section \<open>The log\<close>

record MemoryEntry =
  mb_addr :: u64
  mb_data :: u64
  mb_len :: u64
  mb_bit_mask :: u64

definition mk_MemoryEntry :: MemoryEntry where
  "mk_MemoryEntry = \<lparr>mb_addr = 0, mb_data = 0, mb_len = 0, mb_bit_mask = 0\<rparr>"

record 'a DataBackup =
  db_stable :: bool
  db_data_backup :: "'a list list"

definition mk_DataBackup :: "'a DataBackup" where
  "mk_DataBackup = \<lparr>db_stable = True, db_data_backup = []\<rparr>"

definition db_IsEmpty :: "'a DataBackup \<Rightarrow> bool" where
  "db_IsEmpty b \<longleftrightarrow> db_data_backup b = []"

definition db_MakeBackupEntry :: "'a DataBackup \<Rightarrow> 'a DataBackup result" where
  "db_MakeBackupEntry b =
     bindE (assertE (db_stable b) (CAssert ''stable_''))
     (\<lambda>_. Inr (b\<lparr>db_data_backup := db_data_backup b @ [[]]\<rparr>))"

definition db_Push :: "'a DataBackup \<Rightarrow> 'a \<Rightarrow> 'a DataBackup result" where
  "db_Push b x =
     bindE (assertE (db_stable b) (CAssert ''stable_''))
     (\<lambda>_. if db_data_backup b = [] then Inl (Undefined ''back of empty'')
          else Inr (b\<lparr>db_data_backup := butlast (db_data_backup b) @ [last (db_data_backup b) @ [x]]\<rparr>))"

definition db_Pop :: "'a DataBackup \<Rightarrow> 'a DataBackup result" where
  "db_Pop b =
     bindE (assertE (db_stable b) (CAssert ''stable_''))
     (\<lambda>_. bindE (deque_pop_front (db_data_backup b)) (\<lambda>d. Inr (b\<lparr>db_data_backup := d\<rparr>)))"

text \<open>\<open>dflt\<close> is the value-initialised \<open>T()\<close>, returned for an empty vector.\<close>

definition db_GetBackupEntry :: "'a \<Rightarrow> 'a DataBackup \<Rightarrow> ('a \<times> 'a DataBackup) result" where
  "db_GetBackupEntry dflt b =
     (let b = b\<lparr>db_stable := False\<rparr>; d = db_data_backup b in
      if d = [] then Inl (Undefined ''back of empty'')
      else if last d = [] then
        let d1 = butlast d in Inr (dflt, b\<lparr>db_data_backup := d1, db_stable := (if d1 = [] then True else db_stable b)\<rparr>)
      else
        let x = last (last d); v = butlast (last d);
            d1 = (if v = [] then butlast d else butlast d @ [v])
        in Inr (x, b\<lparr>db_data_backup := d1, db_stable := (if d1 = [] then True else db_stable b)\<rparr>))"

section \<open>Merging and restoring\<close>

definition rb_shift :: "u64 \<Rightarrow> nat" where
  "rb_shift addr = unat (addr mod 8 * 8)"

definition rb_mask :: "MemoryEntry \<Rightarrow> u64 result" where
  "rb_mask e =
     (if unat (64 - 8 * mb_len e) \<ge> 64 then Inl (Undefined ''shift count'')
      else Inr (push_bit (rb_shift (mb_addr e)) (drop_bit (unat (64 - 8 * mb_len e)) (- 1))))"

definition rb_merge :: "(u64, MemoryEntry) smap \<Rightarrow> MemoryEntry \<Rightarrow> (u64, MemoryEntry) smap result" where
  "rb_merge mp e0 =
     (if mb_addr e0 = 0 then Inr mp
      else let addr_offset = mb_addr e0 mod 8;
               e = e0\<lparr>mb_data := push_bit (rb_shift (mb_addr e0)) (mb_data e0)\<rparr>;
               addr_align = mb_addr e - addr_offset
           in bindE (rb_mask e)
              (\<lambda>new. case map_of mp addr_align of
                 Some old \<Rightarrow>
                   let overlap = new AND mb_bit_mask old;
                       new_excl = NOT overlap AND new;
                       old_excl = NOT overlap AND mb_bit_mask old;
                       final = new OR mb_bit_mask old
                   in bindE (assertE (mb_len old = 8) (CAssert ''len''))
                      (\<lambda>_. Inr (smap_set addr_align
                        (old\<lparr>mb_data := (old_excl AND mb_data old) OR (new_excl AND mb_data e) OR (overlap AND mb_data e),
                             mb_bit_mask := final\<rparr>) mp))
               | None \<Rightarrow> Inr (smap_set addr_align (e\<lparr>mb_bit_mask := new, mb_len := 8, mb_addr := addr_align\<rparr>) mp)))"

definition db_weight :: "'a DataBackup \<Rightarrow> nat" where
  "db_weight b = sum_list (map (\<lambda>v. Suc (length v)) (db_data_backup b))"

lemma db_weight_last:
  "d \<noteq> [] \<Longrightarrow> sum_list (map (\<lambda>v. Suc (length v)) d)
    = sum_list (map (\<lambda>v. Suc (length v)) (butlast d)) + Suc (length (last d))"
  by (induction d) auto

lemma db_GetBackupEntry_weight:
  "db_GetBackupEntry dflt b = Inr (x, b') \<Longrightarrow> db_weight b' < db_weight b"
  by (auto simp: db_GetBackupEntry_def db_weight_def Let_def db_weight_last split: if_splits)

function rb_collect :: "MemoryEntry DataBackup \<Rightarrow> (u64, MemoryEntry) smap
    \<Rightarrow> (MemoryEntry DataBackup \<times> (u64, MemoryEntry) smap) result" where
  "rb_collect b mp =
     (if db_IsEmpty b then Inr (b, mp)
      else case db_GetBackupEntry mk_MemoryEntry b of
        Inl err \<Rightarrow> Inl err
      | Inr (e, b1) \<Rightarrow>
          (case rb_merge mp e of Inl err \<Rightarrow> Inl err | Inr mp1 \<Rightarrow> rb_collect b1 mp1))"
  by auto

termination
  by (relation "measure (\<lambda>(b, mp). db_weight b)") (auto dest: db_GetBackupEntry_weight)

declare rb_collect.simps [simp del]

text \<open>
  The bytes of one word. \<open>st m a v\<close> is the simulator's store of one byte, \<open>ld m a n\<close> its load of \<open>n\<close> bytes; \<open>None\<close>
  is a memory trap, which leaves as an exception.
\<close>

fun rb_bytes :: "('m \<Rightarrow> u64 \<Rightarrow> u8 \<Rightarrow> 'm option) \<Rightarrow> MemoryEntry \<Rightarrow> nat list \<Rightarrow> 'm \<Rightarrow> 'm result" where
  "rb_bytes st e [] m = Inr m"
| "rb_bytes st e (i # js) m =
     (let data = drop_bit (i * 8) (mb_data e) AND 0xFF in
      if drop_bit (i * 8) (mb_bit_mask e) AND 0xFF = 0xFF
      then (case st m (mb_addr e + word_of_nat i) (ucast data) of
              None \<Rightarrow> Inl (Thrown ''mem_trap'')
            | Some m1 \<Rightarrow> rb_bytes st e js m1)
      else rb_bytes st e js m)"

definition rb_restore :: "('m \<Rightarrow> u64 \<Rightarrow> nat \<Rightarrow> u64 option) \<Rightarrow> ('m \<Rightarrow> u64 \<Rightarrow> u8 \<Rightarrow> 'm option) \<Rightarrow> 'm \<Rightarrow> 'm \<Rightarrow> MemoryEntry \<Rightarrow> 'm result" where
  "rb_restore ld st fast m e =
     (case ld fast (mb_addr e) 8 of
        None \<Rightarrow> Inl (Thrown ''mem_trap'')
      | Some mem_data \<Rightarrow>
          bindE (assertE (mem_data AND mb_bit_mask e = mb_data e) (CAssert ''mem_data''))
          (\<lambda>_. rb_bytes st e [0..<8] m))"

text \<open>
  The map is cleared at the end and was empty before. \<open>std::unordered_map\<close> promises no order of iteration; its entries are
  disjoint words, and the model goes through them by address.
\<close>

definition MemoryRollBack :: "('m \<Rightarrow> u64 \<Rightarrow> nat \<Rightarrow> u64 option) \<Rightarrow> ('m \<Rightarrow> u64 \<Rightarrow> u8 \<Rightarrow> 'm option) \<Rightarrow> 'm
    \<Rightarrow> MemoryEntry DataBackup \<Rightarrow> 'm \<Rightarrow> (MemoryEntry DataBackup \<times> 'm) result" where
  "MemoryRollBack ld st fast b m =
     bindE (rb_collect b [])
     (\<lambda>(b1, mp). bindE (foldE (rb_restore ld st fast) m (map snd mp)) (\<lambda>m1. Inr (b1, m1)))"

text \<open>What the hook before a store does on a mispredicted path.\<close>

definition backup_store :: "('m \<Rightarrow> u64 \<Rightarrow> nat \<Rightarrow> u64 option) \<Rightarrow> MemoryEntry DataBackup \<Rightarrow> 'm \<Rightarrow> u64 \<Rightarrow> u64
    \<Rightarrow> MemoryEntry DataBackup result" where
  "backup_store ld b m addr len =
     (if db_IsEmpty b then Inr b
      else bindE (assertE (len \<in> {1, 2, 4, 8}) (CAssert ''false''))
        (\<lambda>_. case ld m addr (unat len) of
             None \<Rightarrow> Inr b
           | Some bytes \<Rightarrow> db_Push b \<lparr>mb_addr = addr, mb_data = bytes, mb_len = len, mb_bit_mask = 0\<rparr>))"

section \<open>Bytes of a word\<close>

definition byte_at :: "u64 \<Rightarrow> nat \<Rightarrow> u8" where
  "byte_at w j = ucast (drop_bit (8 * j) w)"

lemma bit_byte_at: "bit (byte_at w j) n \<longleftrightarrow> n < 8 \<and> bit w (8 * j + n)"
  by (auto simp: byte_at_def bit_simps add.commute dest: bit_imp_le_length)

lemma byte_at_eqI:
  assumes "\<And>j. j < 8 \<Longrightarrow> byte_at v j = byte_at w j"
  shows "v = w"
proof (rule bit_word_eqI)
  fix n assume "n < LENGTH(64)"
  then have "n div 8 < 8" by simp
  from assms [OF this] have "bit (byte_at v (n div 8)) (n mod 8) = bit (byte_at w (n div 8)) (n mod 8)" by simp
  then show "bit v n = bit w n" by (simp add: bit_byte_at)
qed

lemma byte_at_logic [simp]:
  "byte_at (v AND w) j = byte_at v j AND byte_at w j"
  "byte_at (v OR w) j = byte_at v j OR byte_at w j"
  by (rule bit_word_eqI, simp add: bit_byte_at bit_simps)+

lemma byte_at_not [simp]: "j < 8 \<Longrightarrow> byte_at (NOT w) j = NOT (byte_at w j)"
  by (rule bit_word_eqI) (auto simp: bit_byte_at bit_simps)

lemma byte_at_push: "j < 8 \<Longrightarrow> byte_at (push_bit (8 * k) w) j = (if k \<le> j then byte_at w (j - k) else 0)"
  by (rule bit_word_eqI) (auto simp: bit_byte_at bit_simps algebra_simps)

lemma byte_at_low: "n \<le> 8 \<Longrightarrow> byte_at (mask (8 * n)) j = (if j < n then - 1 else 0)"
  by (rule bit_word_eqI) (auto simp: bit_byte_at bit_simps)

lemma byte_at_mask: "drop_bit (i * 8) w AND 0xFF = 0xFF \<longleftrightarrow> byte_at w i = - 1"
proof -
  have m: "(0xFF :: u64) = mask 8" by (simp add: mask_eq_exp_minus_1)
  have "drop_bit (i * 8) w AND 0xFF = 0xFF \<longleftrightarrow> (\<forall>n < 8. bit w (8 * i + n))"
  proof
    assume "drop_bit (i * 8) w AND 0xFF = 0xFF"
    then have eq: "bit (drop_bit (i * 8) w AND mask 8) n = bit (mask 8 :: u64) n" for n unfolding m by simp
    show "\<forall>n < 8. bit w (8 * i + n)"
    proof (intro allI impI)
      fix n :: nat assume "n < 8"
      with eq [of n] show "bit w (8 * i + n)" by (simp add: bit_simps mult.commute)
    qed
  qed (unfold m, auto simp: bit_eq_iff bit_simps mult.commute)
  also have "\<dots> \<longleftrightarrow> byte_at w i = - 1"
    by (auto simp: bit_eq_iff bit_byte_at bit_simps)
  finally show ?thesis .
qed

lemma byte_at_data: "ucast (drop_bit (i * 8) w AND 0xFF) = byte_at w i"
proof -
  have m: "(0xFF :: u64) = mask 8" by (simp add: mask_eq_exp_minus_1)
  show ?thesis unfolding m by (rule bit_word_eqI) (simp add: bit_byte_at bit_simps mult.commute)
qed

section \<open>What the map of merged entries undoes\<close>

definition word_of_addr :: "u64 \<Rightarrow> u64" where
  "word_of_addr x = x - x mod 8"

text \<open>One merged word, from its bytes.\<close>

definition rb_word :: "MemoryEntry \<Rightarrow> u64 \<Rightarrow> bool" where
  "rb_word e k \<longleftrightarrow> k mod 8 = 0 \<and> mb_addr e = k \<and> mb_len e = 8
     \<and> (\<forall>j < 8. byte_at (mb_bit_mask e) j = - 1 \<or> byte_at (mb_bit_mask e) j = 0 \<and> byte_at (mb_data e) j = 0)"

definition rb_wf :: "(u64, MemoryEntry) smap \<Rightarrow> bool" where
  "rb_wf mp \<longleftrightarrow> smap_wf mp \<and> (\<forall>k e. map_of mp k = Some e \<longrightarrow> rb_word e k)"

definition rb_undo :: "(u64, MemoryEntry) smap \<Rightarrow> (u64 \<Rightarrow> u8) \<Rightarrow> u64 \<Rightarrow> u8" where
  "rb_undo mp f x =
     (case map_of mp (word_of_addr x) of
        None \<Rightarrow> f x
      | Some e \<Rightarrow> if byte_at (mb_bit_mask e) (unat (x mod 8)) = - 1 then byte_at (mb_data e) (unat (x mod 8)) else f x)"

text \<open>A store of the low \<open>n\<close> bytes of \<open>v\<close> at \<open>a\<close>, on a memory seen as a function.\<close>

definition poke :: "u64 \<Rightarrow> nat \<Rightarrow> u64 \<Rightarrow> (u64 \<Rightarrow> u8) \<Rightarrow> u64 \<Rightarrow> u8" where
  "poke a n v f x = (if word_of_addr x = word_of_addr a \<and> unat (a mod 8) \<le> unat (x mod 8) \<and> unat (x mod 8) < unat (a mod 8) + n
     then byte_at v (unat (x mod 8) - unat (a mod 8)) else f x)"

text \<open>An entry of the log: an access that stays within its aligned word, with nothing beyond its length.\<close>

definition rb_entry :: "MemoryEntry \<Rightarrow> bool" where
  "rb_entry e \<longleftrightarrow> mb_addr e \<noteq> 0 \<and> 0 < unat (mb_len e) \<and> unat (mb_addr e mod 8) + unat (mb_len e) \<le> 8
     \<and> (\<forall>j < 8. unat (mb_len e) \<le> j \<longrightarrow> byte_at (mb_data e) j = 0)"

lemma unat_mod_8: "unat (x mod 8 :: u64) = unat x mod 8"
  by (simp add: unat_mod_distrib)

lemma unat_mod_8_less: "unat (x mod 8 :: u64) < 8"
  by (simp add: unat_mod_8)

lemma word_of_addr_aligned: "word_of_addr x mod 8 = 0"
proof -
  have "unat (word_of_addr x) = unat x - unat x mod 8"
    unfolding word_of_addr_def by (subst unat_sub) (simp_all add: unat_mod_8 word_le_nat_alt)
  then have "unat (word_of_addr x) mod 8 = 0" by (simp add: minus_mod_eq_mult_div)
  then show ?thesis by (simp add: word_unat_eq_iff unat_mod_8)
qed

lemma rb_shift_eq: "rb_shift a = 8 * unat (a mod 8)"
proof -
  have "unat (a mod 8) * 8 < 2 ^ 64" using unat_mod_8_less [of a] by simp
  then show ?thesis by (simp add: rb_shift_def unat_mult_lem [THEN iffD1])
qed

lemma rb_mask_ok:
  assumes "rb_entry e"
  shows "\<exists>w. rb_mask e = Inr w \<and> (\<forall>j < 8. byte_at w j =
    (if unat (mb_addr e mod 8) \<le> j \<and> j < unat (mb_addr e mod 8) + unat (mb_len e) then - 1 else 0))"
proof -
  let ?o = "unat (mb_addr e mod 8)" and ?n = "unat (mb_len e)"
  have n: "0 < ?n" "?n \<le> 8" using assms by (auto simp: rb_entry_def)
  then have "unat (8 * mb_len e) = 8 * ?n" by (subst unat_mult_lem [THEN iffD1]) auto
  then have s: "unat (64 - 8 * mb_len e) = 64 - 8 * ?n"
    using n by (subst unat_sub) (simp_all add: word_le_nat_alt)
  have "byte_at (push_bit (8 * ?o) (drop_bit (64 - 8 * ?n) (- 1))) j = (if ?o \<le> j \<and> j < ?o + ?n then - 1 else 0)"
    if "j < 8" for j using that n(2) by (auto simp: byte_at_push byte_at_low)
  with s n show ?thesis by (simp add: rb_mask_def rb_shift_eq)
qed

lemma rb_wf_set: "rb_wf mp \<Longrightarrow> rb_word e k \<Longrightarrow> rb_wf (smap_set k e mp)"
  by (auto simp: rb_wf_def)

lemma rb_undo_set:
  assumes "rb_wf mp" "word_of_addr a = k"
    and "\<And>j. j < 8 \<Longrightarrow> byte_at (mb_bit_mask e) j = - 1 \<longleftrightarrow> unat (a mod 8) \<le> j \<and> j < unat (a mod 8) + n
      \<or> (\<exists>old. map_of mp k = Some old \<and> byte_at (mb_bit_mask old) j = - 1)"
    and "\<And>j. j < 8 \<Longrightarrow> byte_at (mb_bit_mask e) j = - 1 \<Longrightarrow> byte_at (mb_data e) j
      = (if unat (a mod 8) \<le> j \<and> j < unat (a mod 8) + n then byte_at v (j - unat (a mod 8))
         else byte_at (mb_data (the (map_of mp k))) j)"
  shows "rb_undo (smap_set k e mp) f = poke a n v (rb_undo mp f)"
proof
  fix x
  have w: "smap_wf mp" using assms(1) by (simp add: rb_wf_def)
  show "rb_undo (smap_set k e mp) f x = poke a n v (rb_undo mp f) x"
  proof (cases "word_of_addr x = k")
    case False
    with w assms(2) show ?thesis by (simp add: rb_undo_def poke_def)
  next
    case True
    with w assms(2) assms(3,4) [OF unat_mod_8_less [of x]] show ?thesis
      by (cases "map_of mp k") (auto simp: rb_undo_def poke_def)
  qed
qed

lemma rb_merge_skip [simp]: "rb_merge mp mk_MemoryEntry = Inr mp"
  by (simp add: rb_merge_def mk_MemoryEntry_def)

lemma rb_merge_ok:
  assumes "rb_wf mp" "rb_entry e"
  shows "\<exists>mp'. rb_merge mp e = Inr mp' \<and> rb_wf mp'
    \<and> (\<forall>f. rb_undo mp' f = poke (mb_addr e) (unat (mb_len e)) (mb_data e) (rb_undo mp f))"
proof -
  let ?a = "mb_addr e" and ?n = "unat (mb_len e)" and ?d = "push_bit (rb_shift (mb_addr e)) (mb_data e)"
  let ?o = "unat (?a mod 8)" and ?k = "word_of_addr ?a"
  obtain new where new: "rb_mask e = Inr new"
    "\<And>j. j < 8 \<Longrightarrow> byte_at new j = (if ?o \<le> j \<and> j < ?o + ?n then - 1 else 0)"
    using rb_mask_ok [OF assms(2)] by auto
  have d: "byte_at ?d j = (if ?o \<le> j \<and> j < ?o + ?n then byte_at (mb_data e) (j - ?o) else 0)" if "j < 8" for j
    using that assms(2) by (auto simp: rb_shift_eq byte_at_push rb_entry_def)
  have a: "?a \<noteq> 0" "?a - ?a mod 8 = ?k" "?k mod 8 = 0"
    using assms(2) word_of_addr_aligned by (simp_all add: rb_entry_def word_of_addr_def)
  have m: "rb_mask (e\<lparr>mb_data := x\<rparr>) = Inr new" for x unfolding new(1) [symmetric] by (simp add: rb_mask_def)
  show ?thesis
  proof (cases "map_of mp ?k")
    case None
    let ?e = "e\<lparr>mb_data := ?d, mb_bit_mask := new, mb_len := 8, mb_addr := ?k\<rparr>"
    have r: "rb_merge mp e = Inr (smap_set ?k ?e mp)" using a m None by (simp add: rb_merge_def Let_def)
    have "rb_word ?e ?k" using a(3) by (auto simp: rb_word_def new(2) d)
    moreover have "rb_undo (smap_set ?k ?e mp) f = poke ?a ?n (mb_data e) (rb_undo mp f)" for f
      by (rule rb_undo_set [OF assms(1)]) (use None in \<open>auto simp: new(2) d split: if_splits\<close>)
    ultimately show ?thesis using r rb_wf_set [OF assms(1)] by blast
  next
    case (Some old)
    have old: "rb_word old ?k" using assms(1) Some by (simp add: rb_wf_def)
    define e1 where "e1 = old\<lparr>mb_data := (NOT (new AND mb_bit_mask old) AND mb_bit_mask old AND mb_data old)
        OR (NOT (new AND mb_bit_mask old) AND new AND ?d) OR (new AND mb_bit_mask old AND ?d),
      mb_bit_mask := new OR mb_bit_mask old\<rparr>"
    have r: "rb_merge mp e = Inr (smap_set ?k e1 mp)"
      using a m Some old by (simp add: rb_merge_def Let_def rb_word_def e1_def and.assoc)
    have b: "byte_at (mb_bit_mask e1) j = (if ?o \<le> j \<and> j < ?o + ?n then - 1 else byte_at (mb_bit_mask old) j)"
      "byte_at (mb_data e1) j = (if ?o \<le> j \<and> j < ?o + ?n then byte_at (mb_data e) (j - ?o) else byte_at (mb_data old) j)"
      if "j < 8" for j
      using old that by (auto simp: e1_def new(2) d rb_word_def)
    have "rb_word e1 ?k" using old b by (auto simp: rb_word_def e1_def)
    moreover have "rb_undo (smap_set ?k e1 mp) f = poke ?a ?n (mb_data e) (rb_undo mp f)" for f
      by (rule rb_undo_set [OF assms(1)]) (use Some in \<open>auto simp: b split: if_splits\<close>)
    ultimately show ?thesis using r rb_wf_set [OF assms(1)] by blast
  qed
qed

section \<open>The loop over the log\<close>

definition db_log :: "'a DataBackup \<Rightarrow> 'a list" where
  "db_log b = concat (db_data_backup b)"

lemma db_log_take:
  assumes "db_GetBackupEntry dflt b = Inr (x, b')" "db_data_backup b \<noteq> []"
  shows "db_log b = db_log b' @ [x] \<or> x = dflt \<and> db_log b = db_log b'"
    and "db_stable b' \<longleftrightarrow> db_data_backup b' = []"
proof -
  obtain d v where d: "db_data_backup b = d @ [v]" using assms(2) by (cases "db_data_backup b" rule: rev_cases) auto
  with assms(1) show "db_log b = db_log b' @ [x] \<or> x = dflt \<and> db_log b = db_log b'"
    by (cases v rule: rev_cases) (auto simp: db_GetBackupEntry_def Let_def db_log_def split: if_splits)
  show "db_stable b' \<longleftrightarrow> db_data_backup b' = []"
    using assms(1) by (auto simp: db_GetBackupEntry_def Let_def split: if_splits)
qed

lemma db_GetBackupEntry_ok: "db_data_backup b \<noteq> [] \<Longrightarrow> \<exists>x b'. db_GetBackupEntry dflt b = Inr (x, b')"
  by (auto simp: db_GetBackupEntry_def Let_def)

text \<open>Sequential undoing: the newest store first.\<close>

definition unpoke :: "MemoryEntry list \<Rightarrow> (u64 \<Rightarrow> u8) \<Rightarrow> u64 \<Rightarrow> u8" where
  "unpoke es f = foldr (\<lambda>e f. poke (mb_addr e) (unat (mb_len e)) (mb_data e) f) es f"

lemma unpoke_snoc [simp]: "unpoke (es @ [e]) f = unpoke es (poke (mb_addr e) (unat (mb_len e)) (mb_data e) f)"
  by (simp add: unpoke_def)

lemma unpoke_Nil [simp]: "unpoke [] f = f"
  by (simp add: unpoke_def)

lemma rb_collect_ok:
  assumes "rb_wf mp" "\<forall>e \<in> set (db_log b). rb_entry e" "db_stable b \<or> db_data_backup b \<noteq> []"
  shows "\<exists>b' mp'. rb_collect b mp = Inr (b', mp') \<and> db_data_backup b' = [] \<and> db_stable b' \<and> rb_wf mp'
    \<and> (\<forall>f. rb_undo mp' f = unpoke (db_log b) (rb_undo mp f))"
  using assms
proof (induction b mp rule: rb_collect.induct)
  case (1 b mp)
  show ?case
  proof (cases "db_data_backup b = []")
    case True
    with "1.prems" show ?thesis by (simp add: rb_collect.simps db_IsEmpty_def db_log_def)
  next
    case False
    obtain e b1 where g: "db_GetBackupEntry mk_MemoryEntry b = Inr (e, b1)" using db_GetBackupEntry_ok [OF False] by blast
    note l = db_log_take [OF g False]
    have "\<exists>mp1. rb_merge mp e = Inr mp1 \<and> rb_wf mp1 \<and> (\<forall>f. unpoke (db_log b1) (rb_undo mp1 f) = unpoke (db_log b) (rb_undo mp f))"
      using l(1)
    proof
      assume s: "db_log b = db_log b1 @ [e]"
      then have "rb_entry e" using "1.prems"(2) by simp
      from rb_merge_ok [OF "1.prems"(1) this] s show ?thesis by auto
    next
      assume "e = mk_MemoryEntry \<and> db_log b = db_log b1"
      then show ?thesis using "1.prems"(1) by simp
    qed
    then obtain mp1 where m: "rb_merge mp e = Inr mp1" "rb_wf mp1"
      "\<forall>f. unpoke (db_log b1) (rb_undo mp1 f) = unpoke (db_log b) (rb_undo mp f)" by blast
    have "\<forall>e \<in> set (db_log b1). rb_entry e" using "1.prems"(2) l(1) by auto
    from "1.IH" [OF _ g refl m(1,2) this] False l(2) m(3) obtain b' mp' where
      "rb_collect b1 mp1 = Inr (b', mp')" "db_data_backup b' = []" "db_stable b'" "rb_wf mp'"
      "\<forall>f. rb_undo mp' f = unpoke (db_log b) (rb_undo mp f)" by (auto simp: db_IsEmpty_def)
    with False g m(1) show ?thesis by (subst rb_collect.simps) (simp add: db_IsEmpty_def)
  qed
qed

lemma rb_merge_keys:
  "rb_merge mp e = Inr mp1 \<Longrightarrow> mp1 = mp \<or> (\<exists>x. mp1 = smap_set (word_of_addr (mb_addr e)) x mp)"
  by (cases "map_of mp (word_of_addr (mb_addr e))")
    (auto simp: rb_merge_def Let_def bindE_eq_Inr word_of_addr_def split: if_splits)

lemma rb_collect_mapped:
  assumes "rb_collect b mp = Inr (b', mp')" "\<forall>e \<in> set (db_log b). P (word_of_addr (mb_addr e))" "\<forall>k \<in> fst ` set mp. P k"
  shows "\<forall>k \<in> fst ` set mp'. P k"
  using assms
proof (induction b mp rule: rb_collect.induct)
  case (1 b mp)
  show ?case
  proof (cases "db_data_backup b = []")
    case True
    with "1.prems" show ?thesis by (simp add: rb_collect.simps db_IsEmpty_def)
  next
    case False
    obtain e b1 where g: "db_GetBackupEntry mk_MemoryEntry b = Inr (e, b1)" using db_GetBackupEntry_ok [OF False] by blast
    with "1.prems"(1) False obtain mp1 where m: "rb_merge mp e = Inr mp1" "rb_collect b1 mp1 = Inr (b', mp')"
      by (subst (asm) rb_collect.simps) (auto simp: db_IsEmpty_def split: sum.splits)
    have k: "fst ` set mp1 = fst ` set mp \<or> fst ` set mp1 = insert (word_of_addr (mb_addr e)) (fst ` set mp)"
      using rb_merge_keys [OF m(1)] fst_set_smap_set by metis
    from db_log_take(1) [OF g False] have keys: "\<forall>k \<in> fst ` set mp1. P k"
    proof
      assume "db_log b = db_log b1 @ [e]"
      then have "P (word_of_addr (mb_addr e))" using "1.prems"(2) by simp
      with k "1.prems"(3) show ?thesis by (elim disjE) (simp_all only: ball_simps simp_thms)
    next
      assume "e = mk_MemoryEntry \<and> db_log b = db_log b1"
      with m(1) "1.prems"(3) show ?thesis by simp
    qed
    have log: "\<forall>e \<in> set (db_log b1). P (word_of_addr (mb_addr e))"
      using db_log_take(1) [OF g False] "1.prems"(2) by auto
    have "\<not> db_IsEmpty b" using False by (simp add: db_IsEmpty_def)
    then show ?thesis by (rule "1.IH" [OF _ g refl m log keys])
  qed
qed

section \<open>Writing the bytes back\<close>

text \<open>
  What the code relies on of the simulator's memory: a load returns the bytes little-endian, of a word that
  is mapped; a mapped word can be loaded and its bytes stored; a store changes one byte.
\<close>

definition mmu_ok :: "('m \<Rightarrow> u64 \<Rightarrow> nat \<Rightarrow> u64 option) \<Rightarrow> ('m \<Rightarrow> u64 \<Rightarrow> u8 \<Rightarrow> 'm option) \<Rightarrow> ('m \<Rightarrow> u64 \<Rightarrow> u8) \<Rightarrow> (u64 \<Rightarrow> bool) \<Rightarrow> bool" where
  "mmu_ok ld st bytes mapped \<longleftrightarrow>
     (\<forall>m a n v. ld m a n = Some v \<longrightarrow> mapped (word_of_addr a)
        \<and> (\<forall>j < 8. byte_at v j = (if j < n then bytes m (a + word_of_nat j) else 0)))
   \<and> (\<forall>m k. mapped k \<longrightarrow> (\<exists>v. ld m k 8 = Some v))
   \<and> (\<forall>m a b. mapped (word_of_addr a) \<longrightarrow> (\<exists>m'. st m a b = Some m'))
   \<and> (\<forall>m a b m'. st m a b = Some m' \<longrightarrow> bytes m' = (bytes m)(a := b))"

lemma word_of_addr_plus: "word_of_addr x + word_of_nat (unat (x mod 8)) = x"
  by (simp add: word_of_addr_def)

lemma word_split:
  assumes "k mod 8 = 0" "i < 8"
  shows "word_of_addr (k + word_of_nat i) = k" "unat ((k + word_of_nat i) mod 8) = i"
proof -
  have k: "unat k mod 8 = 0" using assms(1) by (simp add: word_unat_eq_iff unat_mod_8)
  have "unat k < 18446744073709551616" using unsigned_less [of k] by simp
  then have "unat k + i < 18446744073709551616" using k assms(2) by presburger
  moreover have i: "unat (word_of_nat i :: u64) = i" using assms(2) by (simp add: unat_of_nat take_bit_nat_eq_self)
  ultimately have "unat (k + word_of_nat i) = unat k + i" by (subst unat_add_lem [THEN iffD1]) simp_all
  then show m: "unat ((k + word_of_nat i) mod 8) = i" using k assms(2) by (simp add: unat_mod_8 mod_add_left_eq [symmetric])
  then have "(k + word_of_nat i) mod 8 = word_of_nat i" using i by (simp add: word_unat_eq_iff)
  then show "word_of_addr (k + word_of_nat i) = k" by (simp add: word_of_addr_def)
qed

lemma word_split_iff:
  assumes "k mod 8 = 0" "i < 8"
  shows "x = k + word_of_nat i \<longleftrightarrow> word_of_addr x = k \<and> unat (x mod 8) = i"
  using word_split [OF assms] word_of_addr_plus [of x] by auto

lemma rb_bytes_ok:
  assumes "mmu_ok ld st bytes mapped" "rb_word e k" "mapped k" "set js \<subseteq> {0..<8}"
  shows "\<exists>m'. rb_bytes st e js m = Inr m' \<and> bytes m' = (\<lambda>x. if word_of_addr x = k \<and> unat (x mod 8) \<in> set js
      \<and> byte_at (mb_bit_mask e) (unat (x mod 8)) = - 1 then byte_at (mb_data e) (unat (x mod 8)) else bytes m x)"
  using assms(4)
proof (induction js arbitrary: m)
  case Nil
  then show ?case by simp
next
  case (Cons i js)
  have k: "k mod 8 = 0" "mb_addr e = k" using assms(2) by (simp_all add: rb_word_def)
  have i: "i < 8" using Cons.prems by simp
  show ?case
  proof (cases "byte_at (mb_bit_mask e) i = - 1")
    case False
    with Cons.IH [of m] Cons.prems show ?thesis by (auto simp: byte_at_mask fun_eq_iff)
  next
    case True
    have "mapped (word_of_addr (k + word_of_nat i))" using assms(3) word_split(1) [OF k(1) i] by simp
    then obtain m1 where m1: "st m (k + word_of_nat i) (byte_at (mb_data e) i) = Some m1"
      using assms(1) unfolding mmu_ok_def by blast
    then have b1: "bytes m1 = (bytes m)(k + word_of_nat i := byte_at (mb_data e) i)"
      using assms(1) unfolding mmu_ok_def by blast
    obtain m' where m': "rb_bytes st e js m1 = Inr m'" "bytes m' = (\<lambda>x. if word_of_addr x = k \<and> unat (x mod 8) \<in> set js
      \<and> byte_at (mb_bit_mask e) (unat (x mod 8)) = - 1 then byte_at (mb_data e) (unat (x mod 8)) else bytes m1 x)"
      using Cons.IH [of m1] Cons.prems by auto
    have "rb_bytes st e (i # js) m = Inr m'"
      using m1 m'(1) True by (simp add: byte_at_mask byte_at_data k(2) del: mask_eq_exp_minus_1)
    moreover have "bytes m' x = (if word_of_addr x = k \<and> unat (x mod 8) \<in> set (i # js)
      \<and> byte_at (mb_bit_mask e) (unat (x mod 8)) = - 1 then byte_at (mb_data e) (unat (x mod 8)) else bytes m x)" for x
      using True by (auto simp: m'(2) b1 word_split_iff [OF k(1) i])
    ultimately show ?thesis by auto
  qed
qed

lemma rb_undo_Cons:
  assumes "k \<notin> fst ` set mp"
  shows "rb_undo ((k, e) # mp) f = rb_undo mp (\<lambda>x. if word_of_addr x = k \<and> byte_at (mb_bit_mask e) (unat (x mod 8)) = - 1
    then byte_at (mb_data e) (unat (x mod 8)) else f x)"
proof
  fix x
  have "map_of mp k = None" using assms by (simp add: map_of_eq_None_iff)
  then show "rb_undo ((k, e) # mp) f x = rb_undo mp (\<lambda>x. if word_of_addr x = k \<and> byte_at (mb_bit_mask e) (unat (x mod 8)) = - 1
    then byte_at (mb_data e) (unat (x mod 8)) else f x) x"
    by (auto simp: rb_undo_def split: option.splits)
qed

lemma rb_restore_ok:
  assumes "mmu_ok ld st bytes mapped" "rb_word e k" "mapped k"
    and "\<And>j. j < 8 \<Longrightarrow> byte_at (mb_bit_mask e) j = - 1 \<Longrightarrow> byte_at (mb_data e) j = bytes fast (k + word_of_nat j)"
  shows "\<exists>m'. rb_restore ld st fast m e = Inr m' \<and> bytes m' = (\<lambda>x. if word_of_addr x = k
    \<and> byte_at (mb_bit_mask e) (unat (x mod 8)) = - 1 then byte_at (mb_data e) (unat (x mod 8)) else bytes m x)"
proof -
  obtain v where v: "ld fast k 8 = Some v" using assms(1,3) unfolding mmu_ok_def by blast
  then have b: "byte_at v j = bytes fast (k + word_of_nat j)" if "j < 8" for j
    using assms(1) that unfolding mmu_ok_def by auto
  have "byte_at (v AND mb_bit_mask e) j = byte_at (mb_data e) j" if "j < 8" for j
  proof -
    have "byte_at (mb_bit_mask e) j = - 1 \<or> byte_at (mb_bit_mask e) j = 0 \<and> byte_at (mb_data e) j = 0"
      using assms(2) that by (simp add: rb_word_def)
    then show ?thesis using assms(4) [OF that] b [OF that] by auto
  qed
  then have "v AND mb_bit_mask e = mb_data e" by (rule byte_at_eqI)
  moreover have "mb_addr e = k" using assms(2) by (simp add: rb_word_def)
  ultimately show ?thesis
    using v rb_bytes_ok [OF assms(1-3), of "[0..<8]" m] unat_mod_8_less
    by (auto simp: rb_restore_def fun_eq_iff simp del: upt_Suc)
qed

lemma rb_restore_all:
  assumes "mmu_ok ld st bytes mapped" "rb_wf mp" "\<forall>k \<in> fst ` set mp. mapped k"
    and "\<forall>k e j. map_of mp k = Some e \<and> j < 8 \<and> byte_at (mb_bit_mask e) j = - 1
      \<longrightarrow> byte_at (mb_data e) j = bytes fast (k + word_of_nat j)"
  shows "\<exists>m'. foldE (rb_restore ld st fast) m (map snd mp) = Inr m' \<and> bytes m' = rb_undo mp (bytes m)"
  using assms(2-4)
proof (induction mp arbitrary: m)
  case Nil
  then show ?case by (simp add: rb_undo_def fun_eq_iff)
next
  case (Cons x mp)
  obtain k e where x: "x = (k, e)" by fastforce
  have k: "k \<notin> fst ` set mp" using smap_wf_distinct [of "x # mp"] Cons.prems(1) by (simp add: rb_wf_def x)
  then have n: "map_of mp k = None" by (simp add: map_of_eq_None_iff)
  have w: "rb_word e k" "mapped k" using Cons.prems(1,2) by (auto simp: rb_wf_def x)
  have "\<forall>j. j < 8 \<and> byte_at (mb_bit_mask e) j = - 1 \<longrightarrow> byte_at (mb_data e) j = bytes fast (k + word_of_nat j)"
    using Cons.prems(3) by (auto simp: x)
  from rb_restore_ok [OF assms(1) w, of fast m] this obtain m1 where
    m1: "rb_restore ld st fast m e = Inr m1" "bytes m1 = (\<lambda>x. if word_of_addr x = k
    \<and> byte_at (mb_bit_mask e) (unat (x mod 8)) = - 1 then byte_at (mb_data e) (unat (x mod 8)) else bytes m x)" by blast
  have "rb_wf mp" unfolding rb_wf_def
  proof (intro conjI allI impI)
    show "smap_wf mp" using Cons.prems(1) by (simp add: rb_wf_def smap_wf_def)
    fix k' e' assume "map_of mp k' = Some e'"
    with n Cons.prems(1) show "rb_word e' k'" unfolding rb_wf_def x by (cases "k' = k") auto
  qed
  moreover have "\<forall>k' e' j. map_of mp k' = Some e' \<and> j < 8 \<and> byte_at (mb_bit_mask e') j = - 1
      \<longrightarrow> byte_at (mb_data e') j = bytes fast (k' + word_of_nat j)"
  proof (intro allI impI)
    fix k' e' j assume a: "map_of mp k' = Some e' \<and> j < 8 \<and> byte_at (mb_bit_mask e') j = - 1"
    with n have "k' \<noteq> k" by auto
    with a Cons.prems(3) show "byte_at (mb_data e') j = bytes fast (k' + word_of_nat j)" by (auto simp: x)
  qed
  ultimately obtain m' where "foldE (rb_restore ld st fast) m1 (map snd mp) = Inr m'" "bytes m' = rb_undo mp (bytes m1)"
    using Cons.IH [of m1] Cons.prems(2) by auto
  with m1 show ?case by (simp add: x rb_undo_Cons [OF k])
qed

section \<open>A mispredicted path\<close>

text \<open>
  The steps of the simulator on a mispredicted path, as far as the log is concerned: another branch opens a
  vector, and a naturally aligned store is announced to the hook before it changes the memory.
\<close>

inductive wrong_path :: "('m \<Rightarrow> u64 \<Rightarrow> nat \<Rightarrow> u64 option) \<Rightarrow> ('m \<Rightarrow> u64 \<Rightarrow> u8) \<Rightarrow> MemoryEntry DataBackup \<times> 'm
    \<Rightarrow> MemoryEntry DataBackup \<times> 'm \<Rightarrow> bool" for ld bytes where
  wp_branch: "db_MakeBackupEntry b = Inr b' \<Longrightarrow> wrong_path ld bytes (b, m) (b', m)"
| wp_store: "backup_store ld b m a len = Inr b' \<Longrightarrow> ld m a (unat len) = Some old \<Longrightarrow> a \<noteq> 0 \<Longrightarrow> a mod len = 0
    \<Longrightarrow> len \<in> {1, 2, 4, 8} \<Longrightarrow> bytes m' = poke a (unat len) v (bytes m) \<Longrightarrow> wrong_path ld bytes (b, m) (b', m')"

definition log_inv :: "('m \<Rightarrow> u64 \<Rightarrow> u8) \<Rightarrow> (u64 \<Rightarrow> bool) \<Rightarrow> (u64 \<Rightarrow> u8) \<Rightarrow> MemoryEntry DataBackup \<times> 'm \<Rightarrow> bool" where
  "log_inv bytes mapped f0 = (\<lambda>(b, m). db_stable b \<and> db_data_backup b \<noteq> []
     \<and> (\<forall>e \<in> set (db_log b). rb_entry e \<and> mapped (word_of_addr (mb_addr e))) \<and> unpoke (db_log b) (bytes m) = f0)"

lemma aligned_in_word:
  assumes "a mod len = 0" "len \<in> {1, 2, 4, 8 :: u64}"
  shows "unat (a mod 8) + unat len \<le> 8"
proof -
  have "unat a mod unat len = 0" using assms(1) by (metis unat_0 unat_mod_distrib)
  moreover have "unat len \<in> {1, 2, 4, 8}" using assms(2) by auto
  ultimately show ?thesis unfolding unat_mod_8 by auto presburger+
qed

lemma poke_back:
  assumes "unat (a mod 8) + n \<le> 8" "\<And>j. j < n \<Longrightarrow> byte_at old j = f (a + word_of_nat j)"
  shows "poke a n old (poke a n v f) = f"
proof
  fix x
  show "poke a n old (poke a n v f) x = f x"
  proof (cases "word_of_addr x = word_of_addr a \<and> unat (a mod 8) \<le> unat (x mod 8) \<and> unat (x mod 8) < unat (a mod 8) + n")
    case True
    let ?j = "unat (x mod 8) - unat (a mod 8)"
    have j: "word_of_nat (unat (a mod 8)) + word_of_nat ?j = (word_of_nat (unat (x mod 8)) :: u64)"
      using True by (simp add: of_nat_diff)
    have "word_of_addr a + (word_of_nat (unat (a mod 8)) + word_of_nat ?j) = a + word_of_nat ?j"
      unfolding add.assoc [symmetric] word_of_addr_plus ..
    then have "a + word_of_nat ?j = word_of_addr a + word_of_nat (unat (x mod 8))" unfolding j by (rule sym)
    also have "\<dots> = x" using True word_of_addr_plus [of x] by simp
    finally show ?thesis using True assms(2) [of ?j] by (simp add: poke_def less_diff_conv2)
  qed (auto simp: poke_def)
qed

lemma db_log_push: "db_Push b x = Inr b' \<Longrightarrow> db_log b' = db_log b @ [x] \<and> db_stable b' \<and> db_data_backup b' \<noteq> []"
proof -
  assume a: "db_Push b x = Inr b'"
  then obtain d v where "db_data_backup b = d @ [v]"
    by (cases "db_data_backup b" rule: rev_cases) (auto simp: db_Push_def bindE_eq_Inr)
  with a show ?thesis by (auto simp: db_Push_def db_log_def bindE_eq_Inr assertE_def split: if_splits)
qed

lemma wrong_path_inv:
  assumes "mmu_ok ld st bytes mapped" "wrong_path ld bytes c c'" "log_inv bytes mapped f0 c"
  shows "log_inv bytes mapped f0 c'"
  using assms(2,3)
proof cases
  case (wp_branch b b' m)
  with assms(3) show ?thesis
    by (auto simp: log_inv_def db_MakeBackupEntry_def db_log_def bindE_eq_Inr assertE_def split: if_splits)
next
  case (wp_store b m a len b' old m' v)
  let ?e = "\<lparr>mb_addr = a, mb_data = old, mb_len = len, mb_bit_mask = 0\<rparr>"
  have "db_Push b ?e = Inr b'"
    using wp_store assms(3) by (simp add: log_inv_def backup_store_def db_IsEmpty_def)
  from db_log_push [OF this] have l: "db_log b' = db_log b @ [?e]" "db_stable b'" "db_data_backup b' \<noteq> []" by auto
  have o: "mapped (word_of_addr a)" "\<forall>j < 8. byte_at old j = (if j < unat len then bytes m (a + word_of_nat j) else 0)"
    using assms(1) wp_store(4) unfolding mmu_ok_def by blast+
  have n: "unat (a mod 8) + unat len \<le> 8" using wp_store by (intro aligned_in_word) auto
  have "rb_entry ?e" using n o(2) wp_store by (auto simp: rb_entry_def)
  moreover have "poke a (unat len) old (poke a (unat len) v (bytes m)) = bytes m"
    using n o(2) by (intro poke_back) auto
  ultimately show ?thesis using l o(1) assms(3) wp_store by (auto simp: log_inv_def)
qed

lemma wrong_path_invs:
  assumes "mmu_ok ld st bytes mapped" "(wrong_path ld bytes)\<^sup>*\<^sup>* c c'" "log_inv bytes mapped f0 c"
  shows "log_inv bytes mapped f0 c'"
  using assms(2,3) by (induction rule: rtranclp_induct) (blast intro: wrong_path_inv [OF assms(1)])+

lemma rollback_restores:
  assumes "mmu_ok ld st bytes mapped" "0 < k" "(wrong_path ld bytes)\<^sup>*\<^sup>* (\<lparr>db_stable = True, db_data_backup = replicate k []\<rparr>, m0) (b, m)"
    and "bytes fast = bytes m0"
  shows "\<exists>b' m'. MemoryRollBack ld st fast b m = Inr (b', m') \<and> bytes m' = bytes m0
    \<and> db_data_backup b' = [] \<and> db_stable b'"
proof -
  have "log_inv bytes mapped (bytes m0) (\<lparr>db_stable = True, db_data_backup = replicate k []\<rparr>, m0)"
    using assms(2) by (simp add: log_inv_def db_log_def)
  with assms(1,3) have i: "log_inv bytes mapped (bytes m0) (b, m)" by (blast intro: wrong_path_invs)
  then have "\<forall>e \<in> set (db_log b). rb_entry e" "db_stable b \<or> db_data_backup b \<noteq> []" "rb_wf []"
    by (auto simp: log_inv_def rb_wf_def)
  with rb_collect_ok [of "[]" b] obtain b' mp where
    c: "rb_collect b [] = Inr (b', mp)" "db_data_backup b' = []" "db_stable b'" "rb_wf mp"
      "\<forall>f. rb_undo mp f = unpoke (db_log b) (rb_undo [] f)" by blast
  have nil: "rb_undo [] f = f" for f by (simp add: rb_undo_def fun_eq_iff)
  then have u: "rb_undo mp (bytes m) = bytes m0" using c(5) i by (simp add: log_inv_def)
  have "byte_at (mb_data e) j = bytes fast (key + word_of_nat j)"
    if "map_of mp key = Some e" "j < 8" "byte_at (mb_bit_mask e) j = - 1" for key e j
  proof -
    have "key mod 8 = 0" using c(4) that(1) by (auto simp: rb_wf_def rb_word_def)
    from fun_cong [OF u, of "key + word_of_nat j"] word_split [OF this that(2)] that assms(4)
    show ?thesis by (simp add: rb_undo_def)
  qed
  moreover have "\<forall>key \<in> fst ` set mp. mapped key"
    using rb_collect_mapped [OF c(1)] i by (auto simp: log_inv_def)
  ultimately obtain m' where "foldE (rb_restore ld st fast) m (map snd mp) = Inr m'" "bytes m' = rb_undo mp (bytes m)"
    using rb_restore_all [OF assms(1) c(4), where fast = fast and m = m] by blast
  with c u show ?thesis by (simp add: MemoryRollBack_def)
qed

text \<open>
  (C22) The memory roll-back undoes a mispredicted path. Start with empty vectors for the open branches and run
  the simulator down a wrong path: any number of further branches and of naturally aligned stores of 1, 2, 4
  or 8 bytes at addresses other than 0, overlapping in any way. If the reference simulator still has the memory of the branch,
  \<open>MemoryRollBack_\<close> returns, no assertion fails, every byte of the memory is what it was at the branch, and
  the log is empty and stable again.
\<close>

theorem MemoryRollBack_restores:
  assumes "mmu_ok ld st bytes mapped" "0 < k" "(wrong_path ld bytes)\<^sup>*\<^sup>* (\<lparr>db_stable = True, db_data_backup = replicate k []\<rparr>, m0) (b, m)"
    and "bytes fast = bytes m0"
  shows "\<exists>b' m'. MemoryRollBack ld st fast b m = Inr (b', m') \<and> bytes m' = bytes m0
    \<and> db_data_backup b' = [] \<and> db_stable b'"
  by (rule rollback_restores [OF assms])

text \<open>A memory that meets the hypotheses: a function from addresses to bytes, all mapped.\<close>

fun demo_word :: "(u64 \<Rightarrow> u8) \<Rightarrow> u64 \<Rightarrow> nat \<Rightarrow> u64" where
  "demo_word f a 0 = 0"
| "demo_word f a (Suc n) = ucast (f a) OR push_bit 8 (demo_word f (a + 1) n)"

definition demo_ld :: "(u64 \<Rightarrow> u8) \<Rightarrow> u64 \<Rightarrow> nat \<Rightarrow> u64 option" where
  "demo_ld f a n = Some (demo_word f a n)"

definition demo_st :: "(u64 \<Rightarrow> u8) \<Rightarrow> u64 \<Rightarrow> u8 \<Rightarrow> (u64 \<Rightarrow> u8) option" where
  "demo_st f a b = Some (f(a := b))"

lemma byte_at_cons: "j < 8 \<Longrightarrow> byte_at (ucast (b :: u8) OR push_bit 8 w) j = (if j = 0 then b else byte_at w (j - 1))"
  by (rule bit_word_eqI) (cases j, auto simp: bit_byte_at bit_simps simp del: byte_at_logic dest: bit_imp_le_length)

lemma demo_word_bytes: "j < 8 \<Longrightarrow> byte_at (demo_word f a n) j = (if j < n then f (a + word_of_nat j) else 0)"
proof (induction n arbitrary: a j)
  case 0
  show ?case by (rule bit_word_eqI) (simp add: bit_byte_at)
next
  case (Suc n)
  then show ?case by (cases j) (auto simp: byte_at_cons add_ac simp del: byte_at_logic)
qed

lemma demo_mmu: "mmu_ok demo_ld demo_st (\<lambda>f. f) (\<lambda>_. True)"
  by (auto simp: mmu_ok_def demo_ld_def demo_st_def demo_word_bytes)

lemma demo_store:
  assumes "db_stable b" "db_data_backup b \<noteq> []" "a \<noteq> 0" "a mod len = 0" "len \<in> {1, 2, 4, 8}"
  shows "\<exists>b'. wrong_path demo_ld (\<lambda>f. f) (b, m) (b', poke a (unat len) v m) \<and> db_stable b' \<and> db_data_backup b' \<noteq> []"
proof -
  let ?e = "\<lparr>mb_addr = a, mb_data = demo_word m a (unat len), mb_len = len, mb_bit_mask = 0\<rparr>"
  obtain b' where b': "db_Push b ?e = Inr b'" using assms(1,2) by (simp add: db_Push_def)
  then have "backup_store demo_ld b m a len = Inr b'"
    using assms(2,5) by (simp add: backup_store_def db_IsEmpty_def demo_ld_def)
  with assms(3-5) have "wrong_path demo_ld (\<lambda>f. f) (b, m) (b', poke a (unat len) v m)"
    by (intro wp_store) (auto simp: demo_ld_def)
  with db_log_push [OF b'] show ?thesis by blast
qed

theorem MemoryRollBack_restores_witness:
  "\<exists>b b' m'. (wrong_path demo_ld (\<lambda>f. f))\<^sup>*\<^sup>* (\<lparr>db_stable = True, db_data_backup = replicate 2 []\<rparr>, \<lambda>_. 7)
      (b, poke 0x80000005 1 9 (poke 0x80000004 4 5 (\<lambda>_. 7)))
    \<and> MemoryRollBack demo_ld demo_st (\<lambda>_. 7) b (poke 0x80000005 1 9 (poke 0x80000004 4 5 (\<lambda>_. 7))) = Inr (b', m')
    \<and> m' = (\<lambda>_. 7)"
proof -
  let ?b0 = "\<lparr>db_stable = True, db_data_backup = replicate 2 []\<rparr> :: MemoryEntry DataBackup" and ?m0 = "\<lambda>_. 7 :: u8"
  obtain b1 where b1: "wrong_path demo_ld (\<lambda>f. f) (?b0, ?m0) (b1, poke 0x80000004 4 5 ?m0)" "db_stable b1" "db_data_backup b1 \<noteq> []"
    using demo_store [where b = ?b0 and a = "0x80000004" and len = 4 and m = ?m0 and v = 5] by auto
  obtain b2 where b2: "wrong_path demo_ld (\<lambda>f. f) (b1, poke 0x80000004 4 5 ?m0) (b2, poke 0x80000005 1 9 (poke 0x80000004 4 5 ?m0))"
    using demo_store [OF b1(2,3), where a = "0x80000005" and len = 1 and m = "poke 0x80000004 4 5 ?m0" and v = 9] by auto
  from b1(1) b2 have p: "(wrong_path demo_ld (\<lambda>f. f))\<^sup>*\<^sup>* (?b0, ?m0) (b2, poke 0x80000005 1 9 (poke 0x80000004 4 5 ?m0))"
    by (rule converse_rtranclp_into_rtranclp [OF _ r_into_rtranclp])
  from MemoryRollBack_restores [OF demo_mmu _ p, of ?m0] p show ?thesis by auto
qed

end
