(* ===== verification/Mem_Layout.thy ===== *)
theory Mem_Layout
  imports Global_Param
begin

text \<open>
  The memory layout and hart numbers of the command line, \<open>parse_mem_layout\<close> to \<open>parse_hartids\<close> of
  \<open>utils/spikeInterface/src/spikeInterface.cpp\<close>. A region \<open>mem_cfg_t\<close> is a class of the simulator: a type \<open>'c\<close> with its
  constructor and accessors as arguments.
\<close>

unbundle bit_operations_syntax

section \<open>Regions\<close>

record 'c mem_cfg_ops =
  mc_make :: "u64 \<Rightarrow> u64 \<Rightarrow> 'c result"
  get_base :: "'c \<Rightarrow> u64"
  get_size :: "'c \<Rightarrow> u64"
  get_inclusive_end :: "'c \<Rightarrow> u64"
  check_if_supported :: "u64 \<Rightarrow> u64 \<Rightarrow> bool"

definition sort_mem_region :: "'c mem_cfg_ops \<Rightarrow> 'c \<Rightarrow> 'c \<Rightarrow> bool" where
  "sort_mem_region ops a b =
     (if get_base ops a = get_base ops b then get_size ops a < get_size ops b else get_base ops a < get_base ops b)"

definition check_mem_overlap :: "'c mem_cfg_ops \<Rightarrow> 'c \<Rightarrow> 'c \<Rightarrow> bool" where
  "check_mem_overlap ops L R \<longleftrightarrow>
     max (get_base ops L) (get_base ops R) \<le> min (get_inclusive_end ops L) (get_inclusive_end ops R)"

definition check_if_merge_covers_64bit_space :: "'c mem_cfg_ops \<Rightarrow> 'c \<Rightarrow> 'c \<Rightarrow> bool" where
  "check_if_merge_covers_64bit_space ops L R =
     (if \<not> check_mem_overlap ops L R then False
      else min (get_base ops L) (get_base ops R) = 0
         \<and> max (get_inclusive_end ops L) (get_inclusive_end ops R) = - 1)"

definition merge_mem_regions :: "'c mem_cfg_ops \<Rightarrow> 'c \<Rightarrow> 'c \<Rightarrow> 'c result" where
  "merge_mem_regions ops L R =
     bindE (assertE (check_mem_overlap ops L R) (CAssert ''check_mem_overlap''))
     (\<lambda>_. let merged_base = min (get_base ops L) (get_base ops R);
              merged_end_incl = max (get_inclusive_end ops L) (get_inclusive_end ops R);
              merged_size = merged_end_incl - merged_base + 1
          in mc_make ops merged_base merged_size)"

text \<open>\<open>std::sort\<close> with the comparison function of the call.\<close>

fun insert_by :: "('a \<Rightarrow> 'a \<Rightarrow> bool) \<Rightarrow> 'a \<Rightarrow> 'a list \<Rightarrow> 'a list" where
  "insert_by lt x [] = [x]"
| "insert_by lt x (y # ys) = (if lt y x then y # insert_by lt x ys else x # y # ys)"

definition sort_by :: "('a \<Rightarrow> 'a \<Rightarrow> bool) \<Rightarrow> 'a list \<Rightarrow> 'a list" where
  "sort_by lt xs = foldr (insert_by lt) xs []"

fun merge_loop :: "'c mem_cfg_ops \<Rightarrow> u64 \<Rightarrow> 'c list \<Rightarrow> 'c list \<Rightarrow> 'c list result" where
  "merge_loop ops pgsize merged_mem [] = Inr merged_mem"
| "merge_loop ops pgsize merged_mem (mem_int # mems) =
     (if \<not> check_mem_overlap ops (last merged_mem) mem_int then merge_loop ops pgsize (merged_mem @ [mem_int]) mems
      else if check_if_merge_covers_64bit_space ops (last merged_mem) mem_int
      then bindE (mc_make ops 0 (0 - pgsize)) (\<lambda>a. bindE (mc_make ops (0 - pgsize) pgsize) (\<lambda>b. Inr [a, b]))
      else bindE (merge_mem_regions ops (last merged_mem) mem_int)
        (\<lambda>m. merge_loop ops pgsize (butlast merged_mem @ [m]) mems))"

definition merge_overlapping_memory_regions :: "'c mem_cfg_ops \<Rightarrow> u64 \<Rightarrow> 'c list \<Rightarrow> 'c list result" where
  "merge_overlapping_memory_regions ops pgsize mems =
     (if mems = [] then Inr []
      else let mems = sort_by (sort_mem_region ops) mems in merge_loop ops pgsize [hd mems] (tl mems))"

section \<open>Numbers\<close>

definition digit_value :: "char \<Rightarrow> nat" where
  "digit_value c = (let n = of_char c in
     if 48 \<le> n \<and> n \<le> 57 then n - 48 else if 97 \<le> n \<and> n \<le> 122 then n - 87
     else if 65 \<le> n \<and> n \<le> 90 then n - 55 else 99)"

definition number_digits :: "nat \<Rightarrow> string \<Rightarrow> string" where
  "number_digits base s = takeWhile (\<lambda>c. digit_value c < base) s"

definition number_value :: "nat \<Rightarrow> string \<Rightarrow> nat" where
  "number_value base ds = foldl (\<lambda>n c. base * n + digit_value c) 0 ds"

text \<open>White space and a sign: whether it is a minus, and what follows.\<close>

definition skip_sign :: "string \<Rightarrow> bool \<times> string" where
  "skip_sign str =
     (case dropWhile is_space_char str of
        [] \<Rightarrow> (False, [])
      | c # cs \<Rightarrow> if c = CHR ''-'' then (True, cs) else if c = CHR ''+'' then (False, cs) else (False, c # cs))"

text \<open>The prefix that selects the base when the base given is 0.\<close>

definition number_prefix :: "nat \<Rightarrow> string \<Rightarrow> nat \<times> string" where
  "number_prefix base s =
     (if (base = 0 \<or> base = 16) \<and> length s \<ge> 3 \<and> s ! 0 = CHR ''0'' \<and> (s ! 1 = CHR ''x'' \<or> s ! 1 = CHR ''X'')
         \<and> digit_value (s ! 2) < 16 then (16, drop 2 s)
      else if base = 0 then (if s \<noteq> [] \<and> hd s = CHR ''0'' then 8 else 10, s)
      else (base, s))"

text \<open>
  The C library's \<open>strtoull\<close>: white space, a sign, a prefix, digits; the value saturates, a minus sign negates it;
  the rest of the string is returned, all of it when there is no number.
\<close>

definition strtoull_end :: "string \<Rightarrow> nat \<Rightarrow> u64 \<times> string" where
  "strtoull_end arg base0 =
     (case skip_sign arg of
        (neg, s1) \<Rightarrow>
          case number_prefix base0 s1 of
            (base, s2) \<Rightarrow>
              let ds = number_digits base s2;
                  n = number_value base ds;
                  v = (if n \<ge> 2 ^ 64 then - 1 else if neg then - word_of_nat n else word_of_nat n)
              in if ds = [] then (0, arg) else (v, drop (length ds) s2))"

lemma skip_sign_length: "length (snd (skip_sign str)) \<le> length str"
proof -
  have "length (dropWhile is_space_char str) \<le> length str" by (rule length_dropWhile_le)
  then show ?thesis by (auto simp: skip_sign_def split: list.splits)
qed

lemma number_prefix_length: "length (snd (number_prefix b s)) \<le> length s"
  by (simp add: number_prefix_def)

section \<open>parse_mem_layout\<close>

text \<open>\<open>help\<close> and the failure branches end the process.\<close>

definition exit_failure :: "'a result" where
  "exit_failure = Inl (Thrown ''exit(1)'')"

definition layout_region :: "'c mem_cfg_ops \<Rightarrow> u64 \<Rightarrow> nat \<Rightarrow> u64 \<Rightarrow> u64 \<Rightarrow> 'c result" where
  "layout_region ops pgsize max_paddr_bits base0 size0 =
     (let size1 = size0 + base0 mod pgsize;
          base = base0 - base0 mod pgsize;
          size2 = (if size1 mod pgsize \<noteq> 0 then size1 + (pgsize - size1 mod pgsize) else size1)
      in if \<not> check_if_supported ops base size2 then exit_failure
         else bindE (mc_make ops base size2)
           (\<lambda>r. if get_inclusive_end ops r > push_bit max_paddr_bits 1 - 1 then exit_failure else Inr r))"

lemma strtoull_length: "length (snd (strtoull_end arg b)) \<le> length arg"
proof -
  obtain neg s1 base s2 where s: "skip_sign arg = (neg, s1)" "number_prefix b s1 = (base, s2)" by fastforce
  then have "length s1 \<le> length arg" "length s2 \<le> length s1"
    using skip_sign_length [of arg] number_prefix_length [of b s1] by simp_all
  with s show ?thesis by (auto simp: strtoull_end_def Let_def)
qed

lemma layout_shorter:
  assumes "strtoull_end arg 0 = (base, p)" "p \<noteq> []" "strtoull_end (tl p) 0 = (len, p1)" "p1 \<noteq> []"
  shows "length (tl p1) < length arg"
  using strtoull_length [of arg 0] strtoull_length [of "tl p" 0] assms by (cases p; cases p1) auto

function layout_loop :: "'c mem_cfg_ops \<Rightarrow> u64 \<Rightarrow> nat \<Rightarrow> string \<Rightarrow> 'c list \<Rightarrow> 'c list result" where
  "layout_loop ops pgsize max_paddr_bits arg res =
     (case strtoull_end arg 0 of
        (base, p) \<Rightarrow>
          if p = [] \<or> hd p \<noteq> CHR '':'' then exit_failure
          else case strtoull_end (tl p) 0 of
            (len, p1) \<Rightarrow>
              (case layout_region ops pgsize max_paddr_bits base len of
                 Inl e \<Rightarrow> Inl e
               | Inr r \<Rightarrow>
                   if p1 = [] then Inr (res @ [r])
                   else if hd p1 \<noteq> CHR '','' then exit_failure
                   else layout_loop ops pgsize max_paddr_bits (tl p1) (res @ [r])))"
  by pat_completeness auto

termination
  by (relation "measure (\<lambda>(_, _, _, arg, _). length arg)") (auto intro: layout_shorter [OF sym _ sym] simp del: length_tl)

declare layout_loop.simps [simp del]

definition parse_mem_layout :: "'c mem_cfg_ops \<Rightarrow> u64 \<Rightarrow> nat \<Rightarrow> u64 \<Rightarrow> string \<Rightarrow> 'c list result" where
  "parse_mem_layout ops pgsize max_paddr_bits dram_base arg =
     (case strtoull_end arg 0 of
        (mb, p) \<Rightarrow>
          if p = [] then bindE (mc_make ops dram_base (push_bit 20 mb)) (\<lambda>r. Inr [r])
          else bindE (layout_loop ops pgsize max_paddr_bits arg [])
            (\<lambda>res. bindE (merge_overlapping_memory_regions ops pgsize res)
            (\<lambda>merged. bindE (assertE (merged \<noteq> []) (CAssert ''merged_mem'')) (\<lambda>_. Inr merged))))"

text \<open>\<open>new mem_t(size)\<close> is the simulator's: \<open>new_mem\<close>.\<close>

definition make_mems :: "'c mem_cfg_ops \<Rightarrow> (u64 \<Rightarrow> 'm) \<Rightarrow> 'c list \<Rightarrow> (u64 \<times> 'm) list" where
  "make_mems ops new_mem layout = map (\<lambda>cfg. (get_base ops cfg, new_mem (get_size ops cfg))) layout"

definition atoul_safe :: "string \<Rightarrow> u64 result" where
  "atoul_safe s = (case strtoull_end s 10 of (res, e) \<Rightarrow> if e \<noteq> [] then exit_failure else Inr res)"

definition atoul_nonzero_safe :: "string \<Rightarrow> u64 result" where
  "atoul_nonzero_safe s = bindE (atoul_safe s) (\<lambda>res. if res = 0 then exit_failure else Inr res)"

section \<open>parse_hartids\<close>

text \<open>\<open>stream >> n\<close> for an \<open>int\<close>: white space, a sign, digits; it fails without digits or out of range.\<close>

definition read_int :: "string \<Rightarrow> (int \<times> string) option" where
  "read_int str =
     (case skip_sign str of
        (neg, s1) \<Rightarrow>
          let ds = number_digits 10 s1;
              n = (if neg then - int (number_value 10 ds) else int (number_value 10 ds))
          in if ds = [] \<or> n < - (2 ^ 31) \<or> n \<ge> 2 ^ 31 then None else Some (n, drop (length ds) s1))"

lemma read_int_length: "read_int str = Some (n, s) \<Longrightarrow> length s < length str"
proof -
  assume a: "read_int str = Some (n, s)"
  obtain neg t where t: "skip_sign str = (neg, t)" by fastforce
  with a have d: "number_digits 10 t \<noteq> []" "s = drop (length (number_digits 10 t)) t"
    by (auto simp: read_int_def Let_def split: if_splits)
  then have "t \<noteq> []" by (auto simp: number_digits_def)
  with d have "length s < length t" by simp
  then show ?thesis using skip_sign_length [of str] t by simp
qed

function hartid_loop :: "string \<Rightarrow> int list \<Rightarrow> int list result" where
  "hartid_loop stream hartids =
     (case read_int stream of
        None \<Rightarrow> Inr hartids
      | Some (n, rest) \<Rightarrow>
          if n < 0 then Inl (Thrown ''exit(-1)'')
          else hartid_loop (if rest \<noteq> [] \<and> hd rest = CHR '','' then tl rest else rest) (hartids @ [n]))"
  by pat_completeness auto

termination
proof (relation "measure (\<lambda>(s, _). length s)", simp, goal_cases)
  case (1 stream hartids x n rest)
  then have "length rest < length stream" by (auto intro: read_int_length)
  then show ?case by auto
qed

declare hartid_loop.simps [simp del]

definition parse_hartids :: "string \<Rightarrow> int list result" where
  "parse_hartids s =
     bindE (hartid_loop s [])
     (\<lambda>hartids. if hartids = [] then Inl (Thrown ''exit(-1)'')
        else let h = sort hartids in
          if \<exists>i < length h - 1. h ! i = h ! Suc i then Inl (Thrown ''exit(-1)'') else Inr h)"

section \<open>Merging keeps the memory\<close>

text \<open>
  What the code relies on of \<open>mem_cfg_t\<close>, for pages of \<open>2 ^ k\<close> bytes: a region knows its base, size and last
  address, and the constructor accepts every non-empty region of whole pages that does not wrap around.
\<close>

definition paged :: "nat \<Rightarrow> u64 \<Rightarrow> bool" where
  "paged k x \<longleftrightarrow> 2 ^ k dvd x"

definition mem_cfg_ok :: "'c mem_cfg_ops \<Rightarrow> nat \<Rightarrow> bool" where
  "mem_cfg_ok ops k \<longleftrightarrow>
     (\<forall>b s c. mc_make ops b s = Inr c \<longrightarrow> get_base ops c = b \<and> get_size ops c = s \<and> get_inclusive_end ops c = b + s - 1)
   \<and> (\<forall>b s. paged k b \<and> paged k s \<and> s \<noteq> 0 \<and> b \<le> b + s - 1 \<longrightarrow> (\<exists>c. mc_make ops b s = Inr c))"

definition region_ok :: "'c mem_cfg_ops \<Rightarrow> nat \<Rightarrow> 'c \<Rightarrow> bool" where
  "region_ok ops k c \<longleftrightarrow> get_inclusive_end ops c = get_base ops c + get_size ops c - 1 \<and> get_base ops c \<le> get_inclusive_end ops c
     \<and> get_size ops c \<noteq> 0 \<and> paged k (get_base ops c) \<and> paged k (get_size ops c)"

definition region :: "'c mem_cfg_ops \<Rightarrow> 'c \<Rightarrow> u64 set" where
  "region ops c = {get_base ops c..get_inclusive_end ops c}"

definition layout_set :: "'c mem_cfg_ops \<Rightarrow> 'c list \<Rightarrow> u64 set" where
  "layout_set ops cs = (\<Union>c \<in> set cs. region ops c)"

definition ascending :: "'c mem_cfg_ops \<Rightarrow> 'c list \<Rightarrow> bool" where
  "ascending ops cs \<longleftrightarrow> sorted_wrt (\<lambda>a b. get_inclusive_end ops a < get_base ops b) cs"

lemma layout_set_simps [simp]:
  "layout_set ops [] = {}" "layout_set ops (c # cs) = region ops c \<union> layout_set ops cs"
  "layout_set ops (cs @ ds) = layout_set ops cs \<union> layout_set ops ds"
  by (auto simp: layout_set_def)

lemma paged_add: "paged k x \<Longrightarrow> paged k y \<Longrightarrow> paged k (x + y)"
  by (simp add: paged_def)

lemma paged_diff: "paged k x \<Longrightarrow> paged k y \<Longrightarrow> paged k (x - y)"
  by (simp add: paged_def)

lemma make_ok:
  assumes "mem_cfg_ok ops k" "paged k b" "paged k s" "s \<noteq> 0" "b \<le> b + s - 1"
  shows "\<exists>c. mc_make ops b s = Inr c \<and> get_base ops c = b \<and> get_inclusive_end ops c = b + s - 1 \<and> region_ok ops k c"
  using assms unfolding mem_cfg_ok_def region_ok_def by metis

lemma insert_by_mset [simp]: "mset (insert_by lt x ys) = add_mset x (mset ys)"
  by (induction ys) auto

lemma sort_by_mset [simp]: "mset (sort_by lt xs) = mset xs"
  by (induction xs) (auto simp: sort_by_def)

lemma sort_by_set [simp]: "set (sort_by lt xs) = set xs"
  by (rule mset_eq_setD) simp

lemma insert_by_set [simp]: "set (insert_by lt x ys) = insert x (set ys)"
  by (induction ys) auto

lemma sort_mem_region_base:
  "sort_mem_region ops y x \<Longrightarrow> get_base ops y \<le> get_base ops x"
  "\<not> sort_mem_region ops y x \<Longrightarrow> get_base ops x \<le> get_base ops y"
  by (auto simp: sort_mem_region_def split: if_splits)

lemma insert_by_sorted:
  "sorted (map (get_base ops) ys) \<Longrightarrow> sorted (map (get_base ops) (insert_by (sort_mem_region ops) x ys))"
proof (induction ys)
  case (Cons y ys)
  then show ?case using sort_mem_region_base [of ops y x] by (cases "sort_mem_region ops y x") auto
qed simp

lemma sort_by_sorted: "sorted (map (get_base ops) (sort_by (sort_mem_region ops) xs))"
  by (induction xs) (auto simp: sort_by_def insert_by_sorted)

lemma merge_pair:
  assumes "mem_cfg_ok ops k" "region_ok ops k L" "region_ok ops k R" "get_base ops L \<le> get_base ops R"
    and "check_mem_overlap ops L R" "\<not> check_if_merge_covers_64bit_space ops L R"
  shows "\<exists>m. merge_mem_regions ops L R = Inr m \<and> region_ok ops k m \<and> get_base ops m = get_base ops L
    \<and> region ops m = region ops L \<union> region ops R \<and> get_base ops R \<le> get_inclusive_end ops m"
proof -
  let ?b = "get_base ops L" and ?e = "max (get_inclusive_end ops L) (get_inclusive_end ops R)"
  have o: "get_base ops R \<le> get_inclusive_end ops L" using assms(4,5) by (simp add: check_mem_overlap_def max_def min_def split: if_splits)
  have b: "?b \<le> ?e" using assms(2) unfolding region_ok_def le_max_iff_disj by blast
  have nz: "?e - ?b + 1 \<noteq> 0"
  proof
    assume "?e - ?b + 1 = 0"
    then have e: "?e = ?b - 1" by (simp add: eq_neg_iff_add_eq_0 [symmetric] algebra_simps)
    have "?b \<noteq> 0" using assms(4-6) e by (auto simp: check_if_merge_covers_64bit_space_def min_def)
    then have "unat (?b - 1) < unat ?b" by (simp add: unat_minus_one unat_gt_0)
    with b show False unfolding e by (simp add: word_le_nat_alt)
  qed
  have ps: "paged k (get_base ops c + get_size ops c - ?b)" if "c = L \<or> c = R" for c
    using that assms(2,3) by (auto simp: region_ok_def intro: paged_add paged_diff)
  have sz: "?e - ?b + 1 = get_base ops c + get_size ops c - ?b" if "?e = get_inclusive_end ops c" "c = L \<or> c = R" for c
    using that assms(2,3) by (auto simp: region_ok_def)
  have "?e = get_inclusive_end ops L \<or> ?e = get_inclusive_end ops R" by (auto simp: max_def)
  then have "paged k (?e - ?b + 1)" using ps sz by metis
  moreover have "paged k ?b" using assms(2) by (simp add: region_ok_def)
  ultimately obtain m where m: "mc_make ops ?b (?e - ?b + 1) = Inr m" "get_base ops m = ?b" "get_inclusive_end ops m = ?e" "region_ok ops k m"
    using make_ok [OF assms(1), of ?b "?e - ?b + 1"] nz b by auto
  have "region ops m = region ops L \<union> region ops R"
    using m(2,3) o assms(4) b by (auto simp: region_def max_def split: if_splits)
  with m assms(4,5) o show ?thesis by (auto simp: merge_mem_regions_def Let_def min_def le_max_iff_disj)
qed

lemma ascending_snoc:
  "ascending ops (cs @ [c]) \<longleftrightarrow> ascending ops cs \<and> (\<forall>d \<in> set cs. get_inclusive_end ops d < get_base ops c)"
  by (simp add: ascending_def sorted_wrt_append)

text \<open>The two regions that stand for the whole address space.\<close>

lemma whole_space:
  assumes "mem_cfg_ok ops k" "0 < k" "k < 64"
  shows "\<exists>a b. mc_make ops 0 (0 - 2 ^ k) = Inr a \<and> mc_make ops (0 - 2 ^ k) (2 ^ k) = Inr b \<and> region_ok ops k a \<and> region_ok ops k b
    \<and> ascending ops [a, b] \<and> layout_set ops [a, b] = UNIV"
proof -
  have p: "(2 ^ k :: u64) \<noteq> 0" using assms(3) by simp
  have n: "0 - (2 ^ k :: u64) \<noteq> 0" using p by simp
  have "paged k 0" "paged k (0 - 2 ^ k)" "paged k (2 ^ k)" by (simp_all add: paged_def)
  with make_ok [OF assms(1), of 0 "0 - 2 ^ k"] make_ok [OF assms(1), of "0 - 2 ^ k" "2 ^ k"] p n
  obtain a b where a: "mc_make ops 0 (0 - 2 ^ k) = Inr a" "get_base ops a = 0" "get_inclusive_end ops a = - (2 ^ k) - 1" "region_ok ops k a"
    and b: "mc_make ops (0 - 2 ^ k) (2 ^ k) = Inr b" "get_base ops b = - (2 ^ k)" "get_inclusive_end ops b = - 1" "region_ok ops k b"
    by auto
  have l: "unat (- (2 ^ k) - 1 :: u64) < unat (- (2 ^ k) :: u64)" using n by (simp add: unat_minus_one unat_gt_0)
  have "\<forall>x :: u64. x \<le> - (2 ^ k) - 1 \<or> - (2 ^ k) \<le> x"
    using n by (auto simp: word_le_nat_alt unat_minus_one)
  then have "layout_set ops [a, b] = UNIV" using a(2,3) b(2,3) by (fastforce simp: region_def)
  moreover have "ascending ops [a, b]" using a(3) b(2) l by (simp add: ascending_def word_less_nat_alt)
  ultimately show ?thesis using a b by blast
qed

lemma merge_loop_ok:
  assumes "mem_cfg_ok ops k" "0 < k" "k < 64" "merged \<noteq> []" "ascending ops merged" "\<forall>c \<in> set (merged @ mems). region_ok ops k c"
    and "sorted (map (get_base ops) (last merged # mems))"
  shows "\<exists>rs. merge_loop ops (2 ^ k) merged mems = Inr rs \<and> rs \<noteq> [] \<and> ascending ops rs \<and> (\<forall>c \<in> set rs. region_ok ops k c)
    \<and> layout_set ops rs = layout_set ops merged \<union> layout_set ops mems"
  using assms(4-7)
proof (induction mems arbitrary: merged)
  case Nil
  then show ?case by simp
next
  case (Cons m mems)
  obtain cs L where L: "merged = cs @ [L]" using Cons.prems(1) by (cases merged rule: rev_cases) auto
  have ok: "region_ok ops k L" "region_ok ops k m" using Cons.prems(3) by (simp_all add: L)
  have le: "get_base ops L \<le> get_base ops m" "sorted (map (get_base ops) (m # mems))" "\<forall>x \<in> set mems. get_base ops L \<le> get_base ops x"
    using Cons.prems(4) by (auto simp: L)
  have end_ok: "get_base ops c \<le> get_inclusive_end ops c" if "region_ok ops k c" for c using that unfolding region_ok_def by blast
  show ?case
  proof (cases "check_mem_overlap ops L m")
    case False
    then have lm: "get_inclusive_end ops L < get_base ops m"
      using le(1) end_ok [OF ok(2)] by (auto simp: check_mem_overlap_def max_def min_def split: if_splits)
    have "\<forall>d \<in> set merged. get_inclusive_end ops d < get_base ops m"
      using Cons.prems(2) lm le(1) by (auto simp: L ascending_snoc)
    then have "ascending ops (merged @ [m])" using Cons.prems(2) by (simp add: ascending_snoc)
    from Cons.IH [OF _ this] Cons.prems(3) le(2) False show ?thesis by (auto simp: L Un_assoc)
  next
    case True
    show ?thesis
    proof (cases "check_if_merge_covers_64bit_space ops L m")
      case cov: True
      have "region ops L \<union> region ops m = UNIV"
        using cov True le(1) by (auto simp: check_if_merge_covers_64bit_space_def check_mem_overlap_def region_def max_def min_def split: if_splits)
      then have "layout_set ops merged \<union> layout_set ops (m # mems) = UNIV" by (auto simp: L)
      with whole_space [OF assms(1-3)] cov True show ?thesis by (auto simp: L)
    next
      case False
      from merge_pair [OF assms(1) ok le(1) True False] obtain x where
        x: "merge_mem_regions ops L m = Inr x" "region_ok ops k x" "get_base ops x = get_base ops L"
          "region ops x = region ops L \<union> region ops m" by blast
      have "ascending ops (cs @ [x])" using Cons.prems(2) x(3) by (simp add: L ascending_snoc)
      moreover have "sorted (map (get_base ops) (last (cs @ [x]) # mems))" using le x(3) by auto
      moreover have "\<forall>c \<in> set ((cs @ [x]) @ mems). region_ok ops k c" using Cons.prems(3) x(2) by (auto simp: L)
      ultimately show ?thesis using Cons.IH [of "cs @ [x]"] True False x(1,4) by (auto simp: L Un_assoc)
    qed
  qed
qed

lemma merge_regions_ok:
  assumes "mem_cfg_ok ops k" "0 < k" "k < 64" "\<forall>c \<in> set mems. region_ok ops k c"
  shows "\<exists>rs. merge_overlapping_memory_regions ops (2 ^ k) mems = Inr rs \<and> layout_set ops rs = layout_set ops mems
    \<and> ascending ops rs \<and> (\<forall>c \<in> set rs. region_ok ops k c) \<and> (rs = [] \<longleftrightarrow> mems = [])"
proof (cases "mems = []")
  case True
  then show ?thesis by (simp add: merge_overlapping_memory_regions_def ascending_def)
next
  case False
  let ?s = "sort_by (sort_mem_region ops) mems"
  obtain c cs where s: "?s = c # cs" using False sort_by_set [of "sort_mem_region ops" mems] by (cases ?s) auto
  then have "set (c # cs) = set mems" by (metis sort_by_set)
  then have "layout_set ops (c # cs) = layout_set ops mems" "\<forall>x \<in> set ([c] @ cs). region_ok ops k x"
    using assms(4) by (auto simp: layout_set_def)
  moreover have "sorted (map (get_base ops) (last [c] # cs))" using sort_by_sorted [of ops mems] s by simp
  ultimately show ?thesis
    using merge_loop_ok [OF assms(1-3), of "[c]" cs] s False
    by (auto simp: merge_overlapping_memory_regions_def Let_def ascending_def)
qed

text \<open>
  (C25) Merging the regions of the command line keeps the memory they describe. For regions of whole pages, in
  any order and overlapping in any way, the result covers exactly the same addresses, its regions are
  pairwise disjoint and in ascending order, and each is again a region of whole pages that the constructor
  accepts; in particular the constructor never fails, also when the regions together cover the whole
  64-bit address space.
\<close>

theorem merge_regions_correct:
  assumes "mem_cfg_ok ops k" "0 < k" "k < 64" "\<forall>c \<in> set mems. region_ok ops k c"
  shows "\<exists>rs. merge_overlapping_memory_regions ops (2 ^ k) mems = Inr rs
    \<and> (\<Union>c \<in> set rs. {get_base ops c..get_inclusive_end ops c}) = (\<Union>c \<in> set mems. {get_base ops c..get_inclusive_end ops c})
    \<and> sorted_wrt (\<lambda>a b. get_inclusive_end ops a < get_base ops b) rs \<and> (\<forall>c \<in> set rs. region_ok ops k c)"
  using merge_regions_ok [OF assms] by (auto simp: layout_set_def region_def ascending_def)

text \<open>Regions as pairs of base and size.\<close>

definition demo_cfg :: "(u64 \<times> u64) mem_cfg_ops" where
  "demo_cfg = \<lparr>mc_make = (\<lambda>b s. Inr (b, s)), get_base = fst, get_size = snd, get_inclusive_end = (\<lambda>(b, s). b + s - 1),
     check_if_supported = (\<lambda>b s. s \<noteq> 0 \<and> b \<le> b + s - 1)\<rparr>"

lemma demo_cfg_ok: "mem_cfg_ok demo_cfg k"
  by (simp add: mem_cfg_ok_def demo_cfg_def)

theorem merge_regions_correct_witness:
  "\<exists>rs. merge_overlapping_memory_regions demo_cfg (2 ^ 12) [(0x1000, 0x2000), (0, 0x2000)] = Inr rs
    \<and> (\<Union>c \<in> set rs. {get_base demo_cfg c..get_inclusive_end demo_cfg c}) = {0..0x1fff} \<union> {0x1000..0x2fff}
    \<and> (\<forall>c \<in> set rs. region_ok demo_cfg 12 c)"
proof -
  have "paged 12 0" "paged 12 0x1000" "paged 12 0x2000"
    using dvd_triv_left [of "2 ^ 12 :: u64" 2] by (simp_all add: paged_def)
  then have "\<forall>c \<in> set [(0x1000, 0x2000), (0, 0x2000)]. region_ok demo_cfg 12 c"
    by (simp add: region_ok_def demo_cfg_def)
  from merge_regions_correct [OF demo_cfg_ok _ _ this] show ?thesis by (auto simp: demo_cfg_def)
qed

section \<open>Parsed layouts\<close>

lemma paged_round: "paged k (x - x mod 2 ^ k)"
  by (simp add: paged_def minus_mod_eq_mult_div)

lemma paged_round_up: "paged k (x + (2 ^ k - x mod 2 ^ k))"
proof -
  have e: "x + (2 ^ k - x mod 2 ^ k) = (x - x mod 2 ^ k) + 2 ^ k" by simp
  show ?thesis unfolding e by (rule paged_add [OF paged_round]) (simp add: paged_def)
qed

lemma paged_mod: "x mod 2 ^ k = 0 \<Longrightarrow> paged k x"
  using paged_round [of k x] by simp

lemma layout_region_ok:
  assumes "mem_cfg_ok ops k" "\<And>b s. check_if_supported ops b s \<Longrightarrow> s \<noteq> 0 \<and> b \<le> b + s - 1"
    and "layout_region ops (2 ^ k) mx base0 size0 = Inr r"
  shows "region_ok ops k r"
proof -
  let ?s1 = "size0 + base0 mod 2 ^ k" and ?b = "base0 - base0 mod 2 ^ k"
  let ?s = "if ?s1 mod 2 ^ k \<noteq> 0 then ?s1 + (2 ^ k - ?s1 mod 2 ^ k) else ?s1"
  have c: "check_if_supported ops ?b ?s" "mc_make ops ?b ?s = Inr r"
    using assms(3) by (auto simp: layout_region_def Let_def exit_failure_def bindE_eq_Inr split: if_splits)
  have "paged k ?s" using paged_round_up [of k ?s1] paged_mod [of ?s1 k] by auto
  moreover have "get_base ops r = ?b" "get_size ops r = ?s" "get_inclusive_end ops r = ?b + ?s - 1"
    using assms(1) c(2) unfolding mem_cfg_ok_def by blast+
  ultimately show ?thesis using assms(2) [OF c(1)] paged_round [of k base0] unfolding region_ok_def by simp
qed

lemma layout_loop_ok:
  assumes "mem_cfg_ok ops k" "\<And>b s. check_if_supported ops b s \<Longrightarrow> s \<noteq> 0 \<and> b \<le> b + s - 1"
    and "layout_loop ops (2 ^ k) mx arg res = Inr res'" "\<forall>c \<in> set res. region_ok ops k c"
  shows "(\<forall>c \<in> set res'. region_ok ops k c) \<and> res' \<noteq> []"
  using assms(3,4)
proof (induction "length arg" arbitrary: arg res rule: less_induct)
  case less
  obtain base p where p: "strtoull_end arg 0 = (base, p)" by fastforce
  obtain len p1 where p1: "strtoull_end (tl p) 0 = (len, p1)" by fastforce
  from less.prems(1) p p1 have np: "p \<noteq> []" by (subst (asm) layout_loop.simps) (auto simp: exit_failure_def)
  obtain r where r: "layout_region ops (2 ^ k) mx base len = Inr r"
    using less.prems(1) p p1 by (subst (asm) layout_loop.simps) (auto simp: exit_failure_def split: if_splits sum.splits)
  then have ok: "\<forall>c \<in> set (res @ [r]). region_ok ops k c"
    using layout_region_ok [OF assms(1,2)] less.prems(2) by auto
  show ?case
  proof (cases "p1 = []")
    case True
    then have "res' = res @ [r]"
      using less.prems(1) p p1 r by (subst (asm) layout_loop.simps) (auto simp: exit_failure_def split: if_splits)
    with ok show ?thesis by simp
  next
    case False
    then have "layout_loop ops (2 ^ k) mx (tl p1) (res @ [r]) = Inr res'"
      using less.prems(1) p p1 r by (subst (asm) layout_loop.simps) (auto simp: exit_failure_def split: if_splits)
    from less.hyps [OF layout_shorter [OF p np p1 False] this ok] show ?thesis .
  qed
qed

text \<open>
  (C26) A memory layout given as base and size pairs that is accepted is a proper layout: at least one region,
  each of whole pages and not wrapping around, pairwise disjoint and in ascending order, whatever the
  numbers, their order and their alignment on the command line. The assertion that the merged list is not
  empty never fails.
\<close>

theorem parse_mem_layout_regions:
  assumes "mem_cfg_ok ops k" "0 < k" "k < 64" "\<And>b s. check_if_supported ops b s \<Longrightarrow> s \<noteq> 0 \<and> b \<le> b + s - 1"
    and "snd (strtoull_end arg 0) \<noteq> []"
  shows "case parse_mem_layout ops (2 ^ k) mx dram_base arg of
      Inl e \<Rightarrow> layout_loop ops (2 ^ k) mx arg [] = Inl e
    | Inr rs \<Rightarrow> rs \<noteq> [] \<and> (\<forall>c \<in> set rs. region_ok ops k c) \<and> sorted_wrt (\<lambda>a b. get_inclusive_end ops a < get_base ops b) rs"
proof (cases "layout_loop ops (2 ^ k) mx arg []")
  case (Inl e)
  then show ?thesis using assms(5) by (auto simp: parse_mem_layout_def split: prod.splits)
next
  case (Inr res)
  have ok: "(\<forall>c \<in> set res. region_ok ops k c) \<and> res \<noteq> []" by (rule layout_loop_ok [OF assms(1,4) Inr]) simp_all
  with merge_regions_ok [OF assms(1-3), of res] Inr assms(5) show ?thesis
    by (auto simp: parse_mem_layout_def ascending_def split: prod.splits)
qed

theorem parse_mem_layout_regions_witness:
  "case parse_mem_layout demo_cfg (2 ^ 12) 56 0x80000000 ''0x1000:0x1800,0:0x1000'' of
      Inl e \<Rightarrow> layout_loop demo_cfg (2 ^ 12) 56 ''0x1000:0x1800,0:0x1000'' [] = Inl e
    | Inr rs \<Rightarrow> rs \<noteq> [] \<and> (\<forall>c \<in> set rs. region_ok demo_cfg 12 c)
        \<and> sorted_wrt (\<lambda>a b. get_inclusive_end demo_cfg a < get_base demo_cfg b) rs"
proof -
  have h: "check_if_supported demo_cfg b s \<Longrightarrow> s \<noteq> 0 \<and> b \<le> b + s - 1" for b s by (simp add: demo_cfg_def)
  have "snd (strtoull_end ''0x1000:0x1800,0:0x1000'' 0) \<noteq> []"
    by (simp add: strtoull_end_def skip_sign_def is_space_char_def number_prefix_def number_digits_def digit_value_def Let_def)
  then show ?thesis by (rule parse_mem_layout_regions [OF demo_cfg_ok _ _ h, rotated -1]) simp_all
qed

section \<open>Parsed hart numbers\<close>

lemma no_adjacent_distinct:
  assumes "sorted h" "\<not> (\<exists>i < length h - 1. h ! i = h ! Suc i)"
  shows "distinct (h :: int list)"
  using assms
proof (induction h)
  case (Cons x h)
  have "\<not> (\<exists>i < length h - 1. h ! i = h ! Suc i)"
  proof
    assume "\<exists>i < length h - 1. h ! i = h ! Suc i"
    then obtain i where "i < length h - 1" "h ! i = h ! Suc i" by blast
    then have "Suc i < length (x # h) - 1" "(x # h) ! Suc i = (x # h) ! Suc (Suc i)" by auto
    with Cons.prems(2) show False by blast
  qed
  with Cons have d: "distinct h" by simp
  have "x \<notin> set h"
  proof (cases h)
    case (Cons y ys)
    then have "x \<noteq> y" using Cons.prems(2) by (metis Cons One_nat_def diff_Suc_1 length_Cons nth_Cons_0 nth_Cons_Suc zero_less_Suc)
    with Cons.prems(1) Cons show ?thesis by auto
  qed simp
  with d show ?case by simp
qed simp

lemma adjacent_iff:
  assumes "sorted (h :: int list)"
  shows "(\<exists>i < length h - 1. h ! i = h ! Suc i) \<longleftrightarrow> \<not> distinct h"
proof
  assume "\<exists>i < length h - 1. h ! i = h ! Suc i"
  then obtain i where "i < length h - 1" "h ! i = h ! Suc i" by blast
  then show "\<not> distinct h" using nth_eq_iff_index_eq [of h i "Suc i"] by (auto simp: less_diff_conv)
qed (use no_adjacent_distinct [OF assms] in blast)

lemma digit_value_digit: "d < (10 :: nat) \<Longrightarrow> digit_value (char_of (48 + d)) = d"
  by (simp add: digit_value_def Let_def)

lemma nat_to_string_digits:
  "nat_to_string n \<noteq> [] \<and> (\<forall>c \<in> set (nat_to_string n). is_digit_char c) \<and> number_value 10 (nat_to_string n) = n"
proof (induction n rule: nat_to_string.induct)
  case (1 n)
  show ?case
  proof (cases "n < 10")
    case True
    then show ?thesis by (simp add: nat_to_string.simps [of n] number_value_def digit_value_digit is_digit_char_def)
  next
    case False
    with 1 have i: "\<forall>c \<in> set (nat_to_string (n div 10)). is_digit_char c" "number_value 10 (nat_to_string (n div 10)) = n div 10"
      by simp_all
    have "number_value 10 (nat_to_string n) = 10 * (n div 10) + n mod 10"
      using False i(2) by (simp add: nat_to_string.simps [of n] number_value_def digit_value_digit)
    moreover have "is_digit_char (char_of (48 + n mod 10))" by (simp add: is_digit_char_def)
    ultimately show ?thesis using False i(1) by (auto simp: nat_to_string.simps [of n])
  qed
qed

lemma read_int_number:
  assumes "n < 2 ^ 31" "rest = [] \<or> 10 \<le> digit_value (hd rest)"
  shows "read_int (nat_to_string n @ rest) = Some (int n, rest)"
proof -
  note d = nat_to_string_digits [of n]
  obtain c cs where c: "nat_to_string n = c # cs" using d by (cases "nat_to_string n") auto
  then have "is_digit_char c" using d by (metis list.set_intros(1))
  then have "\<not> is_space_char c" "c \<noteq> CHR ''-''" "c \<noteq> CHR ''+''" by (auto simp: is_space_char_def is_digit_char_def)
  then have s: "skip_sign (nat_to_string n @ rest) = (False, nat_to_string n @ rest)" by (simp add: skip_sign_def c)
  have "\<forall>c \<in> set (nat_to_string n). digit_value c < 10" using d by (auto simp: digit_value_def is_digit_char_def Let_def)
  then have t: "number_digits 10 (nat_to_string n @ rest) = nat_to_string n"
    using assms(2) by (cases rest) (auto simp: number_digits_def takeWhile_append2)
  have "int n < 2 ^ 31" using assms(1) by simp
  with s t d show ?thesis by (simp add: read_int_def Let_def)
qed

text \<open>The hart numbers as the user would write them.\<close>

fun hart_text :: "nat list \<Rightarrow> string" where
  "hart_text [] = []"
| "hart_text [n] = nat_to_string n"
| "hart_text (n # m # ns) = nat_to_string n @ CHR '','' # hart_text (m # ns)"

lemma hartid_loop_step:
  "read_int s = Some (int n, rest) \<Longrightarrow> hartid_loop s hs = hartid_loop (if rest \<noteq> [] \<and> hd rest = CHR '','' then tl rest else rest) (hs @ [int n])"
  by (subst hartid_loop.simps) simp

lemma hartid_loop_end: "hartid_loop [] hs = Inr hs"
  by (subst hartid_loop.simps) (simp add: read_int_def skip_sign_def number_digits_def)

lemma hartid_loop_text: "\<forall>n \<in> set ns. n < 2 ^ 31 \<Longrightarrow> hartid_loop (hart_text ns) hs = Inr (hs @ map int ns)"
proof (induction ns arbitrary: hs rule: hart_text.induct)
  case 1
  then show ?case by (simp add: hartid_loop_end)
next
  case (2 n)
  then have "read_int (nat_to_string n) = Some (int n, [])" using read_int_number [of n "[]"] by simp
  then show ?case by (simp add: hartid_loop_step hartid_loop_end)
next
  case (3 n m ns)
  have "10 \<le> digit_value CHR '',''" by (simp add: digit_value_def)
  then have "read_int (hart_text (n # m # ns)) = Some (int n, CHR '','' # hart_text (m # ns))"
    using 3 read_int_number [of n "CHR '','' # hart_text (m # ns)"] by simp
  from hartid_loop_step [OF this, of hs] 3 show ?case by simp
qed

text \<open>
  Reading hart numbers back. A comma-separated list of numbers in the range of \<open>int\<close> is parsed to those
  numbers in ascending order, when they are pairwise different; a list with a duplicate, or an empty one,
  ends the process.
\<close>

theorem parse_hartids_roundtrip:
  assumes "\<forall>n \<in> set ns. n < 2 ^ 31"
  shows "parse_hartids (hart_text ns) = (if distinct ns \<and> ns \<noteq> [] then Inr (sort (map int ns)) else Inl (Thrown ''exit(-1)''))"
proof -
  have "distinct (sort (map int ns)) \<longleftrightarrow> distinct ns" by (simp add: distinct_map inj_on_def)
  moreover note adjacent_iff [of "sort (map int ns)"] hartid_loop_text [OF assms, of "[]"]
  ultimately show ?thesis by (simp add: parse_hartids_def Let_def)
qed

theorem parse_hartids_roundtrip_witness:
  "parse_hartids (hart_text [7, 0, 12]) = Inr [0, 7, 12] \<and> parse_hartids (hart_text [3, 3]) = Inl (Thrown ''exit(-1)'')"
  using parse_hartids_roundtrip [of "[7, 0, 12]"] parse_hartids_roundtrip [of "[3, 3]"] by simp

end
