(* ===== verification/Spike_Adapter.thy ===== *)
theory Spike_Adapter
  imports Data_Backup Inst_Generator Mem_Layout
begin

text \<open>
  \<open>utils/spikeInterface/src/spikeInterface\<close>: the adapter around the functional simulator Spike. It keeps two
  simulators: one that follows the predicted path and a reference that only advances on the correct one. The
  simulators are third-party code: of each the model has the processor state the adapter copies, as a
  record, and everything else as a value of type \<open>'m\<close> with the calls the adapter makes as arguments.
\<close>

section \<open>State\<close>

type_synonym commit_log_reg_t = "(u64 \<times> (u64 \<times> u64)) list"
type_synonym commit_log_mem_t = "(u64 \<times> u64 \<times> u8) list"

text \<open>The registers of a processor that the adapter saves, restores and compares.\<close>

record RegEntry =
  re_XPR :: "nat \<Rightarrow> u64"
  re_FPR :: "nat \<Rightarrow> u64 \<times> u64"
  re_prv :: u64
  re_prev_prv :: u64
  re_prv_changed :: bool
  re_v_changed :: bool
  re_v :: bool
  re_prev_v :: bool
  re_debug_mode :: bool
  re_serialized :: bool
  re_log_reg_write :: commit_log_reg_t
  re_log_mem_read :: commit_log_mem_t
  re_log_mem_write :: commit_log_mem_t
  re_last_inst_priv :: u64
  re_last_inst_xlen :: int
  re_last_inst_flen :: int

record 'm sim =
  sim_pc :: u64
  sim_regs :: RegEntry
  sim_mem :: 'm

text \<open>An instruction in the tunnel, with the members that only the adapter uses.\<close>

record logged_insn = spike_insn +
  si_valid :: bool
  si_log_reg_write :: commit_log_reg_t
  si_log_mem_read :: commit_log_mem_t
  si_log_mem_write :: commit_log_mem_t
  si_last_inst_priv :: u64
  si_last_inst_xlen :: int
  si_last_inst_flen :: int

definition mk_spike_insn :: "u64 \<Rightarrow> bool \<Rightarrow> u64 \<Rightarrow> logged_insn" where
  "mk_spike_insn bits rvc pc_in = \<lparr>si_bits = bits, si_pc = pc_in, si_isRvc = rvc, si_reg_write = [], si_mem_read = [], si_mem_write = [],
     si_valid = False, si_log_reg_write = [], si_log_mem_read = [], si_log_mem_write = [], si_last_inst_priv = 0,
     si_last_inst_xlen = 0, si_last_inst_flen = 0\<rparr>"

text \<open>\<open>ad_blocks\<close> are the blocks \<open>commitHook\<close> allocates; a pointer to the \<open>i\<close>-th is \<open>i + 1\<close>.\<close>

record 'm SpikeAdapter =
  ad_sim :: "'m sim"
  ad_sim_fast :: "'m sim"
  ad_tunnel :: "logged_insn option"
  ad_is_done :: bool
  ad_fromhost_queue :: "u64 list"
  ad_npc :: "u64 option"
  ad_is_prediction_miss :: bool
  ad_memory_backup :: "MemoryEntry DataBackup"
  ad_reg_backup :: "RegEntry list"
  ad_spike_npc :: u64
  ad_blocks :: "u8 list list"

section \<open>Hooks the simulator calls\<close>

definition ad_spikeGetNextInst :: "'m SpikeAdapter \<Rightarrow> logged_insn option \<times> 'm SpikeAdapter" where
  "ad_spikeGetNextInst s = (ad_tunnel s, s\<lparr>ad_tunnel := None\<rparr>)"

definition ad_decodeHook :: "'m SpikeAdapter \<Rightarrow> u64 \<Rightarrow> bool \<Rightarrow> u64 \<Rightarrow> u64 \<Rightarrow> 'm SpikeAdapter" where
  "ad_decodeHook s bits rvc pc_in npc =
     (if npc = 3 then s
      else let s1 = (if npc = 5 then s\<lparr>ad_spike_npc := sim_pc (ad_sim s)\<rparr> else s)
           in s1\<lparr>ad_tunnel := Some (mk_spike_insn bits rvc pc_in)\<rparr>)"

definition ad_setNpc :: "'m SpikeAdapter \<Rightarrow> u64 \<Rightarrow> 'm SpikeAdapter" where
  "ad_setNpc s npc = s\<lparr>ad_npc := Some npc, ad_sim := (ad_sim s)\<lparr>sim_pc := npc\<rparr>\<rparr>"

definition ad_getNpcHook :: "'m SpikeAdapter \<Rightarrow> u64 \<Rightarrow> u64 \<times> 'm SpikeAdapter" where
  "ad_getNpcHook s spike_npc = (spike_npc, s\<lparr>ad_spike_npc := spike_npc\<rparr>)"

definition ad_setPredictionMiss :: "'m SpikeAdapter \<Rightarrow> bool \<Rightarrow> 'm SpikeAdapter" where
  "ad_setPredictionMiss s b = s\<lparr>ad_is_prediction_miss := b\<rparr>"

definition ad_getPredictionMiss :: "'m SpikeAdapter \<Rightarrow> bool" where
  "ad_getPredictionMiss s = ad_is_prediction_miss s"

definition ad_excptionHook :: "'m SpikeAdapter \<Rightarrow> u64 \<Rightarrow> u64 \<Rightarrow> u64 \<times> 'm SpikeAdapter" where
  "ad_excptionHook s insn_length pc_in =
     (if ad_getPredictionMiss s then (- 1, ad_setNpc s (pc_in + insn_length)) else (0, s))"

definition ad_getCsrHook :: "'m SpikeAdapter \<Rightarrow> bool" where
  "ad_getCsrHook s = (\<not> ad_getPredictionMiss s)"

definition ad_catchDataBeforeWriteHook :: "('m \<Rightarrow> u64 \<Rightarrow> nat \<Rightarrow> u64 option) \<Rightarrow> 'm SpikeAdapter \<Rightarrow> u64 \<Rightarrow> u64 \<Rightarrow> u64
    \<Rightarrow> 'm SpikeAdapter result" where
  "ad_catchDataBeforeWriteHook ld s addr data len =
     (if \<not> ad_getPredictionMiss s then
        bindE (assertE (len \<in> {1, 2, 4, 8}) (CAssert ''false''))
        (\<lambda>_. let cmp = (case ld (sim_mem (ad_sim_fast s)) addr (unat len) of None \<Rightarrow> data | Some v \<Rightarrow> v)
             in bindE (assertE (cmp = data) (SpartaAssert ''store data'')) (\<lambda>_. Inr s))
      else bindE (backup_store ld (ad_memory_backup s) (sim_mem (ad_sim s)) addr len)
        (\<lambda>b. Inr (s\<lparr>ad_memory_backup := b\<rparr>)))"

section \<open>commitHook\<close>

definition ad_malloc :: "u8 list \<Rightarrow> 'm SpikeAdapter \<Rightarrow> u64 \<times> 'm SpikeAdapter" where
  "ad_malloc bs s = (word_of_nat (Suc (length (ad_blocks s))), s\<lparr>ad_blocks := ad_blocks s @ [bs]\<rparr>)"

definition word_bytes :: "u64 \<Rightarrow> u8 list" where
  "word_bytes w = map (byte_at w) [0..<8]"

text \<open>
  One entry of the register log: its key carries the register number and, in the low four bits, the kind of
  register. \<open>csr_name\<close>, \<open>vlen\<close> and \<open>velt\<close> are the simulator's names of control registers and its vector unit.
\<close>

definition commit_reg :: "(int \<Rightarrow> string) \<Rightarrow> int \<Rightarrow> (int \<Rightarrow> u8 list) \<Rightarrow> int \<Rightarrow> int \<Rightarrow> RegWrite_t \<times> 'm SpikeAdapter
    \<Rightarrow> u64 \<times> (u64 \<times> u64) \<Rightarrow> (RegWrite_t \<times> 'm SpikeAdapter) result" where
  "commit_reg csr_name vlen velt xlen flen = (\<lambda>(out, s) (key, (lo, hi)).
     if key = 0 then Inr (out, s)
     else let rd = sint (ucast (drop_bit 4 key) :: u32); kind = key AND 0xf in
       if kind > 4 then Inl (CAssert ''kind of register'')
       else if kind = 3 then Inr (out, s)
       else let size = (if kind = 0 then xlen else if kind = 1 then flen else if kind = 2 then vlen else xlen);
                reg_name = (if kind = 4 then csr_name rd
                            else (if kind = 0 then CHR ''x'' else if kind = 1 then CHR ''f'' else CHR ''v'') # int_to_string rd);
                bytes = nat (size div 8);
                src = (if kind = 2 then velt rd else word_bytes lo @ word_bytes hi)
            in if length src < bytes then Inl (Undefined ''memcpy past the register'')
               else case ad_malloc (take bytes src) s of
                 (p, s1) \<Rightarrow> Inr (out @ [(reg_name, word_of_nat bytes, p)], s1))"

text \<open>The logged size of an access is shifted by three before it is used as a number of bytes.\<close>

definition commit_store :: "MemWrite_t \<times> 'm SpikeAdapter \<Rightarrow> u64 \<times> u64 \<times> u8 \<Rightarrow> (MemWrite_t \<times> 'm SpikeAdapter) result" where
  "commit_store = (\<lambda>(out, s) (addr, v, size).
     let bytes = unat size * 8 in
     if length (word_bytes v) < bytes then Inl (Undefined ''memcpy past the value'')
     else case ad_malloc (take bytes (word_bytes v)) s of
       (p, s1) \<Rightarrow> Inr (out @ [(addr, word_of_nat bytes, p)], s1))"

definition ad_commitHook :: "(int \<Rightarrow> string) \<Rightarrow> int \<Rightarrow> (int \<Rightarrow> u8 list) \<Rightarrow> 'm SpikeAdapter \<Rightarrow> (bool \<times> 'm SpikeAdapter) result" where
  "ad_commitHook csr_name vlen velt s =
     (case ad_tunnel s of
        None \<Rightarrow> Inr (True, s)
      | Some i \<Rightarrow>
          let r = sim_regs (ad_sim s); xlen = re_last_inst_xlen r; flen = re_last_inst_flen r;
              i1 = i\<lparr>si_log_reg_write := re_log_reg_write r\<rparr>
          in bindE (foldE (commit_reg csr_name vlen velt xlen flen) ([], s) (si_log_reg_write i1))
             (\<lambda>(regs, s1). let i2 = i1\<lparr>si_reg_write := regs, si_log_mem_read := re_log_mem_read r\<rparr>;
                  i3 = i2\<lparr>si_mem_read := map (\<lambda>(addr, v, size). (addr, word_of_nat (unat size * 8))) (si_log_mem_read i2),
                          si_log_mem_write := re_log_mem_write r\<rparr>
              in bindE (foldE commit_store ([], s1) (si_log_mem_write i3))
                 (\<lambda>(stores, s2). Inr (True, s2\<lparr>ad_tunnel := Some (i3\<lparr>si_mem_write := stores,
                     si_last_inst_priv := re_last_inst_priv r, si_last_inst_xlen := xlen,
                     si_last_inst_flen := flen\<rparr>)\<rparr>))))"

section \<open>Backup and roll-back\<close>

definition ad_MakeRegBackup :: "'m SpikeAdapter \<Rightarrow> 'm SpikeAdapter" where
  "ad_MakeRegBackup s = s\<lparr>ad_reg_backup := ad_reg_backup s @ [sim_regs (ad_sim s)]\<rparr>"

definition ad_MakeBackup :: "'m SpikeAdapter \<Rightarrow> 'm SpikeAdapter result" where
  "ad_MakeBackup s =
     bindE (db_MakeBackupEntry (ad_memory_backup s))
     (\<lambda>b. Inr (ad_MakeRegBackup (s\<lparr>ad_memory_backup := b\<rparr>)))"

definition RegEqual :: "RegEntry \<Rightarrow> RegEntry \<Rightarrow> bool" where
  "RegEqual a b \<longleftrightarrow>
     re_prv a = re_prv b \<and> re_prev_prv a = re_prev_prv b \<and> re_prv_changed a = re_prv_changed b
   \<and> re_v_changed a = re_v_changed b \<and> re_v a = re_v b \<and> re_prev_v a = re_prev_v b
   \<and> re_debug_mode a = re_debug_mode b \<and> re_serialized a = re_serialized b
   \<and> list_all (\<lambda>i. re_XPR a i = re_XPR b i \<and> fst (re_FPR a i) = fst (re_FPR b i) \<and> snd (re_FPR a i) = snd (re_FPR b i)) [0..<32]"

definition ad_RegRollBack :: "'m SpikeAdapter \<Rightarrow> 'm SpikeAdapter result" where
  "ad_RegRollBack s =
     bindE (deque_front (ad_reg_backup s))
     (\<lambda>reg_entry. case ad_npc s of
          None \<Rightarrow> Inl (SpartaAssert ''npc_ is not valid'')
        | Some npc \<Rightarrow>
            let s1 = s\<lparr>ad_sim := (ad_sim s)\<lparr>sim_pc := npc, sim_regs := reg_entry\<rparr>\<rparr> in
            bindE (assertE (RegEqual (sim_regs (ad_sim s1)) (sim_regs (ad_sim_fast s1))) (CAssert ''RegEqual_''))
            (\<lambda>_. Inr (s1\<lparr>ad_reg_backup := []\<rparr>)))"

definition ad_MemoryRollBack :: "('m \<Rightarrow> u64 \<Rightarrow> nat \<Rightarrow> u64 option) \<Rightarrow> ('m \<Rightarrow> u64 \<Rightarrow> u8 \<Rightarrow> 'm option) \<Rightarrow> 'm SpikeAdapter \<Rightarrow> 'm SpikeAdapter result" where
  "ad_MemoryRollBack ld st s =
     bindE (MemoryRollBack ld st (sim_mem (ad_sim_fast s)) (ad_memory_backup s) (sim_mem (ad_sim s)))
     (\<lambda>(b, m). Inr (s\<lparr>ad_memory_backup := b, ad_sim := (ad_sim s)\<lparr>sim_mem := m\<rparr>\<rparr>))"

definition ad_CsrRollBack :: "('m \<Rightarrow> u64 \<Rightarrow> u64) \<Rightarrow> ('m \<Rightarrow> u64 \<Rightarrow> u64 \<Rightarrow> 'm) \<Rightarrow> 'm SpikeAdapter \<Rightarrow> 'm SpikeAdapter" where
  "ad_CsrRollBack get_csr put_csr s =
     (let m = sim_mem (ad_sim s); f = sim_mem (ad_sim_fast s);
          m1 = put_csr m 0xb00 (get_csr f 0xb00 + 1);
          m2 = put_csr m1 0xb02 (get_csr f 0xb02 + 1)
      in s\<lparr>ad_sim := (ad_sim s)\<lparr>sim_mem := m2\<rparr>\<rparr>)"

definition ad_RollBack :: "('m \<Rightarrow> u64 \<Rightarrow> nat \<Rightarrow> u64 option) \<Rightarrow> ('m \<Rightarrow> u64 \<Rightarrow> u8 \<Rightarrow> 'm option) \<Rightarrow> ('m \<Rightarrow> u64 \<Rightarrow> u64)
    \<Rightarrow> ('m \<Rightarrow> u64 \<Rightarrow> u64 \<Rightarrow> 'm) \<Rightarrow> 'm SpikeAdapter \<Rightarrow> 'm SpikeAdapter result" where
  "ad_RollBack ld st get_csr put_csr s =
     bindE (ad_MemoryRollBack ld st s) (\<lambda>s1. ad_RegRollBack (ad_CsrRollBack get_csr put_csr s1))"

definition ad_BranchResolve :: "('m \<Rightarrow> u64 \<Rightarrow> nat \<Rightarrow> u64 option) \<Rightarrow> ('m \<Rightarrow> u64 \<Rightarrow> u8 \<Rightarrow> 'm option) \<Rightarrow> ('m \<Rightarrow> u64 \<Rightarrow> u64)
    \<Rightarrow> ('m \<Rightarrow> u64 \<Rightarrow> u64 \<Rightarrow> 'm) \<Rightarrow> 'm SpikeAdapter \<Rightarrow> bool \<Rightarrow> 'm SpikeAdapter result" where
  "ad_BranchResolve ld st get_csr put_csr s is_miss_prediction =
     (if is_miss_prediction then ad_RollBack ld st get_csr put_csr s
      else bindE (db_Pop (ad_memory_backup s))
        (\<lambda>b. bindE (deque_pop_front (ad_reg_backup s))
        (\<lambda>q. Inr (s\<lparr>ad_memory_backup := b, ad_reg_backup := q\<rparr>))))"

section \<open>Running the simulators\<close>

text \<open>
  The calls \<open>spikeStep\<close> makes into the simulator. A memory trap is \<open>None\<close>. \<open>so_idle\<close> and \<open>so_idle_fast\<close> run one of
  the simulators, which calls the hooks above; \<open>so_command\<close> handles a host command and reports the values
  passed to its callback.
\<close>

record 'm spike_ops =
  so_tohost_addr :: "'m \<Rightarrow> u64"
  so_fromhost_addr :: "'m \<Rightarrow> u64"
  so_read64 :: "'m \<Rightarrow> u64 \<Rightarrow> u64 option"
  so_write64 :: "'m \<Rightarrow> u64 \<Rightarrow> u64 \<Rightarrow> 'm option"
  so_from_target :: "u64 \<Rightarrow> u64"
  so_to_target :: "u64 \<Rightarrow> u64"
  so_idle :: "'m SpikeAdapter \<Rightarrow> 'm SpikeAdapter result"
  so_idle_fast :: "'m SpikeAdapter \<Rightarrow> 'm SpikeAdapter result"
  so_command :: "u64 \<Rightarrow> 'm \<Rightarrow> ('m \<times> u64 list) option"
  so_tick :: "'m \<Rightarrow> 'm option"
  so_exitcode :: "'m \<Rightarrow> int"
  so_start :: "'m \<Rightarrow> 'm"
  so_stop :: "'m \<Rightarrow> 'm"

text \<open>\<open>bad_address\<close> ends the process.\<close>

definition bad_address :: "'a option \<Rightarrow> 'a result" where
  "bad_address x = (case x of None \<Rightarrow> Inl (Thrown ''exit(-1)'') | Some v \<Rightarrow> Inr v)"

definition on_sim :: "('m \<Rightarrow> 'm option) \<Rightarrow> 'm SpikeAdapter \<Rightarrow> 'm SpikeAdapter result" where
  "on_sim f s = bindE (bad_address (f (sim_mem (ad_sim s)))) (\<lambda>m. Inr (s\<lparr>ad_sim := (ad_sim s)\<lparr>sim_mem := m\<rparr>\<rparr>))"

definition on_sim_fast :: "('m \<Rightarrow> 'm option) \<Rightarrow> 'm SpikeAdapter \<Rightarrow> 'm SpikeAdapter result" where
  "on_sim_fast f s = bindE (bad_address (f (sim_mem (ad_sim_fast s)))) (\<lambda>m. Inr (s\<lparr>ad_sim_fast := (ad_sim_fast s)\<lparr>sim_mem := m\<rparr>\<rparr>))"

text \<open>
  \<open>spikeRunStart\<close> also installs the callbacks of host commands: the main simulator's queues the value, the
  reference's drops it, as \<open>step_run\<close> does with what a command reports.
\<close>

definition spikeRunStart :: "'m spike_ops \<Rightarrow> 'm SpikeAdapter \<Rightarrow> 'm SpikeAdapter" where
  "spikeRunStart ops s =
     s\<lparr>ad_sim := (ad_sim s)\<lparr>sim_mem := so_start ops (sim_mem (ad_sim s))\<rparr>,
       ad_sim_fast := (ad_sim_fast s)\<lparr>sim_mem := so_start ops (sim_mem (ad_sim_fast s))\<rparr>\<rparr>"

definition spikeRunEnd :: "'m spike_ops \<Rightarrow> 'm SpikeAdapter \<Rightarrow> int \<times> 'm SpikeAdapter" where
  "spikeRunEnd ops s =
     (let s1 = s\<lparr>ad_sim := (ad_sim s)\<lparr>sim_mem := so_stop ops (sim_mem (ad_sim s))\<rparr>,
                ad_sim_fast := (ad_sim_fast s)\<lparr>sim_mem := so_stop ops (sim_mem (ad_sim_fast s))\<rparr>, ad_is_done := True\<rparr>
      in (so_exitcode ops (sim_mem (ad_sim s1)), s1))"

definition step_tohost :: "'m spike_ops \<Rightarrow> 'm SpikeAdapter \<Rightarrow> (u64 \<times> 'm SpikeAdapter) result" where
  "step_tohost ops s =
     (let a = so_tohost_addr ops (sim_mem (ad_sim s)) in
      bindE (bad_address (so_read64 ops (sim_mem (ad_sim s)) a))
      (\<lambda>raw. let tohost = so_from_target ops raw in
        if tohost \<noteq> 0 \<and> \<not> ad_getPredictionMiss s
        then bindE (on_sim (\<lambda>m. so_write64 ops m a 0) s)
             (\<lambda>s1. bindE (on_sim_fast (\<lambda>m. so_write64 ops m (so_tohost_addr ops (sim_mem (ad_sim s1))) 0) s1)
             (\<lambda>s2. Inr (tohost, s2)))
        else Inr (tohost, s)))"

definition step_run :: "'m spike_ops \<Rightarrow> u64 \<Rightarrow> 'm SpikeAdapter \<Rightarrow> 'm SpikeAdapter result" where
  "step_run ops tohost s =
     bindE
      (if tohost \<noteq> 0 \<and> \<not> ad_getPredictionMiss s
       then bindE (bad_address (so_command ops tohost (sim_mem (ad_sim s))))
            (\<lambda>(m, vs). let s1 = s\<lparr>ad_sim := (ad_sim s)\<lparr>sim_mem := m\<rparr>, ad_fromhost_queue := ad_fromhost_queue s @ vs\<rparr> in
              on_sim_fast (\<lambda>m. map_option fst (so_command ops tohost m)) s1)
       else bindE (if \<not> ad_getPredictionMiss s then so_idle_fast ops s else Inr s)
            (\<lambda>s1. bindE (so_idle ops s1)
            (\<lambda>s2. if \<not> ad_getPredictionMiss s2
                  then bindE (assertE (sim_pc (ad_sim s2) = sim_pc (ad_sim_fast s2)) (CAssert ''pc''))
                       (\<lambda>_. bindE (assertE (RegEqual (sim_regs (ad_sim s2)) (sim_regs (ad_sim_fast s2))) (SpartaAssert ''RegEqual_''))
                       (\<lambda>_. Inr s2))
                  else Inr s2)))
      (\<lambda>s3. on_sim (so_tick ops) s3)"

definition step_fromhost :: "'m spike_ops \<Rightarrow> 'm SpikeAdapter \<Rightarrow> 'm SpikeAdapter result" where
  "step_fromhost ops s =
     (case ad_fromhost_queue s of
        [] \<Rightarrow> Inr s
      | v # vs \<Rightarrow>
          (let a = so_fromhost_addr ops (sim_mem (ad_sim s)) in
           bindE (bad_address (so_read64 ops (sim_mem (ad_sim s)) a))
           (\<lambda>old. if old \<noteq> 0 then Inr s
             else bindE (on_sim (\<lambda>m. so_write64 ops m a (so_to_target ops v)) s)
                  (\<lambda>s1. bindE (on_sim_fast (\<lambda>m. so_write64 ops m (so_fromhost_addr ops (sim_mem (ad_sim s1))) (so_to_target ops v)) s1)
                  (\<lambda>s2. Inr (s2\<lparr>ad_fromhost_queue := vs\<rparr>))))))"

definition step_one :: "'m spike_ops \<Rightarrow> 'm SpikeAdapter \<Rightarrow> 'm SpikeAdapter result" where
  "step_one ops s =
     (if so_tohost_addr ops (sim_mem (ad_sim s)) = 0 then so_idle ops s
      else bindE (step_tohost ops s) (\<lambda>(tohost, s1). bindE (step_run ops tohost s1) (step_fromhost ops)))"

fun spikeStep :: "'m spike_ops \<Rightarrow> nat \<Rightarrow> 'm SpikeAdapter \<Rightarrow> (int \<times> 'm SpikeAdapter) result" where
  "spikeStep ops 0 s = Inr (0, s)"
| "spikeStep ops (Suc n) s =
     bindE (step_one ops s)
     (\<lambda>s1. if so_exitcode ops (sim_mem (ad_sim s1)) \<noteq> 0 then Inr (- 1, snd (spikeRunEnd ops s1))
           else spikeStep ops n s1)"

section \<open>Properties\<close>

text \<open>
  While a branch is mispredicted the reference simulator stands still. If running the main simulator
  leaves the reference, the prediction flag and the empty host queue alone, then so does \<open>spikeStep\<close>, for any number of
  steps that does not end the run: no host command is executed and nothing is written to either memory on
  behalf of the host.
\<close>

theorem spikeStep_keeps_reference:
  assumes "\<And>s s'. so_idle ops s = Inr s' \<Longrightarrow> ad_sim_fast s' = ad_sim_fast s
      \<and> ad_is_prediction_miss s' = ad_is_prediction_miss s \<and> ad_fromhost_queue s' = ad_fromhost_queue s"
    and "ad_is_prediction_miss s" "ad_fromhost_queue s = []" "spikeStep ops n s = Inr (0, s')"
  shows "ad_sim_fast s' = ad_sim_fast s \<and> ad_is_prediction_miss s' \<and> ad_fromhost_queue s' = []"
  using assms(2-4)
proof (induction n arbitrary: s)
  case 0
  then show ?case by simp
next
  case (Suc n)
  from Suc.prems(3) obtain s1 where s1: "step_one ops s = Inr s1" "spikeStep ops n s1 = Inr (0, s')"
    by (auto simp: bindE_eq_Inr split: if_splits)
  have "ad_sim_fast s1 = ad_sim_fast s \<and> ad_is_prediction_miss s1 = ad_is_prediction_miss s \<and> ad_fromhost_queue s1 = []"
  proof (cases "so_tohost_addr ops (sim_mem (ad_sim s)) = 0")
    case True
    with s1(1) assms(1) Suc.prems(2) show ?thesis by (simp add: step_one_def)
  next
    case False
    with s1(1) Suc.prems obtain t s2 where "so_idle ops s = Inr s2" "on_sim (so_tick ops) s2 = Inr t" "step_fromhost ops t = Inr s1"
      using assms(1) by (auto simp: step_one_def step_tohost_def step_run_def ad_getPredictionMiss_def bindE_eq_Inr Let_def split: if_splits)
    with assms(1) Suc.prems(2) show ?thesis by (auto simp: on_sim_def step_fromhost_def bindE_eq_Inr)
  qed
  with Suc.IH [of s1] Suc.prems s1(2) show ?case by simp
qed

definition demo_regs :: RegEntry where
  "demo_regs = \<lparr>re_XPR = (\<lambda>_. 0), re_FPR = (\<lambda>_. (0, 0)), re_prv = 3, re_prev_prv = 3, re_prv_changed = False,
     re_v_changed = False, re_v = False, re_prev_v = False, re_debug_mode = False, re_serialized = False,
     re_log_reg_write = [(16, (5, 0))], re_log_mem_read = [], re_log_mem_write = [(64, 258, 2)], re_last_inst_priv = 3,
     re_last_inst_xlen = 64, re_last_inst_flen = 64\<rparr>"

definition demo_adapter :: "(u64 \<Rightarrow> u8) SpikeAdapter" where
  "demo_adapter = \<lparr>ad_sim = \<lparr>sim_pc = 0x1000, sim_regs = demo_regs, sim_mem = (\<lambda>_. 7)\<rparr>,
     ad_sim_fast = \<lparr>sim_pc = 0x1000, sim_regs = demo_regs, sim_mem = (\<lambda>_. 7)\<rparr>,
     ad_tunnel = Some (mk_spike_insn 0x13 False 0x1000), ad_is_done = False, ad_fromhost_queue = [], ad_npc = Some 0x2000,
     ad_is_prediction_miss = True, ad_memory_backup = mk_DataBackup, ad_reg_backup = [], ad_spike_npc = 0, ad_blocks = []\<rparr>"

text \<open>A simulator whose host interface is at address 8 and which does nothing else.\<close>

definition demo_ops :: "(u64 \<Rightarrow> u8) spike_ops" where
  "demo_ops = \<lparr>so_tohost_addr = (\<lambda>_. 8), so_fromhost_addr = (\<lambda>_. 16), so_read64 = (\<lambda>m a. Some (ucast (m a))),
     so_write64 = (\<lambda>m a v. Some (m(a := ucast v))), so_from_target = (\<lambda>x. x), so_to_target = (\<lambda>x. x),
     so_idle = (\<lambda>s. Inr (ad_setNpc s (sim_pc (ad_sim s) + 4))), so_idle_fast = Inr, so_command = (\<lambda>c m. Some (m, [])),
     so_tick = Some, so_exitcode = (\<lambda>_. 0), so_start = (\<lambda>m. m), so_stop = (\<lambda>m. m)\<rparr>"

theorem spikeStep_keeps_reference_witness:
  "\<exists>s'. spikeStep demo_ops 1 demo_adapter = Inr (0, s') \<and> ad_sim_fast s' = ad_sim_fast demo_adapter \<and> sim_pc (ad_sim s') = 0x1004"
proof -
  have i: "so_idle demo_ops s = Inr s' \<Longrightarrow> ad_sim_fast s' = ad_sim_fast s
      \<and> ad_is_prediction_miss s' = ad_is_prediction_miss s \<and> ad_fromhost_queue s' = ad_fromhost_queue s" for s s'
    by (auto simp: demo_ops_def ad_setNpc_def)
  obtain s' where s': "spikeStep demo_ops 1 demo_adapter = Inr (0, s')" "sim_pc (ad_sim s') = 0x1004"
    by (simp add: demo_ops_def demo_adapter_def step_one_def step_tohost_def step_run_def step_fromhost_def on_sim_def
        bad_address_def ad_getPredictionMiss_def ad_setNpc_def Let_def)
  from spikeStep_keeps_reference [OF i _ _ s'(1)] s' show ?thesis by (simp add: demo_adapter_def)
qed

lemma ad_BranchResolve_undoes:
  assumes "mmu_ok ld st bytes mapped" "\<And>m c v. bytes (put_csr m c v) = bytes m"
    and "ad_memory_backup s0 = mk_DataBackup" "ad_reg_backup s0 = []" "ad_MakeBackup s0 = Inr s1"
    and "(wrong_path ld bytes)\<^sup>*\<^sup>* (ad_memory_backup s1, sim_mem (ad_sim s1)) (ad_memory_backup s, sim_mem (ad_sim s))"
    and "ad_reg_backup s = ad_reg_backup s1 @ later" "ad_npc s = Some npc"
    and "bytes (sim_mem (ad_sim_fast s)) = bytes (sim_mem (ad_sim s0))" "RegEqual (sim_regs (ad_sim s0)) (sim_regs (ad_sim_fast s))"
  shows "\<exists>s'. ad_BranchResolve ld st get_csr put_csr s True = Inr s' \<and> sim_regs (ad_sim s') = sim_regs (ad_sim s0)
    \<and> bytes (sim_mem (ad_sim s')) = bytes (sim_mem (ad_sim s0)) \<and> sim_pc (ad_sim s') = npc
    \<and> ad_reg_backup s' = [] \<and> ad_memory_backup s' = mk_DataBackup
    \<and> ad_BranchResolve ld st get_csr put_csr s' True = Inl (Undefined ''front of empty'')"
proof -
  have b: "ad_memory_backup s1 = \<lparr>db_stable = True, db_data_backup = replicate 1 []\<rparr>" "sim_mem (ad_sim s1) = sim_mem (ad_sim s0)"
    "ad_reg_backup s1 = [sim_regs (ad_sim s0)]"
    using assms(3-5) by (auto simp: ad_MakeBackup_def mk_DataBackup_def db_MakeBackupEntry_def ad_MakeRegBackup_def)
  have r: "ad_reg_backup s = sim_regs (ad_sim s0) # later" using assms(7) b(3) by simp
  from rollback_restores [OF assms(1) _ assms(6) [unfolded b(1,2)] assms(9)] obtain b' m' where
    m: "MemoryRollBack ld st (sim_mem (ad_sim_fast s)) (ad_memory_backup s) (sim_mem (ad_sim s)) = Inr (b', m')"
      "bytes m' = bytes (sim_mem (ad_sim s0))" "db_data_backup b' = []" "db_stable b'" by auto
  have b': "b' = mk_DataBackup" using m(3,4) by (simp add: mk_DataBackup_def)
  have e: "MemoryRollBack ld st f mk_DataBackup m = Inr (mk_DataBackup, m)" for f m
    by (simp add: MemoryRollBack_def rb_collect.simps db_IsEmpty_def mk_DataBackup_def)
  show ?thesis
    using m(1,2) r assms(2,8,10) e
    by (simp add: ad_BranchResolve_def ad_RollBack_def ad_MemoryRollBack_def ad_CsrRollBack_def ad_RegRollBack_def
        deque_front_def b' Let_def)
qed

text \<open>
  (C23) A mispredicted branch is undone, once. Let a branch be backed up when nothing else is open, let the
  simulator then follow a wrong path, open further branches and store naturally aligned data, while the
  reference stays at the branch. Resolving the branch as mispredicted puts the registers and every byte of
  memory back to what they were at the branch, sets the program counter to the redirect address and closes
  all branches. Resolving it a second time takes the front of an empty queue, which has no defined meaning.
\<close>

theorem BranchResolve_restores:
  assumes "mmu_ok ld st bytes mapped" "\<And>m c v. bytes (put_csr m c v) = bytes m"
    and "ad_memory_backup s0 = mk_DataBackup" "ad_reg_backup s0 = []" "ad_MakeBackup s0 = Inr s1"
    and "(wrong_path ld bytes)\<^sup>*\<^sup>* (ad_memory_backup s1, sim_mem (ad_sim s1)) (ad_memory_backup s, sim_mem (ad_sim s))"
    and "ad_reg_backup s = ad_reg_backup s1 @ later" "ad_npc s = Some npc"
    and "bytes (sim_mem (ad_sim_fast s)) = bytes (sim_mem (ad_sim s0))" "RegEqual (sim_regs (ad_sim s0)) (sim_regs (ad_sim_fast s))"
  shows "\<exists>s'. ad_BranchResolve ld st get_csr put_csr s True = Inr s' \<and> sim_regs (ad_sim s') = sim_regs (ad_sim s0)
    \<and> bytes (sim_mem (ad_sim s')) = bytes (sim_mem (ad_sim s0)) \<and> sim_pc (ad_sim s') = npc
    \<and> ad_reg_backup s' = [] \<and> ad_memory_backup s' = mk_DataBackup
    \<and> ad_BranchResolve ld st get_csr put_csr s' True = Inl (Undefined ''front of empty'')"
  using assms by (rule ad_BranchResolve_undoes)

theorem BranchResolve_restores_witness:
  "\<exists>s1 b s'. ad_MakeBackup demo_adapter = Inr s1
    \<and> ad_BranchResolve demo_ld demo_st (\<lambda>_ _. 0) (\<lambda>m _ _. m)
        (s1\<lparr>ad_memory_backup := b, ad_sim := (ad_sim s1)\<lparr>sim_mem := poke 0x80000004 4 5 (\<lambda>_. 7)\<rparr>\<rparr>) True = Inr s'
    \<and> sim_mem (ad_sim s') = (\<lambda>_. 7) \<and> sim_pc (ad_sim s') = 0x2000"
proof -
  obtain s1 where s1: "ad_MakeBackup demo_adapter = Inr s1" "ad_memory_backup s1 = \<lparr>db_stable = True, db_data_backup = [[]]\<rparr>"
    "sim_mem (ad_sim s1) = (\<lambda>_. 7)" "ad_npc s1 = Some 0x2000" "ad_sim_fast s1 = ad_sim_fast demo_adapter"
    by (simp add: ad_MakeBackup_def demo_adapter_def mk_DataBackup_def db_MakeBackupEntry_def ad_MakeRegBackup_def)
  obtain b where "wrong_path demo_ld (\<lambda>f. f) (ad_memory_backup s1, sim_mem (ad_sim s1)) (b, poke 0x80000004 4 5 (\<lambda>_. 7))"
    using demo_store [where b = "ad_memory_backup s1" and a = "0x80000004" and len = 4 and m = "\<lambda>_. 7" and v = 5] s1(2,3) by auto
  define s where "s = s1\<lparr>ad_memory_backup := b, ad_sim := (ad_sim s1)\<lparr>sim_mem := poke 0x80000004 4 5 (\<lambda>_. 7)\<rparr>\<rparr>"
  have w: "(wrong_path demo_ld (\<lambda>f. f))\<^sup>*\<^sup>* (ad_memory_backup s1, sim_mem (ad_sim s1)) (ad_memory_backup s, sim_mem (ad_sim s))"
    using \<open>wrong_path demo_ld _ _ _\<close> by (simp add: s_def)
  have d: "ad_memory_backup demo_adapter = mk_DataBackup" "ad_reg_backup demo_adapter = []" "ad_reg_backup s = ad_reg_backup s1 @ []"
    "ad_npc s = Some 0x2000" "sim_mem (ad_sim_fast s) = sim_mem (ad_sim demo_adapter)"
    "RegEqual (sim_regs (ad_sim demo_adapter)) (sim_regs (ad_sim_fast s))"
    using s1(4,5) by (simp_all add: s_def demo_adapter_def RegEqual_def list_all_iff)
  from BranchResolve_restores [where get_csr = "\<lambda>_ _. 0" and put_csr = "\<lambda>m _ _. m", OF demo_mmu refl d(1,2) s1(1) w d(3-6)] s1(1)
  show ?thesis unfolding s_def by (auto simp: demo_adapter_def)
qed

section \<open>The committed instruction\<close>

lemma commit_stores:
  "case foldE commit_store (out, s) ws of
     Inl e \<Rightarrow> e = Undefined ''memcpy past the value'' \<and> (\<exists>(a, v, z) \<in> set ws. 1 < unat z)
   | Inr (out', s') \<Rightarrow> (\<forall>(a, v, z) \<in> set ws. unat z \<le> 1) \<and> map fst out' = map fst out @ map fst ws"
proof (induction ws arbitrary: out s)
  case (Cons w ws)
  obtain a v z where w: "w = (a, v, z)" by (cases w)
  show ?case
  proof (cases "1 < unat z")
    case True
    then show ?thesis by (simp add: w commit_store_def word_bytes_def)
  next
    case False
    then obtain n p s1 where "commit_store (out, s) w = Inr (out @ [(a, n, p)], s1)"
      by (auto simp: w commit_store_def word_bytes_def ad_malloc_def)
    then have f: "foldE commit_store (out, s) (w # ws) = foldE commit_store (out @ [(a, n, p)], s1) ws" by simp
    show ?thesis unfolding f using Cons.IH [of "out @ [(a, n, p)]" s1] False
      by (auto simp: w split: sum.splits)
  qed
qed simp

text \<open>
  (C24) \<open>commitHook\<close> has a defined outcome only for byte stores. It uses the logged size of a store, shifted left
  by three, as the number of bytes to copy out of the logged 64-bit value: whenever the registers of an
  instruction are logged without failure, the hook returns exactly when no store of the instruction is
  longer than one byte, and then the instruction carries the addresses of its loads and stores in the order
  of the log; otherwise the copy reads past the value.
\<close>

theorem commitHook_byte_stores_only:
  assumes "ad_tunnel s = Some i" "r = sim_regs (ad_sim s)"
    and "foldE (commit_reg csr_name vlen velt (re_last_inst_xlen r) (re_last_inst_flen r)) ([], s) (re_log_reg_write r) = Inr (regs, s1)"
  shows "case ad_commitHook csr_name vlen velt s of
      Inl e \<Rightarrow> e = Undefined ''memcpy past the value'' \<and> (\<exists>(a, v, z) \<in> set (re_log_mem_write r). 1 < unat z)
    | Inr (ok, s') \<Rightarrow> ok \<and> (\<forall>(a, v, z) \<in> set (re_log_mem_write r). unat z \<le> 1)
        \<and> (\<exists>i'. ad_tunnel s' = Some i' \<and> si_pc i' = si_pc i \<and> si_reg_write i' = regs
            \<and> map fst (si_mem_write i') = map fst (re_log_mem_write r) \<and> map fst (si_mem_read i') = map fst (re_log_mem_read r))"
  using commit_stores [where out = "[]" and s = s1 and ws = "re_log_mem_write r"] assms
  by (auto simp: ad_commitHook_def Let_def split: sum.splits)

theorem commitHook_byte_stores_only_witness:
  "ad_commitHook (\<lambda>_. ''csr'') 128 (\<lambda>_. []) demo_adapter = Inl (Undefined ''memcpy past the value'')"
proof -
  have t: "ad_tunnel demo_adapter = Some (mk_spike_insn 0x13 False 0x1000)" "sim_regs (ad_sim demo_adapter) = demo_regs"
    by (simp_all add: demo_adapter_def)
  have "\<exists>regs s1. foldE (commit_reg (\<lambda>_. ''csr'') 128 (\<lambda>_. []) (re_last_inst_xlen demo_regs) (re_last_inst_flen demo_regs)) ([], demo_adapter)
      (re_log_reg_write demo_regs) = Inr (regs, s1)"
    by (simp add: demo_regs_def commit_reg_def word_bytes_def ad_malloc_def Let_def)
  then obtain regs s1 where c: "foldE (commit_reg (\<lambda>_. ''csr'') 128 (\<lambda>_. []) (re_last_inst_xlen demo_regs) (re_last_inst_flen demo_regs)) ([], demo_adapter)
      (re_log_reg_write demo_regs) = Inr (regs, s1)" by blast
  from commitHook_byte_stores_only [OF t(1) t(2) [symmetric] c] show ?thesis
    by (auto simp: demo_regs_def split: sum.splits prod.splits)
qed

end
