(* ===== verification/Spike_Options.thy ===== *)
theory Spike_Options
  imports Mem_Layout
begin

text \<open>
  \<open>spikeInit_\<close> and \<open>spikeFastInit_\<close> of \<open>utils/spikeInterface/src/spikeInterface.cpp\<close>: the command line of the functional simulator. The
  simulator's option parser calls the handler of each option it finds; the model takes the options found,
  with their arguments, and the arguments that are left. What the handlers write is a record; files,
  plug-ins and shared libraries are arguments; the calls into the new simulator are recorded in order.
\<close>

section \<open>Options\<close>

datatype spike_option =
    O_help | O_d | O_g | O_l | O_s | O_p | O_m | O_H | O_rbb_port | O_pc | O_hartids | O_ic | O_dc | O_l2
  | O_big_endian | O_misaligned | O_log_cache_miss | O_isa | O_pmpregions | O_pmpgranularity | O_priv | O_varch
  | O_device | O_extension | O_dump_dts | O_disable_dtb | O_dtb | O_kernel | O_initrd | O_bootargs
  | O_real_time_clint | O_triggers | O_extlib | O_dm_progsize | O_dm_no_impebreak | O_dm_sba | O_dm_auth | O_dmi_rti
  | O_dm_abstract_rti | O_dm_no_hasel | O_dm_no_abstract_csr | O_dm_no_abstract_fpr | O_dm_no_halt_groups
  | O_log_commits | O_log | O_debug_cmd | O_blocksz

text \<open>The configuration object of the adapter, with the members the options set.\<close>

record 'c cfg =
  cf_initrd_bounds :: "u64 \<times> u64"
  cf_bootargs :: string
  cf_isa :: string
  cf_priv :: string
  cf_varch :: string
  cf_big_endian :: bool
  cf_misaligned :: bool
  cf_pmpregions :: u64
  cf_pmpgranularity :: u64
  cf_trigger_count :: u64
  cf_start_pc :: "u64 option"
  cf_mem_layout :: "'c list"
  cf_hartids :: "int list"
  cf_explicit_hartids :: bool
  cf_real_time_clint :: bool

text \<open>
  The local variables. \<open>lo_nprocs\<close> is the number of processors where the option overrides it, and a member of
  the debug module's configuration is \<open>None\<close> while it has the simulator's default.
\<close>

record spike_locals =
  lo_debug :: bool
  lo_halted :: bool
  lo_histogram :: bool
  lo_log :: bool
  lo_socket :: bool
  lo_dump_dts :: bool
  lo_dtb_enabled :: bool
  lo_kernel :: "string option"
  lo_devices :: "(string \<times> string list) list"
  lo_ic :: "string option"
  lo_dc :: "string option"
  lo_l2 :: "string option"
  lo_log_cache :: bool
  lo_log_commits :: bool
  lo_log_path :: "string option"
  lo_extensions :: "string list"
  lo_initrd :: "string option"
  lo_dtb_file :: "string option"
  lo_rbb_port :: u16
  lo_use_rbb :: bool
  lo_dmi_rti :: u32
  lo_blocksz :: u64
  lo_nprocs :: "u64 option"
  lo_cmd_file :: "string option"
  dm_progbufsize :: "u64 option"
  dm_support_impebreak :: "bool option"
  dm_max_sba_data_width :: "u64 option"
  dm_require_authentication :: "bool option"
  dm_abstract_rti :: "u64 option"
  dm_support_hasel :: "bool option"
  dm_support_abstract_csr_access :: "bool option"
  dm_support_abstract_fpr_access :: "bool option"
  dm_support_haltgroups :: "bool option"

definition mk_locals :: spike_locals where
  "mk_locals = \<lparr>lo_debug = False, lo_halted = False, lo_histogram = False, lo_log = False, lo_socket = False, lo_dump_dts = False,
     lo_dtb_enabled = True, lo_kernel = None, lo_devices = [], lo_ic = None, lo_dc = None, lo_l2 = None, lo_log_cache = False,
     lo_log_commits = False, lo_log_path = None, lo_extensions = [], lo_initrd = None, lo_dtb_file = None, lo_rbb_port = 0,
     lo_use_rbb = False, lo_dmi_rti = 0, lo_blocksz = 64, lo_nprocs = None, lo_cmd_file = None, dm_progbufsize = None,
     dm_support_impebreak = None, dm_max_sba_data_width = None, dm_require_authentication = None, dm_abstract_rti = None,
     dm_support_hasel = None, dm_support_abstract_csr_access = None, dm_support_abstract_fpr_access = None, dm_support_haltgroups = None\<rparr>"

text \<open>What lies outside: constants of the simulator, its regions and plug-ins, and the file system.\<close>

record 'c spike_env =
  ev_mem_cfg :: "'c mem_cfg_ops"
  ev_PGSIZE :: u64
  ev_MAX_PADDR_BITS :: nat
  ev_DRAM_BASE :: u64
  ev_has_device :: "string \<Rightarrow> bool"
  ev_dlopen :: "string \<Rightarrow> bool"
  ev_file_size :: "string \<Rightarrow> u64 option"

text \<open>\<open>getline\<close> with a comma until the stream is exhausted.\<close>

fun split_comma :: "string \<Rightarrow> string list" where
  "split_comma [] = [[]]"
| "split_comma (c # cs) =
     (if c = CHR '','' then [] # split_comma cs
      else case split_comma cs of [] \<Rightarrow> [[c]] | w # ws \<Rightarrow> (c # w) # ws)"

definition device_parser :: "'c spike_env \<Rightarrow> string \<Rightarrow> spike_locals \<Rightarrow> spike_locals result" where
  "device_parser env s l =
     (case split_comma s of
        [] \<Rightarrow> Inl (Thrown ''Plugin argument is empty.'')
      | name # args \<Rightarrow>
          if name = [] then Inl (Thrown ''Plugin name is empty.'')
          else if \<not> ev_has_device env name then Inl (Thrown ''Plugin not found'')
          else Inr (l\<lparr>lo_devices := lo_devices l @ [(name, args)]\<rparr>))"

definition blocksz_ok :: "u64 \<Rightarrow> u64 \<Rightarrow> bool" where
  "blocksz_ok pgsize b \<longleftrightarrow> \<not> (b < 16 \<or> b > pgsize \<or> b AND (b - 1) \<noteq> 0)"

definition strtoull0 :: "string \<Rightarrow> u64" where
  "strtoull0 s = fst (strtoull_end s 0)"

fun spike_opt :: "'c spike_env \<Rightarrow> spike_locals \<times> 'c cfg \<Rightarrow> spike_option \<times> string \<Rightarrow> (spike_locals \<times> 'c cfg) result" where
  "spike_opt env (l, c) (O_help, s) = Inl (Thrown ''exit(0)'')"
| "spike_opt env (l, c) (O_d, s) = Inr (l\<lparr>lo_debug := True\<rparr>, c)"
| "spike_opt env (l, c) (O_g, s) = Inr (l\<lparr>lo_histogram := True\<rparr>, c)"
| "spike_opt env (l, c) (O_l, s) = Inr (l\<lparr>lo_log := True\<rparr>, c)"
| "spike_opt env (l, c) (O_s, s) = Inr (l\<lparr>lo_socket := True\<rparr>, c)"
| "spike_opt env (l, c) (O_p, s) = bindE (atoul_nonzero_safe s) (\<lambda>n. Inr (l\<lparr>lo_nprocs := Some n\<rparr>, c))"
| "spike_opt env (l, c) (O_m, s) =
     bindE (parse_mem_layout (ev_mem_cfg env) (ev_PGSIZE env) (ev_MAX_PADDR_BITS env) (ev_DRAM_BASE env) s) (\<lambda>m. Inr (l, c\<lparr>cf_mem_layout := m\<rparr>))"
| "spike_opt env (l, c) (O_H, s) = Inr (l\<lparr>lo_halted := True\<rparr>, c)"
| "spike_opt env (l, c) (O_rbb_port, s) = bindE (atoul_safe s) (\<lambda>n. Inr (l\<lparr>lo_use_rbb := True, lo_rbb_port := ucast n\<rparr>, c))"
| "spike_opt env (l, c) (O_pc, s) = Inr (l, c\<lparr>cf_start_pc := Some (strtoull0 s)\<rparr>)"
| "spike_opt env (l, c) (O_hartids, s) = bindE (parse_hartids s) (\<lambda>h. Inr (l, c\<lparr>cf_hartids := h, cf_explicit_hartids := True\<rparr>))"
| "spike_opt env (l, c) (O_ic, s) = Inr (l\<lparr>lo_ic := Some s\<rparr>, c)"
| "spike_opt env (l, c) (O_dc, s) = Inr (l\<lparr>lo_dc := Some s\<rparr>, c)"
| "spike_opt env (l, c) (O_l2, s) = Inr (l\<lparr>lo_l2 := Some s\<rparr>, c)"
| "spike_opt env (l, c) (O_big_endian, s) = Inr (l, c\<lparr>cf_big_endian := True\<rparr>)"
| "spike_opt env (l, c) (O_misaligned, s) = Inr (l, c\<lparr>cf_misaligned := True\<rparr>)"
| "spike_opt env (l, c) (O_log_cache_miss, s) = Inr (l\<lparr>lo_log_cache := True\<rparr>, c)"
| "spike_opt env (l, c) (O_isa, s) = Inr (l, c\<lparr>cf_isa := s\<rparr>)"
| "spike_opt env (l, c) (O_pmpregions, s) = bindE (atoul_safe s) (\<lambda>n. Inr (l, c\<lparr>cf_pmpregions := n\<rparr>))"
| "spike_opt env (l, c) (O_pmpgranularity, s) = bindE (atoul_safe s) (\<lambda>n. Inr (l, c\<lparr>cf_pmpgranularity := n\<rparr>))"
| "spike_opt env (l, c) (O_priv, s) = Inr (l, c\<lparr>cf_priv := s\<rparr>)"
| "spike_opt env (l, c) (O_varch, s) = Inr (l, c\<lparr>cf_varch := s\<rparr>)"
| "spike_opt env (l, c) (O_device, s) = bindE (device_parser env s l) (\<lambda>l. Inr (l, c))"
| "spike_opt env (l, c) (O_extension, s) = Inr (l\<lparr>lo_extensions := lo_extensions l @ [s]\<rparr>, c)"
| "spike_opt env (l, c) (O_dump_dts, s) = Inr (l\<lparr>lo_dump_dts := True\<rparr>, c)"
| "spike_opt env (l, c) (O_disable_dtb, s) = Inr (l\<lparr>lo_dtb_enabled := False\<rparr>, c)"
| "spike_opt env (l, c) (O_dtb, s) = Inr (l\<lparr>lo_dtb_file := Some s\<rparr>, c)"
| "spike_opt env (l, c) (O_kernel, s) = Inr (l\<lparr>lo_kernel := Some s\<rparr>, c)"
| "spike_opt env (l, c) (O_initrd, s) = Inr (l\<lparr>lo_initrd := Some s\<rparr>, c)"
| "spike_opt env (l, c) (O_bootargs, s) = Inr (l, c\<lparr>cf_bootargs := s\<rparr>)"
| "spike_opt env (l, c) (O_real_time_clint, s) = Inr (l, c\<lparr>cf_real_time_clint := True\<rparr>)"
| "spike_opt env (l, c) (O_triggers, s) = bindE (atoul_safe s) (\<lambda>n. Inr (l, c\<lparr>cf_trigger_count := n\<rparr>))"
| "spike_opt env (l, c) (O_extlib, s) = (if ev_dlopen env s then Inr (l, c) else Inl (Thrown ''exit(-1)''))"
| "spike_opt env (l, c) (O_dm_progsize, s) = bindE (atoul_safe s) (\<lambda>n. Inr (l\<lparr>dm_progbufsize := Some n\<rparr>, c))"
| "spike_opt env (l, c) (O_dm_no_impebreak, s) = Inr (l\<lparr>dm_support_impebreak := Some False\<rparr>, c)"
| "spike_opt env (l, c) (O_dm_sba, s) = bindE (atoul_safe s) (\<lambda>n. Inr (l\<lparr>dm_max_sba_data_width := Some n\<rparr>, c))"
| "spike_opt env (l, c) (O_dm_auth, s) = Inr (l\<lparr>dm_require_authentication := Some True\<rparr>, c)"
| "spike_opt env (l, c) (O_dmi_rti, s) = bindE (atoul_safe s) (\<lambda>n. Inr (l\<lparr>lo_dmi_rti := ucast n\<rparr>, c))"
| "spike_opt env (l, c) (O_dm_abstract_rti, s) = bindE (atoul_safe s) (\<lambda>n. Inr (l\<lparr>dm_abstract_rti := Some n\<rparr>, c))"
| "spike_opt env (l, c) (O_dm_no_hasel, s) = Inr (l\<lparr>dm_support_hasel := Some False\<rparr>, c)"
| "spike_opt env (l, c) (O_dm_no_abstract_csr, s) = Inr (l\<lparr>dm_support_abstract_csr_access := Some False\<rparr>, c)"
| "spike_opt env (l, c) (O_dm_no_abstract_fpr, s) = Inr (l\<lparr>dm_support_abstract_fpr_access := Some False\<rparr>, c)"
| "spike_opt env (l, c) (O_dm_no_halt_groups, s) = Inr (l\<lparr>dm_support_haltgroups := Some False\<rparr>, c)"
| "spike_opt env (l, c) (O_log_commits, s) = Inr (l\<lparr>lo_log_commits := True\<rparr>, c)"
| "spike_opt env (l, c) (O_log, s) = Inr (l\<lparr>lo_log_path := Some s\<rparr>, c)"
| "spike_opt env (l, c) (O_debug_cmd, s) = (if ev_file_size env s = None then Inl (Thrown ''exit(-1)'') else Inr (l\<lparr>lo_cmd_file := Some s\<rparr>, c))"
| "spike_opt env (l, c) (O_blocksz, s) =
     (let b = strtoull0 s in if blocksz_ok (ev_PGSIZE env) b then Inr (l\<lparr>lo_blocksz := b\<rparr>, c) else Inl (Thrown ''exit(-1)''))"

section \<open>Placing files and choosing harts\<close>

text \<open>A file read into a region: the region's number, the offset in it and the number of bytes.\<close>

datatype spike_call =
    Read_file string nat u64 u64
  | New_sim
  | Miss_handler string
  | Set_log string bool
  | Register_memtracer nat string
  | Register_extension nat string
  | Set_cache_blocksz nat u64
  | Set_debug bool
  | Configure_log bool bool
  | Set_histogram bool
  | Destroy string

text \<open>The first region, counted from \<open>i\<close>, that satisfies the condition of the loop.\<close>

fun first_region :: "(u64 \<Rightarrow> bool) \<Rightarrow> (u64 \<times> u64) list \<Rightarrow> nat \<Rightarrow> (nat \<times> u64 \<times> u64) option" where
  "first_region P [] i = None"
| "first_region P ((base, sz) # mems) i = (if P sz then Some (i, base, sz) else first_region P mems (Suc i))"

text \<open>A character of a C string; its terminator may be read, nothing after it.\<close>

definition c_char :: "string \<Rightarrow> nat \<Rightarrow> char result" where
  "c_char s i = (if i < length s then Inr (s ! i) else if i = length s then Inr (char_of (0 :: nat)) else Inl (Undefined ''string index''))"

definition kernel_offset :: "string \<Rightarrow> u64 result" where
  "kernel_offset isa =
     bindE (c_char isa 2) (\<lambda>a. if a = CHR ''6'' then bindE (c_char isa 3) (\<lambda>b. Inr (if b = CHR ''4'' then 0x200000 else 0x400000)) else Inr 0x400000)"

definition place_kernel :: "'c spike_env \<Rightarrow> spike_locals \<Rightarrow> 'c cfg \<Rightarrow> (u64 \<times> u64) list \<Rightarrow> spike_call list result" where
  "place_kernel env l c mems =
     (case lo_kernel l of
        None \<Rightarrow> Inr []
      | Some kfile \<Rightarrow>
          (case ev_file_size env kfile of
             None \<Rightarrow> Inr []
           | Some kernel_size \<Rightarrow>
               bindE (kernel_offset (cf_isa c))
               (\<lambda>off. case first_region (\<lambda>sz. kernel_size \<noteq> 0 \<and> off + kernel_size < sz) mems 0 of
                   None \<Rightarrow> Inr []
                 | Some (i, _) \<Rightarrow> Inr [Read_file kfile i off kernel_size])))"

definition place_initrd :: "'c spike_env \<Rightarrow> spike_locals \<Rightarrow> 'c cfg \<Rightarrow> (u64 \<times> u64) list \<Rightarrow> 'c cfg \<times> spike_call list" where
  "place_initrd env l c mems =
     (case lo_initrd l of
        None \<Rightarrow> (c, [])
      | Some initrd \<Rightarrow>
          (case ev_file_size env initrd of
             None \<Rightarrow> (c, [])
           | Some initrd_size \<Rightarrow>
               (case first_region (\<lambda>sz. initrd_size \<noteq> 0 \<and> initrd_size + 0x1000 < sz) mems 0 of
                  None \<Rightarrow> (c, [])
                | Some (i, base, sz) \<Rightarrow>
                    let initrd_end = base + sz - 0x1000; initrd_start = initrd_end - initrd_size
                    in (c\<lparr>cf_initrd_bounds := (initrd_start, initrd_end)\<rparr>, [Read_file initrd i (initrd_start - base) initrd_size]))))"

definition choose_harts :: "spike_locals \<Rightarrow> 'c cfg \<Rightarrow> 'c cfg result" where
  "choose_harts l c =
     (if cf_explicit_hartids c
      then (case lo_nprocs l of
              None \<Rightarrow> Inr c
            | Some n \<Rightarrow> if n \<noteq> word_of_nat (length (cf_hartids c)) then Inl (Thrown ''exit(1)'') else Inr c)
      else Inr (c\<lparr>cf_hartids := map int [0..<(case lo_nprocs l of None \<Rightarrow> 1 | Some n \<Rightarrow> unat n)]\<rparr>))"

section \<open>Initialisation\<close>

text \<open>
  The caches are held by local owners, so they are destroyed when the function returns: the last calls.
  The reading of a kernel and of an initial disk come before the simulator is built.
\<close>

definition core_calls :: "spike_locals \<Rightarrow> nat \<Rightarrow> spike_call list" where
  "core_calls l i =
     (if lo_ic l \<noteq> None then [Register_memtracer i ''ic''] else []) @ (if lo_dc l \<noteq> None then [Register_memtracer i ''dc''] else [])
     @ map (Register_extension i) (lo_extensions l) @ [Set_cache_blocksz i (lo_blocksz l)]"

definition owners_destroyed :: "spike_locals \<Rightarrow> spike_call list" where
  "owners_destroyed l =
     (if lo_l2 l \<noteq> None then [Destroy ''l2''] else []) @ (if lo_dc l \<noteq> None then [Destroy ''dc''] else []) @ (if lo_ic l \<noteq> None then [Destroy ''ic''] else [])"

definition sim_calls :: "spike_locals \<Rightarrow> nat \<Rightarrow> spike_call list" where
  "sim_calls l nprocs =
     New_sim # (if lo_dump_dts l then []
       else (if lo_ic l \<noteq> None \<and> lo_l2 l \<noteq> None then [Miss_handler ''ic''] else []) @ (if lo_dc l \<noteq> None \<and> lo_l2 l \<noteq> None then [Miss_handler ''dc''] else [])
         @ (if lo_ic l \<noteq> None then [Set_log ''ic'' (lo_log_cache l)] else []) @ (if lo_dc l \<noteq> None then [Set_log ''dc'' (lo_log_cache l)] else [])
         @ concat (map (core_calls l) [0..<nprocs])
         @ [Set_debug (lo_debug l), Configure_log (lo_log l) (lo_log_commits l), Set_histogram (lo_histogram l)])
     @ owners_destroyed l"

definition spike_init :: "'c spike_env \<Rightarrow> (spike_option \<times> string) list \<Rightarrow> string list \<Rightarrow> 'c cfg \<Rightarrow> ('c cfg \<times> spike_locals \<times> spike_call list) result" where
  "spike_init env opts rest c =
     bindE (foldE (spike_opt env) (mk_locals, c) opts)
     (\<lambda>(l, c1). if rest = [] then exit_failure
       else let mems = make_mems (ev_mem_cfg env) (\<lambda>sz. sz) (cf_mem_layout c1) in
         bindE (place_kernel env l c1 mems)
         (\<lambda>kc. case place_initrd env l c1 mems of
            (c2, ic) \<Rightarrow> bindE (choose_harts l c2)
              (\<lambda>c3. Inr (c3, l, kc @ ic @ sim_calls l (length (cf_hartids c3))))))"

record 'c spike_cfgs =
  sc_cfg :: "'c cfg"
  sc_cfg_fast :: "'c cfg"

definition spikeInit :: "'c spike_env \<Rightarrow> (spike_option \<times> string) list \<Rightarrow> string list \<Rightarrow> 'c spike_cfgs \<Rightarrow> ('c spike_cfgs \<times> spike_call list) result" where
  "spikeInit env opts rest s = bindE (spike_init env opts rest (sc_cfg s)) (\<lambda>(c, _, calls). Inr (s\<lparr>sc_cfg := c\<rparr>, calls))"

definition spikeFastInit :: "'c spike_env \<Rightarrow> (spike_option \<times> string) list \<Rightarrow> string list \<Rightarrow> 'c spike_cfgs \<Rightarrow> ('c spike_cfgs \<times> spike_call list) result" where
  "spikeFastInit env opts rest s = bindE (spike_init env opts rest (sc_cfg_fast s)) (\<lambda>(c, _, calls). Inr (s\<lparr>sc_cfg_fast := c\<rparr>, calls))"

section \<open>Properties\<close>

lemma first_region_Some:
  "first_region P mems i = Some (j, base, sz) \<Longrightarrow> i \<le> j \<and> j - i < length mems \<and> mems ! (j - i) = (base, sz) \<and> P sz
    \<and> (\<forall>k < j - i. \<not> P (snd (mems ! k)))"
proof (induction P mems i rule: first_region.induct)
  case (2 P base' sz' mems i)
  show ?case
  proof (cases "P sz'")
    case False
    with 2 have "Suc i \<le> j \<and> j - Suc i < length mems \<and> mems ! (j - Suc i) = (base, sz) \<and> P sz \<and> (\<forall>k < j - Suc i. \<not> P (snd (mems ! k)))"
      by simp
    moreover from this have "j - i = Suc (j - Suc i)" by (metis Suc_diff_Suc Suc_le_eq)
    ultimately show ?thesis using False by (auto simp: less_Suc_eq_0_disj)
  qed (use 2 in auto)
qed simp

text \<open>
  The initial disk lies inside one region of the layout. When a disk is placed, it is in the first region
  that has room for it and a page behind it: it ends one page before the region's end, its size is the
  file's, and all of it is inside the region, for a region that does not wrap around and a file whose
  size leaves room for the page in 64 bits.
\<close>

theorem spike_initrd_inside_region:
  assumes "place_initrd env l c mems = (c', [Read_file f i off n])"
    and "\<forall>(base, sz) \<in> set mems. unat base + unat sz < 2 ^ 64" "unat n + 0x1000 < 2 ^ 64"
  shows "\<exists>base sz start. i < length mems \<and> mems ! i = (base, sz) \<and> cf_initrd_bounds c' = (start, base + sz - 0x1000)
    \<and> unat base \<le> unat start \<and> unat start + unat n = unat base + unat sz - 0x1000 \<and> off = start - base
    \<and> (\<forall>j < i. unat (snd (mems ! j)) \<le> unat n + 0x1000)"
proof -
  from assms(1) obtain base sz where r: "first_region (\<lambda>sz. n \<noteq> 0 \<and> n + 0x1000 < sz) mems 0 = Some (i, base, sz)"
    "c' = c\<lparr>cf_initrd_bounds := (base + sz - 0x1000 - n, base + sz - 0x1000)\<rparr>" "off = base + sz - 0x1000 - n - base"
    by (auto simp: place_initrd_def Let_def split: option.splits)
  from first_region_Some [OF r(1)] have
    m: "i < length mems" "mems ! i = (base, sz)" "n \<noteq> 0" "n + 0x1000 < sz" "\<forall>k < i. \<not> (n + 0x1000 < snd (mems ! k))" by auto
  have "(base, sz) \<in> set mems" using m(1,2) by (metis nth_mem)
  then have w: "unat base + unat sz < 2 ^ 64" using assms(2) by auto
  have n: "unat (n + 0x1000) = unat n + 0x1000" using assms(3) by (simp add: unat_word_ariths)
  then have lt: "unat n + 0x1000 < unat sz" using m(4) by (simp add: word_less_nat_alt)
  have e: "unat (base + sz) = unat base + unat sz" using w by (simp add: unat_word_ariths)
  have e1: "unat (base + sz - 0x1000) = unat base + unat sz - 0x1000"
    by (subst unat_diff_le) (use e lt in \<open>simp_all add: word_le_nat_alt\<close>)
  have e2: "unat (base + sz - 0x1000 - n) = unat base + unat sz - 0x1000 - unat n"
    by (subst unat_diff_le) (use e1 lt in \<open>simp_all add: word_le_nat_alt\<close>)
  have "\<forall>j < i. unat (snd (mems ! j)) \<le> unat n + 0x1000" using m(5) m(3) n by (auto simp: word_less_nat_alt not_less)
  with m(1,2) r(2,3) e2 lt show ?thesis
    by (intro exI [of _ base] exI [of _ sz] exI [of _ "base + sz - 0x1000 - n"]) auto
qed

text \<open>
  A successful initialisation has the harts it was asked for: with explicit numbers, these, and as many as
  the number of processors where that is given too; otherwise the numbers from 0.
\<close>

theorem spike_harts_chosen:
  assumes "choose_harts l c = Inr c'"
  shows "if cf_explicit_hartids c then cf_hartids c' = cf_hartids c \<and> (\<forall>n. lo_nprocs l = Some n \<longrightarrow> n = word_of_nat (length (cf_hartids c')))
    else cf_hartids c' = map int [0..<(case lo_nprocs l of None \<Rightarrow> 1 | Some n \<Rightarrow> unat n)]"
  using assms by (auto simp: choose_harts_def split: option.splits if_splits)

lemma place_no_destroy:
  "place_kernel env l c mems = Inr kc \<Longrightarrow> Destroy d \<notin> set kc" "place_initrd env l c mems = (c1, ic) \<Longrightarrow> Destroy d \<notin> set ic"
  by (auto simp: place_kernel_def place_initrd_def bindE_eq_Inr Let_def split: option.splits prod.splits)

text \<open>
  A cache model leaves the simulator with a dangling pointer. When initialisation succeeds with an
  instruction or data cache and does not stop after dumping the device tree, every core has the cache registered as a tracer, and the
  cache is destroyed afterwards, when the function that owns it returns.
\<close>

theorem spike_cache_tracer_dangles:
  assumes "spike_init env opts rest c = Inr (c', l, calls)" "lo_ic l \<noteq> None" "\<not> lo_dump_dts l" "i < length (cf_hartids c')"
  shows "\<exists>before after. calls = before @ after \<and> Register_memtracer i ''ic'' \<in> set before \<and> Destroy ''ic'' \<in> set after
    \<and> New_sim \<in> set before \<and> (\<forall>d. Destroy d \<notin> set before)"
proof -
  from assms(1) obtain kc ic where k: "calls = kc @ ic @ sim_calls l (length (cf_hartids c'))" "\<forall>d. Destroy d \<notin> set (kc @ ic)"
  proof -
    from assms(1) obtain l1 c1 where o: "foldE (spike_opt env) (mk_locals, c) opts = Inr (l1, c1)"
      unfolding spike_init_def bindE_eq_Inr by force
    let ?mems = "make_mems (ev_mem_cfg env) (\<lambda>sz. sz) (cf_mem_layout c1)"
    obtain c2 ic where i: "place_initrd env l1 c1 ?mems = (c2, ic)" by fastforce
    from assms(1) obtain kc where "place_kernel env l c1 ?mems = Inr kc" "l1 = l" "calls = kc @ ic @ sim_calls l (length (cf_hartids c'))"
      by (auto simp: spike_init_def o i bindE_eq_Inr Let_def exit_failure_def split: if_splits)
    with i have "place_kernel env l c1 ?mems = Inr kc" "place_initrd env l c1 ?mems = (c2, ic)"
      "calls = kc @ ic @ sim_calls l (length (cf_hartids c'))" by simp_all
    with place_no_destroy that show thesis by fastforce
  qed
  have core: "Register_memtracer i ''ic'' \<in> set (concat (map (core_calls l) [0..<length (cf_hartids c')]))"
    using assms(2,4) by (auto simp: core_calls_def intro!: bexI [of _ i])
  have no: "Destroy d \<notin> set (core_calls l j)" for d j by (auto simp: core_calls_def)
  obtain pre where pre: "sim_calls l (length (cf_hartids c')) = pre @ owners_destroyed l"
    "Register_memtracer i ''ic'' \<in> set pre" "New_sim \<in> set pre" "\<forall>d. Destroy d \<notin> set pre"
  proof -
    let ?pre = "New_sim # ((if lo_ic l \<noteq> None \<and> lo_l2 l \<noteq> None then [Miss_handler ''ic''] else []) @ (if lo_dc l \<noteq> None \<and> lo_l2 l \<noteq> None then [Miss_handler ''dc''] else [])
         @ (if lo_ic l \<noteq> None then [Set_log ''ic'' (lo_log_cache l)] else []) @ (if lo_dc l \<noteq> None then [Set_log ''dc'' (lo_log_cache l)] else [])
         @ concat (map (core_calls l) [0..<length (cf_hartids c')])
         @ [Set_debug (lo_debug l), Configure_log (lo_log l) (lo_log_commits l), Set_histogram (lo_histogram l)])"
    show thesis
      by (rule that [of ?pre]) (use assms(3) core no in \<open>auto simp: sim_calls_def\<close>)
  qed
  have "Destroy ''ic'' \<in> set (owners_destroyed l)" using assms(2) by (simp add: owners_destroyed_def)
  with k pre show ?thesis by (intro exI [of _ "kc @ ic @ pre"] exI [of _ "owners_destroyed l"]) auto
qed

end
