(* ===== verification/Sim_Setup.thy ===== *)
theory Sim_Setup
  imports Perseus_Prelude
begin

text \<open>
  How the simulator is put together: the table of unit factories (\<open>simulation/ResourceMapFactory.hpp\<close>), the construction
  of the tree of units from the configuration (\<open>simulation/Simulation\<close>), and the annotation overrides and
  files of the decoder (\<open>olympia/MavisUnit\<close>). Nodes, resources, parameters and ports belong to the framework;
  the model records what the code asks the framework to do, in order, as effects.
\<close>

section \<open>Table of factories\<close>

text \<open>A factory is named by the class it builds.\<close>

type_synonym factories = "(string, string) smap"

definition RegisterResource :: "factories \<Rightarrow> string \<times> string \<Rightarrow> factories result" where
  "RegisterResource m = (\<lambda>(resource_name, factory).
     bindE (assertE (map_of m resource_name = None) (CAssert ''RegisterResource_'')) (\<lambda>_. Inr (smap_set resource_name factory m)))"

definition resource_factories :: "(string \<times> string) list" where
  "resource_factories =
     [(''mavis'', ''MavisUnit''), (''global_param'', ''GlobalParam''), (''perfect_frontend'', ''PerfectFrontend''),
      (''renaming_stage'', ''RenamingStage''), (''rob'', ''Rob''), (''dispatch_stage'', ''DispatchStage''),
      (''physical_regfile'', ''PhysicalRegfile''), (''reservation_station'', ''ReservationStation''),
      (''flush_manager'', ''FlushManager''), (''perfect_fu'', ''PerfectFu''), (''write_back_stage'', ''WriteBackStage'')]"

definition mk_ResourceMapFactory :: "factories result" where
  "mk_ResourceMapFactory = foldE RegisterResource [] resource_factories"

definition rmf_get :: "factories \<Rightarrow> string \<Rightarrow> string result" where
  "rmf_get m resource_name =
     bindE (assertE (map_of m resource_name \<noteq> None) (CAssert ''operator[]'')) (\<lambda>_. smap_at m resource_name)"

section \<open>Tree of units\<close>

text \<open>
  A configuration value. The members of an object are in the order in which the library iterates them; an
  iterator over anything but an object has no key, and asking for it throws.
\<close>

datatype json = JNull | JBool bool | JNum int | JStr string | JArr "json list" | JObj "(string \<times> json) list"

fun json_iter :: "json \<Rightarrow> (string option \<times> json) list" where
  "json_iter JNull = []"
| "json_iter (JArr xs) = map (\<lambda>x. (None, x)) xs"
| "json_iter (JObj ms) = map (\<lambda>(k, v). (Some k, v)) ms"
| "json_iter v = [(None, v)]"

definition json_key :: "string option \<Rightarrow> string result" where
  "json_key k = (case k of None \<Rightarrow> Inl (Thrown ''invalid_iterator'') | Some s \<Rightarrow> Inr s)"

definition json_string :: "json \<Rightarrow> string result" where
  "json_string v = (case v of JStr s \<Rightarrow> Inr s | _ \<Rightarrow> Inl (Thrown ''type_error''))"

text \<open>What is asked of the framework; a path lists the names from the root.\<close>

datatype setup_step =
    NewNode "string list"
  | NewResource "string list" string
  | SetVector "string list" string "string list"
  | SetValue "string list" string string
  | Bind string string

record CommandLineData =
  cl_is_elf_workload :: bool
  cl_workload :: string
  cl_unit_factory :: string
  cl_json_config :: string
  cl_instruction_limit :: u64

record DRAMinput =
  DRAMconfig :: string
  DRAMoutdir :: string

text \<open>\<open>dump\<close> is the library's text of a value.\<close>

record Simulation =
  is_elf_workload :: bool
  workload :: string
  json_config :: json
  dram_input :: DRAMinput
  instruction_limit :: u64
  resource_map_factory :: factories
  json_dump :: "json \<Rightarrow> string"

definition set_param :: "Simulation \<Rightarrow> string list \<Rightarrow> setup_step list \<Rightarrow> string option \<times> json \<Rightarrow> setup_step list result" where
  "set_param sim node effs = (\<lambda>(k, v).
     case v of
       JArr xs \<Rightarrow> if xs = [] then Inr effs
                 else bindE (json_key k) (\<lambda>n. bindE (foldE (\<lambda>ss x. bindE (json_string x) (\<lambda>s. Inr (ss @ [s]))) [] xs)
                      (\<lambda>ss. Inr (effs @ [SetVector node n ss])))
     | JStr s \<Rightarrow> bindE (json_key k) (\<lambda>n. Inr (effs @ [SetValue node n s]))
     | _ \<Rightarrow> bindE (json_key k) (\<lambda>n. Inr (effs @ [SetValue node n (json_dump sim v)])))"

definition build_instance :: "Simulation \<Rightarrow> string list \<Rightarrow> string option \<Rightarrow> setup_step list \<Rightarrow> string option \<times> json \<Rightarrow> setup_step list result" where
  "build_instance sim parent unit effs = (\<lambda>(k, params).
     bindE (json_key k) (\<lambda>instance_name. bindE (json_key unit) (\<lambda>unit_type.
     bindE (rmf_get (resource_map_factory sim) unit_type)
     (\<lambda>factory. let node = parent @ [instance_name] in
       bindE (foldE (set_param sim node) (effs @ [NewResource node factory]) (json_iter params))
       (\<lambda>effs1. Inr (effs1 @
          (if unit_type = ''perfect_frontend''
           then [SetValue node ''input_file'' (workload sim), SetValue node ''is_config'' ''false'']
             @ (if is_elf_workload sim then [SetValue node ''insn_gen_type'' ''spike''] else [])
           else [])))))))"

definition build_units :: "Simulation \<Rightarrow> string list \<Rightarrow> setup_step list \<Rightarrow> json list \<Rightarrow> setup_step list result" where
  "build_units sim parent =
     foldE (\<lambda>effs units_topo. foldE (\<lambda>effs (k, v). foldE (build_instance sim parent k) effs (json_iter v)) effs (json_iter units_topo))"

fun buildHierarchicalTopology :: "Simulation \<Rightarrow> json \<Rightarrow> string list \<Rightarrow> setup_step list \<Rightarrow> setup_step list result"
  and build_members :: "Simulation \<Rightarrow> (string \<times> json) list \<Rightarrow> string list \<Rightarrow> setup_step list \<Rightarrow> setup_step list result" where
  "buildHierarchicalTopology sim (JObj ms) parent effs = build_members sim ms parent effs"
| "buildHierarchicalTopology sim (JArr xs) parent effs = build_units sim parent effs xs"
| "buildHierarchicalTopology sim v parent effs = Inr effs"
| "build_members sim [] parent effs = Inr effs"
| "build_members sim ((k, v) # ms) parent effs =
     (if k = ''info'' then build_members sim ms parent effs
      else case buildHierarchicalTopology sim v (parent @ [k]) (effs @ [NewNode (parent @ [k])]) of
             Inl e \<Rightarrow> Inl e
           | Inr effs1 \<Rightarrow> build_members sim ms parent effs1)"

definition buildInfoTopology :: "Simulation \<Rightarrow> json \<Rightarrow> string list \<Rightarrow> setup_step list \<Rightarrow> setup_step list result" where
  "buildInfoTopology sim json parent effs =
     (case json of
        JObj ms \<Rightarrow> foldE (\<lambda>effs (k, v). if k = ''info'' then buildHierarchicalTopology sim v parent effs else Inr effs) effs ms
      | JArr xs \<Rightarrow> build_units sim parent effs xs
      | _ \<Rightarrow> Inr effs)"

definition buildTree :: "Simulation \<Rightarrow> json \<Rightarrow> setup_step list result" where
  "buildTree sim hierarchy =
     bindE (buildInfoTopology sim hierarchy [] []) (\<lambda>effs. buildHierarchicalTopology sim hierarchy [] effs)"

text \<open>\<open>binding_pair["source"]\<close> of a constant object without that member has no meaning; of a value that is no object, it throws.\<close>

definition json_member :: "json \<Rightarrow> string \<Rightarrow> json result" where
  "json_member v k = (case v of JObj ms \<Rightarrow> (case map_of ms k of None \<Rightarrow> Inl (Undefined ''missing member'') | Some x \<Rightarrow> Inr x)
     | _ \<Rightarrow> Inl (Thrown ''type_error''))"

definition bindBindingTopology :: "json \<Rightarrow> setup_step list result" where
  "bindBindingTopology json =
     foldE (\<lambda>effs (_, pair).
       bindE (json_member pair ''source'') (\<lambda>s. bindE (json_string s) (\<lambda>source.
       bindE (json_member pair ''target'') (\<lambda>t. bindE (json_string t) (\<lambda>target. Inr (effs @ [Bind source target])))))) []
     (json_iter json)"

section \<open>Decoder set-up\<close>

definition getISAFiles :: "string \<Rightarrow> string list" where
  "getISAFiles isa_file_path = map (\<lambda>f. isa_file_path @ f)
     [''/isa_rv64g.json'', ''/isa_rv64zba.json'', ''/isa_rv64zbb.json'', ''/isa_rv64zbs.json'', ''/isa_rv64c.json'',
      ''/isa_rv64cf.json'', ''/isa_rv64cd.json'']"

definition getUArchFiles :: "string \<Rightarrow> string \<Rightarrow> string list" where
  "getUArchFiles uarch_overrides_json uarch_file_path =
     map (\<lambda>f. uarch_file_path @ f) [''/olympia_uarch_rv64g.json'', ''/olympia_uarch_rv64c.json'', ''/olympia_uarch_rv64b.json'']
     @ (if uarch_overrides_json \<noteq> [] then [uarch_overrides_json] else [])"

definition override_pair :: "(string \<times> string) list \<Rightarrow> string \<Rightarrow> (string \<times> string) list result" where
  "override_pair annotations overde =
     bindE (assertE (CHR '','' \<in> set overde) (SpartaAssert ''Malformed uarch override''))
     (\<lambda>_. let mnemonic = takeWhile (\<lambda>c. c \<noteq> CHR '','') overde; attribute_pair = tl (dropWhile (\<lambda>c. c \<noteq> CHR '','') overde) in
       bindE (assertE (mnemonic \<noteq> [] \<and> attribute_pair \<noteq> []) (SpartaAssert ''Malformed uarch override''))
       (\<lambda>_. Inr (annotations @ [(mnemonic, attribute_pair)])))"

definition getUArchAnnotationOverrides :: "string list \<Rightarrow> (string \<times> string) list result" where
  "getUArchAnnotationOverrides vals = foldE override_pair [] vals"

text \<open>The search for the decoder goes from a node towards the root: \<open>path\<close> lists what each node on the way has as its decoder.\<close>

fun getMavis :: "'m option list \<Rightarrow> 'm result" where
  "getMavis [] = Inl (SpartaAssert ''Mavis unit was not found'')"
| "getMavis (None # path) = getMavis path"
| "getMavis (Some m # path) = Inr m"

section \<open>Properties\<close>

lemma register_all:
  assumes "distinct (map fst xs)" "\<forall>k \<in> fst ` set xs. map_of m k = None" "smap_wf m"
  shows "\<exists>m'. foldE RegisterResource m xs = Inr m' \<and> smap_wf m'
    \<and> (\<forall>k. map_of m' k = (case map_of xs k of None \<Rightarrow> map_of m k | Some v \<Rightarrow> Some v))"
  using assms
proof (induction xs arbitrary: m)
  case Nil
  then show ?case by simp
next
  case (Cons x xs)
  obtain k v where x: "x = (k, v)" by (cases x)
  have "map_of m k = None" using Cons.prems(2) x by simp
  then have r: "RegisterResource m x = Inr (smap_set k v m)" by (simp add: RegisterResource_def x)
  have k: "map_of xs k = None" using Cons.prems(1) x by (simp add: map_of_eq_None_iff)
  have "\<forall>k' \<in> fst ` set xs. map_of (smap_set k v m) k' = None" using Cons.prems x by auto
  with Cons.IH [of "smap_set k v m"] Cons.prems obtain m' where
    m': "foldE RegisterResource (smap_set k v m) xs = Inr m'" "smap_wf m'"
      "\<forall>i. map_of m' i = (case map_of xs i of None \<Rightarrow> map_of (smap_set k v m) i | Some v \<Rightarrow> Some v)" by auto
  have "\<forall>i. map_of m' i = (case map_of (x # xs) i of None \<Rightarrow> map_of m i | Some v \<Rightarrow> Some v)"
    using m'(3) k Cons.prems(3) x by (auto split: option.splits)
  with m' r show ?case by auto
qed

text \<open>
  The table of factories is built without running into its assertion, and answers exactly the eleven unit
  names; every other name, those of caches and memories among them, fails.
\<close>

theorem ResourceMapFactory_complete:
  "\<exists>m. mk_ResourceMapFactory = Inr m
    \<and> (\<forall>n. rmf_get m n = (case map_of resource_factories n of None \<Rightarrow> Inl (CAssert ''operator[]'') | Some f \<Rightarrow> Inr f))"
proof -
  have "distinct (map fst resource_factories)" by (simp add: resource_factories_def)
  then obtain m where m: "mk_ResourceMapFactory = Inr m"
    "\<forall>k. map_of m k = (case map_of resource_factories k of None \<Rightarrow> map_of [] k | Some v \<Rightarrow> Some v)"
    using register_all [of resource_factories "[]"] by (fastforce simp: mk_ResourceMapFactory_def)
  have "map_of m k = map_of resource_factories k" for k
    using m(2) by (cases "map_of resource_factories k") (simp_all del: not_None_eq)
  then have "rmf_get m n = (case map_of resource_factories n of None \<Rightarrow> Inl (CAssert ''operator[]'') | Some f \<Rightarrow> Inr f)" for n
    by (simp add: rmf_get_def smap_at_def split: option.splits)
  with m(1) show ?thesis by blast
qed

text \<open>A configuration as a tree of named groups whose leaves list unit types with their instances.\<close>

datatype hierarchy =
    Group "(string \<times> hierarchy) list"
  | Units "(string \<times> (string \<times> (string \<times> json) list) list) list"

fun hier_json :: "hierarchy \<Rightarrow> json" and members_json :: "(string \<times> hierarchy) list \<Rightarrow> (string \<times> json) list" where
  "hier_json (Group ms) = JObj (members_json ms)"
| "hier_json (Units us) = JArr (map (\<lambda>(t, xs). JObj [(t, JObj (map (\<lambda>(n, ps). (n, JObj ps)) xs))]) us)"
| "members_json [] = []"
| "members_json ((k, h) # ms) = (k, hier_json h) # members_json ms"

text \<open>The nodes and units it stands for, in order.\<close>

definition units_created :: "factories \<Rightarrow> string list \<Rightarrow> (string \<times> (string \<times> (string \<times> json) list) list) list \<Rightarrow> setup_step list" where
  "units_created m parent us = concat (map (\<lambda>(t, xs). map (\<lambda>(n, ps). NewResource (parent @ [n]) (the (map_of m t))) xs) us)"

fun tree_created :: "factories \<Rightarrow> string list \<Rightarrow> hierarchy \<Rightarrow> setup_step list"
  and trees_created :: "factories \<Rightarrow> string list \<Rightarrow> (string \<times> hierarchy) list \<Rightarrow> setup_step list" where
  "tree_created m parent (Group ms) = trees_created m parent ms"
| "tree_created m parent (Units us) = units_created m parent us"
| "trees_created m parent [] = []"
| "trees_created m parent ((k, h) # ms) =
     (if k = ''info'' then [] else NewNode (parent @ [k]) # tree_created m (parent @ [k]) h) @ trees_created m parent ms"

definition param_ok :: "json \<Rightarrow> bool" where
  "param_ok v = (case v of JArr xs \<Rightarrow> list_all (\<lambda>x. case x of JStr s \<Rightarrow> True | _ \<Rightarrow> False) xs | _ \<Rightarrow> True)"

definition units_ok :: "factories \<Rightarrow> (string \<times> (string \<times> (string \<times> json) list) list) list \<Rightarrow> bool" where
  "units_ok m us \<longleftrightarrow> (\<forall>(t, xs) \<in> set us. map_of m t \<noteq> None \<and> (\<forall>(n, ps) \<in> set xs. \<forall>(k, v) \<in> set ps. param_ok v))"

fun hier_ok :: "factories \<Rightarrow> hierarchy \<Rightarrow> bool" and members_ok :: "factories \<Rightarrow> (string \<times> hierarchy) list \<Rightarrow> bool" where
  "hier_ok m (Group ms) = members_ok m ms"
| "hier_ok m (Units us) = units_ok m us"
| "members_ok m [] = True"
| "members_ok m ((k, h) # ms) = (hier_ok m h \<and> members_ok m ms)"

definition created :: "setup_step list \<Rightarrow> setup_step list" where
  "created effs = filter (\<lambda>e. case e of NewNode p \<Rightarrow> True | NewResource p f \<Rightarrow> True | _ \<Rightarrow> False) effs"

lemma created_simps [simp]:
  "created [] = []" "created (a @ b) = created a @ created b" "created (NewNode p # es) = NewNode p # created es"
  "created (NewResource p f # es) = NewResource p f # created es" "created (SetValue p n v # es) = created es"
  "created (SetVector p n vs # es) = created es"
  by (simp_all add: created_def)

text \<open>A loop whose steps only append, and append what \<open>g\<close> says.\<close>

lemma foldE_appends:
  assumes "\<And>x effs. x \<in> set xs \<Longrightarrow> \<exists>es. f effs x = Inr (effs @ es) \<and> created es = g x"
  shows "\<exists>es. foldE f effs xs = Inr (effs @ es) \<and> created es = concat (map g xs)"
  using assms
proof (induction xs arbitrary: effs)
  case (Cons x xs)
  obtain es where es: "f effs x = Inr (effs @ es)" "created es = g x" using Cons.prems [of x effs] by auto
  obtain es' where "foldE f (effs @ es) xs = Inr ((effs @ es) @ es')" "created es' = concat (map g xs)"
    using Cons.IH [of "effs @ es"] Cons.prems by auto
  with es show ?case by (intro exI [of _ "es @ es'"]) simp
qed simp

lemma strings_ok:
  "list_all (\<lambda>x. case x of JStr s \<Rightarrow> True | _ \<Rightarrow> False) xs \<Longrightarrow> \<exists>ss'. foldE (\<lambda>ss x. bindE (json_string x) (\<lambda>s. Inr (ss @ [s]))) ss xs = Inr ss'"
  by (induction xs arbitrary: ss) (auto simp: json_string_def split: json.splits)

lemma set_param_ok: "param_ok v \<Longrightarrow> \<exists>es. set_param sim node effs (Some k, v) = Inr (effs @ es) \<and> created es = []"
proof (cases v)
  case (JArr xs)
  assume "param_ok v"
  with JArr obtain ss where "foldE (\<lambda>ss x. bindE (json_string x) (\<lambda>s. Inr (ss @ [s]))) [] xs = Inr ss"
    using strings_ok [of xs "[]"] by (auto simp: param_ok_def)
  with JArr show ?thesis by (simp add: set_param_def json_key_def)
qed (simp_all add: set_param_def json_key_def)

lemma build_instance_ok:
  assumes "map_of (resource_map_factory sim) t = Some f" "\<forall>(k, v) \<in> set ps. param_ok v"
  shows "\<exists>es. build_instance sim parent (Some t) effs (Some n, JObj ps) = Inr (effs @ es) \<and> created es = [NewResource (parent @ [n]) f]"
proof -
  let ?node = "parent @ [n]"
  have "\<exists>es. foldE (set_param sim ?node) (effs @ [NewResource ?node f]) (json_iter (JObj ps)) = Inr ((effs @ [NewResource ?node f]) @ es)
      \<and> created es = concat (map (\<lambda>_. []) (json_iter (JObj ps)))"
    by (rule foldE_appends) (use assms(2) set_param_ok in auto)
  then obtain es where "foldE (set_param sim ?node) (effs @ [NewResource ?node f]) (json_iter (JObj ps)) = Inr (effs @ NewResource ?node f # es)"
    "created es = []" by auto
  with assms(1) show ?thesis by (auto simp: build_instance_def json_key_def rmf_get_def smap_at_def Let_def)
qed

lemma build_units_ok:
  assumes "units_ok (resource_map_factory sim) us"
  shows "\<exists>es. build_units sim parent effs (map (\<lambda>(t, xs). JObj [(t, JObj (map (\<lambda>(n, ps). (n, JObj ps)) xs))]) us) = Inr (effs @ es)
    \<and> created es = units_created (resource_map_factory sim) parent us"
proof -
  let ?m = "resource_map_factory sim"
  have step: "\<exists>es. foldE (build_instance sim parent (Some t)) effs (json_iter (JObj (map (\<lambda>(n, ps). (n, JObj ps)) xs))) = Inr (effs @ es)
      \<and> created es = map (\<lambda>(n, ps). NewResource (parent @ [n]) (the (map_of ?m t))) xs"
    if u: "(t, xs) \<in> set us" for t xs effs
  proof -
    obtain f where f: "map_of ?m t = Some f" "\<forall>(n, ps) \<in> set xs. \<forall>(k, v) \<in> set ps. param_ok v"
      using bspec [OF assms [unfolded units_ok_def] u] by auto
    have "\<exists>es. foldE (build_instance sim parent (Some t)) effs (map (\<lambda>(n, ps). (Some n, JObj ps)) xs) = Inr (effs @ es)
      \<and> created es = concat (map (\<lambda>(n, v). [NewResource (parent @ [the n]) f]) (map (\<lambda>(n, ps). (Some n, JObj ps)) xs))"
      by (rule foldE_appends) (use f build_instance_ok in fastforce)
    note inst = this
    have "concat (map (\<lambda>(n, v). [NewResource (parent @ [the n]) f]) (map (\<lambda>(n, ps). (Some n, JObj ps)) xs))
      = map (\<lambda>(n, ps). NewResource (parent @ [n]) f) xs" by (induction xs) auto
    with inst have "\<exists>es. foldE (build_instance sim parent (Some t)) effs (map (\<lambda>(n, ps). (Some n, JObj ps)) xs) = Inr (effs @ es)
      \<and> created es = map (\<lambda>(n, ps). NewResource (parent @ [n]) f) xs" by simp
    moreover have "json_iter (JObj (map (\<lambda>(n, ps). (n, JObj ps)) xs)) = map (\<lambda>(n, ps). (Some n, JObj ps)) xs" by (induction xs) auto
    ultimately show ?thesis by (simp only: f(1) option.sel)
  qed
  let ?enc = "\<lambda>(t, xs). JObj [(t, JObj (map (\<lambda>(n, ps). (n, JObj ps)) xs))]"
  have enc: "foldE F effs (map ?enc us) = foldE (\<lambda>effs u. F effs (?enc u)) effs us" for F :: "setup_step list \<Rightarrow> json \<Rightarrow> setup_step list result" and effs
    by (induction us arbitrary: effs) (auto simp: bindE_def split: sum.splits)
  show ?thesis unfolding build_units_def enc units_created_def
  proof (rule foldE_appends)
    fix x effs assume u: "x \<in> set us"
    obtain t xs where x: "x = (t, xs)" by fastforce
    with u have "(t, xs) \<in> set us" by simp
    note x = x this
    from step [OF x(2), of effs] obtain es where
      es: "foldE (build_instance sim parent (Some t)) effs (json_iter (JObj (map (\<lambda>(n, ps). (n, JObj ps)) xs))) = Inr (effs @ es)"
        "created es = map (\<lambda>(n, ps). NewResource (parent @ [n]) (the (map_of ?m t))) xs" by blast
    have one: "json_iter (JObj [(t, v)]) = [(Some t, v)]" for v by simp
    show "\<exists>es. foldE (\<lambda>effs (k, v). foldE (build_instance sim parent k) effs (json_iter v)) effs (json_iter (?enc x)) = Inr (effs @ es)
      \<and> created es = (case x of (t, xs) \<Rightarrow> map (\<lambda>(n, ps). NewResource (parent @ [n]) (the (map_of ?m t))) xs)"
      unfolding x(1) prod.case one using es by (simp del: json_iter.simps)
  qed
qed

lemma build_tree_ok:
  "hier_ok (resource_map_factory sim) h \<Longrightarrow> \<exists>es. buildHierarchicalTopology sim (hier_json h) parent effs = Inr (effs @ es)
    \<and> created es = tree_created (resource_map_factory sim) parent h"
  "members_ok (resource_map_factory sim) ms \<Longrightarrow> \<exists>es. build_members sim (members_json ms) parent effs = Inr (effs @ es)
    \<and> created es = trees_created (resource_map_factory sim) parent ms"
proof (induction "resource_map_factory sim" parent h and "resource_map_factory sim" parent ms arbitrary: effs and effs rule: tree_created_trees_created.induct)
  case (1 parent ms)
  then show ?case by simp
next
  case (2 parent us)
  then show ?case using build_units_ok [of sim us] by simp
next
  case (3 parent)
  then show ?case by simp
next
  case (4 parent k h ms)
  show ?case
  proof (cases "k = ''info''")
    case True
    then show ?thesis using "4.hyps"(2) "4.prems" by simp
  next
    case False
    obtain es where es: "buildHierarchicalTopology sim (hier_json h) (parent @ [k]) (effs @ [NewNode (parent @ [k])]) = Inr ((effs @ [NewNode (parent @ [k])]) @ es)"
      "created es = tree_created (resource_map_factory sim) (parent @ [k]) h"
      using "4.hyps"(1) [OF False] "4.prems" by fastforce
    obtain es' where "build_members sim (members_json ms) parent (effs @ NewNode (parent @ [k]) # es) = Inr ((effs @ NewNode (parent @ [k]) # es) @ es')"
      "created es' = trees_created (resource_map_factory sim) parent ms"
      using "4.hyps"(2) "4.prems" by fastforce
    with es False show ?thesis by (intro exI [of _ "NewNode (parent @ [k]) # es @ es'"]) simp
  qed
qed

lemma members_json_append: "members_json (ms1 @ ms2) = members_json ms1 @ members_json ms2"
  by (induction ms1) auto

lemma trees_created_append: "trees_created m parent (ms1 @ ms2) = trees_created m parent ms1 @ trees_created m parent ms2"
  by (induction ms1) auto

lemma members_ok_append: "members_ok m (ms1 @ ms2) \<longleftrightarrow> members_ok m ms1 \<and> members_ok m ms2"
  by (induction ms1) auto

text \<open>
  The tree that is built is the tree that was configured. For a hierarchy whose unit types are all registered and whose
  list parameters are lists of strings, building succeeds; it creates first the units of the top-level \<open>info\<close> section, at the
  root, and then every group and every unit instance once, each under its path and with the factory of its type, in the order
  of the configuration. Sections called \<open>info\<close> below the top level are left out.
\<close>

theorem Simulation_builds_configured_tree:
  assumes "m = resource_map_factory sim" "hier_ok m h" "members_ok m (ms1 @ ms2)" "''info'' \<notin> fst ` set (ms1 @ ms2)"
  shows "\<exists>effs. buildTree sim (JObj (members_json (ms1 @ (''info'', h) # ms2))) = Inr effs
    \<and> created effs = tree_created m [] h @ trees_created m [] (ms1 @ ms2)"
proof -
  have skip: "foldE (\<lambda>effs (k, v). if k = ''info'' then buildHierarchicalTopology sim v [] effs else Inr effs) effs (members_json ms) = Inr effs"
    if "''info'' \<notin> fst ` set ms" for effs ms using that by (induction ms) auto
  have ok: "hier_ok (resource_map_factory sim) h" "members_ok (resource_map_factory sim) (ms1 @ (''info'', h) # ms2)"
    using assms(1-3) by (simp_all add: members_ok_append)
  from build_tree_ok(1) [OF ok(1), of "[]" "[]"] obtain es where
    es: "buildHierarchicalTopology sim (hier_json h) [] [] = Inr es" "created es = tree_created m [] h"
    using assms(1) by auto
  from build_tree_ok(2) [OF ok(2), of "[]" es] obtain es' where
    es': "build_members sim (members_json (ms1 @ (''info'', h) # ms2)) [] es = Inr (es @ es')"
      "created es' = trees_created m [] (ms1 @ ms2)" using assms(1) by (auto simp: trees_created_append)
  have "buildInfoTopology sim (JObj (members_json (ms1 @ (''info'', h) # ms2))) [] [] = Inr es"
    using skip [of ms1] skip [of ms2] assms(4) es(1) by (simp add: buildInfoTopology_def members_json_append foldE_append image_Un)
  with es es' show ?thesis by (simp add: buildTree_def)
qed

text \<open>The last value given to a parameter.\<close>

definition param_value :: "setup_step list \<Rightarrow> string list \<Rightarrow> string \<Rightarrow> setup_step option" where
  "param_value effs node n =
     (let xs = filter (\<lambda>e. case e of SetValue p k v \<Rightarrow> p = node \<and> k = n | SetVector p k v \<Rightarrow> p = node \<and> k = n | _ \<Rightarrow> False) effs
      in if xs = [] then None else Some (last xs))"

lemma param_value_last: "param_value (effs @ [SetValue node n v]) node n = Some (SetValue node n v)"
  by (simp add: param_value_def Let_def)

lemma param_value_other: "k \<noteq> n \<Longrightarrow> param_value (effs @ [SetValue node k v]) node n = param_value effs node n"
  by (simp add: param_value_def)

text \<open>
  The command line wins over the configuration: whatever the configuration says, the frontend reads the
  workload of the command line, is told that it is no configuration file, and uses the simulator for an executable.
\<close>

theorem Simulation_frontend_workload:
  assumes "build_instance sim parent (Some ''perfect_frontend'') effs0 (Some n, params) = Inr effs" "node = parent @ [n]"
  shows "param_value effs node ''input_file'' = Some (SetValue node ''input_file'' (workload sim))
    \<and> param_value effs node ''is_config'' = Some (SetValue node ''is_config'' ''false'')
    \<and> (is_elf_workload sim \<longrightarrow> param_value effs node ''insn_gen_type'' = Some (SetValue node ''insn_gen_type'' ''spike''))"
proof -
  from assms obtain es where es: "effs = (es @ [SetValue node ''input_file'' (workload sim)]) @ [SetValue node ''is_config'' ''false'']
      \<or> effs = ((es @ [SetValue node ''input_file'' (workload sim)]) @ [SetValue node ''is_config'' ''false'']) @ [SetValue node ''insn_gen_type'' ''spike'']"
    "is_elf_workload sim \<longrightarrow> effs = ((es @ [SetValue node ''input_file'' (workload sim)]) @ [SetValue node ''is_config'' ''false'']) @ [SetValue node ''insn_gen_type'' ''spike'']"
    by (cases "is_elf_workload sim") (auto simp: build_instance_def json_key_def bindE_eq_Inr Let_def)
  show ?thesis
    using es by (elim disjE) (auto simp only: param_value_last param_value_other list.inject char.inject not_Cons_self2 simp_thms)
qed

text \<open>
  Reading an annotation override is the inverse of writing one: joined by a comma, pairs of a mnemonic
  without comma and an attribute come back as they were; an override without a comma, or with an empty
  side, is rejected.
\<close>

theorem uarch_overrides_roundtrip:
  assumes "\<forall>(m, a) \<in> set ps. CHR '','' \<notin> set m"
  shows "getUArchAnnotationOverrides (map (\<lambda>(m, a). m @ CHR '','' # a) ps)
    = (if \<forall>(m, a) \<in> set ps. m \<noteq> [] \<and> a \<noteq> [] then Inr ps else Inl (SpartaAssert ''Malformed uarch override''))"
proof -
  have one: "override_pair out (m @ CHR '','' # a) = (if m \<noteq> [] \<and> a \<noteq> [] then Inr (out @ [(m, a)]) else Inl (SpartaAssert ''Malformed uarch override''))"
    if "CHR '','' \<notin> set m" for out m a
  proof -
    have "takeWhile (\<lambda>c. c \<noteq> CHR '','') (m @ CHR '','' # a) = m \<and> dropWhile (\<lambda>c. c \<noteq> CHR '','') (m @ CHR '','' # a) = CHR '','' # a"
      using that by (induction m) auto
    then show ?thesis by (simp add: override_pair_def assertE_def)
  qed
  have "foldE override_pair out (map (\<lambda>(m, a). m @ CHR '','' # a) ps)
    = (if \<forall>(m, a) \<in> set ps. m \<noteq> [] \<and> a \<noteq> [] then Inr (out @ ps) else Inl (SpartaAssert ''Malformed uarch override''))" for out
    using assms
  proof (induction ps arbitrary: out)
    case (Cons p ps)
    obtain m a where p: "p = (m, a)" by fastforce
    with Cons.prems have m: "CHR '','' \<notin> set m" "\<forall>(m, a) \<in> set ps. CHR '','' \<notin> set m" by auto
    show ?case
    proof (cases "m \<noteq> [] \<and> a \<noteq> []")
      case True
      then show ?thesis using Cons.IH [OF m(2), of "out @ [(m, a)]"] by (simp add: p one [OF m(1)])
    next
      case False
      then show ?thesis by (auto simp: p one [OF m(1)])
    qed
  qed simp
  then show ?thesis by (simp add: getUArchAnnotationOverrides_def)
qed

theorem uarch_overrides_roundtrip_witness:
  "getUArchAnnotationOverrides [''add, latency : 100'', ''lw,dispatch''] = Inr [(''add'', '' latency : 100''), (''lw'', ''dispatch'')]"
  using uarch_overrides_roundtrip [of "[(''add'', '' latency : 100''), (''lw'', ''dispatch'')]"] by simp

end
