(* ===== verification/Elf_Parser.thy ===== *)
theory Elf_Parser
  imports Memory_Models
begin

text \<open>
  \<open>simulation/ElfParser\<close>: symbols of an executable and loading it into a memory. The file has been read by a
  third-party library; its sections, symbols and segments are a record.
\<close>

section \<open>Symbols\<close>

record elf_symbol =
  sym_name :: string
  sym_value :: u64

record elf_section =
  sec_name :: string
  sec_symbols :: "elf_symbol list"

text \<open>A segment without data in the file has a null pointer.\<close>

record elf_segment =
  seg_file_size :: u64
  seg_physical_address :: u64
  seg_data :: "u8 list option"

record ELFParser =
  el_sections :: "elf_section list"
  el_segments :: "elf_segment list"

definition GetSymbolTable :: "ELFParser \<Rightarrow> elf_section result" where
  "GetSymbolTable e = (case find (\<lambda>s. sec_name s = ''.symtab'') (el_sections e) of None \<Rightarrow> Inl (Thrown ''exit(-1)'') | Some s \<Rightarrow> Inr s)"

definition ReadSymbolTableByName :: "ELFParser \<Rightarrow> string \<Rightarrow> u64 result" where
  "ReadSymbolTableByName e ref_name =
     bindE (GetSymbolTable e)
     (\<lambda>t. case find (\<lambda>s. sym_name s = ref_name) (sec_symbols t) of None \<Rightarrow> Inl (Thrown ''exit(-1)'') | Some s \<Rightarrow> Inr (sym_value s))"

definition GetStart :: "ELFParser \<Rightarrow> u64 result" where
  "GetStart e = ReadSymbolTableByName e ''_start''"

definition GetSize :: "ELFParser \<Rightarrow> u64 result" where
  "GetSize e = bindE (ReadSymbolTableByName e ''_end'') (\<lambda>a. bindE (ReadSymbolTableByName e ''_start'') (\<lambda>b. Inr (a - b)))"

definition GetTohost :: "ELFParser \<Rightarrow> u64 result" where
  "GetTohost e = ReadSymbolTableByName e ''tohost''"

definition GetFromhost :: "ELFParser \<Rightarrow> u64 result" where
  "GetFromhost e = ReadSymbolTableByName e ''fromhost''"

section \<open>Loading\<close>

text \<open>\<open>Load\<close> copies into a buffer; outside the buffer or the segment's data the copy has no meaning.\<close>

definition load_bytes :: "ELFParser \<Rightarrow> u8 list \<Rightarrow> elf_segment \<Rightarrow> u8 list result" where
  "load_bytes e mem s =
     bindE (GetStart e)
     (\<lambda>start. let n = unat (seg_file_size s); addr = unat (seg_physical_address s - start) in
       case seg_data s of
         None \<Rightarrow> Inr mem
       | Some data \<Rightarrow> if n \<le> length data \<and> addr + n \<le> length mem then Inr (take addr mem @ take n data @ drop (addr + n) mem)
                     else Inl (Undefined ''memcpy''))"

definition elf_Load :: "ELFParser \<Rightarrow> u8 list \<Rightarrow> u8 list result" where
  "elf_Load e mem = foldE (load_bytes e) mem (el_segments e)"

definition load_segment :: "BaseMemory \<Rightarrow> elf_segment \<Rightarrow> BaseMemory result" where
  "load_segment m s = (case seg_data s of None \<Rightarrow> Inr m | Some data \<Rightarrow> bm_Write m (seg_physical_address s) data (seg_file_size s))"

definition elf_to_memory :: "BaseMemory \<Rightarrow> ELFParser \<Rightarrow> BaseMemory result" where
  "elf_to_memory m e =
     bindE (GetSize e)
     (\<lambda>n. bindE (assertE (bm_size m \<ge> n) (CAssert ''size'')) (\<lambda>_. foldE load_segment m (el_segments e)))"

section \<open>Properties\<close>

text \<open>The segment has data that lies in its file and fits into the memory, above its first byte.\<close>

definition seg_len :: "elf_segment \<Rightarrow> nat" where
  "seg_len s = unat (seg_file_size s)"

definition seg_fits :: "BaseMemory \<Rightarrow> elf_segment \<Rightarrow> bool" where
  "seg_fits m s \<longleftrightarrow> (case seg_data s of None \<Rightarrow> True
     | Some data \<Rightarrow> seg_len s \<le> length data \<and> isInRange m (seg_physical_address s)
         \<and> bm_offset m (seg_physical_address s) + seg_len s \<le> length (bm_memory m))"

definition apart :: "BaseMemory \<Rightarrow> u64 \<Rightarrow> nat \<Rightarrow> elf_segment \<Rightarrow> bool" where
  "apart m a n s \<longleftrightarrow> seg_data s = None \<or> bm_offset m a + n \<le> bm_offset m (seg_physical_address s)
     \<or> bm_offset m (seg_physical_address s) + seg_len s \<le> bm_offset m a"

lemma load_segment_ok:
  assumes "seg_fits m s"
  shows "\<exists>m'. load_segment m s = Inr m' \<and> bm_base_address m' = bm_base_address m \<and> bm_length m' = bm_length m
    \<and> length (bm_memory m') = length (bm_memory m)
    \<and> (\<forall>data. seg_data s = Some data \<longrightarrow> bm_load m' (seg_physical_address s) (seg_len s) = Inr (take (seg_len s) data))
    \<and> (\<forall>b n. apart m b n s \<longrightarrow> bm_load m' b n = bm_load m b n)"
proof (cases "seg_data s")
  case None
  then show ?thesis by (simp add: load_segment_def)
next
  case (Some data)
  let ?a = "seg_physical_address s" and ?bs = "take (seg_len s) data"
  have f: "seg_len s \<le> length data" "isInRange m ?a" "bm_offset m ?a + seg_len s \<le> length (bm_memory m)"
    using assms Some by (simp_all add: seg_fits_def)
  then have l: "length ?bs = seg_len s" by simp
  then obtain m' where m': "bm_store m ?a ?bs = Inr m'" using f(3) by (simp add: bm_store_def Let_def)
  have "load_segment m s = Inr m'" using Some f(1,2) m' by (simp add: load_segment_def bm_Write_def seg_len_def)
  moreover have "bm_load m' ?a (seg_len s) = Inr ?bs" using bm_store_load [OF m' f(2)] l by simp
  moreover have "\<forall>b n. apart m b n s \<longrightarrow> bm_load m' b n = bm_load m b n"
    using bm_store_load_other [OF m'] l Some by (auto simp: apart_def)
  ultimately show ?thesis using Some bm_store_keeps [OF m'] by auto
qed

lemma load_segments_ok:
  assumes "\<forall>s \<in> set ss. seg_fits m s" "sorted_wrt (\<lambda>s t. seg_data s \<noteq> None \<longrightarrow> apart m (seg_physical_address s) (seg_len s) t) ss"
  shows "\<exists>m'. foldE load_segment m ss = Inr m'
    \<and> (\<forall>s \<in> set ss. \<forall>data. seg_data s = Some data \<longrightarrow> bm_load m' (seg_physical_address s) (seg_len s) = Inr (take (seg_len s) data))
    \<and> (\<forall>b n. (\<forall>s \<in> set ss. apart m b n s) \<longrightarrow> bm_load m' b n = bm_load m b n)"
  using assms
proof (induction ss arbitrary: m)
  case Nil
  then show ?case by simp
next
  case (Cons s ss)
  then obtain m1 where m1: "load_segment m s = Inr m1" "bm_base_address m1 = bm_base_address m" "bm_length m1 = bm_length m"
    "length (bm_memory m1) = length (bm_memory m)"
    "\<forall>data. seg_data s = Some data \<longrightarrow> bm_load m1 (seg_physical_address s) (seg_len s) = Inr (take (seg_len s) data)"
    "\<forall>b n. apart m b n s \<longrightarrow> bm_load m1 b n = bm_load m b n" using load_segment_ok [of m s] by auto
  have same: "apart m1 = apart m" "seg_fits m1 = seg_fits m"
    using m1(2-4) by (auto simp: apart_def seg_fits_def bm_offset_def isInRange_def fun_eq_iff split: option.splits)
  with Cons.IH [of m1] Cons.prems obtain m' where m': "foldE load_segment m1 ss = Inr m'"
    "\<forall>s \<in> set ss. \<forall>data. seg_data s = Some data \<longrightarrow> bm_load m' (seg_physical_address s) (seg_len s) = Inr (take (seg_len s) data)"
    "\<forall>b n. (\<forall>s \<in> set ss. apart m b n s) \<longrightarrow> bm_load m' b n = bm_load m1 b n" by auto
  have "bm_load m' (seg_physical_address s) (seg_len s) = Inr (take (seg_len s) data)" if "seg_data s = Some data" for data
    using m'(3) m1(5) Cons.prems(2) that by auto
  with m1 m' show ?case by auto
qed

text \<open>
  (C39) Loading an executable puts every segment where it belongs. If the program is no larger than the memory and each
  segment with data fits above the memory's first byte, clear of the others, then loading succeeds and
  reading a segment's range afterwards gives its data.
\<close>

theorem ELF_segments_loaded:
  assumes "GetSize e = Inr n" "n \<le> bm_size m" "\<forall>s \<in> set (el_segments e). seg_fits m s"
    and "sorted_wrt (\<lambda>s t. seg_data s \<noteq> None \<longrightarrow> apart m (seg_physical_address s) (seg_len s) t) (el_segments e)"
  shows "\<exists>m'. elf_to_memory m e = Inr m'
    \<and> (\<forall>s \<in> set (el_segments e). \<forall>data. seg_data s = Some data \<longrightarrow> bm_load m' (seg_physical_address s) (unat (seg_file_size s)) = Inr (take (unat (seg_file_size s)) data))"
  using load_segments_ok [OF assms(3,4)] assms(1,2) by (auto simp: elf_to_memory_def seg_len_def)

definition demo_elf :: "u64 \<Rightarrow> ELFParser" where
  "demo_elf a = \<lparr>el_sections = [\<lparr>sec_name = ''.text'', sec_symbols = []\<rparr>, \<lparr>sec_name = ''.symtab'',
       sec_symbols = [\<lparr>sym_name = ''_start'', sym_value = 0x80000000\<rparr>, \<lparr>sym_name = ''_end'', sym_value = 0x80000008\<rparr>]\<rparr>],
     el_segments = [\<lparr>seg_file_size = 4, seg_physical_address = a, seg_data = Some [0x13, 0x05, 0x10, 0x00]\<rparr>,
       \<lparr>seg_file_size = 0, seg_physical_address = 0, seg_data = None\<rparr>]\<rparr>"

lemma demo_elf_size: "GetSize (demo_elf a) = Inr 8"
  by (simp add: demo_elf_def GetSize_def ReadSymbolTableByName_def GetSymbolTable_def)

theorem ELF_segments_loaded_witness:
  "\<exists>m'. elf_to_memory (mk_BaseMemory 0x80000000 16 (\<lambda>_. 0)) (demo_elf 0x80000004) = Inr m' \<and> bm_load m' 0x80000004 4 = Inr [0x13, 0x05, 0x10, 0x00]"
proof -
  let ?m = "mk_BaseMemory 0x80000000 16 (\<lambda>_. 0)" and ?e = "demo_elf 0x80000004"
  have "8 \<le> bm_size ?m" by (simp add: bm_size_def mk_BaseMemory_def)
  moreover have "\<forall>s \<in> set (el_segments ?e). seg_fits ?m s"
    by (simp add: demo_elf_def seg_fits_def seg_len_def mk_BaseMemory_def isInRange_def bm_offset_def)
  moreover have "sorted_wrt (\<lambda>s t. seg_data s \<noteq> None \<longrightarrow> apart ?m (seg_physical_address s) (seg_len s) t) (el_segments ?e)"
    by (simp add: demo_elf_def apart_def)
  ultimately show ?thesis using ELF_segments_loaded [OF demo_elf_size, of ?m "0x80000004"] by (auto simp: demo_elf_def)
qed

lemma load_segments_range:
  "foldE load_segment m ss = Inr m' \<Longrightarrow> s \<in> set ss \<Longrightarrow> seg_data s \<noteq> None \<Longrightarrow> isInRange m (seg_physical_address s)"
proof (induction ss arbitrary: m)
  case (Cons x ss)
  then obtain m1 where m1: "load_segment m x = Inr m1" "foldE load_segment m1 ss = Inr m'" by (auto simp: bindE_eq_Inr)
  have keep: "isInRange m1 a = isInRange m a" for a
    using m1(1) by (auto simp: load_segment_def bm_Write_def bindE_eq_Inr dest: bm_store_keeps(4) split: option.splits if_splits)
  show ?case
  proof (cases "s = x")
    case True
    with m1(1) Cons.prems(3) show ?thesis by (auto simp: load_segment_def bm_Write_def bindE_eq_Inr)
  next
    case False
    with Cons.IH [OF m1(2)] Cons.prems keep show ?thesis by simp
  qed
qed simp

text \<open>
  A program cannot be loaded at the start of the memory: with a segment that has data at the base address,
  loading never succeeds, since the memory's range check excludes its first byte.
\<close>

theorem ELF_segment_at_base_rejected:
  assumes "s \<in> set (el_segments e)" "seg_data s \<noteq> None" "seg_physical_address s = bm_base_address m"
  shows "\<exists>err. elf_to_memory m e = Inl err"
proof (cases "elf_to_memory m e")
  case (Inr m')
  then have "foldE load_segment m (el_segments e) = Inr m'" by (auto simp: elf_to_memory_def bindE_eq_Inr)
  from load_segments_range [OF this assms(1,2)] assms(3) show ?thesis by (simp add: isInRange_def)
qed simp

theorem ELF_segment_at_base_rejected_witness:
  "\<exists>err. elf_to_memory (mk_BaseMemory 0x80000000 16 (\<lambda>_. 0)) (demo_elf 0x80000000) = Inl err"
  using ELF_segment_at_base_rejected [of "\<lparr>seg_file_size = 4, seg_physical_address = 0x80000000, seg_data = Some [0x13, 0x05, 0x10, 0x00]\<rparr>" "demo_elf 0x80000000"
    "mk_BaseMemory 0x80000000 16 (\<lambda>_. 0)"]
  by (simp add: demo_elf_def mk_BaseMemory_def)

end
