(* ===== verification/Legacy_Queues.thy ===== *)
theory Legacy_Queues
  imports Queue_Interface
begin

unbundle bit_operations_syntax

text \<open>
  The ring buffers of the earlier model: \<open>legacy/src/component/basic/LoopQueue.hh\<close> and its predecessor
  \<open>legacy/LoopQueue_copy.hh\<close>. They refine a bounded list (\<^verbatim>\<open>bounded_queue\<close>), their age comparison is the order
  of insertion, and the two versions behave alike. Their only guards are \<open>DASSERT\<close>s, which are compiled in
  when \<open>TRACE_ON\<close> is defined (\<open>legacy/src/trace/Logging.hh\<close>): the definitions take this choice as an argument.
\<close>

section \<open>The queue of component/basic\<close>

definition DASSERT :: "bool \<Rightarrow> bool \<Rightarrow> string \<Rightarrow> unit result" where
  "DASSERT trace_on cond msg = (if trace_on \<and> \<not> cond then Inl (Thrown ''Assert Failed'') else Inr ())"

record 'a LegacyQueue =
  lg_data_queue :: "'a list"
  lg_header :: u64
  lg_tail :: u64
  lg_usage :: u64

text \<open>\<open>resize\<close> default-constructs the entries; \<open>dflt\<close> is the default-constructed one.\<close>

definition lg_Reset :: "'a \<Rightarrow> 'a LegacyQueue \<Rightarrow> 'a LegacyQueue" where
  "lg_Reset dflt q = q\<lparr>lg_tail := 0, lg_header := 0, lg_usage := 0, lg_data_queue := replicate (length (lg_data_queue q)) dflt\<rparr>"

definition mk_LegacyQueue :: "'a \<Rightarrow> u64 \<Rightarrow> 'a LegacyQueue" where
  "mk_LegacyQueue dflt d = lg_Reset dflt \<lparr>lg_data_queue = replicate (unat d) dflt, lg_header = 0, lg_tail = 0, lg_usage = 0\<rparr>"

definition lg_GetHeader :: "'a LegacyQueue \<Rightarrow> u64" where
  "lg_GetHeader q = lg_header q"

definition lg_GetTail :: "'a LegacyQueue \<Rightarrow> u64" where
  "lg_GetTail q = lg_tail q"

definition lg_GetSize :: "'a LegacyQueue \<Rightarrow> u64" where
  "lg_GetSize q = word_of_nat (length (lg_data_queue q))"

definition lg_GetUsage :: "'a LegacyQueue \<Rightarrow> u64" where
  "lg_GetUsage q = lg_usage q"

definition lg_GetAvailEntryCount :: "'a LegacyQueue \<Rightarrow> u64" where
  "lg_GetAvailEntryCount q = lg_GetSize q - lg_usage q"

definition lg_IsFull :: "'a LegacyQueue \<Rightarrow> bool" where
  "lg_IsFull q = (lg_usage q = lg_GetSize q)"

definition lg_IsEmpty :: "'a LegacyQueue \<Rightarrow> bool" where
  "lg_IsEmpty q = (lg_usage q = 0)"

definition lg_HeaderInc :: "'a LegacyQueue \<Rightarrow> 'a LegacyQueue" where
  "lg_HeaderInc q =
     (let q1 = (if lg_header q = lg_GetSize q - 1 then q\<lparr>lg_header := 0\<rparr> else q\<lparr>lg_header := lg_header q + 1\<rparr>)
      in q1\<lparr>lg_usage := lg_usage q1 - 1\<rparr>)"

definition lg_TailInc :: "'a LegacyQueue \<Rightarrow> 'a LegacyQueue" where
  "lg_TailInc q =
     (let q1 = (if lg_tail q = lg_GetSize q - 1 then q\<lparr>lg_tail := 0\<rparr> else q\<lparr>lg_tail := lg_tail q + 1\<rparr>)
      in q1\<lparr>lg_usage := lg_usage q1 + 1\<rparr>)"

definition lg_GetNextPtr :: "'a LegacyQueue \<Rightarrow> u64 \<Rightarrow> u64" where
  "lg_GetNextPtr q p = (if p = lg_GetSize q - 1 then 0 else p + 1)"

definition lg_GetLastPtr :: "'a LegacyQueue \<Rightarrow> u64 \<Rightarrow> u64" where
  "lg_GetLastPtr q p = (if p = 0 then lg_GetSize q - 1 else p - 1)"

definition lg_index :: "'a LegacyQueue \<Rightarrow> u64 \<Rightarrow> 'a result" where
  "lg_index q pos = vec_get (lg_data_queue q) (unat pos)"

definition lg_GetFront :: "'a LegacyQueue \<Rightarrow> 'a result" where
  "lg_GetFront q = vec_get (lg_data_queue q) (unat (lg_header q))"

definition lg_Push :: "bool \<Rightarrow> 'a LegacyQueue \<Rightarrow> 'a \<Rightarrow> 'a LegacyQueue result" where
  "lg_Push tr q x =
     bindE (DASSERT tr (\<not> lg_IsFull q) ''Push When Queue Full'')
     (\<lambda>_. bindE (vec_set (lg_data_queue q) (unat (lg_tail q)) x)
     (\<lambda>d. Inr (lg_TailInc (q\<lparr>lg_data_queue := d\<rparr>))))"

definition lg_Pop :: "bool \<Rightarrow> 'a LegacyQueue \<Rightarrow> ('a \<times> 'a LegacyQueue) result" where
  "lg_Pop tr q =
     bindE (DASSERT tr (\<not> lg_IsEmpty q) ''Pop When Queue Empty'')
     (\<lambda>_. bindE (lg_GetFront q) (\<lambda>x. Inr (x, lg_HeaderInc q)))"

definition lg_RollBack :: "bool \<Rightarrow> 'a LegacyQueue \<Rightarrow> 'a LegacyQueue result" where
  "lg_RollBack tr q =
     bindE (DASSERT tr (\<not> lg_IsEmpty q) ''RollBack When Queue Empty'')
     (\<lambda>_. let q1 = (if lg_tail q = 0 then q\<lparr>lg_tail := lg_GetSize q - 1\<rparr> else q\<lparr>lg_tail := lg_tail q - 1\<rparr>)
          in Inr (q1\<lparr>lg_usage := lg_usage q1 - 1\<rparr>))"

definition lg_Allocate :: "bool \<Rightarrow> 'a LegacyQueue \<Rightarrow> (u64 \<times> 'a LegacyQueue) result" where
  "lg_Allocate tr q =
     bindE (DASSERT tr (\<not> lg_IsFull q) ''Allocate When Queue Full'')
     (\<lambda>_. let ptr = lg_tail q in Inr (ptr, lg_TailInc q))"

definition lg_IsOlder :: "'a LegacyQueue \<Rightarrow> u64 \<Rightarrow> u64 \<Rightarrow> bool" where
  "lg_IsOlder q tag1 tag2 =
     (let tag1GeHeader = (tag1 \<ge> lg_header q); tag2GeHeader = (tag2 \<ge> lg_header q)
      in if tag1GeHeader \<noteq> tag2GeHeader then tag1 > tag2 else tag1 < tag2)"

section \<open>The queue as a list\<close>

definition lg_cap :: "'a LegacyQueue \<Rightarrow> nat" where
  "lg_cap q = length (lg_data_queue q)"

definition lg_list :: "'a LegacyQueue \<Rightarrow> 'a list" where
  "lg_list q = ring_list (lg_data_queue q) (unat (lg_header q)) (unat (lg_usage q))"

definition lg_inv :: "'a LegacyQueue \<Rightarrow> bool" where
  "lg_inv q \<longleftrightarrow> 0 < lg_cap q \<and> lg_cap q < 2 ^ 64 \<and> unat (lg_header q) < lg_cap q \<and> unat (lg_usage q) \<le> lg_cap q
     \<and> unat (lg_tail q) = (unat (lg_header q) + unat (lg_usage q)) mod lg_cap q"

text \<open>The slot of the \<open>i\<close>-th element.\<close>

definition lg_slot :: "'a LegacyQueue \<Rightarrow> nat \<Rightarrow> nat" where
  "lg_slot q i = (unat (lg_header q) + i) mod lg_cap q"

lemma lg_size: "lg_inv q \<Longrightarrow> unat (lg_GetSize q) = lg_cap q"
  by (simp add: lg_GetSize_def lg_inv_def lg_cap_def unat_of_nat)

lemma lg_list_length [simp]: "length (lg_list q) = unat (lg_usage q)"
  by (simp add: lg_list_def)

lemma lg_full_iff: "lg_inv q \<Longrightarrow> lg_IsFull q \<longleftrightarrow> length (lg_list q) = lg_cap q"
  by (metis lg_IsFull_def lg_list_length lg_size unat_inj_iff)

lemma lg_empty_iff: "lg_IsEmpty q \<longleftrightarrow> lg_list q = []"
  by (simp add: lg_IsEmpty_def lg_list_def ring_list_def unat_eq_0)

lemma lg_next:
  assumes "lg_inv q" "unat p < lg_cap q"
  shows "unat (lg_GetNextPtr q p) = (unat p + 1) mod lg_cap q"
proof -
  have s: "unat (lg_GetSize q) = lg_cap q" "lg_GetSize q \<noteq> 0"
    using assms(1) lg_size [OF assms(1)] by (auto simp: lg_inv_def)
  have e: "p = lg_GetSize q - 1 \<longleftrightarrow> unat p = lg_cap q - 1"
    using s by (simp add: unat_minus_one flip: unat_inj_iff)
  have "p < lg_GetSize q" using assms(2) s(1) by (simp add: word_less_nat_alt)
  then have "unat (p + 1) = unat p + 1" by (rule unat_plus_one_less)
  with e assms(2) show ?thesis by (auto simp: lg_GetNextPtr_def)
qed

lemma lg_last:
  assumes "lg_inv q" "unat p < lg_cap q"
  shows "unat (lg_GetLastPtr q p) = (unat p + lg_cap q - 1) mod lg_cap q"
proof -
  have s: "unat (lg_GetSize q - 1) = lg_cap q - 1"
    using assms(1) lg_size [OF assms(1)] by (subst unat_minus_one_pos) (auto simp: lg_inv_def)
  have "unat (lg_GetLastPtr q p) = (if unat p = 0 then lg_cap q - 1 else unat p - 1)"
    using s by (simp add: lg_GetLastPtr_def unat_eq_0 unat_minus_one)
  also have "\<dots> = (unat p + lg_cap q - 1) mod lg_cap q" by (rule ring_pred [OF assms(2)])
  finally show ?thesis .
qed

lemma lg_steps:
  "lg_HeaderInc q = q\<lparr>lg_header := lg_GetNextPtr q (lg_header q), lg_usage := lg_usage q - 1\<rparr>"
  "lg_TailInc q = q\<lparr>lg_tail := lg_GetNextPtr q (lg_tail q), lg_usage := lg_usage q + 1\<rparr>"
  by (simp_all add: lg_HeaderInc_def lg_TailInc_def lg_GetNextPtr_def lg_GetSize_def Let_def)

lemma lg_tail_less: "lg_inv q \<Longrightarrow> unat (lg_tail q) < lg_cap q"
  by (auto simp: lg_inv_def)

text \<open>The pointers and the count after an element is added at the tail, removed at the front or taken back.\<close>

lemma lg_TailInc_ok:
  assumes "lg_inv q" "length (lg_list q) < lg_cap q"
  shows "lg_inv (lg_TailInc q)" "lg_cap (lg_TailInc q) = lg_cap q" "lg_header (lg_TailInc q) = lg_header q"
    "unat (lg_usage (lg_TailInc q)) = Suc (unat (lg_usage q))"
proof -
  have "lg_usage q < lg_GetSize q" using assms lg_size [OF assms(1)] by (simp add: word_less_nat_alt)
  then have u: "unat (lg_usage q + 1) = Suc (unat (lg_usage q))" by (simp add: unat_plus_one_less)
  then show "unat (lg_usage (lg_TailInc q)) = Suc (unat (lg_usage q))" by (simp add: lg_steps)
  show "lg_cap (lg_TailInc q) = lg_cap q" "lg_header (lg_TailInc q) = lg_header q" by (simp_all add: lg_steps lg_cap_def)
  have "unat (lg_GetNextPtr q (lg_tail q)) = (unat (lg_header q) + Suc (unat (lg_usage q))) mod lg_cap q"
    using lg_next [OF assms(1) lg_tail_less [OF assms(1)]] assms(1) by (simp add: lg_inv_def mod_Suc_eq)
  with u assms show "lg_inv (lg_TailInc q)" by (simp add: lg_inv_def lg_steps lg_cap_def)
qed

lemma lg_HeaderInc_ok:
  assumes "lg_inv q" "lg_list q \<noteq> []"
  shows "lg_inv (lg_HeaderInc q)" "lg_cap (lg_HeaderInc q) = lg_cap q" "lg_list (lg_HeaderInc q) = tl (lg_list q)"
proof -
  have pos: "0 < unat (lg_usage q)" using assms(2) by (metis length_greater_0_conv lg_list_length)
  then have "lg_usage q \<noteq> 0" by auto
  then have u: "unat (lg_usage q - 1) = unat (lg_usage q) - 1" by (rule unat_minus_one_pos)
  have h: "unat (lg_GetNextPtr q (lg_header q)) = (unat (lg_header q) + 1) mod lg_cap q"
    by (rule lg_next) (use assms(1) in \<open>simp_all add: lg_inv_def\<close>)
  show c: "lg_cap (lg_HeaderInc q) = lg_cap q" by (simp add: lg_steps lg_cap_def)
  show "lg_list (lg_HeaderInc q) = tl (lg_list q)"
    using ring_list_pop [OF pos, of "unat (lg_header q)" "lg_data_queue q"] assms(1) h u
    by (simp add: lg_list_def lg_steps lg_inv_def lg_cap_def)
  have "((unat (lg_header q) + 1) mod lg_cap q + (unat (lg_usage q) - 1)) mod lg_cap q = (unat (lg_header q) + unat (lg_usage q)) mod lg_cap q"
    by (subst mod_add_left_eq) (use pos in simp)
  with assms(1) h u show "lg_inv (lg_HeaderInc q)" by (auto simp: lg_inv_def lg_steps lg_cap_def)
qed

lemma lg_Push_ok:
  assumes "lg_inv q" "length (lg_list q) < lg_cap q"
  shows "\<exists>q'. lg_Push tr q x = Inr q' \<and> lg_inv q' \<and> lg_list q' = lg_list q @ [x] \<and> lg_cap q' = lg_cap q"
proof -
  let ?d = "(lg_data_queue q)[unat (lg_tail q) := x]" and ?q = "q\<lparr>lg_data_queue := (lg_data_queue q)[unat (lg_tail q) := x]\<rparr>"
  have q: "lg_inv ?q" "lg_cap ?q = lg_cap q" "length (lg_list ?q) < lg_cap ?q"
    using assms by (simp_all add: lg_inv_def lg_cap_def)
  note t = lg_TailInc_ok [OF q(1,3)]
  have "lg_Push tr q x = Inr (lg_TailInc ?q)"
    using assms lg_full_iff [OF assms(1)] lg_tail_less [OF assms(1)] by (simp add: lg_Push_def DASSERT_def lg_cap_def)
  moreover have "lg_list (lg_TailInc ?q) = lg_list q @ [x]"
  proof -
    have "lg_data_queue (lg_TailInc ?q) = (lg_data_queue q)[(unat (lg_header q) + unat (lg_usage q)) mod lg_cap q := x]"
      using assms(1) by (simp add: lg_steps lg_inv_def)
    then show ?thesis
      using t(3,4) assms(2) ring_list_push [of "unat (lg_usage q)" "lg_data_queue q" "unat (lg_header q)" x]
      by (simp add: lg_list_def lg_cap_def)
  qed
  ultimately show ?thesis using t q(2) by auto
qed

lemma lg_Pop_ok:
  assumes "lg_inv q" "lg_list q \<noteq> []"
  shows "lg_Pop tr q = Inr (hd (lg_list q), lg_HeaderInc q)"
proof -
  have "0 < unat (lg_usage q)" using assms(2) by (metis length_greater_0_conv lg_list_length)
  with assms show ?thesis
    using lg_empty_iff [of q] ring_list_hd [of "unat (lg_usage q)" "unat (lg_header q)" "lg_data_queue q"]
    by (simp add: lg_Pop_def DASSERT_def lg_GetFront_def lg_inv_def lg_cap_def lg_list_def)
qed

lemma lg_RollBack_ok:
  assumes "lg_inv q" "lg_list q \<noteq> []"
  shows "\<exists>q'. lg_RollBack tr q = Inr q' \<and> lg_inv q' \<and> lg_list q' = butlast (lg_list q) \<and> lg_cap q' = lg_cap q"
proof -
  let ?q = "q\<lparr>lg_tail := lg_GetLastPtr q (lg_tail q), lg_usage := lg_usage q - 1\<rparr>"
  have pos: "0 < unat (lg_usage q)" using assms(2) by (metis length_greater_0_conv lg_list_length)
  then have "lg_usage q \<noteq> 0" by auto
  then have u: "unat (lg_usage q - 1) = unat (lg_usage q) - 1" by (rule unat_minus_one_pos)
  have n: "0 < lg_cap q" using assms(1) by (simp add: lg_inv_def)
  have "unat (lg_GetLastPtr q (lg_tail q)) = (unat (lg_tail q) + (lg_cap q - 1)) mod lg_cap q"
    using lg_last [OF assms(1) lg_tail_less [OF assms(1)]] n by simp
  also have "\<dots> = (unat (lg_header q) + unat (lg_usage q) + (lg_cap q - 1)) mod lg_cap q"
    using assms(1) by (simp only: lg_inv_def mod_add_left_eq)
  also have "\<dots> = (unat (lg_header q) + (unat (lg_usage q) - 1) + lg_cap q) mod lg_cap q" using pos n by (intro arg_cong2 [where f = "(mod)"]) auto
  also have "\<dots> = (unat (lg_header q) + (unat (lg_usage q) - 1)) mod lg_cap q" by simp
  finally have "lg_inv ?q" using assms(1) u by (auto simp: lg_inv_def lg_cap_def)
  moreover have "lg_RollBack tr q = Inr ?q"
    using assms(2) lg_empty_iff [of q] by (simp add: lg_RollBack_def DASSERT_def lg_GetLastPtr_def Let_def)
  moreover have "lg_list ?q = butlast (lg_list q)" using u ring_list_pop_back [OF pos] by (simp add: lg_list_def)
  ultimately show ?thesis by (simp add: lg_cap_def)
qed

lemma lg_blocked:
  "lg_inv q \<Longrightarrow> length (lg_list q) = lg_cap q \<Longrightarrow> lg_Push True q x = Inl (Thrown ''Assert Failed'') \<and> lg_Allocate True q = Inl (Thrown ''Assert Failed'')"
  "lg_list q = [] \<Longrightarrow> lg_Pop True q = Inl (Thrown ''Assert Failed'') \<and> lg_RollBack True q = Inl (Thrown ''Assert Failed'')"
  using lg_full_iff [of q] lg_empty_iff [of q]
  by (simp_all add: lg_Push_def lg_Allocate_def lg_Pop_def lg_RollBack_def DASSERT_def)

definition lg_pop_only :: "bool \<Rightarrow> 'a LegacyQueue \<Rightarrow> 'a LegacyQueue result" where
  "lg_pop_only tr q = bindE (lg_Pop tr q) (\<lambda>(x, q'). Inr q')"

interpretation lg: bounded_queue "lg_Push True" "lg_pop_only True" lg_GetFront lg_cap lg_list lg_inv
proof
  fix q :: "'a LegacyQueue" and x
  assume inv: "lg_inv q"
  show "\<exists>q'. lg_Push True q x = Inr q' \<and> lg_inv q' \<and> lg_list q' = lg_list q @ [x] \<and> lg_cap q' = lg_cap q"
    if "length (lg_list q) < lg_cap q" by (rule lg_Push_ok [OF inv that])
  show "\<exists>e. lg_Push True q x = Inl e" if "length (lg_list q) = lg_cap q" using lg_blocked(1) [OF inv that] by blast
  show "\<exists>q'. lg_pop_only True q = Inr q' \<and> lg_inv q' \<and> lg_list q' = tl (lg_list q) \<and> lg_cap q' = lg_cap q"
    if "lg_list q \<noteq> []" using lg_Pop_ok [OF inv that] lg_HeaderInc_ok [OF inv that] by (simp add: lg_pop_only_def)
  show "\<exists>e. lg_pop_only True q = Inl e" if "lg_list q = []" using lg_blocked(2) [OF that] by (simp add: lg_pop_only_def)
  show "lg_GetFront q = Inr (hd (lg_list q))" if "lg_list q \<noteq> []"
    using lg_Pop_ok [OF inv that, of False] by (auto simp: lg_Pop_def DASSERT_def bindE_eq_Inr)
  show "length (lg_list q) \<le> lg_cap q" using inv by (simp add: lg_inv_def)
qed

lemma mk_LegacyQueue_ok: "d \<noteq> 0 \<Longrightarrow> lg_inv (mk_LegacyQueue dflt d) \<and> lg_list (mk_LegacyQueue dflt d) = [] \<and> lg_cap (mk_LegacyQueue dflt d) = unat d"
  using unsigned_less [of d] by (simp add: mk_LegacyQueue_def lg_Reset_def lg_inv_def lg_list_def lg_cap_def unat_gt_0)

section \<open>Properties\<close>

text \<open>
  The ring buffer of the earlier model is a bounded first-in-first-out queue whose newest element can
  be taken back. On every state of the invariant: \<open>Push\<close> and \<open>Allocate\<close> succeed when there is room, \<open>Pop\<close> and \<open>RollBack\<close> when there is
  an element, with the effect on the list each should have, and \<open>Allocate\<close> returns the slot of the element it adds; in the
  other case, with tracing compiled in, they throw.
\<close>

theorem LegacyQueue_refines_list:
  assumes "lg_inv q"
  shows "(if length (lg_list q) < lg_cap q
      then (\<exists>q'. lg_Push True q x = Inr q' \<and> lg_inv q' \<and> lg_list q' = lg_list q @ [x])
        \<and> (\<exists>q' y. lg_Allocate True q = Inr (lg_tail q, q') \<and> lg_inv q' \<and> lg_list q' = lg_list q @ [y]
            \<and> unat (lg_tail q) = lg_slot q (length (lg_list q)))
      else lg_Push True q x = Inl (Thrown ''Assert Failed'') \<and> lg_Allocate True q = Inl (Thrown ''Assert Failed''))
    \<and> (if lg_list q \<noteq> []
      then (\<exists>q'. lg_Pop True q = Inr (hd (lg_list q), q') \<and> lg_inv q' \<and> lg_list q' = tl (lg_list q))
        \<and> (\<exists>q'. lg_RollBack True q = Inr q' \<and> lg_inv q' \<and> lg_list q' = butlast (lg_list q))
      else lg_Pop True q = Inl (Thrown ''Assert Failed'') \<and> lg_RollBack True q = Inl (Thrown ''Assert Failed''))"
proof (intro conjI)
  have alloc: "\<exists>q' y. lg_Allocate True q = Inr (lg_tail q, q') \<and> lg_inv q' \<and> lg_list q' = lg_list q @ [y]"
    if room: "length (lg_list q) < lg_cap q"
  proof -
    let ?d = "lg_data_queue q" and ?t = "unat (lg_tail q)"
    have same: "?d[?t := ?d ! ?t] = ?d" by simp
    from lg_Push_ok [OF assms room, where tr = True and x = "?d ! ?t"] obtain q' where
      q': "lg_Push True q (?d ! ?t) = Inr q'" "lg_inv q'" "lg_list q' = lg_list q @ [?d ! ?t]" by blast
    have "lg_Allocate True q = Inr (lg_tail q, q')"
      using q'(1) by (auto simp: lg_Push_def lg_Allocate_def bindE_eq_Inr vec_set_eq_Inr same DASSERT_def)
    with q' show ?thesis by blast
  qed
  show "if length (lg_list q) < lg_cap q
      then (\<exists>q'. lg_Push True q x = Inr q' \<and> lg_inv q' \<and> lg_list q' = lg_list q @ [x])
        \<and> (\<exists>q' y. lg_Allocate True q = Inr (lg_tail q, q') \<and> lg_inv q' \<and> lg_list q' = lg_list q @ [y]
            \<and> unat (lg_tail q) = lg_slot q (length (lg_list q)))
      else lg_Push True q x = Inl (Thrown ''Assert Failed'') \<and> lg_Allocate True q = Inl (Thrown ''Assert Failed'')"
    using lg_Push_ok [OF assms, where tr = True and x = x] alloc lg_blocked(1) [OF assms] lg.bounded [OF assms] assms
    by (auto simp: lg_slot_def lg_inv_def)
  show "if lg_list q \<noteq> []
      then (\<exists>q'. lg_Pop True q = Inr (hd (lg_list q), q') \<and> lg_inv q' \<and> lg_list q' = tl (lg_list q))
        \<and> (\<exists>q'. lg_RollBack True q = Inr q' \<and> lg_inv q' \<and> lg_list q' = butlast (lg_list q))
      else lg_Pop True q = Inl (Thrown ''Assert Failed'') \<and> lg_RollBack True q = Inl (Thrown ''Assert Failed'')"
    using lg_Pop_ok [OF assms] lg_HeaderInc_ok [OF assms] lg_RollBack_ok [OF assms, where tr = True] lg_blocked(2) [of q] by auto
qed

theorem LegacyQueue_refines_list_witness:
  "\<exists>q'. lg_Push True (mk_LegacyQueue (0 :: nat) 2) 7 = Inr q' \<and> lg_list q' = [7]"
  using LegacyQueue_refines_list [of "mk_LegacyQueue (0 :: nat) 2" 7] mk_LegacyQueue_ok [of 2 "0 :: nat"] by auto

text \<open>
  The age comparison of two slots is the order of insertion: \<open>IsOlder\<close> on the slots of the \<open>i\<close>-th and \<open>j\<close>-th element holds exactly when
  \<open>i\<close> is before \<open>j\<close>, wherever the ring is wrapped.
\<close>

theorem LegacyQueue_IsOlder_age:
  assumes "lg_inv q" "i < lg_cap q" "j < lg_cap q"
  shows "lg_IsOlder q (word_of_nat (lg_slot q i)) (word_of_nat (lg_slot q j)) \<longleftrightarrow> i < j"
proof -
  let ?h = "unat (lg_header q)" and ?n = "lg_cap q"
  have h: "?h < ?n" "?n < 2 ^ 64" using assms(1) by (simp_all add: lg_inv_def)
  have s: "lg_slot q k = (if ?h + k < ?n then ?h + k else ?h + k - ?n)" "unat (word_of_nat (lg_slot q k) :: u64) = lg_slot q k"
    if "k < ?n" for k
  proof -
    show e: "lg_slot q k = (if ?h + k < ?n then ?h + k else ?h + k - ?n)" using that h(1) by (simp add: lg_slot_def mod_if)
    have "lg_slot q k < 2 ^ 64" using e that h by auto
    then show "unat (word_of_nat (lg_slot q k) :: u64) = lg_slot q k" by (simp add: unat_of_nat)
  qed
  show ?thesis
    unfolding lg_IsOlder_def word_less_nat_alt word_le_nat_alt Let_def s(2) [OF assms(2)] s(2) [OF assms(3)]
    using assms(2,3) h(1) by (auto simp: s(1))
qed

theorem LegacyQueue_IsOlder_age_witness:
  "lg_IsOlder \<lparr>lg_data_queue = [1, 2, 3 :: nat], lg_header = 2, lg_tail = 1, lg_usage = 2\<rparr> 2 0"
  using LegacyQueue_IsOlder_age [of "\<lparr>lg_data_queue = [1, 2, 3 :: nat], lg_header = 2, lg_tail = 1, lg_usage = 2\<rparr>" 0 1]
  by (simp add: lg_inv_def lg_cap_def lg_slot_def)

text \<open>
  Without tracing nothing guards the queue: pushing onto a full one succeeds, overwrites the oldest
  element, which is then the one at the front, and leaves a queue that reports room for \<open>2 ^ 64 - 1\<close>
  more.
\<close>

theorem LegacyQueue_untraced_overflow:
  assumes "lg_inv q" "lg_IsFull q"
  shows "\<exists>q'. lg_Push False q x = Inr q' \<and> lg_GetFront q' = Inr x \<and> lg_GetHeader q' = lg_GetHeader q
    \<and> lg_GetAvailEntryCount q' = - 1 \<and> \<not> lg_IsFull q'"
proof -
  have t: "unat (lg_tail q) = unat (lg_header q)" "unat (lg_header q) < length (lg_data_queue q)"
    using assms lg_full_iff [OF assms(1)] by (simp_all add: lg_inv_def lg_cap_def)
  have "lg_usage q = lg_GetSize q" using assms(2) by (simp add: lg_IsFull_def)
  with t show ?thesis
    by (simp add: lg_Push_def DASSERT_def lg_steps lg_GetFront_def lg_GetAvailEntryCount_def lg_IsFull_def lg_GetSize_def lg_GetHeader_def)
qed

theorem LegacyQueue_untraced_overflow_witness:
  "\<exists>q'. lg_Push False \<lparr>lg_data_queue = [1, 2, 3 :: nat], lg_header = 1, lg_tail = 1, lg_usage = 3\<rparr> 9 = Inr q' \<and> lg_GetFront q' = Inr 9"
  using LegacyQueue_untraced_overflow [of "\<lparr>lg_data_queue = [1, 2, 3 :: nat], lg_header = 1, lg_tail = 1, lg_usage = 3\<rparr>" 9]
  by (auto simp: lg_inv_def lg_cap_def lg_IsFull_def lg_GetSize_def)

section \<open>The earlier copy of the queue\<close>

record 'a LoopQueueCopy =
  m_dataVec :: "'a list"
  m_header :: u64
  m_tail :: u64
  m_usage :: u64

definition lc_Reset :: "'a \<Rightarrow> 'a LoopQueueCopy \<Rightarrow> 'a LoopQueueCopy" where
  "lc_Reset dflt q = q\<lparr>m_tail := 0, m_header := 0, m_usage := 0, m_dataVec := replicate (length (m_dataVec q)) dflt\<rparr>"

definition mk_LoopQueueCopy :: "'a \<Rightarrow> u64 \<Rightarrow> 'a LoopQueueCopy" where
  "mk_LoopQueueCopy dflt d = lc_Reset dflt \<lparr>m_dataVec = replicate (unat d) dflt, m_header = 0, m_tail = 0, m_usage = 0\<rparr>"

definition lc_getHeader :: "'a LoopQueueCopy \<Rightarrow> u64" where
  "lc_getHeader q = m_header q"

definition lc_getTail :: "'a LoopQueueCopy \<Rightarrow> u64" where
  "lc_getTail q = m_tail q"

definition lc_getSize :: "'a LoopQueueCopy \<Rightarrow> u64" where
  "lc_getSize q = word_of_nat (length (m_dataVec q))"

definition lc_getUsage :: "'a LoopQueueCopy \<Rightarrow> u64" where
  "lc_getUsage q = m_usage q"

definition lc_getAvailEntryCount :: "'a LoopQueueCopy \<Rightarrow> u64" where
  "lc_getAvailEntryCount q = lc_getSize q - m_usage q"

definition lc_full :: "'a LoopQueueCopy \<Rightarrow> bool" where
  "lc_full q = (m_usage q = lc_getSize q)"

definition lc_empty :: "'a LoopQueueCopy \<Rightarrow> bool" where
  "lc_empty q = (m_usage q = 0)"

definition lc_HeaderInc :: "'a LoopQueueCopy \<Rightarrow> 'a LoopQueueCopy" where
  "lc_HeaderInc q =
     (let q1 = (if m_header q = lc_getSize q - 1 then q\<lparr>m_header := 0\<rparr> else q\<lparr>m_header := m_header q + 1\<rparr>)
      in q1\<lparr>m_usage := m_usage q1 - 1\<rparr>)"

definition lc_TailInc :: "'a LoopQueueCopy \<Rightarrow> 'a LoopQueueCopy" where
  "lc_TailInc q =
     (let q1 = (if m_tail q = lc_getSize q - 1 then q\<lparr>m_tail := 0\<rparr> else q\<lparr>m_tail := m_tail q + 1\<rparr>)
      in q1\<lparr>m_usage := m_usage q1 + 1\<rparr>)"

definition lc_getNextPtr :: "'a LoopQueueCopy \<Rightarrow> u64 \<Rightarrow> u64" where
  "lc_getNextPtr q p = (if p = lc_getSize q - 1 then 0 else p + 1)"

definition lc_getLastPtr :: "'a LoopQueueCopy \<Rightarrow> u64 \<Rightarrow> u64" where
  "lc_getLastPtr q p = (if p = 0 then lc_getSize q - 1 else p - 1)"

definition lc_getLastest :: "'a LoopQueueCopy \<Rightarrow> u64" where
  "lc_getLastest q = lc_getLastPtr q (m_tail q)"

definition lc_index :: "'a LoopQueueCopy \<Rightarrow> u64 \<Rightarrow> 'a result" where
  "lc_index q pos = vec_get (m_dataVec q) (unat pos)"

definition lc_front :: "'a LoopQueueCopy \<Rightarrow> 'a result" where
  "lc_front q = vec_get (m_dataVec q) (unat (m_header q))"

definition lc_Push :: "bool \<Rightarrow> 'a LoopQueueCopy \<Rightarrow> 'a \<Rightarrow> 'a LoopQueueCopy result" where
  "lc_Push tr q x =
     bindE (DASSERT tr (\<not> lc_full q) ''Push When Queue Full'')
     (\<lambda>_. bindE (vec_set (m_dataVec q) (unat (m_tail q)) x) (\<lambda>d. Inr (lc_TailInc (q\<lparr>m_dataVec := d\<rparr>))))"

definition lc_Pop :: "bool \<Rightarrow> 'a LoopQueueCopy \<Rightarrow> ('a \<times> 'a LoopQueueCopy) result" where
  "lc_Pop tr q =
     bindE (DASSERT tr (\<not> lc_empty q) ''Pop When Queue Empty'')
     (\<lambda>_. bindE (lc_front q) (\<lambda>x. Inr (x, lc_HeaderInc q)))"

definition lc_RollBack :: "bool \<Rightarrow> 'a LoopQueueCopy \<Rightarrow> 'a LoopQueueCopy result" where
  "lc_RollBack tr q =
     bindE (DASSERT tr (\<not> lc_empty q) ''RollBack When Queue Empty'')
     (\<lambda>_. let q1 = (if m_tail q = 0 then q\<lparr>m_tail := lc_getSize q - 1\<rparr> else q\<lparr>m_tail := m_tail q - 1\<rparr>)
          in Inr (q1\<lparr>m_usage := m_usage q1 - 1\<rparr>))"

definition lc_Allocate :: "bool \<Rightarrow> 'a LoopQueueCopy \<Rightarrow> (u64 \<times> 'a LoopQueueCopy) result" where
  "lc_Allocate tr q =
     bindE (DASSERT tr (\<not> lc_full q) ''Allocate When Queue Full'')
     (\<lambda>_. let ptr = m_tail q in Inr (ptr, lc_TailInc q))"

definition lc_isOlder :: "'a LoopQueueCopy \<Rightarrow> u64 \<Rightarrow> u64 \<Rightarrow> bool" where
  "lc_isOlder q tag1 tag2 =
     (let tag1GeHeader = (tag1 \<ge> m_header q); tag2GeHeader = (tag2 \<ge> m_header q)
      in if tag1GeHeader \<noteq> tag2GeHeader then tag1 > tag2 else tag1 < tag2)"

definition lc_abs :: "'a LoopQueueCopy \<Rightarrow> 'a LegacyQueue" where
  "lc_abs q = \<lparr>lg_data_queue = m_dataVec q, lg_header = m_header q, lg_tail = m_tail q, lg_usage = m_usage q\<rparr>"

lemma lc_tests: "lc_full q = lg_IsFull (lc_abs q)" "lc_empty q = lg_IsEmpty (lc_abs q)" "lc_getSize q = lg_GetSize (lc_abs q)"
  by (simp_all add: lc_full_def lg_IsFull_def lc_empty_def lg_IsEmpty_def lc_getSize_def lg_GetSize_def lc_abs_def)

lemma lc_steps:
  "lc_abs (lc_HeaderInc q) = lg_HeaderInc (lc_abs q)" "lc_abs (lc_TailInc q) = lg_TailInc (lc_abs q)"
  by (simp_all add: lc_abs_def lc_HeaderInc_def lg_HeaderInc_def lc_TailInc_def lg_TailInc_def lc_getSize_def lg_GetSize_def Let_def)

lemma lc_abs_data [simp]: "lc_abs (q\<lparr>m_dataVec := d\<rparr>) = (lc_abs q)\<lparr>lg_data_queue := d\<rparr>"
  by (simp add: lc_abs_def)

lemma lc_abs_sel [simp]: "lg_data_queue (lc_abs q) = m_dataVec q" "lg_header (lc_abs q) = m_header q"
    "lg_tail (lc_abs q) = m_tail q" "lg_usage (lc_abs q) = m_usage q"
  by (simp_all add: lc_abs_def)

text \<open>
  The two versions of the queue behave alike. Read as a queue of the later class, every operation of
  the earlier one returns the same value, fails in the same cases and leaves the same state.
\<close>

theorem LoopQueueCopy_equivalent:
  "map_sum id lc_abs (lc_Push tr q x) = lg_Push tr (lc_abs q) x
    \<and> map_sum id (map_prod id lc_abs) (lc_Pop tr q) = lg_Pop tr (lc_abs q)
    \<and> map_sum id lc_abs (lc_RollBack tr q) = lg_RollBack tr (lc_abs q)
    \<and> map_sum id (map_prod id lc_abs) (lc_Allocate tr q) = lg_Allocate tr (lc_abs q)
    \<and> lc_abs (lc_Reset x q) = lg_Reset x (lc_abs q) \<and> lc_abs (mk_LoopQueueCopy x d) = mk_LegacyQueue x d
    \<and> lc_isOlder q a b = lg_IsOlder (lc_abs q) a b \<and> lc_getAvailEntryCount q = lg_GetAvailEntryCount (lc_abs q)
    \<and> lc_getNextPtr q a = lg_GetNextPtr (lc_abs q) a \<and> lc_getLastPtr q a = lg_GetLastPtr (lc_abs q) a"
proof (intro conjI)
  show "map_sum id lc_abs (lc_Push tr q x) = lg_Push tr (lc_abs q) x"
    by (simp add: lc_Push_def lg_Push_def lc_tests lc_steps DASSERT_def vec_set_def)
  show "map_sum id (map_prod id lc_abs) (lc_Pop tr q) = lg_Pop tr (lc_abs q)"
    by (simp add: lc_Pop_def lg_Pop_def lc_tests lc_steps DASSERT_def lc_front_def lg_GetFront_def vec_get_def)
  show "map_sum id lc_abs (lc_RollBack tr q) = lg_RollBack tr (lc_abs q)"
    by (simp add: lc_RollBack_def lg_RollBack_def lc_tests DASSERT_def Let_def lc_abs_def)
  show "map_sum id (map_prod id lc_abs) (lc_Allocate tr q) = lg_Allocate tr (lc_abs q)"
    by (simp add: lc_Allocate_def lg_Allocate_def lc_tests lc_steps DASSERT_def)
  show "lc_abs (lc_Reset x q) = lg_Reset x (lc_abs q)" "lc_abs (mk_LoopQueueCopy x d) = mk_LegacyQueue x d"
    by (simp_all add: lc_Reset_def lg_Reset_def mk_LoopQueueCopy_def mk_LegacyQueue_def lc_abs_def)
  show "lc_isOlder q a b = lg_IsOlder (lc_abs q) a b" by (simp add: lc_isOlder_def lg_IsOlder_def)
  show "lc_getAvailEntryCount q = lg_GetAvailEntryCount (lc_abs q)" "lc_getNextPtr q a = lg_GetNextPtr (lc_abs q) a"
    "lc_getLastPtr q a = lg_GetLastPtr (lc_abs q) a"
    by (simp_all add: lc_getAvailEntryCount_def lg_GetAvailEntryCount_def lc_getNextPtr_def lg_GetNextPtr_def lc_getLastPtr_def
        lg_GetLastPtr_def lc_tests)
qed

end
