(* ===== verification/Legacy_Fetch.thy ===== *)
theory Legacy_Fetch
  imports Legacy_Queues
begin

text \<open>
  The instruction buffer of the earlier model and the adapter that reads instructions from it
  (\<open>legacy/src/component/InstBuffer\<close>, \<open>legacy/src/stage/fetch/InstBufferFetchAdapter\<close>), with the package of instructions
  (\<open>legacy/src/common/InstPkg\<close>, \<open>legacy/src/basicunit/TransferQueue.hh\<close>) and the instruction's data
  (\<open>legacy/src/common/DynInst.hh\<close>). Shared pointers are addresses: of instructions in a store, of stall flags in
  another. Memory is a function from addresses to bytes.
\<close>

section \<open>Instructions and packages\<close>

datatype LegacyFuncType = LF_ALU | LF_MUL | LF_DIV | LF_BRU | LF_CSR | LF_LDU | LF_STU | LF_FPU

datatype InsnState = State_Fetch1 | State_Fetch2 | State_Decode | State_Dispatch | State_Issue | State_ReadOperand
  | State_Execute | State_WriteBack | State_Commit | State_Done

datatype LegacyRegType = LR_NONE | LR_INT

record LegacyException =
  ex_valid :: bool
  ex_Cause :: u64
  ex_Tval :: u64

record LegacyPrediction =
  pd_Taken :: bool
  pd_Target :: u64

record InstData =
  id_State :: InsnState
  id_pc :: u64
  id_instruction :: u32
  id_is_rvc :: bool
  id_is_branch :: bool
  id_is_predict_miss :: bool
  id_predicted_pc :: u64
  id_destination_pc :: u64
  id_RobTag :: u64
  id_LSQTag :: u64
  id_Fu :: LegacyFuncType
  id_SubOp :: u8
  id_IsRvcInsn :: bool
  id_CompressedInsn :: u32
  id_UncompressedInsn :: u32
  id_ControlFlowInsn :: bool
  id_IsaRs1 :: u8
  id_IsaRs2 :: u8
  id_IsaRd :: u8
  id_Rs1Type :: LegacyRegType
  id_Rs2Type :: LegacyRegType
  id_RdType :: LegacyRegType
  id_PhyRs1 :: u16
  id_PhyRs2 :: u16
  id_PhyRd :: u16
  id_LPhyRd :: u16
  id_Operand1Ready :: bool
  id_Operand2Ready :: bool
  id_Operand1 :: u64
  id_Operand2 :: u64
  id_RdResult :: u64
  id_Agu_addr :: u64
  id_Agu_addr_ready :: bool
  id_Agu_data :: u64
  id_Agu_data_ready :: bool
  id_BruMisPred :: bool
  id_BruTarget :: u64
  id_imm :: "32 word"
  id_Excp :: LegacyException
  id_Pred :: LegacyPrediction

record InstPkgEntry =
  pe_stall :: nat
  pe_data :: nat

definition tq_Reset :: "'a list \<Rightarrow> 'a list" where
  "tq_Reset queue = []"

definition tq_Transfer :: "'a list \<Rightarrow> 'a \<Rightarrow> 'a list" where
  "tq_Transfer queue data = queue @ [data]"

definition tq_Size :: "'a list \<Rightarrow> u64" where
  "tq_Size queue = word_of_nat (length queue)"

text \<open>Iterators are positions; erasing returns the position of the next element.\<close>

definition tq_Delete :: "'a list \<Rightarrow> nat \<Rightarrow> (nat \<times> 'a list) result" where
  "tq_Delete queue i = (if i < length queue then Inr (i, take i queue @ drop (Suc i) queue) else Inl (Undefined ''erase''))"

type_synonym InstPkg = "InstPkgEntry list"

definition mk_InstPkg :: InstPkg where
  "mk_InstPkg = tq_Reset []"

text \<open>A new entry gets a stall flag of its own, at the next address of the store of flags.\<close>

definition pk_Transfer :: "bool list \<Rightarrow> InstPkg \<Rightarrow> nat \<Rightarrow> bool list \<times> InstPkg" where
  "pk_Transfer flags pkg inst_ptr = (flags @ [False], tq_Transfer pkg \<lparr>pe_stall = length flags, pe_data = inst_ptr\<rparr>)"

definition pk_Delete :: "InstPkg \<Rightarrow> nat \<Rightarrow> (nat \<times> InstPkg) result" where
  "pk_Delete pkg i = tq_Delete pkg i"

section \<open>Instruction buffer\<close>

datatype ib_func = IB_PUSH | IB_POP

record InstBufferInterface =
  ev_stall :: nat
  ev_func_type :: ib_func
  ev_func_core_arg :: u64

record InstBuffer =
  ib_inst_buffer :: "u16 LegacyQueue"
  ib_cache_line_width :: u64
  ib_event_queue :: "InstBufferInterface list"

definition mk_InstBuffer :: "u64 \<Rightarrow> u64 \<Rightarrow> InstBuffer" where
  "mk_InstBuffer d width = \<lparr>ib_inst_buffer = mk_LegacyQueue 0 d, ib_cache_line_width = width, ib_event_queue = []\<rparr>"

definition ib_Reset :: "InstBuffer \<Rightarrow> InstBuffer" where
  "ib_Reset b = b\<lparr>ib_inst_buffer := lg_Reset 0 (ib_inst_buffer b), ib_event_queue := []\<rparr>"

text \<open>
  \<open>char\<close> is signed on the targets of the model, so both bytes are sign-extended to \<open>int\<close> before they are shifted and
  joined; the shift of a negative number is the compiler's, which discards the upper bits.
\<close>

definition ib_halfword :: "(u64 \<Rightarrow> u8) \<Rightarrow> u64 \<Rightarrow> u16" where
  "ib_halfword mem a = ucast (push_bit 8 (scast (mem (a + 1)) :: u32) OR (scast (mem a) :: u32))"

text \<open>The counter does not wrap for a width below the largest 64-bit number.\<close>

function ib_push_loop :: "bool \<Rightarrow> (u64 \<Rightarrow> u8) \<Rightarrow> nat \<Rightarrow> u64 \<Rightarrow> nat \<Rightarrow> u16 LegacyQueue \<Rightarrow> u16 LegacyQueue result" where
  "ib_push_loop tr mem width memory_ptr i q =
     (if i < width
      then (case lg_Push tr q (ib_halfword mem (memory_ptr + word_of_nat i)) of
              Inl e \<Rightarrow> Inl e
            | Inr q1 \<Rightarrow> ib_push_loop tr mem width memory_ptr (i + 2) q1)
      else Inr q)"
  by auto

termination
  by (relation "measure (\<lambda>(tr, mem, width, p, i, q). width - i)") auto

declare ib_push_loop.simps [simp del]

definition ib_Push :: "bool \<Rightarrow> (u64 \<Rightarrow> u8) \<Rightarrow> InstBuffer \<Rightarrow> u64 \<Rightarrow> InstBuffer result" where
  "ib_Push tr mem b memory_ptr =
     bindE (ib_push_loop tr mem (unat (ib_cache_line_width b)) memory_ptr 0 (ib_inst_buffer b))
     (\<lambda>q. Inr (b\<lparr>ib_inst_buffer := q\<rparr>))"

definition ib_Pop :: "bool \<Rightarrow> InstBuffer \<Rightarrow> InstBuffer result" where
  "ib_Pop tr b = bindE (lg_Pop tr (ib_inst_buffer b)) (\<lambda>(x, q). Inr (b\<lparr>ib_inst_buffer := q\<rparr>))"

definition ib_event :: "bool \<Rightarrow> (nat \<Rightarrow> bool) \<Rightarrow> (u64 \<Rightarrow> u8) \<Rightarrow> InstBuffer \<Rightarrow> InstBufferInterface \<Rightarrow> InstBuffer result" where
  "ib_event tr flags mem b i =
     (if flags (ev_stall i) then Inr b
      else case ev_func_type i of
        IB_POP \<Rightarrow> ib_Pop tr b
      | IB_PUSH \<Rightarrow> ib_Push tr mem b (ev_func_core_arg i))"

definition ib_Advance :: "bool \<Rightarrow> (nat \<Rightarrow> bool) \<Rightarrow> (u64 \<Rightarrow> u8) \<Rightarrow> InstBuffer \<Rightarrow> InstBuffer result" where
  "ib_Advance tr flags mem b = foldE (ib_event tr flags mem) b (ib_event_queue b)"

definition ib_Push_event :: "InstBuffer \<Rightarrow> nat \<Rightarrow> u64 \<Rightarrow> InstBuffer" where
  "ib_Push_event b stall memory = b\<lparr>ib_event_queue := ib_event_queue b @ [\<lparr>ev_stall = stall, ev_func_type = IB_PUSH, ev_func_core_arg = memory\<rparr>]\<rparr>"

definition ib_Pop_event :: "InstBuffer \<Rightarrow> nat \<Rightarrow> InstBuffer" where
  "ib_Pop_event b stall = b\<lparr>ib_event_queue := ib_event_queue b @ [\<lparr>ev_stall = stall, ev_func_type = IB_POP, ev_func_core_arg = 0\<rparr>]\<rparr>"

section \<open>Fetching from the buffer\<close>

text \<open>One instruction: its value and the position after it.\<close>

definition fetch_one :: "u16 LegacyQueue \<Rightarrow> u64 \<Rightarrow> (u32 \<times> u64) result" where
  "fetch_one q cnt =
     bindE (lg_index q cnt)
     (\<lambda>h. let inst = (ucast h :: u32); cnt1 = lg_GetNextPtr q cnt in
       if inst AND 3 = 0 then Inr (inst, cnt1)
       else bindE (lg_index q cnt1) (\<lambda>h1. Inr (push_bit 16 (ucast h1) OR inst, lg_GetNextPtr q cnt1)))"

definition fetch_entry :: "u16 LegacyQueue \<Rightarrow> (nat \<Rightarrow> InstData) \<times> u64 \<Rightarrow> InstPkgEntry \<Rightarrow> ((nat \<Rightarrow> InstData) \<times> u64) result" where
  "fetch_entry q = (\<lambda>(heap, cnt) i.
     bindE (fetch_one q cnt)
     (\<lambda>(v, cnt1). Inr (heap(pe_data i := (heap (pe_data i))\<lparr>id_instruction := v\<rparr>), cnt1)))"

definition fetch_Process :: "InstBuffer \<Rightarrow> (nat \<Rightarrow> InstData) \<Rightarrow> InstPkg \<Rightarrow> (nat \<Rightarrow> InstData) result" where
  "fetch_Process b heap pkg =
     bindE (foldE (fetch_entry (ib_inst_buffer b)) (heap, lg_GetHeader (ib_inst_buffer b)) pkg) (\<lambda>(heap1, _). Inr heap1)"

section \<open>What a line becomes\<close>

definition ib_line :: "(u64 \<Rightarrow> u8) \<Rightarrow> u64 \<Rightarrow> nat \<Rightarrow> nat \<Rightarrow> u16 list" where
  "ib_line mem p i width = map (\<lambda>k. ib_halfword mem (p + word_of_nat (i + 2 * k))) [0..<(width - i + 1) div 2]"

lemma ib_line_step: "i < width \<Longrightarrow> ib_line mem p i width = ib_halfword mem (p + word_of_nat i) # ib_line mem p (i + 2) width"
proof -
  assume i: "i < width"
  then obtain m where m: "width = i + Suc m" by (metis less_imp_Suc_add add_Suc_right)
  then have "(width - i + 1) div 2 = Suc ((width - (i + 2) + 1) div 2)" by (cases m) simp_all
  then show ?thesis unfolding ib_line_def
    by (simp add: upt_conv_Cons map_Suc_upt [symmetric] del: upt_Suc) (simp add: algebra_simps)
qed

lemma ib_push_loop_line:
  "ib_push_loop tr mem width p i q = foldE (lg_Push tr) q (ib_line mem p i width)"
proof (induction "width - i" arbitrary: i q rule: less_induct)
  case less
  show ?case
  proof (cases "i < width")
    case True
    then have "width - (i + 2) < width - i" by simp
    note IH = less [OF this]
    show ?thesis unfolding ib_push_loop.simps [of tr mem width p i] ib_line_step [OF True]
      using True IH by (auto split: sum.splits)
  next
    case False
    then show ?thesis by (simp add: ib_push_loop.simps [of tr mem width p i] ib_line_def)
  qed
qed

lemma ib_halfword_exact:
  "ib_halfword mem a = push_bit 8 (ucast (mem (a + 1))) OR (if bit (mem a) 7 then 0xFF00 else 0) OR ucast (mem a)"
proof (rule bit_word_eqI)
  fix n assume n: "n < LENGTH(16)"
  then have "n \<in> {0,1,2,3,4,5,6,7,8,9,10,11,12,13,14,15}" by (simp, arith)
  then show "bit (ib_halfword mem a) n = bit (push_bit 8 (ucast (mem (a + 1))) OR (if bit (mem a) 7 then 0xFF00 else 0) OR (ucast (mem a) :: u16)) n"
    by (auto simp: ib_halfword_def bit_simps dest: bit_imp_le_length)
qed

section \<open>Properties\<close>

lemma ib_Push_ok:
  assumes "lg_inv (ib_inst_buffer b)" "line = ib_line mem p 0 (unat (ib_cache_line_width b))"
    and "length (lg_list (ib_inst_buffer b)) + length line \<le> lg_cap (ib_inst_buffer b)"
  shows "\<exists>q. ib_Push True mem b p = Inr (b\<lparr>ib_inst_buffer := q\<rparr>) \<and> lg_inv q \<and> lg_list q = lg_list (ib_inst_buffer b) @ line
    \<and> lg_cap q = lg_cap (ib_inst_buffer b)"
  using lg.push_all_ok [OF assms(1,3)] assms(2) by (auto simp: ib_Push_def ib_push_loop_line)

text \<open>
  What a line of memory becomes in the instruction buffer. If the buffer has room for it, \<open>Push\<close> appends one entry
  for every two bytes, in the order of the addresses; otherwise, with tracing compiled in, it throws. An entry has the second byte
  above the first, except that a first byte of 128 or more sets all upper bits, because the bytes are
  read as signed characters.
\<close>

theorem InstBuffer_push_line:
  assumes "lg_inv (ib_inst_buffer b)" "n = (unat (ib_cache_line_width b) + 1) div 2"
  shows "if length (lg_list (ib_inst_buffer b)) + n \<le> lg_cap (ib_inst_buffer b)
    then (\<exists>b'. ib_Push True mem b p = Inr b' \<and> lg_inv (ib_inst_buffer b')
      \<and> lg_list (ib_inst_buffer b') = lg_list (ib_inst_buffer b)
          @ map (\<lambda>k. let a = p + word_of_nat (2 * k)
              in push_bit 8 (ucast (mem (a + 1))) OR (if bit (mem a) 7 then 0xFF00 else 0) OR ucast (mem a)) [0..<n])
    else (\<exists>e. ib_Push True mem b p = Inl e)"
proof -
  let ?l = "ib_line mem p 0 (unat (ib_cache_line_width b))"
  have l: "length ?l = n" "?l = map (\<lambda>k. let a = p + word_of_nat (2 * k)
      in push_bit 8 (ucast (mem (a + 1))) OR (if bit (mem a) 7 then 0xFF00 else 0) OR ucast (mem a)) [0..<n]"
    by (simp_all add: ib_line_def assms(2) ib_halfword_exact Let_def)
  have "\<exists>e. ib_Push True mem b p = Inl e" if "\<not> length (lg_list (ib_inst_buffer b)) + n \<le> lg_cap (ib_inst_buffer b)"
    using lg.push_all_overflow [OF assms(1), of ?l] that l(1) by (auto simp: ib_Push_def ib_push_loop_line)
  with ib_Push_ok [OF assms(1) refl, of mem p] show ?thesis unfolding l by auto
qed

theorem InstBuffer_push_line_witness:
  "\<exists>b'. ib_Push True (\<lambda>a. if a = 0x80000000 then 0x93 else 0x05) (mk_InstBuffer 4 2) 0x80000000 = Inr b' \<and> lg_list (ib_inst_buffer b') = [0xFF93]"
  using InstBuffer_push_line [of "mk_InstBuffer 4 2" 1 "\<lambda>a. if a = 0x80000000 then 0x93 else 0x05" "0x80000000"] mk_LegacyQueue_ok [of 4 "0 :: u16"]
  by (auto simp: mk_InstBuffer_def bit_simps)

text \<open>
  Events are never removed: \<open>Advance\<close> carries out every event it was ever given, again in every cycle. After \<open>n\<close> cycles a
  single request to push a line, not stalled, has pushed the line \<open>n\<close> times.
\<close>

theorem InstBuffer_events_repeat:
  assumes "lg_inv (ib_inst_buffer b)" "ib_event_queue b = [\<lparr>ev_stall = f, ev_func_type = IB_PUSH, ev_func_core_arg = p\<rparr>]" "\<not> flags f"
    and "line = ib_line mem p 0 (unat (ib_cache_line_width b))"
    and "length (lg_list (ib_inst_buffer b)) + n * length line \<le> lg_cap (ib_inst_buffer b)"
  shows "\<exists>b'. foldE (\<lambda>b _. ib_Advance True flags mem b) b [0..<n] = Inr b' \<and> ib_event_queue b' = ib_event_queue b
    \<and> lg_list (ib_inst_buffer b') = lg_list (ib_inst_buffer b) @ concat (replicate n line)"
proof -
  have "\<exists>q. foldE (\<lambda>b _. ib_Advance True flags mem b) b [0..<n] = Inr (b\<lparr>ib_inst_buffer := q\<rparr>) \<and> lg_inv q
    \<and> lg_cap q = lg_cap (ib_inst_buffer b) \<and> lg_list q = lg_list (ib_inst_buffer b) @ concat (replicate n line)"
    using assms(5)
  proof (induction n)
    case 0
    then show ?case using assms(1) by (intro exI [of _ "ib_inst_buffer b"]) simp
  next
    case (Suc n)
    then obtain q where q: "foldE (\<lambda>b _. ib_Advance True flags mem b) b [0..<n] = Inr (b\<lparr>ib_inst_buffer := q\<rparr>)" "lg_inv q"
      "lg_cap q = lg_cap (ib_inst_buffer b)" "lg_list q = lg_list (ib_inst_buffer b) @ concat (replicate n line)" by auto
    have "length (lg_list q) + length line \<le> lg_cap q"
      unfolding q(3,4) using Suc.prems by (simp add: length_concat sum_list_replicate)
    with q(2) assms(4) ib_Push_ok [of "b\<lparr>ib_inst_buffer := q\<rparr>" line mem p] obtain q1 where
      q1: "ib_Push True mem (b\<lparr>ib_inst_buffer := q\<rparr>) p = Inr (b\<lparr>ib_inst_buffer := q1\<rparr>)" "lg_inv q1" "lg_list q1 = lg_list q @ line" "lg_cap q1 = lg_cap q" by auto
    have "concat (replicate n line) @ line = concat (replicate (Suc n) line)"
      unfolding replicate_append_same [symmetric] replicate_Suc by simp
    then have "lg_list q1 = lg_list (ib_inst_buffer b) @ concat (replicate (Suc n) line)" using q1(3) q(4) by simp
    moreover have "foldE (\<lambda>b _. ib_Advance True flags mem b) b [0..<Suc n] = Inr (b\<lparr>ib_inst_buffer := q1\<rparr>)"
      using q(1) q1(1) assms(2,3) by (simp add: foldE_snoc ib_Advance_def ib_event_def)
    ultimately show ?case using q1(2,4) q(3) by (intro exI [of _ q1]) simp
  qed
  then show ?thesis by auto
qed

theorem InstBuffer_events_repeat_witness:
  "\<exists>b'. foldE (\<lambda>b _. ib_Advance True (\<lambda>_. False) (\<lambda>_. 1) b) (ib_Push_event (mk_InstBuffer 4 2) 0 0x100) [0..<3] = Inr b'
    \<and> lg_list (ib_inst_buffer b') = [0x101, 0x101, 0x101]"
proof -
  let ?b = "ib_Push_event (mk_InstBuffer 4 2) 0 0x100"
  have b: "lg_inv (ib_inst_buffer ?b)" "lg_list (ib_inst_buffer ?b) = []" "lg_cap (ib_inst_buffer ?b) = 4"
    using mk_LegacyQueue_ok [of 4 "0 :: u16"] by (simp_all add: ib_Push_event_def mk_InstBuffer_def)
  have l: "ib_line (\<lambda>_. 1) 0x100 0 (unat (ib_cache_line_width ?b)) = [0x101]"
    by (simp add: ib_line_def ib_Push_event_def mk_InstBuffer_def ib_halfword_exact bit_simps)
  have e: "ib_event_queue ?b = [\<lparr>ev_stall = 0, ev_func_type = IB_PUSH, ev_func_core_arg = 0x100\<rparr>]"
    by (simp add: ib_Push_event_def mk_InstBuffer_def)
  have "length (lg_list (ib_inst_buffer ?b)) + 3 * length [0x101 :: u16] \<le> lg_cap (ib_inst_buffer ?b)"
    unfolding b(2,3) by simp
  from InstBuffer_events_repeat [OF b(1) e _ l [symmetric] this, where flags = "\<lambda>_. False"] obtain b' where
    "foldE (\<lambda>b _. ib_Advance True (\<lambda>_. False) (\<lambda>_. 1) b) ?b [0..<3] = Inr b'"
    "lg_list (ib_inst_buffer b') = lg_list (ib_inst_buffer ?b) @ concat (replicate 3 [0x101])" by blast
  then show ?thesis unfolding b(2) by (intro exI [of _ b']) (simp add: eval_nat_numeral)
qed

text \<open>The position of the \<open>i\<close>-th entry, read and advanced.\<close>

lemma lg_index_slot:
  assumes "lg_inv q" "unat c = lg_slot q i"
  shows "i < length (lg_list q) \<Longrightarrow> lg_index q c = Inr (lg_list q ! i)" "unat (lg_GetNextPtr q c) = lg_slot q (Suc i)"
proof -
  have c: "unat c < lg_cap q" using assms by (simp add: lg_slot_def lg_inv_def)
  then show "unat (lg_GetNextPtr q c) = lg_slot q (Suc i)"
    using lg_next [OF assms(1) c] assms(2) by (simp add: lg_slot_def mod_Suc_eq)
  show "lg_index q c = Inr (lg_list q ! i)" if "i < length (lg_list q)"
    using that c assms(2) by (simp add: lg_index_def lg_list_def nth_ring_list lg_slot_def lg_cap_def)
qed

definition parcels :: "u32 \<Rightarrow> u16 list" where
  "parcels w = (if w AND 3 = 0 then [ucast w] else [ucast w, ucast (drop_bit 16 w)])"

definition fetchable :: "u32 \<Rightarrow> bool" where
  "fetchable w \<longleftrightarrow> (w AND 3 = 0 \<longrightarrow> drop_bit 16 w = 0)"

lemma ucast_low: "(ucast (ucast (w :: u32) :: u16) :: u32) AND 3 = w AND 3"
  by (rule bit_word_eqI) (auto simp: bit_simps bit_numeral_rec less_Suc_eq numeral_eq_Suc)

lemma join_halves: "push_bit 16 (ucast (ucast (drop_bit 16 w) :: u16)) OR ucast (ucast (w :: u32) :: u16) = w"
  by (rule bit_word_eqI) (auto simp: bit_simps)

lemma low_half: "drop_bit 16 (w :: u32) = 0 \<Longrightarrow> ucast (ucast w :: u16) = w"
  using join_halves [of w] by simp

lemma fetch_one_ok:
  assumes "lg_inv q" "unat c = lg_slot q i" "fetchable w" "drop i (lg_list q) = parcels w @ rest"
  shows "\<exists>c'. fetch_one q c = Inr (w, c') \<and> unat c' = lg_slot q (i + length (parcels w))"
proof -
  have n: "i + length (parcels w) \<le> length (lg_list q)"
    using arg_cong [OF assms(4), of length] by (cases "w AND 3 = 0") (auto simp: parcels_def)
  have at: "lg_list q ! (i + k) = parcels w ! k" if "k < length (parcels w)" for k
    using nth_drop [of i "lg_list q" k] n that unfolding assms(4) by (simp add: nth_append)
  note s = lg_index_slot [OF assms(1,2)]
  note s1 = lg_index_slot [OF assms(1) s(2)]
  show ?thesis
  proof (cases "w AND 3 = 0")
    case True
    then have "lg_index q c = Inr (ucast w)" using s(1) n at [of 0] by (simp add: parcels_def)
    with True assms(3) s(2) show ?thesis by (simp add: fetch_one_def Let_def ucast_low parcels_def low_half fetchable_def)
  next
    case False
    then have "lg_index q c = Inr (ucast w)" "lg_index q (lg_GetNextPtr q c) = Inr (ucast (drop_bit 16 w))"
      using s(1) s1(1) n at [of 0] at [of 1] by (simp_all add: parcels_def)
    with False s1(2) show ?thesis by (simp add: fetch_one_def Let_def ucast_low parcels_def join_halves)
  qed
qed

lemma fetch_entries_ok:
  assumes "lg_inv q" "length pkg = length ws" "\<forall>w \<in> set ws. fetchable w" "distinct (map pe_data pkg)"
    and "unat c = lg_slot q i" "drop i (lg_list q) = concat (map parcels ws) @ rest"
  shows "\<exists>h' c'. foldE (fetch_entry q) (h, c) pkg = Inr (h', c') \<and> map (\<lambda>e. id_instruction (h' (pe_data e))) pkg = ws
    \<and> (\<forall>a. a \<notin> pe_data ` set pkg \<longrightarrow> h' a = h a)"
  using assms(2-)
proof (induction pkg arbitrary: ws h c i)
  case Nil
  then show ?case by simp
next
  case (Cons e pkg)
  then obtain w ws' where ws: "ws = w # ws'" by (cases ws) auto
  with Cons.prems fetch_one_ok [OF assms(1) Cons.prems(4), of w "concat (map parcels ws') @ rest"] obtain c1 where
    c1: "fetch_one q c = Inr (w, c1)" "unat c1 = lg_slot q (i + length (parcels w))" by auto
  have "drop (i + length (parcels w)) (lg_list q) = concat (map parcels ws') @ rest"
    using Cons.prems(5) ws drop_drop [of "length (parcels w)" i "lg_list q"] by (simp add: add.commute)
  note d = this
  let ?h = "h(pe_data e := (h (pe_data e))\<lparr>id_instruction := w\<rparr>)"
  have "length pkg = length ws'" "\<forall>w \<in> set ws'. fetchable w" "distinct (map pe_data pkg)" using Cons.prems ws by simp_all
  from Cons.IH [OF this c1(2) d, of ?h] obtain h' c' where h': "foldE (fetch_entry q) (?h, c1) pkg = Inr (h', c')"
    "map (\<lambda>e. id_instruction (h' (pe_data e))) pkg = ws'" "\<forall>a. a \<notin> pe_data ` set pkg \<longrightarrow> h' a = ?h a" by blast
  have "pe_data e \<notin> pe_data ` set pkg" using Cons.prems(3) by simp
  then have "id_instruction (h' (pe_data e)) = w" using h'(3) by simp
  with h' ws c1(1) show ?case by (auto simp: fetch_entry_def)
qed

text \<open>
  Instructions come out of the buffer as they went in. If the buffer holds the halfwords of a sequence
  of instructions, each full-width or with its two lowest bits clear and then one halfword long, \<open>Process\<close> gives the entries of the package
  exactly these instructions, in order, and changes no other instruction.
\<close>

theorem InstBufferFetch_roundtrip:
  assumes "lg_inv (ib_inst_buffer b)" "length pkg = length ws" "\<forall>w \<in> set ws. fetchable w" "distinct (map pe_data pkg)"
    and "lg_list (ib_inst_buffer b) = concat (map parcels ws) @ rest"
  shows "\<exists>h'. fetch_Process b h pkg = Inr h' \<and> map (\<lambda>e. id_instruction (h' (pe_data e))) pkg = ws
    \<and> (\<forall>a. a \<notin> pe_data ` set pkg \<longrightarrow> h' a = h a)"
proof -
  let ?q = "ib_inst_buffer b"
  have "unat (lg_GetHeader ?q) = lg_slot ?q 0" using assms(1) by (simp add: lg_GetHeader_def lg_slot_def lg_inv_def)
  from fetch_entries_ok [OF assms(1-4) this, where h = h and rest = rest] assms(5) show ?thesis
    by (auto simp: fetch_Process_def)
qed

theorem InstBufferFetch_roundtrip_witness:
  "\<exists>b h'. lg_list (ib_inst_buffer b) = [0x0513, 0x0010, 0x4108]
    \<and> fetch_Process b (\<lambda>_. undefined) [\<lparr>pe_stall = 0, pe_data = 3\<rparr>, \<lparr>pe_stall = 1, pe_data = 5\<rparr>] = Inr h'
    \<and> id_instruction (h' 3) = 0x00100513 \<and> id_instruction (h' 5) = 0x4108"
proof -
  define b where "b = (mk_InstBuffer 4 8)\<lparr>ib_inst_buffer := \<lparr>lg_data_queue = [0x0513, 0x0010, 0x4108, 0], lg_header = 0, lg_tail = 3, lg_usage = 3\<rparr>\<rparr>"
  have b: "lg_inv (ib_inst_buffer b)" "lg_list (ib_inst_buffer b) = [0x0513, 0x0010, 0x4108]"
    by (simp_all add: b_def lg_inv_def lg_cap_def lg_list_def ring_list_def upt_rec)
  have p: "concat (map parcels [0x00100513, 0x4108]) @ [] = [0x0513, 0x0010, 0x4108]" "\<forall>w \<in> set [0x00100513, 0x4108]. fetchable w"
    by (simp_all add: parcels_def fetchable_def drop_bit_eq_div)
  from InstBufferFetch_roundtrip [OF b(1) _ p(2), where h = "\<lambda>_. undefined" and rest = "[]"
      and pkg = "[\<lparr>pe_stall = 0, pe_data = 3\<rparr>, \<lparr>pe_stall = 1, pe_data = 5\<rparr>]"] b(2) p(1)
  show ?thesis by (intro exI [of _ b]) auto
qed

text \<open>
  A compressed instruction of the other two quadrants is not recognised: it is joined with the halfword
  after it.
\<close>

theorem InstBufferFetch_joins_compressed:
  assumes "lg_inv q" "unat c = lg_slot q i" "Suc i < length (lg_list q)" "lg_list q ! i AND 3 \<in> {1, 2}"
  shows "\<exists>c'. fetch_one q c = Inr (push_bit 16 (ucast (lg_list q ! Suc i)) OR ucast (lg_list q ! i), c')"
proof -
  have "(ucast (lg_list q ! i) :: u32) AND 3 = ucast (lg_list q ! i AND 3)" by (rule bit_word_eqI) (auto simp: bit_simps dest: bit_imp_le_length)
  with assms(4) have "(ucast (lg_list q ! i) :: u32) AND 3 \<noteq> 0" by auto
  with lg_index_slot [OF assms(1,2)] lg_index_slot [OF assms(1) lg_index_slot(2) [OF assms(1,2)]] assms(3) show ?thesis
    by (simp add: fetch_one_def Let_def)
qed

end
