(* ===== verification/Legacy_Units.thy ===== *)
theory Legacy_Units
  imports Legacy_Queues
begin

text \<open>
  The synchronous units of the earlier model: the clock (\<open>legacy/src/timing/Tick\<close>), ports, flip-flops, latches and the
  null unit (\<open>legacy/basicunit\<close>), and the memory without latency (\<open>legacy/src/component/PerfectMemory\<close>). A flip-flop
  refines a shift register, hence delays every value by its latency. The stall and flush flags are shared
  pointers: addresses of a store of flags.
\<close>

section \<open>Clock and ports\<close>

record Clock =
  cur_tick :: u64

definition mk_Clock :: Clock where
  "mk_Clock = \<lparr>cur_tick = 0\<rparr>"

definition clk_CurTick :: "Clock \<Rightarrow> u64" where
  "clk_CurTick c = cur_tick c"

definition clk_Tick :: "Clock \<Rightarrow> Clock" where
  "clk_Tick c = c\<lparr>cur_tick := cur_tick c + 1\<rparr>"

definition clk_Reset :: "Clock \<Rightarrow> Clock" where
  "clk_Reset c = c\<lparr>cur_tick := 0\<rparr>"

record 'a port =
  pt_valid :: bool
  pt_data :: 'a

text \<open>The data member of a new port has its default-initialised value \<open>dflt\<close>.\<close>

definition mk_port :: "'a \<Rightarrow> 'a port" where
  "mk_port dflt = \<lparr>pt_valid = False, pt_data = dflt\<rparr>"

definition pt_IsValid :: "'a port \<Rightarrow> bool" where
  "pt_IsValid p = pt_valid p"

definition pt_Kill :: "'a port \<Rightarrow> 'a port" where
  "pt_Kill p = p\<lparr>pt_valid := False\<rparr>"

definition pt_SetData :: "'a port \<Rightarrow> 'a \<Rightarrow> 'a port" where
  "pt_SetData p x = p\<lparr>pt_valid := True, pt_data := x\<rparr>"

definition pt_GetData :: "'a port \<Rightarrow> 'a" where
  "pt_GetData p = pt_data p"

section \<open>Flip-flop\<close>

text \<open>
  The unit in front is reached through two of its methods: whether its port is valid, and the port. They
  are the first two arguments of \<open>Advance\<close>.
\<close>

record 'a FlipFlop =
  ff_data_queue :: "('a \<times> u64) list"
  ff_stall :: nat
  ff_flush :: nat
  ff_port :: "'a port"
  ff_latency :: u64

definition ff_Error :: "'b result" where
  "ff_Error = Inl (CAssert ''false'')"

definition mk_FlipFlop :: "'a \<Rightarrow> nat \<Rightarrow> nat \<Rightarrow> u64 \<Rightarrow> 'a FlipFlop result" where
  "mk_FlipFlop dflt stall flush latency =
     (if latency = 0 then ff_Error
      else Inr \<lparr>ff_data_queue = [], ff_stall = stall, ff_flush = flush, ff_port = mk_port dflt, ff_latency = latency\<rparr>)"

definition ff_Reset :: "'a FlipFlop \<Rightarrow> 'a FlipFlop" where
  "ff_Reset f = f\<lparr>ff_data_queue := [], ff_port := pt_Kill (ff_port f)\<rparr>"

definition ff_Stall :: "'a FlipFlop \<Rightarrow> (nat \<Rightarrow> bool) \<Rightarrow> nat \<Rightarrow> bool" where
  "ff_Stall f flags = flags(ff_stall f := True)"

definition ff_IsStall :: "'a FlipFlop \<Rightarrow> (nat \<Rightarrow> bool) \<Rightarrow> bool" where
  "ff_IsStall f flags = flags (ff_stall f)"

definition ff_Flush :: "'a FlipFlop \<Rightarrow> (nat \<Rightarrow> bool) \<Rightarrow> nat \<Rightarrow> bool" where
  "ff_Flush f flags = flags(ff_flush f := True)"

definition ff_IsFlush :: "'a FlipFlop \<Rightarrow> (nat \<Rightarrow> bool) \<Rightarrow> bool" where
  "ff_IsFlush f flags = flags (ff_flush f)"

definition ff_IsPortValid :: "'a FlipFlop \<Rightarrow> bool" where
  "ff_IsPortValid f = pt_IsValid (ff_port f)"

definition ff_IsDrained :: "'a FlipFlop \<Rightarrow> bool" where
  "ff_IsDrained f = (ff_data_queue f = [] \<and> \<not> pt_IsValid (ff_port f))"

definition ff_IsReady :: "'a FlipFlop \<Rightarrow> bool result" where
  "ff_IsReady f = ff_Error"

definition ff_Advance :: "bool \<Rightarrow> 'a port \<Rightarrow> Clock \<Rightarrow> (nat \<Rightarrow> bool) \<Rightarrow> 'a FlipFlop \<Rightarrow> (nat \<Rightarrow> bool) \<times> 'a FlipFlop" where
  "ff_Advance up_valid up_port clk flags f =
     (if flags (ff_flush f) then (flags, ff_Reset f)
      else if flags (ff_stall f) then (flags(ff_stall f := False), f)
      else let f1 = (if up_valid
                     then f\<lparr>ff_data_queue := ff_data_queue f @ [(pt_GetData up_port, clk_CurTick clk + ff_latency f - 1)]\<rparr>
                     else f);
               f2 = f1\<lparr>ff_port := pt_Kill (ff_port f1)\<rparr>
           in case ff_data_queue f2 of
                [] \<Rightarrow> (flags, f2)
              | (x, desk_tick) # rest \<Rightarrow>
                  if desk_tick \<le> clk_CurTick clk
                  then (flags, f2\<lparr>ff_port := pt_SetData (ff_port f2) x, ff_data_queue := rest\<rparr>)
                  else (flags, f2))"

section \<open>Latch and null unit\<close>

text \<open>\<open>IsReady\<close> is virtual; the latch's own version is \<open>lt_IsReady\<close>. The unit in front is stalled through its flag.\<close>

record 'a Latch =
  lt_port :: "'a port"

definition mk_Latch :: "'a \<Rightarrow> 'a Latch" where
  "mk_Latch dflt = \<lparr>lt_port = mk_port dflt\<rparr>"

definition lt_Reset :: "'a Latch \<Rightarrow> 'a Latch" where
  "lt_Reset l = l\<lparr>lt_port := pt_Kill (lt_port l)\<rparr>"

definition lt_IsReady :: "'a Latch \<Rightarrow> bool" where
  "lt_IsReady l = True"

definition lt_IsPortValid :: "'a Latch \<Rightarrow> bool" where
  "lt_IsPortValid l = pt_IsValid (lt_port l)"

definition lt_Evaluate :: "bool \<Rightarrow> 'a FlipFlop \<Rightarrow> (nat \<Rightarrow> bool) \<Rightarrow> 'a Latch \<Rightarrow> (nat \<Rightarrow> bool) \<times> 'a Latch" where
  "lt_Evaluate ready up flags l =
     (let l1 = l\<lparr>lt_port := pt_Kill (lt_port l)\<rparr> in
      if \<not> ready then (ff_Stall up flags, l1)
      else if ff_IsPortValid up then (flags, l1\<lparr>lt_port := pt_SetData (lt_port l1) (pt_GetData (ff_port up))\<rparr>)
      else (flags, l1))"

text \<open>The null unit reports its port, which nobody ever sets, as valid.\<close>

record 'a NullDigitalUnit =
  nd_port :: "'a port"

definition mk_NullDigitalUnit :: "'a \<Rightarrow> 'a NullDigitalUnit" where
  "mk_NullDigitalUnit dflt = \<lparr>nd_port = mk_port dflt\<rparr>"

definition nd_IsPortValid :: "'a NullDigitalUnit \<Rightarrow> bool" where
  "nd_IsPortValid u = True"

section \<open>A flip-flop is a shift register\<close>

text \<open>The entries of the queue that stand for the stages of a shift register, the next output first.\<close>

fun stages :: "u64 \<Rightarrow> 'a option list \<Rightarrow> ('a \<times> u64) list" where
  "stages t [] = []"
| "stages t (None # xs) = stages (t + 1) xs"
| "stages t (Some x # xs) = (x, t) # stages (t + 1) xs"

lemma stages_snoc:
  "stages t (xs @ [i]) = stages t xs @ (case i of None \<Rightarrow> [] | Some x \<Rightarrow> [(x, t + word_of_nat (length xs))])"
proof (induction t xs rule: stages.induct)
  case (1 t)
  then show ?case by (cases i) simp_all
qed (simp_all add: add.assoc split: option.splits)

lemma stages_later: "(x, d) \<in> set (stages t xs) \<Longrightarrow> \<exists>j < length xs. d = t + word_of_nat j"
proof (induction t xs rule: stages.induct)
  case (2 t xs)
  then obtain j where "j < length xs" "d = t + 1 + word_of_nat j" by auto
  then show ?case by (intro exI [of _ "Suc j"]) (simp add: add.assoc)
next
  case (3 t y xs)
  then consider "d = t" | j where "j < length xs" "d = t + 1 + word_of_nat j" by auto
  then show ?case
  proof cases
    case 2
    then show ?thesis by (intro exI [of _ "Suc j"]) (simp add: add.assoc)
  qed auto
qed simp

text \<open>A flip-flop that stands for the register \<open>line\<close> at a time from which the clock does not wrap.\<close>

definition ff_holds :: "Clock \<Rightarrow> 'a FlipFlop \<Rightarrow> 'a option list \<Rightarrow> bool" where
  "ff_holds clk f line \<longleftrightarrow> ff_data_queue f = stages (cur_tick clk) line \<and> Suc (length line) = unat (ff_latency f)"

definition port_value :: "'a port \<Rightarrow> 'a option" where
  "port_value p = (if pt_IsValid p then Some (pt_GetData p) else None)"

lemma stages_front:
  assumes "unat t + length line < 2 ^ 64"
  shows "(case stages t line of (x, d) # rest \<Rightarrow> d \<le> t | [] \<Rightarrow> False) \<longleftrightarrow> (\<exists>x rest. line = Some x # rest)"
proof (cases line)
  case Nil
  then show ?thesis by simp
next
  case (Cons a rest)
  show ?thesis
  proof (cases a)
    case None
    have later: "t < d" if "(x, d) \<in> set (stages (t + 1) rest)" for x d
    proof -
      from stages_later [OF that] obtain j where j: "j < length rest" "d = t + 1 + word_of_nat j" by blast
      then have "d = t + word_of_nat (Suc j)" by (simp add: add.assoc)
      moreover have "unat t + Suc j < 2 ^ 64" using j(1) assms Cons by simp
      ultimately have "unat d = unat t + Suc j" by (simp add: unat_word_ariths unat_of_nat)
      then show ?thesis by (simp add: word_less_nat_alt)
    qed
    have "case stages (t + 1) rest of (x, d) # _ \<Rightarrow> t < d | [] \<Rightarrow> True"
      using later [of "fst (hd (stages (t + 1) rest))" "snd (hd (stages (t + 1) rest))"] by (auto split: list.splits)
    then show ?thesis using None Cons by (auto split: list.splits)
  next
    case (Some x)
    then show ?thesis using Cons by simp
  qed
qed

lemma ff_Advance_shifts:
  assumes "ff_holds clk f line" "\<not> flags (ff_flush f)" "\<not> flags (ff_stall f)" "unat (cur_tick clk) + length line + 1 < 2 ^ 64"
    and "i = (if up_valid then Some (pt_GetData up_port) else None)"
  shows "\<exists>f'. ff_Advance up_valid up_port clk flags f = (flags, f') \<and> port_value (ff_port f') = hd (line @ [i])
    \<and> ff_holds (clk_Tick clk) f' (tl (line @ [i])) \<and> ff_latency f' = ff_latency f \<and> ff_stall f' = ff_stall f \<and> ff_flush f' = ff_flush f"
proof -
  let ?t = "cur_tick clk" and ?l = "line @ [i]"
  have "word_of_nat (Suc (length line)) = ff_latency f" using assms(1) by (simp add: ff_holds_def)
  then have "ff_latency f = word_of_nat (length line) + 1" by (simp add: add.commute)
  then have lat: "?t + ff_latency f - 1 = ?t + word_of_nat (length line)" by simp
  have q: "(if up_valid then ff_data_queue f @ [(pt_GetData up_port, ?t + ff_latency f - 1)] else ff_data_queue f) = stages ?t ?l"
    using assms(1,5) by (simp add: lat ff_holds_def stages_snoc)
  let ?f = "f\<lparr>ff_data_queue := stages ?t ?l, ff_port := pt_Kill (ff_port f)\<rparr>"
  have adv: "ff_Advance up_valid up_port clk flags f = (case stages ?t ?l of
      [] \<Rightarrow> (flags, ?f)
    | (x, d) # rest \<Rightarrow> if d \<le> ?t then (flags, ?f\<lparr>ff_port := pt_SetData (ff_port ?f) x, ff_data_queue := rest\<rparr>) else (flags, ?f))"
    unfolding q [symmetric] using assms(2,3) by (cases up_valid) (auto simp: ff_Advance_def clk_CurTick_def Let_def split: list.splits)
  have front: "(case stages ?t ?l of (x, d) # rest \<Rightarrow> d \<le> ?t | [] \<Rightarrow> False) \<longleftrightarrow> (\<exists>x rest. ?l = Some x # rest)"
    by (rule stages_front) (use assms(4) in simp)
  obtain a rest where l: "?l = a # rest" by (cases ?l) auto
  have len: "length rest = length line" using arg_cong [OF l, of length] by simp
  show ?thesis
  proof (cases a)
    case (Some x)
    then show ?thesis unfolding adv l using assms(1) len
      by (auto simp: ff_holds_def port_value_def pt_IsValid_def pt_SetData_def pt_GetData_def clk_Tick_def)
  next
    case None
    then have "ff_Advance up_valid up_port clk flags f = (flags, ?f)"
      using front unfolding adv l by (auto split: list.splits)
    then show ?thesis using None l assms(1) len
      by (auto simp: ff_holds_def port_value_def pt_IsValid_def pt_Kill_def clk_Tick_def)
  qed
qed

text \<open>
  One value per cycle: the unit in front shows a port, the flip-flop advances, its own port is read and the
  clock ticks.
\<close>

fun ff_run :: "Clock \<Rightarrow> (nat \<Rightarrow> bool) \<Rightarrow> 'a FlipFlop \<Rightarrow> 'a port list \<Rightarrow> 'a option list" where
  "ff_run clk flags f [] = []"
| "ff_run clk flags f (p # ps) =
     (let (flags1, f1) = ff_Advance (pt_IsValid p) p clk flags f
      in port_value (ff_port f1) # ff_run (clk_Tick clk) flags1 f1 ps)"

lemma ff_run_shifts:
  assumes "ff_holds clk f line" "\<not> flags (ff_flush f)" "\<not> flags (ff_stall f)"
    and "unat (cur_tick clk) + length ps + length line + 1 < 2 ^ 64"
  shows "ff_run clk flags f ps = take (length ps) (line @ map port_value ps)"
  using assms
proof (induction ps arbitrary: clk f line)
  case Nil
  then show ?case by simp
next
  case (Cons p ps)
  let ?i = "port_value p"
  have "unat (cur_tick clk) + length line + 1 < 2 ^ 64" using Cons.prems(4) by simp
  from ff_Advance_shifts [OF Cons.prems(1-3) this, of ?i "pt_IsValid p" p] obtain f' where
    f': "ff_Advance (pt_IsValid p) p clk flags f = (flags, f')" "port_value (ff_port f') = hd (line @ [?i])"
      "ff_holds (clk_Tick clk) f' (tl (line @ [?i]))" "ff_stall f' = ff_stall f" "ff_flush f' = ff_flush f"
    by (auto simp: port_value_def)
  have "unat (cur_tick (clk_Tick clk)) = unat (cur_tick clk) + 1"
    using Cons.prems(4) by (simp add: clk_Tick_def unat_word_ariths)
  then have "ff_run (clk_Tick clk) flags f' ps = take (length ps) (tl (line @ [?i]) @ map port_value ps)"
    using Cons.prems f'(4,5) by (intro Cons.IH [OF f'(3)]) simp_all
  with f'(1,2) show ?case by (cases line) simp_all
qed

text \<open>
  A flip-flop delays by its latency. Started empty and neither stalled nor flushed, what it shows in a
  cycle is what the unit in front showed \<open>latency - 1\<close> cycles earlier, gaps included, and nothing before that, as long as the
  clock does not wrap. A latency of 0 is rejected when the flip-flop is built.
\<close>

theorem FlipFlop_delay:
  assumes "\<not> flags flush" "\<not> flags stall" "unat (cur_tick clk) + length ps + unat latency < 2 ^ 64"
  shows "case mk_FlipFlop dflt stall flush latency of
      Inl e \<Rightarrow> latency = 0
    | Inr f \<Rightarrow> ff_run clk flags f ps = take (length ps) (replicate (unat latency - 1) None @ map port_value ps)"
proof (cases "latency = 0")
  case False
  let ?f = "\<lparr>ff_data_queue = [], ff_stall = stall, ff_flush = flush, ff_port = mk_port dflt, ff_latency = latency\<rparr>"
  have pos: "0 < unat latency" using False by (simp add: unat_gt_0)
  have none: "stages t (replicate n None) = []" for t n by (induction n arbitrary: t) simp_all
  have "ff_holds clk ?f (replicate (unat latency - 1) None)" using pos by (simp add: ff_holds_def none)
  then have "ff_run clk flags ?f ps = take (length ps) (replicate (unat latency - 1) None @ map port_value ps)"
    by (rule ff_run_shifts) (use assms pos in simp_all)
  with False show ?thesis by (simp add: mk_FlipFlop_def)
qed (simp add: mk_FlipFlop_def ff_Error_def)

theorem FlipFlop_delay_witness:
  "\<exists>f. mk_FlipFlop (0 :: nat) 0 1 3 = Inr f
    \<and> ff_run mk_Clock (\<lambda>_. False) f [pt_SetData (mk_port 0) 7, mk_port 0, pt_SetData (mk_port 0) 9, mk_port 0, mk_port 0] = [None, None, Some 7, None, Some 9]"
proof -
  let ?ps = "[pt_SetData (mk_port 0) 7, mk_port 0, pt_SetData (mk_port 0) 9, mk_port 0, mk_port 0] :: nat port list"
  have "unat (cur_tick mk_Clock) + length ?ps + unat (3 :: u64) < 2 ^ 64" by (simp add: mk_Clock_def)
  note d = FlipFlop_delay [OF _ _ this, where flags = "\<lambda>_. False" and stall = 0 and flush = 1 and dflt = 0]
  obtain f where f: "mk_FlipFlop (0 :: nat) 0 1 3 = Inr f" by (simp add: mk_FlipFlop_def)
  have "ff_run mk_Clock (\<lambda>_. False) f ?ps = take (length ?ps) (replicate (unat (3 :: u64) - 1) None @ map port_value ?ps)"
    using d unfolding f by (simp del: ff_run.simps)
  moreover have "replicate (unat (3 :: u64) - 1) None = [None, None :: nat option]" by (simp add: numeral_2_eq_2 [symmetric]) (simp add: numeral_2_eq_2)
  ultimately have "ff_run mk_Clock (\<lambda>_. False) f ?ps = [None, None, Some 7, None, Some 9]"
    by (simp add: port_value_def pt_IsValid_def pt_SetData_def mk_port_def pt_GetData_def del: ff_run.simps)
  with f show ?thesis by blast
qed

text \<open>
  The flag that stalls a flip-flop is cleared by it. Where two share a flag, the one that advances first
  stands still and the other one moves on.
\<close>

theorem FlipFlop_shared_stall:
  assumes "\<not> flags (ff_flush a)" "flags (ff_stall a)" "ff_stall b = ff_stall a" "\<not> flags (ff_flush b)" "ff_flush b \<noteq> ff_stall a"
    and "ff_Advance va pa clk flags a = (flags1, a')" "ff_Advance vb pb clk flags1 b = (flags2, b')"
  shows "a' = a \<and> ff_Advance vb pb clk (\<lambda>_. False) b = ((\<lambda>_. False), b')"
  using assms by (auto simp: ff_Advance_def Let_def split: list.splits prod.splits if_splits)

section \<open>Memory without latency\<close>

text \<open>The array is allocated without initialisation; \<open>init\<close> gives its bytes.\<close>

record PerfectMemory =
  pm_ram :: "u8 list"
  pm_base :: u64
  pm_length :: u64

definition mk_PerfectMemory :: "(nat \<Rightarrow> u8) \<Rightarrow> u64 \<Rightarrow> u64 \<Rightarrow> PerfectMemory" where
  "mk_PerfectMemory init base len = \<lparr>pm_ram = map init [0..<unat len], pm_base = base, pm_length = len\<rparr>"

definition pm_CheckRange :: "PerfectMemory \<Rightarrow> u64 \<Rightarrow> bool" where
  "pm_CheckRange m address \<longleftrightarrow> address \<ge> pm_base m \<and> address \<le> pm_base m + pm_length m"

definition pm_Size :: "PerfectMemory \<Rightarrow> u64" where
  "pm_Size m = pm_length m"

definition pm_offset :: "PerfectMemory \<Rightarrow> u64 \<Rightarrow> nat" where
  "pm_offset m address = unat (address - pm_base m)"

text \<open>\<open>Read\<close> returns a pointer into the array: its position, at most one past the end.\<close>

definition pm_Read :: "bool \<Rightarrow> PerfectMemory \<Rightarrow> u64 \<Rightarrow> nat result" where
  "pm_Read tr m address =
     bindE (DASSERT tr (pm_CheckRange m address) ''Access Unknown Address'')
     (\<lambda>_. if pm_offset m address \<le> length (pm_ram m) then Inr (pm_offset m address) else Inl (Undefined ''pointer outside the array''))"

definition pm_load :: "bool \<Rightarrow> PerfectMemory \<Rightarrow> u64 \<Rightarrow> nat \<Rightarrow> u8 list result" where
  "pm_load tr m address n =
     bindE (DASSERT tr (pm_CheckRange m address) ''Access Unknown Address'')
     (\<lambda>_. if pm_offset m address + n \<le> length (pm_ram m) then Inr (take n (drop (pm_offset m address) (pm_ram m)))
          else Inl (Undefined ''read past the array''))"

definition pm_ReadDouble :: "bool \<Rightarrow> PerfectMemory \<Rightarrow> u64 \<Rightarrow> u64 result" where
  "pm_ReadDouble tr m address = bindE (pm_load tr m address 8) (\<lambda>bs. Inr (horner_sum ucast 256 bs))"

definition pm_ReadByte :: "bool \<Rightarrow> PerfectMemory \<Rightarrow> u64 \<Rightarrow> u8 result" where
  "pm_ReadByte tr m address = bindE (pm_load tr m address 1) (\<lambda>bs. Inr (hd bs))"

definition pm_Write :: "bool \<Rightarrow> PerfectMemory \<Rightarrow> u64 \<Rightarrow> u8 list \<Rightarrow> u64 \<Rightarrow> PerfectMemory result" where
  "pm_Write tr m address data len =
     bindE (DASSERT tr (pm_CheckRange m address) ''Access Unknown Address'')
     (\<lambda>_. let k = pm_offset m address; n = unat len in
       if n \<le> length data \<and> k + n \<le> length (pm_ram m)
       then Inr (m\<lparr>pm_ram := take k (pm_ram m) @ take n data @ drop (k + n) (pm_ram m)\<rparr>)
       else Inl (Undefined ''copy past an array''))"

text \<open>\<open>WriteDouble\<close> copies eight 64-bit objects that start at its argument, which is one.\<close>

definition pm_WriteDouble :: "bool \<Rightarrow> PerfectMemory \<Rightarrow> u64 \<Rightarrow> u64 \<Rightarrow> PerfectMemory result" where
  "pm_WriteDouble tr m address data =
     bindE (DASSERT tr (pm_CheckRange m address) ''Access Unknown Address'')
     (\<lambda>_. Inl (Undefined ''read past the argument''))"

definition pm_mask_byte :: "nat \<Rightarrow> u8 list \<Rightarrow> u64 \<Rightarrow> u8 list \<Rightarrow> nat \<Rightarrow> u8 list result" where
  "pm_mask_byte k data msk ram i =
     (if 64 \<le> i then Inl (Undefined ''shift count'')
      else if drop_bit i msk AND 1 \<noteq> 0 then bindE (vec_get data i) (\<lambda>b. vec_set ram (k + i) b)
      else Inr ram)"

definition pm_Write_masked :: "bool \<Rightarrow> PerfectMemory \<Rightarrow> u64 \<Rightarrow> u8 list \<Rightarrow> u64 \<Rightarrow> u64 \<Rightarrow> PerfectMemory result" where
  "pm_Write_masked tr m address data len msk =
     bindE (DASSERT tr (pm_CheckRange m address) ''Access Unknown Address'')
     (\<lambda>_. bindE (foldE (pm_mask_byte (pm_offset m address) data msk) (pm_ram m) [0..<unat len])
     (\<lambda>ram. Inr (m\<lparr>pm_ram := ram\<rparr>)))"

definition pm_wf :: "PerfectMemory \<Rightarrow> bool" where
  "pm_wf m \<longleftrightarrow> length (pm_ram m) = unat (pm_length m) \<and> unat (pm_base m) + unat (pm_length m) < 2 ^ 64"

lemma pm_mask_loop:
  assumes "n \<le> 64" "n \<le> length data" "k + n \<le> length ram"
  shows "\<exists>ram'. foldE (pm_mask_byte k data msk) ram [0..<n] = Inr ram' \<and> length ram' = length ram
    \<and> (\<forall>j < length ram. ram' ! j = (if k \<le> j \<and> j < k + n \<and> bit msk (j - k) then data ! (j - k) else ram ! j))"
  using assms
proof (induction n)
  case 0
  then show ?case by auto
next
  case (Suc n)
  then obtain ram' where r: "foldE (pm_mask_byte k data msk) ram [0..<n] = Inr ram'" "length ram' = length ram"
    "\<forall>j < length ram. ram' ! j = (if k \<le> j \<and> j < k + n \<and> bit msk (j - k) then data ! (j - k) else ram ! j)" by auto
  have b: "drop_bit n msk AND 1 \<noteq> 0 \<longleftrightarrow> bit msk n" by (simp add: bit_iff_odd_drop_bit and_one_eq odd_iff_mod_2_eq_one)
  have "pm_mask_byte k data msk ram' n = Inr (if bit msk n then ram'[k + n := data ! n] else ram')"
    unfolding pm_mask_byte_def b using Suc.prems r(2) by simp
  with r Suc.prems show ?case by (auto simp: foldE_snoc nth_list_update less_Suc_eq)
qed

text \<open>
  A masked write changes exactly the bytes whose mask bit is set. For an address the memory holds and
  at most 64 bytes that fit behind it, byte \<open>j\<close> of the memory afterwards is the byte of the data where the mask selects it and the
  old one everywhere else. An address just past the memory also passes the range check, and reading there
  leaves the array.
\<close>

theorem PerfectMemory_masked_write:
  assumes "pm_wf m" "pm_base m \<le> address" "unat (address - pm_base m) + unat len \<le> unat (pm_length m)" "unat len \<le> 64" "unat len \<le> length data"
  shows "(\<exists>m'. pm_Write_masked True m address data len msk = Inr m' \<and> pm_wf m'
      \<and> (\<forall>j < length (pm_ram m). pm_ram m' ! j =
          (let i = j - unat (address - pm_base m) in
           if unat (address - pm_base m) \<le> j \<and> i < unat len \<and> bit msk i then data ! i else pm_ram m ! j)))
    \<and> pm_CheckRange m (pm_base m + pm_length m)
    \<and> pm_ReadByte True m (pm_base m + pm_length m) = Inl (Undefined ''read past the array'')"
proof -
  have wf: "length (pm_ram m) = unat (pm_length m)" "unat (pm_base m) + unat (pm_length m) < 2 ^ 64"
    using assms(1) by (simp_all add: pm_wf_def)
  have e: "unat (pm_base m + pm_length m) = unat (pm_base m) + unat (pm_length m)" using wf(2) by (simp add: unat_word_ariths)
  have d: "unat (address - pm_base m) = unat address - unat (pm_base m)" using assms(2) by (rule unat_diff_le)
  have "pm_CheckRange m address"
    using assms(2,3) by (simp add: pm_CheckRange_def word_le_nat_alt e d)
  then have a: "DASSERT True (pm_CheckRange m address) ''Access Unknown Address'' = Inr ()" by (simp add: DASSERT_def)
  have end_ok: "pm_CheckRange m (pm_base m + pm_length m)" by (simp add: pm_CheckRange_def word_le_nat_alt e)
  from pm_mask_loop [OF assms(4,5), of "unat (address - pm_base m)" "pm_ram m" msk] assms(3) wf(1) obtain ram' where
    r: "foldE (pm_mask_byte (unat (address - pm_base m)) data msk) (pm_ram m) [0..<unat len] = Inr ram'" "length ram' = length (pm_ram m)"
      "\<forall>j < length (pm_ram m). ram' ! j = (if unat (address - pm_base m) \<le> j \<and> j < unat (address - pm_base m) + unat len \<and> bit msk (j - unat (address - pm_base m))
        then data ! (j - unat (address - pm_base m)) else pm_ram m ! j)" by auto
  have "pm_Write_masked True m address data len msk = Inr (m\<lparr>pm_ram := ram'\<rparr>)"
    using a r(1) by (simp add: pm_Write_masked_def pm_offset_def)
  moreover have "pm_wf (m\<lparr>pm_ram := ram'\<rparr>)" using r(2) wf by (simp add: pm_wf_def)
  moreover have "pm_ReadByte True m (pm_base m + pm_length m) = Inl (Undefined ''read past the array'')"
    using end_ok wf(1) by (simp add: pm_ReadByte_def pm_load_def DASSERT_def pm_offset_def)
  ultimately show ?thesis using end_ok r(3) by (auto simp: Let_def)
qed

theorem PerfectMemory_masked_write_witness:
  "\<exists>m'. pm_Write_masked True (mk_PerfectMemory (\<lambda>_. 0) 0x80000000 16) 0x80000004 [1, 2, 3] 3 5 = Inr m' \<and> pm_ram m' ! 4 = 1 \<and> pm_ram m' ! 5 = 0 \<and> pm_ram m' ! 6 = 3"
proof -
  let ?m = "mk_PerfectMemory (\<lambda>_. 0) 0x80000000 16"
  have "pm_wf ?m" "pm_base ?m = 0x80000000" "unat (pm_length ?m) = 16" "length (pm_ram ?m) = 16" "\<forall>j < 16. pm_ram ?m ! j = 0"
    by (simp_all add: pm_wf_def mk_PerfectMemory_def)
  with PerfectMemory_masked_write [of ?m "0x80000004" 3 "[1, 2, 3]" 5] obtain m' where
    "pm_Write_masked True ?m 0x80000004 [1, 2, 3] 3 5 = Inr m'"
    "\<forall>j < 16. pm_ram m' ! j = (if 4 \<le> j \<and> j - 4 < 3 \<and> bit (5 :: u64) (j - 4) then [1, 2, 3] ! (j - 4) else 0)" by (auto simp: Let_def)
  then show ?thesis by (intro exI [of _ m']) (simp add: bit_simps bit_numeral_rec)
qed

end
