(* ===== verification/Backend_System.thy ===== *)
theory Backend_System
  imports Renaming_Stage Reorder_Buffer
begin

text \<open>
  The renaming stage and the reorder buffer wired together as in \<open>config/py_file/topology.json\<close>: renamed
  groups go to the buffer, committed groups and credits come back. A port delivers in the order of the sends,
  so each connection is a queue of messages; the scheduler may run the handlers and deliver the messages in any
  order. The rest of the machine is the environment: the frontend sends new instructions, dispatch stage and
  load-store unit send any credits, executed instructions are reported in any order, and other units
  may write the instruction store except for what renaming and the buffer put there. No instruction is
  mispredicted; what a misprediction does is shown in the root theory.
\<close>

section \<open>Messages\<close>

definition rn_groups :: "rn_effect list \<Rightarrow> InstGroup list" where
  "rn_groups effs = concat (map (\<lambda>e. case e of renaming_following_inst_out g \<Rightarrow> [g] | _ \<Rightarrow> []) effs)"

definition rob_groups :: "rob_effect list \<Rightarrow> InstGroup list" where
  "rob_groups effs = concat (map (\<lambda>e. case e of Rob_cmt_inst_out g \<Rightarrow> [g] | _ \<Rightarrow> []) effs)"

definition rob_credits :: "rob_effect list \<Rightarrow> Credit list" where
  "rob_credits effs = concat (map (\<lambda>e. case e of rob_preceding_credit_out c \<Rightarrow> [c] | _ \<Rightarrow> []) effs)"

lemma concat_rn_groups: "concat (rn_groups effs) = rn_sent effs"
  by (induction effs) (auto simp: rn_groups_def rn_sent_def split: rn_effect.splits)

lemma rob_messages_simps [simp]:
  "rob_groups [] = []" "rob_groups (e # es) = (case e of Rob_cmt_inst_out g \<Rightarrow> [g] | _ \<Rightarrow> []) @ rob_groups es"
  "rob_groups (es @ es') = rob_groups es @ rob_groups es'"
  "rob_credits [] = []" "rob_credits (e # es) = (case e of rob_preceding_credit_out c \<Rightarrow> [c] | _ \<Rightarrow> []) @ rob_credits es"
  "rob_credits (es @ es') = rob_credits es @ rob_credits es'"
  by (simp_all add: rob_groups_def rob_credits_def)

section \<open>The system\<close>

record backend =
  be_heap :: inst_heap
  be_rn :: RenamingStage
  be_rob :: Rob
  to_rob :: "InstGroup list"
  to_rn :: "InstGroup list"
  credits_to_rn :: "Credit list"

text \<open>The instructions in the system, in program order; those behind renaming are the renamed ones.\<close>

definition be_renamed :: "backend \<Rightarrow> inst_ptr list" where
  "be_renamed b = concat (to_rn b) @ rob_insts (be_rob b) @ concat (to_rob b)"

definition be_live :: "backend \<Rightarrow> inst_ptr list" where
  "be_live b = be_renamed b @ renaming_stage_queue (be_rn b)"

text \<open>
  The second component of a step is what the frontend delivered and what the renaming stage was told to
  release.
\<close>

inductive be_step :: "backend \<Rightarrow> InstGroup \<times> InstGroup \<Rightarrow> backend \<Rightarrow> bool" where
  be_frontend: "distinct (be_live b @ g) \<Longrightarrow>
    \<forall>p \<in> set g. rn_regs_ok (be_heap b) (be_rn b) p \<and> \<not> getIsMissPrediction (be_heap b p) \<Longrightarrow>
    rn_AllocateInst (be_rn b) g = (s, effs) \<Longrightarrow> be_step b (g, []) (b\<lparr>be_rn := s\<rparr>)"
| be_rename: "RenameInst (be_heap b) (be_rn b) = Inr (h, s, effs) \<Longrightarrow>
    be_step b ([], []) (b\<lparr>be_heap := h, be_rn := s, to_rob := to_rob b @ rn_groups effs\<rparr>)"
| be_allocate: "to_rob b = g # gs \<Longrightarrow> AllocateRob (be_heap b) (be_rob b) g = Inr (h, r, effs) \<Longrightarrow>
    be_step b ([], []) (b\<lparr>be_heap := h, be_rob := r, to_rob := gs\<rparr>)"
| be_finish: "set g \<subseteq> set (rob_insts (be_rob b)) \<Longrightarrow> rob_Finish (be_heap b) (be_rob b) g = Inr r \<Longrightarrow>
    be_step b ([], []) (b\<lparr>be_rob := r\<rparr>)"
| be_commit: "rob_Commit (be_heap b) (be_rob b) = Inr (h, r, effs) \<Longrightarrow>
    be_step b ([], []) (b\<lparr>be_heap := h, be_rob := r, to_rn := to_rn b @ rob_groups effs,
      credits_to_rn := credits_to_rn b @ rob_credits effs\<rparr>)"
| be_release: "to_rn b = g # gs \<Longrightarrow> rn_RobCommit (be_heap b) (be_rn b) g = Inr (s, effs) \<Longrightarrow>
    be_step b ([], g) (b\<lparr>be_rn := s, to_rn := gs\<rparr>)"
| be_rob_credit: "credits_to_rn b = c # cs \<Longrightarrow> rn_AcceptRobCredit (be_rn b) c = (s, effs) \<Longrightarrow>
    be_step b ([], []) (b\<lparr>be_rn := s, credits_to_rn := cs\<rparr>)"
| be_dispatch_credit: "rn_AcceptDispatchCredit (be_rn b) c = (s, effs) \<Longrightarrow> be_step b ([], []) (b\<lparr>be_rn := s\<rparr>)"
| be_ldq_credit: "rn_AcceptLoadQueueCredit (be_rn b) c = (s, effs) \<Longrightarrow> be_step b ([], []) (b\<lparr>be_rn := s\<rparr>)"
| be_stq_credit: "rn_AcceptStoreQueueCredit (be_rn b) c = (s, effs) \<Longrightarrow> be_step b ([], []) (b\<lparr>be_rn := s\<rparr>)"
| be_store: "\<forall>p \<in> set (be_live b). rn_entry_of h p = rn_entry_of (be_heap b) p
      \<and> getRobTag (h p) = getRobTag (be_heap b p) \<and> \<not> getIsMissPrediction (h p)
      \<and> getIsaRs1 (h p) = getIsaRs1 (be_heap b p) \<and> getIsaRs2 (h p) = getIsaRs2 (be_heap b p) \<Longrightarrow>
    be_step b ([], []) (b\<lparr>be_heap := h\<rparr>)"

text \<open>At startup the buffer sends its depth as credit.\<close>

inductive be_start :: "RenamingParameter \<Rightarrow> RobParameter \<Rightarrow> backend \<Rightarrow> bool" where
  "mk_RenamingStage p = Inr s \<Longrightarrow> be_start p q \<lparr>be_heap = h, be_rn = s, be_rob = mk_Rob q, to_rob = [],
     to_rn = [], credits_to_rn = rob_credits (rob_InitCredit (mk_Rob q))\<rparr>"

text \<open>A run, with all instructions delivered and all instructions released so far.\<close>

inductive be_run :: "RenamingParameter \<Rightarrow> RobParameter \<Rightarrow> inst_ptr list \<Rightarrow> inst_ptr list \<Rightarrow> backend \<Rightarrow> bool" for p q where
  run_start: "be_start p q b \<Longrightarrow> be_run p q [] [] b"
| run_step: "be_run p q ins outs b \<Longrightarrow> be_step b (g, r) b' \<Longrightarrow> be_run p q (ins @ g) (outs @ r) b'"

section \<open>The invariant\<close>

definition be_inv :: "nat \<Rightarrow> nat \<Rightarrow> backend \<Rightarrow> bool" where
  "be_inv P D b \<longleftrightarrow> rn_inv P (be_rn b) (map (rn_entry_of (be_heap b)) (be_renamed b))
   \<and> distinct (be_live b)
   \<and> rob_good (be_heap b) (be_rob b)
   \<and> stall_cycle_count (be_rob b) \<le> 999
   \<and> unat (depth (rob_queue (be_rob b))) = D
   \<and> unat (rn_rob_credit (be_rn b)) + sum_credits (credits_to_rn b)
       + length (rob_insts (be_rob b)) + length (concat (to_rob b)) = D
   \<and> (\<forall>p \<in> set (be_live b). \<not> getIsMissPrediction (be_heap b p))
   \<and> (\<forall>p \<in> set (renaming_stage_queue (be_rn b)). rn_regs_ok (be_heap b) (be_rn b) p)"


section \<open>Each step keeps the invariant\<close>

lemma RenameInstImp_miss:
  "RenameInstImp h s p = Inr (h', s') \<Longrightarrow> getIsMissPrediction (h' q) = getIsMissPrediction (h q)"
  by (auto simp: RenameInstImp_def Let_def result_simps on_inst_apply split: if_splits)

lemma RenameInst_loop_miss:
  "RenameInst_loop n h s g lg = Inr (h', s', g', lg') \<Longrightarrow> getIsMissPrediction (h' q) = getIsMissPrediction (h q)"
proof (induction n arbitrary: h s g lg)
  case (Suc n)
  show ?case
  proof (cases "renaming_stage_queue s = [] \<or> fl_IsEmpty (rn_free_list s)")
    case False
    then obtain p ps where q: "renaming_stage_queue s = p # ps" "free_list (rn_free_list s) \<noteq> []"
      by (cases "renaming_stage_queue s") (auto simp: fl_IsEmpty_def)
    with Suc.prems obtain h1 s1 where i: "RenameInstImp h s p = Inr (h1, s1)"
      by (auto simp: bindE_eq_Inr fl_IsEmpty_def)
    have "getIsMissPrediction (h' q) = getIsMissPrediction (h1 q)"
      by (rule Suc.IH) (use Suc.prems RenameInst_loop_Suc [OF q i] in simp)
    with RenameInstImp_miss [OF i] show ?thesis by simp
  qed (use Suc.prems in auto)
qed simp

lemma RenameInst_miss:
  "RenameInst h s = Inr (h', s', effs) \<Longrightarrow> getIsMissPrediction (h' q) = getIsMissPrediction (h q)"
  by (auto simp: RenameInst_def Let_def bindE_eq_Inr dest: RenameInst_loop_miss [where q = q] split: if_splits)

text \<open>A change of the store that leaves alone what the invariant reads.\<close>

lemma rn_entries_cong:
  "\<forall>p \<in> set ps. rn_entry_of h' p = rn_entry_of h p \<Longrightarrow> map (rn_entry_of h') ps = map (rn_entry_of h) ps"
  by simp

lemma rob_good_heap:
  "rob_good h r \<Longrightarrow> \<forall>p \<in> set (rob_insts r). getRobTag (h' p) = getRobTag (h p) \<Longrightarrow> rob_good h' r"
  by (auto simp: rob_good_def rob_tagged_def)

lemma be_inv_frontend:
  assumes "be_inv P D b" "distinct (be_live b @ g)"
    and "\<forall>p \<in> set g. rn_regs_ok (be_heap b) (be_rn b) p \<and> \<not> getIsMissPrediction (be_heap b p)"
    and "rn_AllocateInst (be_rn b) g = (s, effs)"
  shows "be_inv P D (b\<lparr>be_rn := s\<rparr>) \<and> be_live (b\<lparr>be_rn := s\<rparr>) = be_live b @ g"
proof -
  have s: "s = (be_rn b)\<lparr>renaming_stage_queue := renaming_stage_queue (be_rn b) @ g\<rparr>"
    using assms(4) rn_AllocateInst_queue [of "be_rn b" g] by simp
  have r: "be_renamed (b\<lparr>be_rn := s\<rparr>) = be_renamed b" by (simp add: be_renamed_def)
  then have l: "be_live (b\<lparr>be_rn := s\<rparr>) = be_live b @ g" by (simp add: be_live_def s)
  have i: "rn_inv P s Q = rn_inv P (be_rn b) Q" for Q by (rule rn_inv_cong) (simp_all add: s)
  from assms(1-3) show ?thesis
    unfolding be_inv_def l r by (auto simp: i) (auto simp: s rn_regs_ok_def)
qed

lemma be_inv_store:
  assumes "be_inv P D b"
    and "\<forall>p \<in> set (be_live b). rn_entry_of h p = rn_entry_of (be_heap b) p
      \<and> getRobTag (h p) = getRobTag (be_heap b p) \<and> \<not> getIsMissPrediction (h p)
      \<and> getIsaRs1 (h p) = getIsaRs1 (be_heap b p) \<and> getIsaRs2 (h p) = getIsaRs2 (be_heap b p)"
  shows "be_inv P D (b\<lparr>be_heap := h\<rparr>)"
proof -
  have r: "be_renamed (b\<lparr>be_heap := h\<rparr>) = be_renamed b" "be_live (b\<lparr>be_heap := h\<rparr>) = be_live b"
    by (simp_all add: be_live_def be_renamed_def)
  have e: "map (rn_entry_of h) (be_renamed b) = map (rn_entry_of (be_heap b)) (be_renamed b)"
    by (rule rn_entries_cong) (use assms(2) in \<open>simp add: be_live_def\<close>)
  have "rn_inv P (be_rn b) (map (rn_entry_of h) (be_renamed b))"
    unfolding e using assms(1) by (simp add: be_inv_def)
  moreover have "rob_good h (be_rob b)"
    by (rule rob_good_heap [of "be_heap b"]) (use assms in \<open>auto simp: be_inv_def be_live_def be_renamed_def\<close>)
  moreover have "rn_regs_ok h (be_rn b) p = rn_regs_ok (be_heap b) (be_rn b) p" if "p \<in> set (be_live b)" for p
    using assms(2) that by (simp add: rn_regs_ok_def rn_entry_of_def)
  ultimately show ?thesis using assms unfolding be_inv_def r by (simp add: be_live_def)
qed

lemma be_inv_rename:
  assumes "be_inv P D b" "RenameInst (be_heap b) (be_rn b) = Inr (h, s, effs)"
  defines "b' \<equiv> b\<lparr>be_heap := h, be_rn := s, to_rob := to_rob b @ rn_groups effs\<rparr>"
  shows "be_inv P D b' \<and> be_live b' = be_live b"
proof -
  let ?q = "renaming_stage_queue (be_rn b)"
  have inv: "rn_inv P (be_rn b) (map (rn_entry_of (be_heap b)) (be_renamed b))" "distinct ?q"
      "\<forall>p \<in> set ?q. rn_regs_ok (be_heap b) (be_rn b) p"
    using assms(1) by (simp_all add: be_inv_def be_live_def)
  from RenameInst_ok [OF inv] assms(2) obtain k where
    k: "rn_sent effs = take k ?q" and post: "rn_loop_post P (be_heap b) (be_rn b)
      (map (rn_entry_of (be_heap b)) (be_renamed b)) (unat (rn_produce_inst_num (be_rn b))) k h s" by auto
  have le: "k \<le> unat (rn_produce_inst_num (be_rn b))" "k \<le> length ?q" "renaming_stage_queue s = drop k ?q"
      "rt_ok (rn_renaming_table s) = rt_ok (rn_renaming_table (be_rn b))" "\<forall>q. q \<notin> set (take k ?q) \<longrightarrow> h q = be_heap b q"
      "rn_rob_credit s = rn_rob_credit (be_rn b) - word_of_nat k"
    using post by (auto simp: rn_loop_post_def rn_debited_def min_def)
  have r: "be_renamed b' = be_renamed b @ take k ?q"
    by (simp add: be_renamed_def b'_def concat_rn_groups k)
  then have l: "be_live b' = be_live b" by (simp add: be_live_def b'_def le(3))
  have d: "set (be_renamed b) \<inter> set ?q = {}" using assms(1) by (simp add: be_inv_def be_live_def)
  then have out: "h p = be_heap b p" if "p \<in> set (be_renamed b) \<union> set (drop k ?q)" for p
    using le(5) that set_take_disj_set_drop_if_distinct [OF inv(2) le_refl, of k] by (blast dest: in_set_takeD)
  have e: "map (rn_entry_of (be_heap b)) (be_renamed b) = map (rn_entry_of h) (be_renamed b)"
    by (rule rn_entries_cong) (simp add: rn_entry_of_def out)
  have i: "rn_inv P s (map (rn_entry_of h) (be_renamed b'))"
    using post [unfolded e] unfolding rn_loop_post_def r map_append by blast
  have g: "rob_good h (be_rob b)"
    by (rule rob_good_heap [of "be_heap b"]) (use assms(1) out in \<open>auto simp: be_inv_def be_renamed_def\<close>)
  have "rn_produce_inst_num (be_rn b) \<le> rn_rob_credit (be_rn b)"
    by (auto simp: rn_produce_inst_num_def Let_def min_def)
  then have "k \<le> unat (rn_rob_credit (be_rn b))" using le(1) by (simp add: word_le_nat_alt)
  then have c: "unat (rn_rob_credit s) + k = unat (rn_rob_credit (be_rn b))"
    unfolding le(6) by (simp add: unat_minus_of_nat)
  have "length (concat (to_rob b')) = length (concat (to_rob b)) + k"
    using le(2) by (simp add: b'_def concat_rn_groups k)
  moreover have "rn_regs_ok h s p" if "p \<in> set (drop k ?q)" for p
    using inv(3) out [of p] that le(4) by (auto simp: rn_regs_ok_def dest: in_set_dropD)
  ultimately show ?thesis
    using assms(1) i g c l RenameInst_miss [OF assms(2)] unfolding be_inv_def l by (simp add: b'_def le(3))
qed

lemma AllocateRob_frame:
  assumes "foldE AllocateRob_one (h, r) g = Inr (h', r')"
  shows "rn_entry_of h' p = rn_entry_of h p \<and> getIsMissPrediction (h' p) = getIsMissPrediction (h p)
    \<and> getIsaRs1 (h' p) = getIsaRs1 (h p) \<and> getIsaRs2 (h' p) = getIsaRs2 (h p)
    \<and> stall_cycle_count r' = stall_cycle_count r"
  using assms
proof (induction g arbitrary: h r)
  case (Cons q g)
  then obtain h1 r1 where a: "AllocateRob_one (h, r) q = Inr (h1, r1)" "foldE AllocateRob_one (h1, r1) g = Inr (h', r')"
    by (auto simp: bindE_eq_Inr)
  from a(1) obtain t w where "h1 = on_inst q (setRobTag t) h" "r1 = r\<lparr>rob_queue := w\<rparr>"
    by (auto simp: AllocateRob_one_def bindE_eq_Inr)
  with Cons.IH [OF a(2)] show ?case by (simp add: rn_entry_of_def on_inst_apply)
qed simp

lemma be_inv_allocate:
  assumes "be_inv P D b" "to_rob b = g # gs"
  shows "\<exists>h r effs. AllocateRob (be_heap b) (be_rob b) g = Inr (h, r, effs)
    \<and> be_inv P D (b\<lparr>be_heap := h, be_rob := r, to_rob := gs\<rparr>)
    \<and> be_live (b\<lparr>be_heap := h, be_rob := r, to_rob := gs\<rparr>) = be_live b"
proof -
  have good: "rob_good (be_heap b) (be_rob b)" "distinct (rob_insts (be_rob b) @ g)"
      "length (rob_insts (be_rob b) @ g) \<le> unat (depth (rob_queue (be_rob b)))"
    using assms by (auto simp: be_inv_def be_live_def be_renamed_def)
  from AllocateRob_ok [OF good] obtain h r where
    a: "foldE AllocateRob_one (be_heap b, be_rob b) g = Inr (h, r)" "rob_good h r" "rob_insts r = rob_insts (be_rob b) @ g"
      "depth (rob_queue r) = depth (rob_queue (be_rob b))" by blast
  note f = AllocateRob_frame [OF a(1)]
  let ?b = "b\<lparr>be_heap := h, be_rob := r, to_rob := gs\<rparr>"
  have l: "be_renamed ?b = be_renamed b" "be_live ?b = be_live b"
    by (simp_all add: be_live_def be_renamed_def a(3) assms(2))
  have e: "map (rn_entry_of h) ps = map (rn_entry_of (be_heap b)) ps" for ps using f by simp
  have "be_inv P D ?b"
    using assms a(2-4) f unfolding be_inv_def l by (simp add: e rn_regs_ok_def rn_entry_of_def)
  with l a(1) show ?thesis by (auto simp: AllocateRob_def)
qed

lemma rob_silent:
  assumes "\<forall>e \<in> set es. (\<exists>g. e = Rob_lsu_wakeup_out g) \<or> (\<exists>n. e = print_heartbeat n) \<or> e = stopRunning \<or> e = commit_event 1"
  shows "rob_groups es = [] \<and> rob_credits es = []"
  using assms by (induction es) auto

text \<open>What a successful commit without misprediction does.\<close>

lemma rob_Commit_run:
  assumes "rob_good h r" "rob_no_miss h r" "stall_cycle_count r \<le> 999" "rob_Commit h r = Inr (h', r', effs)"
  shows "\<exists>ps. h' = clear_all ps h \<and> rob_good h' r' \<and> rob_insts r = ps @ rob_insts r' \<and> concat (rob_groups effs) = ps
    \<and> sum_credits (rob_credits effs) = length ps \<and> depth (rob_queue r') = depth (rob_queue r)
    \<and> stall_cycle_count r' \<le> 999 \<and> rob_issue_width r' = rob_issue_width r
    \<and> map rob_finish (lq_list (rob_queue r')) = drop (length ps) (map rob_finish (lq_list (rob_queue r)))"
proof -
  obtain ps k f where t: "rob_retired h (rob_width r) (lq_list (rob_queue r)) = (ps, k, f)"
    using prod_cases3 by blast
  have wf: "rob_wf r" "rob_entries_ok (lq_list (rob_queue r))" using assms(1) by (simp_all add: rob_good_def rob_wf_def)
  have "\<not> f" using rob_retired_no_miss [OF assms(2), of _ 0] t by simp
  then have k: "k = length ps" "map Some ps = take (length ps) (map rob_inst_ptr (lq_list (rob_queue r)))"
      "length ps \<le> length (lq_list (rob_queue r))"
    using rob_retired_prefix [OF t wf(2)] by auto
  have "ps \<noteq> [] \<or> stall_cycle_count r < 999"
    using rob_Commit_watchdog [OF wf(1)] t assms(3,4) by fastforce
  from rob_Commit_ok [OF wf(1) t this] \<open>\<not> f\<close> obtain r2 wakes beats ends where
    c: "rob_Commit h r = Inr (clear_all ps h, r2, wakes @ (if ps \<noteq> [] then [Rob_cmt_inst_out ps] else [])
        @ (let bg = filter (\<lambda>p. getFuType (h p) = FT_BRU) ps in if bg \<noteq> [] then [rob_bpu_inst_out bg] else [])
        @ (if ps \<noteq> [] then [rob_preceding_credit_out (word_of_nat (length ps))] else []) @ beats @ ends)"
      "rob_wf r2" "map rob_inst_ptr (lq_list (rob_queue r2)) = drop k (map rob_inst_ptr (lq_list (rob_queue r)))"
      "\<forall>i. lq_slot (rob_queue r2) i = lq_slot (rob_queue r) (i + k)" "depth (rob_queue r2) = depth (rob_queue r)"
      "stall_cycle_count r2 = (if ps \<noteq> [] then 0 else stall_cycle_count r + 1)"
      "\<forall>e \<in> set wakes. \<exists>g. e = Rob_lsu_wakeup_out g" "\<forall>e \<in> set beats. \<exists>n. e = print_heartbeat n"
      "\<forall>e \<in> set ends. e = stopRunning \<or> e = commit_event 1" "rob_issue_width r2 = rob_issue_width r"
      "map rob_finish (lq_list (rob_queue r2)) = drop k (map rob_finish (lq_list (rob_queue r)))" by auto
  note u = c(1) [unfolded assms(4) sum.inject prod.inject]
  have "map the (map rob_inst_ptr (lq_list (rob_queue r2))) = map the (drop k (map rob_inst_ptr (lq_list (rob_queue r))))"
      "map the (map Some ps) = map the (take k (map rob_inst_ptr (lq_list (rob_queue r))))"
    using c(3) k by simp_all
  then have i: "rob_insts r2 = drop k (rob_insts r)" "ps = take k (rob_insts r)"
    by (simp_all add: rob_insts_def comp_def drop_map take_map)
  have "rob_tagged h' r2"
    using assms(1) c(4) unfolding u [THEN conjunct1] rob_tagged_def rob_good_def i(1) clear_all_keeps
    by (auto simp: add.commute less_diff_conv)
  then have g: "rob_good h' r2" using assms(1) c(2) i(1) by (simp add: rob_good_def)
  have "unat (usage (rob_queue r)) < 2 ^ 32" by (rule less_le_trans [OF unsigned_less]) simp
  then have n: "unat (word_of_nat (length ps) :: u64) = length ps" using k(3) by (simp add: unat_of_nat)
  have "\<forall>e \<in> set (wakes @ beats @ ends). (\<exists>g. e = Rob_lsu_wakeup_out g) \<or> (\<exists>n. e = print_heartbeat n) \<or> e = stopRunning \<or> e = commit_event 1"
    unfolding set_append using c(7-9) by blast
  from rob_silent [OF this] have s: "rob_groups wakes = [] \<and> rob_credits wakes = []"
      "rob_groups beats = [] \<and> rob_credits beats = []" "rob_groups ends = [] \<and> rob_credits ends = []" by simp_all
  have "concat (rob_groups effs) = ps" "sum_credits (rob_credits effs) = length ps"
    using u s n by (auto simp: Let_def)
  moreover have "stall_cycle_count r2 \<le> 999"
    using c(6) \<open>ps \<noteq> [] \<or> stall_cycle_count r < 999\<close> unat_plus_one_less [of "stall_cycle_count r" 999]
    by (auto simp: word_le_nat_alt word_less_nat_alt)
  moreover have "rob_insts r = ps @ rob_insts r2" using i append_take_drop_id [of k "rob_insts r"] by metis
  moreover have "h' = clear_all ps h" "r' = r2" using u by blast+
  ultimately show ?thesis
    using g c(5,10) c(11) [unfolded k(1)] by (intro exI [of _ ps]) simp
qed

lemma rob_Commit_returns:
  assumes "rob_good h r" "stall_cycle_count r \<le> 999"
  shows "(\<exists>x. rob_Commit h r = Inr x) \<or> rob_Commit h r = Inl (SpartaAssert ''commit stall'')"
proof -
  obtain ps k f where t: "rob_retired h (rob_width r) (lq_list (rob_queue r)) = (ps, k, f)"
    using prod_cases3 by blast
  have wf: "rob_wf r" using assms(1) by (simp add: rob_good_def)
  show ?thesis
  proof (cases "ps \<noteq> [] \<or> stall_cycle_count r < 999")
    case True
    from rob_Commit_ok [OF wf t this] show ?thesis by blast
  next
    case False
    with rob_Commit_watchdog [OF wf] t assms(2) show ?thesis by fastforce
  qed
qed

lemma be_no_miss: "be_inv P D b \<Longrightarrow> rob_no_miss (be_heap b) (be_rob b)"
  by (auto simp: be_inv_def rob_no_miss_def be_live_def be_renamed_def)

lemma clear_all_isa:
  "rn_entry_of (clear_all ps h) q = rn_entry_of h q" "getIsaRs1 (clear_all ps h q) = getIsaRs1 (h q)"
  "getIsaRs2 (clear_all ps h q) = getIsaRs2 (h q)"
  by (induction ps arbitrary: h) (auto simp: clear_all_def on_inst_apply rn_entry_of_def)

lemma be_inv_commit:
  assumes "be_inv P D b" "rob_Commit (be_heap b) (be_rob b) = Inr (h, r, effs)"
  defines "b' \<equiv> b\<lparr>be_heap := h, be_rob := r, to_rn := to_rn b @ rob_groups effs,
      credits_to_rn := credits_to_rn b @ rob_credits effs\<rparr>"
  shows "be_inv P D b' \<and> be_live b' = be_live b"
proof -
  have "rob_good (be_heap b) (be_rob b)" "stall_cycle_count (be_rob b) \<le> 999" using assms(1) by (simp_all add: be_inv_def)
  from rob_Commit_run [OF this(1) be_no_miss [OF assms(1)] this(2) assms(2)] obtain ps where
    c: "h = clear_all ps (be_heap b)" "rob_good h r" "rob_insts (be_rob b) = ps @ rob_insts r" "concat (rob_groups effs) = ps"
      "sum_credits (rob_credits effs) = length ps" "depth (rob_queue r) = depth (rob_queue (be_rob b))"
      "stall_cycle_count r \<le> 999" by blast
  have l: "be_renamed b' = be_renamed b" "be_live b' = be_live b"
    by (simp_all add: be_live_def be_renamed_def b'_def c(3,4))
  have f: "getIsMissPrediction (h p) = getIsMissPrediction (be_heap b p)" for p by (simp only: c(1) clear_all_keeps)
  have f2: "rn_regs_ok h s p = rn_regs_ok (be_heap b) s p" "rn_entry_of h p = rn_entry_of (be_heap b) p" for p s
    using clear_all_isa [of ps "be_heap b" p] by (simp_all add: c(1) rn_regs_ok_def rn_entry_of_def)
  have e: "map (rn_entry_of h) qs = map (rn_entry_of (be_heap b)) qs" for qs using f2(2) by simp
  have "be_inv P D b'"
    using assms(1) c(2,5-7) f unfolding be_inv_def l by (simp add: b'_def e f2(1) c(3))
  with l show ?thesis by simp
qed

lemma rob_Finish_ok:
  assumes "rob_good h r" "set g \<subseteq> set (rob_insts r)"
  shows "\<exists>r'. rob_Finish h r g = Inr r' \<and> rob_good h r' \<and> rob_insts r' = rob_insts r
    \<and> stall_cycle_count r' = stall_cycle_count r \<and> depth (rob_queue r') = depth (rob_queue r)"
  using assms unfolding rob_Finish_def
proof (induction g arbitrary: r)
  case (Cons p g)
  then obtain i where i: "i < length (rob_insts r)" "p = rob_insts r ! i" by (auto simp: in_set_conv_nth)
  from rob_Finish_one_ok [OF Cons.prems(1) i(1)] obtain r1 where
    r1: "rob_Finish_one h r p = Inr r1" "rob_good h r1" "rob_insts r1 = rob_insts r"
      "r1 = r\<lparr>rob_queue := rob_queue r1\<rparr>" "depth (rob_queue r1) = depth (rob_queue r)" using i(2) by blast
  have "stall_cycle_count r1 = stall_cycle_count r" by (subst r1(4)) simp
  with r1 Cons.prems(2) Cons.IH [OF r1(2)] show ?case by auto
qed simp

lemma be_inv_finish:
  assumes "be_inv P D b" "set g \<subseteq> set (rob_insts (be_rob b))"
  shows "\<exists>r. rob_Finish (be_heap b) (be_rob b) g = Inr r \<and> be_inv P D (b\<lparr>be_rob := r\<rparr>)
    \<and> be_live (b\<lparr>be_rob := r\<rparr>) = be_live b"
proof -
  have "rob_good (be_heap b) (be_rob b)" using assms(1) by (simp add: be_inv_def)
  from rob_Finish_ok [OF this assms(2)] obtain r where r: "rob_Finish (be_heap b) (be_rob b) g = Inr r"
    "rob_good (be_heap b) r" "rob_insts r = rob_insts (be_rob b)" "stall_cycle_count r = stall_cycle_count (be_rob b)"
    "depth (rob_queue r) = depth (rob_queue (be_rob b))" by blast
  have l: "be_renamed (b\<lparr>be_rob := r\<rparr>) = be_renamed b" "be_live (b\<lparr>be_rob := r\<rparr>) = be_live b"
    by (simp_all add: be_live_def be_renamed_def r(3))
  have "be_inv P D (b\<lparr>be_rob := r\<rparr>)" using assms(1) r(2-5) unfolding be_inv_def l by simp
  with l r(1) show ?thesis by blast
qed

lemma be_inv_release:
  assumes "be_inv P D b" "to_rn b = g # gs"
  shows "\<exists>s effs. rn_RobCommit (be_heap b) (be_rn b) g = Inr (s, effs) \<and> be_inv P D (b\<lparr>be_rn := s, to_rn := gs\<rparr>)
    \<and> (\<exists>t fl. s = (be_rn b)\<lparr>rn_free_list := fl, rn_renaming_table := t\<rparr> \<and> rt_ok t = rt_ok (rn_renaming_table (be_rn b)))
    \<and> be_live b = g @ be_live (b\<lparr>be_rn := s, to_rn := gs\<rparr>)"
proof -
  let ?h = "be_heap b" and ?rest = "concat gs @ rob_insts (be_rob b) @ concat (to_rob b)"
  have "rn_inv P (be_rn b) (map (rn_entry_of ?h) g @ map (rn_entry_of ?h) ?rest)"
    using assms by (simp add: be_inv_def be_renamed_def)
  from rn_RobCommit_ok [OF this, of "[]"] obtain t fl effs where
    c: "rn_RobCommit ?h (be_rn b) g = Inr ((be_rn b)\<lparr>rn_free_list := fl, rn_renaming_table := t\<rparr>, effs)"
      "rn_inv P ((be_rn b)\<lparr>rn_free_list := fl, rn_renaming_table := t\<rparr>) (map (rn_entry_of ?h) ?rest)"
      "rt_ok t = rt_ok (rn_renaming_table (be_rn b))" unfolding rn_RobCommit_def by blast
  let ?s = "(be_rn b)\<lparr>rn_free_list := fl, rn_renaming_table := t\<rparr>"
  let ?b = "b\<lparr>be_rn := ?s, to_rn := gs\<rparr>"
  have l: "be_renamed ?b = ?rest" "be_live b = g @ be_live ?b" by (simp_all add: be_live_def be_renamed_def assms(2))
  have "rn_regs_ok ?h ?s p = rn_regs_ok ?h (be_rn b) p" for p by (simp add: rn_regs_ok_def c(3))
  then have "be_inv P D ?b" using assms(1) c(2) l(2) unfolding be_inv_def l(1) by simp
  with l(2) c(1,3) show ?thesis by blast
qed

lemma be_inv_credit:
  assumes "be_inv P D b" "credits_to_rn b = c # cs" "rn_AcceptRobCredit (be_rn b) c = (s, effs)"
  shows "be_inv P D (b\<lparr>be_rn := s, credits_to_rn := cs\<rparr>) \<and> be_live (b\<lparr>be_rn := s, credits_to_rn := cs\<rparr>) = be_live b"
proof -
  have s: "s = (be_rn b)\<lparr>rn_rob_credit := rn_rob_credit (be_rn b) + c\<rparr>" using assms(3) by (simp add: rn_AcceptRobCredit_def)
  have "D < 2 ^ 32" using assms(1) unsigned_less [of "depth (rob_queue (be_rob b))"] by (auto simp: be_inv_def)
  moreover have "unat (rn_rob_credit (be_rn b)) + unat c \<le> D" using assms(1,2) by (auto simp: be_inv_def)
  ultimately have "unat (rn_rob_credit (be_rn b) + c) = unat (rn_rob_credit (be_rn b)) + unat c"
    by (simp add: unat_word_ariths)
  with assms(1,2) show ?thesis
    by (simp add: be_inv_def be_live_def be_renamed_def s rn_regs_ok_def)
qed

lemma be_inv_other_credit:
  assumes "be_inv P D b" "renaming_stage_queue s = renaming_stage_queue (be_rn b)" "rn_free_list s = rn_free_list (be_rn b)"
    and "rn_renaming_table s = rn_renaming_table (be_rn b)" "rn_rob_credit s = rn_rob_credit (be_rn b)"
  shows "be_inv P D (b\<lparr>be_rn := s\<rparr>) \<and> be_live (b\<lparr>be_rn := s\<rparr>) = be_live b"
  using assms rn_inv_cong [OF assms(3,4)] by (simp add: be_inv_def be_live_def be_renamed_def rn_regs_ok_def)

lemma be_step_inv:
  assumes "be_inv P D b" "be_step b (g, r) b'"
  shows "be_inv P D b' \<and> be_live b @ g = r @ be_live b'"
  using assms(2)
proof cases
  case (be_frontend s effs)
  from be_inv_frontend [OF assms(1) be_frontend(3-5)] be_frontend(1,2) show ?thesis by simp
next
  case (be_rename h s effs)
  with be_inv_rename [OF assms(1)] show ?thesis by simp
next
  case (be_allocate g gs h s effs)
  with be_inv_allocate [OF assms(1), of g gs] show ?thesis by auto
next
  case (be_finish g s)
  with be_inv_finish [OF assms(1), of g] show ?thesis by auto
next
  case (be_commit h s effs)
  with be_inv_commit [OF assms(1)] show ?thesis by simp
next
  case (be_release gs s effs)
  with be_inv_release [OF assms(1), of r gs] show ?thesis by auto
next
  case (be_rob_credit c cs s effs)
  with be_inv_credit [OF assms(1)] show ?thesis by simp
next
  case (be_dispatch_credit c s effs)
  with be_inv_other_credit [OF assms(1), of s] show ?thesis
    by (auto simp: rn_AcceptDispatchCredit_def)
next
  case (be_ldq_credit c s effs)
  with be_inv_other_credit [OF assms(1), of s] show ?thesis
    by (auto simp: rn_AcceptLoadQueueCredit_def)
next
  case (be_stq_credit c s effs)
  with be_inv_other_credit [OF assms(1), of s] show ?thesis
    by (auto simp: rn_AcceptStoreQueueCredit_def)
next
  case (be_store h)
  with be_inv_store [OF assms(1)] show ?thesis by (auto simp: be_live_def be_renamed_def)
qed

lemma be_start_inv:
  assumes "be_start p q b" "rn_params_ok p" "0 < robp_queue_depth q"
  shows "be_inv (unat (rp_phy_reg_num p)) (unat (robp_queue_depth q)) b \<and> be_live b = []"
  using assms(1)
proof cases
  case (1 s h)
  from rn_inv_init [OF assms(2)] 1(2) have "rn_inv (unat (rp_phy_reg_num p)) s []" "renaming_stage_queue s = []" by auto
  moreover have "rn_rob_credit s = 0" using 1(2) by (auto simp: mk_RenamingStage_def bindE_eq_Inr)
  moreover note mk_Rob_good [OF assms(3)]
  ultimately show ?thesis
    using 1 by (simp add: be_inv_def be_live_def be_renamed_def rob_InitCredit_def) (simp add: mk_Rob_def)
qed

lemma be_run_inv:
  assumes "be_run p q ins outs b" "rn_params_ok p" "0 < robp_queue_depth q"
  shows "be_inv (unat (rp_phy_reg_num p)) (unat (robp_queue_depth q)) b \<and> ins = outs @ be_live b"
  using assms(1)
proof (induction rule: be_run.induct)
  case (run_start b)
  with be_start_inv [OF _ assms(2,3)] show ?case by simp
next
  case (run_step ins outs b g r b')
  with be_step_inv [of _ _ b g r b'] show ?case by auto
qed

section \<open>Properties\<close>

text \<open>
  (C11) Renaming stage and reorder buffer work together without failure as long as no instruction is mispredicted, so
  that no flush arrives: the steps contain neither mispredicted instructions nor the two flush handlers, and
  (C5) shows a failure behind a mispredicted commit. After any interleaving of the other handlers, message
  deliveries and steps of the environment: renaming returns; the buffer takes the next renamed group, so it
  never overflows; completing instructions of the buffer returns; the renaming stage takes the next committed
  group, so no register is released twice; and a commit returns or is stopped by the watchdog that allows 1000
  cycles without retirement. This closes the assumptions each of the two makes about the other: the buffer
  commits in the order of renaming, and the renaming stage keeps to the credits it was given.
\<close>

theorem Backend_never_fails:
  assumes "rn_params_ok p" "0 < robp_queue_depth q" "be_run p q ins outs b"
  shows "(\<exists>x. RenameInst (be_heap b) (be_rn b) = Inr x)
    \<and> (\<forall>g gs. to_rob b = g # gs \<longrightarrow> (\<exists>x. AllocateRob (be_heap b) (be_rob b) g = Inr x))
    \<and> (\<forall>g. set g \<subseteq> set (rob_insts (be_rob b)) \<longrightarrow> (\<exists>x. rob_Finish (be_heap b) (be_rob b) g = Inr x))
    \<and> (\<forall>g gs. to_rn b = g # gs \<longrightarrow> (\<exists>x. rn_RobCommit (be_heap b) (be_rn b) g = Inr x))
    \<and> ((\<exists>x. rob_Commit (be_heap b) (be_rob b) = Inr x)
       \<or> rob_Commit (be_heap b) (be_rob b) = Inl (SpartaAssert ''commit stall''))"
proof -
  obtain P D where inv: "be_inv P D b" using be_run_inv [OF assms(3,1,2)] by blast
  have "\<exists>x. RenameInst (be_heap b) (be_rn b) = Inr x"
    using inv RenameInst_ok [of P "be_rn b" _ "be_heap b"] unfolding be_inv_def be_live_def by (metis distinct_append)
  moreover have "\<exists>x. rob_Commit (be_heap b) (be_rob b) = Inr x"
    if "rob_Commit (be_heap b) (be_rob b) \<noteq> Inl (SpartaAssert ''commit stall'')"
    using rob_Commit_returns [of "be_heap b" "be_rob b"] inv that unfolding be_inv_def by blast
  ultimately show ?thesis
    using be_inv_allocate [OF inv] be_inv_finish [OF inv] be_inv_release [OF inv] by metis
qed

text \<open>A run: the buffer's credits arrive, then two instructions.\<close>

definition be_example_rob :: RobParameter where
  "be_example_rob = \<lparr>robp_issue_width = 4, robp_queue_depth = 8, robp_retire_heartbeat = 10000,
     robp_num_insts_to_retire = 0\<rparr>"

definition be_example_heap :: inst_heap where
  "be_example_heap p = setIsaRs1 1 (setIsaRs2 2 (setIsaRd 3 (setIsMissPrediction False (rob_example_heap p))))"

lemma be_example_run:
  "\<exists>b. be_run rn_example be_example_rob [0, 1] [] b \<and> renaming_stage_queue (be_rn b) = [0, 1]
     \<and> be_rob b = rob_example \<and> to_rob b = [] \<and> to_rn b = [] \<and> rn_rob_credit (be_rn b) = 8"
proof -
  from rn_inv_init [OF rn_example_ok] obtain s where s: "mk_RenamingStage rn_example = Inr s"
    "renaming_stage_queue s = []" "rn_renaming_table s = mk_RenamingTable 32 0" by (auto simp: rn_example_def)
  then have c: "rn_rob_credit s = 0" by (auto simp: mk_RenamingStage_def bindE_eq_Inr)
  define b where "b = \<lparr>be_heap = be_example_heap, be_rn = s, be_rob = mk_Rob be_example_rob, to_rob = [],
    to_rn = [], credits_to_rn = rob_credits (rob_InitCredit (mk_Rob be_example_rob))\<rparr>"
  have "be_run rn_example be_example_rob [] [] b"
    unfolding b_def by (rule be_run.run_start, rule be_start.intros, rule s(1))
  moreover have "be_step b ([], []) (b\<lparr>be_rn := s\<lparr>rn_rob_credit := 8\<rparr>, credits_to_rn := []\<rparr>)" (is "be_step b _ ?b1")
    by (rule be_step.be_rob_credit [where c = 8 and effs = "[rename_event 0]"])
      (simp_all add: b_def rob_InitCredit_def mk_Rob_def be_example_rob_def rn_AcceptRobCredit_def c)
  ultimately have r1: "be_run rn_example be_example_rob ([] @ []) ([] @ []) ?b1" by (rule be_run.run_step)
  have rob: "rob_insts (mk_Rob be_example_rob) = []"
    using mk_Rob_good [of be_example_rob be_example_heap] by (simp add: be_example_rob_def)
  have "be_step ?b1 ([0, 1], []) (?b1\<lparr>be_rn := fst (rn_AllocateInst (be_rn ?b1) [0, 1])\<rparr>)" (is "be_step _ _ ?b2")
    by (rule be_step.be_frontend [where effs = "[rename_event 0]"])
      (simp_all add: b_def be_live_def be_renamed_def rob s(2,3) rn_regs_ok_def rt_ok_def mk_RenamingTable_ok
        be_example_heap_def rn_AllocateInst_def)
  with r1 have "be_run rn_example be_example_rob (([] @ []) @ [0, 1]) (([] @ []) @ []) ?b2" by (rule be_run.run_step)
  then show ?thesis
    by (intro exI [of _ ?b2]) (simp add: rn_AllocateInst_queue s(2) b_def rob_example_def be_example_rob_def)
qed

lemma be_example_rob_ok: "0 < robp_queue_depth be_example_rob"
  by (simp add: be_example_rob_def)

theorem Backend_never_fails_witness:
  "\<exists>b. be_run rn_example be_example_rob [0, 1] [] b \<and> renaming_stage_queue (be_rn b) = [0, 1]
     \<and> (\<exists>x. RenameInst (be_heap b) (be_rn b) = Inr x)"
  using be_example_run Backend_never_fails [OF rn_example_ok be_example_rob_ok] by blast

text \<open>
  (C13) As long as no instruction is mispredicted, so that no flush arrives, instructions retire in program order and
  exactly once; (C5) shows a mispredicted instruction that is committed twice. The instructions the frontend delivered are, in order,
  those whose registers were released, those in committed groups on their way, those in the buffer, those renamed and
  on their way to it, and those that wait for renaming; and the buffer's places are its credits with the renaming
  stage or on their way, its instructions, and the renamed instructions on their way.
\<close>

theorem Backend_in_order:
  assumes "rn_params_ok p" "0 < robp_queue_depth q" "be_run p q ins outs b"
  shows "ins = outs @ concat (to_rn b) @ rob_insts (be_rob b) @ concat (to_rob b) @ renaming_stage_queue (be_rn b)
    \<and> unat (rn_rob_credit (be_rn b)) + sum_credits (credits_to_rn b) + length (rob_insts (be_rob b))
        + length (concat (to_rob b)) = unat (robp_queue_depth q)"
  using be_run_inv [OF assms(3,1,2)] by (simp add: be_inv_def be_live_def be_renamed_def)

theorem Backend_in_order_witness:
  "\<exists>b. be_run rn_example be_example_rob [0, 1] [] b \<and> [0, 1] = renaming_stage_queue (be_rn b)
     \<and> unat (rn_rob_credit (be_rn b)) + sum_credits (credits_to_rn b) = 8"
proof -
  obtain b where b: "be_run rn_example be_example_rob [0, 1] [] b" "to_rob b = []" "to_rn b = []" "be_rob b = rob_example"
    using be_example_run by blast
  from Backend_in_order [OF rn_example_ok be_example_rob_ok b(1)] b show ?thesis
    by (intro exI [of _ b]) (simp add: rob_example_good(2) be_example_rob_def)
qed

end
