(* ===== verification/Backend_Drain.thy ===== *)
theory Backend_Drain
  imports Backend_System
begin

text \<open>
  Renaming stage and reorder buffer cannot block each other. Here the handlers of \<open>rename_event\<close> and
  \<open>commit_event\<close> run only when their event is scheduled, and the dispatch stage and the load-store unit grant only
  the credits they owe: their places at the start, and one for each instruction they got since. Whatever happened so
  far, without mispredictions and flushes, the instructions in the system can still be renamed, completed, committed and
  released. The run that shows it empties the connections and the buffer, then renames, and repeats.
\<close>

section \<open>What stays constant\<close>

definition be_config :: "RenamingParameter \<Rightarrow> RobParameter \<Rightarrow> backend \<Rightarrow> bool" where
  "be_config p q b \<longleftrightarrow> rn_issue_width (be_rn b) = ucast (rp_issue_width p)
   \<and> rob_issue_width (be_rob b) = ucast (robp_issue_width q)
   \<and> isa_reg_num (rn_renaming_table (be_rn b)) = ucast (rp_isa_reg_num p)
   \<and> num_insts_to_retire (be_rob b) = robp_num_insts_to_retire q
   \<and> rn_is_perfect_lsu (be_rn b) = rp_is_perfect_lsu p"

lemma rt_ok_isa: "rt_ok t = rt_ok t' \<Longrightarrow> isa_reg_num t = isa_reg_num t'"
  by (metis rt_ok_def order_less_irrefl linorder_neqE)

lemma rob_Finish_width: "rob_Finish h r g = Inr r' \<Longrightarrow> rob_issue_width r' = rob_issue_width r
    \<and> num_insts_to_retire r' = num_insts_to_retire r"
  by (induction g arbitrary: r) (auto simp: rob_Finish_def rob_Finish_one_def bindE_eq_Inr)

lemma AllocateRob_width: "foldE AllocateRob_one (h, r) g = Inr (h', r') \<Longrightarrow> rob_issue_width r' = rob_issue_width r
    \<and> num_insts_to_retire r' = num_insts_to_retire r"
proof (induction g arbitrary: h r)
  case (Cons p g)
  then obtain h1 r1 where "AllocateRob_one (h, r) p = Inr (h1, r1)" "foldE AllocateRob_one (h1, r1) g = Inr (h', r')"
    by (auto simp: bindE_eq_Inr)
  with Cons.IH [of h1 r1] show ?case by (auto simp: AllocateRob_one_def bindE_eq_Inr)
qed simp

text \<open>A commit that leaves instructions in the buffer schedules the next one, if the run has no limit.\<close>

lemma rob_Commit_reschedules:
  assumes "rob_good h r" "stall_cycle_count r \<le> 999" "rob_Commit h r = Inr (h', r', effs)"
  shows "num_insts_to_retire r' = num_insts_to_retire r
    \<and> (num_insts_to_retire r = 0 \<and> rob_insts r' \<noteq> [] \<longrightarrow> commit_event 1 \<in> set effs)"
proof -
  obtain ps k f where t: "rob_retired h (rob_width r) (lq_list (rob_queue r)) = (ps, k, f)"
    using prod_cases3 by blast
  have wf: "rob_wf r" using assms(1) by (simp add: rob_good_def)
  have "ps \<noteq> [] \<or> stall_cycle_count r < 999"
    using rob_Commit_watchdog [OF wf] t assms(2,3) by fastforce
  from rob_Commit_ok [OF wf t this] obtain r2 wakes beats where
    c: "rob_Commit h r = Inr (clear_all ps h, r2, (if f then [rob_redirect_pc_inst_out (last ps)] else []) @ wakes
      @ (if ps \<noteq> [] then [Rob_cmt_inst_out ps] else [])
      @ (let bg = filter (\<lambda>p. getFuType (h p) = FT_BRU) ps in if bg \<noteq> [] then [rob_bpu_inst_out bg] else [])
      @ (if ps \<noteq> [] then [rob_preceding_credit_out (word_of_nat (length ps))] else []) @ beats
      @ (if num_retired r2 \<ge> ucast (num_insts_to_retire r) \<and> num_insts_to_retire r \<noteq> 0 then [stopRunning]
         else (if usage (rob_queue r2) \<noteq> 0 then [commit_event 1] else []) @ (if f then [rob_flush_out 1] else [])))"
      "num_insts_to_retire r2 = num_insts_to_retire r" by blast
  note u = c(1) [unfolded assms(3) sum.inject prod.inject]
  have "usage (rob_queue r2) \<noteq> 0" if "rob_insts r2 \<noteq> []"
    using that lq_list_eq_Nil [of "rob_queue r2"] by (auto simp: rob_insts_def)
  with u c(2) show ?thesis by auto
qed

lemma be_step_config:
  assumes "be_inv P D b" "be_step b (g, r) b'" "be_config p q b"
  shows "be_config p q b'"
  using assms(2)
proof cases
  case (be_frontend s effs)
  then have "s = (be_rn b)\<lparr>renaming_stage_queue := renaming_stage_queue (be_rn b) @ g\<rparr>"
    using rn_AllocateInst_queue [of "be_rn b" g] by simp
  with be_frontend assms(3) show ?thesis by (simp add: be_config_def)
next
  case (be_rename h s effs)
  have "rn_inv P (be_rn b) (map (rn_entry_of (be_heap b)) (be_renamed b))" "distinct (renaming_stage_queue (be_rn b))"
      "\<forall>p \<in> set (renaming_stage_queue (be_rn b)). rn_regs_ok (be_heap b) (be_rn b) p"
    using assms(1) by (simp_all add: be_inv_def be_live_def)
  from RenameInst_ok [OF this] be_rename have "rn_issue_width s = rn_issue_width (be_rn b)"
      "rt_ok (rn_renaming_table s) = rt_ok (rn_renaming_table (be_rn b))" "rn_is_perfect_lsu s = rn_is_perfect_lsu (be_rn b)"
    by (auto simp: rn_loop_post_def rn_debited_def)
  with be_rename(3) assms(3) rt_ok_isa [of "rn_renaming_table s"] show ?thesis by (simp add: be_config_def)
next
  case (be_allocate g gs h s effs)
  then show ?thesis
    using assms(3) AllocateRob_width [of "be_heap b" "be_rob b" g] by (auto simp: be_config_def AllocateRob_def bindE_eq_Inr)
next
  case (be_finish g s)
  with assms(3) rob_Finish_width show ?thesis by (simp add: be_config_def)
next
  case (be_commit h s effs)
  with rob_Commit_run [OF _ be_no_miss [OF assms(1)], of h s effs] rob_Commit_reschedules [of "be_heap b" "be_rob b" h s effs]
    assms(1,3) show ?thesis by (auto simp: be_config_def be_inv_def)
next
  case (be_release gs s effs)
  with be_inv_release [OF assms(1), of r gs] obtain t fl where
    s: "s = (be_rn b)\<lparr>rn_free_list := fl, rn_renaming_table := t\<rparr>" "rt_ok t = rt_ok (rn_renaming_table (be_rn b))" by auto
  from be_release(2) assms(3) rt_ok_isa [OF s(2)] show ?thesis by (simp add: be_config_def s(1))
qed (use assms(3) in \<open>auto simp: be_config_def rn_AcceptRobCredit_def rn_AcceptDispatchCredit_def
    rn_AcceptLoadQueueCredit_def rn_AcceptStoreQueueCredit_def\<close>)

lemma be_run_config:
  assumes "be_run p q ins outs b" "rn_params_ok p" "0 < robp_queue_depth q"
  shows "be_config p q b"
  using assms(1)
proof (induction rule: be_run.induct)
  case (run_start b)
  then show ?case
    by cases (auto simp: be_config_def mk_RenamingStage_def mk_Rob_def mk_RenamingTable_ok bindE_eq_Inr)
next
  case (run_step ins outs b g r b')
  with be_run_inv [OF run_step.hyps(1) assms(2,3)] show ?case by (blast intro: be_step_config)
qed

section \<open>Scheduled handlers and owed credits\<close>

text \<open>
  The credits the dispatch stage and the two queues of the load-store unit have at the start, and owe. A run of a
  handler uses up one request for it; a second one may be pending, since requests for this and for the next
  cycle are kept apart.
\<close>

record owed_credits =
  owed_dispatch :: nat
  owed_ldq :: nat
  owed_stq :: nat

record driven =
  dr_sys :: backend
  rename_due :: bool
  commit_due :: bool
  dr_owed :: owed_credits

definition rn_wakes :: "rn_effect list \<Rightarrow> bool" where
  "rn_wakes effs \<longleftrightarrow> (\<exists>n. rename_event n \<in> set effs)"

definition rob_wakes :: "rob_effect list \<Rightarrow> bool" where
  "rob_wakes effs \<longleftrightarrow> (\<exists>n. commit_event n \<in> set effs)"

text \<open>Every renamed instruction takes a place in the dispatch stage, a load or store also in the load-store unit.\<close>

definition owe :: "inst_heap \<Rightarrow> bool \<Rightarrow> inst_ptr list \<Rightarrow> owed_credits \<Rightarrow> owed_credits" where
  "owe h perfect ps w = \<lparr>owed_dispatch = owed_dispatch w + length ps,
     owed_ldq = owed_ldq w + (if perfect then 0 else rn_count h FT_LDU ps),
     owed_stq = owed_stq w + (if perfect then 0 else rn_count h FT_STU ps)\<rparr>"

inductive bd_step :: "driven \<Rightarrow> InstGroup \<times> InstGroup \<Rightarrow> driven \<Rightarrow> bool" where
  bd_frontend: "b = dr_sys d \<Longrightarrow> distinct (be_live b @ g) \<Longrightarrow>
    \<forall>p \<in> set g. rn_regs_ok (be_heap b) (be_rn b) p \<and> \<not> getIsMissPrediction (be_heap b p) \<Longrightarrow>
    rn_AllocateInst (be_rn b) g = (s, effs) \<Longrightarrow>
    bd_step d (g, []) (d\<lparr>dr_sys := b\<lparr>be_rn := s\<rparr>, rename_due := rename_due d \<or> rn_wakes effs\<rparr>)"
| bd_rename: "b = dr_sys d \<Longrightarrow> rename_due d \<Longrightarrow> RenameInst (be_heap b) (be_rn b) = Inr (h, s, effs) \<Longrightarrow>
    bd_step d ([], []) (d\<lparr>dr_sys := b\<lparr>be_heap := h, be_rn := s, to_rob := to_rob b @ rn_groups effs\<rparr>,
      rename_due := pending \<or> rn_wakes effs,
      dr_owed := owe (be_heap b) (rn_is_perfect_lsu (be_rn b)) (rn_sent effs) (dr_owed d)\<rparr>)"
| bd_allocate: "b = dr_sys d \<Longrightarrow> to_rob b = g # gs \<Longrightarrow> AllocateRob (be_heap b) (be_rob b) g = Inr (h, r, effs) \<Longrightarrow>
    bd_step d ([], []) (d\<lparr>dr_sys := b\<lparr>be_heap := h, be_rob := r, to_rob := gs\<rparr>, commit_due := commit_due d \<or> rob_wakes effs\<rparr>)"
| bd_finish: "b = dr_sys d \<Longrightarrow> set g \<subseteq> set (rob_insts (be_rob b)) \<Longrightarrow> rob_Finish (be_heap b) (be_rob b) g = Inr r \<Longrightarrow>
    bd_step d ([], []) (d\<lparr>dr_sys := b\<lparr>be_rob := r\<rparr>\<rparr>)"
| bd_commit: "b = dr_sys d \<Longrightarrow> commit_due d \<Longrightarrow> rob_Commit (be_heap b) (be_rob b) = Inr (h, r, effs) \<Longrightarrow>
    bd_step d ([], []) (d\<lparr>dr_sys := b\<lparr>be_heap := h, be_rob := r, to_rn := to_rn b @ rob_groups effs,
      credits_to_rn := credits_to_rn b @ rob_credits effs\<rparr>, commit_due := pending \<or> rob_wakes effs\<rparr>)"
| bd_release: "b = dr_sys d \<Longrightarrow> to_rn b = g # gs \<Longrightarrow> rn_RobCommit (be_heap b) (be_rn b) g = Inr (s, effs) \<Longrightarrow>
    bd_step d ([], g) (d\<lparr>dr_sys := b\<lparr>be_rn := s, to_rn := gs\<rparr>, rename_due := rename_due d \<or> rn_wakes effs\<rparr>)"
| bd_rob_credit: "b = dr_sys d \<Longrightarrow> credits_to_rn b = c # cs \<Longrightarrow> rn_AcceptRobCredit (be_rn b) c = (s, effs) \<Longrightarrow>
    bd_step d ([], []) (d\<lparr>dr_sys := b\<lparr>be_rn := s, credits_to_rn := cs\<rparr>, rename_due := rename_due d \<or> rn_wakes effs\<rparr>)"
| bd_dispatch_credit: "b = dr_sys d \<Longrightarrow> w = dr_owed d \<Longrightarrow> c \<noteq> 0 \<Longrightarrow> unat c \<le> owed_dispatch w \<Longrightarrow>
    rn_AcceptDispatchCredit (be_rn b) c = (s, effs) \<Longrightarrow>
    bd_step d ([], []) (d\<lparr>dr_sys := b\<lparr>be_rn := s\<rparr>, rename_due := rename_due d \<or> rn_wakes effs,
      dr_owed := w\<lparr>owed_dispatch := owed_dispatch w - unat c\<rparr>\<rparr>)"
| bd_ldq_credit: "b = dr_sys d \<Longrightarrow> w = dr_owed d \<Longrightarrow> c \<noteq> 0 \<Longrightarrow> unat c \<le> owed_ldq w \<Longrightarrow>
    rn_AcceptLoadQueueCredit (be_rn b) c = (s, effs) \<Longrightarrow>
    bd_step d ([], []) (d\<lparr>dr_sys := b\<lparr>be_rn := s\<rparr>, rename_due := rename_due d \<or> rn_wakes effs,
      dr_owed := w\<lparr>owed_ldq := owed_ldq w - unat c\<rparr>\<rparr>)"
| bd_stq_credit: "b = dr_sys d \<Longrightarrow> w = dr_owed d \<Longrightarrow> c \<noteq> 0 \<Longrightarrow> unat c \<le> owed_stq w \<Longrightarrow>
    rn_AcceptStoreQueueCredit (be_rn b) c = (s, effs) \<Longrightarrow>
    bd_step d ([], []) (d\<lparr>dr_sys := b\<lparr>be_rn := s\<rparr>, rename_due := rename_due d \<or> rn_wakes effs,
      dr_owed := w\<lparr>owed_stq := owed_stq w - unat c\<rparr>\<rparr>)"
| bd_store: "b = dr_sys d \<Longrightarrow> \<forall>p \<in> set (be_live b). rn_entry_of h p = rn_entry_of (be_heap b) p
      \<and> getRobTag (h p) = getRobTag (be_heap b p) \<and> \<not> getIsMissPrediction (h p)
      \<and> getIsaRs1 (h p) = getIsaRs1 (be_heap b p) \<and> getIsaRs2 (h p) = getIsaRs2 (be_heap b p) \<Longrightarrow>
    bd_step d ([], []) (d\<lparr>dr_sys := b\<lparr>be_heap := h\<rparr>\<rparr>)"

inductive bd_run :: "RenamingParameter \<Rightarrow> RobParameter \<Rightarrow> owed_credits \<Rightarrow> inst_ptr list \<Rightarrow> inst_ptr list \<Rightarrow> driven \<Rightarrow> bool" for p q w where
  bd_start: "be_start p q b \<Longrightarrow> bd_run p q w [] [] \<lparr>dr_sys = b, rename_due = False, commit_due = False, dr_owed = w\<rparr>"
| bd_more: "bd_run p q w ins outs d \<Longrightarrow> bd_step d (g, r) d' \<Longrightarrow> bd_run p q w (ins @ g) (outs @ r) d'"

text \<open>Steps without deliveries, with what the renaming stage is told to release.\<close>

inductive bd_steps :: "driven \<Rightarrow> inst_ptr list \<Rightarrow> driven \<Rightarrow> bool" where
  bd_refl: "bd_steps d [] d"
| bd_next: "bd_step d ([], r) d1 \<Longrightarrow> bd_steps d1 rs d2 \<Longrightarrow> bd_steps d (r @ rs) d2"

lemma bd_steps_trans: "bd_steps d rs d1 \<Longrightarrow> bd_steps d1 rs' d2 \<Longrightarrow> bd_steps d (rs @ rs') d2"
  by (induction rule: bd_steps.induct) (auto intro: bd_next)

lemma bd_one: "bd_step d ([], r) d' \<Longrightarrow> bd_steps d r d'"
  using bd_next [of d r d' "[]" d'] bd_refl by simp

lemma bd_step_sys: "bd_step d x d' \<Longrightarrow> be_step (dr_sys d) x (dr_sys d')"
  by (induction rule: bd_step.induct) (auto intro: be_step.intros)

lemma bd_run_sys: "bd_run p q w ins outs d \<Longrightarrow> be_run p q ins outs (dr_sys d)"
proof (induction rule: bd_run.induct)
  case (bd_more ins outs d g r d')
  from be_run.run_step [OF bd_more.IH bd_step_sys [OF bd_more.hyps(2)]] show ?case .
qed (simp add: be_run.run_start)

lemma bd_run_steps: "bd_steps d rs d' \<Longrightarrow> bd_run p q w ins outs d \<Longrightarrow> bd_run p q w ins (outs @ rs) d'"
proof (induction arbitrary: outs rule: bd_steps.induct)
  case (bd_next d r d1 rs d2)
  from bd_next.IH [of "outs @ r"] bd_run.bd_more [OF bd_next.prems bd_next.hyps(1)] show ?case by simp
qed simp

section \<open>Nothing waits without a reason\<close>

definition be_params_ok :: "RenamingParameter \<Rightarrow> RobParameter \<Rightarrow> bool" where
  "be_params_ok p q \<longleftrightarrow> rn_params_ok p \<and> 0 < robp_queue_depth q \<and> rp_issue_width p \<noteq> 0 \<and> robp_issue_width q \<noteq> 0
   \<and> unat (rp_isa_reg_num p) < unat (rp_phy_reg_num p) \<and> robp_num_insts_to_retire q = 0"

definition owed_ok :: "RenamingParameter \<Rightarrow> owed_credits \<Rightarrow> bool" where
  "owed_ok p w \<longleftrightarrow> 0 < owed_dispatch w \<and> (\<not> rp_is_perfect_lsu p \<longrightarrow> 0 < owed_ldq w \<and> 0 < owed_stq w)
   \<and> owed_dispatch w < 2 ^ 64 \<and> owed_ldq w < 2 ^ 64 \<and> owed_stq w < 2 ^ 64"

lemma be_run_facts:
  assumes "be_params_ok p q" "be_run p q ins outs b"
  shows "be_inv (unat (rp_phy_reg_num p)) (unat (robp_queue_depth q)) b" "be_config p q b"
  using be_run_inv be_run_config assms by (auto simp: be_params_ok_def)

text \<open>
  The credits granted and owed are the places there are. A buffer with instructions has a commit scheduled, and
  instructions that wait for renaming have one scheduled, or a credit is still to come that will schedule it.
\<close>

definition bd_credits_ok :: "owed_credits \<Rightarrow> driven \<Rightarrow> bool" where
  "bd_credits_ok w d \<longleftrightarrow> unat (rn_dispatch_credit (be_rn (dr_sys d))) + owed_dispatch (dr_owed d) = owed_dispatch w
   \<and> unat (rn_ldq_credit (be_rn (dr_sys d))) + owed_ldq (dr_owed d) = owed_ldq w
   \<and> unat (rn_stq_credit (be_rn (dr_sys d))) + owed_stq (dr_owed d) = owed_stq w"

definition bd_owing :: "bool \<Rightarrow> owed_credits \<Rightarrow> bool" where
  "bd_owing perfect v \<longleftrightarrow> 0 < owed_dispatch v \<or> (\<not> perfect \<and> (0 < owed_ldq v \<or> 0 < owed_stq v))"

definition bd_awake :: "nat \<Rightarrow> driven \<Rightarrow> bool" where
  "bd_awake D d \<longleftrightarrow> (rob_insts (be_rob (dr_sys d)) \<noteq> [] \<longrightarrow> commit_due d)
   \<and> (renaming_stage_queue (be_rn (dr_sys d)) \<noteq> [] \<longrightarrow> rename_due d \<or> unat (rn_rob_credit (be_rn (dr_sys d))) < D
        \<or> bd_owing (rn_is_perfect_lsu (be_rn (dr_sys d))) (dr_owed d))"

definition bd_ok :: "RenamingParameter \<Rightarrow> RobParameter \<Rightarrow> owed_credits \<Rightarrow> driven \<Rightarrow> bool" where
  "bd_ok p q w d \<longleftrightarrow> be_inv (unat (rp_phy_reg_num p)) (unat (robp_queue_depth q)) (dr_sys d) \<and> be_config p q (dr_sys d)
   \<and> bd_credits_ok w d \<and> bd_awake (unat (robp_queue_depth q)) d"

text \<open>What one run of the renaming handler does to credits and events.\<close>

lemma rename_effect:
  assumes "be_inv P D b" "RenameInst (be_heap b) (be_rn b) = Inr (h, s, effs)"
  shows "renaming_stage_queue s = drop (length (rn_sent effs)) (renaming_stage_queue (be_rn b))"
    "rn_is_perfect_lsu s = rn_is_perfect_lsu (be_rn b)"
    "unat (rn_dispatch_credit s) + length (rn_sent effs) = unat (rn_dispatch_credit (be_rn b))"
    "unat (rn_rob_credit s) + length (rn_sent effs) = unat (rn_rob_credit (be_rn b))"
    "unat (rn_ldq_credit s) + (if rn_is_perfect_lsu (be_rn b) then 0 else rn_count (be_heap b) FT_LDU (rn_sent effs))
      = unat (rn_ldq_credit (be_rn b))"
    "unat (rn_stq_credit s) + (if rn_is_perfect_lsu (be_rn b) then 0 else rn_count (be_heap b) FT_STU (rn_sent effs))
      = unat (rn_stq_credit (be_rn b))"
    "renaming_stage_queue (be_rn b) \<noteq> [] \<Longrightarrow> rn_sent effs \<noteq> [] \<or> rn_wakes effs \<or> rn_produce_inst_num (be_rn b) = 0"
proof -
  have inv: "rn_inv P (be_rn b) (map (rn_entry_of (be_heap b)) (be_renamed b))" "distinct (renaming_stage_queue (be_rn b))"
      "\<forall>p \<in> set (renaming_stage_queue (be_rn b)). rn_regs_ok (be_heap b) (be_rn b) p"
    using assms(1) by (simp_all add: be_inv_def be_live_def)
  from RenameInst_run [OF inv assms(2)] have
    r: "rn_registers (rn_sent effs) (be_heap b) (be_rn b) h s"
      "rn_loop_post P (be_heap b) (be_rn b) (map (rn_entry_of (be_heap b)) (be_renamed b)) (unat (rn_produce_inst_num (be_rn b)))
        (length (rn_sent effs)) h s" "rn_sent effs = take (length (rn_sent effs)) (renaming_stage_queue (be_rn b))"
      "free_list (rn_free_list (be_rn b)) = [] \<and> renaming_stage_queue (be_rn b) \<noteq> [] \<longrightarrow> rename_event 1 \<in> set effs" by auto
  have le: "length (rn_sent effs) \<le> unat (rn_produce_inst_num (be_rn b))" and deb: "rn_debited (be_heap b) (be_rn b) (rn_sent effs) s"
    using r(2) unfolding rn_loop_post_def r(3) [symmetric] by blast+
  show q: "renaming_stage_queue s = drop (length (rn_sent effs)) (renaming_stage_queue (be_rn b))"
    "rn_is_perfect_lsu s = rn_is_perfect_lsu (be_rn b)"
    using r(2) deb by (simp_all add: rn_loop_post_def rn_debited_def)
  show "unat (rn_dispatch_credit s) + length (rn_sent effs) = unat (rn_dispatch_credit (be_rn b))"
    "unat (rn_rob_credit s) + length (rn_sent effs) = unat (rn_rob_credit (be_rn b))"
    "unat (rn_ldq_credit s) + (if rn_is_perfect_lsu (be_rn b) then 0 else rn_count (be_heap b) FT_LDU (rn_sent effs))
      = unat (rn_ldq_credit (be_rn b))"
    "unat (rn_stq_credit s) + (if rn_is_perfect_lsu (be_rn b) then 0 else rn_count (be_heap b) FT_STU (rn_sent effs))
      = unat (rn_stq_credit (be_rn b))"
    by (rule rn_debited_exact [OF deb le])+
  show "rn_sent effs \<noteq> [] \<or> rn_wakes effs \<or> rn_produce_inst_num (be_rn b) = 0" if ne: "renaming_stage_queue (be_rn b) \<noteq> []"
  proof (cases "rn_sent effs = []")
    case True
    have "length (rn_sent effs) = unat (rn_produce_inst_num (be_rn b)) \<or> renaming_stage_queue s = [] \<or> free_list (rn_free_list s) = []"
      using r(2) unfolding rn_loop_post_def by blast
    moreover have "free_list (rn_free_list s) = free_list (rn_free_list (be_rn b))"
      using r(1) True by (simp add: rn_registers_def rn_pops_def)
    ultimately show ?thesis using True ne q(1) r(4) by (auto simp: rn_wakes_def unat_eq_0)
  qed simp
qed

lemma produce_zero:
  assumes "rn_produce_inst_num s = 0" "rn_issue_width s \<noteq> 0"
  shows "unat (rn_dispatch_credit s) = 0 \<or> unat (rn_rob_credit s) = 0
    \<or> (\<not> rn_is_perfect_lsu s \<and> (unat (rn_ldq_credit s) = 0 \<or> unat (rn_stq_credit s) = 0))"
  using assms by (auto simp: rn_produce_inst_num_def Let_def min_def split: if_splits)

lemma add_within: "unat (x :: u64) + unat c \<le> n \<Longrightarrow> n < 2 ^ 64 \<Longrightarrow> unat (x + c) = unat x + unat c"
  by (simp add: unat_word_ariths)

lemma AllocateInst_state:
  "rn_AllocateInst s g = (s', effs) \<Longrightarrow> s' = s\<lparr>renaming_stage_queue := renaming_stage_queue s @ g\<rparr> \<and> rn_wakes effs"
  using rn_AllocateInst_queue [of s g] by (auto simp: rn_AllocateInst_def rn_wakes_def)

lemmas accept_defs = rn_AcceptRobCredit_def rn_AcceptDispatchCredit_def rn_AcceptLoadQueueCredit_def rn_AcceptStoreQueueCredit_def

lemma bd_credits_step:
  assumes "be_inv P D (dr_sys d)" "bd_step d x d'" "bd_credits_ok w d" "owed_ok p w"
  shows "bd_credits_ok w d'"
  using assms(2)
proof cases
  case (bd_frontend b g s effs)
  with AllocateInst_state [OF bd_frontend(6)] assms(3) show ?thesis by (simp add: bd_credits_ok_def)
next
  case (bd_rename b h s effs pending)
  from rename_effect(3,5,6) [OF assms(1), of h s effs] bd_rename(3,5) assms(3) show ?thesis
    unfolding bd_credits_ok_def bd_rename(2) by (simp add: owe_def)
next
  case (bd_release b g gs s effs)
  with be_inv_release [OF assms(1), of g gs] assms(3) show ?thesis by (auto simp: bd_credits_ok_def)
next
  case (bd_dispatch_credit b v c s effs)
  with assms(3,4) add_within [of "rn_dispatch_credit (be_rn b)" c "owed_dispatch w"] show ?thesis
    by (auto simp: bd_credits_ok_def accept_defs owed_ok_def)
next
  case (bd_ldq_credit b v c s effs)
  with assms(3,4) add_within [of "rn_ldq_credit (be_rn b)" c "owed_ldq w"] show ?thesis
    by (auto simp: bd_credits_ok_def accept_defs owed_ok_def)
next
  case (bd_stq_credit b v c s effs)
  with assms(3,4) add_within [of "rn_stq_credit (be_rn b)" c "owed_stq w"] show ?thesis
    by (auto simp: bd_credits_ok_def accept_defs owed_ok_def)
qed (use assms(3) in \<open>auto simp: bd_credits_ok_def accept_defs\<close>)

lemma bd_awake_rename:
  assumes "be_inv P D b" "be_config p q b" "rp_issue_width p \<noteq> 0" "bd_credits_ok w d" "owed_ok p w" "b = dr_sys d"
    and "RenameInst (be_heap b) (be_rn b) = Inr (h, s, effs)" "renaming_stage_queue s \<noteq> []" "0 < D"
  shows "rn_wakes effs \<or> unat (rn_rob_credit s) < D
    \<or> bd_owing (rn_is_perfect_lsu s) (owe (be_heap b) (rn_is_perfect_lsu (be_rn b)) (rn_sent effs) (dr_owed d))"
proof (cases "rn_sent effs = []")
  case True
  note e = rename_effect [OF assms(1,7)]
  have s: "renaming_stage_queue (be_rn b) \<noteq> []" "rn_issue_width (be_rn b) \<noteq> 0"
    using e(1) assms(2,3,8) True by (auto simp: be_config_def word_unat_eq_iff)
  have "unat (rn_rob_credit s) = unat (rn_rob_credit (be_rn b))" using e(4) True by simp
  moreover have "bd_owing (rn_is_perfect_lsu s) (dr_owed d)"
    if "unat (rn_dispatch_credit (be_rn b)) = 0
      \<or> (\<not> rn_is_perfect_lsu (be_rn b) \<and> (unat (rn_ldq_credit (be_rn b)) = 0 \<or> unat (rn_stq_credit (be_rn b)) = 0))"
    using that assms(2,4,5,6) e(2) by (auto simp: bd_owing_def bd_credits_ok_def owed_ok_def be_config_def)
  moreover have "owe (be_heap b) (rn_is_perfect_lsu (be_rn b)) [] v = v" for v by (simp add: owe_def rn_count_def)
  ultimately show ?thesis using e(7) [OF s(1)] produce_zero [OF _ s(2)] True assms(9) by auto
next
  case False
  have "unat (rn_rob_credit (be_rn b)) \<le> D" using assms(1) by (auto simp: be_inv_def)
  with False rename_effect(4) [OF assms(1,7)] show ?thesis by (cases "rn_sent effs") auto
qed

lemma bd_awake_step:
  assumes "be_params_ok p q" "owed_ok p w" "bd_ok p q w d" "bd_step d (g, r) d'"
  shows "bd_awake (unat (robp_queue_depth q)) d'"
proof -
  let ?D = "unat (robp_queue_depth q)"
  have inv: "be_inv (unat (rp_phy_reg_num p)) ?D (dr_sys d)" "be_config p q (dr_sys d)" "bd_credits_ok w d" "bd_awake ?D d"
    using assms(3) by (simp_all add: bd_ok_def)
  have D: "0 < ?D" using assms(1) by (simp add: be_params_ok_def word_less_nat_alt)
  show ?thesis using assms(4)
  proof cases
    case (bd_frontend b s effs)
    with AllocateInst_state [OF bd_frontend(6)] inv(4) show ?thesis by (simp add: bd_awake_def)
  next
    case (bd_rename b h s effs pending)
    have "rp_issue_width p \<noteq> 0" using assms(1) by (simp add: be_params_ok_def)
    from bd_awake_rename [OF inv(1,2) this inv(3) assms(2) refl bd_rename(6) [unfolded bd_rename(4)] _ D] inv(4) bd_rename show ?thesis
      by (auto simp: bd_awake_def)
  next
    case (bd_allocate b g gs h s effs)
    then have "rob_wakes effs" by (auto simp: AllocateRob_def bindE_eq_Inr rob_wakes_def)
    with bd_allocate inv(4) show ?thesis by (simp add: bd_awake_def)
  next
    case (bd_finish b g s)
    have "rob_insts s = rob_insts (be_rob b)"
      using rob_Finish_ok [of "be_heap b" "be_rob b" g] bd_finish inv(1) by (auto simp: be_inv_def)
    with bd_finish inv(4) show ?thesis by (simp add: bd_awake_def)
  next
    case (bd_commit b h s effs pending)
    have "rob_good (be_heap b) (be_rob b)" "stall_cycle_count (be_rob b) \<le> 999" "num_insts_to_retire (be_rob b) = 0"
      using inv(1,2) assms(1) bd_commit(4) by (simp_all add: be_inv_def be_config_def be_params_ok_def)
    from rob_Commit_reschedules [OF this(1,2) bd_commit(6)] this(3) have "rob_insts s \<noteq> [] \<Longrightarrow> rob_wakes effs"
      by (auto simp: rob_wakes_def)
    with bd_commit inv(4) show ?thesis by (auto simp: bd_awake_def)
  next
    case (bd_release b gs s effs)
    with be_inv_release [OF inv(1), of r gs] inv(4) show ?thesis by (auto simp: bd_awake_def)
  next
    case (bd_rob_credit b c cs s effs)
    then have "rn_wakes effs" by (auto simp: accept_defs rn_wakes_def)
    with bd_rob_credit inv(4) show ?thesis by (simp add: bd_awake_def)
  next
    case (bd_dispatch_credit b v c s effs)
    then have "rn_wakes effs" by (auto simp: accept_defs rn_wakes_def)
    with bd_dispatch_credit inv(4) show ?thesis by (simp add: bd_awake_def)
  next
    case (bd_ldq_credit b v c s effs)
    then have "rn_wakes effs" by (auto simp: accept_defs rn_wakes_def)
    with bd_ldq_credit inv(4) show ?thesis by (simp add: bd_awake_def)
  next
    case (bd_stq_credit b v c s effs)
    then have "rn_wakes effs" by (auto simp: accept_defs rn_wakes_def)
    with bd_stq_credit inv(4) show ?thesis by (simp add: bd_awake_def)
  next
    case (bd_store b h)
    with inv(4) show ?thesis by (simp add: bd_awake_def)
  qed
qed

lemma bd_ok_step:
  assumes "be_params_ok p q" "owed_ok p w" "bd_ok p q w d" "bd_step d (g, r) d'"
  shows "bd_ok p q w d'" "be_live (dr_sys d) @ g = r @ be_live (dr_sys d')"
proof -
  note inv = assms(3) [unfolded bd_ok_def, THEN conjunct1] assms(3) [unfolded bd_ok_def, THEN conjunct2, THEN conjunct1]
  note sys = bd_step_sys [OF assms(4)]
  from be_step_inv [OF inv(1) sys] be_step_config [OF inv(1) sys inv(2)] bd_credits_step [OF inv(1) assms(4) _ assms(2)]
    bd_awake_step [OF assms] assms(3)
  show "bd_ok p q w d'" "be_live (dr_sys d) @ g = r @ be_live (dr_sys d')" by (simp_all add: bd_ok_def)
qed

lemma bd_run_ok:
  assumes "be_params_ok p q" "owed_ok p w" "bd_run p q w ins outs d"
  shows "bd_ok p q w d"
  using assms(3)
proof (induction rule: bd_run.induct)
  case (bd_start b)
  note f = be_run_facts [OF assms(1) be_run.run_start [OF bd_start]]
  from bd_start have "rn_dispatch_credit (be_rn b) = 0" "rn_ldq_credit (be_rn b) = 0" "rn_stq_credit (be_rn b) = 0"
    "renaming_stage_queue (be_rn b) = []" by (cases; auto simp: mk_RenamingStage_def bindE_eq_Inr)+
  moreover have "be_live b = []" using be_start_inv [OF bd_start] assms(1) by (simp add: be_params_ok_def)
  ultimately show ?case using f by (simp add: bd_ok_def bd_credits_ok_def bd_awake_def be_live_def be_renamed_def)
next
  case (bd_more ins outs d g r d')
  from bd_ok_step(1) [OF assms(1,2) bd_more.IH bd_more.hyps(2)] show ?case .
qed

section \<open>The way out\<close>

text \<open>Continuations without deliveries that keep what is known, with the instructions released on the way.\<close>

definition bd_leads :: "RenamingParameter \<Rightarrow> RobParameter \<Rightarrow> owed_credits \<Rightarrow> driven \<Rightarrow> inst_ptr list \<Rightarrow> driven \<Rightarrow> bool" where
  "bd_leads p q w d rs d' \<longleftrightarrow> bd_steps d rs d' \<and> bd_ok p q w d' \<and> be_live (dr_sys d) = rs @ be_live (dr_sys d')"

lemma bd_leads_refl: "bd_ok p q w d \<Longrightarrow> bd_leads p q w d [] d"
  by (simp add: bd_leads_def bd_refl)

lemma bd_leads_trans: "bd_leads p q w d rs d1 \<Longrightarrow> bd_leads p q w d1 rs' d2 \<Longrightarrow> bd_leads p q w d (rs @ rs') d2"
  using bd_steps_trans [of d rs d1 rs' d2] by (auto simp: bd_leads_def)

lemma bd_leads_trans0: "bd_leads p q w d [] d1 \<Longrightarrow> bd_leads p q w d1 rs' d2 \<Longrightarrow> bd_leads p q w d rs' d2"
  using bd_leads_trans [of p q w d "[]" d1 rs' d2] by simp

lemma bd_leads_one:
  assumes "be_params_ok p q" "owed_ok p w" "bd_ok p q w d" "bd_step d ([], r) d'"
  shows "bd_leads p q w d r d'"
  using bd_ok_step [OF assms] bd_one [OF assms(4)] by (simp add: bd_leads_def)

lemmas bd_ok_inv = bd_ok_def [THEN iffD1, THEN conjunct1]
lemmas bd_ok_config = bd_ok_def [THEN iffD1, THEN conjunct2, THEN conjunct1]
lemmas bd_leads_ok = bd_leads_def [THEN iffD1, THEN conjunct2, THEN conjunct1]

definition all_finished :: "Rob \<Rightarrow> bool" where
  "all_finished r \<longleftrightarrow> (\<forall>e \<in> set (lq_list (rob_queue r)). rob_finish e)"

lemma all_finished_map: "all_finished r \<longleftrightarrow> (\<forall>x \<in> set (map rob_finish (lq_list (rob_queue r))). x)"
  by (simp add: all_finished_def)

lemma rob_Finish_marks:
  assumes "rob_good h r" "set g \<subseteq> set (rob_insts r)" "rob_Finish h r g = Inr r'"
  shows "\<forall>i < length (rob_insts r). rob_insts r ! i \<in> set g \<or> rob_finish (lq_list (rob_queue r) ! i)
    \<longrightarrow> rob_finish (lq_list (rob_queue r') ! i)"
  using assms unfolding rob_Finish_def
proof (induction g arbitrary: r)
  case (Cons p g)
  then obtain i where i: "i < length (rob_insts r)" "p = rob_insts r ! i" by (auto simp: in_set_conv_nth)
  from rob_Finish_one_ok [OF Cons.prems(1) i(1)] obtain r1 where
    r1: "rob_Finish_one h r p = Inr r1" "rob_good h r1" "rob_insts r1 = rob_insts r"
      "lq_list (rob_queue r1) = (lq_list (rob_queue r))[i := (lq_list (rob_queue r) ! i)\<lparr>rob_finish := True\<rparr>]"
    using i(2) by blast
  have ih: "\<forall>j < length (rob_insts r). rob_insts r ! j \<in> set g \<or> rob_finish (lq_list (rob_queue r1) ! j)
      \<longrightarrow> rob_finish (lq_list (rob_queue r') ! j)"
    using Cons.IH [OF r1(2)] Cons.prems(2,3) r1(1,3) by simp
  have d: "distinct (rob_insts r)" "length (rob_insts r) = length (lq_list (rob_queue r))"
    using Cons.prems(1) by (simp_all add: rob_good_def rob_insts_def)
  have "rob_finish (lq_list (rob_queue r1) ! j)"
    if "j < length (rob_insts r)" "rob_insts r ! j = p \<or> rob_finish (lq_list (rob_queue r) ! j)" for j
    using that i d by (auto simp: r1(4) nth_list_update nth_eq_iff_index_eq)
  with ih show ?case by auto
qed simp

lemma drain_to_rob:
  assumes "be_params_ok p q" "owed_ok p w" "bd_ok p q w d"
  shows "\<exists>d'. bd_leads p q w d [] d' \<and> to_rob (dr_sys d') = [] \<and> be_rn (dr_sys d') = be_rn (dr_sys d)"
  using assms(3)
proof (induction "to_rob (dr_sys d)" arbitrary: d)
  case Nil
  then show ?case using bd_leads_refl by metis
next
  case (Cons g gs)
  let ?b = "dr_sys d"
  from be_inv_allocate [OF bd_ok_inv [OF Cons.prems] Cons.hyps(2) [symmetric]] obtain h r effs where
    a: "AllocateRob (be_heap ?b) (be_rob ?b) g = Inr (h, r, effs)" by blast
  note l = bd_leads_one [OF assms(1,2) Cons.prems bd_allocate [OF refl Cons.hyps(2) [symmetric] a]]
  from Cons.hyps(1) [OF _ bd_leads_ok [OF l]] obtain d' where "bd_leads p q w (d\<lparr>dr_sys := ?b\<lparr>be_heap := h, be_rob := r,
      to_rob := gs\<rparr>, commit_due := commit_due d \<or> rob_wakes effs\<rparr>) [] d'" "to_rob (dr_sys d') = []"
      "be_rn (dr_sys d') = be_rn ?b" by auto
  with bd_leads_trans0 [OF l] show ?case by blast
qed

lemma finish_all:
  assumes "be_params_ok p q" "owed_ok p w" "bd_ok p q w d"
  shows "\<exists>d'. bd_leads p q w d [] d' \<and> to_rob (dr_sys d') = to_rob (dr_sys d) \<and> be_rn (dr_sys d') = be_rn (dr_sys d)
    \<and> all_finished (be_rob (dr_sys d'))"
proof -
  let ?b = "dr_sys d"
  note inv = bd_ok_inv [OF assms(3)]
  from be_inv_finish [OF inv subset_refl] obtain r where
    r: "rob_Finish (be_heap ?b) (be_rob ?b) (rob_insts (be_rob ?b)) = Inr r" by blast
  have good: "rob_good (be_heap ?b) (be_rob ?b)" using inv by (simp add: be_inv_def)
  from rob_Finish_ok [OF good subset_refl] r have i: "rob_insts r = rob_insts (be_rob ?b)" by auto
  then have "length (lq_list (rob_queue r)) = length (rob_insts (be_rob ?b))" by (metis length_map rob_insts_def)
  moreover have "rob_finish (lq_list (rob_queue r) ! i)" if "i < length (rob_insts (be_rob ?b))" for i
    using rob_Finish_marks [OF good subset_refl r] that nth_mem by blast
  ultimately have "all_finished r" by (metis all_finished_def in_set_conv_nth)
  with bd_leads_one [OF assms bd_finish [OF refl subset_refl r]] show ?thesis
    by (intro exI [of _ "d\<lparr>dr_sys := ?b\<lparr>be_rob := r\<rparr>\<rparr>"]) simp
qed

lemma rob_Commit_progress:
  assumes "rob_good h r" "rob_no_miss h r" "all_finished r" "rob_insts r \<noteq> []" "rob_issue_width r \<noteq> 0" "stall_cycle_count r \<le> 999"
  shows "\<exists>h' r' effs. rob_Commit h r = Inr (h', r', effs) \<and> all_finished r' \<and> length (rob_insts r') < length (rob_insts r)"
proof -
  have wf: "rob_wf r" using assms(1) by (simp add: rob_good_def)
  obtain e L where L: "lq_list (rob_queue r) = e # L" using assms(4) by (cases "lq_list (rob_queue r)") (auto simp: rob_insts_def)
  have "usage (rob_queue r) \<noteq> 0" using L lq_list_eq_Nil [of "rob_queue r"] by auto
  then have "min (rob_issue_width r) (ucast (usage (rob_queue r))) \<noteq> 0"
    using assms(5) by (auto simp: min_def word_unat_eq_iff)
  then obtain n where n: "rob_width r = Suc n" unfolding rob_width_def by (metis not0_implies_Suc unat_eq_zero)
  have "rob_finish e" "\<not> getIsMissPrediction (h (the (rob_inst_ptr e)))"
    using assms(2,3) L by (auto simp: all_finished_def rob_no_miss_def rob_insts_def)
  then obtain ps k f where t: "rob_retired h (rob_width r) (lq_list (rob_queue r)) = (ps, k, f)" "ps \<noteq> []"
    unfolding n L by (cases "rob_retired h n L") auto
  have f: "\<not> f" using rob_retired_no_miss [OF assms(2), of _ 0] t(1) by simp
  have "rob_entries_ok (lq_list (rob_queue r))" using wf by (simp add: rob_wf_def)
  from rob_retired_prefix [OF t(1) this] f t(2) have k: "k \<noteq> 0" "k \<le> length (lq_list (rob_queue r))" by auto
  from rob_Commit_ok [OF wf t(1) disjI1 [OF t(2)]] obtain r' effs where
    c: "rob_Commit h r = Inr (clear_all ps h, r', effs)"
      "map rob_inst_ptr (lq_list (rob_queue r')) = drop k (map rob_inst_ptr (lq_list (rob_queue r)))" by blast
  have "length (rob_insts r') = length (rob_insts r) - k"
    using arg_cong [OF c(2), of length] by (simp add: rob_insts_def)
  then have "length (rob_insts r') < length (rob_insts r)" using k assms(4) by (simp add: rob_insts_def)
  moreover from rob_Commit_run [OF assms(1,2,6) c(1)] have "all_finished r'"
    using assms(3) unfolding all_finished_map by (metis in_set_dropD)
  ultimately show ?thesis using c(1) by blast
qed

lemma drain_rob:
  assumes "be_params_ok p q" "owed_ok p w" "bd_ok p q w d" "to_rob (dr_sys d) = []" "all_finished (be_rob (dr_sys d))"
  shows "\<exists>d'. bd_leads p q w d [] d' \<and> to_rob (dr_sys d') = [] \<and> rob_insts (be_rob (dr_sys d')) = []
    \<and> be_rn (dr_sys d') = be_rn (dr_sys d)"
  using assms(3-)
proof (induction "length (rob_insts (be_rob (dr_sys d)))" arbitrary: d rule: less_induct)
  case less
  let ?b = "dr_sys d"
  show ?case
  proof (cases "rob_insts (be_rob ?b) = []")
    case True
    with less.prems show ?thesis using bd_leads_refl by blast
  next
    case False
    note inv = bd_ok_inv [OF less.prems(1)]
    have good: "rob_good (be_heap ?b) (be_rob ?b)" "stall_cycle_count (be_rob ?b) \<le> 999" using inv by (simp_all add: be_inv_def)
    have "unat (rob_issue_width (be_rob ?b)) = unat (robp_issue_width q)"
      using bd_ok_config [OF less.prems(1)] by (simp add: be_config_def)
    then have "rob_issue_width (be_rob ?b) \<noteq> 0" using assms(1) by (auto simp: be_params_ok_def word_unat_eq_iff)
    from rob_Commit_progress [OF good(1) be_no_miss [OF inv] less.prems(3) False this good(2)] obtain h r effs where
      c: "rob_Commit (be_heap ?b) (be_rob ?b) = Inr (h, r, effs)" "all_finished r"
        "length (rob_insts r) < length (rob_insts (be_rob ?b))" by blast
    have due: "commit_due d" using less.prems(1) False by (simp add: bd_ok_def bd_awake_def)
    note l = bd_leads_one [OF assms(1,2) less.prems(1) bd_commit [OF refl due c(1), where pending = False]]
    from less.hyps [OF _ bd_leads_ok [OF l]] c(2,3) less.prems(2) bd_leads_trans0 [OF l] show ?thesis by auto
  qed
qed

lemma drain_to_rn:
  assumes "be_params_ok p q" "owed_ok p w" "bd_ok p q w d" "to_rob (dr_sys d) = []" "rob_insts (be_rob (dr_sys d)) = []"
  shows "\<exists>rs d'. bd_leads p q w d rs d' \<and> be_renamed (dr_sys d') = []
    \<and> renaming_stage_queue (be_rn (dr_sys d')) = renaming_stage_queue (be_rn (dr_sys d))"
  using assms(3-)
proof (induction "to_rn (dr_sys d)" arbitrary: d)
  case Nil
  then have "be_renamed (dr_sys d) = []" by (simp add: be_renamed_def)
  with Nil.prems bd_leads_refl show ?case by blast
next
  case (Cons g gs)
  let ?b = "dr_sys d"
  from be_inv_release [OF bd_ok_inv [OF Cons.prems(1)] Cons.hyps(2) [symmetric]] obtain s effs where
    s: "rn_RobCommit (be_heap ?b) (be_rn ?b) g = Inr (s, effs)" "renaming_stage_queue s = renaming_stage_queue (be_rn ?b)" by auto
  note l = bd_leads_one [OF assms(1,2) Cons.prems(1) bd_release [OF refl Cons.hyps(2) [symmetric] s(1)]]
  from Cons.hyps(1) [OF _ bd_leads_ok [OF l]] Cons.prems(2,3) s(2) obtain rs d' where
    "bd_leads p q w (d\<lparr>dr_sys := ?b\<lparr>be_rn := s, to_rn := gs\<rparr>, rename_due := rename_due d \<or> rn_wakes effs\<rparr>) rs d'"
    "be_renamed (dr_sys d') = []" "renaming_stage_queue (be_rn (dr_sys d')) = renaming_stage_queue (be_rn ?b)" by auto
  with bd_leads_trans [OF l] show ?case by blast
qed

lemma drain_credits:
  assumes "be_params_ok p q" "owed_ok p w" "bd_ok p q w d"
  shows "\<exists>d'. bd_leads p q w d [] d' \<and> be_renamed (dr_sys d') = be_renamed (dr_sys d) \<and> credits_to_rn (dr_sys d') = []
    \<and> renaming_stage_queue (be_rn (dr_sys d')) = renaming_stage_queue (be_rn (dr_sys d))"
  using assms(3)
proof (induction "credits_to_rn (dr_sys d)" arbitrary: d)
  case Nil
  then show ?case using bd_leads_refl by metis
next
  case (Cons c cs)
  let ?b = "dr_sys d"
  let ?s = "(be_rn ?b)\<lparr>rn_rob_credit := rn_rob_credit (be_rn ?b) + c\<rparr>"
  have "rn_AcceptRobCredit (be_rn ?b) c = (?s, [rename_event 0])" by (simp add: rn_AcceptRobCredit_def)
  note l = bd_leads_one [OF assms(1,2) Cons.prems bd_rob_credit [OF refl Cons.hyps(2) [symmetric] this]]
  from Cons.hyps(1) [OF _ bd_leads_ok [OF l]] obtain d' where
    "bd_leads p q w (d\<lparr>dr_sys := ?b\<lparr>be_rn := ?s, credits_to_rn := cs\<rparr>, rename_due := rename_due d \<or> rn_wakes [rename_event 0]\<rparr>) [] d'"
    "be_renamed (dr_sys d') = be_renamed ?b" "credits_to_rn (dr_sys d') = []"
    "renaming_stage_queue (be_rn (dr_sys d')) = renaming_stage_queue (be_rn ?b)" by (auto simp: be_renamed_def)
  with bd_leads_trans0 [OF l] show ?case by blast
qed

lemma be_settle:
  assumes "be_params_ok p q" "owed_ok p w" "bd_ok p q w d"
  shows "\<exists>rs d'. bd_leads p q w d rs d' \<and> be_renamed (dr_sys d') = [] \<and> credits_to_rn (dr_sys d') = []
    \<and> renaming_stage_queue (be_rn (dr_sys d')) = renaming_stage_queue (be_rn (dr_sys d))"
proof -
  note ctx = assms(1,2)
  from drain_to_rob [OF assms] obtain d1 where
    d1: "bd_leads p q w d [] d1" "to_rob (dr_sys d1) = []" "be_rn (dr_sys d1) = be_rn (dr_sys d)" by blast
  from finish_all [OF ctx bd_leads_ok [OF d1(1)]] d1(2,3) obtain d2 where
    d2: "bd_leads p q w d1 [] d2" "to_rob (dr_sys d2) = []" "all_finished (be_rob (dr_sys d2))" "be_rn (dr_sys d2) = be_rn (dr_sys d)"
    by auto
  from drain_rob [OF ctx bd_leads_ok [OF d2(1)] d2(2,3)] d2(4) obtain d3 where
    d3: "bd_leads p q w d2 [] d3" "to_rob (dr_sys d3) = []" "rob_insts (be_rob (dr_sys d3)) = []" "be_rn (dr_sys d3) = be_rn (dr_sys d)"
    by auto
  from drain_to_rn [OF ctx bd_leads_ok [OF d3(1)] d3(2,3)] d3(4) obtain rs d4 where
    d4: "bd_leads p q w d3 rs d4" "be_renamed (dr_sys d4) = []"
      "renaming_stage_queue (be_rn (dr_sys d4)) = renaming_stage_queue (be_rn (dr_sys d))" by auto
  from drain_credits [OF ctx bd_leads_ok [OF d4(1)]] d4(2,3) obtain d5 where
    d5: "bd_leads p q w d4 [] d5" "be_renamed (dr_sys d5) = []" "credits_to_rn (dr_sys d5) = []"
      "renaming_stage_queue (be_rn (dr_sys d5)) = renaming_stage_queue (be_rn (dr_sys d))" by auto
  from bd_leads_trans [OF d4(1) d5(1)] have "bd_leads p q w d3 rs d5" by simp
  then have "bd_leads p q w d rs d5" by (intro bd_leads_trans0 [OF d1(1)] bd_leads_trans0 [OF d2(1)] bd_leads_trans0 [OF d3(1)])
  with d5 show ?thesis by blast
qed

section \<open>Renaming goes on\<close>

text \<open>With nothing in flight the committed map holds all registers that are not free.\<close>

lemma rn_inv_free_left:
  assumes "rn_inv P s []" "unat (isa_reg_num (rn_renaming_table s)) < P"
  shows "free_list (rn_free_list s) \<noteq> []"
proof
  assume "free_list (rn_free_list s) = []"
  then have "free_list_backup (rn_free_list s) = []"
    using assms(1) by (simp add: rn_inv_def fl.owned_def rn_owned_def)
  then have "mset (rn_live s) = mset (fl_tokens P)" using assms(1) by (simp add: rn_inv_def)
  then have l: "length (rn_live s) = P - 1" using mset_eq_length by (fastforce simp: fl_tokens_def)
  let ?t = "renaming_table_backup (rn_renaming_table s)"
  have t: "length ?t = unat (isa_reg_num (rn_renaming_table s))" "?t \<noteq> []" "?t ! 0 = 0"
    using assms(1) by (auto simp: rn_inv_def rt.ahead_def rt_wf_def rt_base_def word_less_nat_alt)
  then have "0 \<in> set ?t" by (metis length_greater_0_conv nth_mem)
  then have "length (rn_live s) < length ?t" unfolding rn_live_def by (simp add: length_filter_less)
  with l t(1) assms(2) show False by simp
qed

lemma be_inv_settled:
  assumes "be_inv P D b" "be_renamed b = []" "credits_to_rn b = []"
  shows "unat (rn_rob_credit (be_rn b)) = D"
proof -
  have e: "rob_insts (be_rob b) = []" "concat (to_rob b) = []"
    using assms(2) unfolding be_renamed_def append_is_Nil_conv by blast+
  have "unat (rn_rob_credit (be_rn b)) + sum_credits (credits_to_rn b)
      + length (rob_insts (be_rob b)) + length (concat (to_rob b)) = D"
    using assms(1) unfolding be_inv_def by blast
  then show ?thesis unfolding e assms(3) by simp
qed

text \<open>The environment can grant what it owes.\<close>

lemma grant_dispatch:
  assumes "be_params_ok p q" "owed_ok p w" "bd_ok p q w d"
  shows "\<exists>d' s. bd_leads p q w d [] d' \<and> dr_sys d' = (dr_sys d)\<lparr>be_rn := s\<rparr>
    \<and> renaming_stage_queue s = renaming_stage_queue (be_rn (dr_sys d)) \<and> dr_owed d' = (dr_owed d)\<lparr>owed_dispatch := 0\<rparr>"
proof (cases "owed_dispatch (dr_owed d) = 0")
  case True
  then show ?thesis using bd_leads_refl [OF assms(3)] by (intro exI [of _ d] exI [of _ "be_rn (dr_sys d)"]) simp
next
  case False
  let ?c = "word_of_nat (owed_dispatch (dr_owed d)) :: Credit"
  have "owed_dispatch (dr_owed d) < 2 ^ 64" using assms(2,3) by (auto simp: bd_ok_def bd_credits_ok_def owed_ok_def)
  then have c: "unat ?c = owed_dispatch (dr_owed d)" by (simp add: unsigned_of_nat take_bit_nat_eq_self)
  with False have "?c \<noteq> 0" by (auto simp: word_unat_eq_iff)
  from bd_leads_one [OF assms bd_dispatch_credit [OF refl refl this eq_imp_le [OF c]]] c show ?thesis
    unfolding rn_AcceptDispatchCredit_def by fastforce
qed

lemma grant_ldq:
  assumes "be_params_ok p q" "owed_ok p w" "bd_ok p q w d"
  shows "\<exists>d' s. bd_leads p q w d [] d' \<and> dr_sys d' = (dr_sys d)\<lparr>be_rn := s\<rparr>
    \<and> renaming_stage_queue s = renaming_stage_queue (be_rn (dr_sys d)) \<and> dr_owed d' = (dr_owed d)\<lparr>owed_ldq := 0\<rparr>"
proof (cases "owed_ldq (dr_owed d) = 0")
  case True
  then show ?thesis using bd_leads_refl [OF assms(3)] by (intro exI [of _ d] exI [of _ "be_rn (dr_sys d)"]) simp
next
  case False
  let ?c = "word_of_nat (owed_ldq (dr_owed d)) :: Credit"
  have "owed_ldq (dr_owed d) < 2 ^ 64" using assms(2,3) by (auto simp: bd_ok_def bd_credits_ok_def owed_ok_def)
  then have c: "unat ?c = owed_ldq (dr_owed d)" by (simp add: unsigned_of_nat take_bit_nat_eq_self)
  with False have "?c \<noteq> 0" by (auto simp: word_unat_eq_iff)
  from bd_leads_one [OF assms bd_ldq_credit [OF refl refl this eq_imp_le [OF c]]] c show ?thesis
    unfolding rn_AcceptLoadQueueCredit_def by fastforce
qed

lemma grant_stq:
  assumes "be_params_ok p q" "owed_ok p w" "bd_ok p q w d"
  shows "\<exists>d' s. bd_leads p q w d [] d' \<and> dr_sys d' = (dr_sys d)\<lparr>be_rn := s\<rparr>
    \<and> renaming_stage_queue s = renaming_stage_queue (be_rn (dr_sys d)) \<and> dr_owed d' = (dr_owed d)\<lparr>owed_stq := 0\<rparr>"
proof (cases "owed_stq (dr_owed d) = 0")
  case True
  then show ?thesis using bd_leads_refl [OF assms(3)] by (intro exI [of _ d] exI [of _ "be_rn (dr_sys d)"]) simp
next
  case False
  let ?c = "word_of_nat (owed_stq (dr_owed d)) :: Credit"
  have "owed_stq (dr_owed d) < 2 ^ 64" using assms(2,3) by (auto simp: bd_ok_def bd_credits_ok_def owed_ok_def)
  then have c: "unat ?c = owed_stq (dr_owed d)" by (simp add: unsigned_of_nat take_bit_nat_eq_self)
  with False have "?c \<noteq> 0" by (auto simp: word_unat_eq_iff)
  from bd_leads_one [OF assms bd_stq_credit [OF refl refl this eq_imp_le [OF c]]] c show ?thesis
    unfolding rn_AcceptStoreQueueCredit_def by fastforce
qed

lemma grant_all:
  assumes "be_params_ok p q" "owed_ok p w" "bd_ok p q w d"
  shows "\<exists>d' s. bd_leads p q w d [] d' \<and> dr_sys d' = (dr_sys d)\<lparr>be_rn := s\<rparr>
    \<and> renaming_stage_queue s = renaming_stage_queue (be_rn (dr_sys d))
    \<and> dr_owed d' = \<lparr>owed_dispatch = 0, owed_ldq = 0, owed_stq = 0\<rparr>"
proof -
  from grant_dispatch [OF assms] obtain d1 s1 where
    d1: "bd_leads p q w d [] d1" "dr_sys d1 = (dr_sys d)\<lparr>be_rn := s1\<rparr>"
      "renaming_stage_queue s1 = renaming_stage_queue (be_rn (dr_sys d))" "dr_owed d1 = (dr_owed d)\<lparr>owed_dispatch := 0\<rparr>" by blast
  from grant_ldq [OF assms(1,2) bd_leads_ok [OF d1(1)]] obtain d2 s2 where
    d2: "bd_leads p q w d1 [] d2" "dr_sys d2 = (dr_sys d1)\<lparr>be_rn := s2\<rparr>"
      "renaming_stage_queue s2 = renaming_stage_queue (be_rn (dr_sys d1))" "dr_owed d2 = (dr_owed d1)\<lparr>owed_ldq := 0\<rparr>" by blast
  from grant_stq [OF assms(1,2) bd_leads_ok [OF d2(1)]] obtain d3 s3 where
    d3: "bd_leads p q w d2 [] d3" "dr_sys d3 = (dr_sys d2)\<lparr>be_rn := s3\<rparr>"
      "renaming_stage_queue s3 = renaming_stage_queue (be_rn (dr_sys d2))" "dr_owed d3 = (dr_owed d2)\<lparr>owed_stq := 0\<rparr>" by blast
  have "bd_leads p q w d [] d3" by (rule bd_leads_trans0 [OF d1(1) bd_leads_trans0 [OF d2(1) d3(1)]])
  with d1(2-) d2(2-) d3(2-) show ?thesis by (intro exI [of _ d3] exI [of _ s3]) simp
qed

lemma be_rename_progress:
  assumes "be_params_ok p q" "owed_ok p w" "bd_ok p q w d" "be_renamed (dr_sys d) = []" "credits_to_rn (dr_sys d) = []"
    and "renaming_stage_queue (be_rn (dr_sys d)) \<noteq> []"
  shows "\<exists>d'. bd_leads p q w d [] d'
    \<and> length (renaming_stage_queue (be_rn (dr_sys d'))) < length (renaming_stage_queue (be_rn (dr_sys d)))"
proof -
  from grant_all [OF assms(1-3)] obtain d1 s1 where
    d1: "bd_leads p q w d [] d1" "dr_sys d1 = (dr_sys d)\<lparr>be_rn := s1\<rparr>" "dr_owed d1 = \<lparr>owed_dispatch = 0, owed_ldq = 0, owed_stq = 0\<rparr>"
      "renaming_stage_queue s1 = renaming_stage_queue (be_rn (dr_sys d))" by blast
  define b1 where "b1 = dr_sys d1"
  let ?s = "be_rn b1" and ?P = "unat (rp_phy_reg_num p)"
  have q: "renaming_stage_queue ?s = renaming_stage_queue (be_rn (dr_sys d))" "be_renamed b1 = []" "credits_to_rn b1 = []"
    using assms(4,5) d1(2,4) by (simp_all add: b1_def be_renamed_def)
  note ok = bd_leads_ok [OF d1(1)]
  note inv = bd_ok_inv [OF ok, folded b1_def] and cfg = bd_ok_config [OF ok, folded b1_def]
  have i: "rn_inv ?P ?s []" "distinct (renaming_stage_queue ?s)"
      "\<forall>p \<in> set (renaming_stage_queue ?s). rn_regs_ok (be_heap b1) ?s p"
    using inv q(2) by (simp_all add: be_inv_def be_live_def)
  have rob: "unat (rn_rob_credit ?s) = unat (robp_queue_depth q)" by (rule be_inv_settled [OF inv q(2,3)])
  have "unat (rn_issue_width ?s) = unat (rp_issue_width p)" using cfg by (simp add: be_config_def)
  then have width: "rn_issue_width ?s \<noteq> 0" using assms(1) by (auto simp: be_params_ok_def word_unat_eq_iff)
  have n: "rn_produce_inst_num ?s \<noteq> 0"
  proof
    assume "rn_produce_inst_num ?s = 0"
    from produce_zero [OF this width] rob ok d1(3) assms(1,2) cfg show False
      by (auto simp: bd_ok_def bd_credits_ok_def owed_ok_def be_config_def be_params_ok_def word_less_nat_alt b1_def)
  qed
  have due: "rename_due d1" using ok assms(6) q(1) rob d1(3) by (auto simp: bd_ok_def bd_awake_def bd_owing_def b1_def)
  from RenameInst_ok [OF i] obtain k h s effs where
    e: "RenameInst (be_heap b1) ?s = Inr (h, s, effs)" and
    post: "rn_loop_post ?P (be_heap b1) ?s [] (unat (rn_produce_inst_num ?s)) k h s" by blast
  have "unat (isa_reg_num (rn_renaming_table ?s)) \<le> unat (rp_isa_reg_num p)"
    using cfg by (simp add: be_config_def unsigned_ucast_eq)
  moreover have isa: "isa_reg_num (rn_renaming_table s) = isa_reg_num (rn_renaming_table ?s)"
    using post by (intro rt_ok_isa) (simp add: rn_loop_post_def)
  ultimately have few: "unat (isa_reg_num (rn_renaming_table s)) < ?P" using assms(1) by (simp add: be_params_ok_def)
  have "k \<noteq> 0"
  proof
    assume "k = 0"
    with post have "rn_inv ?P s []" "free_list (rn_free_list s) = [] \<or> rn_produce_inst_num ?s = 0 \<or> renaming_stage_queue ?s = []"
      by (auto simp: rn_loop_post_def unat_eq_zero)
    with rn_inv_free_left [OF _ few] n assms(6) q(1) show False by simp
  qed
  then have "length (renaming_stage_queue s) < length (renaming_stage_queue (be_rn (dr_sys d)))"
    using post assms(6) q(1) by (simp add: rn_loop_post_def)
  moreover note bd_leads_trans0 [OF d1(1) bd_leads_one [OF assms(1,2) ok bd_rename [OF b1_def due e, where pending = False]]]
  ultimately show ?thesis by fastforce
qed

lemma drain_all:
  assumes "be_params_ok p q" "owed_ok p w" "bd_ok p q w d"
  shows "\<exists>rs d'. bd_leads p q w d rs d' \<and> be_live (dr_sys d') = [] \<and> credits_to_rn (dr_sys d') = []"
  using assms(3)
proof (induction "length (renaming_stage_queue (be_rn (dr_sys d)))" arbitrary: d rule: less_induct)
  case less
  from be_settle [OF assms(1,2) less.prems] obtain rs d1 where
    d1: "bd_leads p q w d rs d1" "be_renamed (dr_sys d1) = []" "credits_to_rn (dr_sys d1) = []"
      "renaming_stage_queue (be_rn (dr_sys d1)) = renaming_stage_queue (be_rn (dr_sys d))" by blast
  show ?case
  proof (cases "renaming_stage_queue (be_rn (dr_sys d)) = []")
    case True
    with d1 show ?thesis by (intro exI [of _ rs] exI [of _ d1]) (simp add: be_live_def)
  next
    case False
    with be_rename_progress [OF assms(1,2) bd_leads_ok [OF d1(1)] d1(2,3)] d1(4) obtain d2 where
      d2: "bd_leads p q w d1 [] d2"
        "length (renaming_stage_queue (be_rn (dr_sys d2))) < length (renaming_stage_queue (be_rn (dr_sys d)))" by auto
    from less.hyps [OF d2(2) bd_leads_ok [OF d2(1)]] obtain rs' d3 where
      d3: "bd_leads p q w d2 rs' d3" "be_live (dr_sys d3) = []" "credits_to_rn (dr_sys d3) = []" by blast
    from bd_leads_trans [OF d1(1) bd_leads_trans0 [OF d2(1) d3(1)]] d3(2,3) show ?thesis by blast
  qed
qed

text \<open>With nothing in flight every register is free or in the committed map.\<close>

lemma rn_inv_idle_registers:
  assumes "rn_inv P s []"
  shows "distinct (free_list (rn_free_list s) @ rn_live s) \<and> set (free_list (rn_free_list s)) \<union> set (rn_live s) = {t. t \<noteq> 0 \<and> unat t < P}"
proof -
  have m: "mset (free_list (rn_free_list s)) = mset (free_list_backup (rn_free_list s))"
    using assms by (simp add: rn_inv_def fl.owned_def rn_owned_def)
  then have "mset (free_list (rn_free_list s) @ rn_live s) = mset (free_list_backup (rn_free_list s) @ rn_live s)" by simp
  from mset_eq_imp_distinct_iff [OF this] mset_eq_setD [OF m] rn_inv_committed_distinct [OF assms] show ?thesis by simp
qed

section \<open>Properties\<close>

text \<open>
  (C12) No deadlock and no leak between renaming stage and reorder buffer, as long as no instruction is mispredicted,
  hence no flush arrives, and the buffer retires without a limit. The handlers of \<open>rename_event\<close> and
  \<open>commit_event\<close> run only when their event is scheduled; dispatch stage and load-store unit grant only credits they
  owe, and owe one more for each instruction they got. With more physical than architectural registers, non-zero
  widths and a non-zero number of places, every reachable state can go on without further deliveries, once
  executed instructions are reported and owed credits granted, to a state in which all instructions delivered
  so far have been released, in order; all credits of the buffer are back, and every physical register is again in
  the pool or in the committed map. So no instruction is left without a scheduled handler or a
  credit to wait for, and neither credits nor registers are lost.
\<close>

theorem Backend_drains:
  assumes "be_params_ok p q" "owed_ok p w" "bd_run p q w ins outs d"
  shows "\<exists>rs d'. bd_steps d rs d' \<and> ins = outs @ rs \<and> be_live (dr_sys d') = [] \<and> credits_to_rn (dr_sys d') = []
    \<and> unat (rn_rob_credit (be_rn (dr_sys d'))) = unat (robp_queue_depth q)
    \<and> distinct (free_list (rn_free_list (be_rn (dr_sys d'))) @ rn_live (be_rn (dr_sys d')))
    \<and> set (free_list (rn_free_list (be_rn (dr_sys d')))) \<union> set (rn_live (be_rn (dr_sys d')))
        = {t. t \<noteq> 0 \<and> unat t < unat (rp_phy_reg_num p)}"
proof -
  from drain_all [OF assms(1,2) bd_run_ok [OF assms]] obtain rs d' where
    d: "bd_leads p q w d rs d'" "be_live (dr_sys d') = []" "credits_to_rn (dr_sys d') = []" by blast
  have "ins = outs @ be_live (dr_sys d)"
    using be_run_inv [OF bd_run_sys [OF assms(3)]] assms(1) by (simp add: be_params_ok_def)
  then have ins: "ins = outs @ rs" "bd_steps d rs d'" using d by (simp_all add: bd_leads_def)
  note inv = bd_ok_inv [OF bd_leads_ok [OF d(1)]]
  have r: "be_renamed (dr_sys d') = []" using d(2) by (simp add: be_live_def)
  have "rn_inv (unat (rp_phy_reg_num p)) (be_rn (dr_sys d')) []" using inv r by (simp add: be_inv_def)
  from rn_inv_idle_registers [OF this] be_inv_settled [OF inv r d(3)] ins d(2,3) show ?thesis by blast
qed

lemma be_example_params_ok: "be_params_ok rn_example be_example_rob"
  using rn_example_ok by (simp add: be_params_ok_def rn_example_def be_example_rob_def)

text \<open>A run: the buffer's credits arrive, then two instructions; the four places of the dispatch stage are still owed.\<close>

definition bd_example_owed :: owed_credits where
  "bd_example_owed = \<lparr>owed_dispatch = 4, owed_ldq = 0, owed_stq = 0\<rparr>"

lemma bd_example_owed_ok: "owed_ok rn_example bd_example_owed"
  by (simp add: owed_ok_def bd_example_owed_def rn_example_def)

lemma bd_example_run: "\<exists>d. bd_run rn_example be_example_rob bd_example_owed [0, 1] [] d
    \<and> renaming_stage_queue (be_rn (dr_sys d)) = [0, 1] \<and> dr_owed d = bd_example_owed"
proof -
  from rn_inv_init [OF rn_example_ok] obtain s where s: "mk_RenamingStage rn_example = Inr s"
    "renaming_stage_queue s = []" "rn_renaming_table s = mk_RenamingTable 32 0" by (auto simp: rn_example_def)
  define b where "b = \<lparr>be_heap = be_example_heap, be_rn = s, be_rob = mk_Rob be_example_rob, to_rob = [],
    to_rn = [], credits_to_rn = rob_credits (rob_InitCredit (mk_Rob be_example_rob))\<rparr>"
  define d where "d = \<lparr>dr_sys = b, rename_due = False, commit_due = False, dr_owed = bd_example_owed\<rparr>"
  have r0: "bd_run rn_example be_example_rob bd_example_owed [] [] d"
    unfolding d_def b_def by (rule bd_start, rule be_start.intros, rule s(1))
  let ?s1 = "s\<lparr>rn_rob_credit := rn_rob_credit s + 8\<rparr>"
  let ?d1 = "d\<lparr>dr_sys := b\<lparr>be_rn := ?s1, credits_to_rn := []\<rparr>, rename_due := rename_due d \<or> rn_wakes [rename_event 0]\<rparr>"
  have d1: "bd_step d ([], []) ?d1"
    by (rule bd_rob_credit [where c = 8])
      (simp_all add: d_def b_def rob_InitCredit_def mk_Rob_def be_example_rob_def rn_AcceptRobCredit_def)
  have rob: "rob_insts (mk_Rob be_example_rob) = []"
    using mk_Rob_good [of be_example_rob be_example_heap] by (simp add: be_example_rob_def)
  have "bd_step ?d1 ([0, 1], []) (?d1\<lparr>dr_sys := (dr_sys ?d1)\<lparr>be_rn := fst (rn_AllocateInst ?s1 [0, 1])\<rparr>,
      rename_due := rename_due ?d1 \<or> rn_wakes (snd (rn_AllocateInst ?s1 [0, 1]))\<rparr>)"
    by (rule bd_frontend [OF refl])
      (simp_all add: b_def be_live_def be_renamed_def rob s(2,3) rn_regs_ok_def rt_ok_def mk_RenamingTable_ok
        be_example_heap_def)
  from bd_more [OF bd_more [OF r0 d1] this] show ?thesis
    by (rule_tac exI, rule_tac conjI, simp) (simp add: d_def s(2) rn_AllocateInst_queue)
qed

theorem Backend_drains_witness:
  "\<exists>d d'. bd_run rn_example be_example_rob bd_example_owed [0, 1] [] d \<and> bd_steps d [0, 1] d' \<and> be_live (dr_sys d') = []
     \<and> unat (rn_rob_credit (be_rn (dr_sys d'))) = 8"
proof -
  obtain d where d: "bd_run rn_example be_example_rob bd_example_owed [0, 1] [] d" using bd_example_run by blast
  from Backend_drains [OF be_example_params_ok bd_example_owed_ok d] obtain d' where
    "bd_steps d [0, 1] d'" "be_live (dr_sys d') = []" "unat (rn_rob_credit (be_rn (dr_sys d'))) = 8"
    by (auto simp: be_example_rob_def)
  with d show ?thesis by blast
qed

end
