(* ===== verification/Issue_Link.thy ===== *)
theory Issue_Link
  imports Dispatch_Stage Perfect_Fu
begin

text \<open>
  The dispatch stage and the reservation stations behind it, connected as in the configurations: what the stage
  sends reaches every station, which takes the groups that carry its name; credits come back with the name of
  the station; a write-back reaches the stage and every station.
\<close>

section \<open>The system\<close>

definition pair_groups :: "ds_effect list \<Rightarrow> InstGroupPair list" where
  "pair_groups effs = concat (map (\<lambda>e. case e of dispatch_rs_inst_out g \<Rightarrow> [g] | _ \<Rightarrow> []) effs)"

definition rs_pairs :: "rs_effect list \<Rightarrow> CreditPair list" where
  "rs_pairs effs = concat (map (\<lambda>e. case e of reservation_preceding_credit_out c \<Rightarrow> [c] | _ \<Rightarrow> []) effs)"

definition station_names :: "GlobalParam \<Rightarrow> string list" where
  "station_names gp = map fst (dispatch_following_map gp)"

text \<open>
  The stations by name, the messages on their way, and three records of the past: what came in, what went on to each
  unit, and what flushes removed.
\<close>

record issue_link =
  il_heap :: inst_heap
  il_ds :: DispatchStage
  il_rs :: "string \<Rightarrow> ReservationStation"
  il_wire :: "InstGroupPair list"
  il_credits :: "CreditPair list"
  il_received :: "inst_ptr list"
  il_sent :: "string \<Rightarrow> inst_ptr list"
  il_flushed :: "inst_ptr list"

text \<open>The instructions in a station that it has not passed on.\<close>

definition rs_unissued :: "ReservationStation \<Rightarrow> inst_ptr list" where
  "rs_unissued s = map (rs_inst s) (filter (\<lambda>e. \<not> re_is_issued (rs_entries s e)) (reservation_station s))"

text \<open>A message that every station gets.\<close>

definition at_station :: "(ReservationStation \<Rightarrow> ReservationStation result) \<Rightarrow> (string \<Rightarrow> ReservationStation) \<Rightarrow> string
    \<Rightarrow> (string \<Rightarrow> ReservationStation) result" where
  "at_station f rs n = bindE (f (rs n)) (\<lambda>s. Inr (rs(n := s)))"

definition at_stations :: "GlobalParam \<Rightarrow> (ReservationStation \<Rightarrow> ReservationStation result)
    \<Rightarrow> (string \<Rightarrow> ReservationStation) \<Rightarrow> (string \<Rightarrow> ReservationStation) result" where
  "at_stations gp f rs = foldE (at_station f) rs (station_names gp)"

definition il_deliver :: "GlobalParam \<Rightarrow> inst_heap \<Rightarrow> InstGroupPair \<Rightarrow> (string \<Rightarrow> ReservationStation)
    \<Rightarrow> (string \<Rightarrow> ReservationStation) result" where
  "il_deliver gp h g = at_stations gp (\<lambda>s. bindE (AllocateReStation h s g) (\<lambda>(s', effs). Inr s'))"

definition il_forward :: "GlobalParam \<Rightarrow> inst_heap \<Rightarrow> InstGroup \<Rightarrow> (string \<Rightarrow> ReservationStation)
    \<Rightarrow> (string \<Rightarrow> ReservationStation) result" where
  "il_forward gp h g = at_stations gp (\<lambda>s. GetForwardingData h s g)"

definition il_fresh :: "issue_link \<Rightarrow> InstGroup \<Rightarrow> bool" where
  "il_fresh x g \<longleftrightarrow> distinct (il_received x @ g)
   \<and> (\<forall>p \<in> set g. ds_regs_ok (ds_scoreboard (il_ds x)) (il_heap x) p
        \<and> (getRdType (il_heap x p) \<noteq> RT_NONE \<longrightarrow> sb_ok (ds_scoreboard (il_ds x)) (getPhyRd (il_heap x p)))
        \<and> \<not> getIsRs1Forward (il_heap x p) \<and> \<not> getIsRs2Forward (il_heap x p))"

text \<open>What nobody else changes of an instruction while it is here.\<close>

definition same_sources :: "Inst \<Rightarrow> Inst \<Rightarrow> bool" where
  "same_sources i j \<longleftrightarrow> getFuType j = getFuType i
   \<and> getRs1Type j = getRs1Type i \<and> getPhyRs1 j = getPhyRs1 i \<and> getIsRs1Forward j = getIsRs1Forward i
   \<and> getRs2Type j = getRs2Type i \<and> getPhyRs2 j = getPhyRs2 i \<and> getIsRs2Forward j = getIsRs2Forward i"

text \<open>
  The handlers of the stage and of the stations, the deliveries, and the rest of the core, in any order but one.
  A write-back arrives everywhere in the same cycle; there the stations take what the stage sent in the cycle
  before first (\<open>rs_allocate_forwarding\<close>), and the stage selects afterwards (\<open>dispatch_node\<close>). So at a
  write-back nothing is selected but not yet in a station. A flush reaches the stage and every station in the same
  cycle; it is a step only while neither groups nor credits are on their way between them. With a group on its way the
  station would hold it after offering all its places; with a credit on its way the stage would get that place twice.
\<close>

inductive il_step :: "GlobalParam \<Rightarrow> issue_link \<Rightarrow> issue_link \<Rightarrow> bool" for gp where
  il_receive: "il_fresh x g \<Longrightarrow> ds_AllocateInst (il_heap x) (il_ds x) g = Inr (d, effs) \<Longrightarrow>
    il_step gp x (x\<lparr>il_ds := d, il_received := il_received x @ g\<rparr>)"
| il_select: "SelectInst gp (il_heap x) (il_ds x) = Inr (h, d, effs) \<Longrightarrow>
    il_step gp x (x\<lparr>il_heap := h, il_ds := d\<rparr>)"
| il_issue: "ds_IssueInst (il_ds x) = (d, effs) \<Longrightarrow>
    il_step gp x (x\<lparr>il_ds := d, il_wire := il_wire x @ pair_groups effs\<rparr>)"
| il_ds_pop: "ds_PopIssueQueue (il_ds x) = (d, effs) \<Longrightarrow> il_step gp x (x\<lparr>il_ds := d\<rparr>)"
| il_take: "il_wire x = g # gs \<Longrightarrow> il_deliver gp (il_heap x) g (il_rs x) = Inr rs \<Longrightarrow>
    il_step gp x (x\<lparr>il_rs := rs, il_wire := gs\<rparr>)"
| il_credit: "il_credits x = c # cs \<Longrightarrow> ds_AcceptCredit (il_ds x) c = Inr d \<Longrightarrow>
    il_step gp x (x\<lparr>il_ds := d, il_credits := cs\<rparr>)"
| il_write_back: "il_wire x = [] \<Longrightarrow> ds_pending (il_ds x) = [] \<Longrightarrow>
    \<forall>p \<in> set g. sb_ok (ds_scoreboard (il_ds x)) (getPhyRd (il_heap x p)) \<Longrightarrow>
    ds_FuncUnitBack (il_heap x) (il_ds x) g = Inr d \<Longrightarrow> il_forward gp (il_heap x) g (il_rs x) = Inr rs \<Longrightarrow>
    il_step gp x (x\<lparr>il_ds := d, il_rs := rs\<rparr>)"
| il_pass: "n \<in> set (station_names gp) \<Longrightarrow> PassingInst (il_rs x n) = (s, effs) \<Longrightarrow>
    il_step gp x (x\<lparr>il_rs := (il_rs x)(n := s), il_credits := il_credits x @ rs_pairs effs,
      il_sent := (il_sent x)(n := il_sent x n @ concat (rs_sent effs))\<rparr>)"
| il_rs_pop: "n \<in> set (station_names gp) \<Longrightarrow> rs_PopInst (il_rs x n) = (s, effs) \<Longrightarrow>
    il_step gp x (x\<lparr>il_rs := (il_rs x)(n := s)\<rparr>)"
| il_unit_credit: "n \<in> set (station_names gp) \<Longrightarrow> rs_AcceptCredit (il_rs x n) c = (s, effs) \<Longrightarrow>
    il_step gp x (x\<lparr>il_rs := (il_rs x)(n := s)\<rparr>)"
| il_flush: "il_wire x = [] \<Longrightarrow> il_credits x = [] \<Longrightarrow> ds_pending (il_ds x) = [] \<Longrightarrow> ds_HandleFlush (il_ds x) fc = (d, effs) \<Longrightarrow>
    il_step gp x (x\<lparr>il_ds := d, il_rs := (\<lambda>n. fst (rs_HandleFlush (il_rs x n) fc)),
      il_credits := concat (map (\<lambda>n. rs_pairs (snd (rs_HandleFlush (il_rs x n) fc))) (station_names gp)),
      il_flushed := il_flushed x @ waiting (ds_inst_queue (il_ds x))
        @ concat (map (\<lambda>n. rs_unissued (il_rs x n)) (station_names gp))\<rparr>)"
| il_store: "\<forall>p \<in> set (il_received x). same_sources (il_heap x p) (h p) \<Longrightarrow> il_step gp x (x\<lparr>il_heap := h\<rparr>)"

text \<open>The start: every station has offered its places.\<close>

definition il_start :: "GlobalParam \<Rightarrow> DispatchStage \<Rightarrow> (string \<Rightarrow> ReservationStationParameter) \<Rightarrow> issue_link \<Rightarrow> bool" where
  "il_start gp d rp x \<longleftrightarrow> il_ds x = d \<and> il_rs x = (\<lambda>n. mk_ReservationStation n (rp n)) \<and> il_wire x = []
   \<and> il_credits x = concat (map (\<lambda>n. rs_pairs (rs_InitCredit (il_rs x n))) (station_names gp))
   \<and> il_received x = [] \<and> il_sent x = (\<lambda>_. []) \<and> il_flushed x = []"

section \<open>Stations by name\<close>

lemma at_stations_ok:
  assumes "distinct ns" "\<forall>n \<in> set ns. \<exists>s. f (rs n) = Inr s"
  shows "\<exists>rs'. foldE (at_station f) rs ns = Inr rs'"
  using assms
proof (induction ns arbitrary: rs)
  case (Cons n ns)
  obtain s where s: "f (rs n) = Inr s" using Cons.prems(2) by auto
  have "\<forall>m \<in> set ns. \<exists>s'. f ((rs(n := s)) m) = Inr s'" using Cons.prems by auto
  with Cons.IH [of "rs(n := s)"] Cons.prems(1) s show ?case by (simp add: at_station_def del: fun_upd_apply)
qed simp

lemma at_stations_Inr:
  assumes "foldE (at_station f) rs ns = Inr rs'" "distinct ns"
  shows "(\<forall>n \<in> set ns. f (rs n) = Inr (rs' n)) \<and> (\<forall>n. n \<notin> set ns \<longrightarrow> rs' n = rs n)"
  using assms
proof (induction ns arbitrary: rs)
  case (Cons n ns)
  obtain rs1 where r: "at_station f rs n = Inr rs1" "foldE (at_station f) rs1 ns = Inr rs'"
    using Cons.prems(1) by (cases "at_station f rs n") auto
  then obtain s where s: "f (rs n) = Inr s" "rs1 = rs(n := s)" by (auto simp: at_station_def bindE_eq_Inr)
  with Cons.IH [OF r(2)] Cons.prems(2) show ?case by (auto split: if_splits)
qed simp

section \<open>What the dispatch stage does to the registers\<close>

definition flag_regs :: "inst_heap \<Rightarrow> inst_ptr set \<Rightarrow> PhyRegId_t set" where
  "flag_regs h P = (\<lambda>p. getPhyRs1 (h p)) ` {p \<in> P. getIsRs1Forward (h p)} \<union> (\<lambda>p. getPhyRs2 (h p)) ` {p \<in> P. getIsRs2Forward (h p)}"

lemma flag_regs_mono: "P \<subseteq> Q \<Longrightarrow> flag_regs h P \<subseteq> flag_regs h Q"
  by (auto simp: flag_regs_def)

lemma GetBusyBit_busy: "GetBusyBit sb i = Inr b \<Longrightarrow> b \<longleftrightarrow> i \<in> sb_busy sb"
  by (auto simp: GetBusyBit_def sb_busy_def vec_get_def result_simps split: if_splits)

text \<open>The marks a selection sets: only on what it selects, and only for busy registers.\<close>

definition marks_rel :: "Scoreboard \<Rightarrow> inst_ptr set \<Rightarrow> inst_heap \<Rightarrow> inst_heap \<Rightarrow> bool" where
  "marks_rel sb P h h' \<longleftrightarrow> fwd_frame h h' \<and> (\<forall>q. q \<notin> P \<longrightarrow> h' q = h q)
   \<and> (\<forall>q. (getIsRs1Forward (h' q) \<longrightarrow> getIsRs1Forward (h q) \<or> getPhyRs1 (h q) \<in> sb_busy sb)
       \<and> (getIsRs2Forward (h' q) \<longrightarrow> getIsRs2Forward (h q) \<or> getPhyRs2 (h q) \<in> sb_busy sb))"

lemma fwd_frame_sources:
  assumes "fwd_frame h h'"
  shows "getPhyRs1 (h' p) = getPhyRs1 (h p)" "getPhyRs2 (h' p) = getPhyRs2 (h p)" "getRs1Type (h' p) = getRs1Type (h p)"
    "getRs2Type (h' p) = getRs2Type (h p)"
proof -
  obtain a b where "h' p = setIsRs1Forward a (setIsRs2Forward b (h p))" using assms unfolding fwd_frame_def by blast
  then show "getPhyRs1 (h' p) = getPhyRs1 (h p)" "getPhyRs2 (h' p) = getPhyRs2 (h p)" "getRs1Type (h' p) = getRs1Type (h p)"
    "getRs2Type (h' p) = getRs2Type (h p)" by simp_all
qed

lemma marks_rel_refl: "marks_rel sb P h h"
  by (simp add: marks_rel_def)

lemma marks_rel_trans:
  assumes "marks_rel sb P h h1" "marks_rel sb P' h1 h2"
  shows "marks_rel sb (P \<union> P') h h2"
proof -
  have f: "fwd_frame h h1" "fwd_frame h1 h2" using assms by (simp_all add: marks_rel_def)
  note s = fwd_frame_sources(1,2) [OF f(1)]
  have "\<forall>q. (getIsRs1Forward (h2 q) \<longrightarrow> getIsRs1Forward (h q) \<or> getPhyRs1 (h q) \<in> sb_busy sb)
       \<and> (getIsRs2Forward (h2 q) \<longrightarrow> getIsRs2Forward (h q) \<or> getPhyRs2 (h q) \<in> sb_busy sb)"
    using assms unfolding marks_rel_def s by blast
  moreover have "\<forall>q. q \<notin> P \<union> P' \<longrightarrow> h2 q = h q" using assms unfolding marks_rel_def by simp
  ultimately show ?thesis using fwd_frame_trans [OF f] unfolding marks_rel_def by blast
qed

lemma marks_rel_mono: "marks_rel sb P h h' \<Longrightarrow> P \<subseteq> P' \<Longrightarrow> marks_rel sb P' h h'"
  unfolding marks_rel_def by blast

lemma CheckRegStatusImp_marks:
  assumes "CheckRegStatusImp sb h p = Inr h'"
  shows "marks_rel sb {p} h h'"
proof -
  define h1 where "h1 = (if getRs1Type (h p) \<noteq> RT_NONE \<and> getPhyRs1 (h p) \<in> sb_busy sb then on_inst p (setIsRs1Forward True) h else h)"
  have 1: "(if getRs1Type (h p) \<noteq> RT_NONE then bindE (GetBusyBit sb (getPhyRs1 (h p)))
      (\<lambda>b. Inr (if b then on_inst p (setIsRs1Forward True) h else h)) else Inr h) = Inr h1"
    using assms GetBusyBit_busy by (force simp: CheckRegStatusImp_def bindE_eq_Inr h1_def simp del: getPhyRs1_def getRs1Type_def)
  have s: "getPhyRs2 (h1 p) = getPhyRs2 (h p)" "getRs2Type (h1 p) = getRs2Type (h p)" by (simp_all add: h1_def on_inst_def)
  have 2: "h' = (if getRs2Type (h p) \<noteq> RT_NONE \<and> getPhyRs2 (h p) \<in> sb_busy sb then on_inst p (setIsRs2Forward True) h1 else h1)"
    using assms GetBusyBit_busy unfolding CheckRegStatusImp_def 1 bindE_Inr s [symmetric]
    by (force simp: bindE_eq_Inr simp del: getPhyRs2_def getRs2Type_def split: if_splits)
  have "fwd_frame h h1" "fwd_frame h1 h'" by (simp_all add: h1_def 2 fwd_frame_set)
  then have "fwd_frame h h'" by (rule fwd_frame_trans)
  then show ?thesis unfolding marks_rel_def by (auto simp: 2 h1_def on_inst_def)
qed

definition sel_marks :: "Scoreboard \<Rightarrow> select_state \<times> IssueQueueEntry list \<Rightarrow> select_state \<times> IssueQueueEntry list \<Rightarrow> bool" where
  "sel_marks sb = (\<lambda>(t, es) (t', es'). map iq_inst_ptr es' = map iq_inst_ptr es \<and> set (waiting es') \<subseteq> set (waiting es)
     \<and> marks_rel sb (set (waiting es) - set (waiting es')) (sel_heap t) (sel_heap t'))"

lemma sel_marks_refl: "sel_marks sb x x"
  by (cases x) (simp add: sel_marks_def marks_rel_refl)

lemma sel_marks_trans:
  assumes "sel_marks sb x y" "sel_marks sb y z"
  shows "sel_marks sb x z"
proof -
  obtain t es t1 es1 t2 es2 where x [simp]: "x = (t, es)" "y = (t1, es1)" "z = (t2, es2)"
    by (cases x, cases y, cases z) auto
  have m: "marks_rel sb ((set (waiting es) - set (waiting es1)) \<union> (set (waiting es1) - set (waiting es2))) (sel_heap t) (sel_heap t2)"
    using assms by (intro marks_rel_trans [where ?h1.0 = "sel_heap t1"]) (simp_all add: sel_marks_def)
  have s: "set (waiting es2) \<subseteq> set (waiting es1)" "set (waiting es1) \<subseteq> set (waiting es)"
    "map iq_inst_ptr es2 = map iq_inst_ptr es" using assms by (simp_all add: sel_marks_def)
  then have "(set (waiting es) - set (waiting es1)) \<union> (set (waiting es1) - set (waiting es2)) \<subseteq> set (waiting es) - set (waiting es2)"
    by blast
  from s marks_rel_mono [OF m this] show ?thesis by (simp add: sel_marks_def)
qed

lemma waiting_Cons: "waiting (e # es) = (if iq_is_issued e then waiting es else iq_inst_ptr e # waiting es)"
  by (simp add: waiting_def)

lemma waiting_subset: "set (waiting es) \<subseteq> set (map iq_inst_ptr es)"
  by (auto simp: waiting_def)

lemma sel_marks_Cons:
  assumes "sel_marks sb (t, es) (t', es')" "distinct (map iq_inst_ptr (e # es))"
  shows "sel_marks sb (t, e # es) (t', e # es')"
proof -
  have "iq_inst_ptr e \<notin> set (waiting es)" using assms(2) waiting_subset [of es] by auto
  then have "set (waiting (e # es)) - set (waiting (e # es')) = set (waiting es) - set (waiting es')"
    using assms(1) by (auto simp: sel_marks_def waiting_Cons)
  with assms(1) show ?thesis by (auto simp: sel_marks_def waiting_Cons)
qed

lemma SelectInst_entries_marks:
  assumes "SelectInst_entries sb n fus w t es = Inr (t', es')" "distinct (map iq_inst_ptr es)"
  shows "sel_marks sb (t, es) (t', es')"
  using assms
proof (induction es arbitrary: t w t' es')
  case Nil
  then show ?case by (simp add: sel_marks_refl)
next
  case (Cons e es)
  obtain c where c: "smap_at (sel_credit_map t) n = Inr c" using Cons.prems(1) by (auto simp: bindE_eq_Inr)
  have d: "distinct (map iq_inst_ptr es)" using Cons.prems(2) by simp
  consider "c = 0 \<or> w = 0" | "c \<noteq> 0" "w \<noteq> 0" "iq_is_issued e \<or> getFuType (sel_heap t (iq_inst_ptr e)) \<notin> fus"
    | "c \<noteq> 0" "w \<noteq> 0" "\<not> iq_is_issued e" "getFuType (sel_heap t (iq_inst_ptr e)) \<in> fus" by blast
  then show ?case
  proof cases
    case 1
    with c Cons.prems show ?thesis by (cases "c = 0") (auto simp: sel_marks_refl)
  next
    case 2
    with c Cons.prems(1) obtain es1 where e: "SelectInst_entries sb n fus w t es = Inr (t', es1)" "es' = e # es1"
      by (auto simp: bindE_eq_Inr)
    with sel_marks_Cons [OF Cons.IH [OF e(1) d] Cons.prems(2)] show ?thesis by simp
  next
    case 3
    with c Cons.prems(1) obtain h es1 where h: "CheckRegStatusImp sb (sel_heap t) (iq_inst_ptr e) = Inr h" and
      r: "SelectInst_entries sb n fus (w - 1) (select_one n h c (iq_inst_ptr e) t) es = Inr (t', es1)" "es' = e\<lparr>iq_is_issued := True\<rparr> # es1"
      by (auto simp: bindE_eq_Inr select_one_def)
    let ?t = "select_one n h c (iq_inst_ptr e) t"
    have ih: "sel_marks sb (?t, es) (t', es1)" by (rule Cons.IH [OF r(1) d])
    have m: "marks_rel sb ({iq_inst_ptr e} \<union> (set (waiting es) - set (waiting es1))) (sel_heap t) (sel_heap t')"
      using ih CheckRegStatusImp_marks [OF h] by (intro marks_rel_trans [where ?h1.0 = h]) (simp_all add: sel_marks_def select_one_def)
    have "iq_inst_ptr e \<notin> set (waiting es1)"
      using ih Cons.prems(2) waiting_subset [of es1] by (auto simp: sel_marks_def simp del: set_map)
    then have "{iq_inst_ptr e} \<union> (set (waiting es) - set (waiting es1)) \<subseteq> set (waiting (e # es)) - set (waiting es')"
      using 3(3) by (auto simp: r(2) waiting_Cons)
    from marks_rel_mono [OF m this] ih 3(3) show ?thesis by (auto simp: sel_marks_def r(2) waiting_Cons)
  qed
qed

lemma SelectInst_marks:
  assumes "SelectInst gp h s = Inr (h', s', effs)" "distinct (map iq_inst_ptr (ds_inst_queue s))"
  shows "sel_marks (ds_scoreboard s) (sel_of h s 0, ds_inst_queue s) (sel_of h' s' 0, ds_inst_queue s')"
proof -
  obtain t es where r: "foldE (SelectInst_unit gp (ds_scoreboard s)) (sel_of h s 0, ds_inst_queue s) (dispatch_following_map gp) = Inr (t, es)"
    "h' = sel_heap t" "ds_inst_queue s' = es"
    using assms(1) by (auto simp: SelectInst_def sel_of_def bindE_eq_Inr)
  have "sel_marks (ds_scoreboard s) (t0, es0) (t, es)"
    if "foldE (SelectInst_unit gp (ds_scoreboard s)) (t0, es0) dms = Inr (t, es)" "distinct (map iq_inst_ptr es0)" for dms t0 es0
    using that
  proof (induction dms arbitrary: t0 es0)
    case (Cons d dms)
    obtain t1 es1 where u: "SelectInst_unit gp (ds_scoreboard s) (t0, es0) d = Inr (t1, es1)"
      "foldE (SelectInst_unit gp (ds_scoreboard s)) (t1, es1) dms = Inr (t, es)"
      using Cons.prems(1) by (cases "SelectInst_unit gp (ds_scoreboard s) (t0, es0) d") auto
    have "sel_marks (ds_scoreboard s) (t0, es0) (t1, es1)"
      using u(1) SelectInst_entries_marks [OF _ Cons.prems(2)]
      by (cases d) (auto simp: SelectInst_unit_def bindE_eq_Inr sel_marks_refl split: if_splits)
    moreover from this have "distinct (map iq_inst_ptr es1)" using Cons.prems(2) by (simp add: sel_marks_def)
    ultimately show ?case using Cons.IH [OF u(2)] sel_marks_trans by blast
  qed (simp add: sel_marks_refl)
  from this [OF r(1) assms(2)] r(2,3) show ?thesis by (simp add: sel_marks_def sel_of_def)
qed

text \<open>The busy registers after a group was taken in, and after a write-back.\<close>

lemma ds_AllocateInst_registers:
  assumes "sb_wf (ds_scoreboard s)"
    and "\<forall>p \<in> set g. getRdType (h p) \<noteq> RT_NONE \<longrightarrow> sb_ok (ds_scoreboard s) (getPhyRd (h p))"
  shows "\<exists>s' effs. ds_AllocateInst h s g = Inr (s', effs) \<and> sb_wf (ds_scoreboard s')
    \<and> sb_busy (ds_scoreboard s) \<subseteq> sb_busy (ds_scoreboard s')
    \<and> sb_phy_regfile_num (ds_scoreboard s') = sb_phy_regfile_num (ds_scoreboard s)
    \<and> ds_inst_queue s' = ds_inst_queue s @ map (\<lambda>p. \<lparr>iq_inst_ptr = p, iq_is_issued = False\<rparr>) g
    \<and> ds_credit_map s' = ds_credit_map s \<and> ds_pending s' = ds_pending s"
proof -
  have "\<exists>s'. foldE (ds_AllocateInst_one h) s g = Inr s' \<and> sb_wf (ds_scoreboard s')
    \<and> sb_busy (ds_scoreboard s) \<subseteq> sb_busy (ds_scoreboard s')
    \<and> sb_phy_regfile_num (ds_scoreboard s') = sb_phy_regfile_num (ds_scoreboard s)
    \<and> ds_inst_queue s' = ds_inst_queue s @ map (\<lambda>p. \<lparr>iq_inst_ptr = p, iq_is_issued = False\<rparr>) g
    \<and> ds_credit_map s' = ds_credit_map s \<and> ds_pending s' = ds_pending s"
    using assms
  proof (induction g arbitrary: s)
    case (Cons p g)
    obtain sb where sb: "(if getRdType (h p) \<noteq> RT_NONE then SetBusyBit (ds_scoreboard s) (getPhyRd (h p)) else Inr (ds_scoreboard s)) = Inr sb"
      "sb_wf sb" "sb_busy (ds_scoreboard s) \<subseteq> sb_busy sb" "sb_phy_regfile_num sb = sb_phy_regfile_num (ds_scoreboard s)"
      using SetBusyBit_ok [OF Cons.prems(1), of "getPhyRd (h p)"] Cons.prems by (cases "getRdType (h p) \<noteq> RT_NONE") auto
    let ?s = "s\<lparr>ds_scoreboard := sb, ds_inst_queue := ds_inst_queue s @ [\<lparr>iq_inst_ptr = p, iq_is_issued = False\<rparr>]\<rparr>"
    have one: "ds_AllocateInst_one h s p = Inr ?s" unfolding ds_AllocateInst_one_def sb(1) by simp
    have "\<forall>p \<in> set g. getRdType (h p) \<noteq> RT_NONE \<longrightarrow> sb_ok (ds_scoreboard ?s) (getPhyRd (h p))"
      using Cons.prems(2) sb(4) by (simp add: sb_ok_def)
    with Cons.IH [of ?s] sb one show ?case by auto
  qed simp
  then show ?thesis by (auto simp: ds_AllocateInst_def)
qed

lemma ds_FuncUnitBack_registers:
  assumes "sb_wf (ds_scoreboard s)" "\<forall>p \<in> set g. sb_ok (ds_scoreboard s) (getPhyRd (h p))"
  shows "\<exists>sb. ds_FuncUnitBack h s g = Inr (s\<lparr>ds_scoreboard := sb\<rparr>) \<and> sb_wf sb
    \<and> sb_busy sb = sb_busy (ds_scoreboard s) - (\<lambda>p. getPhyRd (h p)) ` set g
    \<and> sb_phy_regfile_num sb = sb_phy_regfile_num (ds_scoreboard s)"
  using assms unfolding ds_FuncUnitBack_def
proof (induction g arbitrary: s)
  case Nil
  then show ?case by (intro exI [of _ "ds_scoreboard s"]) simp
next
  case (Cons p g)
  let ?f = "\<lambda>s p. if getPhyRd (h p) = 0 then Inr s
      else bindE (ClearBusyBit (ds_scoreboard s) (getPhyRd (h p))) (\<lambda>sb. Inr (s\<lparr>ds_scoreboard := sb\<rparr>))"
  have zero: "0 \<notin> sb_busy (ds_scoreboard s)" using Cons.prems(1) by (auto simp: sb_busy_def sb_wf_def)
  obtain sb where sb: "?f s p = Inr (s\<lparr>ds_scoreboard := sb\<rparr>)" "sb_wf sb" "sb_busy sb = sb_busy (ds_scoreboard s) - {getPhyRd (h p)}"
    "sb_phy_regfile_num sb = sb_phy_regfile_num (ds_scoreboard s)"
  proof (cases "getPhyRd (h p) = 0")
    case True
    with zero Cons.prems(1) show ?thesis by (intro that [of "ds_scoreboard s"]) auto
  next
    case False
    have "sb_ok (ds_scoreboard s) (getPhyRd (h p))" using Cons.prems(2) by simp
    from ClearBusyBit_ok [OF Cons.prems(1) this] False show ?thesis by (auto intro: that simp del: getPhyRd_def)
  qed
  have "\<forall>p \<in> set g. sb_ok (ds_scoreboard (s\<lparr>ds_scoreboard := sb\<rparr>)) (getPhyRd (h p))"
    using Cons.prems(2) sb(4) by (simp add: sb_ok_def)
  from Cons.IH [of "s\<lparr>ds_scoreboard := sb\<rparr>", OF _ this] sb obtain sb' where
    "foldE ?f (s\<lparr>ds_scoreboard := sb\<rparr>) g = Inr (s\<lparr>ds_scoreboard := sb'\<rparr>)" "sb_wf sb'"
    "sb_busy sb' = sb_busy sb - (\<lambda>p. getPhyRd (h p)) ` set g" "sb_phy_regfile_num sb' = sb_phy_regfile_num sb" by auto
  with sb(1,3,4) show ?case by (intro exI [of _ sb']) (auto simp del: getPhyRd_def)
qed

section \<open>What a station holds and waits for\<close>

definition rs_held :: "ReservationStation \<Rightarrow> inst_ptr set" where
  "rs_held s = rs_inst s ` set (reservation_station s)"

definition rs_waiting_regs :: "inst_heap \<Rightarrow> ReservationStation \<Rightarrow> PhyRegId_t set" where
  "rs_waiting_regs h s =
     (\<lambda>e. getPhyRs1 (h (rs_inst s e))) ` {e \<in> set (reservation_station s). \<not> re_rs1_valid (rs_entries s e)}
   \<union> (\<lambda>e. getPhyRs2 (h (rs_inst s e))) ` {e \<in> set (reservation_station s). \<not> re_rs2_valid (rs_entries s e)}"

lemma rs_occupied_unissued: "rs_occupied s = length (rs_unissued s)"
  by (simp add: rs_occupied_def rs_unissued_def)

lemma AllocateReStation_one_holds:
  assumes "rs_wf h s" "AllocateReStation_one h s p = Inr s'"
  shows "rs_unissued s' = rs_unissued s @ [p] \<and> rs_held s' = insert p (rs_held s)
    \<and> rs_waiting_regs h s' = rs_waiting_regs h s \<union> flag_regs h {p}"
proof -
  let ?e = "rs_next_entry s" and ?q = "reservation_station s"
  define es where "es = rs_entries s'"
  have q: "reservation_station s' = ?q @ [?e]"
    and new: "es ?e = \<lparr>re_inst_ptr = p, re_rs1_valid = \<not> getIsRs1Forward (h p),
        re_rs2_valid = \<not> getIsRs2Forward (h p), re_is_issued = False\<rparr>"
    and "\<And>e. e \<noteq> ?e \<Longrightarrow> es e = rs_entries s e"
    using assms(2) by (auto simp: es_def AllocateReStation_one_def Let_def bindE_eq_Inr)
  then have old: "es e = rs_entries s e" if "e \<in> set ?q" for e
    using that assms(1) by (auto simp: rs_wf_def)
  have "filter (\<lambda>e. \<not> re_is_issued (es e)) ?q = filter (\<lambda>e. \<not> re_is_issued (rs_entries s e)) ?q"
    by (intro filter_cong refl) (simp only: old)
  moreover have "map (\<lambda>e. re_inst_ptr (es e)) xs = map (\<lambda>e. re_inst_ptr (rs_entries s e)) xs" if "set xs \<subseteq> set ?q" for xs
    using that old by (intro map_cong refl) auto
  ultimately have "rs_unissued s' = rs_unissued s @ [p]"
    using new old by (simp add: rs_unissued_def rs_inst_def [abs_def] q es_def [symmetric])
  moreover have "rs_held s' = insert p (rs_held s)"
    using old new by (force simp: rs_held_def rs_inst_def q es_def [symmetric])
  moreover have "rs_waiting_regs h s' = rs_waiting_regs h s \<union> flag_regs h {p}"
  proof -
    have "(\<lambda>e. f (h (re_inst_ptr (es e)))) ` {e \<in> set (?q @ [?e]). \<not> v (es e)}
      = (\<lambda>e. f (h (re_inst_ptr (rs_entries s e)))) ` {e \<in> set ?q. \<not> v (rs_entries s e)} \<union> (if v (es ?e) then {} else {f (h p)})"
      for f :: "Inst \<Rightarrow> PhyRegId_t" and v
    proof -
      have "{e \<in> set (?q @ [?e]). \<not> v (es e)} = {e \<in> set ?q. \<not> v (rs_entries s e)} \<union> (if v (es ?e) then {} else {?e})"
        using old by auto
      moreover have "(\<lambda>e. f (h (re_inst_ptr (es e)))) ` {e \<in> set ?q. \<not> v (rs_entries s e)}
          = (\<lambda>e. f (h (re_inst_ptr (rs_entries s e)))) ` {e \<in> set ?q. \<not> v (rs_entries s e)}"
        using old by (intro image_cong refl) simp
      ultimately show ?thesis using new by (simp only: image_Un) simp
    qed
    note parts = this [of getPhyRs1 re_rs1_valid] this [of getPhyRs2 re_rs2_valid]
    show ?thesis
      unfolding rs_waiting_regs_def rs_inst_def q es_def [symmetric] parts new flag_regs_def by (auto split: if_splits)
  qed
  ultimately show ?thesis by blast
qed

lemma AllocateReStation_holds:
  assumes "rs_wf h s" "\<forall>p \<in> set (igp_inst_group g). rs_free_regs h s p" "igp_name g = rs_name s"
  shows "\<exists>s' effs. AllocateReStation h s g = Inr (s', effs) \<and> rs_wf h s' \<and> rs_same_config s s'
    \<and> rs_unissued s' = rs_unissued s @ igp_inst_group g \<and> rs_held s' = rs_held s \<union> set (igp_inst_group g)
    \<and> rs_waiting_regs h s' = rs_waiting_regs h s \<union> flag_regs h (set (igp_inst_group g))"
proof -
  have split: "flag_regs h (P \<union> Q) = flag_regs h P \<union> flag_regs h Q" for P Q by (auto simp: flag_regs_def)
  have "\<exists>s'. foldE (AllocateReStation_one h) s ps = Inr s' \<and> rs_wf h s' \<and> rs_same_config s s'
    \<and> rs_unissued s' = rs_unissued s @ ps \<and> rs_held s' = rs_held s \<union> set ps
    \<and> rs_waiting_regs h s' = rs_waiting_regs h s \<union> flag_regs h (set ps)"
    if "rs_wf h s" "\<forall>p \<in> set ps. rs_free_regs h s p" for ps s
    using that
  proof (induction ps arbitrary: s)
    case Nil
    then show ?case by (simp add: rs_same_config_def flag_regs_def)
  next
    case (Cons p ps)
    from AllocateReStation_one_ok [OF Cons.prems(1), of p] Cons.prems(2) obtain s1 where
      s1: "AllocateReStation_one h s p = Inr s1" "rs_wf h s1" "rs_same_config s s1" by auto
    note one = AllocateReStation_one_holds [OF Cons.prems(1) s1(1)]
    have "\<forall>p \<in> set ps. rs_free_regs h s1 p" using Cons.prems(2) s1(3) by (simp add: rs_free_regs_def rs_same_config_def)
    with Cons.IH [OF s1(2)] obtain s' where s': "foldE (AllocateReStation_one h) s1 ps = Inr s'" "rs_wf h s'" "rs_same_config s1 s'"
      "rs_unissued s' = rs_unissued s1 @ ps" "rs_held s' = rs_held s1 \<union> set ps"
      "rs_waiting_regs h s' = rs_waiting_regs h s1 \<union> flag_regs h (set ps)" by blast
    have "flag_regs h (set (p # ps)) = flag_regs h {p} \<union> flag_regs h (set ps)" using split [of "{p}" "set ps"] by simp
    with s1 s' one show ?case by (auto simp: rs_same_config_def)
  qed
  from this [OF assms(1,2)] assms(3) show ?thesis by (auto simp: AllocateReStation_def)
qed

lemma AllocateReStation_other: "igp_name g \<noteq> rs_name s \<Longrightarrow> AllocateReStation h s g = Inr (s, [])"
  by (simp add: AllocateReStation_def)

lemma GetForwardingData_one_entries:
  assumes "GetForwardingData_one h s p = Inr s'"
  shows "re_is_issued (rs_entries s' e) = re_is_issued (rs_entries s e) \<and> rs_inst s' e = rs_inst s e"
proof -
  have "re_is_issued (set_rs2_valid l2 (set_rs1_valid l1 es) e) = re_is_issued (es e)"
    "re_inst_ptr (set_rs2_valid l2 (set_rs1_valid l1 es) e) = re_inst_ptr (es e)" for l1 l2 es
    by (simp_all add: set_rs_valid)
  with assms show ?thesis by (auto simp: GetForwardingData_one_def rt_Resolve_def bindE_eq_Inr rs_inst_def)
qed

lemma rs_unissued_cong:
  assumes "reservation_station s' = reservation_station s"
    "\<And>e. e \<in> set (reservation_station s) \<Longrightarrow> re_is_issued (rs_entries s' e) = re_is_issued (rs_entries s e) \<and> rs_inst s' e = rs_inst s e"
  shows "rs_unissued s' = rs_unissued s \<and> rs_held s' = rs_held s"
  using assms by (auto simp: rs_unissued_def rs_held_def cong: filter_cong map_cong image_cong)

lemma GetForwardingData_holds:
  assumes "rs_wf h s" "\<forall>p \<in> set g. getPhyRd (h p) < rs_phy_reg_num s"
  shows "\<exists>s'. GetForwardingData h s g = Inr s' \<and> rs_wf h s' \<and> rs_same_config s s' \<and> rs_unissued s' = rs_unissued s
    \<and> rs_held s' = rs_held s \<and> rs_waiting_regs h s' = rs_waiting_regs h s - (\<lambda>p. getPhyRd (h p)) ` set g"
  using assms unfolding GetForwardingData_def
proof (induction g arbitrary: s)
  case Nil
  then show ?case by (simp add: rs_same_config_def)
next
  case (Cons p g)
  from GetForwardingData_one_ok [OF Cons.prems(1), of p] Cons.prems(2) obtain s1 where
    s1: "GetForwardingData_one h s p = Inr s1" "rs_wf h s1" "rs_same_config s s1" "reservation_station s1 = reservation_station s" and
    v: "\<forall>e \<in> set (reservation_station s). rs_inst s1 e = rs_inst s e
        \<and> re_rs1_valid (rs_entries s1 e) = (re_rs1_valid (rs_entries s e) \<or> getPhyRs1 (h (rs_inst s e)) = getPhyRd (h p))
        \<and> re_rs2_valid (rs_entries s1 e) = (re_rs2_valid (rs_entries s e) \<or> getPhyRs2 (h (rs_inst s e)) = getPhyRd (h p))"
    by auto
  have w: "rs_waiting_regs h s1 = rs_waiting_regs h s - {getPhyRd (h p)}"
  proof -
    have "(\<lambda>e. f (h (rs_inst s1 e))) ` {e \<in> Q. \<not> v' e} = (\<lambda>e. f (h (rs_inst s e))) ` {e \<in> Q. \<not> v e} - {r}"
      if "\<forall>e \<in> Q. rs_inst s1 e = rs_inst s e \<and> v' e = (v e \<or> f (h (rs_inst s e)) = r)" for f :: "Inst \<Rightarrow> PhyRegId_t" and Q v v' r
      using that by force
    note part = this [of "set (reservation_station s)"]
    show ?thesis
      unfolding rs_waiting_regs_def s1(4) Un_Diff
      by (intro arg_cong2 [where f = "(\<union>)"] part) (use v in blast)+
  qed
  have "\<forall>p \<in> set g. getPhyRd (h p) < rs_phy_reg_num s1" using Cons.prems(2) s1(3) by (simp add: rs_same_config_def)
  with Cons.IH [OF s1(2)] obtain s' where s': "foldE (GetForwardingData_one h) s1 g = Inr s'" "rs_wf h s'" "rs_same_config s1 s'"
    "rs_unissued s' = rs_unissued s1" "rs_held s' = rs_held s1"
    "rs_waiting_regs h s' = rs_waiting_regs h s1 - (\<lambda>p. getPhyRd (h p)) ` set g" by blast
  with w s1 rs_unissued_cong [OF s1(4)] GetForwardingData_one_entries [OF s1(1)] show ?case
    by (auto simp: rs_same_config_def simp del: getPhyRd_def)
qed

lemma mset_filter_minus:
  assumes "distinct q" "distinct l" "set l \<subseteq> set q"
  shows "mset (filter (\<lambda>e. e \<notin> set l) q) + mset l = mset q"
proof -
  have "mset (filter (\<lambda>e. e \<in> set l) q) = mset l"
    using assms by (intro set_eq_iff_mset_eq_distinct [THEN iffD1]) auto
  then show ?thesis using multiset_partition [of "mset q" "\<lambda>e. e \<in> set l"] by (simp add: add.commute)
qed

lemma rs_selected_facts:
  assumes "distinct (reservation_station s)"
  shows "distinct (rs_selected s)" "set (rs_selected s) \<subseteq> {e \<in> set (reservation_station s). \<not> re_is_issued (rs_entries s e)}"
proof -
  show "distinct (rs_selected s)" unfolding rs_selected_def rs_pass_def using assms by simp
  show "set (rs_selected s) \<subseteq> {e \<in> set (reservation_station s). \<not> re_is_issued (rs_entries s e)}"
    unfolding rs_selected_def rs_pass_def using set_take_subset by (fastforce simp: rs_ready_def)
qed

lemma PassingInst_holds:
  assumes "rs_wf h s" "PassingInst s = (s', effs)" "rs_occupied s \<le> unat (rs_depth s)"
  shows "rs_wf h s' \<and> rs_same_config s s' \<and> rs_held s' = rs_held s \<and> rs_waiting_regs h s' = rs_waiting_regs h s
    \<and> mset (rs_unissued s') + mset (concat (rs_sent effs)) = mset (rs_unissued s)
    \<and> (\<forall>cp \<in> set (rs_pairs effs). cp_name cp = rs_name s)
    \<and> sum_credits (map cp_credit (rs_pairs effs)) = length (concat (rs_sent effs))"
proof (cases "reservation_station s = []")
  case True
  with assms show ?thesis by (auto simp: PassingInst_def rs_same_config_def rs_sent_def rs_pairs_def)
next
  case False
  let ?l = "rs_selected s" and ?q = "reservation_station s"
  have d: "distinct ?q" using assms(1) by (simp add: rs_wf_def)
  note k = PassingInst_keeps [OF assms]
  have spec: "s' = s\<lparr>rs_entries := rs_mark ?l (rs_entries s), rs_credit := rs_credit s - word_of_nat (length ?l)\<rparr>"
    "concat (rs_sent effs) = map (rs_inst s) ?l"
    "rs_pairs effs = (if ?l \<noteq> [] then [\<lparr>cp_name = rs_name s, cp_credit = word_of_nat (length ?l)\<rparr>] else [])"
    using PassingInst_spec [OF d False] assms(2) by (auto simp: rs_sent_def rs_pairs_def)
  have inst: "rs_inst s' e = rs_inst s e" for e by (simp add: spec(1) rs_inst_def rs_mark_def)
  have same: "rs_held s' = rs_held s" "rs_waiting_regs h s' = rs_waiting_regs h s"
    unfolding rs_held_def rs_waiting_regs_def inst by (simp_all add: spec(1) rs_mark_def cong: conj_cong if_cong)
  let ?u = "filter (\<lambda>e. \<not> re_is_issued (rs_entries s e)) ?q"
  have "filter (\<lambda>e. \<not> re_is_issued (rs_entries s' e)) ?q = filter (\<lambda>e. e \<notin> set ?l) ?u"
    unfolding filter_filter by (intro filter_cong refl) (auto simp: spec(1) rs_mark_def)
  moreover have "mset (filter (\<lambda>e. e \<notin> set ?l) ?u) + mset ?l = mset ?u"
    using rs_selected_facts [OF d] d by (intro mset_filter_minus) auto
  ultimately have "mset (filter (\<lambda>e. \<not> re_is_issued (rs_entries s' e)) ?q) + mset ?l = mset ?u" by simp
  then have "image_mset (rs_inst s) (mset (filter (\<lambda>e. \<not> re_is_issued (rs_entries s' e)) ?q) + mset ?l) = image_mset (rs_inst s) (mset ?u)"
    by (rule arg_cong)
  moreover have "map (rs_inst s') = map (rs_inst s)" by (rule arg_cong [where f = map]) (simp add: inst fun_eq_iff)
  moreover have "reservation_station s' = ?q" by (simp add: spec(1))
  ultimately have u: "mset (rs_unissued s') + mset (map (rs_inst s) ?l) = mset (rs_unissued s)"
    by (simp add: rs_unissued_def)
  have "length ?l \<le> rs_occupied s" using k by simp
  moreover have "unat (rs_depth s) < 2 ^ 64" by (rule less_le_trans [OF unsigned_less]) simp
  ultimately have "unat (word_of_nat (length ?l) :: u64) = length ?l" using assms(3) by (simp add: unat_of_nat)
  then have "sum_credits (map cp_credit (rs_pairs effs)) = length (concat (rs_sent effs))" by (simp add: spec(2,3))
  with k same u show ?thesis unfolding spec(2) by (simp add: spec(3))
qed

lemma rs_PopInst_holds:
  assumes "rs_wf h s" "rs_PopInst s = (s', effs)"
  shows "rs_wf h s' \<and> rs_same_config s s' \<and> rs_held s' \<subseteq> rs_held s \<and> rs_waiting_regs h s' \<subseteq> rs_waiting_regs h s
    \<and> rs_unissued s' = rs_unissued s"
proof -
  from PopInst_loop_drop [of "rs_entries s" 0 "reservation_station s"] obtain k where
    k: "PopInst_loop (rs_entries s) 0 (reservation_station s) = drop k (reservation_station s)"
      "\<forall>e \<in> set (take k (reservation_station s)). re_is_issued (rs_entries s e)" by blast
  then have s': "s' = s\<lparr>reservation_station := drop k (reservation_station s)\<rparr>"
    using assms(2) by (simp add: rs_PopInst_def Let_def)
  have sub: "set (reservation_station s') \<subseteq> set (reservation_station s)" unfolding s' by (simp add: set_drop_subset)
  have "filter (\<lambda>e. \<not> re_is_issued (rs_entries s e)) (reservation_station s)
      = filter (\<lambda>e. \<not> re_is_issued (rs_entries s e)) (drop k (reservation_station s))"
    using k(2) by (subst append_take_drop_id [of k, symmetric], subst filter_append) (simp add: filter_empty_conv)
  then have "rs_unissued s' = rs_unissued s" by (simp add: rs_unissued_def s' rs_inst_def [abs_def])
  moreover have "rs_inst s' e = rs_inst s e" "rs_entries s' e = rs_entries s e" for e by (simp_all add: s' rs_inst_def)
  then have "rs_held s' \<subseteq> rs_held s" "rs_waiting_regs h s' \<subseteq> rs_waiting_regs h s"
    using sub unfolding rs_held_def rs_waiting_regs_def by auto
  ultimately show ?thesis using rs_PopInst_keeps [OF assms] by blast
qed

lemma rs_AcceptCredit_holds:
  assumes "rs_wf h s" "rs_AcceptCredit s c = (s', effs)"
  shows "rs_wf h s' \<and> rs_same_config s s' \<and> rs_held s' = rs_held s \<and> rs_waiting_regs h s' = rs_waiting_regs h s
    \<and> rs_unissued s' = rs_unissued s"
proof -
  have s': "s' = s\<lparr>rs_credit := rs_credit s + c\<rparr>" using assms(2) by (simp add: rs_AcceptCredit_def)
  have "rs_wf h s'"
    by (rule rs_wf_same_flags [OF assms(1), where k = 0]) (auto simp: s' rs_same_config_def rs_inst_def)
  then show ?thesis
    by (simp add: s' rs_same_config_def rs_held_def rs_waiting_regs_def rs_unissued_def rs_inst_def [abs_def])
qed

lemma station_heap:
  assumes "rs_wf h s" "\<forall>p \<in> rs_held s. getPhyRs1 (h' p) = getPhyRs1 (h p) \<and> getPhyRs2 (h' p) = getPhyRs2 (h p)"
  shows "rs_wf h' s \<and> rs_waiting_regs h' s = rs_waiting_regs h s"
proof
  show "rs_wf h' s" by (rule rs_wf_heap [OF assms(1)]) (use assms(2) in \<open>simp add: rs_held_def\<close>)
  show "rs_waiting_regs h' s = rs_waiting_regs h s"
    using assms(2) unfolding rs_waiting_regs_def rs_held_def
    by (intro arg_cong2 [where f = "(\<union>)"] image_cong refl) auto
qed

lemma rs_HandleFlush_holds:
  assumes "rs_wf h s" "rs_HandleFlush s fc = (s', effs)"
  shows "rs_wf h s' \<and> rs_same_config s s' \<and> rs_held s' = {} \<and> rs_waiting_regs h s' = {} \<and> rs_unissued s' = []
    \<and> rs_pairs effs = [\<lparr>cp_name = rs_name s, cp_credit = rs_depth s\<rparr>]"
  using rs_flush_wf [OF assms] assms(2)
  by (auto simp: rs_HandleFlush_def rs_same_config_def rs_held_def rs_waiting_regs_def rs_unissued_def rs_pairs_def)

lemma mk_ReservationStation_holds:
  "rs_wf h (mk_ReservationStation n p) \<and> rs_held (mk_ReservationStation n p) = {}
   \<and> rs_waiting_regs h (mk_ReservationStation n p) = {} \<and> rs_unissued (mk_ReservationStation n p) = []"
  using mk_ReservationStation_good [of h n p]
  by (simp add: rs_good_def rs_held_def rs_waiting_regs_def rs_unissued_def mk_ReservationStation_def)

end
