(* ===== verification/Issue_Flow.thy ===== *)
theory Issue_Flow
  imports Issue_Link
begin

text \<open>
  The invariant of the dispatch stage with its reservation stations, its preservation by every step, and what follows:
  every instruction reaches one unit that serves it, nothing overflows or fails, and no wake-up is lost.
\<close>

section \<open>Messages and sums\<close>

definition group_for :: "string \<Rightarrow> InstGroupPair list \<Rightarrow> inst_ptr list" where
  "group_for n w = concat (map igp_inst_group (filter (\<lambda>g. igp_name g = n) w))"

definition credits_for :: "string \<Rightarrow> CreditPair list \<Rightarrow> nat" where
  "credits_for n cs = sum_credits (map cp_credit (filter (\<lambda>c. cp_name c = n) cs))"

lemma group_for_simps [simp]:
  "group_for n [] = []" "group_for n (g # w) = (if igp_name g = n then igp_inst_group g else []) @ group_for n w"
  "group_for n (w @ w') = group_for n w @ group_for n w'"
  by (simp_all add: group_for_def)

lemma credits_for_simps [simp]:
  "credits_for n [] = 0" "credits_for n (c # cs) = (if cp_name c = n then unat (cp_credit c) else 0) + credits_for n cs"
  "credits_for n (cs @ cs') = credits_for n cs + credits_for n cs'"
  by (simp_all add: credits_for_def)

lemma credits_for_own: "\<forall>c \<in> set cs. cp_name c = m \<Longrightarrow> credits_for n cs = (if n = m then sum_credits (map cp_credit cs) else 0)"
  by (induction cs) auto

abbreviation ds_pend :: "DispatchStage \<Rightarrow> string \<Rightarrow> inst_ptr list" where
  "ds_pend d n \<equiv> smap_get_default [] (ds_pending d) n"

abbreviation ds_credit_for :: "DispatchStage \<Rightarrow> string \<Rightarrow> nat" where
  "ds_credit_for d n \<equiv> unat (smap_get_default 0 (ds_credit_map d) n)"

lemma smap_get_Cons: "smap_get_default d ((k, v) # m) n = (if n = k then v else smap_get_default d m n)"
  by (simp add: smap_get_default_def)

lemma smap_get_head:
  assumes "smap_wf ((k, v) # m)"
  shows "smap_wf m" "smap_get_default d m k = d"
proof -
  show "smap_wf m" using assms by (simp add: smap_wf_def)
  have "map_of m k = None" using smap_wf_distinct [OF assms] by (simp add: map_of_eq_None_iff)
  then show "smap_get_default d m k = d" by (simp add: smap_get_default_def)
qed

lemma sum_at_one:
  assumes "distinct ns" "k \<in> set ns" "F k = {#}"
  shows "(\<Sum>n\<leftarrow>ns. if n = k then A else F n) = A + (\<Sum>n\<leftarrow>ns. F n)"
  using assms
proof (induction ns)
  case (Cons n ns)
  show ?case
  proof (cases "n = k")
    case True
    then have "(\<Sum>m\<leftarrow>ns. if m = k then A else F m) = (\<Sum>m\<leftarrow>ns. F m)"
      using Cons.prems(1) by (intro arg_cong [where f = sum_list] map_cong) auto
    with True Cons.prems(3) show ?thesis by simp
  next
    case False
    with Cons show ?thesis by (simp add: ac_simps)
  qed
qed simp

lemma pend_sum:
  assumes "smap_wf m" "distinct ns" "\<forall>n. smap_get_default [] m n \<noteq> [] \<longrightarrow> n \<in> set ns"
  shows "mset (pend_all m) = (\<Sum>n\<leftarrow>ns. mset (smap_get_default [] m n))"
  using assms(1,3)
proof (induction m)
  case Nil
  then show ?case by (induction ns) (auto simp: pend_all_def smap_get_default_def)
next
  case (Cons kv m)
  obtain k v where kv: "kv = (k, v)" by (cases kv)
  note h = smap_get_head [OF Cons.prems(1) [unfolded kv]]
  have mem: "smap_get_default [] (kv # m) n = (if n = k then v else smap_get_default [] m n)" for n
    by (simp add: kv smap_get_Cons)
  have "\<forall>n. smap_get_default [] m n \<noteq> [] \<longrightarrow> n \<in> set ns"
  proof (intro allI impI)
    fix n assume "smap_get_default [] m n \<noteq> []"
    moreover from this have "n \<noteq> k" using h(2) [of "[]"] by auto
    ultimately show "n \<in> set ns" using Cons.prems(2) mem by metis
  qed
  with Cons.IH [OF h(1)] have ih: "mset (pend_all m) = (\<Sum>n\<leftarrow>ns. mset (smap_get_default [] m n))" .
  have all: "mset (pend_all (kv # m)) = mset v + mset (pend_all m)" by (simp add: pend_all_def kv)
  show ?case
  proof (cases "v = []")
    case True
    then have "mset (smap_get_default [] (kv # m) n) = mset (smap_get_default [] m n)" for n
      using h(2) [of "[]"] by (simp add: mem)
    with True ih all show ?thesis by simp
  next
    case False
    then have k: "k \<in> set ns" using Cons.prems(2) mem by metis
    have "mset (smap_get_default [] (kv # m) n) = (if n = k then mset v else mset (smap_get_default [] m n))" for n
      by (simp add: mem)
    with sum_at_one [OF assms(2) k, of "\<lambda>n. mset (smap_get_default [] m n)" "mset v"] h(2) [of "[]"] ih all
    show ?thesis by simp
  qed
qed

text \<open>What the stage sends: one group for each unit, with its name if it is not empty.\<close>

lemma pair_groups_IssueInst:
  assumes "ds_IssueInst s = (s', effs)"
  shows "pair_groups effs = map (\<lambda>(n, ps). \<lparr>igp_name = if ps = [] then [] else n, igp_inst_group = ps\<rparr>) (ds_pending s)
    \<and> s' = s\<lparr>ds_pending := []\<rparr>"
proof -
  have f: "fold (\<lambda>p g. \<lparr>igp_name = n, igp_inst_group = igp_inst_group g @ [p]\<rparr>) ps \<lparr>igp_name = m, igp_inst_group = q\<rparr>
    = \<lparr>igp_name = if ps = [] then m else n, igp_inst_group = q @ ps\<rparr>" for n m ps q
    by (induction ps arbitrary: m q) auto
  have "pair_groups (map (\<lambda>(n, ps). dispatch_rs_inst_out (fold (\<lambda>p g. \<lparr>igp_name = n, igp_inst_group = igp_inst_group g @ [p]\<rparr>) ps
      \<lparr>igp_name = [], igp_inst_group = []\<rparr>)) m)
    = map (\<lambda>(n, ps). \<lparr>igp_name = if ps = [] then [] else n, igp_inst_group = ps\<rparr>) m" for m
    unfolding f by (induction m) (auto simp: pair_groups_def)
  with assms show ?thesis by (auto simp: ds_IssueInst_def pair_groups_def split: if_splits)
qed

lemma group_for_pending:
  assumes "smap_wf m"
  shows "group_for n (map (\<lambda>(n, ps). \<lparr>igp_name = if ps = [] then [] else n, igp_inst_group = ps\<rparr>) m) = smap_get_default [] m n"
  using assms
proof (induction m)
  case (Cons kv m)
  obtain k v where kv: "kv = (k, v)" by (cases kv)
  note h = smap_get_head [OF Cons.prems [unfolded kv]]
  with Cons.IH show ?case by (auto simp: kv smap_get_Cons)
qed (simp add: smap_get_default_def)

lemma pend_all_members:
  assumes "smap_wf m"
  shows "set (pend_all m) = (\<Union>n. set (smap_get_default [] m n))"
  using assms
proof (induction m)
  case (Cons kv m)
  obtain k v where kv: "kv = (k, v)" by (cases kv)
  note h = smap_get_head [OF Cons.prems [unfolded kv]]
  have "(\<Union>n. set (smap_get_default [] (kv # m) n)) = set v \<union> (\<Union>n. set (smap_get_default [] m n))"
    using h(2) [of "[]"] by (auto simp: kv smap_get_Cons split: if_splits) (metis empty_iff list.set(1))
  with Cons.IH [OF h(1)] show ?case by (simp add: kv pend_all_def)
qed (simp add: pend_all_def smap_get_default_def)

section \<open>The invariant\<close>

definition wire_insts :: "issue_link \<Rightarrow> inst_ptr set" where
  "wire_insts x = set (concat (map igp_inst_group (il_wire x)))"

text \<open>The instructions handed to one unit: selected for it, on their way to its station, in the station, sent on.\<close>

definition il_at :: "issue_link \<Rightarrow> string \<Rightarrow> inst_ptr list" where
  "il_at x n = ds_pend (il_ds x) n @ group_for n (il_wire x) @ rs_unissued (il_rs x n) @ il_sent x n"

definition stage_ok :: "GlobalParam \<Rightarrow> PhyRegId_t \<Rightarrow> inst_heap \<Rightarrow> DispatchStage \<Rightarrow> inst_ptr set \<Rightarrow> inst_ptr set \<Rightarrow> bool" where
  "stage_ok gp P h d w R \<longleftrightarrow> ds_wf gp d \<and> sb_phy_regfile_num (ds_scoreboard d) = P
   \<and> (\<forall>p \<in> set (map iq_inst_ptr (ds_inst_queue d)). ds_regs_ok (ds_scoreboard d) h p)
   \<and> distinct (map iq_inst_ptr (ds_inst_queue d)) \<and> set (map iq_inst_ptr (ds_inst_queue d)) \<subseteq> R
   \<and> (\<forall>p \<in> set (waiting (ds_inst_queue d)). \<not> getIsRs1Forward (h p) \<and> \<not> getIsRs2Forward (h p))
   \<and> flag_regs h (set (pend_all (ds_pending d)) \<union> w) \<subseteq> sb_busy (ds_scoreboard d)"

definition station_ok :: "PhyRegId_t \<Rightarrow> u64 \<Rightarrow> PhyRegId_t set \<Rightarrow> inst_ptr set \<Rightarrow> inst_heap \<Rightarrow> string \<Rightarrow> ReservationStation \<Rightarrow> bool" where
  "station_ok P dp busy R h n s \<longleftrightarrow> rs_wf h s \<and> rs_name s = n \<and> rs_phy_reg_num s = P \<and> rs_depth s = dp
   \<and> rs_held s \<subseteq> R \<and> rs_waiting_regs h s \<subseteq> busy"

definition il_flow_ok :: "GlobalParam \<Rightarrow> (string \<Rightarrow> u64) \<Rightarrow> issue_link \<Rightarrow> bool" where
  "il_flow_ok gp D x \<longleftrightarrow>
     (\<forall>n \<in> set (station_names gp). ds_credit_for (il_ds x) n + length (ds_pend (il_ds x) n) + length (group_for n (il_wire x))
        + credits_for n (il_credits x) + length (rs_unissued (il_rs x n)) = unat (D n))
   \<and> (\<forall>c \<in> set (il_credits x). cp_name c \<in> set (station_names gp))
   \<and> (\<forall>g \<in> set (il_wire x). igp_inst_group g \<noteq> [] \<longrightarrow> igp_name g \<in> set (station_names gp))
   \<and> (\<forall>n. ds_pend (il_ds x) n \<noteq> [] \<longrightarrow> n \<in> set (station_names gp))
   \<and> mset (il_received x) = mset (waiting (ds_inst_queue (il_ds x))) + (\<Sum>n\<leftarrow>station_names gp. mset (il_at x n)) + mset (il_flushed x)
   \<and> (\<forall>n. \<forall>p \<in> set (il_at x n). n \<in> set (station_names gp) \<longrightarrow>
        (\<exists>fus. (n, fus) \<in> set (dispatch_following_map gp) \<and> getFuType (il_heap x p) \<in> fus))
   \<and> distinct (il_received x)"

definition il_inv :: "GlobalParam \<Rightarrow> PhyRegId_t \<Rightarrow> (string \<Rightarrow> u64) \<Rightarrow> issue_link \<Rightarrow> bool" where
  "il_inv gp P D x \<longleftrightarrow> stage_ok gp P (il_heap x) (il_ds x) (wire_insts x) (set (il_received x)) \<and> il_flow_ok gp D x
   \<and> (\<forall>n \<in> set (station_names gp).
        station_ok P (D n) (sb_busy (ds_scoreboard (il_ds x))) (set (il_received x)) (il_heap x) n (il_rs x n))"

lemma il_names:
  assumes "ds_wf gp d"
  shows "distinct (station_names gp)" "fst ` set (ds_credit_map d) = set (station_names gp)" "smap_wf (ds_credit_map d)"
    "smap_wf (ds_pending d)"
proof -
  have "smap_wf (dispatch_following_map gp)" using assms by (simp add: ds_wf_def ds_maps_def)
  then show "distinct (station_names gp)" unfolding station_names_def by (rule smap_wf_distinct)
  show "fst ` set (ds_credit_map d) = set (station_names gp)" using assms unfolding ds_wf_def ds_maps_def station_names_def set_map [symmetric] by blast
  show "smap_wf (ds_credit_map d)" "smap_wf (ds_pending d)" using assms by (simp_all add: ds_wf_def ds_maps_def)
qed

lemma sum_member: "n \<in> set ns \<Longrightarrow> p \<in># F n \<Longrightarrow> p \<in># (\<Sum>n\<leftarrow>ns. F n)"
  by (induction ns) auto

lemma il_received_members:
  assumes "il_flow_ok gp D x"
  shows "set (waiting (ds_inst_queue (il_ds x))) \<subseteq> set (il_received x)"
    "n \<in> set (station_names gp) \<Longrightarrow> set (il_at x n) \<subseteq> set (il_received x)"
proof -
  have m: "mset (il_received x) = mset (waiting (ds_inst_queue (il_ds x))) + (\<Sum>n\<leftarrow>station_names gp. mset (il_at x n)) + mset (il_flushed x)"
    using assms by (simp add: il_flow_ok_def)
  have e: "p \<in> set (il_received x) \<longleftrightarrow> p \<in># mset (waiting (ds_inst_queue (il_ds x))) + (\<Sum>n\<leftarrow>station_names gp. mset (il_at x n)) + mset (il_flushed x)" for p
    unfolding m [symmetric] by simp
  show "set (waiting (ds_inst_queue (il_ds x))) \<subseteq> set (il_received x)" using e by auto
  show "set (il_at x n) \<subseteq> set (il_received x)" if "n \<in> set (station_names gp)"
    using e sum_member [OF that, of _ "\<lambda>n. mset (il_at x n)"] by auto
qed

text \<open>A step that only moves instructions on.\<close>

lemma il_flow_keep:
  assumes f: "il_flow_ok gp D x"
    and r: "il_received x' = il_received x" "il_flushed x' = il_flushed x" "waiting (ds_inst_queue (il_ds x')) = waiting (ds_inst_queue (il_ds x))"
    and a: "\<And>n. n \<in> set (station_names gp) \<Longrightarrow> mset (il_at x' n) = mset (il_at x n)"
    and t: "\<And>p. p \<in> set (il_received x) \<Longrightarrow> getFuType (il_heap x' p) = getFuType (il_heap x p)"
    and c: "\<And>n. n \<in> set (station_names gp) \<Longrightarrow> ds_credit_for (il_ds x') n + length (ds_pend (il_ds x') n) + length (group_for n (il_wire x'))
        + credits_for n (il_credits x') + length (rs_unissued (il_rs x' n)) =
       ds_credit_for (il_ds x) n + length (ds_pend (il_ds x) n) + length (group_for n (il_wire x))
        + credits_for n (il_credits x) + length (rs_unissued (il_rs x n))"
    and m: "\<forall>c \<in> set (il_credits x'). cp_name c \<in> set (station_names gp)"
      "\<forall>g \<in> set (il_wire x'). igp_inst_group g \<noteq> [] \<longrightarrow> igp_name g \<in> set (station_names gp)"
      "\<forall>n. ds_pend (il_ds x') n \<noteq> [] \<longrightarrow> n \<in> set (station_names gp)"
  shows "il_flow_ok gp D x'"
proof -
  have s: "set (il_at x' n) = set (il_at x n)" if "n \<in> set (station_names gp)" for n
    using a [OF that] by (metis set_mset_mset)
  have "(\<Sum>n\<leftarrow>station_names gp. mset (il_at x' n)) = (\<Sum>n\<leftarrow>station_names gp. mset (il_at x n))"
    using a by (intro arg_cong [where f = sum_list] map_cong) auto
  moreover have "\<exists>fus. (n, fus) \<in> set (dispatch_following_map gp) \<and> getFuType (il_heap x' p) \<in> fus"
    if "p \<in> set (il_at x' n)" "n \<in> set (station_names gp)" for n p
  proof -
    have p: "p \<in> set (il_at x n)" using s that by blast
    then have "p \<in> set (il_received x)" using il_received_members(2) [OF f that(2)] by blast
    with t f p that(2) show ?thesis unfolding il_flow_ok_def by metis
  qed
  ultimately show ?thesis using f r c m unfolding il_flow_ok_def by simp
qed

section \<open>Each step keeps the invariant\<close>

lemma il_inv_receive:
  assumes "il_inv gp P D x" "il_fresh x g"
  shows "\<exists>d effs. ds_AllocateInst (il_heap x) (il_ds x) g = Inr (d, effs)
    \<and> il_inv gp P D (x\<lparr>il_ds := d, il_received := il_received x @ g\<rparr>)"
proof -
  let ?d = "il_ds x" and ?h = "il_heap x"
  have st: "stage_ok gp P ?h ?d (wire_insts x) (set (il_received x))" "il_flow_ok gp D x" using assms(1) by (simp_all add: il_inv_def)
  have wf: "ds_wf gp ?d" "sb_wf (ds_scoreboard ?d)" using st(1) by (simp_all add: stage_ok_def ds_wf_def)
  have "\<forall>p \<in> set g. getRdType (?h p) \<noteq> RT_NONE \<longrightarrow> sb_ok (ds_scoreboard ?d) (getPhyRd (?h p))"
    using assms(2) by (simp add: il_fresh_def)
  from ds_AllocateInst_registers [OF wf(2) this] obtain d effs where
    d: "ds_AllocateInst ?h ?d g = Inr (d, effs)" "sb_wf (ds_scoreboard d)" "sb_busy (ds_scoreboard ?d) \<subseteq> sb_busy (ds_scoreboard d)"
      "sb_phy_regfile_num (ds_scoreboard d) = sb_phy_regfile_num (ds_scoreboard ?d)"
      "ds_inst_queue d = ds_inst_queue ?d @ map (\<lambda>p. \<lparr>iq_inst_ptr = p, iq_is_issued = False\<rparr>) g"
      "ds_credit_map d = ds_credit_map ?d" "ds_pending d = ds_pending ?d" by blast
  let ?x = "x\<lparr>il_ds := d, il_received := il_received x @ g\<rparr>"
  have wf': "ds_wf gp d" using ds_AllocateInst_accepts [OF d(1) wf(1)] by simp
  have ro: "ds_regs_ok (ds_scoreboard d) ?h p = ds_regs_ok (ds_scoreboard ?d) ?h p" for p
    using d(4) by (simp add: ds_regs_ok_def sb_ok_def)
  have w: "waiting (ds_inst_queue d) = waiting (ds_inst_queue ?d) @ g" by (simp add: d(5) waiting_def comp_def)
  have ptrs: "map iq_inst_ptr (ds_inst_queue d) = map iq_inst_ptr (ds_inst_queue ?d) @ g" by (simp add: d(5) comp_def)
  have fr: "distinct (il_received x @ g)" "\<forall>p \<in> set g. ds_regs_ok (ds_scoreboard ?d) ?h p \<and> \<not> getIsRs1Forward (?h p) \<and> \<not> getIsRs2Forward (?h p)"
    using assms(2) by (simp_all add: il_fresh_def)
  have "stage_ok gp P ?h d (wire_insts x) (set (il_received x @ g))"
    using st(1) wf' d(3) d(4) fr unfolding stage_ok_def d(7) ptrs w ro
    by (auto simp del: getIsRs1Forward_def getIsRs2Forward_def)
  moreover have "il_at ?x n = il_at x n" for n by (simp add: il_at_def d(7))
  then have "il_flow_ok gp D ?x"
    using st(2) fr(1) by (simp add: il_flow_ok_def d(6,7) w ac_simps)
  ultimately show ?thesis using assms(1) d(1,3) by (fastforce simp: il_inv_def station_ok_def wire_insts_def)
qed

lemma flag_regs_subset:
  assumes "flag_regs h A \<subseteq> B" "\<And>p. p \<in> A' \<Longrightarrow> p \<in> A \<or> \<not> getIsRs1Forward (h p) \<and> \<not> getIsRs2Forward (h p)"
    and "\<And>p. getPhyRs1 (h' p) = getPhyRs1 (h p)" "\<And>p. getPhyRs2 (h' p) = getPhyRs2 (h p)"
    and "\<And>p. getIsRs1Forward (h' p) \<Longrightarrow> getIsRs1Forward (h p) \<or> getPhyRs1 (h p) \<in> B"
    "\<And>p. getIsRs2Forward (h' p) \<Longrightarrow> getIsRs2Forward (h p) \<or> getPhyRs2 (h p) \<in> B"
  shows "flag_regs h' A' \<subseteq> B"
proof -
  have a: "getPhyRs1 (h p) \<in> B" if "p \<in> A" "getIsRs1Forward (h p)" for p
    using assms(1) that unfolding flag_regs_def by blast
  have b: "getPhyRs2 (h p) \<in> B" if "p \<in> A" "getIsRs2Forward (h p)" for p
    using assms(1) that unfolding flag_regs_def by blast
  show ?thesis
    unfolding flag_regs_def assms(3,4)
  proof (intro Un_least image_subsetI)
    fix p assume "p \<in> {p \<in> A'. getIsRs1Forward (h' p)}"
    then show "getPhyRs1 (h p) \<in> B" using assms(2) [of p] assms(5) [of p] a [of p] by blast
  next
    fix p assume "p \<in> {p \<in> A'. getIsRs2Forward (h' p)}"
    then show "getPhyRs2 (h p) \<in> B" using assms(2) [of p] assms(6) [of p] b [of p] by blast
  qed
qed

lemma il_flow_select:
  assumes st: "il_flow_ok gp D x" and wf: "ds_wf gp d" "ds_wf gp (il_ds x)"
    and q: "mset (pend_all (ds_pending d)) + mset (waiting (ds_inst_queue d)) = mset (pend_all (ds_pending (il_ds x))) + mset (waiting (ds_inst_queue (il_ds x)))"
      "\<forall>n. ds_credit_for d n + length (ds_pend d n) = ds_credit_for (il_ds x) n + length (ds_pend (il_ds x) n)"
      "\<forall>n p. p \<in> set (ds_pend d n) \<longrightarrow> p \<in> set (ds_pend (il_ds x) n)
        \<or> (\<exists>fus. (n, fus) \<in> set (dispatch_following_map gp) \<and> getFuType (il_heap x p) \<in> fus)"
    and src: "\<And>p. getFuType (h p) = getFuType (il_heap x p)"
  shows "il_flow_ok gp D (x\<lparr>il_heap := h, il_ds := d\<rparr>)"
proof -
  let ?d = "il_ds x" and ?h = "il_heap x" and ?dm = "dispatch_following_map gp"
  have at: "il_at (x\<lparr>il_heap := h, il_ds := d\<rparr>) n = ds_pend d n @ group_for n (il_wire x) @ rs_unissued (il_rs x n) @ il_sent x n"
    "il_at x n = ds_pend ?d n @ group_for n (il_wire x) @ rs_unissued (il_rs x n) @ il_sent x n" for n
    by (simp_all add: il_at_def)
  have names: "\<forall>n. ds_pend d n \<noteq> [] \<longrightarrow> n \<in> set (station_names gp)"
  proof (intro allI impI)
    fix n assume "ds_pend d n \<noteq> []"
    then obtain p where "p \<in> set (ds_pend d n)" by (cases "ds_pend d n") auto
    with q(3) consider "p \<in> set (ds_pend ?d n)" | fus where "(n, fus) \<in> set ?dm" by blast
    then show "n \<in> set (station_names gp)"
    proof cases
      case 1
      then have "ds_pend ?d n \<noteq> []" by auto
      then show ?thesis using st unfolding il_flow_ok_def by blast
    qed (force simp: station_names_def)
  qed
  have sums: "mset (pend_all (ds_pending d)) = (\<Sum>n\<leftarrow>station_names gp. mset (ds_pend d n))"
    "mset (pend_all (ds_pending ?d)) = (\<Sum>n\<leftarrow>station_names gp. mset (ds_pend ?d n))"
    by (rule pend_sum; use il_names [OF wf(1)] il_names [OF wf(2)] names st in \<open>simp add: il_flow_ok_def\<close>)+
  have "mset (waiting (ds_inst_queue d)) + (\<Sum>n\<leftarrow>station_names gp. mset (ds_pend d n)) = mset (waiting (ds_inst_queue ?d)) + (\<Sum>n\<leftarrow>station_names gp. mset (ds_pend ?d n))"
    using q(1) unfolding sums by (simp add: add.commute)
  then have "mset (waiting (ds_inst_queue d)) + (\<Sum>n\<leftarrow>station_names gp. mset (ds_pend d n) + K n)
      = mset (waiting (ds_inst_queue ?d)) + (\<Sum>n\<leftarrow>station_names gp. mset (ds_pend ?d n) + K n)" for K
    by (simp add: sum_list_addf add.assoc [symmetric])
  note total = this [of "\<lambda>n. mset (group_for n (il_wire x) @ rs_unissued (il_rs x n) @ il_sent x n)"]
  show ?thesis
    unfolding il_flow_ok_def
  proof (intro conjI)
    show "mset (il_received (x\<lparr>il_heap := h, il_ds := d\<rparr>)) = mset (waiting (ds_inst_queue (il_ds (x\<lparr>il_heap := h, il_ds := d\<rparr>))))
        + (\<Sum>n\<leftarrow>station_names gp. mset (il_at (x\<lparr>il_heap := h, il_ds := d\<rparr>) n)) + mset (il_flushed (x\<lparr>il_heap := h, il_ds := d\<rparr>))"
      using total st unfolding at by (simp add: il_flow_ok_def at(2))
    show "\<forall>n. \<forall>p \<in> set (il_at (x\<lparr>il_heap := h, il_ds := d\<rparr>) n). n \<in> set (station_names gp) \<longrightarrow>
        (\<exists>fus. (n, fus) \<in> set ?dm \<and> getFuType (il_heap (x\<lparr>il_heap := h, il_ds := d\<rparr>) p) \<in> fus)"
    proof (intro allI ballI impI)
      fix n p assume p: "p \<in> set (il_at (x\<lparr>il_heap := h, il_ds := d\<rparr>) n)" "n \<in> set (station_names gp)"
      have "p \<in> set (il_at x n) \<or> (\<exists>fus. (n, fus) \<in> set ?dm \<and> getFuType (?h p) \<in> fus)"
        using p(1) q(3) unfolding at by auto
      then show "\<exists>fus. (n, fus) \<in> set ?dm \<and> getFuType (il_heap (x\<lparr>il_heap := h, il_ds := d\<rparr>) p) \<in> fus"
        using st p(2) src unfolding il_flow_ok_def by auto
    qed
  qed (use st q(2) names in \<open>auto simp: il_flow_ok_def\<close>)
qed

lemma il_inv_select:
  assumes "il_inv gp P D x"
  shows "\<exists>h d effs. SelectInst gp (il_heap x) (il_ds x) = Inr (h, d, effs) \<and> il_inv gp P D (x\<lparr>il_heap := h, il_ds := d\<rparr>)"
proof -
  let ?d = "il_ds x" and ?h = "il_heap x" and ?dm = "dispatch_following_map gp" and ?R = "set (il_received x)"
  have st: "stage_ok gp P ?h ?d (wire_insts x) ?R" "il_flow_ok gp D x" using assms by (simp_all add: il_inv_def)
  have wf: "ds_wf gp ?d" "\<forall>e \<in> set (ds_inst_queue ?d). ds_regs_ok (ds_scoreboard ?d) ?h (iq_inst_ptr e)"
    "distinct (map iq_inst_ptr (ds_inst_queue ?d))" using st(1) by (simp_all add: stage_ok_def)
  from SelectInst_ok [OF wf(1,2)] obtain h d effs where r: "SelectInst gp ?h ?d = Inr (h, d, effs)" "ds_wf gp d"
    "select_rel ?dm (sel_of ?h ?d 0, ds_inst_queue ?d) (sel_of h d (ds_sent_credit effs), ds_inst_queue d)"
    "ds_scoreboard d = ds_scoreboard ?d" by blast
  have q: "map iq_inst_ptr (ds_inst_queue d) = map iq_inst_ptr (ds_inst_queue ?d)"
    "mset (pend_all (ds_pending d)) + mset (waiting (ds_inst_queue d)) = mset (pend_all (ds_pending ?d)) + mset (waiting (ds_inst_queue ?d))"
    "\<forall>n. ds_credit_for d n + length (ds_pend d n) = ds_credit_for ?d n + length (ds_pend ?d n)"
    "\<forall>n p. p \<in> set (ds_pend d n) \<longrightarrow> p \<in> set (ds_pend ?d n) \<or> (\<exists>fus. (n, fus) \<in> set ?dm \<and> getFuType (?h p) \<in> fus)"
    and fr: "fwd_frame ?h h"
    using r(3) by (simp_all add: select_rel_def sel_of_def)
  have mk: "marks_rel (ds_scoreboard ?d) (set (waiting (ds_inst_queue ?d)) - set (waiting (ds_inst_queue d))) ?h h"
    and sub: "set (waiting (ds_inst_queue d)) \<subseteq> set (waiting (ds_inst_queue ?d))"
    using SelectInst_marks [OF r(1) wf(3)] by (simp_all add: sel_marks_def sel_of_def)
  note src = fwd_frame_sources [OF fr] fwd_frame_keeps(1) [OF fr]
  have ro: "ds_regs_ok sb h p = ds_regs_ok sb ?h p" for sb p unfolding ds_regs_ok_def src ..
  have mem: "p \<in> set (pend_all (ds_pending d)) \<Longrightarrow> p \<in> set (pend_all (ds_pending ?d)) \<or> p \<in> set (waiting (ds_inst_queue ?d))" for p
    using q(2) by (metis set_mset_mset set_mset_union Un_iff)
  have unmarked: "\<not> getIsRs1Forward (?h p) \<and> \<not> getIsRs2Forward (?h p)" if "p \<in> set (waiting (ds_inst_queue ?d))" for p
    using st(1) that by (simp add: stage_ok_def)
  have "flag_regs h (set (pend_all (ds_pending d)) \<union> wire_insts x) \<subseteq> sb_busy (ds_scoreboard ?d)"
    by (rule flag_regs_subset [where h = ?h and A = "set (pend_all (ds_pending ?d)) \<union> wire_insts x"])
      (use st(1) mem unmarked mk src in \<open>auto simp: stage_ok_def marks_rel_def simp del: getIsRs1Forward_def getIsRs2Forward_def
        getPhyRs1_def getPhyRs2_def\<close>)
  moreover have "\<not> getIsRs1Forward (h p) \<and> \<not> getIsRs2Forward (h p)" if "p \<in> set (waiting (ds_inst_queue d))" for p
  proof -
    have "h p = ?h p" using mk that by (simp add: marks_rel_def)
    with unmarked sub that show ?thesis by auto
  qed
  ultimately have stage: "stage_ok gp P h d (wire_insts x) ?R"
    using st(1) r(2) unfolding stage_ok_def q(1) r(4) ro by blast
  have stations: "station_ok P (D n) (sb_busy (ds_scoreboard d)) ?R h n (il_rs x n)" if "n \<in> set (station_names gp)" for n
  proof -
    have s: "station_ok P (D n) (sb_busy (ds_scoreboard ?d)) ?R ?h n (il_rs x n)" using assms that by (simp add: il_inv_def)
    have "rs_wf h (il_rs x n) \<and> rs_waiting_regs h (il_rs x n) = rs_waiting_regs ?h (il_rs x n)"
      by (rule station_heap) (use s src in \<open>auto simp: station_ok_def\<close>)
    with s show ?thesis by (simp add: station_ok_def r(4))
  qed
  have "il_flow_ok gp D (x\<lparr>il_heap := h, il_ds := d\<rparr>)"
    by (rule il_flow_select [OF st(2) r(2) wf(1) q(2-4) src(5)])
  with stage stations r(1) show ?thesis by (auto simp: il_inv_def wire_insts_def)
qed

lemma il_inv_issue:
  assumes "il_inv gp P D x" "ds_IssueInst (il_ds x) = (d, effs)"
  shows "il_inv gp P D (x\<lparr>il_ds := d, il_wire := il_wire x @ pair_groups effs\<rparr>)"
proof -
  let ?d = "il_ds x" and ?x = "x\<lparr>il_ds := d, il_wire := il_wire x @ pair_groups effs\<rparr>"
  have st: "stage_ok gp P (il_heap x) ?d (wire_insts x) (set (il_received x))" "il_flow_ok gp D x" using assms(1) by (simp_all add: il_inv_def)
  note g = pair_groups_IssueInst [OF assms(2)]
  have wf: "ds_wf gp ?d" "smap_wf (ds_pending ?d)" using st(1) by (simp_all add: stage_ok_def ds_wf_def)
  have gf: "group_for n (pair_groups effs) = ds_pend ?d n" for n using g group_for_pending [OF wf(2)] by simp
  have all: "concat (map igp_inst_group (map (\<lambda>(n, ps). \<lparr>igp_name = if ps = [] then [] else n, igp_inst_group = ps\<rparr>) m)) = pend_all m"
    for m :: "(string, inst_ptr list) smap" by (induction m) (auto simp: pend_all_def)
  have "wire_insts ?x = set (pend_all (ds_pending ?d)) \<union> wire_insts x"
    using all [of "ds_pending ?d"] g by (auto simp: wire_insts_def)
  then have "stage_ok gp P (il_heap x) d (wire_insts ?x) (set (il_received x))"
    using st(1) g by (simp add: stage_ok_def ds_wf_def pend_all_def)
  moreover have "il_flow_ok gp D ?x"
  proof (rule il_flow_keep [OF st(2)])
    show "\<forall>c \<in> set (il_credits ?x). cp_name c \<in> set (station_names gp)" using st(2) by (simp add: il_flow_ok_def)
    have "n \<in> set (station_names gp)" if "(n, ps) \<in> set (ds_pending ?d)" "ps \<noteq> []" for n ps
    proof -
      have "map_of (ds_pending ?d) n = Some ps" using that(1) smap_wf_distinct [OF wf(2)] by simp
      then have "ds_pend ?d n \<noteq> []" using that(2) by (simp add: smap_get_default_def)
      then show ?thesis using st(2) unfolding il_flow_ok_def by blast
    qed
    then show "\<forall>g \<in> set (il_wire ?x). igp_inst_group g \<noteq> [] \<longrightarrow> igp_name g \<in> set (station_names gp)"
      using st(2) g unfolding il_flow_ok_def by auto
  qed (use g gf in \<open>simp_all add: il_at_def smap_get_default_def\<close>)
  ultimately show ?thesis using assms(1) g by (simp add: il_inv_def)
qed

lemma il_inv_ds_pop:
  assumes "il_inv gp P D x" "ds_PopIssueQueue (il_ds x) = (d, effs)"
  shows "il_inv gp P D (x\<lparr>il_ds := d\<rparr>)"
proof -
  let ?d = "il_ds x" and ?x = "x\<lparr>il_ds := d\<rparr>"
  have st: "stage_ok gp P (il_heap x) ?d (wire_insts x) (set (il_received x))" "il_flow_ok gp D x" using assms(1) by (simp_all add: il_inv_def)
  have d: "d = ?d\<lparr>ds_inst_queue := dropWhile iq_is_issued (ds_inst_queue ?d)\<rparr>"
    using assms(2) by (simp add: ds_PopIssueQueue_def Let_def)
  have sub: "set (dropWhile iq_is_issued q) \<subseteq> set q" for q by (auto dest: set_dropWhileD)
  have dist: "distinct (map iq_inst_ptr (dropWhile iq_is_issued q))" if "distinct (map iq_inst_ptr q)" for q
    using that by (induction q) auto
  have "stage_ok gp P (il_heap x) d (wire_insts x) (set (il_received x))"
  proof -
    have "set (map iq_inst_ptr (dropWhile iq_is_issued (ds_inst_queue ?d))) \<subseteq> set (map iq_inst_ptr (ds_inst_queue ?d))"
      using image_mono [OF sub] by simp
    moreover have "ds_wf gp d" using st(1) by (subst d) (simp add: stage_ok_def ds_wf_def)
    ultimately show ?thesis
      using st(1) dist unfolding stage_ok_def by (subst (2 3 4 5 6 7 8 9) d) (auto simp: waiting_dropWhile simp del: set_map)
  qed
  moreover have "il_flow_ok gp D ?x"
    by (rule il_flow_keep [OF st(2)]) (use st(2) in \<open>auto simp: d waiting_dropWhile il_at_def il_flow_ok_def\<close>)
  ultimately show ?thesis using assms(1) by (simp add: il_inv_def wire_insts_def d)
qed

text \<open>What is marked on the wire waits for busy registers, so for existing ones.\<close>

lemma il_marked:
  assumes "il_inv gp P D x" "g \<in> set (il_wire x)"
  shows "flag_regs (il_heap x) (set (igp_inst_group g)) \<subseteq> sb_busy (ds_scoreboard (il_ds x))"
    "rs_phy_reg_num s = P \<Longrightarrow> \<forall>p \<in> set (igp_inst_group g). rs_free_regs (il_heap x) s p"
proof -
  let ?h = "il_heap x" and ?B = "sb_busy (ds_scoreboard (il_ds x))"
  have st: "stage_ok gp P ?h (il_ds x) (wire_insts x) (set (il_received x))" using assms(1) by (simp add: il_inv_def)
  have "set (igp_inst_group g) \<subseteq> wire_insts x" using assms(2) by (auto simp: wire_insts_def)
  then have "flag_regs ?h (set (igp_inst_group g)) \<subseteq> flag_regs ?h (set (pend_all (ds_pending (il_ds x))) \<union> wire_insts x)"
    by (intro flag_regs_mono) blast
  also have "\<dots> \<subseteq> ?B" using st by (simp add: stage_ok_def)
  finally show fl: "flag_regs ?h (set (igp_inst_group g)) \<subseteq> ?B" .
  have busy: "r < P" if "r \<in> ?B" for r
    using that st by (auto simp: sb_busy_def stage_ok_def ds_wf_def sb_wf_def word_less_nat_alt)
  show "\<forall>p \<in> set (igp_inst_group g). rs_free_regs ?h s p" if "rs_phy_reg_num s = P"
  proof
    fix p assume "p \<in> set (igp_inst_group g)"
    then have "getIsRs1Forward (?h p) \<Longrightarrow> getPhyRs1 (?h p) \<in> ?B" "getIsRs2Forward (?h p) \<Longrightarrow> getPhyRs2 (?h p) \<in> ?B"
      using fl unfolding flag_regs_def by blast+
    then show "rs_free_regs ?h s p" using busy that unfolding rs_free_regs_def by simp
  qed
qed

text \<open>All stations take a group, or a write-back.\<close>

lemma il_deliver_ok:
  assumes "distinct (station_names gp)" "\<And>n. n \<in> set (station_names gp) \<Longrightarrow> rs_wf h (rs n) \<and> rs_name (rs n) = n"
    and "\<And>n. n \<in> set (station_names gp) \<Longrightarrow> \<forall>p \<in> set (igp_inst_group g). rs_free_regs h (rs n) p"
  shows "\<exists>rs'. il_deliver gp h g rs = Inr rs' \<and> (\<forall>n \<in> set (station_names gp). rs_wf h (rs' n) \<and> rs_same_config (rs n) (rs' n)
    \<and> (let ps = (if igp_name g = n then igp_inst_group g else []) in rs_unissued (rs' n) = rs_unissued (rs n) @ ps
      \<and> rs_held (rs' n) = rs_held (rs n) \<union> set ps \<and> rs_waiting_regs h (rs' n) = rs_waiting_regs h (rs n) \<union> flag_regs h (set ps)))"
proof -
  let ?f = "\<lambda>s. bindE (AllocateReStation h s g) (\<lambda>(s', effs). Inr s')" and ?N = "set (station_names gp)"
  let ?Q = "\<lambda>n s'. rs_wf h s' \<and> rs_same_config (rs n) s' \<and> (let ps = (if igp_name g = n then igp_inst_group g else []) in
      rs_unissued s' = rs_unissued (rs n) @ ps \<and> rs_held s' = rs_held (rs n) \<union> set ps
      \<and> rs_waiting_regs h s' = rs_waiting_regs h (rs n) \<union> flag_regs h (set ps))"
  have one: "\<exists>s'. ?f (rs n) = Inr s' \<and> ?Q n s'" if n: "n \<in> ?N" for n
  proof (cases "igp_name g = n")
    case True
    with AllocateReStation_holds [of h "rs n" g] assms(2,3) [OF n] show ?thesis by (fastforce simp: Let_def)
  next
    case False
    with AllocateReStation_other [of g "rs n" h] assms(2) [OF n] show ?thesis by (simp add: rs_same_config_def flag_regs_def)
  qed
  then have "\<forall>n \<in> ?N. \<exists>s. ?f (rs n) = Inr s" by blast
  from at_stations_ok [where f = ?f, OF assms(1) this] obtain rs' where r: "foldE (at_station ?f) rs (station_names gp) = Inr rs'" by blast
  from at_stations_Inr [OF r assms(1)] one have "\<forall>n \<in> ?N. ?Q n (rs' n)" by (metis sum.inject(2))
  with r show ?thesis by (simp add: il_deliver_def at_stations_def)
qed

lemma il_forward_ok:
  assumes "distinct (station_names gp)" "\<And>n. n \<in> set (station_names gp) \<Longrightarrow> rs_wf h (rs n)"
    and "\<And>n. n \<in> set (station_names gp) \<Longrightarrow> \<forall>p \<in> set g. getPhyRd (h p) < rs_phy_reg_num (rs n)"
  shows "\<exists>rs'. il_forward gp h g rs = Inr rs' \<and> (\<forall>n \<in> set (station_names gp). rs_wf h (rs' n) \<and> rs_same_config (rs n) (rs' n)
    \<and> rs_unissued (rs' n) = rs_unissued (rs n) \<and> rs_held (rs' n) = rs_held (rs n)
    \<and> rs_waiting_regs h (rs' n) = rs_waiting_regs h (rs n) - (\<lambda>p. getPhyRd (h p)) ` set g)"
proof -
  let ?f = "\<lambda>s. GetForwardingData h s g" and ?N = "set (station_names gp)"
  have one: "\<exists>s'. ?f (rs n) = Inr s' \<and> rs_wf h s' \<and> rs_same_config (rs n) s' \<and> rs_unissued s' = rs_unissued (rs n)
      \<and> rs_held s' = rs_held (rs n) \<and> rs_waiting_regs h s' = rs_waiting_regs h (rs n) - (\<lambda>p. getPhyRd (h p)) ` set g" if "n \<in> ?N" for n
    using GetForwardingData_holds assms(2,3) that by blast
  then have "\<forall>n \<in> ?N. \<exists>s. ?f (rs n) = Inr s" by blast
  from at_stations_ok [where f = ?f, OF assms(1) this] obtain rs' where r: "foldE (at_station ?f) rs (station_names gp) = Inr rs'" by blast
  show ?thesis
  proof (intro exI [of _ rs'] conjI ballI)
    show "il_forward gp h g rs = Inr rs'" using r by (simp add: il_forward_def at_stations_def)
    fix n assume n: "n \<in> ?N"
    with at_stations_Inr [OF r assms(1)] have "?f (rs n) = Inr (rs' n)" by blast
    with one [OF n] show "rs_wf h (rs' n)" "rs_same_config (rs n) (rs' n)" "rs_unissued (rs' n) = rs_unissued (rs n)"
      "rs_held (rs' n) = rs_held (rs n)" "rs_waiting_regs h (rs' n) = rs_waiting_regs h (rs n) - (\<lambda>p. getPhyRd (h p)) ` set g" by auto
  qed
qed

lemma il_inv_take:
  assumes "il_inv gp P D x" "il_wire x = g # gs"
  shows "\<exists>rs. il_deliver gp (il_heap x) g (il_rs x) = Inr rs \<and> il_inv gp P D (x\<lparr>il_rs := rs, il_wire := gs\<rparr>)"
proof -
  let ?d = "il_ds x" and ?h = "il_heap x" and ?R = "set (il_received x)" and ?B = "sb_busy (ds_scoreboard (il_ds x))"
  have st: "stage_ok gp P ?h ?d (wire_insts x) ?R" "il_flow_ok gp D x"
    and so: "\<And>n. n \<in> set (station_names gp) \<Longrightarrow> station_ok P (D n) ?B ?R ?h n (il_rs x n)" using assms(1) by (simp_all add: il_inv_def)
  have dist: "distinct (station_names gp)" by (rule il_names(1) [where d = ?d]) (use st(1) in \<open>simp add: stage_ok_def\<close>)
  have g: "g \<in> set (il_wire x)" using assms(2) by simp
  have grec: "set (igp_inst_group g) \<subseteq> ?R" if "igp_name g \<in> set (station_names gp)"
    using il_received_members(2) [OF st(2) that] by (auto simp: il_at_def assms(2))
  have "\<exists>rs'. il_deliver gp ?h g (il_rs x) = Inr rs' \<and> (\<forall>n \<in> set (station_names gp). rs_wf ?h (rs' n) \<and> rs_same_config (il_rs x n) (rs' n)
    \<and> (let ps = (if igp_name g = n then igp_inst_group g else []) in rs_unissued (rs' n) = rs_unissued (il_rs x n) @ ps
      \<and> rs_held (rs' n) = rs_held (il_rs x n) \<union> set ps \<and> rs_waiting_regs ?h (rs' n) = rs_waiting_regs ?h (il_rs x n) \<union> flag_regs ?h (set ps)))"
    by (rule il_deliver_ok [OF dist]) (use so il_marked(2) [OF assms(1) g] in \<open>auto simp: station_ok_def\<close>)
  then obtain rs where r: "il_deliver gp ?h g (il_rs x) = Inr rs" "\<And>n. n \<in> set (station_names gp) \<Longrightarrow> rs_wf ?h (rs n) \<and> rs_same_config (il_rs x n) (rs n)
    \<and> (let ps = (if igp_name g = n then igp_inst_group g else []) in rs_unissued (rs n) = rs_unissued (il_rs x n) @ ps
      \<and> rs_held (rs n) = rs_held (il_rs x n) \<union> set ps \<and> rs_waiting_regs ?h (rs n) = rs_waiting_regs ?h (il_rs x n) \<union> flag_regs ?h (set ps))"
    by blast
  have rs: "station_ok P (D n) ?B ?R ?h n (rs n)" "rs_unissued (rs n) = rs_unissued (il_rs x n) @ (if igp_name g = n then igp_inst_group g else [])"
    if n: "n \<in> set (station_names gp)" for n
    using r(2) [OF n] so [OF n] il_marked(1) [OF assms(1) g] grec n
    by (auto simp: station_ok_def rs_same_config_def Let_def flag_regs_def split: if_splits)
  let ?x = "x\<lparr>il_rs := rs, il_wire := gs\<rparr>"
  have "wire_insts ?x \<subseteq> wire_insts x" by (auto simp: wire_insts_def assms(2))
  then have "flag_regs ?h (set (pend_all (ds_pending ?d)) \<union> wire_insts ?x) \<subseteq> flag_regs ?h (set (pend_all (ds_pending ?d)) \<union> wire_insts x)"
    by (intro flag_regs_mono) blast
  then have "stage_ok gp P ?h ?d (wire_insts ?x) ?R" using st(1) unfolding stage_ok_def by blast
  moreover have "il_flow_ok gp D ?x"
    by (rule il_flow_keep [OF st(2)]) (use st(2) rs(2) assms(2) in \<open>auto simp: il_at_def il_flow_ok_def\<close>)
  ultimately show ?thesis using rs(1) r(1) by (auto simp: il_inv_def)
qed

lemma il_inv_credit:
  assumes "il_inv gp P D x" "il_credits x = c # cs"
  shows "\<exists>d. ds_AcceptCredit (il_ds x) c = Inr d \<and> il_inv gp P D (x\<lparr>il_ds := d, il_credits := cs\<rparr>)"
proof -
  let ?d = "il_ds x" and ?n = "cp_name c"
  have st: "stage_ok gp P (il_heap x) ?d (wire_insts x) (set (il_received x))" "il_flow_ok gp D x" using assms(1) by (simp_all add: il_inv_def)
  have wf: "ds_wf gp ?d" using st(1) by (simp add: stage_ok_def)
  have n: "?n \<in> set (station_names gp)" using st(2) assms(2) by (simp add: il_flow_ok_def)
  then have "?n \<in> fst ` set (ds_credit_map ?d)" using il_names(2) [OF wf] by simp
  then obtain c0 where c0: "map_of (ds_credit_map ?d) ?n = Some c0" by (cases "map_of (ds_credit_map ?d) ?n") (auto simp: map_of_eq_None_iff)
  let ?d' = "?d\<lparr>ds_credit_map := smap_set ?n (c0 + cp_credit c) (ds_credit_map ?d)\<rparr>"
  have acc: "ds_AcceptCredit ?d c = Inr ?d'" using c0 by (simp add: ds_AcceptCredit_def smap_at_def)
  have wf': "ds_wf gp ?d'"
  proof -
    have "map fst (ds_credit_map ?d') = map fst (ds_credit_map ?d)"
      using smap_set_keys_unchanged [of ?n "ds_credit_map ?d" "c0 + cp_credit c"] il_names(2,3) [OF wf] n by simp
    then have "ds_maps gp (ds_credit_map ?d')" using wf ds_maps_same_keys unfolding ds_wf_def by blast
    with wf show ?thesis by (simp add: ds_wf_def)
  qed
  have "unat c0 + unat (cp_credit c) \<le> unat (D ?n)"
    using st(2) n assms(2) c0 unfolding il_flow_ok_def by (fastforce simp: smap_get_default_def)
  also have "\<dots> < 2 ^ 64" by (rule less_le_trans [OF unsigned_less]) simp
  finally have sum: "unat (c0 + cp_credit c) = unat c0 + unat (cp_credit c)" by (simp add: unat_word_ariths)
  have cr: "ds_credit_for ?d' m = ds_credit_for ?d m + (if m = ?n then unat (cp_credit c) else 0)" for m
    using il_names(3) [OF wf] c0 sum by (simp add: smap_get_default_set) (simp add: smap_get_default_def)
  have "stage_ok gp P (il_heap x) ?d' (wire_insts x) (set (il_received x))"
    using st(1) wf' unfolding stage_ok_def by simp
  moreover have "il_flow_ok gp D (x\<lparr>il_ds := ?d', il_credits := cs\<rparr>)"
    by (rule il_flow_keep [OF st(2)]) (use st(2) assms(2) cr in \<open>auto simp: il_at_def il_flow_ok_def\<close>)
  ultimately show ?thesis using assms(1) acc by (simp add: il_inv_def wire_insts_def)
qed

text \<open>A write-back reaches the stage and the stations, whatever is on its way.\<close>

lemma il_write_back_ok:
  assumes "il_inv gp P D x" "\<forall>p \<in> set g. sb_ok (ds_scoreboard (il_ds x)) (getPhyRd (il_heap x p))"
  shows "\<exists>sb rs. ds_FuncUnitBack (il_heap x) (il_ds x) g = Inr (il_ds x\<lparr>ds_scoreboard := sb\<rparr>) \<and> sb_wf sb
    \<and> sb_busy sb = sb_busy (ds_scoreboard (il_ds x)) - (\<lambda>p. getPhyRd (il_heap x p)) ` set g \<and> sb_phy_regfile_num sb = P
    \<and> il_forward gp (il_heap x) g (il_rs x) = Inr rs
    \<and> (\<forall>n \<in> set (station_names gp). station_ok P (D n) (sb_busy sb) (set (il_received x)) (il_heap x) n (rs n)
        \<and> rs_unissued (rs n) = rs_unissued (il_rs x n))"
proof -
  let ?d = "il_ds x" and ?h = "il_heap x" and ?R = "set (il_received x)"
  have wf: "ds_wf gp ?d" "sb_wf (ds_scoreboard ?d)" "sb_phy_regfile_num (ds_scoreboard ?d) = P"
    using assms(1) by (simp_all add: il_inv_def stage_ok_def ds_wf_def)
  have so: "\<And>n. n \<in> set (station_names gp) \<Longrightarrow> station_ok P (D n) (sb_busy (ds_scoreboard ?d)) ?R ?h n (il_rs x n)"
    using assms(1) by (simp add: il_inv_def)
  from ds_FuncUnitBack_registers [OF wf(2) assms(2)] obtain sb where
    d: "ds_FuncUnitBack ?h ?d g = Inr (?d\<lparr>ds_scoreboard := sb\<rparr>)" "sb_wf sb" "sb_busy sb = sb_busy (ds_scoreboard ?d) - (\<lambda>p. getPhyRd (?h p)) ` set g"
      "sb_phy_regfile_num sb = sb_phy_regfile_num (ds_scoreboard ?d)" by blast
  have "\<exists>rs'. il_forward gp ?h g (il_rs x) = Inr rs' \<and> (\<forall>n \<in> set (station_names gp). rs_wf ?h (rs' n) \<and> rs_same_config (il_rs x n) (rs' n)
    \<and> rs_unissued (rs' n) = rs_unissued (il_rs x n) \<and> rs_held (rs' n) = rs_held (il_rs x n)
    \<and> rs_waiting_regs ?h (rs' n) = rs_waiting_regs ?h (il_rs x n) - (\<lambda>p. getPhyRd (?h p)) ` set g)"
    by (rule il_forward_ok [OF il_names(1) [OF wf(1)]]) (use so assms(2) wf(3) in \<open>auto simp: station_ok_def sb_ok_def\<close>)
  then obtain rs where r: "il_forward gp ?h g (il_rs x) = Inr rs" "\<And>n. n \<in> set (station_names gp) \<Longrightarrow> rs_wf ?h (rs n) \<and> rs_same_config (il_rs x n) (rs n)
    \<and> rs_unissued (rs n) = rs_unissued (il_rs x n) \<and> rs_held (rs n) = rs_held (il_rs x n)
    \<and> rs_waiting_regs ?h (rs n) = rs_waiting_regs ?h (il_rs x n) - (\<lambda>p. getPhyRd (?h p)) ` set g" by blast
  have "station_ok P (D n) (sb_busy sb) ?R ?h n (rs n)" if n: "n \<in> set (station_names gp)" for n
    using so [OF n] r(2) [OF n] unfolding station_ok_def rs_same_config_def d(3) by (metis Diff_mono order_refl)
  with d wf(3) r show ?thesis by auto
qed

lemma il_inv_write_back:
  assumes "il_inv gp P D x" "il_wire x = []" "ds_pending (il_ds x) = []"
    and "\<forall>p \<in> set g. sb_ok (ds_scoreboard (il_ds x)) (getPhyRd (il_heap x p))"
  shows "\<exists>d rs. ds_FuncUnitBack (il_heap x) (il_ds x) g = Inr d \<and> il_forward gp (il_heap x) g (il_rs x) = Inr rs
    \<and> il_inv gp P D (x\<lparr>il_ds := d, il_rs := rs\<rparr>)"
proof -
  let ?d = "il_ds x" and ?h = "il_heap x" and ?R = "set (il_received x)"
  have st: "stage_ok gp P ?h ?d (wire_insts x) ?R" "il_flow_ok gp D x" using assms(1) by (simp_all add: il_inv_def)
  from il_write_back_ok [OF assms(1,4)] obtain sb rs where
    d: "ds_FuncUnitBack ?h ?d g = Inr (?d\<lparr>ds_scoreboard := sb\<rparr>)" "sb_wf sb" "sb_phy_regfile_num sb = P" "il_forward gp ?h g (il_rs x) = Inr rs" and
    rs: "\<And>n. n \<in> set (station_names gp) \<Longrightarrow> station_ok P (D n) (sb_busy sb) ?R ?h n (rs n)"
      "\<And>n. n \<in> set (station_names gp) \<Longrightarrow> rs_unissued (rs n) = rs_unissued (il_rs x n)" by blast
  let ?x = "x\<lparr>il_ds := ?d\<lparr>ds_scoreboard := sb\<rparr>, il_rs := rs\<rparr>"
  have "set (pend_all (ds_pending ?d)) \<union> wire_insts x = {}" by (simp add: wire_insts_def assms(2,3) pend_all_def)
  then have "flag_regs ?h (set (pend_all (ds_pending ?d)) \<union> wire_insts x) = {}" unfolding flag_regs_def by simp
  moreover have "ds_regs_ok sb ?h p = ds_regs_ok (ds_scoreboard ?d) ?h p" for p
    using d(3) st(1) by (simp add: ds_regs_ok_def sb_ok_def stage_ok_def)
  ultimately have "stage_ok gp P ?h (?d\<lparr>ds_scoreboard := sb\<rparr>) (wire_insts x) ?R"
    using st(1) d(2,3) unfolding stage_ok_def by (simp add: ds_wf_def)
  moreover have "il_flow_ok gp D ?x"
    by (rule il_flow_keep [OF st(2)]) (use st(2) rs(2) in \<open>auto simp: il_at_def il_flow_ok_def\<close>)
  ultimately show ?thesis using rs(1) d(1,4) by (auto simp: il_inv_def wire_insts_def)
qed

text \<open>A step of one station.\<close>

lemma il_inv_station:
  assumes "il_inv gp P D x" "n \<in> set (station_names gp)"
    and "station_ok P (D n) (sb_busy (ds_scoreboard (il_ds x))) (set (il_received x)) (il_heap x) n s"
    and "mset (rs_unissued s) + mset g = mset (rs_unissued (il_rs x n))"
    and "\<forall>c \<in> set cs. cp_name c = n" "sum_credits (map cp_credit cs) = length g"
  shows "il_inv gp P D (x\<lparr>il_rs := (il_rs x)(n := s), il_credits := il_credits x @ cs,
      il_sent := (il_sent x)(n := il_sent x n @ g)\<rparr>)" (is "il_inv gp P D ?x")
proof -
  have st: "il_flow_ok gp D x" using assms(1) by (simp add: il_inv_def)
  have "length (rs_unissued s) + length g = length (rs_unissued (il_rs x n))"
    using arg_cong [OF assms(4), of size] by simp
  then have "il_flow_ok gp D ?x"
    by (intro il_flow_keep [OF st])
      (use st assms(2,4,5,6) credits_for_own [OF assms(5)] in \<open>auto simp: il_at_def il_flow_ok_def\<close>)
  then show ?thesis using assms(1,3) by (simp add: il_inv_def wire_insts_def)
qed

lemma il_inv_pass:
  assumes "il_inv gp P D x" "n \<in> set (station_names gp)" "PassingInst (il_rs x n) = (s, effs)"
  shows "il_inv gp P D (x\<lparr>il_rs := (il_rs x)(n := s), il_credits := il_credits x @ rs_pairs effs,
      il_sent := (il_sent x)(n := il_sent x n @ concat (rs_sent effs))\<rparr>)"
proof -
  have so: "station_ok P (D n) (sb_busy (ds_scoreboard (il_ds x))) (set (il_received x)) (il_heap x) n (il_rs x n)"
    using assms(1,2) by (simp add: il_inv_def)
  have "length (rs_unissued (il_rs x n)) \<le> unat (D n)" using assms(1,2) by (auto simp: il_inv_def il_flow_ok_def)
  then have "rs_occupied (il_rs x n) \<le> unat (rs_depth (il_rs x n))" using so by (simp add: rs_occupied_unissued station_ok_def)
  from PassingInst_holds [OF _ assms(3) this, of "il_heap x"] so show ?thesis
    by (intro il_inv_station [OF assms(1,2)]) (auto simp: station_ok_def rs_same_config_def)
qed

lemma il_inv_one_station:
  assumes "il_inv gp P D x" "n \<in> set (station_names gp)" "rs_unissued s = rs_unissued (il_rs x n)"
    and "station_ok P (D n) (sb_busy (ds_scoreboard (il_ds x))) (set (il_received x)) (il_heap x) n s"
  shows "il_inv gp P D (x\<lparr>il_rs := (il_rs x)(n := s)\<rparr>)"
proof -
  have "il_inv gp P D (x\<lparr>il_rs := (il_rs x)(n := s), il_credits := il_credits x @ [], il_sent := (il_sent x)(n := il_sent x n @ [])\<rparr>)"
    by (rule il_inv_station [OF assms(1,2,4)]) (use assms(3) in simp_all)
  moreover have "x\<lparr>il_rs := (il_rs x)(n := s), il_credits := il_credits x @ [], il_sent := (il_sent x)(n := il_sent x n @ [])\<rparr>
      = x\<lparr>il_rs := (il_rs x)(n := s)\<rparr>" by simp
  ultimately show ?thesis by simp
qed

text \<open>A flush with nothing on its way.\<close>

lemma credits_flush:
  assumes "distinct ns" "\<And>n. n \<in> set ns \<Longrightarrow> rs_name (rs n) = n"
  shows "credits_for n (concat (map (\<lambda>m. rs_pairs (snd (rs_HandleFlush (rs m) fc))) ns)) = (if n \<in> set ns then unat (rs_depth (rs n)) else 0)"
  using assms by (induction ns) (auto simp: rs_HandleFlush_def rs_pairs_def)

lemma sum_mset_concat: "(\<Sum>n\<leftarrow>ns. mset (f n)) = mset (concat (map f ns))"
  by (induction ns) auto

lemma il_inv_flush:
  assumes "il_inv gp P D x" "il_wire x = []" "il_credits x = []" "ds_pending (il_ds x) = []" "ds_HandleFlush (il_ds x) fc = (d, effs)"
  shows "il_inv gp P D (x\<lparr>il_ds := d, il_rs := (\<lambda>n. fst (rs_HandleFlush (il_rs x n) fc)),
      il_credits := concat (map (\<lambda>n. rs_pairs (snd (rs_HandleFlush (il_rs x n) fc))) (station_names gp)),
      il_flushed := il_flushed x @ waiting (ds_inst_queue (il_ds x))
        @ concat (map (\<lambda>n. rs_unissued (il_rs x n)) (station_names gp))\<rparr>)" (is "il_inv gp P D ?x")
proof -
  let ?d = "il_ds x" and ?h = "il_heap x" and ?R = "set (il_received x)" and ?N = "set (station_names gp)"
  have st: "stage_ok gp P ?h ?d (wire_insts x) ?R" "il_flow_ok gp D x"
    and so: "\<And>n. n \<in> ?N \<Longrightarrow> station_ok P (D n) (sb_busy (ds_scoreboard ?d)) ?R ?h n (il_rs x n)" using assms(1) by (simp_all add: il_inv_def)
  have wf: "ds_wf gp ?d" using st(1) by (simp add: stage_ok_def)
  have d: "d = ?d\<lparr>ds_credit_map := map (\<lambda>(n, c). (n, 0)) (ds_credit_map ?d), ds_inst_queue := []\<rparr>"
    using assms(5) by (simp add: ds_HandleFlush_def)
  have keys: "map fst (map (\<lambda>(n, c). (n, 0)) m) = map fst m" for m :: "(string, Credit) smap" by (induction m) auto
  have "ds_maps gp (ds_credit_map d)" using wf ds_maps_same_keys keys [of "ds_credit_map ?d"] unfolding ds_wf_def d by fastforce
  then have wf': "ds_wf gp d" using wf by (simp add: ds_wf_def d)
  have zero: "ds_credit_for d n = 0" for n
  proof -
    have "smap_get_default (0 :: Credit) (map (\<lambda>(n, c). (n, 0)) m) n = 0" for m :: "(string, Credit) smap"
      by (induction m) (auto simp: smap_get_default_def)
    from this [of "ds_credit_map ?d"] show ?thesis by (simp add: d)
  qed
  have stage: "stage_ok gp P ?h d (wire_insts ?x) ?R"
    using st(1) wf' by (simp add: stage_ok_def d wire_insts_def assms(2,4) waiting_def pend_all_def flag_regs_def)
  have stations: "station_ok P (D n) (sb_busy (ds_scoreboard d)) ?R ?h n (il_rs ?x n) \<and> rs_unissued (il_rs ?x n) = []" if "n \<in> ?N" for n
    using so [OF that] rs_HandleFlush_holds [of ?h "il_rs x n" fc "fst (rs_HandleFlush (il_rs x n) fc)" "snd (rs_HandleFlush (il_rs x n) fc)"]
    by (simp add: station_ok_def rs_same_config_def d)
  have names: "rs_name (il_rs x n) = n" "rs_depth (il_rs x n) = D n" if "n \<in> ?N" for n using so [OF that] by (simp_all add: station_ok_def)
  have at: "il_at ?x n = il_sent x n" "il_at x n = rs_unissued (il_rs x n) @ il_sent x n" if "n \<in> ?N" for n
    using stations [OF that] by (simp_all add: il_at_def d assms(2,4) smap_get_default_def)
  have "il_flow_ok gp D ?x"
    unfolding il_flow_ok_def
  proof (intro conjI)
    have "credits_for n (il_credits ?x) = unat (D n)" if "n \<in> ?N" for n
      using credits_flush [OF il_names(1) [OF wf], of "il_rs x" n fc] names that by simp
    with stations zero show "\<forall>n \<in> ?N. ds_credit_for (il_ds ?x) n + length (ds_pend (il_ds ?x) n) + length (group_for n (il_wire ?x))
        + credits_for n (il_credits ?x) + length (rs_unissued (il_rs ?x n)) = unat (D n)"
      by (simp add: d assms(2,4) smap_get_default_def)
    show "\<forall>c \<in> set (il_credits ?x). cp_name c \<in> ?N" using names by (auto simp: rs_HandleFlush_def rs_pairs_def)
    have "(\<Sum>n\<leftarrow>station_names gp. mset (il_at x n)) = (\<Sum>n\<leftarrow>station_names gp. mset (rs_unissued (il_rs x n)) + mset (il_sent x n))"
      using at(2) by (intro arg_cong [where f = sum_list] map_cong) auto
    moreover have "(\<Sum>n\<leftarrow>station_names gp. mset (il_at ?x n)) = (\<Sum>n\<leftarrow>station_names gp. mset (il_sent x n))"
      using at(1) by (intro arg_cong [where f = sum_list] map_cong) auto
    ultimately show "mset (il_received ?x) = mset (waiting (ds_inst_queue (il_ds ?x))) + (\<Sum>n\<leftarrow>station_names gp. mset (il_at ?x n))
        + mset (il_flushed ?x)"
      using st(2) by (simp add: il_flow_ok_def sum_list_addf sum_mset_concat d waiting_def ac_simps)
    show "\<forall>n. \<forall>p \<in> set (il_at ?x n). n \<in> ?N \<longrightarrow> (\<exists>fus. (n, fus) \<in> set (dispatch_following_map gp) \<and> getFuType (il_heap ?x p) \<in> fus)"
    proof (intro allI ballI impI)
      fix n p assume p: "p \<in> set (il_at ?x n)" "n \<in> ?N"
      then have "p \<in> set (il_at x n)" using at [OF p(2)] by simp
      with p(2) st(2) show "\<exists>fus. (n, fus) \<in> set (dispatch_following_map gp) \<and> getFuType (il_heap ?x p) \<in> fus"
        unfolding il_flow_ok_def by auto
    qed
    show "distinct (il_received ?x)" using st(2) by (simp add: il_flow_ok_def)
  qed (simp_all add: assms(2,4) d smap_get_default_def)
  with stage stations show ?thesis by (simp add: il_inv_def)
qed

lemma il_inv_store:
  assumes "il_inv gp P D x" "\<forall>p \<in> set (il_received x). same_sources (il_heap x p) (h p)"
  shows "il_inv gp P D (x\<lparr>il_heap := h\<rparr>)"
proof -
  let ?d = "il_ds x" and ?R = "set (il_received x)"
  have st: "stage_ok gp P (il_heap x) ?d (wire_insts x) ?R" "il_flow_ok gp D x"
    and so: "\<And>n. n \<in> set (station_names gp) \<Longrightarrow> station_ok P (D n) (sb_busy (ds_scoreboard ?d)) ?R (il_heap x) n (il_rs x n)"
    using assms(1) by (simp_all add: il_inv_def)
  have wf: "smap_wf (ds_pending ?d)" using st(1) by (simp add: stage_ok_def ds_wf_def)
  have same: "getFuType (h p) = getFuType (il_heap x p)" "getPhyRs1 (h p) = getPhyRs1 (il_heap x p)" "getPhyRs2 (h p) = getPhyRs2 (il_heap x p)"
    "getIsRs1Forward (h p) = getIsRs1Forward (il_heap x p)" "getIsRs2Forward (h p) = getIsRs2Forward (il_heap x p)"
    "ds_regs_ok sb h p = ds_regs_ok sb (il_heap x) p" if "p \<in> ?R" for p sb
    using assms(2) that unfolding same_sources_def ds_regs_ok_def by metis+
  have w: "set (waiting (ds_inst_queue ?d)) \<subseteq> ?R" "\<And>n. n \<in> set (station_names gp) \<Longrightarrow> set (il_at x n) \<subseteq> ?R"
    using il_received_members [OF st(2)] by blast+
  have live: "set (pend_all (ds_pending ?d)) \<union> wire_insts x \<subseteq> ?R"
  proof (intro Un_least subsetI)
    fix p assume "p \<in> set (pend_all (ds_pending ?d))"
    then obtain n where p: "p \<in> set (ds_pend ?d n)" using pend_all_members [OF wf] by blast
    then have "ds_pend ?d n \<noteq> []" by auto
    then have "n \<in> set (station_names gp)" using st(2) unfolding il_flow_ok_def by blast
    with p w(2) [of n] show "p \<in> ?R" by (auto simp: il_at_def)
  next
    fix p assume "p \<in> wire_insts x"
    then obtain g where g: "g \<in> set (il_wire x)" "p \<in> set (igp_inst_group g)" by (auto simp: wire_insts_def)
    then have "igp_inst_group g \<noteq> []" by auto
    then have "igp_name g \<in> set (station_names gp)" using st(2) g(1) unfolding il_flow_ok_def by blast
    moreover have "p \<in> set (group_for (igp_name g) (il_wire x))" using g by (auto simp: group_for_def)
    ultimately show "p \<in> ?R" using w(2) [of "igp_name g"] by (auto simp: il_at_def)
  qed
  have "flag_regs h (set (pend_all (ds_pending ?d)) \<union> wire_insts x) = flag_regs (il_heap x) (set (pend_all (ds_pending ?d)) \<union> wire_insts x)"
    using live same unfolding flag_regs_def by (intro arg_cong2 [where f = "(\<union>)"] image_cong) (auto simp del: getIsRs1Forward_def
      getIsRs2Forward_def getPhyRs1_def getPhyRs2_def)
  then have "stage_ok gp P h ?d (wire_insts x) ?R"
    using st(1) same w(1) unfolding stage_ok_def by (metis subsetD)
  moreover have "station_ok P (D n) (sb_busy (ds_scoreboard ?d)) ?R h n (il_rs x n)" if "n \<in> set (station_names gp)" for n
    using so [OF that] station_heap [of "il_heap x" "il_rs x n" h] same unfolding station_ok_def by (metis subsetD)
  moreover have "il_flow_ok gp D (x\<lparr>il_heap := h\<rparr>)"
    by (rule il_flow_keep [OF st(2)]) (use st(2) same(1) in \<open>auto simp: il_at_def il_flow_ok_def\<close>)
  ultimately show ?thesis by (simp add: il_inv_def wire_insts_def)
qed

section \<open>Reachable states\<close>

lemma il_inv_step:
  assumes "il_step gp x y" "il_inv gp P D x"
  shows "il_inv gp P D y"
  using assms(1)
proof cases
  case (il_receive g d effs)
  with il_inv_receive [OF assms(2), of g] show ?thesis by auto
next
  case (il_select h d effs)
  with il_inv_select [OF assms(2)] show ?thesis by auto
next
  case (il_issue d effs)
  with il_inv_issue [OF assms(2)] show ?thesis by simp
next
  case (il_ds_pop d effs)
  with il_inv_ds_pop [OF assms(2)] show ?thesis by simp
next
  case (il_take g gs rs)
  with il_inv_take [OF assms(2)] show ?thesis by fastforce
next
  case (il_credit c cs d)
  with il_inv_credit [OF assms(2)] show ?thesis by fastforce
next
  case (il_write_back g d rs)
  with il_inv_write_back [OF assms(2), of g] show ?thesis by auto
next
  case (il_pass n s effs)
  with il_inv_pass [OF assms(2)] show ?thesis by simp
next
  case (il_rs_pop n s effs)
  have "station_ok P (D n) (sb_busy (ds_scoreboard (il_ds x))) (set (il_received x)) (il_heap x) n (il_rs x n)"
    using assms(2) il_rs_pop(2) by (simp add: il_inv_def)
  with rs_PopInst_holds [OF _ il_rs_pop(3), of "il_heap x"] show ?thesis
    unfolding il_rs_pop(1) by (intro il_inv_one_station [OF assms(2) il_rs_pop(2)]) (auto simp: station_ok_def rs_same_config_def)
next
  case (il_unit_credit n c s effs)
  have "station_ok P (D n) (sb_busy (ds_scoreboard (il_ds x))) (set (il_received x)) (il_heap x) n (il_rs x n)"
    using assms(2) il_unit_credit(2) by (simp add: il_inv_def)
  with rs_AcceptCredit_holds [OF _ il_unit_credit(3), of "il_heap x"] show ?thesis
    unfolding il_unit_credit(1) by (intro il_inv_one_station [OF assms(2) il_unit_credit(2)]) (auto simp: station_ok_def rs_same_config_def)
next
  case (il_flush fc d effs)
  with il_inv_flush [OF assms(2)] show ?thesis by simp
next
  case (il_store h)
  with il_inv_store [OF assms(2)] show ?thesis by simp
qed

text \<open>Every station is set up for as many registers as the stage.\<close>

definition il_params_ok :: "GlobalParam \<Rightarrow> DispatchStageParameter \<Rightarrow> (string \<Rightarrow> ReservationStationParameter) \<Rightarrow> bool" where
  "il_params_ok gp dp rp \<longleftrightarrow> (\<forall>n \<in> set (station_names gp). rsp_phy_reg_num (rp n) = ucast (dsp_phy_reg_num dp))"

lemma credits_start:
  "distinct ns \<Longrightarrow> credits_for n (concat (map (\<lambda>m. rs_pairs (rs_InitCredit (mk_ReservationStation m (rp m)))) ns))
    = (if n \<in> set ns then unat (rsp_queue_depth (rp n)) else 0)"
  by (induction ns) (auto simp: rs_InitCredit_def rs_pairs_def mk_ReservationStation_def)

lemma il_inv_start:
  assumes "mk_GlobalParam p = Inr gp" "mk_DispatchStage gp dp = Inr d" "il_params_ok gp dp rp" "il_start gp d rp x"
  shows "il_inv gp (ucast (dsp_phy_reg_num dp)) (\<lambda>n. rsp_queue_depth (rp n)) x"
proof -
  note m = mk_DispatchStage_wf [OF assms(1,2)]
  note n = il_names [of gp d]
  have x: "il_ds x = d" "il_flushed x = []" "il_rs x = (\<lambda>n. mk_ReservationStation n (rp n))" "il_wire x = []" "il_received x = []" "il_sent x = (\<lambda>_. [])"
    "il_credits x = concat (map (\<lambda>n. rs_pairs (rs_InitCredit (mk_ReservationStation n (rp n)))) (station_names gp))"
    using assms(4) by (simp_all add: il_start_def)
  have sb: "sb_phy_regfile_num (ds_scoreboard d) = ucast (dsp_phy_reg_num dp)"
    using assms(2) mk_Scoreboard_ok [of "ucast (dsp_phy_reg_num dp)"] by (auto simp: mk_DispatchStage_def)
  have z: "smap_wf cm \<Longrightarrow> smap_get_default 0 cm k = 0 \<Longrightarrow> smap_get_default 0 (fold (\<lambda>(n, fus). smap_set n 0) dm cm) k = 0"
    for dm :: DispatchMap and cm :: "(string, Credit) smap" and k
    by (induction dm arbitrary: cm) (auto simp: smap_get_default_set)
  have "ds_credit_map d = fold (\<lambda>(n, fus). smap_set n 0) (dispatch_following_map gp) []"
    using assms(2) by (auto simp: mk_DispatchStage_def bindE_eq_Inr)
  then have zero: "ds_credit_for d k = 0" for k using z [of "[]" k "dispatch_following_map gp"] by (simp add: smap_get_default_def)
  have "stage_ok gp (ucast (dsp_phy_reg_num dp)) (il_heap x) (il_ds x) (wire_insts x) (set (il_received x))"
    using m sb by (simp add: stage_ok_def x wire_insts_def waiting_def pend_all_def flag_regs_def)
  moreover have "station_ok (ucast (dsp_phy_reg_num dp)) (rsp_queue_depth (rp k)) B R h k (il_rs x k)"
    if "k \<in> set (station_names gp)" for k B R h
    using that assms(3) mk_ReservationStation_holds [of h k "rp k"]
    by (simp add: station_ok_def x il_params_ok_def) (simp add: mk_ReservationStation_def)
  moreover have "il_flow_ok gp (\<lambda>n. rsp_queue_depth (rp n)) x"
    using m zero credits_start [OF n(1)] mk_ReservationStation_holds
    by (auto simp: il_flow_ok_def x il_at_def smap_get_default_def waiting_def rs_pairs_def rs_InitCredit_def mk_ReservationStation_def
        rs_unissued_def comp_def)
  ultimately show ?thesis by (simp add: il_inv_def)
qed

inductive il_run :: "GlobalParam \<Rightarrow> DispatchStageParameter \<Rightarrow> (string \<Rightarrow> ReservationStationParameter) \<Rightarrow> issue_link \<Rightarrow> bool" for gp dp rp where
  il_run: "mk_DispatchStage gp dp = Inr d \<Longrightarrow> il_params_ok gp dp rp \<Longrightarrow> il_start gp d rp x0 \<Longrightarrow>
    (il_step gp)\<^sup>*\<^sup>* x0 x \<Longrightarrow> il_run gp dp rp x"

lemma il_run_inv:
  assumes "mk_GlobalParam p = Inr gp" "il_run gp dp rp x"
  shows "il_inv gp (ucast (dsp_phy_reg_num dp)) (\<lambda>n. rsp_queue_depth (rp n)) x"
proof -
  from assms(2) obtain d x0 where r: "mk_DispatchStage gp dp = Inr d" "il_params_ok gp dp rp" "il_start gp d rp x0" "(il_step gp)\<^sup>*\<^sup>* x0 x"
    by cases blast
  from r(4) il_inv_start [OF assms(1) r(1-3)] show ?thesis
    by (induction rule: rtranclp_induct) (auto dest: il_inv_step)
qed

text \<open>
  An example with one station: instruction 0 writes register 5, instruction 1 reads it. The stage takes both, selects
  both, marks the second, and sends them.
\<close>

definition il_example_gp :: GlobalParam where
  "il_example_gp = \<lparr>dispatch_following_map = [(''rs'', {FT_ALU})], dispatch_issue_width_map = [(''rs'', 2)], write_back_map = []\<rparr>"

definition il_example_dp :: DispatchStageParameter where
  "il_example_dp = \<lparr>dsp_issue_width = 4, dsp_phy_reg_num = 8, dsp_queue_depth = 4\<rparr>"

definition il_example_rp :: "string \<Rightarrow> ReservationStationParameter" where
  "il_example_rp n = \<lparr>rsp_issue_width = 1, rsp_queue_depth = 4, rsp_phy_reg_num = 8\<rparr>"

definition il_example_heap :: inst_heap where
  "il_example_heap p = setFuType FT_ALU (setRs2Type RT_NONE
     (if p = 0 then setRs1Type RT_NONE (setRdType RT_INT (setPhyRd 5 (mk_Inst undefined undefined undefined)))
      else setRs1Type RT_INT (setPhyRs1 5 (setRdType RT_NONE (mk_Inst undefined undefined undefined)))))"

definition il_example_stage :: DispatchStage where
  "il_example_stage = \<lparr>ds_issue_num = 4, ds_credit_map = [(''rs'', 0)],
     ds_scoreboard = \<lparr>score_board = replicate 8 False, sb_phy_regfile_num = 8\<rparr>, ds_inst_queue_depth = 4, ds_inst_queue = [], ds_pending = []\<rparr>"

definition il_example_start :: issue_link where
  "il_example_start = \<lparr>il_heap = il_example_heap, il_ds = il_example_stage, il_rs = (\<lambda>n. mk_ReservationStation n (il_example_rp n)),
     il_wire = [], il_credits = [\<lparr>cp_name = ''rs'', cp_credit = 4\<rparr>], il_received = [], il_sent = (\<lambda>_. []), il_flushed = []\<rparr>"

lemma il_example_parsed:
  "mk_GlobalParam \<lparr>gp_dispatch_map = [''rs'', ''|'', ''2'', ''|'', ''ALU'', ''|''], gp_write_back_map = []\<rparr> = Inr il_example_gp"
  by (simp add: mk_GlobalParam_def ParseDispatchMap_def ParseWriteBackMap_def il_example_gp_def dispatch_token_def dispatch_start_def
      write_back_start_def stringToFuncType_def atoi_def atoi_value_def digits_value_def is_digit_char_def is_space_char_def)

lemma il_example_stage_made: "mk_DispatchStage il_example_gp il_example_dp = Inr il_example_stage"
proof -
  have "mk_Scoreboard 8 = Inr \<lparr>score_board = replicate 8 False, sb_phy_regfile_num = 8\<rparr>"
    using sb_Flush_loop [of 8 "\<lparr>score_board = replicate 8 False, sb_phy_regfile_num = 8\<rparr>"]
    by (simp add: mk_Scoreboard_def sb_Flush_def)
  then show ?thesis by (simp add: mk_DispatchStage_def il_example_dp_def il_example_gp_def il_example_stage_def)
qed

lemma il_example_run:
  "\<exists>x. il_run il_example_gp il_example_dp il_example_rp x \<and> il_wire x = [\<lparr>igp_name = ''rs'', igp_inst_group = [0, 1]\<rparr>]
    \<and> ds_pending (il_ds x) = [] \<and> getIsRs1Forward (il_heap x 1) \<and> getPhyRs1 (il_heap x 1) = 5 \<and> getPhyRd (il_heap x 0) = 5
    \<and> sb_phy_regfile_num (ds_scoreboard (il_ds x)) = 8 \<and> il_received x = [0, 1] \<and> sb_busy (ds_scoreboard (il_ds x)) = {5}
    \<and> il_rs x = (\<lambda>n. mk_ReservationStation n (il_example_rp n)) \<and> getPhyRs1 (il_heap x 0) = 0 \<and> getPhyRs2 (il_heap x 0) = 0"
proof -
  let ?gp = il_example_gp and ?h = il_example_heap
  define sb where "sb = \<lparr>score_board = (replicate 8 False)[5 := True], sb_phy_regfile_num = 8\<rparr>"
  define d1 where "d1 = il_example_stage\<lparr>ds_credit_map := [(''rs'', 4)]\<rparr>"
  define d2 where "d2 = d1\<lparr>ds_scoreboard := sb, ds_inst_queue := [\<lparr>iq_inst_ptr = 0, iq_is_issued = False\<rparr>, \<lparr>iq_inst_ptr = 1, iq_is_issued = False\<rparr>]\<rparr>"
  define h3 where "h3 = on_inst 1 (setIsRs1Forward True) ?h"
  define d3 where "d3 = d2\<lparr>ds_credit_map := [(''rs'', 2)], ds_pending := [(''rs'', [0, 1])],
    ds_inst_queue := [\<lparr>iq_inst_ptr = 0, iq_is_issued = True\<rparr>, \<lparr>iq_inst_ptr = 1, iq_is_issued = True\<rparr>]\<rparr>"
  define x1 where "x1 = il_example_start\<lparr>il_ds := d1, il_credits := []\<rparr>"
  define x2 where "x2 = x1\<lparr>il_ds := d2, il_received := [0, 1]\<rparr>"
  define x3 where "x3 = x2\<lparr>il_heap := h3, il_ds := d3\<rparr>"
  define x4 where "x4 = x3\<lparr>il_ds := d3\<lparr>ds_pending := []\<rparr>, il_wire := [\<lparr>igp_name = ''rs'', igp_inst_group = [0, 1]\<rparr>]\<rparr>"
  have "ds_AcceptCredit il_example_stage \<lparr>cp_name = ''rs'', cp_credit = 4\<rparr> = Inr d1"
    by (simp add: ds_AcceptCredit_def il_example_stage_def d1_def smap_at_def)
  then have s1: "il_step ?gp il_example_start x1"
    unfolding x1_def by (intro il_step.il_credit) (simp_all add: il_example_start_def)
  have "ds_AllocateInst ?h d1 [0, 1] = Inr (d2, [dispatch_select_events 0, dispatch_pop_events 0])"
    by (simp add: ds_AllocateInst_def ds_AllocateInst_one_def il_example_heap_def d1_def d2_def il_example_stage_def SetBusyBit_def sb_def)
  then have "il_step ?gp x1 (x1\<lparr>il_ds := d2, il_received := il_received x1 @ [0, 1]\<rparr>)"
    by (intro il_step.il_receive) (auto simp: x1_def il_example_start_def il_fresh_def d1_def il_example_stage_def
        il_example_heap_def ds_regs_ok_def sb_ok_def mk_Inst_def)
  then have s2: "il_step ?gp x1 x2" by (simp add: x2_def x1_def il_example_start_def)
  have "SelectInst ?gp ?h d2 = Inr (h3, d3, [dispatch_preceding_credit_out 2, dispatch_get_operator_events 0, dispatch_scoreboard_events 0, dispatch_issue_events 0])"
    by (simp add: SelectInst_def SelectInst_unit_def il_example_gp_def d2_def d1_def d3_def h3_def il_example_stage_def il_example_heap_def
        smap_at_def CheckRegStatusImp_def smap_get_default_def GetBusyBit_def sb_def on_inst_def)
  then have s3: "il_step ?gp x2 x3"
    unfolding x3_def by (intro il_step.il_select) (simp add: x2_def x1_def il_example_start_def)
  have "ds_IssueInst d3 = (d3\<lparr>ds_pending := []\<rparr>, [dispatch_rs_inst_out \<lparr>igp_name = ''rs'', igp_inst_group = [0, 1]\<rparr>, dispatch_select_events 1])"
    by (simp add: ds_IssueInst_def d3_def)
  then have "il_step ?gp x3 (x3\<lparr>il_ds := d3\<lparr>ds_pending := []\<rparr>, il_wire := il_wire x3 @
      pair_groups [dispatch_rs_inst_out \<lparr>igp_name = ''rs'', igp_inst_group = [0, 1]\<rparr>, dispatch_select_events 1]\<rparr>)"
    by (intro il_step.il_issue) (simp add: x3_def)
  then have s4: "il_step ?gp x3 x4" by (simp add: x4_def x3_def x2_def x1_def il_example_start_def pair_groups_def)
  have "(il_step ?gp)\<^sup>*\<^sup>* il_example_start x4"
    by (rule converse_rtranclp_into_rtranclp [OF s1 converse_rtranclp_into_rtranclp [OF s2
          converse_rtranclp_into_rtranclp [OF s3 r_into_rtranclp [of "il_step ?gp", OF s4]]]])
  moreover have "il_start ?gp il_example_stage il_example_rp il_example_start"
    by (simp add: il_start_def il_example_start_def station_names_def il_example_gp_def rs_InitCredit_def rs_pairs_def mk_ReservationStation_def
        il_example_rp_def)
  moreover have "il_params_ok ?gp il_example_dp il_example_rp"
    by (simp add: il_params_ok_def il_example_rp_def il_example_dp_def)
  ultimately have "il_run ?gp il_example_dp il_example_rp x4" using il_example_stage_made il_run.intros by blast
  moreover have "sb_busy sb = {5}"
  proof -
    have one: "(k < n \<and> (replicate n False)[j := True] ! k) \<longleftrightarrow> k = j" if "j < n" for k n j
      using that by (auto simp: nth_list_update split: if_splits)
    have "(unat i < 8 \<and> (replicate 8 False)[5 := True] ! unat i) \<longleftrightarrow> i = 5" for i :: u64
      using one [of 5 8 "unat i"] by (simp only: word_unat_eq_iff [of i]) simp
    then show ?thesis by (auto simp only: sb_def sb_busy_def Scoreboard.select_convs length_list_update length_replicate)
  qed
  ultimately show ?thesis
    by (intro exI [of _ x4]) (simp add: x4_def x3_def x2_def d3_def d2_def h3_def on_inst_def il_example_heap_def sb_def x1_def il_example_start_def mk_Inst_def)
qed

section \<open>Properties\<close>

text \<open>
  (C14) Every instruction the dispatch stage takes goes to exactly one functional unit, one that serves it, unless a
  flush removes it. The states are those reached by any order of the handlers with their flushes, where a flush comes
  only while neither groups nor credits are on their way between stage and stations, and a write-back only while no
  selected instruction is on its way to a station, which the ordering points of a cycle ensure. In each of them the
  instructions received are, as a multiset, those that wait in the issue queue; for each unit those selected for it,
  on their way to its station, waiting there, and sent on to it; and those that flushes removed from the queue and the
  stations. What is in a station or sent on has a type the unit serves. For each unit the credits of the stage, its instructions up to
  the station, the credits on their way and the places in use are together the depth of its station, so no station
  overflows, before and after a flush.
\<close>

theorem Issue_exactly_once:
  assumes "mk_GlobalParam p = Inr gp" "il_run gp dp rp x"
  shows "mset (il_received x) = mset (waiting (ds_inst_queue (il_ds x))) + (\<Sum>n\<leftarrow>station_names gp.
        mset (ds_pend (il_ds x) n @ group_for n (il_wire x) @ rs_unissued (il_rs x n) @ il_sent x n)) + mset (il_flushed x)
    \<and> distinct (il_received x)
    \<and> (\<forall>n \<in> set (station_names gp). (\<forall>q \<in> set (rs_unissued (il_rs x n) @ il_sent x n).
          \<exists>fus. (n, fus) \<in> set (dispatch_following_map gp) \<and> getFuType (il_heap x q) \<in> fus)
        \<and> ds_credit_for (il_ds x) n + length (ds_pend (il_ds x) n) + length (group_for n (il_wire x))
            + credits_for n (il_credits x) + length (rs_unissued (il_rs x n)) = unat (rsp_queue_depth (rp n)))"
proof -
  have f: "il_flow_ok gp (\<lambda>n. rsp_queue_depth (rp n)) x" using il_run_inv [OF assms] by (simp add: il_inv_def)
  have at: "il_at x n = ds_pend (il_ds x) n @ group_for n (il_wire x) @ rs_unissued (il_rs x n) @ il_sent x n" for n
    by (simp add: il_at_def)
  have "\<forall>n \<in> set (station_names gp). \<forall>q \<in> set (rs_unissued (il_rs x n) @ il_sent x n).
      \<exists>fus. (n, fus) \<in> set (dispatch_following_map gp) \<and> getFuType (il_heap x q) \<in> fus"
    using f unfolding il_flow_ok_def at set_append by blast
  with f show ?thesis unfolding il_flow_ok_def at by blast
qed

theorem Issue_exactly_once_witness:
  "\<exists>x. il_run il_example_gp il_example_dp il_example_rp x \<and> il_wire x = [\<lparr>igp_name = ''rs'', igp_inst_group = [0, 1]\<rparr>]
    \<and> ds_credit_for (il_ds x) ''rs'' + credits_for ''rs'' (il_credits x) + length (rs_unissued (il_rs x ''rs'')) = 2"
proof -
  obtain x where x: "il_run il_example_gp il_example_dp il_example_rp x" "il_wire x = [\<lparr>igp_name = ''rs'', igp_inst_group = [0, 1]\<rparr>]"
    "ds_pending (il_ds x) = []" using il_example_run by blast
  have n: "''rs'' \<in> set (station_names il_example_gp)" by (simp add: station_names_def il_example_gp_def)
  from Issue_exactly_once [OF il_example_parsed x(1)] n x show ?thesis
    by (intro exI [of _ x]) (auto simp: smap_get_default_def il_example_rp_def)
qed

text \<open>
  (C16) The dispatch stage and the stations never fail, in the states of (C14): those reached by any order of the
  handlers, with flushes only while neither groups nor credits are on their way between them. In each of them selection returns; the
  stage takes new unmarked instructions with existing registers; every station takes the next group on its way; the stage takes the next credit; and, when nothing is selected or
  on its way to a station, a write-back of instructions with existing registers is taken by the stage and by every
  station. The other handlers, the two flush handlers among them, have no way to fail.
\<close>

theorem Issue_never_fails:
  assumes "mk_GlobalParam p = Inr gp" "il_run gp dp rp x"
  shows "(\<exists>y. SelectInst gp (il_heap x) (il_ds x) = Inr y)
    \<and> (\<forall>g. il_fresh x g \<longrightarrow> (\<exists>y. ds_AllocateInst (il_heap x) (il_ds x) g = Inr y))
    \<and> (\<forall>g gs. il_wire x = g # gs \<longrightarrow> (\<exists>rs. il_deliver gp (il_heap x) g (il_rs x) = Inr rs))
    \<and> (\<forall>c cs. il_credits x = c # cs \<longrightarrow> (\<exists>d. ds_AcceptCredit (il_ds x) c = Inr d))
    \<and> (\<forall>g. il_wire x = [] \<and> ds_pending (il_ds x) = [] \<and> (\<forall>q \<in> set g. sb_ok (ds_scoreboard (il_ds x)) (getPhyRd (il_heap x q))) \<longrightarrow>
        (\<exists>d rs. ds_FuncUnitBack (il_heap x) (il_ds x) g = Inr d \<and> il_forward gp (il_heap x) g (il_rs x) = Inr rs))"
proof -
  note inv = il_run_inv [OF assms]
  show ?thesis using il_inv_select [OF inv] il_inv_receive [OF inv] il_inv_take [OF inv] il_inv_credit [OF inv] il_inv_write_back [OF inv] by blast
qed

theorem Issue_never_fails_witness:
  "\<exists>x rs. il_run il_example_gp il_example_dp il_example_rp x
    \<and> il_deliver il_example_gp (il_heap x) \<lparr>igp_name = ''rs'', igp_inst_group = [0, 1]\<rparr> (il_rs x) = Inr rs"
proof -
  obtain x where x: "il_run il_example_gp il_example_dp il_example_rp x" "il_wire x = [\<lparr>igp_name = ''rs'', igp_inst_group = [0, 1]\<rparr>]"
    using il_example_run by blast
  from Issue_never_fails [OF il_example_parsed x(1)] x show ?thesis by blast
qed

text \<open>
  (C15) No wake-up is lost, in the states of (C14): those reached by any order of the handlers, with flushes only while
  neither groups nor credits are on their way, and write-backs only while no selected instruction is on its way to a
  station. In each of them an operand waits in a station only for a register that is still busy. So a station that has an
  instruction not yet passed on, none of whose two source registers is busy, passes on at least one instruction when it
  next runs, provided it has credit of its unit and its issue width is not zero.
\<close>

theorem Issue_wakeup_not_lost:
  assumes "mk_GlobalParam p = Inr gp" "il_run gp dp rp x" "n \<in> set (station_names gp)"
  shows "rs_waiting_regs (il_heap x) (il_rs x n) \<subseteq> sb_busy (ds_scoreboard (il_ds x))
    \<and> (\<forall>q \<in> set (rs_unissued (il_rs x n)). getPhyRs1 (il_heap x q) \<notin> sb_busy (ds_scoreboard (il_ds x))
        \<and> getPhyRs2 (il_heap x q) \<notin> sb_busy (ds_scoreboard (il_ds x)) \<and> rs_credit (il_rs x n) \<noteq> 0 \<and> rs_issue_num (il_rs x n) \<noteq> 0
        \<longrightarrow> concat (rs_sent (snd (PassingInst (il_rs x n)))) \<noteq> [])"
proof -
  let ?s = "il_rs x n" and ?B = "sb_busy (ds_scoreboard (il_ds x))"
  have so: "rs_wf (il_heap x) ?s" "rs_waiting_regs (il_heap x) ?s \<subseteq> ?B"
    using il_run_inv [OF assms(1,2)] assms(3) by (simp_all add: il_inv_def station_ok_def)
  have "concat (rs_sent (snd (PassingInst ?s))) \<noteq> []"
    if q: "q \<in> set (rs_unissued ?s)" "getPhyRs1 (il_heap x q) \<notin> ?B" "getPhyRs2 (il_heap x q) \<notin> ?B" and c: "rs_credit ?s \<noteq> 0" "rs_issue_num ?s \<noteq> 0" for q
  proof -
    obtain e where e: "e \<in> set (reservation_station ?s)" "\<not> re_is_issued (rs_entries ?s e)" "rs_inst ?s e = q"
      using q(1) by (auto simp: rs_unissued_def)
    have "re_rs1_valid (rs_entries ?s e)"
      using so(2) e(1) q(2) unfolding rs_waiting_regs_def e(3) [symmetric] by blast
    moreover have "re_rs2_valid (rs_entries ?s e)"
      using so(2) e(1) q(3) unfolding rs_waiting_regs_def e(3) [symmetric] by blast
    ultimately have "filter (rs_ready (rs_entries ?s)) (reservation_station ?s) \<noteq> []" using e by (auto simp: filter_empty_conv rs_ready_def)
    moreover have "unat (min (rs_credit ?s) (rs_issue_num ?s)) \<noteq> 0" using c by (simp add: min_def unat_eq_0)
    ultimately have "rs_selected ?s \<noteq> []" by (simp add: rs_selected_def rs_pass_def)
    moreover have "distinct (reservation_station ?s)" "reservation_station ?s \<noteq> []" using so(1) e(1) by (auto simp: rs_wf_def)
    ultimately show ?thesis using PassingInst_spec [of ?s] by (auto simp: rs_sent_def)
  qed
  with so(2) show ?thesis by blast
qed

text \<open>The example goes on: the station takes the group and the unit grants a credit.\<close>

lemma il_example_taken:
  "\<exists>x. il_run il_example_gp il_example_dp il_example_rp x \<and> sb_busy (ds_scoreboard (il_ds x)) = {5}
    \<and> rs_unissued (il_rs x ''rs'') = [0, 1] \<and> getPhyRs1 (il_heap x 0) = 0 \<and> getPhyRs2 (il_heap x 0) = 0
    \<and> 5 \<in> rs_waiting_regs (il_heap x) (il_rs x ''rs'') \<and> rs_credit (il_rs x ''rs'') \<noteq> 0 \<and> rs_issue_num (il_rs x ''rs'') \<noteq> 0"
proof -
  let ?gp = il_example_gp and ?g = "\<lparr>igp_name = ''rs'', igp_inst_group = [0, 1]\<rparr>"
  obtain x where x: "il_run ?gp il_example_dp il_example_rp x" "il_wire x = [?g]" "il_rs x = (\<lambda>n. mk_ReservationStation n (il_example_rp n))"
    "sb_busy (ds_scoreboard (il_ds x)) = {5}" "getIsRs1Forward (il_heap x 1)" "getPhyRs1 (il_heap x 1) = 5"
    "getPhyRs1 (il_heap x 0) = 0" "getPhyRs2 (il_heap x 0) = 0" using il_example_run by blast
  have n: "''rs'' \<in> set (station_names ?gp)" "distinct (station_names ?gp)" by (simp_all add: station_names_def il_example_gp_def)
  note inv = il_run_inv [OF il_example_parsed x(1)]
  have free: "\<forall>p \<in> set (igp_inst_group ?g). rs_free_regs (il_heap x) (il_rs x m) p" for m
    by (rule il_marked(2) [OF inv]) (simp_all add: x(2,3) mk_ReservationStation_def il_example_rp_def il_example_dp_def)
  have "rs_wf (il_heap x) (il_rs x m) \<and> rs_name (il_rs x m) = m" for m
    using mk_ReservationStation_holds [of "il_heap x" m "il_example_rp m"] by (simp add: x(3)) (simp add: mk_ReservationStation_def)
  from il_deliver_ok [OF n(2) this free] n(1) obtain rs where
    r: "il_deliver ?gp (il_heap x) ?g (il_rs x) = Inr rs" and
    a: "\<forall>n \<in> set (station_names ?gp). rs_wf (il_heap x) (rs n) \<and> rs_same_config (il_rs x n) (rs n)
      \<and> (let ps = (if igp_name ?g = n then igp_inst_group ?g else []) in rs_unissued (rs n) = rs_unissued (il_rs x n) @ ps
      \<and> rs_held (rs n) = rs_held (il_rs x n) \<union> set ps
      \<and> rs_waiting_regs (il_heap x) (rs n) = rs_waiting_regs (il_heap x) (il_rs x n) \<union> flag_regs (il_heap x) (set ps))" by blast
  have s: "rs_same_config (il_rs x ''rs'') (rs ''rs'')" "rs_unissued (rs ''rs'') = rs_unissued (il_rs x ''rs'') @ [0, 1]"
      "rs_waiting_regs (il_heap x) (rs ''rs'') = rs_waiting_regs (il_heap x) (il_rs x ''rs'') \<union> flag_regs (il_heap x) {0, 1}"
    using bspec [OF a n(1)] by (simp_all add: Let_def)
  let ?y = "x\<lparr>il_rs := rs, il_wire := []\<rparr>"
  let ?s = "(rs ''rs'')\<lparr>rs_credit := rs_credit (rs ''rs'') + (1 - rs_credit (rs ''rs''))\<rparr>"
  let ?z = "?y\<lparr>il_rs := (il_rs ?y)(''rs'' := ?s)\<rparr>"
  have "il_step ?gp x ?y" by (rule il_take [OF x(2) r])
  moreover have "il_step ?gp ?y ?z"
    by (rule il_unit_credit [OF n(1), where c = "1 - rs_credit (rs ''rs'')" and effs = "snd (rs_AcceptCredit (rs ''rs'') (1 - rs_credit (rs ''rs'')))"])
      (simp add: rs_AcceptCredit_def)
  ultimately have "il_run ?gp il_example_dp il_example_rp ?z"
    using x(1) by (meson il_run.cases il_run.intros rtranclp.rtrancl_into_rtrancl)
  moreover have "rs_unissued ?s = [0, 1]" "rs_waiting_regs (il_heap x) ?s = rs_waiting_regs (il_heap x) (rs ''rs'')"
    using s(2) mk_ReservationStation_holds [of "il_heap x" "''rs''" "il_example_rp ''rs''"]
    by (simp_all add: x(3) rs_unissued_def rs_inst_def [abs_def] rs_waiting_regs_def)
  moreover have "5 \<in> flag_regs (il_heap x) {0, 1}" using x(5,6) unfolding flag_regs_def by force
  moreover have "rs_issue_num (rs ''rs'') \<noteq> 0"
    using s(1) by (simp add: rs_same_config_def x(3) mk_ReservationStation_def il_example_rp_def)
  ultimately show ?thesis using x(4,7,8) s(3) by (intro exI [of _ ?z]) simp
qed

theorem Issue_wakeup_not_lost_witness:
  "\<exists>x. il_run il_example_gp il_example_dp il_example_rp x \<and> 5 \<in> rs_waiting_regs (il_heap x) (il_rs x ''rs'')
    \<and> rs_waiting_regs (il_heap x) (il_rs x ''rs'') \<subseteq> {5} \<and> concat (rs_sent (snd (PassingInst (il_rs x ''rs'')))) \<noteq> []"
proof -
  obtain x where x: "il_run il_example_gp il_example_dp il_example_rp x" "sb_busy (ds_scoreboard (il_ds x)) = {5}"
    "rs_unissued (il_rs x ''rs'') = [0, 1]" "getPhyRs1 (il_heap x 0) = 0" "getPhyRs2 (il_heap x 0) = 0"
    "5 \<in> rs_waiting_regs (il_heap x) (il_rs x ''rs'')" "rs_credit (il_rs x ''rs'') \<noteq> 0" "rs_issue_num (il_rs x ''rs'') \<noteq> 0"
    using il_example_taken by blast
  have "''rs'' \<in> set (station_names il_example_gp)" by (simp add: station_names_def il_example_gp_def)
  from Issue_wakeup_not_lost [OF il_example_parsed x(1) this] x show ?thesis
    by (intro exI [of _ x]) (simp del: getPhyRs1_def getPhyRs2_def)
qed

text \<open>
  (C17) The order in which a station handles a cycle matters. If the write-back of a register overtook the group that the
  stage sent in the cycle before, and that group has an instruction whose first operand is marked to wait for that register, then the
  instruction would wait in its station for a register that is no longer busy: its wake-up is lost. The ordering point
  \<open>rs_allocate_forwarding\<close> of the stations excludes this.
\<close>

theorem Issue_order_matters:
  assumes "mk_GlobalParam p = Inr gp" "il_run gp dp rp x" "il_wire x = g # gs"
    and "i \<in> set (igp_inst_group g)" "getIsRs1Forward (il_heap x i)" "j \<in> set w" "getPhyRd (il_heap x j) = getPhyRs1 (il_heap x i)"
    and "\<forall>q \<in> set w. sb_ok (ds_scoreboard (il_ds x)) (getPhyRd (il_heap x q))"
  shows "\<exists>d rs1 rs2. ds_FuncUnitBack (il_heap x) (il_ds x) w = Inr d \<and> il_forward gp (il_heap x) w (il_rs x) = Inr rs1
    \<and> il_deliver gp (il_heap x) g rs1 = Inr rs2
    \<and> getPhyRs1 (il_heap x i) \<in> rs_waiting_regs (il_heap x) (rs2 (igp_name g))
    \<and> getPhyRs1 (il_heap x i) \<notin> sb_busy (ds_scoreboard d)"
proof -
  let ?h = "il_heap x" and ?N = "set (station_names gp)" and ?F = "flag_regs (il_heap x) (set (igp_inst_group g))"
  define P where "P = (ucast (dsp_phy_reg_num dp) :: u64)"
  obtain D where inv: "il_inv gp P D x" unfolding P_def using il_run_inv [OF assms(1,2)] by blast
  have dist: "distinct (station_names gp)" by (rule il_names(1) [where d = "il_ds x"]) (use inv in \<open>simp add: il_inv_def stage_ok_def\<close>)
  have g: "g \<in> set (il_wire x)" using assms(3) by simp
  from il_write_back_ok [OF inv assms(8)] obtain sb rs1 where
    d: "ds_FuncUnitBack ?h (il_ds x) w = Inr (il_ds x\<lparr>ds_scoreboard := sb\<rparr>)" "il_forward gp ?h w (il_rs x) = Inr rs1"
      "sb_busy sb = sb_busy (ds_scoreboard (il_ds x)) - (\<lambda>p. getPhyRd (?h p)) ` set w" and
    s1: "\<And>n. n \<in> ?N \<Longrightarrow> station_ok P (D n) (sb_busy sb) (set (il_received x)) ?h n (rs1 n)" by blast
  have "\<exists>rs2. il_deliver gp ?h g rs1 = Inr rs2 \<and> (\<forall>n \<in> ?N. rs_wf ?h (rs2 n) \<and> rs_same_config (rs1 n) (rs2 n)
    \<and> (let ps = (if igp_name g = n then igp_inst_group g else []) in rs_unissued (rs2 n) = rs_unissued (rs1 n) @ ps
      \<and> rs_held (rs2 n) = rs_held (rs1 n) \<union> set ps \<and> rs_waiting_regs ?h (rs2 n) = rs_waiting_regs ?h (rs1 n) \<union> flag_regs ?h (set ps)))"
    by (rule il_deliver_ok [OF dist]) (use s1 il_marked(2) [OF inv g] in \<open>auto simp: station_ok_def\<close>)
  then obtain rs2 where r2: "il_deliver gp ?h g rs1 = Inr rs2"
    "\<forall>n \<in> ?N. rs_waiting_regs ?h (rs2 n) = rs_waiting_regs ?h (rs1 n) \<union> flag_regs ?h (set (if igp_name g = n then igp_inst_group g else []))"
    by (auto simp: Let_def)
  have "igp_inst_group g \<noteq> []" using assms(4) by auto
  then have "igp_name g \<in> ?N" using inv g unfolding il_inv_def il_flow_ok_def by blast
  with r2(2) have "?F \<subseteq> rs_waiting_regs ?h (rs2 (igp_name g))" by simp
  moreover have "getPhyRs1 (?h i) \<in> ?F" using assms(4,5) unfolding flag_regs_def by blast
  moreover have "getPhyRs1 (?h i) \<notin> sb_busy sb" using assms(6,7) unfolding d(3) by (metis DiffD2 image_eqI)
  ultimately show ?thesis using d(1,2) r2(1) by (intro exI [of _ "il_ds x\<lparr>ds_scoreboard := sb\<rparr>"] exI [of _ rs1] exI [of _ rs2]) auto
qed

theorem Issue_order_matters_witness:
  "\<exists>x d rs1 rs2. il_run il_example_gp il_example_dp il_example_rp x \<and> il_wire x = [\<lparr>igp_name = ''rs'', igp_inst_group = [0, 1]\<rparr>]
    \<and> ds_FuncUnitBack (il_heap x) (il_ds x) [0] = Inr d \<and> il_forward il_example_gp (il_heap x) [0] (il_rs x) = Inr rs1
    \<and> il_deliver il_example_gp (il_heap x) \<lparr>igp_name = ''rs'', igp_inst_group = [0, 1]\<rparr> rs1 = Inr rs2
    \<and> 5 \<in> rs_waiting_regs (il_heap x) (rs2 ''rs'') \<and> 5 \<notin> sb_busy (ds_scoreboard d)"
proof -
  obtain x where x: "il_run il_example_gp il_example_dp il_example_rp x" "il_wire x = [\<lparr>igp_name = ''rs'', igp_inst_group = [0, 1]\<rparr>]"
    "getIsRs1Forward (il_heap x 1)" "getPhyRs1 (il_heap x 1) = 5" "getPhyRd (il_heap x 0) = 5"
    "sb_phy_regfile_num (ds_scoreboard (il_ds x)) = 8" using il_example_run by blast
  have i: "1 \<in> set (igp_inst_group \<lparr>igp_name = ''rs'', igp_inst_group = [0, 1]\<rparr>)" "0 \<in> set [0 :: inst_ptr]"
    "getPhyRd (il_heap x 0) = getPhyRs1 (il_heap x 1)"
    "\<forall>q \<in> set [0]. sb_ok (ds_scoreboard (il_ds x)) (getPhyRd (il_heap x q))" using x(4-6) by (simp_all add: sb_ok_def)
  from Issue_order_matters [OF il_example_parsed x(1,2) i(1) x(3) i(2-4)] x(1,2,4) show ?thesis by fastforce
qed

end
