(* ===== verification/Fetch_Link.thy ===== *)
theory Fetch_Link
  imports Perfect_Frontend Renaming_Stage Credit_Interface
begin

text \<open>
  The flow control between \<open>core/perfect_frontend\<close> and the renaming stage. The renaming stage keeps the contract
  \<open>credit_unit\<close>: it returns one credit for each instruction it takes from its queue, and a flush offers the whole
  depth to a sender that forgets the credits it held. The frontend is not connected to the flush, so it forgets
  nothing.
\<close>

section \<open>The renaming stage as a receiver\<close>

definition rn_credits :: "rn_effect list \<Rightarrow> Credit list" where
  "rn_credits effs = concat (map (\<lambda>e. case e of renaming_preceding_credit_out c \<Rightarrow> [c] | _ \<Rightarrow> []) effs)"

lemma rn_credits_simps [simp]:
  "rn_credits [] = []" "rn_credits (e # es) = (case e of renaming_preceding_credit_out c \<Rightarrow> [c] | _ \<Rightarrow> []) @ rn_credits es"
  "rn_credits (es @ es') = rn_credits es @ rn_credits es'"
  by (simp_all add: rn_credits_def)

inductive rn_queue_step :: "RenamingStage \<Rightarrow> credit_event \<Rightarrow> RenamingStage \<Rightarrow> bool" where
  queue_take: "rn_AllocateInst s g = (s', effs) \<Longrightarrow> rn_queue_step s (Received (length g)) s'"
| queue_rename: "RenameInst h s = Inr (h', s', effs) \<Longrightarrow> rn_queue_step s (Returned (sum_credits (rn_credits effs))) s'"
| queue_commit: "rn_RobCommit h s g = Inr (s', effs) \<Longrightarrow> rn_queue_step s (Returned (sum_credits (rn_credits effs))) s'"
| queue_credit: "rn_AcceptRobCredit s c = (s', effs) \<or> rn_AcceptDispatchCredit s c = (s', effs)
    \<or> rn_AcceptLoadQueueCredit s c = (s', effs) \<or> rn_AcceptStoreQueueCredit s c = (s', effs) \<Longrightarrow>
    rn_queue_step s (Returned (sum_credits (rn_credits effs))) s'"
| queue_flush: "rn_HandleFlush s fc = (s', effs) \<Longrightarrow> rn_queue_step s (Flushed (sum_credits (rn_credits effs))) s'"

definition rn_queued :: "RenamingStage \<Rightarrow> nat" where
  "rn_queued s = length (renaming_stage_queue s)"

definition rn_depth :: "RenamingStage \<Rightarrow> nat" where
  "rn_depth s = unat (renaming_stage_queue_depth s)"

lemma RenameInst_loop_queue:
  "RenameInst_loop n h s g lg = Inr (h', s', g', lg') \<Longrightarrow>
     length g' + length (renaming_stage_queue s') = length g + length (renaming_stage_queue s)
   \<and> renaming_stage_queue_depth s' = renaming_stage_queue_depth s"
proof (induction n arbitrary: h s g lg)
  case (Suc n)
  show ?case
  proof (cases "renaming_stage_queue s = [] \<or> fl_IsEmpty (rn_free_list s)")
    case False
    then obtain p ps where q: "renaming_stage_queue s = p # ps" "free_list (rn_free_list s) \<noteq> []"
      by (cases "renaming_stage_queue s") (auto simp: fl_IsEmpty_def)
    with Suc.prems obtain h1 s1 where i: "RenameInstImp h s p = Inr (h1, s1)"
      by (auto simp: bindE_eq_Inr fl_IsEmpty_def)
    then have "renaming_stage_queue s1 = p # ps" "renaming_stage_queue_depth s1 = renaming_stage_queue_depth s"
      using RenameInstImp_frame [OF i] q(1) by auto
    moreover have "renaming_stage_queue_depth (rn_after_one h1 s p s1) = renaming_stage_queue_depth s1"
      by (simp add: rn_after_one_def Let_def)
    ultimately show ?thesis
      using Suc.IH [OF Suc.prems [unfolded RenameInst_loop_Suc [OF q i]]] q(1) by simp
  qed (use Suc.prems in auto)
qed simp

lemma RenameInst_returns_credit:
  assumes "RenameInst h s = Inr (h', s', effs)" "rn_queued s \<le> rn_depth s"
  shows "rn_queued s' + sum_credits (rn_credits effs) = rn_queued s \<and> rn_depth s' = rn_depth s"
proof (cases "renaming_stage_queue s = [] \<or> fl_IsEmpty (rn_free_list s) \<or> rn_produce_inst_num s = 0")
  case True
  with assms(1) show ?thesis by (auto simp: RenameInst_def Let_def split: if_splits)
next
  case False
  with assms(1) obtain g lg where
    l: "RenameInst_loop (unat (rn_produce_inst_num s)) h s [] [] = Inr (h', s', g, lg)" and
    e: "effs = (if renaming_stage_queue s' \<noteq> [] \<and> rn_whole_credit s' > 0 then [rename_event 1] else [])
          @ (if g \<noteq> [] then [renaming_preceding_credit_out (word_of_nat (length g)), renaming_following_inst_out g] else [])
          @ (if lg \<noteq> [] \<and> \<not> rn_is_perfect_lsu s' then [renaming_lsu_allocate_out lg] else [])"
    by (auto simp: RenameInst_def Let_def bindE_eq_Inr)
  note q = RenameInst_loop_queue [OF l]
  have "length g \<le> unat (renaming_stage_queue_depth s)" using q assms(2) by (simp add: rn_queued_def rn_depth_def)
  also have "\<dots> < 2 ^ 64" by (rule less_le_trans [OF unsigned_less]) simp
  finally have "unat (word_of_nat (length g) :: u64) = length g" by (simp add: unat_of_nat)
  then show ?thesis using q e by (auto simp: rn_queued_def rn_depth_def)
qed

lemma rn_RobCommit_queue:
  assumes "foldE (rn_RobCommit_one h) (s, effs) g = Inr (s', effs')" "rn_credits effs = []"
  shows "renaming_stage_queue s' = renaming_stage_queue s \<and> renaming_stage_queue_depth s' = renaming_stage_queue_depth s
    \<and> rn_credits effs' = []"
  using assms
proof (induction g arbitrary: s effs)
  case (Cons p g)
  then obtain s1 effs1 where c: "rn_RobCommit_one h (s, effs) p = Inr (s1, effs1)"
    "foldE (rn_RobCommit_one h) (s1, effs1) g = Inr (s', effs')" by (auto simp: bindE_eq_Inr)
  from c(1) Cons.prems(2) have "renaming_stage_queue s1 = renaming_stage_queue s"
      "renaming_stage_queue_depth s1 = renaming_stage_queue_depth s" "rn_credits effs1 = []"
    by (auto simp: rn_RobCommit_one_def bindE_eq_Inr split: if_splits)
  with Cons.IH [OF c(2)] show ?case by simp
qed simp

interpretation rnq: credit_unit rn_queue_step rn_queued rn_depth "\<lambda>_. True"
proof
  fix x n y
  show "True \<and> rn_queued y = rn_queued x + n \<and> rn_depth y = rn_depth x" if "rn_queue_step x (Received n) y"
    using that
  proof cases
    case (queue_take g effs)
    with rn_AllocateInst_queue [of x g] show ?thesis by (simp add: rn_queued_def rn_depth_def)
  qed
  show "True \<and> rn_queued y + n = rn_queued x \<and> rn_depth y = rn_depth x"
    if "rn_queue_step x (Returned n) y" "rn_queued x \<le> rn_depth x"
    using that(1)
  proof cases
    case (queue_rename h h' effs)
    with RenameInst_returns_credit [OF _ that(2)] show ?thesis by simp
  next
    case (queue_commit h g effs)
    with rn_RobCommit_queue [of h x "[]" g y effs] show ?thesis by (simp add: rn_RobCommit_def rn_queued_def rn_depth_def)
  next
    case (queue_credit c effs)
    then show ?thesis
      by (auto simp: rn_AcceptRobCredit_def rn_AcceptDispatchCredit_def rn_AcceptLoadQueueCredit_def
          rn_AcceptStoreQueueCredit_def rn_queued_def rn_depth_def)
  qed
  show "True \<and> rn_queued y + n = rn_depth x \<and> rn_depth y = rn_depth x" if "rn_queue_step x (Flushed n) y"
    using that by cases (auto simp: rn_HandleFlush_def rn_FlushCredit_def Let_def rn_queued_def rn_depth_def)
qed

section \<open>Frontend and renaming stage connected\<close>

definition fe_groups :: "fe_effect list \<Rightarrow> InstGroup list" where
  "fe_groups effs = concat (map (\<lambda>e. case e of fetch_backend_inst_out g \<Rightarrow> [g] | _ \<Rightarrow> []) effs)"

record 'g fetch_link =
  fk_heap :: inst_heap
  fk_next :: inst_ptr
  fk_fe :: "'g PerfectFrontend"
  fk_rn :: RenamingStage
  fk_insts :: "InstGroup list"
  fk_credits :: "Credit list"

text \<open>The handlers of both sides and the deliveries, in any order, without a flush; other units may write the store.\<close>

inductive fk_step :: "'g InstGenerator \<Rightarrow> 'g fetch_link \<Rightarrow> 'g fetch_link \<Rightarrow> bool" for ops where
  fk_produce: "ProduceInst ops (fk_heap k) (fk_next k) (fk_fe k) = Inr (h, nx, f, effs) \<Longrightarrow>
    fk_step ops k (k\<lparr>fk_heap := h, fk_next := nx, fk_fe := f, fk_insts := fk_insts k @ fe_groups effs\<rparr>)"
| fk_deliver: "fk_insts k = g # gs \<Longrightarrow> rn_AllocateInst (fk_rn k) g = (s, effs) \<Longrightarrow>
    fk_step ops k (k\<lparr>fk_rn := s, fk_insts := gs\<rparr>)"
| fk_accept: "fk_credits k = c # cs \<Longrightarrow> fe_AcceptCredit (fk_fe k) c = (f, effs) \<Longrightarrow>
    fk_step ops k (k\<lparr>fk_fe := f, fk_credits := cs\<rparr>)"
| fk_rename: "RenameInst (fk_heap k) (fk_rn k) = Inr (h, s, effs) \<Longrightarrow>
    fk_step ops k (k\<lparr>fk_heap := h, fk_rn := s, fk_credits := fk_credits k @ rn_credits effs\<rparr>)"
| fk_commit: "rn_RobCommit (fk_heap k) (fk_rn k) g = Inr (s, effs) \<Longrightarrow>
    fk_step ops k (k\<lparr>fk_rn := s, fk_credits := fk_credits k @ rn_credits effs\<rparr>)"
| fk_credit: "rn_AcceptRobCredit (fk_rn k) c = (s, effs) \<or> rn_AcceptDispatchCredit (fk_rn k) c = (s, effs)
    \<or> rn_AcceptLoadQueueCredit (fk_rn k) c = (s, effs) \<or> rn_AcceptStoreQueueCredit (fk_rn k) c = (s, effs) \<Longrightarrow>
    fk_step ops k (k\<lparr>fk_rn := s, fk_credits := fk_credits k @ rn_credits effs\<rparr>)"
| fk_branches: "fe_BranchCommit ops (fk_heap k) (fk_fe k) g = Inr f \<Longrightarrow> fk_step ops k (k\<lparr>fk_fe := f\<rparr>)"
| fk_store: "fk_step ops k (k\<lparr>fk_heap := h\<rparr>)"

text \<open>A flush with the redirection that goes with it: the frontend has no handler for the flush itself.\<close>

definition fk_flush :: "'g InstGenerator \<Rightarrow> 'g fetch_link \<Rightarrow> inst_ptr \<Rightarrow> FlushingCriteria \<Rightarrow> 'g fetch_link result" where
  "fk_flush ops k p fc =
     bindE (fe_RedirectPc ops (fk_heap k) (fk_fe k) p)
     (\<lambda>f. case rn_HandleFlush (fk_rn k) fc of
        (s, effs) \<Rightarrow> Inr (k\<lparr>fk_fe := f, fk_rn := s, fk_credits := fk_credits k @ rn_credits effs\<rparr>))"

definition fk_total :: "'g fetch_link \<Rightarrow> nat" where
  "fk_total k = unat (fe_credit (fk_fe k)) + sum_credits (fk_credits k) + rn_queued (fk_rn k) + length (concat (fk_insts k))"

definition fk_start :: "'g PerfectFrontend \<Rightarrow> RenamingStage \<Rightarrow> 'g fetch_link \<Rightarrow> bool" where
  "fk_start f s k \<longleftrightarrow> fk_fe k = f \<and> fk_rn k = s \<and> fk_insts k = [] \<and> fk_credits k = rn_credits (rn_InitCredit s)"

lemma ProduceInst_total:
  assumes "ProduceInst ops h nx f = Inr (h', nx', f', effs)"
  shows "unat (fe_credit f') + length (concat (fe_groups effs)) = unat (fe_credit f)"
proof (cases "min (fe_issue_num f) (fe_credit f) = 0 \<or> fe_inst_generator f = None")
  case True
  with assms show ?thesis by (auto simp: ProduceInst_def Let_def fe_groups_def split: option.splits if_splits)
next
  case False
  let ?n = "min (fe_issue_num f) (fe_credit f)"
  obtain gen where gen: "fe_inst_generator f = Some gen" using False by auto
  from assms False gen obtain g gen1 credit where
    l: "ProduceInst_loop (fe_is_speculation f) ops (unat ?n) h nx [] gen (fe_credit f) = Inr (h', nx', g, gen1, credit)"
    and e: "fe_credit f' = credit" "concat (fe_groups effs) = g"
    by (auto simp: ProduceInst_def Let_def result_simps fe_groups_def split: if_splits)
  have n: "unat ?n \<le> unat (fe_credit f)" by (simp add: min_def word_le_nat_alt)
  from ProduceInst_loop_account [OF l n] obtain j where "j \<le> unat ?n" "length g = j" "unat credit = unat (fe_credit f) - j"
    by auto
  with e n show ?thesis by simp
qed

lemma fe_BranchCommit_credit:
  assumes "fe_BranchCommit ops h f g = Inr f'"
  shows "fe_credit f' = fe_credit f"
proof (cases "fe_is_speculation f")
  case True
  with assms have "foldE (\<lambda>s p. case fe_inst_generator s of None \<Rightarrow> Inl (Undefined ''null generator'')
      | Some gen \<Rightarrow> bindE (ig_branchResolve ops (getIsMissPrediction (h p)) gen)
          (\<lambda>gen1. Inr (s\<lparr>fe_inst_generator := Some gen1\<rparr>))) f g = Inr f'"
    by (simp add: fe_BranchCommit_def)
  then show ?thesis by (induction g arbitrary: f) (auto simp: bindE_eq_Inr split: option.splits)
qed (use assms in \<open>simp add: fe_BranchCommit_def\<close>)

lemma fk_step_total:
  assumes "fk_step ops k k'" "fk_total k = rn_depth (fk_rn k)"
  shows "fk_total k' = rn_depth (fk_rn k') \<and> rn_depth (fk_rn k') = rn_depth (fk_rn k)"
proof -
  let ?s = "fk_rn k"
  have q: "rn_queued ?s \<le> rn_depth ?s" using assms(2) by (simp add: fk_total_def)
  note ret = rnq.ret_law [OF _ TrueI q]
  show ?thesis
    using assms(1)
  proof cases
    case (fk_produce h nx f effs)
    with ProduceInst_total [of ops "fk_heap k"] assms(2) show ?thesis by (fastforce simp: fk_total_def)
  next
    case (fk_deliver g gs s effs)
    with rn_AllocateInst_queue [of ?s g] assms(2) show ?thesis by (simp add: fk_total_def rn_queued_def rn_depth_def)
  next
    case (fk_accept c cs f effs)
    have "rn_depth ?s < 2 ^ 64" unfolding rn_depth_def by (rule less_le_trans [OF unsigned_less]) simp
    then have "unat (fe_credit (fk_fe k)) + unat c < 2 ^ 64" using assms(2) fk_accept(2) by (simp add: fk_total_def)
    then have "unat (fe_credit (fk_fe k) + c) = unat (fe_credit (fk_fe k)) + unat c" by (simp add: unat_word_ariths)
    with fk_accept assms(2) show ?thesis by (auto simp: fk_total_def fe_AcceptCredit_def)
  next
    case (fk_rename h s effs)
    with ret [OF rn_queue_step.queue_rename] assms(2) show ?thesis by (fastforce simp: fk_total_def)
  next
    case (fk_commit g s effs)
    with ret [OF rn_queue_step.queue_commit] assms(2) show ?thesis by (fastforce simp: fk_total_def)
  next
    case (fk_credit c s effs)
    with ret [OF rn_queue_step.queue_credit] assms(2) show ?thesis by (fastforce simp: fk_total_def)
  next
    case (fk_branches g f)
    have "fe_credit f = fe_credit (fk_fe k)" using fk_branches(2) by (rule fe_BranchCommit_credit)
    with fk_branches assms(2) show ?thesis by (simp add: fk_total_def)
  next
    case (fk_store h)
    with assms(2) show ?thesis by (simp add: fk_total_def)
  qed
qed

lemma fk_steps_total:
  assumes "(fk_step ops)\<^sup>*\<^sup>* k0 k" "fk_total k0 = rn_depth (fk_rn k0)"
  shows "fk_total k = rn_depth (fk_rn k) \<and> rn_depth (fk_rn k) = rn_depth (fk_rn k0)"
  using assms by (induction rule: rtranclp_induct) (auto dest: fk_step_total)

lemma fk_start_total:
  assumes "mk_PerfectFrontend mk fp = Inr f" "mk_RenamingStage p = Inr s" "fk_start f s k"
  shows "fk_total k = rn_depth (fk_rn k) \<and> rn_depth (fk_rn k) = unat (rp_queue_depth p)"
proof -
  have "fe_credit f = 0" using assms(1) by (auto simp: mk_PerfectFrontend_def bindE_eq_Inr)
  moreover have "renaming_stage_queue s = []" "renaming_stage_queue_depth s = ucast (rp_queue_depth p)"
    using assms(2) by (auto simp: mk_RenamingStage_def bindE_eq_Inr)
  ultimately show ?thesis
    using assms(3) by (simp add: fk_start_def fk_total_def rn_InitCredit_def rn_queued_def rn_depth_def)
qed

section \<open>Properties\<close>

text \<open>
  (C19) Flow control between frontend and renaming stage. From the start, as long as there is no flush, the
  credits the frontend holds, the credits and instructions on their way and the instructions in the queue of
  the renaming stage are together exactly the depth of that queue, whatever the generator does; so the queue
  never holds more than its depth.
\<close>

theorem Fetch_link_conservation:
  assumes "mk_PerfectFrontend mk fp = Inr f" "mk_RenamingStage p = Inr s" "fk_start f s k0" "(fk_step ops)\<^sup>*\<^sup>* k0 k"
  shows "fk_total k = unat (rp_queue_depth p) \<and> length (renaming_stage_queue (fk_rn k)) \<le> unat (rp_queue_depth p)"
proof -
  from fk_start_total [OF assms(1-3)] fk_steps_total [OF assms(4)] have "fk_total k = unat (rp_queue_depth p)" by simp
  then show ?thesis by (simp add: fk_total_def rn_queued_def)
qed

text \<open>A frontend on an empty trace, with the renaming stage of the examples: four credits arrive.\<close>

definition fk_example_fe :: PerfectFrontendParameter where
  "fk_example_fe = \<lparr>fep_issue_width = 4, fep_input_file = ''a.stf'', fep_insn_gen_type = ''trace'',
     fep_is_speculation = True, fep_is_config = False\<rparr>"

definition fk_example_gen :: "generator_kind \<Rightarrow> TraceInstGenerator" where
  "fk_example_gen _ = \<lparr>tg_next_it = [], tg_unique_id = 0\<rparr>"

lemma fk_example:
  "\<exists>f s k0 k. mk_PerfectFrontend fk_example_gen fk_example_fe = Inr f \<and> mk_RenamingStage rn_example = Inr s \<and> fk_start f s k0
     \<and> (fk_step ops)\<^sup>*\<^sup>* k0 k \<and> fe_credit (fk_fe k) = 4 \<and> renaming_stage_queue (fk_rn k) = []
     \<and> fe_inst_generator (fk_fe k) = Some (fk_example_gen (GK_Trace ''a.stf'' False))"
proof -
  have "\<exists>f. mk_PerfectFrontend fk_example_gen fk_example_fe = Inr f \<and> fe_credit f = 0
      \<and> fe_inst_generator f = Some (fk_example_gen (GK_Trace ''a.stf'' False))"
    by (simp add: mk_PerfectFrontend_def fe_choose_def fk_example_fe_def createGenerator_file_def has_suffix_def)
  then obtain f where f: "mk_PerfectFrontend fk_example_gen fk_example_fe = Inr f" "fe_credit f = 0"
    "fe_inst_generator f = Some (fk_example_gen (GK_Trace ''a.stf'' False))" by blast
  from rn_inv_init [OF rn_example_ok] obtain s where s: "mk_RenamingStage rn_example = Inr s" "renaming_stage_queue s = []"
    by blast
  then have d: "renaming_stage_queue_depth s = 4" by (auto simp: mk_RenamingStage_def bindE_eq_Inr rn_example_def)
  let ?k = "\<lparr>fk_heap = \<lambda>_. fsd_inst, fk_next = 0, fk_fe = f, fk_rn = s, fk_insts = [], fk_credits = [4]\<rparr>"
  have "fk_step ops ?k (?k\<lparr>fk_fe := f\<lparr>fe_credit := 4\<rparr>, fk_credits := []\<rparr>)"
    by (rule fk_step.fk_accept [where c = 4 and effs = "[produce_inst_event 0]"]) (simp_all add: fe_AcceptCredit_def f(2))
  moreover have "fk_start f s ?k" by (simp add: fk_start_def rn_InitCredit_def d)
  ultimately show ?thesis
    using f s by (intro exI [of _ f] exI [of _ s] exI [of _ ?k] exI [of _ "?k\<lparr>fk_fe := f\<lparr>fe_credit := 4\<rparr>, fk_credits := []\<rparr>"]) auto
qed

theorem Fetch_link_conservation_witness:
  "\<exists>k0 k. (fk_step (trace_generator (\<lambda>_. Inr nop_decoded)))\<^sup>*\<^sup>* k0 k \<and> fe_credit (fk_fe k) = 4 \<and> fk_total k = 4"
proof -
  obtain f s k0 k where k: "mk_PerfectFrontend fk_example_gen fk_example_fe = Inr f" "mk_RenamingStage rn_example = Inr s" "fk_start f s k0"
    "(fk_step (trace_generator (\<lambda>_. Inr nop_decoded)))\<^sup>*\<^sup>* k0 k" "fe_credit (fk_fe k) = 4" using fk_example by blast
  from Fetch_link_conservation [OF k(1-4)] k(4,5) show ?thesis by (auto simp: rn_example_def)
qed

text \<open>
  (C20) The first flush of a run gives the frontend credits for places it already had. The renaming stage offers its whole depth again
  and the frontend adds it to what it holds, so credits and instructions together exceed the depth by the number
  of places that were free: unless the queue was full, the frontend may now send more than fits.
\<close>

theorem Fetch_flush_inflates_credit:
  assumes "mk_PerfectFrontend mk fp = Inr f" "mk_RenamingStage p = Inr s" "fk_start f s k0" "(fk_step ops)\<^sup>*\<^sup>* k0 k"
    and "fk_flush ops k q fc = Inr k'"
  shows "renaming_stage_queue (fk_rn k') = []
    \<and> fk_total k' = unat (rp_queue_depth p) + (unat (rp_queue_depth p) - length (renaming_stage_queue (fk_rn k)))
    \<and> fe_credit (fk_fe k') = fe_credit (fk_fe k)"
proof -
  let ?D = "unat (rp_queue_depth p)"
  have t: "fk_total k = ?D" "rn_depth (fk_rn k) = ?D"
    using fk_start_total [OF assms(1-3)] fk_steps_total [OF assms(4)] by simp_all
  from assms(5) obtain f' where r: "fe_RedirectPc ops (fk_heap k) (fk_fe k) q = Inr f'" and
    k': "k' = k\<lparr>fk_fe := f', fk_rn := fst (rn_HandleFlush (fk_rn k) fc),
      fk_credits := fk_credits k @ rn_credits (snd (rn_HandleFlush (fk_rn k) fc))\<rparr>"
    by (auto simp: fk_flush_def bindE_eq_Inr case_prod_beta)
  have c: "fe_credit f' = fe_credit (fk_fe k)" using r by (auto simp: fe_RedirectPc_def split: option.splits)
  have "fk_total k' + rn_queued (fk_rn k) = fk_total k + ?D"
    using t(2) by (simp add: k' c fk_total_def rn_HandleFlush_def rn_FlushCredit_def Let_def rn_queued_def rn_depth_def)
  moreover have "rn_queued (fk_rn k) \<le> ?D" using t(1) by (simp add: fk_total_def)
  ultimately show ?thesis
    using t(1) c by (simp add: k' rn_queued_def) (simp add: rn_HandleFlush_def Let_def)
qed

theorem Fetch_flush_inflates_credit_witness:
  "\<exists>k0 k k'. (fk_step (trace_generator (\<lambda>_. Inr nop_decoded)))\<^sup>*\<^sup>* k0 k
     \<and> fk_flush (trace_generator (\<lambda>_. Inr nop_decoded)) k 0 1 = Inr k' \<and> fk_total k = 4 \<and> fk_total k' = 8"
proof -
  let ?ops = "trace_generator (\<lambda>_. Inr nop_decoded)"
  obtain f s k0 k where k: "mk_PerfectFrontend fk_example_gen fk_example_fe = Inr f" "mk_RenamingStage rn_example = Inr s" "fk_start f s k0"
    "(fk_step ?ops)\<^sup>*\<^sup>* k0 k" "renaming_stage_queue (fk_rn k) = []"
    "fe_inst_generator (fk_fe k) = Some (fk_example_gen (GK_Trace ''a.stf'' False))"
    using fk_example by blast
  have t: "fk_total k = 4" using fk_start_total [OF k(1-3)] fk_steps_total [OF k(4)] by (simp add: rn_example_def)
  from k(6) obtain k' where k': "fk_flush ?ops k 0 1 = Inr k'"
    by (auto simp: fk_flush_def fe_RedirectPc_def case_prod_beta)
  from Fetch_flush_inflates_credit [OF k(1-4) k'] k(4,5) k' t show ?thesis by (auto simp: rn_example_def)
qed

end
