(* ===== verification/Speculation.thy ===== *)
theory Speculation
  imports Perfect_Frontend Spike_Adapter
begin

text \<open>
  Speculation from the frontend down to the memory of the functional simulator: \<open>core/perfect_frontend\<close> on the
  generator of \<open>olympia/InstGenerator\<close> that drives the adapter of \<open>utils/spikeInterface\<close>. A branch whose prediction is
  wrong is fetched, the wrong path runs, and the redirection and commit of the branch put everything back.
\<close>

section \<open>The generator on the adapter\<close>

text \<open>
  The calls of \<open>SpikeInstGenerator\<close>, answered by the adapter. The generator sees of an instruction in the tunnel the
  members of \<open>spike_insn\<close> only; a non-zero result of \<open>spikeStep\<close> ends the run.
\<close>

definition adapter_calls :: "'m spike_ops \<Rightarrow> ('m \<Rightarrow> u64 \<Rightarrow> nat \<Rightarrow> u64 option) \<Rightarrow> ('m \<Rightarrow> u64 \<Rightarrow> u8 \<Rightarrow> 'm option)
    \<Rightarrow> ('m \<Rightarrow> u64 \<Rightarrow> u64) \<Rightarrow> ('m \<Rightarrow> u64 \<Rightarrow> u64 \<Rightarrow> 'm) \<Rightarrow> 'm SpikeAdapter spikeAdapter" where
  "adapter_calls ops ld st get_csr put_csr = \<lparr>sa_is_done = ad_is_done,
     sa_spikeStep = (\<lambda>s. bindE (spikeStep ops 1 s) (\<lambda>(r, s'). Inr (r \<noteq> 0, s'))),
     sa_spikeGetNextInst = (\<lambda>s. case ad_spikeGetNextInst s of (i, s') \<Rightarrow> (map_option spike_insn.truncate i, s')),
     sa_getSpikeNpc = ad_spike_npc, sa_getPredictionMiss = ad_getPredictionMiss,
     sa_setPredictionMiss = (\<lambda>b s. ad_setPredictionMiss s b), sa_setNpc = (\<lambda>npc s. ad_setNpc s npc),
     sa_MakeBackup = ad_MakeBackup, sa_BranchResolve = (\<lambda>b s. ad_BranchResolve ld st get_csr put_csr s b)\<rparr>"

text \<open>\<open>SpikeInstGenerator\<close>'s constructor: the command lines of the two simulators.\<close>

definition spike_command_line :: "string \<Rightarrow> string list" where
  "spike_command_line filename = [''spike'', ''--dtb=default.dtb'', ''--log-commits'', filename]"

definition spike_fast_command_line :: "string \<Rightarrow> string list" where
  "spike_fast_command_line filename = [''spike'', ''--dtb=default.dtb'', filename]"

section \<open>Fetching a mispredicted branch\<close>

lemma predict_wrong:
  assumes "getFuType x = FT_BRU" "getPc x \<noteq> 0x1010" "fe_predict_npc x \<noteq> getSpikeNpc x"
    and "fe_predict True (spike_generator (adapter_calls ops ld st get_csr put_csr) makeInst fuel) x g = Inr (x1, g1)"
  shows "\<exists>a1. ad_MakeBackup (sg_adapter g) = Inr a1 \<and> x1 = setIsMissPrediction True x
    \<and> g1 = g\<lparr>sg_adapter := ad_setPredictionMiss (ad_setNpc a1 (fe_predict_npc x)) True, sg_fetch_nop_inst := False\<rparr>"
  using assms
  by (auto simp: fe_predict_def spike_generator_def adapter_calls_def spike_setNpc_def Let_def bindE_eq_Inr)

text \<open>What redirection and commit of one branch do to the generator.\<close>

lemma redirect_adapter:
  assumes "fe_inst_generator f = Some g"
  shows "fe_RedirectPc (spike_generator (adapter_calls ops ld st get_csr put_csr) makeInst fuel) h f p
    = Inr (f\<lparr>fe_inst_generator := Some (g\<lparr>sg_adapter := ad_setPredictionMiss (ad_setNpc (sg_adapter g) (getSpikeNpc (h p))) False,
        sg_fetch_nop_inst := False\<rparr>)\<rparr>)"
  using assms by (simp add: fe_RedirectPc_def spike_generator_def adapter_calls_def spike_setNpc_def)

lemma commit_adapter:
  assumes "fe_inst_generator f = Some g" "fe_is_speculation f"
    and "ad_BranchResolve ld st get_csr put_csr (sg_adapter g) (getIsMissPrediction (h p)) = Inr a"
  shows "fe_BranchCommit (spike_generator (adapter_calls ops ld st get_csr put_csr) makeInst fuel) h f [p]
    = Inr (f\<lparr>fe_inst_generator := Some (g\<lparr>sg_adapter := a\<rparr>)\<rparr>)"
  using assms by (simp add: fe_BranchCommit_def spike_generator_def adapter_calls_def)

lemma ad_BranchResolve_mark:
  "ad_BranchResolve ld st get_csr put_csr s True = Inr s' \<Longrightarrow> ad_is_prediction_miss s' = ad_is_prediction_miss s"
  by (auto simp: ad_BranchResolve_def ad_RollBack_def ad_MemoryRollBack_def ad_RegRollBack_def ad_CsrRollBack_def
      bindE_eq_Inr Let_def split: option.splits)

section \<open>Properties\<close>

text \<open>
  (C18) A misprediction is undone from the frontend to the simulator's memory. The frontend fetches a branch (not at address
  0x1010, where it treats every instruction as ALU) whose successor is not the next address, while no branch is open: it marks the branch. Then the simulator
  follows the wrong path, with further branches and naturally aligned stores, while the reference stays. When the
  branch commits, the redirection followed by the commit leaves the simulator with the registers and every
  byte of memory it had at the branch, the program counter at the branch's real successor, no misprediction
  mark and no open branch, and the generator ready to fetch.
\<close>

theorem Misprediction_recovers:
  assumes "mmu_ok ld st bytes mapped" "\<And>m c v. bytes (put_csr m c v) = bytes m"
    and "getFuType x = FT_BRU" "getPc x \<noteq> 0x1010" "fe_predict_npc x \<noteq> getSpikeNpc x"
    and "ad_memory_backup (sg_adapter g) = mk_DataBackup" "ad_reg_backup (sg_adapter g) = []"
    and "gen = spike_generator (adapter_calls ops ld st get_csr put_csr) makeInst fuel"
    and "fe_predict True gen x g = Inr (x1, g1)"
    and "(wrong_path ld bytes)\<^sup>*\<^sup>* (ad_memory_backup (sg_adapter g1), sim_mem (ad_sim (sg_adapter g1)))
           (ad_memory_backup (sg_adapter g2), sim_mem (ad_sim (sg_adapter g2)))"
    and "ad_reg_backup (sg_adapter g2) = ad_reg_backup (sg_adapter g1) @ later"
    and "bytes (sim_mem (ad_sim_fast (sg_adapter g2))) = bytes (sim_mem (ad_sim (sg_adapter g)))"
    and "RegEqual (sim_regs (ad_sim (sg_adapter g))) (sim_regs (ad_sim_fast (sg_adapter g2)))"
    and "fe_inst_generator f = Some g2" "fe_is_speculation f"
    and "getIsMissPrediction (h p) = getIsMissPrediction x1" "getSpikeNpc (h p) = getSpikeNpc x"
  shows "\<exists>f1 f2 g3. fe_RedirectPc gen h f p = Inr f1 \<and> fe_BranchCommit gen h f1 [p] = Inr f2
    \<and> fe_inst_generator f2 = Some g3 \<and> \<not> sg_fetch_nop_inst g3
    \<and> sim_regs (ad_sim (sg_adapter g3)) = sim_regs (ad_sim (sg_adapter g))
    \<and> bytes (sim_mem (ad_sim (sg_adapter g3))) = bytes (sim_mem (ad_sim (sg_adapter g)))
    \<and> sim_pc (ad_sim (sg_adapter g3)) = getSpikeNpc x \<and> \<not> ad_getPredictionMiss (sg_adapter g3)
    \<and> ad_reg_backup (sg_adapter g3) = [] \<and> ad_memory_backup (sg_adapter g3) = mk_DataBackup"
proof -
  from predict_wrong [OF assms(3-5) assms(9) [unfolded assms(8)]] obtain a1 where
    a1: "ad_MakeBackup (sg_adapter g) = Inr a1" "x1 = setIsMissPrediction True x"
      "sg_adapter g1 = ad_setPredictionMiss (ad_setNpc a1 (fe_predict_npc x)) True" by auto
  let ?r = "ad_setPredictionMiss (ad_setNpc (sg_adapter g2) (getSpikeNpc x)) False"
  have g1: "ad_memory_backup (sg_adapter g1) = ad_memory_backup a1" "sim_mem (ad_sim (sg_adapter g1)) = sim_mem (ad_sim a1)"
      "ad_reg_backup (sg_adapter g1) = ad_reg_backup a1"
    by (simp_all add: a1(3) ad_setPredictionMiss_def ad_setNpc_def)
  have r: "ad_memory_backup ?r = ad_memory_backup (sg_adapter g2)" "sim_mem (ad_sim ?r) = sim_mem (ad_sim (sg_adapter g2))"
      "ad_reg_backup ?r = ad_reg_backup (sg_adapter g2)" "ad_npc ?r = Some (getSpikeNpc x)"
      "ad_sim_fast ?r = ad_sim_fast (sg_adapter g2)"
    by (simp_all add: ad_setPredictionMiss_def ad_setNpc_def)
  have "(wrong_path ld bytes)\<^sup>*\<^sup>* (ad_memory_backup a1, sim_mem (ad_sim a1)) (ad_memory_backup ?r, sim_mem (ad_sim ?r))"
    using assms(10) unfolding g1 r .
  moreover have "ad_reg_backup ?r = ad_reg_backup a1 @ later" using assms(11) unfolding g1 r .
  ultimately obtain a3 where
    a3: "ad_BranchResolve ld st get_csr put_csr ?r True = Inr a3" "sim_regs (ad_sim a3) = sim_regs (ad_sim (sg_adapter g))"
      "bytes (sim_mem (ad_sim a3)) = bytes (sim_mem (ad_sim (sg_adapter g)))" "sim_pc (ad_sim a3) = getSpikeNpc x"
      "ad_reg_backup a3 = []" "ad_memory_backup a3 = mk_DataBackup"
    using ad_BranchResolve_undoes [where get_csr = get_csr and put_csr = put_csr, OF assms(1,2,6,7) a1(1) _ _ r(4), of later] assms(12,13) unfolding r(5) by blast
  let ?g = "g2\<lparr>sg_adapter := ?r, sg_fetch_nop_inst := False\<rparr>"
  let ?f1 = "f\<lparr>fe_inst_generator := Some ?g\<rparr>"
  have "fe_RedirectPc gen h f p = Inr ?f1"
    using redirect_adapter [OF assms(14), where h = h and p = p] assms(17) by (simp add: assms(8))
  moreover have "fe_BranchCommit gen h ?f1 [p] = Inr (?f1\<lparr>fe_inst_generator := Some (?g\<lparr>sg_adapter := a3\<rparr>)\<rparr>)"
    unfolding assms(8) by (rule commit_adapter) (use assms(15,16) a1(2) a3(1) in simp_all)
  moreover have "\<not> ad_is_prediction_miss a3"
    using ad_BranchResolve_mark [OF a3(1)] by (simp add: ad_setPredictionMiss_def)
  ultimately show ?thesis
    using a3(2-6) by (simp add: ad_getPredictionMiss_def)
qed

text \<open>A branch at \<open>0x1000\<close> that jumps to \<open>0x2000\<close>, and one store on the wrong path.\<close>

definition demo_taken :: Inst where
  "demo_taken = setFuType FT_BRU (setPC 0x1000 (setSpikeNpc 0x2000 fsd_inst))"

definition demo_generator :: "(u64 \<Rightarrow> u8) SpikeAdapter SpikeInstGenerator" where
  "demo_generator = \<lparr>sg_adapter = demo_adapter, sg_fetch_nop_inst = False, sg_unique_id = 1\<rparr>"

definition demo_frontend :: "(u64 \<Rightarrow> u8) SpikeAdapter SpikeInstGenerator \<Rightarrow> (u64 \<Rightarrow> u8) SpikeAdapter SpikeInstGenerator PerfectFrontend" where
  "demo_frontend g = \<lparr>fe_issue_num = 4, fe_is_speculation = True, fe_is_config = False, fe_credit = 0,
     fe_inst_generator = Some g, fe_insn_gen_type = ''spike''\<rparr>"

theorem Misprediction_recovers_witness:
  "\<exists>gen g1 b f1 f2 g3. gen = spike_generator (adapter_calls demo_ops demo_ld demo_st (\<lambda>_ _. 0) (\<lambda>m _ _. m)) (\<lambda>_. Inr nop_decoded) 11
    \<and> fe_predict True gen demo_taken demo_generator = Inr (setIsMissPrediction True demo_taken, g1)
    \<and> fe_RedirectPc gen (\<lambda>_. setIsMissPrediction True demo_taken) (demo_frontend (g1\<lparr>sg_adapter := (sg_adapter g1)\<lparr>ad_memory_backup := b,
        ad_sim := (ad_sim (sg_adapter g1))\<lparr>sim_mem := poke 0x80000004 4 5 (\<lambda>_. 7)\<rparr>\<rparr>\<rparr>)) 0 = Inr f1
    \<and> fe_BranchCommit gen (\<lambda>_. setIsMissPrediction True demo_taken) f1 [0] = Inr f2 \<and> fe_inst_generator f2 = Some g3
    \<and> sim_mem (ad_sim (sg_adapter g3)) = (\<lambda>_. 7) \<and> sim_pc (ad_sim (sg_adapter g3)) = 0x2000"
proof -
  define gen where "gen = spike_generator (adapter_calls demo_ops demo_ld demo_st (\<lambda>_ _. 0) (\<lambda>m _ _. m)) (\<lambda>_. Inr nop_decoded) 11"
  have br: "getFuType demo_taken = FT_BRU" "getPc demo_taken \<noteq> 0x1010" "fe_predict_npc demo_taken \<noteq> getSpikeNpc demo_taken"
    by (simp_all add: demo_taken_def fe_predict_npc_def)
  have "\<exists>g1. fe_predict True gen demo_taken demo_generator = Inr (setIsMissPrediction True demo_taken, g1)
      \<and> ad_memory_backup (sg_adapter g1) = \<lparr>db_stable = True, db_data_backup = [[]]\<rparr> \<and> sim_mem (ad_sim (sg_adapter g1)) = (\<lambda>_. 7)
      \<and> ad_sim_fast (sg_adapter g1) = ad_sim_fast demo_adapter"
    using br by (simp add: gen_def fe_predict_def spike_generator_def adapter_calls_def spike_setNpc_def demo_generator_def
        ad_MakeBackup_def demo_adapter_def mk_DataBackup_def db_MakeBackupEntry_def ad_MakeRegBackup_def
        ad_setPredictionMiss_def ad_setNpc_def)
  then obtain g1 where g1: "fe_predict True gen demo_taken demo_generator = Inr (setIsMissPrediction True demo_taken, g1)"
    "ad_memory_backup (sg_adapter g1) = \<lparr>db_stable = True, db_data_backup = [[]]\<rparr>" "sim_mem (ad_sim (sg_adapter g1)) = (\<lambda>_. 7)"
    "ad_sim_fast (sg_adapter g1) = ad_sim_fast demo_adapter" by blast
  obtain b where w: "wrong_path demo_ld (\<lambda>f. f) (ad_memory_backup (sg_adapter g1), sim_mem (ad_sim (sg_adapter g1)))
      (b, poke 0x80000004 4 5 (\<lambda>_. 7))"
    using demo_store [where b = "ad_memory_backup (sg_adapter g1)" and a = "0x80000004" and len = 4 and m = "\<lambda>_. 7" and v = 5] g1(2,3) by auto
  define g2 where "g2 = g1\<lparr>sg_adapter := (sg_adapter g1)\<lparr>ad_memory_backup := b,
        ad_sim := (ad_sim (sg_adapter g1))\<lparr>sim_mem := poke 0x80000004 4 5 (\<lambda>_. 7)\<rparr>\<rparr>\<rparr>"
  have w2: "(wrong_path demo_ld (\<lambda>f. f))\<^sup>*\<^sup>* (ad_memory_backup (sg_adapter g1), sim_mem (ad_sim (sg_adapter g1)))
      (ad_memory_backup (sg_adapter g2), sim_mem (ad_sim (sg_adapter g2)))"
    using w by (simp add: g2_def)
  have d: "ad_memory_backup (sg_adapter demo_generator) = mk_DataBackup" "ad_reg_backup (sg_adapter demo_generator) = []"
      "ad_reg_backup (sg_adapter g2) = ad_reg_backup (sg_adapter g1) @ []"
      "sim_mem (ad_sim_fast (sg_adapter g2)) = sim_mem (ad_sim (sg_adapter demo_generator))"
      "RegEqual (sim_regs (ad_sim (sg_adapter demo_generator))) (sim_regs (ad_sim_fast (sg_adapter g2)))"
    using g1(4) by (simp_all add: g2_def demo_generator_def demo_adapter_def RegEqual_def list_all_iff)
  have f: "fe_inst_generator (demo_frontend g2) = Some g2" "fe_is_speculation (demo_frontend g2)"
    by (simp_all add: demo_frontend_def)
  have h: "getIsMissPrediction ((\<lambda>_. setIsMissPrediction True demo_taken) (0::nat)) = getIsMissPrediction (setIsMissPrediction True demo_taken)"
      "getSpikeNpc ((\<lambda>_. setIsMissPrediction True demo_taken) (0::nat)) = getSpikeNpc demo_taken" by simp_all
  from Misprediction_recovers [where bytes = "\<lambda>f. f" and h = "\<lambda>_. setIsMissPrediction True demo_taken" and p = 0,
      OF demo_mmu refl br d(1,2) gen_def g1(1) w2 d(3-5) f h]
  have "\<exists>f1 f2 g3. fe_RedirectPc gen (\<lambda>_. setIsMissPrediction True demo_taken) (demo_frontend g2) 0 = Inr f1
    \<and> fe_BranchCommit gen (\<lambda>_. setIsMissPrediction True demo_taken) f1 [0] = Inr f2 \<and> fe_inst_generator f2 = Some g3
    \<and> sim_mem (ad_sim (sg_adapter g3)) = sim_mem (ad_sim (sg_adapter demo_generator))
    \<and> sim_pc (ad_sim (sg_adapter g3)) = getSpikeNpc demo_taken" by blast
  moreover have "sim_mem (ad_sim (sg_adapter demo_generator)) = (\<lambda>_. 7)" "getSpikeNpc demo_taken = 0x2000"
    by (simp_all add: demo_generator_def demo_adapter_def demo_taken_def)
  ultimately show ?thesis using gen_def g1(1) unfolding g2_def by metis
qed

section \<open>Fetching on the wrong path\<close>

text \<open>
  How the simulator may change the adapter while it runs: through the hooks it calls, and in its own state.
\<close>

inductive sim_hook :: "('m \<Rightarrow> u64 \<Rightarrow> nat \<Rightarrow> u64 option) \<Rightarrow> 'm SpikeAdapter \<Rightarrow> 'm SpikeAdapter \<Rightarrow> bool" for ld where
  hook_decode: "sim_hook ld s (ad_decodeHook s bits rvc pc_in npc)"
| hook_npc: "ad_getNpcHook s npc = (npc', s') \<Longrightarrow> sim_hook ld s s'"
| hook_exception: "ad_excptionHook s insn_length pc_in = (cause, s') \<Longrightarrow> sim_hook ld s s'"
| hook_store: "ad_catchDataBeforeWriteHook ld s addr data len = Inr s' \<Longrightarrow> sim_hook ld s s'"
| hook_commit: "ad_commitHook csr_name vlen velt s = Inr (b, s') \<Longrightarrow> sim_hook ld s s'"
| hook_own: "sim_hook ld s (s\<lparr>ad_sim := m\<rparr>)"

lemma ad_malloc_mark: "ad_malloc bs s = (p, s') \<Longrightarrow> ad_is_prediction_miss s' = ad_is_prediction_miss s"
  by (auto simp: ad_malloc_def)

lemma commit_reg_mark:
  "commit_reg csr_name vlen velt xlen flen (out, s) e = Inr (out', s') \<Longrightarrow> ad_is_prediction_miss s' = ad_is_prediction_miss s"
  by (cases e) (auto simp: commit_reg_def Let_def dest: ad_malloc_mark split: if_splits prod.splits)

lemma commit_store_mark: "commit_store (out, s) e = Inr (out', s') \<Longrightarrow> ad_is_prediction_miss s' = ad_is_prediction_miss s"
  by (cases e) (auto simp: commit_store_def Let_def dest: ad_malloc_mark split: if_splits prod.splits)

lemma ad_commitHook_mark:
  assumes "ad_commitHook csr_name vlen velt s = Inr (b, s')"
  shows "ad_is_prediction_miss s' = ad_is_prediction_miss s"
proof (cases "ad_tunnel s")
  case None
  with assms show ?thesis by (simp add: ad_commitHook_def)
next
  case (Some i)
  from assms Some obtain xlen flen regs s1 l2 out s2 where
    r: "foldE (commit_reg csr_name vlen velt xlen flen) ([], s) (re_log_reg_write (sim_regs (ad_sim s))) = Inr (regs, s1)"
      "foldE commit_store ([], s1) l2 = Inr (out, s2)" "ad_is_prediction_miss s' = ad_is_prediction_miss s2"
    by (auto simp: ad_commitHook_def Let_def bindE_eq_Inr)
  have "ad_is_prediction_miss (snd (regs, s1)) = ad_is_prediction_miss (snd ([] :: RegWrite_t, s))"
    by (rule foldE_keeps [where v = "\<lambda>x. ad_is_prediction_miss (snd x)", OF _ r(1)]) (use commit_reg_mark in fastforce)
  moreover have "ad_is_prediction_miss (snd (out, s2)) = ad_is_prediction_miss (snd ([] :: MemWrite_t, s1))"
    by (rule foldE_keeps [where v = "\<lambda>x. ad_is_prediction_miss (snd x)", OF _ r(2)]) (use commit_store_mark in fastforce)
  ultimately show ?thesis using r(3) by simp
qed

lemma sim_hook_mark: "sim_hook ld s s' \<Longrightarrow> ad_is_prediction_miss s' = ad_is_prediction_miss s"
proof (induction rule: sim_hook.induct)
  case (hook_commit csr_name vlen velt s b s')
  then show ?case by (rule ad_commitHook_mark)
qed (auto simp: ad_decodeHook_def ad_getNpcHook_def ad_excptionHook_def ad_setNpc_def ad_catchDataBeforeWriteHook_def
    bindE_eq_Inr Let_def split: if_splits)

lemma sim_hooks_mark: "(sim_hook ld)\<^sup>*\<^sup>* s s' \<Longrightarrow> ad_is_prediction_miss s' = ad_is_prediction_miss s"
  by (induction rule: rtranclp_induct) (auto dest: sim_hook_mark)

lemma on_sim_mark: "on_sim f s = Inr s' \<Longrightarrow> ad_is_prediction_miss s' = ad_is_prediction_miss s"
  by (auto simp: on_sim_def bindE_eq_Inr)

lemma on_sim_fast_mark: "on_sim_fast f s = Inr s' \<Longrightarrow> ad_is_prediction_miss s' = ad_is_prediction_miss s"
  by (auto simp: on_sim_fast_def bindE_eq_Inr)

lemma step_fromhost_mark: "step_fromhost ops s = Inr s' \<Longrightarrow> ad_is_prediction_miss s' = ad_is_prediction_miss s"
  by (auto simp: step_fromhost_def bindE_eq_Inr Let_def dest!: on_sim_mark on_sim_fast_mark split: list.splits if_splits)

lemma step_one_mark:
  assumes "\<forall>s s'. ad_getPredictionMiss s \<and> so_idle ops s = Inr s' \<longrightarrow> (sim_hook ld)\<^sup>*\<^sup>* s s'"
    and "ad_getPredictionMiss s" "step_one ops s = Inr s'"
  shows "ad_getPredictionMiss s'"
proof (cases "so_tohost_addr ops (sim_mem (ad_sim s)) = 0")
  case True
  with assms sim_hooks_mark show ?thesis by (fastforce simp: step_one_def ad_getPredictionMiss_def)
next
  case False
  with assms(2,3) obtain s1 s2 where "so_idle ops s = Inr s1" "on_sim (so_tick ops) s1 = Inr s2" "step_fromhost ops s2 = Inr s'"
    using sim_hooks_mark assms(1)
    by (fastforce simp: step_one_def step_tohost_def step_run_def ad_getPredictionMiss_def bindE_eq_Inr Let_def split: if_splits)
  with sim_hooks_mark assms(1) on_sim_mark step_fromhost_mark assms(2) show ?thesis
    by (metis ad_getPredictionMiss_def)
qed

lemma spikeStep_mark:
  assumes "\<forall>s s'. ad_getPredictionMiss s \<and> so_idle ops s = Inr s' \<longrightarrow> (sim_hook ld)\<^sup>*\<^sup>* s s'"
    and "ad_getPredictionMiss s" "spikeStep ops 1 s = Inr (r, s')"
  shows "ad_getPredictionMiss s'"
proof -
  obtain s1 where s1: "step_one ops s = Inr s1" "s' = s1 \<or> s' = snd (spikeRunEnd ops s1)"
    using assms(3) by (auto simp: bindE_eq_Inr split: if_splits)
  with step_one_mark [OF assms(1,2)] show ?thesis by (auto simp: spikeRunEnd_def ad_getPredictionMiss_def Let_def)
qed

text \<open>Apart from the simulator, nothing in a step can fail to return.\<close>

lemma bad_address_returns: "bad_address x \<noteq> Inl NoReturn"
  by (auto simp: bad_address_def split: option.splits)

lemma on_sim_returns: "on_sim f s \<noteq> Inl NoReturn" "on_sim_fast f s \<noteq> Inl NoReturn"
  using bad_address_returns by (auto simp: on_sim_def on_sim_fast_def bindE_eq_Inl)

lemma spikeStep_returns:
  assumes "\<forall>s. so_idle ops s \<noteq> Inl NoReturn" "ad_getPredictionMiss s"
  shows "spikeStep ops 1 s \<noteq> Inl NoReturn"
proof -
  have t: "step_tohost ops s = Inl NoReturn \<Longrightarrow> False" "step_tohost ops s = Inr (v, s') \<Longrightarrow> s' = s" for v s'
    using assms(2) by (auto simp: step_tohost_def bindE_eq_Inl bindE_eq_Inr Let_def bad_address_returns)
  have r: "step_run ops v s \<noteq> Inl NoReturn" for v
    using assms by (auto simp: step_run_def bindE_eq_Inl bindE_eq_Inr assertE_def Let_def on_sim_returns split: if_splits)
  have f: "step_fromhost ops s' \<noteq> Inl NoReturn" for s'
    by (auto simp: step_fromhost_def bindE_eq_Inl Let_def bad_address_returns on_sim_returns split: list.splits if_splits)
  have "step_one ops s \<noteq> Inl NoReturn"
    using assms(1) t r f by (fastforce simp: step_one_def bindE_eq_Inl split: if_splits)
  then show ?thesis by (auto simp: bindE_eq_Inl split: if_splits)
qed

text \<open>
  (C35) On a mispredicted path fetching always comes to an end. Let the misprediction mark be set, and let the simulator and
  the decoder return or throw on each call, where the simulator changes the adapter only through the adapter's hooks and in
  its own state. Then waiting for an instruction takes at most eleven rounds, so a larger bound changes nothing: after
  ten rounds without an instruction the generator gives a nop. The result is an instruction or the null pointer, unless the
  decoder throws on some opcode or a step of the simulator fails, and then it is that error. (On the right path
  nothing bounds the wait.)
\<close>

theorem SpikeInstGenerator_misprediction_returns:
  assumes "\<And>s s'. ad_getPredictionMiss s \<Longrightarrow> so_idle ops s = Inr s' \<Longrightarrow> (sim_hook ld)\<^sup>*\<^sup>* s s'"
    and "\<And>s. so_idle ops s \<noteq> Inl NoReturn" "\<And>bits. makeInst bits \<noteq> Inl NoReturn"
    and "ad_getPredictionMiss (sg_adapter g)" "11 \<le> fuel"
    and "r = spike_getNextInst (adapter_calls ops ld st get_csr put_csr) makeInst fuel g"
  shows "r = spike_getNextInst (adapter_calls ops ld st get_csr put_csr) makeInst 11 g \<and> r \<noteq> Inl NoReturn
    \<and> ((\<exists>x g'. r = Inr (x, g'))
      \<or> (\<exists>bits e. makeInst bits = Inl e \<and> r = Inl e)
      \<or> (\<exists>s e. ad_getPredictionMiss s \<and> spikeStep ops 1 s = Inl e \<and> r = Inl e))"
proof -
  let ?ops = "adapter_calls ops ld st get_csr put_csr"
  have ops: "sa_getPredictionMiss ?ops = ad_getPredictionMiss"
    "sa_spikeStep ?ops = (\<lambda>s. bindE (spikeStep ops 1 s) (\<lambda>(r, s'). Inr (r \<noteq> 0, s')))" by (simp_all add: adapter_calls_def)
  have keep: "\<forall>a stop a'. sa_getPredictionMiss ?ops a \<and> sa_spikeStep ?ops a = Inr (stop, a') \<longrightarrow> sa_getPredictionMiss ?ops a'"
  proof (intro allI impI, elim conjE)
    fix a stop a' assume a: "sa_getPredictionMiss ?ops a" "sa_spikeStep ?ops a = Inr (stop, a')"
    from a(2) obtain v where "spikeStep ops 1 a = Inr (v, a')"
      unfolding ops(2) by (auto simp: bindE_eq_Inr simp del: spikeStep.simps One_nat_def)
    moreover have "\<forall>s s'. ad_getPredictionMiss s \<and> so_idle ops s = Inr s' \<longrightarrow> (sim_hook ld)\<^sup>*\<^sup>* s s'" using assms(1) by blast
    ultimately show "sa_getPredictionMiss ?ops a'" using spikeStep_mark a(1) unfolding ops(1) by blast
  qed
  have get: "\<forall>a. sa_getPredictionMiss ?ops (snd (sa_spikeGetNextInst ?ops a)) = sa_getPredictionMiss ?ops a"
    by (simp add: adapter_calls_def ad_spikeGetNextInst_def ad_getPredictionMiss_def)
  have mark: "sa_getPredictionMiss ?ops (sg_adapter g)" unfolding ops(1) by (rule assms(4))
  note b = spike_getNextInst_bounded [OF keep get mark assms(5), of makeInst, folded assms(6), unfolded ops(1)]
  have step: "spikeStep ops 1 a = Inl e" if "sa_spikeStep ?ops a = Inl e" for a e
    using that unfolding ops(2) by (auto simp: bindE_eq_Inl simp del: spikeStep.simps One_nat_def split: prod.splits)
  have ret: "spikeStep ops 1 a \<noteq> Inl NoReturn" if "ad_getPredictionMiss a" for a
    by (rule spikeStep_returns) (use assms(2) that in blast)+
  note b1 = b [THEN conjunct1]
  show ?thesis using b [THEN conjunct2]
  proof (elim disjE exE conjE)
    fix a e assume "ad_getPredictionMiss a" "sa_spikeStep ?ops a = Inl e" "r = Inl e"
    with step [of a e] ret [of a] b1 show ?thesis by (metis sum.inject(1))
  next
    fix bits e assume "makeInst bits = Inl e" "r = Inl e"
    with assms(3) [of bits] b1 show ?thesis by (metis sum.inject(1))
  next
    fix x g' assume "r = Inr (x, g')"
    with b1 show ?thesis by (metis sum.distinct(1))
  qed
qed

text \<open>The simulator of \<open>demo_ops\<close> never decodes: the generator gives a nop after ten rounds.\<close>

theorem SpikeInstGenerator_misprediction_returns_witness:
  "\<exists>r. r = spike_getNextInst (adapter_calls demo_ops demo_ld demo_st (\<lambda>_ _. 0) (\<lambda>m _ _. m)) (\<lambda>_. Inr nop_decoded) 1000
      (demo_generator\<lparr>sg_adapter := demo_adapter\<lparr>ad_tunnel := None\<rparr>\<rparr>)
    \<and> r = spike_getNextInst (adapter_calls demo_ops demo_ld demo_st (\<lambda>_ _. 0) (\<lambda>m _ _. m)) (\<lambda>_. Inr nop_decoded) 11
      (demo_generator\<lparr>sg_adapter := demo_adapter\<lparr>ad_tunnel := None\<rparr>\<rparr>) \<and> r \<noteq> Inl NoReturn"
proof -
  have i: "(sim_hook demo_ld)\<^sup>*\<^sup>* s s'" if "ad_getPredictionMiss s" "so_idle demo_ops s = Inr s'" for s s'
  proof -
    have "ad_excptionHook s 4 (sim_pc (ad_sim s)) = (- 1, s')" using that by (simp add: ad_excptionHook_def demo_ops_def)
    from hook_exception [OF this] show ?thesis by blast
  qed
  have n: "so_idle demo_ops s \<noteq> Inl NoReturn" for s by (simp add: demo_ops_def)
  have d: "(Inr nop_decoded :: decoded result) \<noteq> Inl NoReturn" by simp
  have m: "ad_getPredictionMiss (sg_adapter (demo_generator\<lparr>sg_adapter := demo_adapter\<lparr>ad_tunnel := None\<rparr>\<rparr>))"
    by (simp add: ad_getPredictionMiss_def demo_adapter_def)
  have f: "(11 :: nat) \<le> 1000" by simp
  from SpikeInstGenerator_misprediction_returns [OF i n d m f refl] show ?thesis by blast
qed

end
