(* ===== verification/Start_Up.thy ===== *)
theory Start_Up
  imports Sim_Setup Global_Param
begin

text \<open>
  What happens around the tree of units: \<open>main.cpp\<close> after the command line is parsed, the constructor of
  \<open>simulation/Simulation\<close> and its phases, the constructor of \<open>olympia/MavisUnit\<close>, the search for the allocators, and
  \<open>config/cpp_file/unitFactory\<close>, which describes every unit to the configuration scripts. The command-line library, the
  JSON reader and the framework are arguments or receive the calls as a list.
\<close>

section \<open>main and Simulation\<close>

text \<open>
  What the command-line library leaves behind: its exit code if it does not accept the arguments, the variables bound to
  options, whether an option was given, and the text of an option.
\<close>

record parsed_options =
  po_error :: "int option"
  po_json :: string
  po_workload :: string
  po_DRAMconfig :: string
  po_DRAMoutdir :: string
  po_instruction_limit :: u64
  po_count :: "string \<Rightarrow> bool"
  po_string :: "string \<Rightarrow> string"

datatype main_effect = SimulatorRun CommandLineData DRAMinput

definition dram_options :: "parsed_options \<Rightarrow> DRAMinput" where
  "dram_options po =
     (if po_DRAMconfig po = [] \<or> po_DRAMoutdir po = [] then \<lparr>DRAMconfig = [], DRAMoutdir = []\<rparr>
      else \<lparr>DRAMconfig = po_string po ''DRAMconfig'', DRAMoutdir = po_string po ''DRAMoutdir''\<rparr>)"

definition command_line_data :: "parsed_options \<Rightarrow> CommandLineData" where
  "command_line_data po = \<lparr>cl_is_elf_workload = False, cl_workload = po_workload po, cl_unit_factory = [],
     cl_json_config = po_json po, cl_instruction_limit = po_instruction_limit po\<rparr>"

definition perseus_main :: "parsed_options \<Rightarrow> int \<times> main_effect list" where
  "perseus_main po =
     (case po_error po of
        Some err_code \<Rightarrow> (err_code, [])
      | None \<Rightarrow>
          let cmd_data = command_line_data po; dram_input = dram_options po in
          if po_count po ''debug'' then (0, [])
          else (0, [SimulatorRun (if po_count po ''elf'' then cmd_data\<lparr>cl_is_elf_workload := True\<rparr> else cmd_data) dram_input]))"

text \<open>\<open>read\<close> reads and parses a file; it throws when the text is no JSON.\<close>

definition mk_Simulation :: "(string \<Rightarrow> json result) \<Rightarrow> (json \<Rightarrow> string) \<Rightarrow> CommandLineData \<Rightarrow> DRAMinput \<Rightarrow> Simulation result" where
  "mk_Simulation read dump cmd_data dram =
     bindE mk_ResourceMapFactory
     (\<lambda>m. bindE (read (cl_json_config cmd_data))
     (\<lambda>j. Inr \<lparr>is_elf_workload = cl_is_elf_workload cmd_data, workload = cl_workload cmd_data, json_config = j,
        dram_input = dram, instruction_limit = cl_instruction_limit cmd_data, resource_map_factory = m, json_dump = dump\<rparr>))"

text \<open>\<open>json_config_[key]\<close> makes a missing member null, and an object of a null value; it throws for other values.\<close>

definition json_index :: "json \<Rightarrow> string \<Rightarrow> (json \<times> json) result" where
  "json_index v k =
     (case v of
        JObj ms \<Rightarrow> (case map_of ms k of Some x \<Rightarrow> Inr (x, v) | None \<Rightarrow> Inr (JNull, JObj (ms @ [(k, JNull)])))
      | JNull \<Rightarrow> Inr (JNull, JObj [(k, JNull)])
      | _ \<Rightarrow> Inl (Thrown ''type_error''))"

definition sim_buildTree :: "Simulation \<Rightarrow> (Simulation \<times> setup_step list) result" where
  "sim_buildTree sim =
     bindE (json_index (json_config sim) ''hierarchy'')
     (\<lambda>(h, j). let sim1 = sim\<lparr>json_config := j\<rparr> in bindE (buildTree sim1 h) (\<lambda>effs. Inr (sim1, effs)))"

definition sim_configureTree :: "Simulation \<Rightarrow> Simulation" where
  "sim_configureTree sim = sim"

definition sim_bindTree :: "Simulation \<Rightarrow> (Simulation \<times> setup_step list) result" where
  "sim_bindTree sim =
     bindE (json_index (json_config sim) ''binding'')
     (\<lambda>(b, j). bindE (bindBindingTopology b) (\<lambda>effs. Inr (sim\<lparr>json_config := j\<rparr>, effs)))"

text \<open>The phases in the order in which the framework runs them.\<close>

definition sim_phases :: "Simulation \<Rightarrow> setup_step list result" where
  "sim_phases sim =
     bindE (sim_buildTree sim)
     (\<lambda>(sim1, built). bindE (sim_bindTree (sim_configureTree sim1)) (\<lambda>(_, bound). Inr (built @ bound)))"

section \<open>Decoder and allocators\<close>

record MavisParameters =
  isa_file_path :: string
  uarch_file_path :: string
  pseudo_file_path :: string
  uarch_overrides_json :: string
  uarch_overrides :: "string list"

text \<open>The nearest node, from \<open>path\<close>'s first element towards the root, that has the allocators as a child; null if none has.\<close>

fun getOlympiaAllocators :: "'a option list \<Rightarrow> 'a option" where
  "getOlympiaAllocators [] = None"
| "getOlympiaAllocators (Some a # path) = Some a"
| "getOlympiaAllocators (None # path) = getOlympiaAllocators path"

text \<open>
  The decoder is built from the two lists of files, the overrides and the allocators; the path of the pseudo
  instructions is computed but used by neither list.
\<close>

record 'a mavis_arguments =
  ma_isa_files :: "string list"
  ma_uarch_files :: "string list"
  ma_overrides :: "(string \<times> string) list"
  ma_allocators :: 'a

definition mk_MavisUnit :: "'a option list \<Rightarrow> MavisParameters \<Rightarrow> (string \<times> 'a mavis_arguments) result" where
  "mk_MavisUnit path p =
     (let pseudo = (if pseudo_file_path p = [] then uarch_file_path p else pseudo_file_path p) in
      bindE (getUArchAnnotationOverrides (uarch_overrides p))
      (\<lambda>ov. bindE (case getOlympiaAllocators path of None \<Rightarrow> Inl (SpartaAssert ''notNull'') | Some a \<Rightarrow> Inr a)
      (\<lambda>a. Inr (pseudo, \<lparr>ma_isa_files = getISAFiles (isa_file_path p),
          ma_uarch_files = getUArchFiles (uarch_overrides_json p) (uarch_file_path p), ma_overrides = ov, ma_allocators = a\<rparr>))))"

section \<open>Description of the units\<close>

record UnitStatistics =
  ports_info :: "string \<Rightarrow> string list option"
  params_info :: "string \<Rightarrow> string option"

type_synonym UnitInfo = "string \<Rightarrow> UnitStatistics option"

record UnitsSet =
  resource_nodes :: "(string \<times> string) list"
  units_info :: UnitInfo
  unit_names :: "string list"
  unit_ports :: "string list"

text \<open>Looking up a key of the maps creates the entry.\<close>

definition unit_entry :: "UnitInfo \<Rightarrow> string \<Rightarrow> UnitStatistics" where
  "unit_entry m n = (case m n of None \<Rightarrow> \<lparr>ports_info = Map.empty, params_info = Map.empty\<rparr> | Some u \<Rightarrow> u)"

definition push_port :: "string \<Rightarrow> string \<Rightarrow> string \<Rightarrow> UnitsSet \<Rightarrow> UnitsSet" where
  "push_port n direction port us =
     (let u = unit_entry (units_info us) n;
          ps = (case ports_info u direction of None \<Rightarrow> [] | Some ps \<Rightarrow> ps)
      in us\<lparr>unit_ports := unit_ports us @ [port],
            units_info := (units_info us)(n \<mapsto> u\<lparr>ports_info := (ports_info u)(direction \<mapsto> ps @ [port])\<rparr>)\<rparr>)"

text \<open>A parameter is the framework's object; here it is the pair of its unit and its name.\<close>

definition set_param_info :: "string \<Rightarrow> string \<Rightarrow> UnitsSet \<Rightarrow> UnitsSet" where
  "set_param_info n param us =
     (let u = unit_entry (units_info us) n in
      us\<lparr>units_info := (units_info us)(n \<mapsto> u\<lparr>params_info := (params_info u)(param \<mapsto> param)\<rparr>)\<rparr>)"

text \<open>What the framework knows of a unit once it is built: its ports of either direction and its parameters.\<close>

record unit_view =
  uv_in :: "string \<Rightarrow> string list"
  uv_out :: "string \<Rightarrow> string list"
  uv_params :: "string \<Rightarrow> string list"

definition describe_unit :: "unit_view \<Rightarrow> string \<Rightarrow> UnitsSet \<Rightarrow> UnitsSet" where
  "describe_unit v n us =
     fold (set_param_info n) (uv_params v n)
       (fold (push_port n ''out_ports'') (uv_out v n)
         (fold (push_port n ''in_ports'') (uv_in v n)
           (us\<lparr>unit_names := unit_names us @ [n]\<rparr>)))"

definition priority_units :: "string set" where
  "priority_units = {''global_param'', ''mavis''}"

definition mk_UnitsSet :: "unit_view \<Rightarrow> UnitsSet result" where
  "mk_UnitsSet v =
     bindE mk_ResourceMapFactory
     (\<lambda>m. let nodes = filter (\<lambda>(n, f). n \<in> priority_units) m @ filter (\<lambda>(n, f). n \<notin> priority_units) m in
       Inr (fold (describe_unit v) (map fst nodes)
         \<lparr>resource_nodes = nodes, units_info = Map.empty, unit_names = [], unit_ports = []\<rparr>))"

text \<open>
  The Python module: attributes by the path of their submodule, each with its own name as value. The maps are
  iterated in an order the standard leaves open, given by the arguments.
\<close>

definition func_type_names :: "string list result" where
  "func_type_names = foldE (\<lambda>ss t. if t = FT_NO_TYPE then Inr ss else bindE (funcTypeToString t) (\<lambda>s. Inr (ss @ [s]))) []
     [FT_NO_TYPE, FT_ALU, FT_MUL, FT_DIV, FT_BRU, FT_CSR, FT_LDU, FT_STU, FT_FPU]"

definition unitlib :: "string list \<Rightarrow> (string \<Rightarrow> string list) \<Rightarrow> (string \<Rightarrow> string list) \<Rightarrow> UnitsSet
    \<Rightarrow> (string list \<times> string) list result" where
  "unitlib unit_order dir_order param_order us =
     bindE func_type_names
     (\<lambda>fts. Inr (map (\<lambda>n. ([''units''], n)) (unit_names us) @ map (\<lambda>t. ([''func_type''], t)) fts
       @ concat (map (\<lambda>n. concat (map (\<lambda>d. map (\<lambda>p. ([''ports'', n, d], p))
            (case ports_info (unit_entry (units_info us) n) d of None \<Rightarrow> [] | Some ps \<Rightarrow> ps)) (dir_order n))) unit_order)
       @ concat (map (\<lambda>n. map (\<lambda>p. ([''params'', n], p)) (param_order n)) unit_order)))"

section \<open>From the command line to the wired units\<close>

definition bindings_json :: "(string \<times> string) list \<Rightarrow> json" where
  "bindings_json bs = JArr (map (\<lambda>(s, t). JObj [(''source'', JStr s), (''target'', JStr t)]) bs)"

lemma bindBindingTopology_ok:
  "bindBindingTopology (bindings_json bs) = Inr (map (\<lambda>(s, t). Bind s t) bs)"
proof -
  have "foldE (\<lambda>effs (_, pair).
       bindE (json_member pair ''source'') (\<lambda>s. bindE (json_string s) (\<lambda>source.
       bindE (json_member pair ''target'') (\<lambda>t. bindE (json_string t) (\<lambda>target. Inr (effs @ [Bind source target])))))) effs
     (json_iter (bindings_json bs)) = Inr (effs @ map (\<lambda>(s, t). Bind s t) bs)" for effs
    by (induction bs arbitrary: effs) (auto simp: bindings_json_def json_member_def json_string_def)
  from this [of "[]"] show ?thesis by (simp add: bindBindingTopology_def)
qed

lemma mk_ResourceMapFactory_ok:
  "\<exists>m. mk_ResourceMapFactory = Inr m \<and> smap_wf m \<and> (\<forall>k. map_of m k = map_of resource_factories k)"
proof -
  have "distinct (map fst resource_factories)" by (simp add: resource_factories_def)
  then obtain m where m: "mk_ResourceMapFactory = Inr m" "smap_wf m"
    "\<forall>k. map_of m k = (case map_of resource_factories k of None \<Rightarrow> map_of [] k | Some v \<Rightarrow> Some v)"
    using register_all [of resource_factories "[]"] by (fastforce simp: mk_ResourceMapFactory_def)
  have "map_of m k = map_of resource_factories k" for k
    using m(3) by (cases "map_of resource_factories k") (simp_all del: not_None_eq)
  with m show ?thesis by blast
qed

lemma units_ok_cong: "(\<And>k. map_of m k = map_of m' k) \<Longrightarrow> units_ok m us = units_ok m' us"
  by (simp add: units_ok_def)

lemma hier_ok_cong:
  assumes "\<And>k. map_of m k = map_of m' k"
  shows "hier_ok m h = hier_ok m' h" "members_ok m ms = members_ok m' ms"
  using units_ok_cong [OF assms] by (induction m h and m ms rule: hier_ok_members_ok.induct) auto

lemma created_cong:
  assumes "\<And>k. map_of m k = map_of m' k"
  shows "units_created m parent us = units_created m' parent us" "tree_created m parent h = tree_created m' parent h"
    "trees_created m parent ms = trees_created m' parent ms"
proof -
  show "units_created m parent us = units_created m' parent us" by (simp add: units_created_def assms)
  show "tree_created m parent h = tree_created m' parent h" "trees_created m parent ms = trees_created m' parent ms"
    using assms by (induction m parent h and m parent ms rule: tree_created_trees_created.induct) (auto simp: units_created_def)
qed

section \<open>What the configuration scripts see\<close>

definition ports_of :: "UnitsSet \<Rightarrow> string \<Rightarrow> string \<Rightarrow> string list" where
  "ports_of us n d = (case ports_info (unit_entry (units_info us) n) d of None \<Rightarrow> [] | Some ps \<Rightarrow> ps)"

definition params_of :: "UnitsSet \<Rightarrow> string \<Rightarrow> string set" where
  "params_of us n = dom (params_info (unit_entry (units_info us) n))"

lemma push_port_view:
  "ports_of (push_port n d p us) m e = ports_of us m e @ (if m = n \<and> e = d then [p] else [])"
  "params_of (push_port n d p us) m = params_of us m" "unit_names (push_port n d p us) = unit_names us"
  "resource_nodes (push_port n d p us) = resource_nodes us" "unit_ports (push_port n d p us) = unit_ports us @ [p]"
  by (auto simp: ports_of_def params_of_def push_port_def unit_entry_def Let_def split: option.splits)

lemma set_param_view:
  "ports_of (set_param_info n p us) m e = ports_of us m e" "unit_names (set_param_info n p us) = unit_names us"
  "params_of (set_param_info n p us) m = params_of us m \<union> (if m = n then {p} else {})"
  "resource_nodes (set_param_info n p us) = resource_nodes us" "unit_ports (set_param_info n p us) = unit_ports us"
  by (auto simp: ports_of_def params_of_def set_param_info_def unit_entry_def Let_def split: option.splits)

lemma fold_push_port_view:
  "ports_of (fold (push_port n d) ps us) m e = ports_of us m e @ (if m = n \<and> e = d then ps else [])"
  "params_of (fold (push_port n d) ps us) m = params_of us m" "unit_names (fold (push_port n d) ps us) = unit_names us"
  "resource_nodes (fold (push_port n d) ps us) = resource_nodes us" "unit_ports (fold (push_port n d) ps us) = unit_ports us @ ps"
  by (induction ps arbitrary: us) (simp_all add: push_port_view)

lemma fold_set_param_view:
  "ports_of (fold (set_param_info n) ps us) m e = ports_of us m e" "unit_names (fold (set_param_info n) ps us) = unit_names us"
  "params_of (fold (set_param_info n) ps us) m = params_of us m \<union> (if m = n then set ps else {})"
  "resource_nodes (fold (set_param_info n) ps us) = resource_nodes us" "unit_ports (fold (set_param_info n) ps us) = unit_ports us"
  by (induction ps arbitrary: us) (auto simp: set_param_view)

lemma describe_unit_view:
  "ports_of (describe_unit v n us) m e =
     ports_of us m e @ (if m = n then (if e = ''in_ports'' then uv_in v n else if e = ''out_ports'' then uv_out v n else []) else [])"
  "params_of (describe_unit v n us) m = params_of us m \<union> (if m = n then set (uv_params v n) else {})"
  "unit_names (describe_unit v n us) = unit_names us @ [n]" "resource_nodes (describe_unit v n us) = resource_nodes us"
  "unit_ports (describe_unit v n us) = unit_ports us @ uv_in v n @ uv_out v n"
proof -
  have "ports_of (us\<lparr>unit_names := ns\<rparr>) m e = ports_of us m e" "params_of (us\<lparr>unit_names := ns\<rparr>) m = params_of us m" for ns
    by (simp_all add: ports_of_def params_of_def)
  note upd = this
  show "ports_of (describe_unit v n us) m e =
     ports_of us m e @ (if m = n then (if e = ''in_ports'' then uv_in v n else if e = ''out_ports'' then uv_out v n else []) else [])"
    by (simp add: describe_unit_def fold_push_port_view fold_set_param_view upd)
  show "params_of (describe_unit v n us) m = params_of us m \<union> (if m = n then set (uv_params v n) else {})"
    "unit_names (describe_unit v n us) = unit_names us @ [n]" "resource_nodes (describe_unit v n us) = resource_nodes us"
    "unit_ports (describe_unit v n us) = unit_ports us @ uv_in v n @ uv_out v n"
    by (simp_all add: describe_unit_def fold_push_port_view fold_set_param_view upd)
qed

lemma fold_describe_view:
  assumes "distinct ns"
  shows "unit_names (fold (describe_unit v) ns us) = unit_names us @ ns"
    "ports_of (fold (describe_unit v) ns us) m e = ports_of us m e
       @ (if m \<in> set ns then (if e = ''in_ports'' then uv_in v m else if e = ''out_ports'' then uv_out v m else []) else [])"
    "params_of (fold (describe_unit v) ns us) m = params_of us m \<union> (if m \<in> set ns then set (uv_params v m) else {})"
    "unit_ports (fold (describe_unit v) ns us) = unit_ports us @ concat (map (\<lambda>n. uv_in v n @ uv_out v n) ns)"
  using assms by (induction ns arbitrary: us) (auto simp: describe_unit_view)

text \<open>A sorted map is determined by its look-ups.\<close>

lemma smap_names:
  assumes "smap_wf m" "\<And>k. map_of m k = map_of resource_factories k"
  shows "distinct (map fst m)" "set (map fst m) = set (map fst resource_factories)"
proof -
  show "distinct (map fst m)" using assms(1) by (simp add: smap_wf_def strict_sorted_iff)
  have "dom (map_of m) = dom (map_of resource_factories)" using assms(2) by auto
  then show "set (map fst m) = set (map fst resource_factories)" by (simp add: dom_map_of_conv_image_fst)
qed

lemma map_fst_filter: "map fst (filter (\<lambda>(n, f). P n) m) = filter P (map fst m)"
  by (induction m) auto

lemma priority_first:
  assumes "smap_wf m" "\<And>k. map_of m k = map_of resource_factories k"
  shows "filter (\<lambda>n. n \<in> priority_units) (map fst m) = [''global_param'', ''mavis'']"
proof (rule sorted_distinct_set_unique)
  have "sorted (map fst m)" using assms(1) by (simp add: smap_wf_def strict_sorted_iff)
  then show "sorted (filter (\<lambda>n. n \<in> priority_units) (map fst m))" using sorted_filter [of id] by fastforce
  show "distinct (filter (\<lambda>n. n \<in> priority_units) (map fst m))" using smap_names(1) [OF assms] by simp
  show "set (filter (\<lambda>n. n \<in> priority_units) (map fst m)) = set [''global_param'', ''mavis'']"
    unfolding set_filter smap_names(2) [OF assms] by (auto simp: priority_units_def resource_factories_def)
qed (simp_all add: less_eq_char_def)

text \<open>
  (C40) The configuration scripts see every unit of the program, once, and all of it. The description is built; its
  first two units are \<open>global_param\<close> and \<open>mavis\<close>, on which the constructors of the others rely; its units are the registered ones, each
  once; of each of them it lists exactly the input ports, the output ports and the parameters that the framework knows of
  it, and nothing of any other name.
\<close>

theorem UnitsSet_describes_all_units:
  "\<exists>us. mk_UnitsSet v = Inr us \<and> take 2 (unit_names us) = [''global_param'', ''mavis''] \<and> distinct (unit_names us)
    \<and> set (unit_names us) = fst ` set resource_factories
    \<and> (\<forall>n. ports_of us n ''in_ports'' = (if n \<in> set (unit_names us) then uv_in v n else [])
        \<and> ports_of us n ''out_ports'' = (if n \<in> set (unit_names us) then uv_out v n else [])
        \<and> params_of us n = (if n \<in> set (unit_names us) then set (uv_params v n) else {}))"
proof -
  obtain m where m: "mk_ResourceMapFactory = Inr m" "smap_wf m" "\<And>k. map_of m k = map_of resource_factories k"
    using mk_ResourceMapFactory_ok by blast
  define nodes where "nodes = filter (\<lambda>(n, f). n \<in> priority_units) m @ filter (\<lambda>(n, f). n \<notin> priority_units) m"
  have names: "map fst nodes = [''global_param'', ''mavis''] @ filter (\<lambda>n. n \<notin> priority_units) (map fst m)"
    unfolding nodes_def map_append map_fst_filter priority_first [OF m(2,3)] ..
  have set: "set (map fst nodes) = fst ` set resource_factories"
    using smap_names(2) [OF m(2,3)] unfolding nodes_def map_append map_fst_filter by auto
  have dist: "distinct (map fst nodes)"
    using smap_names(1) [OF m(2,3)] unfolding nodes_def map_append map_fst_filter by auto
  define us where "us = fold (describe_unit v) (map fst nodes) \<lparr>resource_nodes = nodes, units_info = Map.empty, unit_names = [], unit_ports = []\<rparr>"
  have "mk_UnitsSet v = Inr us" by (simp add: mk_UnitsSet_def m(1) us_def nodes_def Let_def)
  moreover have un: "unit_names us = map fst nodes" unfolding us_def fold_describe_view(1) [OF dist] by simp
  moreover have "ports_of us n e = (if n \<in> set (map fst nodes) then (if e = ''in_ports'' then uv_in v n else if e = ''out_ports'' then uv_out v n else []) else [])"
    "params_of us n = (if n \<in> set (map fst nodes) then set (uv_params v n) else {})" for n e
    unfolding us_def fold_describe_view(2,3) [OF dist] by (simp_all add: ports_of_def params_of_def unit_entry_def)
  moreover have "take 2 (map fst nodes) = [''global_param'', ''mavis'']" unfolding names by (simp add: numeral_2_eq_2)
  ultimately show ?thesis using set dist by (intro exI [of _ us]) (simp only: un, simp)
qed

section \<open>Properties\<close>

text \<open>
  (C21) From the command line to the wired units. Given accepted options without \<open>debug\<close> whose configuration file
  holds a hierarchy of registered units with an \<open>info\<close> section and a list of bindings, \<open>main\<close> starts one simulation, of an executable
  exactly when \<open>elf\<close> was given, with the DRAM files only when both are named; its construction succeeds, and its phases create
  first the units of \<open>info\<close>, at the root, then exactly the configured nodes and units, in order, and last make exactly the
  configured bindings.
\<close>

theorem Startup_runs_configuration:
  assumes "po_error po = None" "\<not> po_count po ''debug''"
    and "read (po_json po) = Inr (JObj [(''binding'', bindings_json bs), (''hierarchy'', JObj (members_json (ms1 @ (''info'', us) # ms2)))])"
    and "hier_ok resource_factories us" "members_ok resource_factories (ms1 @ ms2)" "''info'' \<notin> fst ` set (ms1 @ ms2)"
  shows "\<exists>cmd dram sim effs. perseus_main po = (0, [SimulatorRun cmd dram])
    \<and> cl_is_elf_workload cmd = po_count po ''elf'' \<and> cl_workload cmd = po_workload po
    \<and> dram = (if po_DRAMconfig po \<noteq> [] \<and> po_DRAMoutdir po \<noteq> []
        then \<lparr>DRAMconfig = po_string po ''DRAMconfig'', DRAMoutdir = po_string po ''DRAMoutdir''\<rparr> else \<lparr>DRAMconfig = [], DRAMoutdir = []\<rparr>)
    \<and> mk_Simulation read dump cmd dram = Inr sim \<and> is_elf_workload sim = po_count po ''elf'' \<and> workload sim = po_workload po
    \<and> sim_phases sim = Inr (effs @ map (\<lambda>(s, t). Bind s t) bs)
    \<and> created effs = tree_created resource_factories [] us @ trees_created resource_factories [] (ms1 @ ms2)"
proof -
  obtain m where m: "mk_ResourceMapFactory = Inr m" "\<And>k. map_of m k = map_of resource_factories k"
    using mk_ResourceMapFactory_ok by blast
  define cmd where "cmd = (if po_count po ''elf'' then (command_line_data po)\<lparr>cl_is_elf_workload := True\<rparr> else command_line_data po)"
  have cmd: "cl_is_elf_workload cmd = po_count po ''elf''" "cl_workload cmd = po_workload po" "cl_json_config cmd = po_json po"
    by (simp_all add: cmd_def command_line_data_def)
  let ?h = "JObj (members_json (ms1 @ (''info'', us) # ms2))"
  let ?j = "JObj [(''binding'', bindings_json bs), (''hierarchy'', ?h)]"
  define sim where "sim = \<lparr>is_elf_workload = po_count po ''elf'', workload = po_workload po, json_config = ?j, dram_input = dram_options po,
    instruction_limit = cl_instruction_limit cmd, resource_map_factory = m, json_dump = dump\<rparr>"
  have sim: "mk_Simulation read dump cmd (dram_options po) = Inr sim"
    unfolding mk_Simulation_def m(1) bindE_Inr cmd(3) assms(3) by (simp add: cmd sim_def)
  have "hier_ok m us" "members_ok m (ms1 @ ms2)"
    using assms(4,5) hier_ok_cong [OF m(2)] by blast+
  then obtain effs where e: "buildTree sim ?h = Inr effs" "created effs = tree_created m [] us @ trees_created m [] (ms1 @ ms2)"
    using Simulation_builds_configured_tree [of m sim us ms1 ms2] assms(6) by (auto simp: sim_def)
  have "json_index (json_config sim) ''hierarchy'' = Inr (?h, ?j)" "json_index (json_config sim) ''binding'' = Inr (bindings_json bs, ?j)"
    by (simp_all add: json_index_def sim_def)
  moreover have "sim\<lparr>json_config := ?j\<rparr> = sim" by (simp add: sim_def)
  ultimately have "sim_phases sim = Inr (effs @ map (\<lambda>(s, t). Bind s t) bs)"
    using e(1) bindBindingTopology_ok by (simp add: sim_phases_def sim_buildTree_def sim_bindTree_def sim_configureTree_def Let_def)
  moreover have "perseus_main po = (0, [SimulatorRun cmd (dram_options po)])"
    using assms(1,2) by (simp add: perseus_main_def cmd_def Let_def)
  moreover have "created effs = tree_created resource_factories [] us @ trees_created resource_factories [] (ms1 @ ms2)"
    using e(2) created_cong [OF m(2)] by simp
  moreover have "is_elf_workload sim = po_count po ''elf''" "workload sim = po_workload po" by (simp_all add: sim_def)
  ultimately show ?thesis
    using sim cmd by (intro exI [of _ cmd] exI [of _ "dram_options po"] exI [of _ sim] exI [of _ effs]) (auto simp: dram_options_def)
qed

definition demo_options :: parsed_options where
  "demo_options = \<lparr>po_error = None, po_json = ''cpu.json'', po_workload = ''dhry.elf'', po_DRAMconfig = [], po_DRAMoutdir = [],
     po_instruction_limit = 0, po_count = (\<lambda>n. n = ''elf'' \<or> n = ''json''), po_string = (\<lambda>_. [])\<rparr>"

definition demo_files :: "string \<Rightarrow> json result" where
  "demo_files f = (if f = ''cpu.json'' then Inr (JObj [(''binding'', bindings_json [(''fe.out'', ''rn.in'')]),
       (''hierarchy'', JObj (members_json ([(''core0'', Units [(''perfect_frontend'', [(''fe'', [(''issue_width'', JNum 4)])])])]
          @ (''info'', Units [(''mavis'', [(''mavis'', [])])]) # [])))])
     else Inl (Thrown ''parse_error''))"

theorem Startup_runs_configuration_witness:
  "\<exists>cmd dram sim effs. perseus_main demo_options = (0, [SimulatorRun cmd dram])
    \<and> cl_is_elf_workload cmd \<and> mk_Simulation demo_files (\<lambda>_. ''4'') cmd dram = Inr sim
    \<and> sim_phases sim = Inr (effs @ [Bind ''fe.out'' ''rn.in''])
    \<and> created effs = [NewResource [''mavis''] ''MavisUnit'', NewNode [''core0''], NewResource [''core0'', ''fe''] ''PerfectFrontend'']"
proof -
  have "map_of resource_factories ''mavis'' = Some ''MavisUnit''" "map_of resource_factories ''perfect_frontend'' = Some ''PerfectFrontend''"
    by (simp_all add: resource_factories_def)
  then show ?thesis
    using Startup_runs_configuration [of demo_options demo_files "[(''fe.out'', ''rn.in'')]"
      "[(''core0'', Units [(''perfect_frontend'', [(''fe'', [(''issue_width'', JNum 4)])])])]" "Units [(''mavis'', [(''mavis'', [])])]" "[]" "\<lambda>_. ''4''"]
    by (auto simp: demo_options_def demo_files_def units_ok_def units_created_def param_ok_def)
qed

end
