(* ===== verification/Spec2Isabelle.thy ===== *)
theory Spec2Isabelle
  imports Reorder_Buffer Renaming_Stage Dispatch_Stage Physical_Regfile Write_Back_Stage Inst_Generator
    Perfect_Frontend Memory_Models Spike_Adapter Spike_Options Sim_Setup Elf_Parser
    Legacy_Fetch Legacy_Units Backend_Drain Issue_Flow Fetch_Link Speculation Start_Up
begin

text \<open>
  \<^bold>\<open>The Perseus timing model.\<close> The program under \<open>src/src\<close> is a cycle-level model of an out-of-order RISC-V
  core with its caches, written in C++ on the Sparta framework. A frontend produces instructions; the
  renaming stage gives them physical registers; the dispatch stage hands them to one reservation station per
  pipe; functional units execute them and the write-back stage arbitrates their results; the reorder buffer
  retires them in order and, after a misprediction, asks the flush manager to flush every unit. Caches and
  memories sit behind. Units talk through ports of the framework and throttle each other with credits: a
  unit may only send what the receiver has granted, and the receiver returns credits as places become free.

  \<^bold>\<open>How the code is modelled.\<close> Each C++ class is a \<open>record\<close> of its members, each enumeration a \<open>datatype\<close>, each
  method one definition with the method's name (prefixed where several classes share it). A handler takes the
  state, and the store of instructions where it dereferences instruction pointers, and returns the new state
  with the list of its effects: values sent on ports and events scheduled, in order, with their delay.
  Failure is a value of \<open>sim_error\<close>: a failed assertion of the framework or of C, \<open>std::map::at\<close> on a missing key,
  a thrown exception, or code the C++ standard gives no meaning (an index outside a vector, a null pointer, a
  read past an object). Integers keep their width. Instructions and memory accesses are shared pointers, hence addresses in a
  store. \<open>std::map\<close> is an association list sorted by key, since its iteration order matters. The scheduler is
  not modelled: theorems quantify over the order of handlers through step relations.

  \<^bold>\<open>Theories and sources.\<close>
  \<^item> \<open>Perseus_Prelude\<close>: results, loops over fallible steps, checked vectors and deques, ordered maps, words.
  \<^item> \<open>Inst_Types\<close>: \<open>basic/Inst\<close>, \<open>basic/Instruction.hpp\<close>, \<open>basic/InstGroup\<close>, \<open>basic/PortInterface\<close>, \<open>olympia/CoreTypes.hpp\<close>,
    \<open>olympia/InstArchInfo\<close>.
  \<^item> \<open>Queue_Interface\<close> (locale \<open>bounded_queue\<close>) and \<open>Loop_Queue\<close>: \<open>resources/LoopQueue.hpp\<close>, the ring buffer and its
    iterators, as a refinement of bounded lists.
  \<^item> \<open>Free_List\<close> (locale \<open>speculative_pool\<close>), \<open>Renaming_Table\<close> (locale \<open>shadowed_table\<close>), \<open>Renaming_Stage\<close>: the classes of
    those names in \<open>core/abstract_backend\<close>. The two locales state what the stage needs of the pool of registers
    and of the map, each with a speculative and a committed side; the stage's invariant rests on them.
  \<^item> \<open>Global_Param\<close>, \<open>Score_Board\<close>, \<open>Dispatch_Stage\<close>, \<open>Physical_Regfile\<close>, \<open>Reservation_Station\<close>, \<open>Reorder_Buffer\<close> (with the flush
    manager): the configuration strings and the other units of \<open>core/abstract_backend\<close>.
  \<^item> \<open>Credit_Interface\<close> (locale \<open>credit_unit\<close>): the contract between a unit and the one in front of it. The dispatch
    stage, the renaming stage, the reservation station, the reorder buffer and the functional unit are interpretations.
  \<^item> \<open>Perfect_Fu\<close>, \<open>Write_Back_Stage\<close>: \<open>core/func_unit\<close>, with the reservation station and the unit behind it composed.
  \<^item> \<open>Inst_Generator\<close>, \<open>Perfect_Frontend\<close>: \<open>olympia/InstGenerator\<close> and \<open>core/perfect_frontend\<close>. The decoder, the trace and
    JSON readers and the functional simulator are third-party code, hence arguments of the definitions.
  \<^item> \<open>Backend_System\<close>, \<open>Backend_Drain\<close>: the renaming stage and the reorder buffer with the messages between them as one
    step relation, in which handlers, deliveries and the rest of the core come in any order. \<open>Fetch_Link\<close>: the frontend and
    the renaming stage, likewise. \<open>Issue_Link\<close>, \<open>Issue_Flow\<close>: the dispatch stage with its reservation stations, the groups
    and credits between them and the write-backs they share, with the ordering points of a cycle as the only
    restriction on the order of steps, and flushes that find nothing on its way between them.
    In \<open>Backend_Drain\<close> the handlers of events run only when scheduled and the neighbours grant only the credits they owe.
    \<open>Speculation\<close>: the frontend on the generator on the adapter below.
  \<^item> \<open>Mem_Access\<close>, \<open>Base_Cache\<close>, \<open>Memory_Models\<close>: \<open>uncore\<close>: the miss registers, the cache, the three memories. The C
    library's \<open>random\<close> is a sequence of values, the DRAM simulator a state with its calls as arguments.
  \<^item> \<open>Data_Backup\<close>, \<open>Mem_Layout\<close>, \<open>Spike_Adapter\<close>: \<open>utils/spikeInterface\<close>: the log of overwritten memory and its roll-back, the
    parsing of memory layouts and hart numbers, and the adapter that runs two instances of the functional
    simulator, one ahead on the predicted path and one as the reference. The simulator itself is third-party
    code: its state is a type variable and its calls are arguments. \<open>Spike_Options\<close>: the handling of the command
    line of the simulator and what it builds from it, the calls into the simulator as a list.
  \<^item> \<open>Sim_Setup\<close>: \<open>simulation/ResourceMapFactory.hpp\<close>, \<open>simulation/Simulation\<close>, \<open>olympia/MavisUnit\<close>: the factories, the tree of
    units built from the configuration, the files and overrides of the decoder. \<open>Elf_Parser\<close>:
    \<open>simulation/ElfParser\<close>, reading an executable into a memory. \<open>Start_Up\<close>: \<open>main.cpp\<close> after the options are parsed, the
    constructors of \<open>Simulation\<close> and \<open>MavisUnit\<close>, the phases of a simulation, and \<open>config/cpp_file\<close>, which describes the
    units to the configuration scripts.
  \<^item> \<open>Legacy_Queues\<close>, \<open>Legacy_Fetch\<close>, \<open>Legacy_Units\<close>: the earlier model under \<open>legacy\<close>: its two ring buffers, the instruction
    buffer with the fetch adapter, and the clocked units. The ring buffer of \<open>legacy/src\<close> is a second
    interpretation of \<open>bounded_queue\<close>.
  \<^item> this theory: properties of several components together.

  \<^bold>\<open>What the lemmas show.\<close> The renaming stage neither loses nor duplicates a physical register in any reachable
  state, never fails, and a flush restores the committed state. The ring buffer refines a bounded list, for
  every operation and for iteration. Each credit interface keeps its balance: credits held in front plus
  places in use plus credits on the way equal the capacity. The dispatch stage, the reservation stations, the
  write-back arbitration and the reorder buffer are characterised completely on each run. The frontend
  delivers exactly the trace, within its credit. The renaming stage and the reorder buffer, put together, never
  fail as long as no instruction is mispredicted, release every instruction once and in program order, and can always
  drain with the handlers their events schedule: what each assumes of the other is what the other does. The dispatch
  stage and the reservation stations, put together, never fail either:
  every instruction reaches exactly one unit that serves it or is removed by a flush, no station overflows, and no wake-up is
  lost, which rests on the ordering points inside the stations. On a mispredicted path fetching returns after at most eleven
  rounds. A cache miss is served, end to end, by the memory behind.
  Rolling the memory log back restores every byte a mispredicted path overwrote, and resolving the branch
  restores the registers; meanwhile the reference simulator stands still; and this holds from the fetch of the branch by
  the frontend to its redirection and commit. Memory regions are merged without
  losing or adding an address. The earlier ring buffers refine a bounded list too, a flip-flop is a shift
  register, and what the fetch adapter reads is what was put into the buffer. From the options
  of the command line on, the tree of units and the bindings are the configured ones, each unit with its parameters, and an executable is in memory after loading.
  Several theorems state what the code does where it departs from what it means to do: a mispredicted
  instruction is committed twice, which ends in a failed assertion when it displaced a register; a flush gives the frontend more
  credits than the renaming stage has places, and can leave a functional unit without any; the cache uses one way per set and stalls on a full set; \<open>BaseMemory\<close> has no defined wide write;
  \<open>DRAMsim3\<close> sizes its queue with an uninitialised member and forgets which miss it answers.

  \<^bold>\<open>Bounds and fuel.\<close> Loops that end are structural recursion on the list or on the counter the code decreases.
  The simulator-driven generator spins until an instruction arrives; it takes a number of polls, returns
  \<open>NoReturn\<close> when they run out, and its theorem gives the number that suffices. Depths and widths are only bounded
  by their machine types.

  \<^bold>\<open>Not modelled.\<close> The Sparta scheduler, port delays, statistics and the errors the framework raises itself; log
  and help output; the declaration of the command-line options and opening files; the decoder, which is a
  library; the stages and registers of the earlier model, which is not built and whose types do not fit
  together; the declaration of the Python classes under \<open>config\<close>; the benchmark sources under \<open>traces\<close>, which are the
  workload and not the model. The composed systems leave out flushes, or allow them only while nothing
  is on its way, and each theorem says so: a flush arrives two cycles late and breaks their laws otherwise, as the theorems
  on the departures show.
\<close>

section \<open>Reorder buffer and renaming stage\<close>

lemma fl_Push_appends:
  "fl_Push f t = Inr f' \<Longrightarrow> free_list f' = free_list f @ [t] \<and> free_list_backup f' = free_list_backup f @ [t]"
  by (auto simp: fl_Push_def bindE_eq_Inr)

lemma clear_all_registers:
  "getPhyRd (clear_all ps h q) = getPhyRd (h q)" "getLPhyRd (clear_all ps h q) = getLPhyRd (h q)"
  "getIsaRd (clear_all ps h q) = getIsaRd (h q)"
  by (induction ps arbitrary: h) (auto simp: clear_all_def on_inst_apply)

text \<open>What committing one instruction that displaced a register leaves behind: that register is free.\<close>

lemma rn_commit_frees:
  assumes "rn_RobCommit_one h (s, effs) q = Inr (s', effs')" "getLPhyRd (h q) \<noteq> 0"
  shows "getLPhyRd (h q) \<in> set (free_list (rn_free_list s')) \<inter> set (free_list_backup (rn_free_list s'))"
  using assms by (auto simp: rn_RobCommit_one_def bindE_eq_Inr split: if_splits dest!: fl_Push_appends)

text \<open>Committing it again, in a state that satisfies the invariant, fails in the pool.\<close>

lemma rn_commit_again_fails:
  assumes "rn_inv P s Q" "getLPhyRd (h q) \<noteq> 0" "getLPhyRd (h q) \<in> set (free_list (rn_free_list s))"
  shows "rn_RobCommit_one h (s, effs) q = Inl (SpartaAssert ''token'')"
proof -
  let ?f = "rn_free_list s" and ?l = "getLPhyRd (h q)"
  have own: "fl_wf ?f" "free_list_backup ?f = rn_owned Q @ free_list ?f"
    using assms(1) by (simp_all add: rn_inv_def fl.owned_def)
  have "free_list_backup ?f \<noteq> []" using own(2) assms(3) by auto
  from fl.backup_pop_ok [OF own(1) this] obtain f1 where
    f1: "fl_BackupPop ?f = Inr f1" "fl_wf f1" "free_list f1 = free_list ?f" "fl_valid f1 = fl_valid ?f" by blast
  have "?l \<in> set (free_list_backup ?f) \<union> set (rn_live s)" using own(2) assms(3) by simp
  then have v: "fl_valid ?f ?l"
    using assms(1) rn_inv_committed_distinct(2) [OF assms(1)] by (auto simp: rn_inv_def)
  have "fl_Push ?f ?l = Inl (SpartaAssert ''token'')" by (rule fl_Push_dup [OF own(1) v]) (use assms(3) in blast)
  moreover have "fl_Push f1 ?l = Inl (SpartaAssert ''token'')"
    by (rule fl_Push_dup [OF f1(2)]) (use f1(3,4) v assms(3) in simp_all)
  ultimately show ?thesis using assms(2) f1(1) by (simp add: rn_RobCommit_one_def)
qed

text \<open>
  (C5) A mispredicted instruction that displaced a physical register stops the simulation, in a buffer that may
  retire instructions (its issue width is not zero) and has no limit on how many (\<open>num_insts_to_retire\<close> is zero).
  When such an instruction is the oldest and finished, the reorder buffer sends it to the renaming stage in
  two consecutive cycles, before the flush it asked for can arrive. The first commit releases the register the
  instruction displaced; the second releases it again and runs into the assertion of the free list. The renaming
  stage is in any state of its invariant, which every reachable state satisfies, with the instruction as the
  oldest in flight. An instruction that displaced no register (one without destination, or the first writer of
  its register) has \<open>getLPhyRd = 0\<close> and releases nothing; it is not covered.
\<close>

theorem misprediction_releases_register_twice:
  assumes "rob_wf r" "rob_insts r = q # rest" "rob_finish (hd (lq_list (rob_queue r)))"
    and "getIsMissPrediction (h q)" "rob_issue_width r \<noteq> 0" "num_insts_to_retire r = 0"
    and "rn_inv P s (rn_entry_of h q # Q)" "getLPhyRd (h q) \<noteq> 0"
  shows "\<exists>h1 r1 e1 h2 r2 e2 s1 e. rob_Commit h r = Inr (h1, r1, e1) \<and> Rob_cmt_inst_out [q] \<in> set e1
    \<and> commit_event 1 \<in> set e1 \<and> rn_RobCommit h1 s [q] = Inr (s1, e)
    \<and> rob_Commit h1 r1 = Inr (h2, r2, e2) \<and> Rob_cmt_inst_out [q] \<in> set e2
    \<and> rn_RobCommit h2 s1 [q] = Inl (SpartaAssert ''token'')"
proof -
  from rob_Commit_mispredicted [where h = h, OF assms(1-6)] obtain r1 e1 where
    a: "rob_Commit h r = Inr (clear_all [q] h, r1, e1)" "Rob_cmt_inst_out [q] \<in> set e1" "commit_event 1 \<in> set e1"
      "rob_wf r1" "rob_insts r1 = q # rest" "rob_finish (hd (lq_list (rob_queue r1)))"
      "rob_issue_width r1 \<noteq> 0" "num_insts_to_retire r1 = 0" using assms(5) by auto
  let ?h1 = "clear_all [q] h"
  have "getIsMissPrediction (?h1 q)" using assms(4) by (simp only: clear_all_keeps)
  from rob_Commit_mispredicted [where h = ?h1, OF a(4-6) this a(7,8)] obtain r2 e2 where
    b: "rob_Commit ?h1 r1 = Inr (clear_all [q] ?h1, r2, e2)" "Rob_cmt_inst_out [q] \<in> set e2" by auto
  let ?h2 = "clear_all [q] ?h1"
  have l: "getLPhyRd (?h1 q) = getLPhyRd (h q)" "getLPhyRd (?h2 q) = getLPhyRd (h q)"
    by (simp_all only: clear_all_registers)
  have "rn_entry_of ?h1 q = rn_entry_of h q" by (simp only: rn_entry_of_def clear_all_registers)
  with assms(7) have "rn_inv P s (rn_entry_of ?h1 q # Q)" by simp
  from rn_RobCommit_one_ok [OF this, of "[]"] obtain s1 e where
    c: "rn_RobCommit_one ?h1 (s, []) q = Inr (s1, e)" "rn_inv P s1 Q" by blast
  have "getLPhyRd (?h2 q) \<in> set (free_list (rn_free_list s1))"
    using rn_commit_frees [OF c(1)] assms(8) unfolding l by blast
  then have "rn_RobCommit_one ?h2 (s1, []) q = Inl (SpartaAssert ''token'')"
    using rn_commit_again_fails [OF c(2), where h = ?h2 and q = q and effs = "[]"] assms(8) unfolding l by blast
  with a b c show ?thesis
    by (intro exI [of _ ?h1] exI [of _ r1] exI [of _ e1] exI [of _ ?h2] exI [of _ r2] exI [of _ e2]
        exI [of _ s1] exI [of _ e]) (simp add: rn_RobCommit_def)
qed

text \<open>A renaming stage with registers 1 to 3: 1 is committed for register 1, 2 in flight for it, 3 free.\<close>

definition demo_renaming :: RenamingStage where
  "demo_renaming = \<lparr>renaming_stage_queue = [],
     rn_free_list = \<lparr>free_list = [3], free_list_backup = [2, 3], free_list_idx_vector = [0, 0, 0, 1],
       free_list_idx_vector_backup = [0, 0, 1, 1]\<rparr>,
     rn_renaming_table = \<lparr>isa_reg_num = 2, renaming_table = [0, 2], renaming_table_backup = [0, 1]\<rparr>,
     rn_issue_width = 4, renaming_stage_queue_depth = 4, rn_is_perfect_lsu = True, physical_reg_credit = 0,
     rn_dispatch_credit = 0, rn_rob_credit = 0, rn_ldq_credit = 0, rn_stq_credit = 0\<rparr>"

definition demo_branch :: inst_heap where
  "demo_branch p = setIsaRd 1 (setPhyRd 2 (setLPhyRd 1 (rob_example_heap p)))"

lemma unat_less_4: "unat (t :: u64) < Suc (Suc (Suc (Suc 0))) \<longleftrightarrow> t \<in> {0, 1, 2, 3}"
  by (auto simp: word_unat_eq_iff)

lemma demo_renaming_inv: "rn_inv 4 demo_renaming [rn_entry_of demo_branch 0]"
proof -
  have e: "rn_entry_of demo_branch 0 = (1, 2, 1)" by (simp add: rn_entry_of_def demo_branch_def)
  let ?f = "rn_free_list demo_renaming"
  have "fl_wf ?f" by (auto simp: fl_wf_def counts_def demo_renaming_def unat_less_4)
  then have "fl.owned ?f (rn_owned [(1, 2, 1)])" by (simp add: fl.owned_def rn_owned_def demo_renaming_def)
  moreover have two: "unat j < 2 \<Longrightarrow> j = 0 \<or> j = 1" for j :: IsaRegId_t
    by (auto simp: word_unat_eq_iff)
  have "rt.ahead (rn_renaming_table demo_renaming) (rn_writes [(1, 2, 1)])"
    by (auto simp: rt.ahead_def rt_wf_def rn_writes_def demo_renaming_def rt_ok_def rt_spec_def rt_base_def
        rt.replay_def word_less_nat_alt dest!: two)
  moreover have "fl_tokens 4 = [1, 2, 3]" by (simp add: fl_tokens_def upt_rec)
  moreover have "\<forall>t. fl_valid ?f t \<longleftrightarrow> unat t < 4"
    by (simp add: fl_valid_def demo_renaming_def eval_nat_numeral)
  ultimately show ?thesis
    unfolding e rn_inv_def by (simp add: demo_renaming_def rt_base_def rn_live_def)
qed

theorem misprediction_releases_register_twice_witness:
  "\<exists>r h1 r1 e1 h2 r2 e2 s1 e. rob_Commit demo_branch r = Inr (h1, r1, e1) \<and> Rob_cmt_inst_out [0] \<in> set e1
    \<and> rn_RobCommit h1 demo_renaming [0] = Inr (s1, e) \<and> rob_Commit h1 r1 = Inr (h2, r2, e2)
    \<and> rn_RobCommit h2 s1 [0] = Inl (SpartaAssert ''token'')"
proof -
  obtain r where r: "rob_wf r" "rob_insts r = [0, 1]" "rob_finish (hd (lq_list (rob_queue r)))"
    "rob_issue_width r = 4" "num_insts_to_retire r = 0" using rob_example_mispredicted by blast
  have m: "getIsMissPrediction (demo_branch 0)" "rob_issue_width r \<noteq> 0" "getLPhyRd (demo_branch 0) \<noteq> 0"
    using r(4) by (simp_all add: demo_branch_def rob_example_heap_def)
  from misprediction_releases_register_twice [OF r(1-3) m(1,2) r(5) demo_renaming_inv m(3)] show ?thesis by blast
qed

section \<open>Cache and memory\<close>

text \<open>
  (C6) A miss is served by the memory behind the cache. From an idle cache with credit, in front of an
  \<open>AbstractMemory\<close>, a request for a line that is not cached and whose set has a free way is sent to the
  memory, which answers it after its latency and returns the credit; the cache then queues the answer for
  the core, fills the line and frees the register. At the end the line is cached and the cache has the
  credit it started with.
\<close>

theorem cache_miss_served_by_memory:
  assumes "bc_shape s" "mshr_wf (mshr s)" "mshr_used (mshr s) = 0" "next_level_credit s \<noteq> 0"
    and "a = ma_address (bc_acc s req)" "\<not> bc_holds s a"
    and "\<not> list_all te_valid (tagram s ! unat (bc_getIndex s a))" "am_upstream_access_ports_num m \<noteq> 0"
  shows "\<exists>s1 s2 c s3 s4 s5. funcaccess s [req] = Inr s1
    \<and> handleMshr s1 = Inr s2 \<and> bc_out s2 = bc_out s1 @ [out_access_req [req], ev_handle_mshr 1]
    \<and> am_receive_mem_req m [req] = Inr [am_ev_handle_mem_req [req] (am_access_latency m)]
    \<and> am_handle_mem_req m [req] = Inr [am_mem_resp_out [req], am_out_upstream_credit c]
    \<and> bc_recvResp (bc_recvCredit s2 c) [req] = Inr s3 \<and> out_resp_queue s3 = out_resp_queue s @ [req]
    \<and> handleMshr s3 = Inr s4 \<and> handleMshr s4 = Inr s5
    \<and> bc_holds s5 a \<and> mshr_used (mshr s5) = 0 \<and> next_level_credit s5 = next_level_credit s"
proof -
  from miss_requested [OF assms(1-4)] assms(5,6) obtain s1 s2 where
    q: "funcaccess s [req] = Inr s1" "handleMshr s1 = Inr s2"
      "bc_out s2 = bc_out s1 @ [out_access_req [req], ev_handle_mshr 1]" "one_entry s2 req MS_SEND_REQ"
      "ma_mshrid (bc_acc s2 req) = mshr_header (mshr s2)" "ma_address (bc_acc s2 req) = a" "bc_shape s2"
      "bc_geo s2 = bc_geo s" "out_resp_queue s2 = out_resp_queue s"
      "next_level_credit s2 = next_level_credit s - 1" by blast
  let ?t = "bc_recvCredit s2 1"
  have t: "one_entry ?t req MS_SEND_REQ" "bc_shape ?t" "ma_mshrid (bc_acc ?t req) = mshr_header (mshr ?t)"
    using q(4,5,7) by (simp_all add: bc_recvCredit_def one_entry_def)
  from bc_recvResp_one [OF t] obtain m1 es where
    r: "bc_recvResp ?t [req] = Inr ((?t\<lparr>mshr := m1, out_resp_queue := out_resp_queue ?t @ [req]\<rparr>)\<lparr>bc_out := bc_out ?t @ es\<rparr>)"
      "one_entry (?t\<lparr>mshr := m1\<rparr>) req MS_RECV_WHOLE_LINE" by blast
  define s3 where "s3 = (?t\<lparr>mshr := m1, out_resp_queue := out_resp_queue ?t @ [req]\<rparr>)\<lparr>bc_out := bc_out ?t @ es\<rparr>"
  have s3: "one_entry s3 req MS_RECV_WHOLE_LINE" "bc_shape s3" "ma_address (bc_acc s3 req) = a" "bc_geo s3 = bc_geo s"
    "out_resp_queue s3 = out_resp_queue s @ [req]" "next_level_credit s3 = next_level_credit s"
    using r(2) q(6-10) by (simp_all add: s3_def one_entry_def bc_recvCredit_def bc_shape_def bc_geometry_def)
  have "\<not> list_all te_valid (tagram s3 ! unat (bc_getIndex s3 (ma_address (bc_acc s3 req))))"
    unfolding s3(3) bc_address_geo [OF s3(4)] by (rule assms(7))
  from line_filled [OF s3(1,2) this] obtain s4 s5 where
    f: "handleMshr s3 = Inr s4" "handleMshr s4 = Inr s5" "mshr_used (mshr s5) = 0" "bc_holds s5 a"
      "next_level_credit s5 = next_level_credit s3" unfolding s3(3) by blast
  have "length [req] \<le> unat (am_upstream_access_ports_num m)" using assms(8) by (simp add: Suc_le_eq unat_gt_0)
  from am_answers [OF this] q(1-3) r(1) s3(5,6) f show ?thesis
    unfolding s3_def [symmetric] by (intro exI [of _ s1] exI [of _ s2] exI [of _ 1] exI [of _ s3] exI [of _ s4] exI [of _ s5]) simp
qed

theorem cache_miss_served_by_memory_witness:
  "\<exists>s1 s2 s3 s5. funcaccess (bc_recvCredit bc_start 1) [0] = Inr s1 \<and> handleMshr s1 = Inr s2
    \<and> am_handle_mem_req (mk_AbstractMemroy 5 1) [0] = Inr [am_mem_resp_out [0], am_out_upstream_credit 1]
    \<and> bc_recvResp (bc_recvCredit s2 1) [0] = Inr s3 \<and> bc_holds s5 0 \<and> next_level_credit s5 = 1"
proof -
  let ?s = "bc_recvCredit bc_start 1" and ?m = "mk_AbstractMemroy 5 1"
  have sh: "bc_shape ?s" using bc_start_shape by (simp add: bc_recvCredit_def)
  have m: "mshr_wf (mshr ?s)" "mshr_used (mshr ?s) = 0" "next_level_credit ?s \<noteq> 0" "0 = ma_address (bc_acc ?s 0)"
    "am_upstream_access_ports_num ?m \<noteq> 0" "next_level_credit ?s = 1"
    by (simp_all add: bc_recvCredit_def bc_start_fields mshr_wf_def mk_MemAccInfo_def mk_AbstractMemroy_def)
  have "tagram ?s ! unat (bc_getIndex ?s 0) \<in> set (tagram ?s)" using bc_shape_index(2) [OF sh] by simp
  then have "tagram ?s ! unat (bc_getIndex ?s 0) = [mk_TagEntry, mk_TagEntry]"
    by (auto simp: bc_recvCredit_def bc_start_fields)
  then have e: "\<not> bc_holds ?s 0" "\<not> list_all te_valid (tagram ?s ! unat (bc_getIndex ?s 0))"
    by (simp_all add: bc_holds_def mk_TagEntry_def)
  from cache_miss_served_by_memory [OF sh m(1-4) e m(5)] m(6) obtain s1 s2 c s3 s5 where
    w: "funcaccess ?s [0] = Inr s1" "handleMshr s1 = Inr s2"
      "am_handle_mem_req ?m [0] = Inr [am_mem_resp_out [0], am_out_upstream_credit c]"
      "bc_recvResp (bc_recvCredit s2 c) [0] = Inr s3" "bc_holds s5 0" "next_level_credit s5 = 1" by auto
  from w(3) have "c = 1" by (simp add: am_handle_mem_req_def mk_AbstractMemroy_def)
  with w show ?thesis by blast
qed

text \<open>
  \<open>DRAMsim3\<close> cannot serve a cache with several miss registers. It answers with a fresh access whose
  register number is 0, so when the one outstanding miss of the cache waits in another register and register 0 is unused, the
  answer to that miss fails the status assertion of the cache.
\<close>

theorem cache_rejects_DRAMsim3_answer:
  assumes "one_entry s req MS_SEND_REQ" "downstream_access_ports_num s \<noteq> 0"
    and "mshr_header (mshr s) \<noteq> 0" "me_status (mshr_queue (mshr s) ! 0) = MS_NO_TYPE"
    and "dr_inv d" "length (dr_memory_req_queue d) < 8" "dr_upstream_access_ports_num d \<noteq> 0"
    and "will (dr_memory_system d) (ma_address (bc_acc s req)) (ma_mem_op (bc_acc s req) = MO_STORE)"
  shows "\<exists>d1 d2 x. dr_receive_mem_req will add d [bc_acc s req] = Inr (d1, [DRAM_clk_event 1])
    \<and> dr_Read_CallBack d1 (ma_address (bc_acc s req)) = Inr (d2, [dr_mem_resp_out x, dr_out_upstream_credit 1])
    \<and> ma_address x = ma_address (bc_acc s req)
    \<and> (\<forall>r. bc_recvResp (s\<lparr>bc_acc := (bc_acc s)(r := x)\<rparr>) [r] = Inl (SpartaAssert ''mshr status''))"
proof -
  from dr_request_answered [where will = will and add = add and r = "bc_acc s req", OF assms(5-8)] obtain d1 d2 x where
    x: "dr_receive_mem_req will add d [bc_acc s req] = Inr (d1, [DRAM_clk_event 1])"
      "dr_Read_CallBack d1 (ma_address (bc_acc s req)) = Inr (d2, [dr_mem_resp_out x, dr_out_upstream_credit 1])"
      "ma_address x = ma_address (bc_acc s req)" "ma_mshrid x = 0" by blast
  have "mshr_queue (mshr s) \<noteq> []" using one_entry_slot(2) [OF assms(1)] by auto
  then have "bc_recvResp (s\<lparr>bc_acc := (bc_acc s)(r := x)\<rparr>) [r] = Inl (SpartaAssert ''mshr status'')" for r
    using x(4) assms(2,4) by (simp add: bc_recvResp_def mshrRecvResp_def mshr_at_def Suc_le_eq unat_gt_0)
  with x show ?thesis by blast
qed

definition demo_second_miss :: BaseCache where
  "demo_second_miss = bc_start\<lparr>mshr := \<lparr>mshr_queue = [mk_MSHREntry,
       \<lparr>me_addr = 0, me_req = Some 0, me_status = MS_SEND_REQ, me_valid = True\<rparr>],
     mshr_qsize = 2, mshr_used = 1, mshr_header = 1, mshr_tail = 0\<rparr>\<rparr>"

theorem cache_rejects_DRAMsim3_answer_witness:
  "\<exists>d1 d2 x. dr_receive_mem_req (\<lambda>_ _ _. True) demo_add (mk_DRAMsim3 5 1 [] 0) [mk_MemAccInfo] = Inr (d1, [DRAM_clk_event 1])
    \<and> dr_Read_CallBack d1 0 = Inr (d2, [dr_mem_resp_out x, dr_out_upstream_credit 1])
    \<and> bc_recvResp (demo_second_miss\<lparr>bc_acc := (bc_acc demo_second_miss)(7 := x)\<rparr>) [7] = Inl (SpartaAssert ''mshr status'')"
proof -
  let ?s = demo_second_miss
  have s: "one_entry ?s 0 MS_SEND_REQ" "downstream_access_ports_num ?s \<noteq> 0" "mshr_header (mshr ?s) \<noteq> 0"
    "me_status (mshr_queue (mshr ?s) ! 0) = MS_NO_TYPE" "bc_acc ?s 0 = mk_MemAccInfo"
    by (simp_all add: demo_second_miss_def one_entry_def mshr_wf_def mk_MSHREntry_def bc_start_fields)
  have "dr_inv (mk_DRAMsim3 5 1 ([] :: (u64 \<times> bool) list) 0)" by (simp add: dr_inv_def mk_DRAMsim3_def)
  from cache_rejects_DRAMsim3_answer [OF s(1-4) this, of "\<lambda>_ _ _. True" demo_add] show ?thesis
    unfolding s(5) by (auto simp: mk_DRAMsim3_def mk_MemAccInfo_def)
qed

end
